(* ===== verification/Prelude.thy ===== *)
theory Prelude
  imports Main "HOL-Library.Word" "HOL-Library.Multiset" "HOL-Library.Monad_Syntax"
begin

section \<open>Shared types, machine constants and generic lemmas\<close>

text \<open>
  What every component of the development shares: names for the C integer types and their
  limits, the model of a C array whose accesses are bounds-checked, the reading of the
  \<open>option\<close> type as "the call may abort" and the generic lemmas on lists, options and words.

  A C function that can stop the process (\<open>tor_assert\<close>, \<open>raw_assert\<close>), read or write outside
  an object, or fail to return has a result of type \<open>'a option\<close> in the model, with \<open>None\<close> for
  all three. A lemma that such a function returns \<open>Some\<close> is therefore a statement of total
  correctness and memory safety at once.
\<close>

unbundle bit_operations_syntax

subsection \<open>C integer types and limits\<close>

type_synonym byte = "8 word"
type_synonym u8 = "8 word"
type_synonym u16 = "16 word"
type_synonym u32 = "32 word"
type_synonym u64 = "64 word"

definition INT_MAX :: int where
  "INT_MAX = 2147483647"

definition INT32_MAX :: int where
  "INT32_MAX = 2147483647"

definition UINT32_MAX :: nat where
  "UINT32_MAX = 4294967295"

text \<open>\<open>SIZE_T_CEILING\<close> is \<open>SSIZE_MAX - 16\<close> on a platform with a 64-bit \<open>size_t\<close>.\<close>

definition SIZE_T_CEILING :: nat where
  "SIZE_T_CEILING = 9223372036854775791"

text \<open>The \<open>CEIL_DIV\<close> macro of \<^verbatim>\<open>lib/intmath/muldiv.h\<close>.\<close>

definition CEIL_DIV :: "nat \<Rightarrow> nat \<Rightarrow> nat" where
  "CEIL_DIV a b = (a + (b - 1)) div b"

text \<open>
  Where a component mixes widths, its integers are HOL integers, and the conversions the C code
  performs are written out: to an unsigned type modulo a power of two, to a signed type in two's
  complement, which is what the supported compilers do.
\<close>

definition to_u32 :: "int \<Rightarrow> int" where
  "to_u32 x = x mod 4294967296"

definition to_u64 :: "int \<Rightarrow> int" where
  "to_u64 x = x mod 18446744073709551616"

definition to_i32 :: "int \<Rightarrow> int" where
  "to_i32 x = (x + 2147483648) mod 4294967296 - 2147483648"

definition to_i64 :: "int \<Rightarrow> int" where
  "to_i64 x = (x + 9223372036854775808) mod 18446744073709551616 - 9223372036854775808"

definition is_u32 :: "int \<Rightarrow> bool" where
  "is_u32 x \<longleftrightarrow> 0 \<le> x \<and> x < 4294967296"

definition is_u64 :: "int \<Rightarrow> bool" where
  "is_u64 x \<longleftrightarrow> 0 \<le> x \<and> x < 18446744073709551616"

definition is_i32 :: "int \<Rightarrow> bool" where
  "is_i32 x \<longleftrightarrow> -2147483648 \<le> x \<and> x < 2147483648"

definition is_i64 :: "int \<Rightarrow> bool" where
  "is_i64 x \<longleftrightarrow> -9223372036854775808 \<le> x \<and> x < 9223372036854775808"

lemmas is_int_defs = is_u32_def is_u64_def is_i32_def is_i64_def

lemma to_int_id [simp]:
  "is_u32 x \<Longrightarrow> to_u32 x = x"
  "is_u64 x \<Longrightarrow> to_u64 x = x"
  "is_i32 x \<Longrightarrow> to_i32 x = x"
  "is_i64 x \<Longrightarrow> to_i64 x = x"
  by (simp_all add: is_int_defs to_u32_def to_u64_def to_i32_def to_i64_def)

lemma to_int_range [simp]:
  "is_u32 (to_u32 x)" "is_u64 (to_u64 x)" "is_i32 (to_i32 x)" "is_i64 (to_i64 x)"
  using pos_mod_bound [of 4294967296 "x + 2147483648"] pos_mod_sign [of 4294967296 "x + 2147483648"]
    pos_mod_bound [of 18446744073709551616 "x + 9223372036854775808"]
    pos_mod_sign [of 18446744073709551616 "x + 9223372036854775808"]
  by (simp_all add: is_int_defs to_u32_def to_u64_def to_i32_def to_i64_def)

subsection \<open>Collections of simplification and introduction rules\<close>

named_theorems array_simps \<open>evaluation of bounds-checked array accesses\<close>
named_theorems sl_simps \<open>facts on smartlists that component proofs rewrite with\<close>
named_theorems sl_inv_intros \<open>preservation of the smartlist invariant\<close>
named_theorems cd_simps \<open>facts on consensus lines that component proofs rewrite with\<close>

subsection \<open>The option monad\<close>

lemmas bind_option_cong [fundef_cong] = Option.bind_cong

text \<open>\<open>tor_assert\<close> and \<open>raw_assert\<close>: continue when the condition holds, stop otherwise.\<close>

definition guard :: "bool \<Rightarrow> unit option" where
  "guard b = (if b then Some () else None)"

lemma guard_simps [simp]: "guard True = Some ()" "guard False = None"
  by (simp_all add: guard_def)

lemma guard_Some_iff [simp]: "guard b = Some u \<longleftrightarrow> b"
  by (simp add: guard_def)

lemma bind_guard [simp]: "Option.bind (guard b) f = (if b then f () else None)"
  by (simp add: guard_def)

subsection \<open>Bounds-checked arrays\<close>

text \<open>
  A C array of known length as a HOL list. \<open>arr_get\<close> and \<open>arr_set\<close> are an indexed read and
  write; \<open>arr_fill\<close> is \<open>memset\<close> of a run of entries; \<open>arr_blit\<close> is \<open>memcpy\<close> or \<open>memmove\<close> of the
  entries \<open>ys\<close> to offset \<open>off\<close>; \<open>arr_slice\<close> reads a run of entries, the source of such a copy.
  An access outside the array is \<open>None\<close>.
\<close>

definition arr_get :: "'a list \<Rightarrow> nat \<Rightarrow> 'a option" where
  "arr_get xs i = (if i < length xs then Some (xs ! i) else None)"

definition arr_set :: "'a list \<Rightarrow> nat \<Rightarrow> 'a \<Rightarrow> 'a list option" where
  "arr_set xs i v = (if i < length xs then Some (xs[i := v]) else None)"

definition arr_slice :: "'a list \<Rightarrow> nat \<Rightarrow> nat \<Rightarrow> 'a list option" where
  "arr_slice xs off n = (if off + n \<le> length xs then Some (take n (drop off xs)) else None)"

definition arr_blit :: "'a list \<Rightarrow> nat \<Rightarrow> 'a list \<Rightarrow> 'a list option" where
  "arr_blit xs off ys =
     (if off + length ys \<le> length xs then Some (take off xs @ ys @ drop (off + length ys) xs)
      else None)"

definition arr_fill :: "'a list \<Rightarrow> nat \<Rightarrow> nat \<Rightarrow> 'a \<Rightarrow> 'a list option" where
  "arr_fill xs off n v = arr_blit xs off (replicate n v)"

lemma arr_get_in [array_simps]: "i < length xs \<Longrightarrow> arr_get xs i = Some (xs ! i)"
  by (simp add: arr_get_def)

lemma arr_set_in [array_simps]: "i < length xs \<Longrightarrow> arr_set xs i v = Some (xs[i := v])"
  by (simp add: arr_set_def)

lemma arr_slice_in [array_simps]:
  "off + n \<le> length xs \<Longrightarrow> arr_slice xs off n = Some (take n (drop off xs))"
  by (simp add: arr_slice_def)

lemma arr_blit_in [array_simps]:
  "off + length ys \<le> length xs \<Longrightarrow>
     arr_blit xs off ys = Some (take off xs @ ys @ drop (off + length ys) xs)"
  by (simp add: arr_blit_def)

lemma arr_fill_in [array_simps]:
  "off + n \<le> length xs \<Longrightarrow>
     arr_fill xs off n v = Some (take off xs @ replicate n v @ drop (off + n) xs)"
  by (simp add: arr_fill_def arr_blit_def)

declare Let_def [array_simps]

subsection \<open>Signs of comparison results\<close>

lemma sgn_le_pos: "sgn (a::int) \<le> sgn b \<Longrightarrow> 0 < a \<Longrightarrow> 0 < b"
  by (auto simp: sgn_if split: if_splits)

lemma sgn_le_neg: "sgn (a::int) \<le> sgn b \<Longrightarrow> b < 0 \<Longrightarrow> a < 0"
  by (auto simp: sgn_if split: if_splits)

subsection \<open>Lists\<close>

lemma take_list_update_beyond [simp]: "n \<le> i \<Longrightarrow> take n (xs[i := v]) = take n xs"
  by (simp add: take_update_cancel)

lemma butlast_take_Suc: "n < length xs \<Longrightarrow> butlast (take (Suc n) xs) = take n xs"
  by (simp add: take_Suc_conv_app_nth)

end
