(* ===== verification/Smartlist.thy ===== *)
theory Smartlist
  imports Prelude
begin

section \<open>Smartlists: the resizeable array of \<^verbatim>\<open>lib/smartlist_core/smartlist_core.c\<close>\<close>

text \<open>
  The record \<open>smartlist\<close> is \<open>smartlist_t\<close>: the allocated array of pointers (\<open>None\<close> is the null
  pointer), the number of entries in use and the capacity. Every operation is translated with
  its assertions and with bounds-checked array accesses, so a result \<open>Some\<close> says that no
  assertion failed, no access left the array and the growth loop returned.

  \<open>sl_inv\<close> is the invariant the code relies on and \<open>sl_abs\<close> the sequence a smartlist stands
  for. The locale \<open>sequence\<close> states what clients expect of a growing array, and the
  smartlist operations interpret it.
\<close>

record 'a smartlist =
  sl_list :: "'a option list"
  num_used :: nat
  capacity :: nat

definition SMARTLIST_DEFAULT_CAPACITY :: nat where
  "SMARTLIST_DEFAULT_CAPACITY = 16"

text \<open>\<open>MAX_CAPACITY\<close> is \<open>INT_MAX\<close> where pointers have eight bytes.\<close>

definition MAX_CAPACITY :: nat where
  "MAX_CAPACITY = 2147483647"

definition smartlist_new :: "'a smartlist" where
  "smartlist_new =
     \<lparr>sl_list = replicate SMARTLIST_DEFAULT_CAPACITY None, num_used = 0,
      capacity = SMARTLIST_DEFAULT_CAPACITY\<rparr>"

definition smartlist_clear :: "'a smartlist \<Rightarrow> 'a smartlist option" where
  "smartlist_clear sl =
     do {
       l \<leftarrow> arr_fill (sl_list sl) 0 (num_used sl) None;
       Some (sl\<lparr>sl_list := l, num_used := 0\<rparr>)
     }"

text \<open>The loop \<open>while (size > higher) higher *= 2\<close>; it does not return when \<open>higher\<close> is 0.\<close>

partial_function (option) double_until :: "nat \<Rightarrow> nat \<Rightarrow> nat option" where
  "double_until sz higher =
     (if higher < sz then double_until sz (2 * higher) else Some higher)"

definition smartlist_ensure_capacity :: "'a smartlist \<Rightarrow> nat \<Rightarrow> 'a smartlist option" where
  "smartlist_ensure_capacity sl sz =
     do {
       guard (sz \<le> MAX_CAPACITY);
       (if capacity sl < sz then
          do {
            higher \<leftarrow> (if MAX_CAPACITY div 2 < sz then Some MAX_CAPACITY
                      else double_until sz (capacity sl));
            Some (sl\<lparr>sl_list := sl_list sl @ replicate (higher - capacity sl) None,
                     capacity := higher\<rparr>)
          }
        else Some sl)
     }"

definition smartlist_grow :: "'a smartlist \<Rightarrow> nat \<Rightarrow> 'a smartlist option" where
  "smartlist_grow sl new_size =
     do {
       sl \<leftarrow> smartlist_ensure_capacity sl new_size;
       (if num_used sl < new_size then
          do {
            l \<leftarrow> arr_fill (sl_list sl) (num_used sl) (new_size - num_used sl) None;
            Some (sl\<lparr>sl_list := l, num_used := new_size\<rparr>)
          }
        else Some sl)
     }"

definition smartlist_add :: "'a smartlist \<Rightarrow> 'a option \<Rightarrow> 'a smartlist option" where
  "smartlist_add sl element =
     do {
       sl \<leftarrow> smartlist_ensure_capacity sl (num_used sl + 1);
       l \<leftarrow> arr_set (sl_list sl) (num_used sl) element;
       Some (sl\<lparr>sl_list := l, num_used := num_used sl + 1\<rparr>)
     }"

definition smartlist_add_all :: "'a smartlist \<Rightarrow> 'a smartlist \<Rightarrow> 'a smartlist option" where
  "smartlist_add_all s1 s2 =
     do {
       let new_size = num_used s1 + num_used s2;
       s1 \<leftarrow> smartlist_ensure_capacity s1 new_size;
       src \<leftarrow> arr_slice (sl_list s2) 0 (num_used s2);
       l \<leftarrow> arr_blit (sl_list s1) (num_used s1) src;
       guard (int new_size \<le> INT_MAX);
       Some (s1\<lparr>sl_list := l, num_used := new_size\<rparr>)
     }"

text \<open>The loop of \<open>smartlist_remove\<close>: \<open>i--\<close> and the loop's \<open>i++\<close> leave the index where it was.\<close>

function smartlist_remove_loop :: "'a option \<Rightarrow> 'a smartlist \<Rightarrow> nat \<Rightarrow> 'a smartlist option" where
  "smartlist_remove_loop element sl i =
     (if i < num_used sl then
        do {
          x \<leftarrow> arr_get (sl_list sl) i;
          (if x = element then
             do {
               let n = num_used sl - 1;
               lst \<leftarrow> arr_get (sl_list sl) n;
               l \<leftarrow> arr_set (sl_list sl) i lst;
               l \<leftarrow> arr_set l n None;
               smartlist_remove_loop element (sl\<lparr>sl_list := l, num_used := n\<rparr>) i
             }
           else smartlist_remove_loop element sl (i + 1))
        }
      else Some sl)"
  by pat_completeness auto
termination
  by (relation "measure (\<lambda>(e, sl, i). num_used sl - i)") auto

definition smartlist_remove :: "'a smartlist \<Rightarrow> 'a option \<Rightarrow> 'a smartlist option" where
  "smartlist_remove sl element =
     (case element of
        None \<Rightarrow> Some sl
      | Some _ \<Rightarrow> smartlist_remove_loop element sl 0)"

text \<open>
  The loop of \<open>smartlist_remove_keeporder\<close> over the read index \<open>j\<close> and the write index \<open>i\<close>,
  up to the number of entries at the call.
\<close>

function smartlist_remove_keeporder_loop ::
  "'a option \<Rightarrow> nat \<Rightarrow> 'a smartlist \<Rightarrow> nat \<Rightarrow> nat \<Rightarrow> 'a smartlist option" where
  "smartlist_remove_keeporder_loop element num_used_orig sl i j =
     (if j < num_used_orig then
        do {
          x \<leftarrow> arr_get (sl_list sl) j;
          (if x = element then
             smartlist_remove_keeporder_loop element num_used_orig
               (sl\<lparr>num_used := num_used sl - 1\<rparr>) i (j + 1)
           else
             do {
               l \<leftarrow> arr_set (sl_list sl) i x;
               smartlist_remove_keeporder_loop element num_used_orig
                 (sl\<lparr>sl_list := l\<rparr>) (i + 1) (j + 1)
             })
        }
      else Some sl)"
  by pat_completeness auto
termination
  by (relation "measure (\<lambda>(e, n, sl, i, j). n - j)") auto

definition smartlist_remove_keeporder :: "'a smartlist \<Rightarrow> 'a option \<Rightarrow> 'a smartlist option" where
  "smartlist_remove_keeporder sl element =
     (case element of
        None \<Rightarrow> Some sl
      | Some _ \<Rightarrow>
          do {
            sl' \<leftarrow> smartlist_remove_keeporder_loop element (num_used sl) sl 0 0;
            l \<leftarrow> arr_fill (sl_list sl') (num_used sl') (num_used sl - num_used sl') None;
            Some (sl'\<lparr>sl_list := l\<rparr>)
          })"

definition smartlist_pop_last :: "'a smartlist \<Rightarrow> ('a option \<times> 'a smartlist) option" where
  "smartlist_pop_last sl =
     (if num_used sl \<noteq> 0 then
        do {
          let n = num_used sl - 1;
          tmp \<leftarrow> arr_get (sl_list sl) n;
          l \<leftarrow> arr_set (sl_list sl) n None;
          Some (tmp, sl\<lparr>sl_list := l, num_used := n\<rparr>)
        }
      else Some (None, sl))"

function smartlist_contains_loop :: "'a smartlist \<Rightarrow> 'a option \<Rightarrow> nat \<Rightarrow> bool option" where
  "smartlist_contains_loop sl element i =
     (if i < num_used sl then
        do {
          x \<leftarrow> arr_get (sl_list sl) i;
          (if x = element then Some True else smartlist_contains_loop sl element (i + 1))
        }
      else Some False)"
  by pat_completeness auto
termination
  by (relation "measure (\<lambda>(sl, e, i). num_used sl - i)") auto

definition smartlist_contains :: "'a smartlist \<Rightarrow> 'a option \<Rightarrow> bool option" where
  "smartlist_contains sl element = smartlist_contains_loop sl element 0"

definition smartlist_del :: "'a smartlist \<Rightarrow> int \<Rightarrow> 'a smartlist option" where
  "smartlist_del sl idx =
     do {
       guard (0 \<le> idx);
       guard (idx < int (num_used sl));
       let n = num_used sl - 1;
       lst \<leftarrow> arr_get (sl_list sl) n;
       l \<leftarrow> arr_set (sl_list sl) (nat idx) lst;
       l \<leftarrow> arr_set l n None;
       Some (sl\<lparr>sl_list := l, num_used := n\<rparr>)
     }"

definition smartlist_del_keeporder :: "'a smartlist \<Rightarrow> int \<Rightarrow> 'a smartlist option" where
  "smartlist_del_keeporder sl idx =
     do {
       guard (0 \<le> idx);
       guard (idx < int (num_used sl));
       let n = num_used sl - 1;
       l \<leftarrow> (if nat idx < n then
               do {
                 src \<leftarrow> arr_slice (sl_list sl) (nat idx + 1) (n - nat idx);
                 arr_blit (sl_list sl) (nat idx) src
               }
             else Some (sl_list sl));
       l \<leftarrow> arr_set l n None;
       Some (sl\<lparr>sl_list := l, num_used := n\<rparr>)
     }"

definition smartlist_insert :: "'a smartlist \<Rightarrow> int \<Rightarrow> 'a option \<Rightarrow> 'a smartlist option" where
  "smartlist_insert sl idx val =
     do {
       guard (0 \<le> idx);
       guard (idx \<le> int (num_used sl));
       (if idx = int (num_used sl) then smartlist_add sl val
        else
          do {
            sl \<leftarrow> smartlist_ensure_capacity sl (num_used sl + 1);
            l \<leftarrow> (if nat idx < num_used sl then
                    do {
                      src \<leftarrow> arr_slice (sl_list sl) (nat idx) (num_used sl - nat idx);
                      arr_blit (sl_list sl) (nat idx + 1) src
                    }
                  else Some (sl_list sl));
            l \<leftarrow> arr_set l (nat idx) val;
            Some (sl\<lparr>sl_list := l, num_used := num_used sl + 1\<rparr>)
          })
     }"

text \<open>\<open>smartlist_len\<close>, \<open>smartlist_get\<close> and \<open>smartlist_set\<close> of \<^verbatim>\<open>smartlist_core.h\<close>.\<close>

definition smartlist_len :: "'a smartlist \<Rightarrow> nat" where
  "smartlist_len sl = num_used sl"

definition smartlist_get :: "'a smartlist \<Rightarrow> nat \<Rightarrow> 'a option option" where
  "smartlist_get sl idx = arr_get (sl_list sl) idx"

definition smartlist_set :: "'a smartlist \<Rightarrow> nat \<Rightarrow> 'a option \<Rightarrow> 'a smartlist option" where
  "smartlist_set sl idx val =
     do {
       l \<leftarrow> arr_set (sl_list sl) idx val;
       Some (sl\<lparr>sl_list := l\<rparr>)
     }"

definition smartlist_swap :: "'a smartlist \<Rightarrow> nat \<Rightarrow> nat \<Rightarrow> 'a smartlist option" where
  "smartlist_swap sl idx1 idx2 =
     (if idx1 \<noteq> idx2 then
        do {
          elt \<leftarrow> smartlist_get sl idx1;
          x2 \<leftarrow> smartlist_get sl idx2;
          sl \<leftarrow> smartlist_set sl idx1 x2;
          smartlist_set sl idx2 elt
        }
      else Some sl)"

declare smartlist_remove_loop.simps [simp del]
declare smartlist_remove_keeporder_loop.simps [simp del]
declare smartlist_contains_loop.simps [simp del]

subsection \<open>Invariant and abstraction\<close>

text \<open>
  The array has \<open>capacity\<close> entries, at most \<open>INT_MAX\<close> and at least one, the used ones come
  first, and every unused entry is null, as the comment in \<open>smartlist_grow\<close> claims.
\<close>

definition sl_inv :: "'a smartlist \<Rightarrow> bool" where
  "sl_inv sl \<longleftrightarrow>
     length (sl_list sl) = capacity sl \<and> num_used sl \<le> capacity sl \<and>
     0 < capacity sl \<and> capacity sl \<le> MAX_CAPACITY \<and>
     (\<forall>x \<in> set (drop (num_used sl) (sl_list sl)). x = None)"

definition sl_abs :: "'a smartlist \<Rightarrow> 'a option list" where
  "sl_abs sl = take (num_used sl) (sl_list sl)"

text \<open>The normal form of a smartlist with entries \<open>xs\<close> and \<open>k\<close> unused places.\<close>

definition mk_sl :: "'a option list \<Rightarrow> nat \<Rightarrow> 'a smartlist" where
  "mk_sl xs k =
     \<lparr>sl_list = xs @ replicate k None, num_used = length xs, capacity = length xs + k\<rparr>"

definition sl_rel :: "'a smartlist \<Rightarrow> 'a option list \<Rightarrow> bool" where
  "sl_rel sl xs \<longleftrightarrow>
     (\<exists>k. sl = mk_sl xs k \<and> 0 < length xs + k \<and> length xs + k \<le> MAX_CAPACITY)"

lemma mk_sl_simps [simp]:
  "sl_list (mk_sl xs k) = xs @ replicate k None"
  "num_used (mk_sl xs k) = length xs"
  "capacity (mk_sl xs k) = length xs + k"
  by (simp_all add: mk_sl_def)

lemma sl_abs_mk_sl [simp]: "sl_abs (mk_sl xs k) = xs"
  by (simp add: sl_abs_def)

lemma sl_rel_iff: "sl_rel sl xs \<longleftrightarrow> sl_inv sl \<and> sl_abs sl = xs"
proof
  assume "sl_rel sl xs"
  then show "sl_inv sl \<and> sl_abs sl = xs"
    by (auto simp: sl_rel_def sl_inv_def)
next
  assume *: "sl_inv sl \<and> sl_abs sl = xs"
  define k where "k = capacity sl - num_used sl"
  from * have tail: "drop (num_used sl) (sl_list sl) = replicate k None"
    by (intro replicate_eqI) (auto simp: sl_inv_def k_def)
  from * have len: "num_used sl = length xs" "capacity sl = length xs + k"
    by (auto simp: sl_abs_def sl_inv_def k_def)
  have "sl_list sl = xs @ replicate k None"
    using append_take_drop_id [of "num_used sl" "sl_list sl"] tail * by (simp add: sl_abs_def)
  with len have "sl = mk_sl xs k"
    by (cases sl) (simp add: mk_sl_def)
  with * show "sl_rel sl xs"
    by (auto simp: sl_rel_def sl_inv_def)
qed

lemma sl_relE:
  assumes "sl_rel sl xs"
  obtains k where "sl = mk_sl xs k" "0 < length xs + k" "length xs + k \<le> MAX_CAPACITY"
  using assms by (auto simp: sl_rel_def)

lemma sl_rel_mk_sl [simp]:
  "sl_rel (mk_sl xs k) ys \<longleftrightarrow> ys = xs \<and> 0 < length xs + k \<and> length xs + k \<le> MAX_CAPACITY"
  by (auto simp: sl_rel_iff sl_inv_def)

lemma sl_inv_rel: "sl_inv sl \<Longrightarrow> sl_rel sl (sl_abs sl)"
  by (simp add: sl_rel_iff)

lemma sl_rel_length: "sl_rel sl xs \<Longrightarrow> length xs \<le> MAX_CAPACITY"
  by (auto elim: sl_relE)

lemma sl_rel_num_used [sl_simps]: "sl_rel sl xs \<Longrightarrow> num_used sl = length xs"
  by (auto elim: sl_relE)

lemma sl_rel_get [sl_simps]: "sl_rel sl xs \<Longrightarrow> i < length xs \<Longrightarrow> arr_get (sl_list sl) i = Some (xs ! i)"
  by (auto elim!: sl_relE simp: array_simps nth_append)

subsection \<open>Each operation on the normal form\<close>

lemma smartlist_new_mk_sl: "smartlist_new = mk_sl [] 16"
  by (simp add: smartlist_new_def mk_sl_def SMARTLIST_DEFAULT_CAPACITY_def)

lemma smartlist_new_rel [sl_inv_intros]: "sl_rel smartlist_new []"
  by (simp add: smartlist_new_mk_sl MAX_CAPACITY_def)

text \<open>The growth loop returns, and overshoots the request by less than a factor of two.\<close>

lemma double_until_returns:
  assumes "0 < h" "h \<le> n"
  shows "\<exists>r. double_until n h = Some r \<and> n \<le> r \<and> r < 2 * n"
  using assms
proof (induction "n - h" arbitrary: h rule: less_induct)
  case less
  show ?case
  proof (cases "h < n")
    case False
    with less.prems show ?thesis by (simp add: double_until.simps)
  next
    case True
    show ?thesis
    proof (cases "2 * h \<le> n")
      case two: True
      from two less.prems True have "n - 2 * h < n - h" by simp
      with less.hyps two less.prems have
        "\<exists>r. double_until n (2 * h) = Some r \<and> n \<le> r \<and> r < 2 * n" by simp
      with True show ?thesis by (simp add: double_until.simps [of n h])
    next
      case False
      with True show ?thesis
        by (simp add: double_until.simps [of n h] double_until.simps [of n "2 * h"])
    qed
  qed
qed

lemma smartlist_ensure_capacity_rel:
  assumes "sl_rel sl xs" "sz \<le> MAX_CAPACITY"
  shows "\<exists>k. smartlist_ensure_capacity sl sz = Some (mk_sl xs k) \<and> sz \<le> length xs + k \<and>
           0 < length xs + k \<and> length xs + k \<le> MAX_CAPACITY"
proof -
  from assms(1) obtain k where k: "sl = mk_sl xs k" "0 < length xs + k" "length xs + k \<le> MAX_CAPACITY"
    by (rule sl_relE)
  have grown: "sl\<lparr>sl_list := sl_list sl @ replicate (h - capacity sl) None, capacity := h\<rparr>
      = mk_sl xs (h - length xs)" if "length xs + k \<le> h" for h
    using that by (simp add: k(1) mk_sl_def replicate_add [symmetric])
  show ?thesis
  proof (cases "length xs + k < sz")
    case False
    with k assms(2) show ?thesis
      by (auto simp: smartlist_ensure_capacity_def)
  next
    case True
    show ?thesis
    proof (cases "MAX_CAPACITY div 2 < sz")
      case big: True
      have "smartlist_ensure_capacity sl sz = Some (mk_sl xs (MAX_CAPACITY - length xs))"
        using True big assms(2) k grown [of MAX_CAPACITY] by (simp add: smartlist_ensure_capacity_def)
      with assms(2) k show ?thesis by auto
    next
      case False
      from True k(2) obtain r where r: "double_until sz (length xs + k) = Some r" "sz \<le> r" "r < 2 * sz"
        using double_until_returns [of "length xs + k" sz] by auto
      have "smartlist_ensure_capacity sl sz = Some (mk_sl xs (r - length xs))"
        using True False assms(2) k r grown [of r] by (simp add: smartlist_ensure_capacity_def)
      moreover have "r \<le> MAX_CAPACITY" using r False by linarith
      ultimately show ?thesis using True r by auto
    qed
  qed
qed

lemma smartlist_clear_rel:
  "sl_rel sl xs \<Longrightarrow> \<exists>sl'. smartlist_clear sl = Some sl' \<and> sl_rel sl' []"
proof (elim sl_relE)
  fix k assume k: "sl = mk_sl xs k" "0 < length xs + k" "length xs + k \<le> MAX_CAPACITY"
  then have "smartlist_clear sl = Some (mk_sl [] (length xs + k))"
    by (simp add: smartlist_clear_def array_simps mk_sl_def replicate_add)
  with k show ?thesis by simp
qed

lemma smartlist_add_rel:
  assumes "sl_rel sl xs" "length xs < MAX_CAPACITY"
  shows "\<exists>sl'. smartlist_add sl x = Some sl' \<and> sl_rel sl' (xs @ [x])"
proof -
  from assms obtain k where k:
    "smartlist_ensure_capacity sl (length xs + 1) = Some (mk_sl xs k)" "length xs + 1 \<le> length xs + k"
    "length xs + k \<le> MAX_CAPACITY"
    using smartlist_ensure_capacity_rel [OF assms(1), of "length xs + 1"] by auto
  then obtain m where m: "k = Suc m" by (cases k) auto
  have "smartlist_add sl x = Some (mk_sl (xs @ [x]) m)"
    using k m by (simp add: smartlist_add_def sl_rel_num_used [OF assms(1)] array_simps mk_sl_def
        list_update_append)
  with k m show ?thesis by simp
qed

lemma smartlist_grow_rel:
  assumes "sl_rel sl xs" "n \<le> MAX_CAPACITY"
  shows "\<exists>sl'. smartlist_grow sl n = Some sl' \<and> sl_rel sl' (xs @ replicate (n - length xs) None)"
proof -
  from assms obtain k where k:
    "smartlist_ensure_capacity sl n = Some (mk_sl xs k)" "n \<le> length xs + k"
    "0 < length xs + k" "length xs + k \<le> MAX_CAPACITY"
    using smartlist_ensure_capacity_rel [OF assms] by auto
  show ?thesis
  proof (cases "length xs < n")
    case False
    with k show ?thesis by (simp add: smartlist_grow_def)
  next
    case True
    with k have "smartlist_grow sl n =
        Some (mk_sl (xs @ replicate (n - length xs) None) (length xs + k - n))"
      by (simp add: smartlist_grow_def array_simps mk_sl_def)
    with True k show ?thesis by simp
  qed
qed

lemma smartlist_add_all_rel:
  assumes "sl_rel s1 xs" "sl_rel s2 ys" "length xs + length ys \<le> MAX_CAPACITY"
  shows "\<exists>sl'. smartlist_add_all s1 s2 = Some sl' \<and> sl_rel sl' (xs @ ys)"
proof -
  from assms obtain k where k:
    "smartlist_ensure_capacity s1 (length xs + length ys) = Some (mk_sl xs k)"
    "length xs + length ys \<le> length xs + k" "0 < length xs + k" "length xs + k \<le> MAX_CAPACITY"
    using smartlist_ensure_capacity_rel [OF assms(1,3)] by auto
  obtain k2 where s2: "s2 = mk_sl ys k2" using assms(2) by (rule sl_relE)
  have "smartlist_add_all s1 s2 = Some (mk_sl (xs @ ys) (k - length ys))"
    using k assms(3) s2
    by (simp add: smartlist_add_all_def sl_rel_num_used [OF assms(1)] array_simps mk_sl_def
        INT_MAX_def MAX_CAPACITY_def)
  with k show ?thesis by simp
qed

lemma smartlist_pop_last_rel:
  assumes "sl_rel sl xs"
  shows "\<exists>sl'. smartlist_pop_last sl = Some (if xs = [] then None else last xs, sl') \<and>
           sl_rel sl' (butlast xs)"
proof (cases xs rule: rev_cases)
  case Nil
  with assms show ?thesis by (auto simp: smartlist_pop_last_def sl_rel_num_used)
next
  case (snoc ys y)
  from assms obtain k where k: "sl = mk_sl xs k" "length xs + k \<le> MAX_CAPACITY"
    by (auto elim: sl_relE)
  with snoc have "smartlist_pop_last sl = Some (y, mk_sl ys (Suc k))"
    by (simp add: smartlist_pop_last_def array_simps mk_sl_def nth_append list_update_append)
  with snoc k show ?thesis by simp
qed

text \<open>Removal by index: the last entry takes the place, or the tail moves down.\<close>

lemma smartlist_del_rel:
  assumes "sl_rel sl xs" "i < length xs"
  shows "\<exists>sl'. smartlist_del sl (int i) = Some sl' \<and> sl_rel sl' (butlast (xs[i := last xs]))"
proof (cases xs rule: rev_cases)
  case Nil
  with assms show ?thesis by simp
next
  case (snoc ys y)
  from assms obtain k where k: "sl = mk_sl xs k" "length xs + k \<le> MAX_CAPACITY"
    by (auto elim: sl_relE)
  have "smartlist_del sl (int i) = Some (mk_sl (butlast (xs[i := y])) (Suc k))"
    using k snoc assms(2)
    by (cases "i = length ys")
      (simp_all add: smartlist_del_def array_simps mk_sl_def nth_append list_update_append)
  with snoc k show ?thesis by simp
qed

lemma smartlist_del_keeporder_rel:
  assumes "sl_rel sl xs" "i < length xs"
  shows "\<exists>sl'. smartlist_del_keeporder sl (int i) = Some sl' \<and>
           sl_rel sl' (take i xs @ drop (Suc i) xs)"
proof -
  from assms obtain k where k: "sl = mk_sl xs k" "length xs + k \<le> MAX_CAPACITY"
    by (auto elim: sl_relE)
  have "smartlist_del_keeporder sl (int i) = Some (mk_sl (take i xs @ drop (Suc i) xs) (Suc k))"
  proof (cases xs rule: rev_cases)
    case Nil
    with assms(2) show ?thesis by simp
  next
    case (snoc ys y)
    with k assms(2) show ?thesis
      by (cases "i = length ys")
        (auto simp: smartlist_del_keeporder_def array_simps mk_sl_def list_update_append)
  qed
  with k assms(2) show ?thesis by simp
qed

lemma smartlist_insert_rel:
  assumes "sl_rel sl xs" "i \<le> length xs" "length xs < MAX_CAPACITY"
  shows "\<exists>sl'. smartlist_insert sl (int i) v = Some sl' \<and> sl_rel sl' (take i xs @ v # drop i xs)"
proof (cases "i = length xs")
  case True
  with assms smartlist_add_rel [OF assms(1,3), of v] show ?thesis
    by (auto simp: smartlist_insert_def sl_simps)
next
  case False
  from assms obtain k where k:
    "smartlist_ensure_capacity sl (length xs + 1) = Some (mk_sl xs k)" "length xs + 1 \<le> length xs + k"
    "length xs + k \<le> MAX_CAPACITY"
    using smartlist_ensure_capacity_rel [OF assms(1), of "length xs + 1"] by auto
  then obtain m where m: "k = Suc m" by (cases k) auto
  have "smartlist_insert sl (int i) v = Some (mk_sl (take i xs @ v # drop i xs) m)"
    using False k m assms(2)
    by (simp add: smartlist_insert_def sl_rel_num_used [OF assms(1)] array_simps mk_sl_def
        list_update_append take_Suc_conv_app_nth)
  with False k m assms(2) show ?thesis by simp
qed

text \<open>
  Removal by value. \<open>smartlist_remove\<close> keeps the entries up to the first match where they
  are and may reorder the rest; \<open>smartlist_remove_keeporder\<close> is a filter.
\<close>

text \<open>
  The loop that several functions share: entries that satisfy \<open>P\<close> are overwritten by the last
  entry, which is then looked at in turn.
\<close>

function swap_remove_loop :: "('a option \<Rightarrow> bool) \<Rightarrow> 'a smartlist \<Rightarrow> nat \<Rightarrow> 'a smartlist option" where
  "swap_remove_loop P sl i =
     (if i < num_used sl then
        do {
          x \<leftarrow> arr_get (sl_list sl) i;
          (if P x then
             do {
               let n = num_used sl - 1;
               lst \<leftarrow> arr_get (sl_list sl) n;
               l \<leftarrow> arr_set (sl_list sl) i lst;
               l \<leftarrow> arr_set l n None;
               swap_remove_loop P (sl\<lparr>sl_list := l, num_used := n\<rparr>) i
             }
           else swap_remove_loop P sl (i + 1))
        }
      else Some sl)"
  by pat_completeness auto
termination
  by (relation "measure (\<lambda>(P, sl, i). num_used sl - i)") auto

declare swap_remove_loop.simps [simp del]

lemma smartlist_remove_loop_eq: "smartlist_remove_loop e sl i = swap_remove_loop (\<lambda>x. x = e) sl i"
proof (induction e sl i rule: smartlist_remove_loop.induct)
  case (1 e sl i)
  then show ?case
    by (subst smartlist_remove_loop.simps, subst swap_remove_loop.simps)
      (auto simp: Let_def intro!: Option.bind_cong)
qed

lemma swap_remove_loop_rel:
  assumes "sl_rel sl (ys @ zs)"
  shows "\<exists>sl' us. swap_remove_loop P sl (length ys) = Some sl' \<and>
           sl_rel sl' (ys @ us) \<and> mset us = filter_mset (\<lambda>x. \<not> P x) (mset zs)"
  using assms
proof (induction "length zs" arbitrary: sl ys zs rule: less_induct)
  case less
  note n = sl_rel_num_used [OF less.prems]
  show ?case
  proof (cases zs)
    case Nil
    with less.prems n show ?thesis by (auto simp: swap_remove_loop.simps)
  next
    case (Cons z zs')
    note get = sl_rel_get [OF less.prems, of "length ys"]
    show ?thesis
    proof (cases "P z")
      case False
      from less.hyps [of zs' sl "ys @ [z]"] less.prems Cons
      obtain sl' us where "swap_remove_loop P sl (length ys + 1) = Some sl'"
        "sl_rel sl' ((ys @ [z]) @ us)" "mset us = filter_mset (\<lambda>x. \<not> P x) (mset zs')"
        by auto
      with False Cons get n show ?thesis
        by (intro exI [of _ sl'] exI [of _ "z # us"]) (simp add: swap_remove_loop.simps [of P sl])
    next
      case True
      from less.prems obtain k where k: "sl = mk_sl (ys @ zs) k" "0 < length (ys @ zs) + k"
        "length (ys @ zs) + k \<le> MAX_CAPACITY"
        by (rule sl_relE)
      define ws where "ws = butlast (zs[0 := last zs])"
      have ws: "length ws < length zs" "mset ws = mset zs'" "sl_rel (mk_sl (ys @ ws) (Suc k)) (ys @ ws)"
        using Cons k by (cases zs' rule: rev_cases; simp add: ws_def)+
      have step: "swap_remove_loop P sl (length ys) =
          swap_remove_loop P (mk_sl (ys @ ws) (Suc k)) (length ys)"
        using True Cons k
        by (subst swap_remove_loop.simps, cases zs' rule: rev_cases)
          (simp_all add: array_simps mk_sl_def list_update_append nth_append ws_def)
      from less.hyps [OF ws(1,3)] step ws(2) True Cons show ?thesis by auto
    qed
  qed
qed

lemma smartlist_remove_rel:
  assumes "sl_rel sl xs"
  shows "\<exists>sl' us. smartlist_remove sl (Some e) = Some sl' \<and> sl_rel sl' us \<and>
           mset us = filter_mset (\<lambda>x. x \<noteq> Some e) (mset xs)"
  using swap_remove_loop_rel [of sl "[]" xs "\<lambda>x. x = Some e"] assms
  by (auto simp: smartlist_remove_def smartlist_remove_loop_eq)

lemma smartlist_remove_keeporder_loop_eq:
  assumes "sl_list sl = ys @ gs @ zs @ ts"
  shows "\<exists>gs'. smartlist_remove_keeporder_loop e (length ys + length gs + length zs) sl
             (length ys) (length ys + length gs) =
           Some (sl\<lparr>sl_list := ys @ filter (\<lambda>x. x \<noteq> e) zs @ gs' @ ts,
                     num_used := num_used sl - count_list zs e\<rparr>) \<and>
         length gs' = length gs + count_list zs e"
  using assms
proof (induction zs arbitrary: sl ys gs)
  case Nil
  then show ?case by (intro exI [of _ gs]) (simp add: smartlist_remove_keeporder_loop.simps)
next
  case (Cons z zs)
  have get: "arr_get (sl_list sl) (length ys + length gs) = Some z"
    using Cons.prems by (simp add: arr_get_def nth_append)
  show ?case
  proof (cases "z = e")
    case True
    from Cons.IH [of "sl\<lparr>num_used := num_used sl - 1\<rparr>" ys "gs @ [z]"] Cons.prems True get
    show ?thesis
      by (auto simp: smartlist_remove_keeporder_loop.simps [of e _ sl])
  next
    case False
    define hs where "hs = (case gs of [] \<Rightarrow> [] | g # gs' \<Rightarrow> gs' @ [z])"
    have hs: "arr_set (sl_list sl) (length ys) z = Some ((ys @ [z]) @ hs @ zs @ ts)" "length hs = length gs"
      using Cons.prems by (auto simp: hs_def arr_set_def list_update_append split: list.splits)
    from Cons.IH [of "sl\<lparr>sl_list := (ys @ [z]) @ hs @ zs @ ts\<rparr>" "ys @ [z]" hs] hs False get
    show ?thesis
      by (auto simp: smartlist_remove_keeporder_loop.simps [of e _ sl])
  qed
qed

lemma filter_count_list: "length (filter (\<lambda>x. x \<noteq> e) xs) + count_list xs e = length xs"
  by (induction xs) auto

lemma smartlist_remove_keeporder_rel:
  assumes "sl_rel sl xs"
  shows "\<exists>sl'. smartlist_remove_keeporder sl (Some e) = Some sl' \<and>
           sl_rel sl' (filter (\<lambda>x. x \<noteq> Some e) xs)"
proof -
  from assms obtain k where k: "sl = mk_sl xs k" "0 < length xs + k" "length xs + k \<le> MAX_CAPACITY"
    by (rule sl_relE)
  let ?ys = "filter (\<lambda>x. x \<noteq> Some e) xs" and ?c = "count_list xs (Some e)"
  have len: "length xs - ?c = length ?ys" "length ?ys + ?c = length xs"
    using filter_count_list [of "Some e" xs] by simp_all
  from smartlist_remove_keeporder_loop_eq [of sl "[]" "[]" xs "replicate k None" "Some e"] k
  obtain gs where gs: "smartlist_remove_keeporder_loop (Some e) (length xs) sl 0 0 =
      Some (sl\<lparr>sl_list := ?ys @ gs @ replicate k None, num_used := length ?ys\<rparr>)" "length gs = ?c"
    by (auto simp: len)
  have "smartlist_remove_keeporder sl (Some e) = Some (mk_sl ?ys (?c + k))"
    using gs k len by (simp add: smartlist_remove_keeporder_def array_simps mk_sl_def replicate_add)
  moreover have "sl_rel (mk_sl ?ys (?c + k)) ?ys"
    unfolding sl_rel_mk_sl using k(2,3) len by (intro conjI) (rule refl, linarith+)
  ultimately show ?thesis by blast
qed

lemma smartlist_contains_loop_rel:
  assumes "sl_rel sl (ys @ zs)"
  shows "smartlist_contains_loop sl e (length ys) = Some (e \<in> set zs)"
  using assms
proof (induction zs arbitrary: ys)
  case Nil
  then show ?case by (simp add: smartlist_contains_loop.simps sl_simps)
next
  case (Cons z zs)
  from Cons.IH [of "ys @ [z]"] Cons.prems show ?case
    by (auto simp: smartlist_contains_loop.simps [of sl e "length ys"] sl_simps)
qed

lemma smartlist_contains_rel [sl_simps]:
  "sl_rel sl xs \<Longrightarrow> smartlist_contains sl e = Some (e \<in> set xs)"
  using smartlist_contains_loop_rel [of sl "[]" xs e] by (simp add: smartlist_contains_def)

lemma smartlist_set_rel:
  assumes "sl_rel sl xs" "i < length xs"
  shows "\<exists>sl'. smartlist_set sl i v = Some sl' \<and> sl_rel sl' (xs[i := v])"
proof -
  from assms(1) obtain k where k: "sl = mk_sl xs k" "0 < length xs + k" "length xs + k \<le> MAX_CAPACITY"
    by (rule sl_relE)
  with assms(2) have "smartlist_set sl i v = Some (mk_sl (xs[i := v]) k)"
    by (simp add: smartlist_set_def array_simps mk_sl_def list_update_append)
  with k show ?thesis by simp
qed

lemma smartlist_swap_rel:
  assumes "sl_rel sl xs" "i < length xs" "j < length xs"
  shows "\<exists>sl'. smartlist_swap sl i j = Some sl' \<and> sl_rel sl' (xs[i := xs ! j, j := xs ! i])"
proof (cases "i = j")
  case True
  with assms show ?thesis by (simp add: smartlist_swap_def)
next
  case False
  from smartlist_set_rel [OF assms(1,2), of "xs ! j"]
  obtain sl1 where 1: "smartlist_set sl i (xs ! j) = Some sl1" "sl_rel sl1 (xs[i := xs ! j])" by blast
  from smartlist_set_rel [OF 1(2), of j "xs ! i"] assms(3)
  obtain sl2 where 2: "smartlist_set sl1 j (xs ! i) = Some sl2" "sl_rel sl2 (xs[i := xs ! j, j := xs ! i])"
    by auto
  with 1 False assms show ?thesis
    by (simp add: smartlist_swap_def smartlist_get_def sl_simps)
qed

subsection \<open>What clients rely on: a growing sequence\<close>

text \<open>
  The contract of a bounded growing array, in terms of the list it stands for: \<open>new\<close> is empty,
  \<open>add\<close> appends while there is room, \<open>get\<close> reads, \<open>del\<close> fills the hole with the last entry.
\<close>

locale sequence =
  fixes new :: 's
    and add :: "'s \<Rightarrow> 'a \<Rightarrow> 's option"
    and get :: "'s \<Rightarrow> nat \<Rightarrow> 'a option"
    and del :: "'s \<Rightarrow> int \<Rightarrow> 's option"
    and len :: "'s \<Rightarrow> nat"
    and rel :: "'s \<Rightarrow> 'a list \<Rightarrow> bool"
    and cap :: nat
  assumes rel_new: "rel new []"
    and rel_add: "rel s xs \<Longrightarrow> length xs < cap \<Longrightarrow> \<exists>s'. add s x = Some s' \<and> rel s' (xs @ [x])"
    and rel_get: "rel s xs \<Longrightarrow> i < length xs \<Longrightarrow> get s i = Some (xs ! i)"
    and rel_len: "rel s xs \<Longrightarrow> len s = length xs"
    and rel_del: "rel s xs \<Longrightarrow> i < length xs \<Longrightarrow>
        \<exists>s'. del s (int i) = Some s' \<and> rel s' (butlast (xs[i := last xs]))"
begin

text \<open>Building a sequence entry by entry, as every producer of the program does.\<close>

primrec add_list :: "'s \<Rightarrow> 'a list \<Rightarrow> 's option" where
  "add_list s [] = Some s"
| "add_list s (x # xs) = Option.bind (add s x) (\<lambda>s'. add_list s' xs)"

lemma rel_add_list:
  "rel s xs \<Longrightarrow> length xs + length ys \<le> cap \<Longrightarrow> \<exists>s'. add_list s ys = Some s' \<and> rel s' (xs @ ys)"
proof (induction ys arbitrary: s xs)
  case Nil
  then show ?case by simp
next
  case (Cons y ys)
  then obtain s1 where s1: "add s y = Some s1" "rel s1 (xs @ [y])"
    using rel_add [of s xs y] by auto
  from Cons.IH [OF s1(2)] Cons.prems s1(1) show ?case by simp
qed

text \<open>Deleting at one index until the length is that index drops the tail.\<close>

fun del_down_to :: "nat \<Rightarrow> 's \<Rightarrow> nat \<Rightarrow> 's option" where
  "del_down_to 0 s i = Some s"
| "del_down_to (Suc n) s i =
     (if i < len s then Option.bind (del s (int i)) (\<lambda>s'. del_down_to n s' i) else Some s)"

lemma rel_del_down_to:
  "rel s xs \<Longrightarrow> length xs \<le> i + n \<Longrightarrow> i \<le> length xs \<Longrightarrow>
     \<exists>s'. del_down_to n s i = Some s' \<and> rel s' (take i xs)"
proof (induction n arbitrary: s xs)
  case 0
  then show ?case by simp
next
  case (Suc n)
  show ?case
  proof (cases "i < length xs")
    case False
    with Suc.prems show ?thesis by (simp add: rel_len)
  next
    case True
    from rel_del [OF Suc.prems(1) True] obtain s1 where
      s1: "del s (int i) = Some s1" "rel s1 (butlast (xs[i := last xs]))" by blast
    have tk: "take i (butlast (xs[i := last xs])) = take i xs"
      using True by (simp add: butlast_conv_take)
    from Suc.IH [OF s1(2)] Suc.prems True tk s1(1) show ?thesis
      by (simp add: rel_len)
  qed
qed

end

interpretation sl_seq: sequence
  smartlist_new smartlist_add smartlist_get smartlist_del smartlist_len sl_rel MAX_CAPACITY
  by unfold_locales
    (auto simp: smartlist_new_rel smartlist_add_rel smartlist_get_def sl_simps smartlist_len_def
      smartlist_del_rel)

subsection \<open>Every smartlist the program can build\<close>

text \<open>
  The smartlists reachable from \<open>smartlist_new\<close> by any sequence of calls that return. The
  macro \<open>smartlist_set\<close> has no check of its own in a release build, so its rule carries the
  condition that the debug build asserts.
\<close>

inductive sl_reachable :: "'a smartlist \<Rightarrow> bool" where
  new: "sl_reachable smartlist_new"
| clear: "sl_reachable sl \<Longrightarrow> smartlist_clear sl = Some sl' \<Longrightarrow> sl_reachable sl'"
| grow: "sl_reachable sl \<Longrightarrow> smartlist_grow sl n = Some sl' \<Longrightarrow> sl_reachable sl'"
| add: "sl_reachable sl \<Longrightarrow> smartlist_add sl x = Some sl' \<Longrightarrow> sl_reachable sl'"
| add_all: "sl_reachable sl \<Longrightarrow> sl_reachable s2 \<Longrightarrow> smartlist_add_all sl s2 = Some sl' \<Longrightarrow>
    sl_reachable sl'"
| remove: "sl_reachable sl \<Longrightarrow> smartlist_remove sl x = Some sl' \<Longrightarrow> sl_reachable sl'"
| remove_keeporder: "sl_reachable sl \<Longrightarrow> smartlist_remove_keeporder sl x = Some sl' \<Longrightarrow>
    sl_reachable sl'"
| pop_last: "sl_reachable sl \<Longrightarrow> smartlist_pop_last sl = Some (x, sl') \<Longrightarrow> sl_reachable sl'"
| del: "sl_reachable sl \<Longrightarrow> smartlist_del sl i = Some sl' \<Longrightarrow> sl_reachable sl'"
| del_keeporder: "sl_reachable sl \<Longrightarrow> smartlist_del_keeporder sl i = Some sl' \<Longrightarrow> sl_reachable sl'"
| insert: "sl_reachable sl \<Longrightarrow> smartlist_insert sl i x = Some sl' \<Longrightarrow> sl_reachable sl'"
| set: "sl_reachable sl \<Longrightarrow> j < smartlist_len sl \<Longrightarrow> smartlist_set sl j x = Some sl' \<Longrightarrow>
    sl_reachable sl'"

text \<open>A call that returns had arguments in range.\<close>

lemma ensure_capacity_SomeD: "smartlist_ensure_capacity sl n = Some sl' \<Longrightarrow> n \<le> MAX_CAPACITY"
  by (simp add: smartlist_ensure_capacity_def split: if_splits)

lemma smartlist_add_SomeD: "smartlist_add sl x = Some sl' \<Longrightarrow> num_used sl < MAX_CAPACITY"
  by (auto simp: smartlist_add_def bind_eq_Some_conv dest: ensure_capacity_SomeD)

lemma smartlist_grow_SomeD: "smartlist_grow sl n = Some sl' \<Longrightarrow> n \<le> MAX_CAPACITY"
  by (auto simp: smartlist_grow_def bind_eq_Some_conv dest: ensure_capacity_SomeD)

lemma smartlist_add_all_SomeD:
  "smartlist_add_all sl s2 = Some sl' \<Longrightarrow> num_used sl + num_used s2 \<le> MAX_CAPACITY"
  by (auto simp: smartlist_add_all_def Let_def bind_eq_Some_conv dest: ensure_capacity_SomeD)

lemma smartlist_del_SomeD:
  assumes "smartlist_del sl i = Some sl'"
  obtains j where "i = int j" "j < num_used sl"
proof -
  from assms have "0 \<le> i" "i < int (num_used sl)"
    by (auto simp: smartlist_del_def split: if_splits)
  then show ?thesis by (intro that [of "nat i"]) auto
qed

lemma smartlist_del_keeporder_SomeD:
  assumes "smartlist_del_keeporder sl i = Some sl'"
  obtains j where "i = int j" "j < num_used sl"
proof -
  from assms have "0 \<le> i" "i < int (num_used sl)"
    by (auto simp: smartlist_del_keeporder_def split: if_splits)
  then show ?thesis by (intro that [of "nat i"]) auto
qed

lemma smartlist_insert_SomeD:
  assumes "smartlist_insert sl i x = Some sl'"
  obtains j where "i = int j" "j \<le> num_used sl" "num_used sl < MAX_CAPACITY"
proof -
  from assms have i: "0 \<le> i" "i \<le> int (num_used sl)"
    by (auto simp: smartlist_insert_def split: if_splits)
  moreover from assms i have "num_used sl < MAX_CAPACITY"
    by (auto simp: smartlist_insert_def bind_eq_Some_conv split: if_splits
        dest: ensure_capacity_SomeD smartlist_add_SomeD)
  ultimately show ?thesis by (intro that [of "nat i"]) auto
qed

text \<open>Every operation that returns keeps the invariant.\<close>

lemma smartlist_new_inv [sl_inv_intros]:
  shows "sl_inv smartlist_new"
  by (rule sl_rel_iff [THEN iffD1, OF smartlist_new_rel, THEN conjunct1])

lemma smartlist_clear_inv [sl_inv_intros]:
  assumes "sl_inv sl" "smartlist_clear sl = Some sl'"
  shows "sl_inv sl'"
  using smartlist_clear_rel [OF sl_inv_rel [OF assms(1)]] assms(2) by (auto simp: sl_rel_iff)

lemma smartlist_grow_inv [sl_inv_intros]:
  assumes "sl_inv sl" "smartlist_grow sl n = Some sl'"
  shows "sl_inv sl'"
  using smartlist_grow_rel [OF sl_inv_rel [OF assms(1)] smartlist_grow_SomeD [OF assms(2)]] assms(2)
  by (auto simp: sl_rel_iff)

lemma smartlist_add_inv [sl_inv_intros]:
  assumes "sl_inv sl" "smartlist_add sl x = Some sl'"
  shows "sl_inv sl'"
  using smartlist_add_rel [OF sl_inv_rel [OF assms(1)], of x] smartlist_add_SomeD [OF assms(2)]
    sl_rel_num_used [OF sl_inv_rel [OF assms(1)]] assms(2) by (auto simp: sl_rel_iff)

lemma smartlist_add_all_inv [sl_inv_intros]:
  assumes "sl_inv sl" "sl_inv s2" "smartlist_add_all sl s2 = Some sl'"
  shows "sl_inv sl'"
  using smartlist_add_all_rel [OF assms(1,2) [THEN sl_inv_rel]] smartlist_add_all_SomeD [OF assms(3)]
    assms(1,2) [THEN sl_inv_rel, THEN sl_rel_num_used] assms(3) by (auto simp: sl_rel_iff)

lemma smartlist_remove_inv [sl_inv_intros]:
  assumes "sl_inv sl" "smartlist_remove sl x = Some sl'"
  shows "sl_inv sl'"
proof (cases x)
  case None
  with assms show ?thesis by (simp add: smartlist_remove_def)
next
  case (Some e)
  with smartlist_remove_rel [OF sl_inv_rel [OF assms(1)], of e] assms(2) show ?thesis
    by (auto simp: sl_rel_iff)
qed

lemma smartlist_remove_keeporder_inv [sl_inv_intros]:
  assumes "sl_inv sl" "smartlist_remove_keeporder sl x = Some sl'"
  shows "sl_inv sl'"
proof (cases x)
  case None
  with assms show ?thesis by (simp add: smartlist_remove_keeporder_def)
next
  case (Some e)
  with smartlist_remove_keeporder_rel [OF sl_inv_rel [OF assms(1)], of e] assms(2) show ?thesis
    by (auto simp: sl_rel_iff)
qed

lemma smartlist_pop_last_inv [sl_inv_intros]:
  assumes "sl_inv sl" "smartlist_pop_last sl = Some (x, sl')"
  shows "sl_inv sl'"
  using smartlist_pop_last_rel [OF sl_inv_rel [OF assms(1)]] assms(2) by (auto simp: sl_rel_iff)

lemma smartlist_del_inv [sl_inv_intros]:
  assumes "sl_inv sl" "smartlist_del sl i = Some sl'"
  shows "sl_inv sl'"
proof -
  from assms(2) obtain j where "i = int j" "j < num_used sl" by (rule smartlist_del_SomeD)
  with smartlist_del_rel [OF sl_inv_rel [OF assms(1)], of j] assms(2) show ?thesis
    using sl_rel_num_used [OF sl_inv_rel [OF assms(1)]] by (auto simp: sl_rel_iff)
qed

lemma smartlist_del_keeporder_inv [sl_inv_intros]:
  assumes "sl_inv sl" "smartlist_del_keeporder sl i = Some sl'"
  shows "sl_inv sl'"
proof -
  from assms(2) obtain j where "i = int j" "j < num_used sl" by (rule smartlist_del_keeporder_SomeD)
  with smartlist_del_keeporder_rel [OF sl_inv_rel [OF assms(1)], of j] assms(2) show ?thesis
    using sl_rel_num_used [OF sl_inv_rel [OF assms(1)]] by (auto simp: sl_rel_iff)
qed

lemma smartlist_insert_inv [sl_inv_intros]:
  assumes "sl_inv sl" "smartlist_insert sl i x = Some sl'"
  shows "sl_inv sl'"
proof -
  from assms(2) obtain j where "i = int j" "j \<le> num_used sl" "num_used sl < MAX_CAPACITY"
    by (rule smartlist_insert_SomeD)
  with smartlist_insert_rel [OF sl_inv_rel [OF assms(1)], of j x] assms(2) show ?thesis
    using sl_rel_num_used [OF sl_inv_rel [OF assms(1)]] by (auto simp: sl_rel_iff)
qed

lemma smartlist_set_inv [sl_inv_intros]:
  assumes "sl_inv sl" "j < smartlist_len sl" "smartlist_set sl j x = Some sl'"
  shows "sl_inv sl'"
  using smartlist_set_rel [OF sl_inv_rel [OF assms(1)], of j x] assms(2,3)
    sl_rel_num_used [OF sl_inv_rel [OF assms(1)]] by (auto simp: sl_rel_iff smartlist_len_def)

text \<open>
  C30: every smartlist reachable through the operations of \<^verbatim>\<open>smartlist_core.c\<close> satisfies the
  invariant: the length of the array is the recorded capacity, never zero and never above
  \<open>INT_MAX\<close>, the used entries fit into it, and every unused entry is null, which is why the
  \<open>memset\<close> in \<open>smartlist_grow\<close> is a no-op.
\<close>

theorem smartlist_reachable_inv:
  assumes "sl_reachable sl"
  shows "sl_inv sl"
  using assms by (induction rule: sl_reachable.induct) (auto intro: sl_inv_intros)

theorem smartlist_reachable_inv_witness:
  "\<exists>sl. Option.bind (smartlist_add smartlist_new (Some (7::nat))) (\<lambda>s. smartlist_del s 0) = Some sl \<and>
     sl_reachable sl \<and> sl_inv sl"
proof -
  obtain s1 where s1: "smartlist_add smartlist_new (Some (7::nat)) = Some s1" "sl_rel s1 [Some 7]"
    using smartlist_add_rel [OF smartlist_new_rel, of "Some 7"] by (auto simp: MAX_CAPACITY_def)
  from smartlist_del_rel [OF s1(2), of 0] obtain s2 where s2: "smartlist_del s1 0 = Some s2" by auto
  from sl_reachable.del [OF sl_reachable.add [OF sl_reachable.new s1(1)] s2]
  have "sl_reachable s2" .
  with s1 s2 smartlist_reachable_inv [of s2] show ?thesis by simp
qed

text \<open>
  The outcome of an operation that has an assertion: when \<open>ok\<close> holds it returns a smartlist that
  stands for \<open>zs\<close>, and otherwise the assertion stops the program.
\<close>

definition list_outcome :: "'a smartlist option \<Rightarrow> bool \<Rightarrow> 'a option list \<Rightarrow> bool" where
  "list_outcome r ok zs \<longleftrightarrow> (if ok then \<exists>sl'. r = Some sl' \<and> sl_rel sl' zs else r = None)"

lemma ensure_capacity_too_large: "MAX_CAPACITY < n \<Longrightarrow> smartlist_ensure_capacity sl n = None"
  by (simp add: smartlist_ensure_capacity_def)

lemma smartlist_full:
  assumes "sl_rel sl xs" "sl_rel s2 ys"
  shows "\<not> length xs < MAX_CAPACITY \<Longrightarrow> smartlist_add sl x = None"
    and "\<not> length xs + length ys \<le> MAX_CAPACITY \<Longrightarrow> smartlist_add_all sl s2 = None"
    and "\<not> length xs < MAX_CAPACITY \<Longrightarrow> smartlist_insert sl i x = None"
    and "\<not> n \<le> MAX_CAPACITY \<Longrightarrow> smartlist_grow sl n = None"
  using assms [THEN sl_rel_num_used]
  by (simp_all add: smartlist_add_def smartlist_add_all_def smartlist_insert_def smartlist_grow_def
      ensure_capacity_too_large Let_def)

lemma smartlist_bad_index:
  assumes "sl_rel sl xs"
  shows "\<not> (0 \<le> i \<and> i < int (length xs)) \<Longrightarrow> smartlist_del sl i = None"
    and "\<not> (0 \<le> i \<and> i < int (length xs)) \<Longrightarrow> smartlist_del_keeporder sl i = None"
    and "\<not> (0 \<le> i \<and> i \<le> int (length xs)) \<Longrightarrow> smartlist_insert sl i x = None"
  using sl_rel_num_used [OF assms]
  by (auto simp: smartlist_del_def smartlist_del_keeporder_def smartlist_insert_def guard_def)

text \<open>
  C5: on a smartlist that stands for the list \<open>xs\<close>, empty, full or neither, every operation implements
  the list operation it is documented as: \<open>add\<close> appends, \<open>add_all\<close> concatenates, \<open>insert\<close> and
  \<open>del_keeporder\<close> shift the tail, \<open>del\<close> moves the last entry into the hole, \<open>grow\<close> appends null
  entries, \<open>clear\<close> empties, \<open>remove\<close> deletes every occurrence and may reorder the rest,
  \<open>remove_keeporder\<close> also keeps the order, and both leave the list alone when asked to remove the null
  pointer; \<open>pop_last\<close> returns the last entry, or the null pointer when there is none, and \<open>contains\<close>
  decides membership. The program stops exactly when the result would have more than \<open>MAX_CAPACITY\<close>
  entries, or an index is outside the list, where \<open>insert\<close> also takes the index after the last entry.
\<close>

theorem smartlist_refines_list:
  assumes "sl_rel sl xs" "sl_rel s2 ys"
  shows "list_outcome (smartlist_add sl x) (length xs < MAX_CAPACITY) (xs @ [x]) \<and>
    list_outcome (smartlist_add_all sl s2) (length xs + length ys \<le> MAX_CAPACITY) (xs @ ys) \<and>
    list_outcome (smartlist_insert sl i x) (0 \<le> i \<and> i \<le> int (length xs) \<and> length xs < MAX_CAPACITY)
      (take (nat i) xs @ x # drop (nat i) xs) \<and>
    list_outcome (smartlist_del sl i) (0 \<le> i \<and> i < int (length xs)) (butlast (xs[nat i := last xs])) \<and>
    list_outcome (smartlist_del_keeporder sl i) (0 \<le> i \<and> i < int (length xs)) (take (nat i) xs @ drop (Suc (nat i)) xs) \<and>
    list_outcome (smartlist_grow sl n) (n \<le> MAX_CAPACITY) (xs @ replicate (n - length xs) None) \<and>
    list_outcome (smartlist_clear sl) True [] \<and>
    (\<exists>s' us. smartlist_remove sl e = Some s' \<and> sl_rel s' us \<and>
       mset us = filter_mset (\<lambda>y. e = None \<or> y \<noteq> e) (mset xs)) \<and>
    list_outcome (smartlist_remove_keeporder sl e) True (filter (\<lambda>y. e = None \<or> y \<noteq> e) xs) \<and>
    (\<exists>s'. smartlist_pop_last sl = Some (if xs = [] then None else last xs, s') \<and> sl_rel s' (butlast xs)) \<and>
    smartlist_contains sl x = Some (x \<in> set xs)"
proof (intro conjI)
  show "list_outcome (smartlist_add sl x) (length xs < MAX_CAPACITY) (xs @ [x])"
    using smartlist_add_rel [OF assms(1)] smartlist_full(1) [OF assms] by (simp add: list_outcome_def)
  show "list_outcome (smartlist_add_all sl s2) (length xs + length ys \<le> MAX_CAPACITY) (xs @ ys)"
    using smartlist_add_all_rel [OF assms] smartlist_full(2) [OF assms] by (simp add: list_outcome_def)
  show "list_outcome (smartlist_insert sl i x) (0 \<le> i \<and> i \<le> int (length xs) \<and> length xs < MAX_CAPACITY)
      (take (nat i) xs @ x # drop (nat i) xs)"
    using smartlist_insert_rel [OF assms(1), of "nat i" x] smartlist_full(3) [OF assms, of i x]
      smartlist_bad_index(3) [OF assms(1), of i x] by (auto simp: list_outcome_def)
  show "list_outcome (smartlist_del sl i) (0 \<le> i \<and> i < int (length xs)) (butlast (xs[nat i := last xs]))"
    using smartlist_del_rel [OF assms(1), of "nat i"] smartlist_bad_index(1) [OF assms(1), of i]
    by (auto simp: list_outcome_def)
  show "list_outcome (smartlist_del_keeporder sl i) (0 \<le> i \<and> i < int (length xs)) (take (nat i) xs @ drop (Suc (nat i)) xs)"
    using smartlist_del_keeporder_rel [OF assms(1), of "nat i"] smartlist_bad_index(2) [OF assms(1), of i]
    by (auto simp: list_outcome_def)
  show "list_outcome (smartlist_grow sl n) (n \<le> MAX_CAPACITY) (xs @ replicate (n - length xs) None)"
    using smartlist_grow_rel [OF assms(1)] smartlist_full(4) [OF assms] by (simp add: list_outcome_def)
  show "list_outcome (smartlist_clear sl) True []"
    using smartlist_clear_rel [OF assms(1)] by (simp add: list_outcome_def)
  show "\<exists>s' us. smartlist_remove sl e = Some s' \<and> sl_rel s' us \<and>
       mset us = filter_mset (\<lambda>y. e = None \<or> y \<noteq> e) (mset xs)"
    using smartlist_remove_rel [OF assms(1)] assms(1) by (cases e) (auto simp: smartlist_remove_def)
  show "list_outcome (smartlist_remove_keeporder sl e) True (filter (\<lambda>y. e = None \<or> y \<noteq> e) xs)"
    using smartlist_remove_keeporder_rel [OF assms(1)] assms(1)
    by (cases e) (auto simp: smartlist_remove_keeporder_def list_outcome_def)
qed (use smartlist_pop_last_rel [OF assms(1)] smartlist_contains_rel [OF assms(1)] in simp_all)

theorem smartlist_refines_list_witness:
  "(\<exists>s'. smartlist_add_all (mk_sl [Some (1::nat), Some 2] 14) (mk_sl [Some 3] 15) = Some s' \<and>
     sl_rel s' [Some 1, Some 2, Some 3]) \<and> smartlist_del (mk_sl [Some (1::nat), Some 2] 14) 2 = None"
  using smartlist_refines_list [of "mk_sl [Some (1::nat), Some 2] 14" "[Some 1, Some 2]"
      "mk_sl [Some 3] 15" "[Some 3]" _ 2]
  by (simp add: MAX_CAPACITY_def list_outcome_def)

end
