(* ===== verification/Smartlist_Ops.thy ===== *)
theory Smartlist_Ops
  imports Smartlist "HOL-Library.Char_ord"
begin

section \<open>Smartlist helpers of \<^verbatim>\<open>lib/container/smartlist.c\<close>\<close>

text \<open>
  Reversal, search, set operations, duplicate removal and the most frequent member, translated with their loops and assertions on the smartlists of
  the theory \<open>Smartlist\<close>. Comparison functions are parameters, as in the code; the locale
  \<open>cmp_order\<close> states what \<open>smartlist_sort\<close>, \<open>smartlist_uniq\<close> and the priority queue expect of
  them, and the comparison functions of the program interpret it.
\<close>

subsection \<open>Reversal and search\<close>

function smartlist_reverse_loop :: "'a smartlist \<Rightarrow> int \<Rightarrow> int \<Rightarrow> 'a smartlist option" where
  "smartlist_reverse_loop sl i j =
     (if i < j then
        do {
          tmp \<leftarrow> arr_get (sl_list sl) (nat i);
          y \<leftarrow> arr_get (sl_list sl) (nat j);
          l \<leftarrow> arr_set (sl_list sl) (nat i) y;
          l \<leftarrow> arr_set l (nat j) tmp;
          smartlist_reverse_loop (sl\<lparr>sl_list := l\<rparr>) (i + 1) (j - 1)
        }
      else Some sl)"
  by pat_completeness auto
termination
  by (relation "measure (\<lambda>(sl, i, j). nat (j - i))") auto

definition smartlist_reverse :: "'a smartlist \<Rightarrow> 'a smartlist option" where
  "smartlist_reverse sl = smartlist_reverse_loop sl 0 (int (num_used sl) - 1)"

function smartlist_pos_loop :: "'a smartlist \<Rightarrow> 'a option \<Rightarrow> nat \<Rightarrow> int option" where
  "smartlist_pos_loop sl element i =
     (if i < num_used sl then
        do {
          x \<leftarrow> arr_get (sl_list sl) i;
          (if element = x then Some (int i) else smartlist_pos_loop sl element (i + 1))
        }
      else Some (-1))"
  by pat_completeness auto
termination
  by (relation "measure (\<lambda>(sl, e, i). num_used sl - i)") auto

text \<open>The first argument is null in the model when the pointer is.\<close>

definition smartlist_pos :: "'a smartlist option \<Rightarrow> 'a option \<Rightarrow> int option" where
  "smartlist_pos sl element =
     (case sl of None \<Rightarrow> Some (-1) | Some sl \<Rightarrow> smartlist_pos_loop sl element 0)"

subsection \<open>Set operations\<close>

function smartlist_overlap_loop :: "'a smartlist \<Rightarrow> 'a smartlist \<Rightarrow> nat \<Rightarrow> bool option" where
  "smartlist_overlap_loop sl1 sl2 i =
     (if i < num_used sl2 then
        do {
          x \<leftarrow> arr_get (sl_list sl2) i;
          c \<leftarrow> smartlist_contains sl1 x;
          (if c then Some True else smartlist_overlap_loop sl1 sl2 (i + 1))
        }
      else Some False)"
  by pat_completeness auto
termination
  by (relation "measure (\<lambda>(sl1, sl2, i). num_used sl2 - i)") auto

definition smartlist_overlap :: "'a smartlist \<Rightarrow> 'a smartlist \<Rightarrow> bool option" where
  "smartlist_overlap sl1 sl2 = smartlist_overlap_loop sl1 sl2 0"

function smartlist_intersect_loop :: "'a smartlist \<Rightarrow> 'a smartlist \<Rightarrow> nat \<Rightarrow> 'a smartlist option" where
  "smartlist_intersect_loop sl1 sl2 i =
     (if i < num_used sl1 then
        do {
          x \<leftarrow> arr_get (sl_list sl1) i;
          c \<leftarrow> smartlist_contains sl2 x;
          (if \<not> c then
             do {
               let n = num_used sl1 - 1;
               lst \<leftarrow> arr_get (sl_list sl1) n;
               l \<leftarrow> arr_set (sl_list sl1) i lst;
               l \<leftarrow> arr_set l n None;
               smartlist_intersect_loop (sl1\<lparr>sl_list := l, num_used := n\<rparr>) sl2 i
             }
           else smartlist_intersect_loop sl1 sl2 (i + 1))
        }
      else Some sl1)"
  by pat_completeness auto
termination
  by (relation "measure (\<lambda>(sl1, sl2, i). num_used sl1 - i)") auto

definition smartlist_intersect :: "'a smartlist \<Rightarrow> 'a smartlist \<Rightarrow> 'a smartlist option" where
  "smartlist_intersect sl1 sl2 = smartlist_intersect_loop sl1 sl2 0"

function smartlist_subtract_loop :: "'a smartlist \<Rightarrow> 'a smartlist \<Rightarrow> nat \<Rightarrow> 'a smartlist option" where
  "smartlist_subtract_loop sl1 sl2 i =
     (if i < num_used sl2 then
        do {
          x \<leftarrow> arr_get (sl_list sl2) i;
          sl1 \<leftarrow> smartlist_remove sl1 x;
          smartlist_subtract_loop sl1 sl2 (i + 1)
        }
      else Some sl1)"
  by pat_completeness auto
termination
  by (relation "measure (\<lambda>(sl1, sl2, i). num_used sl2 - i)") auto

definition smartlist_subtract :: "'a smartlist \<Rightarrow> 'a smartlist \<Rightarrow> 'a smartlist option" where
  "smartlist_subtract sl1 sl2 = smartlist_subtract_loop sl1 sl2 0"

function smartlist_ptrs_eq_loop :: "'a smartlist \<Rightarrow> 'a smartlist \<Rightarrow> nat \<Rightarrow> bool option" where
  "smartlist_ptrs_eq_loop s1 s2 i =
     (if i < smartlist_len s1 then
        do {
          x \<leftarrow> smartlist_get s1 i;
          y \<leftarrow> smartlist_get s2 i;
          (if x \<noteq> y then Some False else smartlist_ptrs_eq_loop s1 s2 (i + 1))
        }
      else Some True)"
  by pat_completeness auto
termination
  by (relation "measure (\<lambda>(s1, s2, i). smartlist_len s1 - i)") auto

text \<open>
  The first test of the source compares the two list pointers. Two distinct pointers are
  represented here by the values they point to, and equal pointers by equal values, for which
  the rest of the function returns true as well; the test remains for two null pointers.
\<close>

definition smartlist_ptrs_eq :: "'a smartlist option \<Rightarrow> 'a smartlist option \<Rightarrow> bool option" where
  "smartlist_ptrs_eq s1 s2 =
     (case (s1, s2) of
        (None, None) \<Rightarrow> Some True
      | (Some s1, Some s2) \<Rightarrow>
          (if smartlist_len s1 \<noteq> smartlist_len s2 then Some False
           else smartlist_ptrs_eq_loop s1 s2 0)
      | _ \<Rightarrow> Some False)"

subsection \<open>Duplicates in a sorted list\<close>

text \<open>Freeing a duplicate has no effect on the list, so \<open>free_fn\<close> is not a parameter.\<close>

lemma smartlist_del_keeporder_num_used:
  "smartlist_del_keeporder sl i = Some sl' \<Longrightarrow> num_used sl = Suc (num_used sl')"
  by (auto simp: smartlist_del_keeporder_def Let_def bind_eq_Some_conv split: if_splits)

function smartlist_uniq_loop ::
  "('a option \<Rightarrow> 'a option \<Rightarrow> int) \<Rightarrow> 'a smartlist \<Rightarrow> nat \<Rightarrow> 'a smartlist option" where
  "smartlist_uniq_loop compare sl i =
     (if i < num_used sl then
        do {
          x \<leftarrow> arr_get (sl_list sl) (i - 1);
          y \<leftarrow> arr_get (sl_list sl) i;
          (if compare x y = 0 then
             do {
               sl' \<leftarrow> smartlist_del_keeporder sl (int i);
               smartlist_uniq_loop compare sl' i
             }
           else smartlist_uniq_loop compare sl (i + 1))
        }
      else Some sl)"
  by pat_completeness auto
termination
  by (relation "measure (\<lambda>(c, sl, i). num_used sl - i)")
    (auto dest!: smartlist_del_keeporder_num_used)

definition smartlist_uniq ::
  "'a smartlist \<Rightarrow> ('a option \<Rightarrow> 'a option \<Rightarrow> int) \<Rightarrow> 'a smartlist option" where
  "smartlist_uniq sl compare = smartlist_uniq_loop compare sl 1"

text \<open>
  \<open>smartlist_get_most_frequent_\<close>: the loop keeps the current run (\<open>cur\<close>, \<open>count\<close>) and the
  best finished run so far; a later run of the same length wins.
\<close>

definition finish_run :: "'a option \<Rightarrow> int \<Rightarrow> 'a option \<Rightarrow> int \<Rightarrow> 'a option \<times> int" where
  "finish_run cur cnt most_frequent most_frequent_count =
     (if cur \<noteq> None \<and> most_frequent_count \<le> cnt then (cur, cnt)
      else (most_frequent, most_frequent_count))"

function most_frequent_loop ::
  "('a option \<Rightarrow> 'a option \<Rightarrow> int) \<Rightarrow> 'a smartlist \<Rightarrow> nat \<Rightarrow> 'a option \<Rightarrow> int \<Rightarrow> 'a option \<Rightarrow> int \<Rightarrow>
     ('a option \<times> int) option" where
  "most_frequent_loop compare sl i cur cnt mf mfc =
     (if i < num_used sl then
        do {
          item \<leftarrow> arr_get (sl_list sl) i;
          (if cur \<noteq> None \<and> 0 = compare cur item then
             most_frequent_loop compare sl (i + 1) cur (cnt + 1) mf mfc
           else
             let (mf, mfc) = finish_run cur cnt mf mfc
             in most_frequent_loop compare sl (i + 1) item 1 mf mfc)
        }
      else Some (finish_run cur cnt mf mfc))"
  by pat_completeness auto
termination
  by (relation "measure (\<lambda>(c, sl, i, _). num_used sl - i)") auto

definition smartlist_get_most_frequent ::
  "'a smartlist \<Rightarrow> ('a option \<Rightarrow> 'a option \<Rightarrow> int) \<Rightarrow> ('a option \<times> int) option" where
  "smartlist_get_most_frequent sl compare =
     (if num_used sl = 0 then Some (None, 0)
      else most_frequent_loop compare sl 0 None 0 None 0)"

declare smartlist_reverse_loop.simps [simp del]
declare smartlist_pos_loop.simps [simp del]
declare smartlist_overlap_loop.simps [simp del]
declare smartlist_intersect_loop.simps [simp del]
declare smartlist_subtract_loop.simps [simp del]
declare smartlist_ptrs_eq_loop.simps [simp del]
declare smartlist_uniq_loop.simps [simp del]
declare most_frequent_loop.simps [simp del]

subsection \<open>Correctness of reversal, search and the set operations\<close>

lemma smartlist_reverse_loop_rel:
  assumes "sl_rel sl (us @ ms @ ws)"
  shows "\<exists>sl'. smartlist_reverse_loop sl (int (length us)) (int (length us + length ms) - 1) = Some sl' \<and>
           sl_rel sl' (us @ rev ms @ ws)"
  using assms
proof (induction "length ms" arbitrary: sl us ms ws rule: less_induct)
  case less
  consider "ms = []" | x where "ms = [x]" | x y ns where "ms = x # ns @ [y]"
    by (cases ms; cases "tl ms" rule: rev_cases) auto
  then show ?case
  proof cases
    case 3
    from less.prems obtain k where k: "sl = mk_sl (us @ ms @ ws) k" "0 < length (us @ ms @ ws) + k"
      "length (us @ ms @ ws) + k \<le> MAX_CAPACITY"
      by (rule sl_relE)
    let ?sl' = "mk_sl ((us @ [y]) @ ns @ (x # ws)) k"
    have step: "smartlist_reverse_loop sl (int (length us)) (int (length us + length ms) - 1) =
        smartlist_reverse_loop ?sl' (int (length (us @ [y]))) (int (length (us @ [y]) + length ns) - 1)"
      using 3 k
      by (subst smartlist_reverse_loop.simps)
        (simp add: array_simps mk_sl_def list_update_append nth_append nat_add_distrib add.commute)
    have "sl_rel ?sl' ((us @ [y]) @ ns @ (x # ws))" using k 3 by simp
    from less.hyps [OF _ this] 3 step show ?thesis by simp
  qed (use less.prems in \<open>auto simp: smartlist_reverse_loop.simps\<close>)
qed

lemma smartlist_reverse_rel:
  "sl_rel sl xs \<Longrightarrow> \<exists>sl'. smartlist_reverse sl = Some sl' \<and> sl_rel sl' (rev xs)"
  using smartlist_reverse_loop_rel [of sl "[]" xs "[]"] by (simp add: smartlist_reverse_def sl_simps)

lemma smartlist_pos_loop_rel:
  assumes "sl_rel sl (ys @ zs)"
  shows "smartlist_pos_loop sl e (length ys) =
    Some (if e \<in> set zs then int (length ys + length (takeWhile (\<lambda>x. x \<noteq> e) zs)) else -1)"
  using assms
proof (induction zs arbitrary: ys)
  case Nil
  then show ?case by (simp add: smartlist_pos_loop.simps sl_simps)
next
  case (Cons z zs)
  from Cons.IH [of "ys @ [z]"] Cons.prems show ?case
    by (auto simp: smartlist_pos_loop.simps [of sl e "length ys"] sl_simps)
qed

lemma smartlist_pos_rel [sl_simps]:
  "sl_rel sl xs \<Longrightarrow> smartlist_pos (Some sl) e =
     Some (if e \<in> set xs then int (length (takeWhile (\<lambda>x. x \<noteq> e) xs)) else -1)"
  using smartlist_pos_loop_rel [of sl "[]" xs e] by (simp add: smartlist_pos_def)

lemma smartlist_overlap_loop_rel:
  assumes "sl_rel sl1 xs" "sl_rel sl2 (ys @ zs)"
  shows "smartlist_overlap_loop sl1 sl2 (length ys) = Some (set xs \<inter> set zs \<noteq> {})"
  using assms
proof (induction zs arbitrary: ys)
  case Nil
  then show ?case by (simp add: smartlist_overlap_loop.simps sl_simps)
next
  case (Cons z zs)
  from Cons.IH [of "ys @ [z]"] Cons.prems show ?case
    by (auto simp: smartlist_overlap_loop.simps [of sl1 sl2 "length ys"] sl_simps)
qed

lemma smartlist_intersect_loop_eq:
  assumes "sl_rel sl2 ys"
  shows "smartlist_intersect_loop sl1 sl2 i = swap_remove_loop (\<lambda>x. x \<notin> set ys) sl1 i"
  using assms
proof (induction sl1 sl2 i rule: smartlist_intersect_loop.induct)
  case (1 sl1 sl2 i)
  then show ?case
    by (subst smartlist_intersect_loop.simps, subst swap_remove_loop.simps)
      (auto simp: Let_def sl_simps intro!: Option.bind_cong)
qed

lemma smartlist_subtract_loop_rel:
  assumes "sl_rel sl1 xs" "sl_rel sl2 (ys @ zs)" "None \<notin> set zs"
  shows "\<exists>sl' us. smartlist_subtract_loop sl1 sl2 (length ys) = Some sl' \<and> sl_rel sl' us \<and>
           mset us = filter_mset (\<lambda>x. x \<notin> set zs) (mset xs)"
  using assms
proof (induction zs arbitrary: ys sl1 xs)
  case Nil
  then show ?case by (auto simp: smartlist_subtract_loop.simps sl_simps)
next
  case (Cons z zs)
  from Cons.prems(3) obtain e where e: "z = Some e" by (cases z) auto
  from smartlist_remove_rel [OF Cons.prems(1), of e] obtain sl' us where
    r: "smartlist_remove sl1 z = Some sl'" "sl_rel sl' us"
      "mset us = filter_mset (\<lambda>x. x \<noteq> z) (mset xs)" unfolding e by blast
  from Cons.IH [OF r(2), of "ys @ [z]"] Cons.prems obtain sl'' vs where
    "smartlist_subtract_loop sl' sl2 (length ys + 1) = Some sl''" "sl_rel sl'' vs"
    "mset vs = filter_mset (\<lambda>x. x \<notin> set zs) (mset us)" by auto
  with r Cons.prems show ?case
    by (intro exI [of _ sl''] exI [of _ vs])
      (auto simp: smartlist_subtract_loop.simps [of sl1] sl_simps filter_filter_mset
        intro!: filter_mset_cong)
qed

lemma smartlist_ptrs_eq_loop_rel:
  assumes "sl_rel s1 (ys @ zs)" "sl_rel s2 (us @ ws)" "length ys = length us" "length zs = length ws"
  shows "smartlist_ptrs_eq_loop s1 s2 (length ys) = Some (zs = ws)"
  using assms(4,1-3)
proof (induction zs ws arbitrary: ys us rule: list_induct2)
  case Nil
  then show ?case by (simp add: smartlist_ptrs_eq_loop.simps smartlist_len_def sl_simps)
next
  case (Cons z zs w ws)
  from Cons.IH [of "ys @ [z]" "us @ [w]"] Cons.prems show ?case
    by (subst smartlist_ptrs_eq_loop.simps)
      (auto simp: smartlist_len_def smartlist_get_def sl_simps nth_append)
qed

text \<open>
  Reversal, search and the set operations return and compute what their comments say:
  \<open>smartlist_reverse\<close> reverses, \<open>smartlist_pos\<close> finds the first index or gives \<open>-1\<close>,
  \<open>smartlist_overlap\<close> decides whether the lists share an element, \<open>smartlist_intersect\<close> and
  \<open>smartlist_subtract\<close> keep exactly the occurrences that are, or are not, members of the second
  list, and \<open>smartlist_ptrs_eq\<close> decides equality.
\<close>

theorem smartlist_set_operations:
  assumes "sl_rel sl xs" "sl_rel s2 ys" "None \<notin> set ys"
  shows "(\<exists>s'. smartlist_reverse sl = Some s' \<and> sl_rel s' (rev xs)) \<and>
    smartlist_pos (Some sl) e =
      Some (if e \<in> set xs then int (length (takeWhile (\<lambda>x. x \<noteq> e) xs)) else -1) \<and>
    smartlist_overlap sl s2 = Some (set xs \<inter> set ys \<noteq> {}) \<and>
    (\<exists>s' us. smartlist_intersect sl s2 = Some s' \<and> sl_rel s' us \<and>
       mset us = filter_mset (\<lambda>x. x \<in> set ys) (mset xs)) \<and>
    (\<exists>s' us. smartlist_subtract sl s2 = Some s' \<and> sl_rel s' us \<and>
       mset us = filter_mset (\<lambda>x. x \<notin> set ys) (mset xs)) \<and>
    smartlist_ptrs_eq (Some sl) (Some s2) = Some (xs = ys)"
proof (intro conjI)
  show "\<exists>s' us. smartlist_intersect sl s2 = Some s' \<and> sl_rel s' us \<and>
      mset us = filter_mset (\<lambda>x. x \<in> set ys) (mset xs)"
    using swap_remove_loop_rel [of sl "[]" xs "\<lambda>x. x \<notin> set ys"] assms(1)
    by (simp add: smartlist_intersect_def smartlist_intersect_loop_eq [OF assms(2)])
  show "smartlist_ptrs_eq (Some sl) (Some s2) = Some (xs = ys)"
    using smartlist_ptrs_eq_loop_rel [of sl "[]" xs s2 "[]" ys] assms(1,2)
    by (auto simp: smartlist_ptrs_eq_def smartlist_len_def sl_simps)
qed (use smartlist_overlap_loop_rel [of sl xs s2 "[]" ys] smartlist_subtract_loop_rel [of sl xs s2 "[]" ys]
      smartlist_reverse_rel assms in \<open>auto simp: smartlist_overlap_def smartlist_subtract_def sl_simps\<close>)

theorem smartlist_set_operations_witness:
  "\<exists>s' us. smartlist_subtract (mk_sl [Some (1::nat), Some 2, Some 1] 13) (mk_sl [Some 1] 15) = Some s' \<and>
     sl_rel s' us \<and> mset us = {#Some 2#}"
  using smartlist_set_operations [of "mk_sl [Some (1::nat), Some 2, Some 1] 13" "[Some 1, Some 2, Some 1]"
      "mk_sl [Some 1] 15" "[Some 1]"]
  by (simp add: MAX_CAPACITY_def)

subsection \<open>What a comparison function promises\<close>

text \<open>
  The contract of the \<open>compare\<close> arguments on the entries \<open>A\<close> they may be called with: the sign
  flips when the arguments are exchanged, and the relation "not greater" is transitive.
\<close>

locale cmp_order =
  fixes cmp :: "'a \<Rightarrow> 'a \<Rightarrow> int" and A :: "'a set"
  assumes cmp_anti: "x \<in> A \<Longrightarrow> y \<in> A \<Longrightarrow> sgn (cmp x y) = - sgn (cmp y x)"
    and cmp_trans: "x \<in> A \<Longrightarrow> y \<in> A \<Longrightarrow> z \<in> A \<Longrightarrow> cmp x y \<le> 0 \<Longrightarrow> cmp y z \<le> 0 \<Longrightarrow> cmp x z \<le> 0"
begin

lemma cmp_refl [simp]: "x \<in> A \<Longrightarrow> cmp x x = 0"
  using cmp_anti [of x x] by (auto simp: sgn_if split: if_splits)

lemma cmp_flip:
  assumes "x \<in> A" "y \<in> A"
  shows "cmp x y < 0 \<longleftrightarrow> 0 < cmp y x" "cmp x y = 0 \<longleftrightarrow> cmp y x = 0" "cmp x y \<le> 0 \<longleftrightarrow> 0 \<le> cmp y x"
  using cmp_anti [OF assms] by (auto simp: sgn_if split: if_splits)

lemma cmp_less_le_trans: "x \<in> A \<Longrightarrow> y \<in> A \<Longrightarrow> z \<in> A \<Longrightarrow> cmp x y < 0 \<Longrightarrow> cmp y z \<le> 0 \<Longrightarrow> cmp x z < 0"
  using cmp_trans [of y z x] cmp_flip [of x z] cmp_flip [of x y] by fastforce

lemma cmp_le_less_trans: "x \<in> A \<Longrightarrow> y \<in> A \<Longrightarrow> z \<in> A \<Longrightarrow> cmp x y \<le> 0 \<Longrightarrow> cmp y z < 0 \<Longrightarrow> cmp x z < 0"
  using cmp_trans [of z x y] cmp_flip [of x z] cmp_flip [of y z] by fastforce

lemma cmp_eq_trans: "x \<in> A \<Longrightarrow> y \<in> A \<Longrightarrow> z \<in> A \<Longrightarrow> cmp x y = 0 \<Longrightarrow> cmp y z = 0 \<Longrightarrow> cmp x z = 0"
  using cmp_trans [of x y z] cmp_trans [of z y x] cmp_flip [of x y] cmp_flip [of y z] cmp_flip [of x z]
  by force

end

text \<open>
  \<open>compare_ptrs_\<close> orders pointers by address, and \<open>compare_string_ptrs_\<close> is \<open>strcmp\<close> on the
  strings pointed to. C leaves the size of the result of \<open>strcmp\<close> open; the model takes \<open>1\<close>
  and \<open>-1\<close>, and every caller looks at the sign only.
  The order of the characters is that of their codes.
\<close>

definition compare_ptrs :: "nat option \<Rightarrow> nat option \<Rightarrow> int" where
  "compare_ptrs a b =
     (let a = (case a of None \<Rightarrow> 0 | Some p \<Rightarrow> Suc p); b = (case b of None \<Rightarrow> 0 | Some p \<Rightarrow> Suc p)
      in if a < b then -1 else if a = b then 0 else 1)"

fun strcmp :: "'a::linorder list \<Rightarrow> 'a list \<Rightarrow> int" where
  "strcmp [] [] = 0"
| "strcmp [] (y # ys) = -1"
| "strcmp (x # xs) [] = 1"
| "strcmp (x # xs) (y # ys) =
     (if x = y then strcmp xs ys else if x < y then -1 else 1)"

definition compare_string_ptrs :: "string option \<Rightarrow> string option \<Rightarrow> int" where
  "compare_string_ptrs a b = strcmp (the a) (the b)"

lemma strcmp_eq_0 [simp]: "strcmp xs ys = 0 \<longleftrightarrow> xs = ys"
  by (induction xs ys rule: strcmp.induct) auto

lemma strcmp_anti: "sgn (strcmp xs ys) = - sgn (strcmp ys xs)"
  by (induction xs ys rule: strcmp.induct) (auto simp: not_less order_le_less)

lemma strcmp_trans: "strcmp xs ys \<le> 0 \<Longrightarrow> strcmp ys zs \<le> 0 \<Longrightarrow> strcmp xs zs \<le> 0"
proof (induction xs ys arbitrary: zs rule: strcmp.induct)
  case (4 x xs y ys)
  then show ?case by (cases zs) (auto split: if_splits)
qed (case_tac zs; auto)+

interpretation ptr_order: cmp_order compare_ptrs UNIV
  by unfold_locales (auto simp: compare_ptrs_def Let_def split: if_splits)

interpretation string_order: cmp_order compare_string_ptrs "{x. x \<noteq> None}"
  by unfold_locales (unfold compare_string_ptrs_def, rule strcmp_anti, rule strcmp_trans)

subsection \<open>Duplicates\<close>

fun dedup :: "('a \<Rightarrow> 'a \<Rightarrow> int) \<Rightarrow> 'a list \<Rightarrow> 'a list" where
  "dedup cmp (x # y # zs) =
     (if cmp x y = 0 then dedup cmp (x # zs) else x # dedup cmp (y # zs))"
| "dedup cmp xs = xs"

lemma smartlist_uniq_loop_rel:
  assumes "sl_rel sl (ys @ x # zs)"
  shows "\<exists>sl'. smartlist_uniq_loop cmp sl (Suc (length ys)) = Some sl' \<and>
           sl_rel sl' (ys @ dedup cmp (x # zs))"
  using assms
proof (induction zs arbitrary: sl ys x)
  case Nil
  then show ?case by (simp add: smartlist_uniq_loop.simps sl_simps)
next
  case (Cons z zs)
  have get: "arr_get (sl_list sl) (length ys) = Some x" "arr_get (sl_list sl) (Suc (length ys)) = Some z"
    using sl_rel_get [OF Cons.prems, of "length ys"] sl_rel_get [OF Cons.prems, of "Suc (length ys)"]
    by (simp_all add: nth_append)
  show ?case
  proof (cases "cmp x z = 0")
    case True
    from smartlist_del_keeporder_rel [OF Cons.prems, of "Suc (length ys)"] obtain sl1 where
      sl1: "smartlist_del_keeporder sl (int (Suc (length ys))) = Some sl1" "sl_rel sl1 (ys @ x # zs)"
      by auto
    from Cons.IH [OF sl1(2)] sl1(1) True get sl_rel_num_used [OF Cons.prems] show ?thesis
      by (simp add: smartlist_uniq_loop.simps [of cmp sl])
  next
    case False
    from Cons.IH [of sl "ys @ [x]" z] Cons.prems False get sl_rel_num_used [OF Cons.prems] show ?thesis
      by (simp add: smartlist_uniq_loop.simps [of cmp sl])
  qed
qed

lemma smartlist_uniq_rel:
  "sl_rel sl xs \<Longrightarrow> \<exists>sl'. smartlist_uniq sl cmp = Some sl' \<and> sl_rel sl' (dedup cmp xs)"
  using smartlist_uniq_loop_rel [of sl "[]" "hd xs" "tl xs" cmp]
  by (cases xs) (auto simp: smartlist_uniq_def smartlist_uniq_loop.simps sl_simps)

lemma set_dedup_subset: "set (dedup cmp xs) \<subseteq> set xs"
  by (induction cmp xs rule: dedup.induct) auto

context cmp_order
begin

lemma dedup_covers:
  "set (x # zs) \<subseteq> A \<Longrightarrow> w \<in> set (x # zs) \<Longrightarrow> \<exists>y \<in> set (dedup cmp (x # zs)). cmp w y = 0"
proof (induction zs arbitrary: x w)
  case Nil
  then show ?case by auto
next
  case (Cons z zs)
  have x: "\<exists>y \<in> set (dedup cmp (x # zs)). cmp x y = 0" using Cons.IH [of x x] Cons.prems(1) by simp
  show ?case
  proof (cases "cmp x z = 0 \<and> w = z")
    case True
    from x obtain y where y: "y \<in> set (dedup cmp (x # zs))" "cmp x y = 0" by blast
    with set_dedup_subset [of cmp "x # zs"] Cons.prems(1) have "y \<in> A" by auto
    with True y Cons.prems(1) cmp_eq_trans [of z x y] cmp_flip(2) [of z x] show ?thesis by auto
  next
    case False
    with Cons.IH [of x w] Cons.IH [of z w] Cons.prems show ?thesis by auto
  qed
qed

lemma dedup_sorted:
  "set (x # zs) \<subseteq> A \<Longrightarrow> sorted_wrt (\<lambda>x y. cmp x y \<le> 0) (x # zs) \<Longrightarrow>
     sorted_wrt (\<lambda>x y. cmp x y < 0) (dedup cmp (x # zs))"
proof (induction zs arbitrary: x)
  case Nil
  then show ?case by simp
next
  case (Cons z zs)
  have "cmp x w < 0" if "cmp x z \<noteq> 0" "w \<in> set (dedup cmp (z # zs))" for w
  proof -
    have "w \<in> set (z # zs)" using that(2) set_dedup_subset by fast
    with that(1) Cons.prems cmp_less_le_trans [of x z w] show ?thesis by force
  qed
  with Cons.IH [of x] Cons.IH [of z] Cons.prems show ?case by simp
qed

end

text \<open>
  On a list sorted with \<open>compare\<close>, \<open>smartlist_uniq\<close> returns a list of its members that is
  strictly increasing, so without duplicates, and still has an equal member for each member
  of the input.
\<close>

theorem smartlist_uniq_correct:
  assumes "cmp_order cmp A" "sl_rel sl xs" "set xs \<subseteq> A" "sorted_wrt (\<lambda>x y. cmp x y \<le> 0) xs"
  shows "\<exists>sl' ys. smartlist_uniq sl cmp = Some sl' \<and> sl_rel sl' ys \<and> set ys \<subseteq> set xs \<and>
           sorted_wrt (\<lambda>x y. cmp x y < 0) ys \<and> (\<forall>x \<in> set xs. \<exists>y \<in> set ys. cmp x y = 0)"
proof -
  from smartlist_uniq_rel [OF assms(2)] obtain sl' where
    "smartlist_uniq sl cmp = Some sl'" "sl_rel sl' (dedup cmp xs)" by blast
  moreover have "sorted_wrt (\<lambda>x y. cmp x y < 0) (dedup cmp xs)"
    "\<forall>x \<in> set xs. \<exists>y \<in> set (dedup cmp xs). cmp x y = 0"
    using cmp_order.dedup_sorted [OF assms(1)] cmp_order.dedup_covers [OF assms(1)] assms(3,4)
    by (cases xs; simp)+
  ultimately show ?thesis using set_dedup_subset [of cmp xs] by blast
qed

theorem smartlist_uniq_correct_witness:
  "\<exists>sl' ys. smartlist_uniq (mk_sl [Some ''a'', Some ''b'', Some ''b''] 13) compare_string_ptrs = Some sl' \<and>
     sl_rel sl' ys \<and> set ys \<subseteq> set [Some ''a'', Some ''b'', Some ''b''] \<and>
     sorted_wrt (\<lambda>x y. compare_string_ptrs x y < 0) ys"
proof -
  let ?xs = "[Some ''a'', Some ''b'', Some ''b'']"
  have 1: "sl_rel (mk_sl ?xs 13) ?xs" by (simp add: MAX_CAPACITY_def)
  have 2: "set ?xs \<subseteq> {x. x \<noteq> None}" by simp
  have 3: "sorted_wrt (\<lambda>x y. compare_string_ptrs x y \<le> 0) ?xs" by (simp add: compare_string_ptrs_def)
  from smartlist_uniq_correct [OF string_order.cmp_order_axioms 1 2 3] show ?thesis by blast
qed

subsection \<open>The most frequent member\<close>

context cmp_order
begin

definition occurrences :: "'a \<Rightarrow> 'a list \<Rightarrow> nat" where
  "occurrences x xs = length (filter (\<lambda>y. cmp x y = 0) xs)"

definition is_mode :: "'a list \<Rightarrow> 'a \<Rightarrow> nat \<Rightarrow> bool" where
  "is_mode xs m n \<longleftrightarrow>
     m \<in> set xs \<and> n = occurrences m xs \<and>
     (\<forall>x \<in> set xs. occurrences x xs \<le> n \<and> (occurrences x xs = n \<longrightarrow> cmp x m \<le> 0))"

text \<open>Adding a finished run \<open>rs\<close> of members equal to \<open>r\<close>, all greater than the ones before.\<close>

lemma occurrences_run:
  assumes "set qs \<subseteq> A" "set rs \<subseteq> A" "r \<in> set rs"
    and "\<forall>x \<in> set rs. cmp r x = 0" "\<forall>q \<in> set qs. cmp q r < 0"
  shows "x \<in> set rs \<Longrightarrow> occurrences x (qs @ rs) = length rs"
    and "x \<in> set qs \<Longrightarrow> occurrences x (qs @ rs) = occurrences x qs"
proof -
  have less: "cmp q x < 0" if "q \<in> set qs" "x \<in> set rs" for q x
    using cmp_less_le_trans [of q r x] assms that by fastforce
  show "occurrences x (qs @ rs) = length rs" if "x \<in> set rs"
  proof -
    have "filter (\<lambda>y. cmp x y = 0) qs = []"
      using less [OF _ that] that assms(1,2) cmp_flip(2) [of x] by (fastforce simp: filter_empty_conv)
    moreover have "cmp x r = 0"
      using that assms(2-4) cmp_flip(2) [of x r] by auto
    then have "\<forall>y \<in> set rs. cmp x y = 0"
      using that assms(2-4) cmp_eq_trans [of x r] by blast
    ultimately show ?thesis by (simp add: occurrences_def)
  qed
  show "occurrences x (qs @ rs) = occurrences x qs" if "x \<in> set qs"
    using less [OF that] by (fastforce simp: occurrences_def filter_empty_conv)
qed

lemma is_mode_run:
  assumes "set qs \<subseteq> A" "set rs \<subseteq> A" "r \<in> set rs"
    and "\<forall>x \<in> set rs. cmp r x = 0" "\<forall>q \<in> set qs. cmp q r < 0"
    and "qs = [] \<and> n = 0 \<or> is_mode qs m n"
  shows "if n \<le> length rs then is_mode (qs @ rs) r (length rs) else is_mode (qs @ rs) m n"
proof -
  note occ = occurrences_run [OF assms(1-5)]
  have r_max: "cmp x r \<le> 0" if "x \<in> set (qs @ rs)" for x
    using that assms cmp_flip(2) [of x r] by force
  show ?thesis
  proof (cases "n \<le> length rs")
    case True
    have "occurrences x (qs @ rs) \<le> length rs" if "x \<in> set (qs @ rs)" for x
      using that occ [of x] True assms(6) by (fastforce simp: is_mode_def)
    with True r_max occ(1) [OF assms(3)] assms(3) show ?thesis by (simp add: is_mode_def)
  next
    case False
    with assms(3,6) have mode: "is_mode qs m n" by auto
    have "occurrences x (qs @ rs) \<le> n \<and> (occurrences x (qs @ rs) = n \<longrightarrow> cmp x m \<le> 0)"
      if "x \<in> set (qs @ rs)" for x
      using that occ [of x] False mode by (fastforce simp: is_mode_def)
    with False mode occ(2) [of m] show ?thesis by (auto simp: is_mode_def)
  qed
qed

end

lemma most_frequent_loop_mode:
  assumes "cmp_order cmp A" "None \<notin> A"
    and "sl_rel sl (qs @ rs @ zs)" "set (qs @ rs @ zs) \<subseteq> A" "cur \<in> set rs"
    and "sorted_wrt (\<lambda>x y. cmp x y \<le> 0) (qs @ rs @ zs)"
    and "\<forall>x \<in> set rs. cmp cur x = 0" "\<forall>q \<in> set qs. cmp q cur < 0"
    and "qs = [] \<and> n = 0 \<or> cmp_order.is_mode cmp qs mf n"
  shows "\<exists>m c. most_frequent_loop cmp sl (length qs + length rs) cur (int (length rs)) mf (int n)
           = Some (m, int c) \<and> cmp_order.is_mode cmp (qs @ rs @ zs) m c"
  using assms(3-9)
proof (induction zs arbitrary: qs rs cur mf n)
  case Nil
  from cmp_order.is_mode_run [OF assms(1), of qs rs cur n mf] Nil.prems assms(2) show ?case
    by (cases "n \<le> length rs") (auto simp: most_frequent_loop.simps finish_run_def sl_simps)
next
  case (Cons z zs)
  note step = most_frequent_loop.simps [of cmp sl "length qs + length rs" cur "int (length rs)" mf "int n"]
    and get = sl_rel_get [OF Cons.prems(1), of "length qs + length rs"]
    and used = sl_rel_num_used [OF Cons.prems(1)]
  have cur: "cur \<in> A" "cur \<noteq> None" using Cons.prems(2,3) assms(2) by (cases cur; auto)+
  show ?case
  proof (cases "cmp cur z = 0")
    case True
    from Cons.IH [of qs "rs @ [z]" cur n mf] True Cons.prems cur step get used show ?thesis
      by (simp add: nth_append add.commute)
  next
    case False
    with Cons.prems(3,4) have cz: "cmp cur z < 0" by (auto simp: sorted_wrt_append)
    have less: "\<forall>q \<in> set (qs @ rs). cmp q z < 0"
    proof
      fix q assume q: "q \<in> set (qs @ rs)"
      then have "cmp q cur \<le> 0"
        using Cons.prems(2,5,6) cur(1) cmp_order.cmp_flip(2) [OF assms(1), of q cur] by fastforce
      with q cz cur(1) Cons.prems(2) show "cmp q z < 0"
        by (intro cmp_order.cmp_le_less_trans [OF assms(1), of q cur z]) auto
    qed
    obtain mf' n' where fin: "finish_run cur (int (length rs)) mf (int n) = (mf', int n')"
      "cmp_order.is_mode cmp (qs @ rs) mf' n'"
      using cmp_order.is_mode_run [OF assms(1), of qs rs cur n mf] Cons.prems cur(2)
      by (cases "n \<le> length rs") (auto simp: finish_run_def)
    from Cons.IH [of "qs @ rs" "[z]" z n' mf'] fin less Cons.prems
      cmp_order.cmp_refl [OF assms(1), of z] False step get used show ?thesis
      by (simp add: nth_append)
  qed
qed

text \<open>
  On a nonempty list sorted with \<open>compare\<close>, \<open>smartlist_get_most_frequent_\<close> returns a member
  and its exact number of occurrences, no member occurs more often, and among the members
  that occur as often it is the last in the order.
\<close>

theorem smartlist_get_most_frequent_correct:
  assumes "cmp_order cmp A" "None \<notin> A" "sl_rel sl xs" "set xs \<subseteq> A"
    and "sorted_wrt (\<lambda>x y. cmp x y \<le> 0) xs" "xs \<noteq> []"
  shows "\<exists>m. smartlist_get_most_frequent sl cmp = Some (m, int (length (filter (\<lambda>y. cmp m y = 0) xs))) \<and>
    m \<in> set xs \<and>
    (\<forall>x \<in> set xs.
       length (filter (\<lambda>y. cmp x y = 0) xs) < length (filter (\<lambda>y. cmp m y = 0) xs) \<or>
       length (filter (\<lambda>y. cmp x y = 0) xs) = length (filter (\<lambda>y. cmp m y = 0) xs) \<and> cmp x m \<le> 0)"
proof -
  obtain x xs' where xs: "xs = x # xs'" using assms(6) by (cases xs) auto
  have "smartlist_get_most_frequent sl cmp = most_frequent_loop cmp sl (length [] + length [x]) x (int (length [x])) None (int 0)"
    using sl_rel_get [OF assms(3), of 0] sl_rel_num_used [OF assms(3)] xs
    by (simp add: smartlist_get_most_frequent_def most_frequent_loop.simps [of cmp sl 0] finish_run_def)
  with most_frequent_loop_mode [OF assms(1,2), of sl "[]" "[x]" xs' x 0 None] assms(3-5) xs
    cmp_order.cmp_refl [OF assms(1), of x]
  obtain m c where "smartlist_get_most_frequent sl cmp = Some (m, int c)" "cmp_order.is_mode cmp xs m c"
    by auto
  then show ?thesis
    by (auto simp: cmp_order.is_mode_def [OF assms(1)] cmp_order.occurrences_def [OF assms(1)]
        order_le_less)
qed

theorem smartlist_get_most_frequent_correct_witness:
  "\<exists>m. smartlist_get_most_frequent (mk_sl [Some ''a'', Some ''b'', Some ''b''] 13) compare_string_ptrs
     = Some (m, int (length (filter (\<lambda>y. compare_string_ptrs m y = 0) [Some ''a'', Some ''b'', Some ''b''])))"
proof -
  let ?xs = "[Some ''a'', Some ''b'', Some ''b'']"
  have 1: "sl_rel (mk_sl ?xs 13) ?xs" by (simp add: MAX_CAPACITY_def)
  have 2: "set ?xs \<subseteq> {x. x \<noteq> None}" by simp
  have 3: "sorted_wrt (\<lambda>x y. compare_string_ptrs x y \<le> 0) ?xs" by (simp add: compare_string_ptrs_def)
  from smartlist_get_most_frequent_correct [OF string_order.cmp_order_axioms _ 1 2 3]
  show ?thesis by blast
qed

end
