(* ===== verification/Smartlist_Search.thy ===== *)
theory Smartlist_Search
  imports Smartlist
begin

section \<open>Binary search in a smartlist, \<^verbatim>\<open>lib/container/smartlist.c\<close>\<close>

text \<open>
  \<open>smartlist_bsearch_idx\<close> with every assertion of the source, and the proof that none of them
  fails on a list ordered with respect to the key.
\<close>

subsection \<open>Binary search\<close>

text \<open>
  The loop of \<open>smartlist_bsearch_idx\<close> with all its assertions; \<open>compare\<close> is the comparison
  function applied to the key. The result is the pair of \<open>*found_out\<close> and the index returned.
\<close>

function bsearch_idx_loop ::
  "('a option \<Rightarrow> int) \<Rightarrow> 'a smartlist \<Rightarrow> int \<Rightarrow> int \<Rightarrow> int \<Rightarrow> (bool \<times> int) option" where
  "bsearch_idx_loop compare sl len lo hi =
     (if lo \<le> hi then
        do {
          let diff = hi - lo;
          let mid = lo + diff div 2;
          x \<leftarrow> arr_get (sl_list sl) (nat mid);
          let cmp = compare x;
          (if cmp = 0 then Some (True, mid)
           else if 0 < cmp then
             do {
               guard (mid < len);
               bsearch_idx_loop compare sl len (mid + 1) hi
             }
           else if 0 < mid then bsearch_idx_loop compare sl len lo (mid - 1)
           else
             do {
               guard (mid = lo);
               guard (mid = 0);
               Some (False, 0)
             })
        }
      else
        do {
          guard (lo = hi + 1);
          guard (0 \<le> lo);
          guard (lo \<le> len);
          guard (0 \<le> hi);
          guard (hi \<le> len);
          (if lo < len then
             do {
               x \<leftarrow> arr_get (sl_list sl) (nat lo);
               guard (compare x < 0)
             }
           else
             do {
               x \<leftarrow> arr_get (sl_list sl) (nat (len - 1));
               guard (0 < compare x)
             });
          Some (False, lo)
        })"
  by pat_completeness auto
termination
  by (relation "measure (\<lambda>(c, sl, len, lo, hi). nat (hi - lo + 1))") auto

definition smartlist_bsearch_idx ::
  "'a smartlist \<Rightarrow> 'k \<Rightarrow> ('k \<Rightarrow> 'a option \<Rightarrow> int) \<Rightarrow> (bool \<times> int) option" where
  "smartlist_bsearch_idx sl key compare =
     (let len = int (smartlist_len sl)
      in if len = 0 then Some (False, 0)
         else bsearch_idx_loop (compare key) sl len 0 (len - 1))"

definition smartlist_bsearch ::
  "'a smartlist \<Rightarrow> 'k \<Rightarrow> ('k \<Rightarrow> 'a option \<Rightarrow> int) \<Rightarrow> 'a option option" where
  "smartlist_bsearch sl key compare =
     do {
       (found, idx) \<leftarrow> smartlist_bsearch_idx sl key compare;
       (if found then smartlist_get sl (nat idx) else Some None)
     }"

declare bsearch_idx_loop.simps [simp del]

subsection \<open>Correctness of binary search\<close>

lemma bsearch_idx_loop_correct:
  assumes "sl_rel sl xs" "sorted_wrt (\<lambda>x y. sgn (c y) \<le> sgn (c x)) xs"
    and "0 \<le> lo" "lo \<le> hi + 1" "0 \<le> hi" "hi < int (length xs)"
    and "\<forall>i < nat lo. 0 < c (xs ! i)" "\<forall>i < length xs. hi < int i \<longrightarrow> c (xs ! i) < 0"
  shows "\<exists>found idx. bsearch_idx_loop c sl (int (length xs)) lo hi = Some (found, int idx) \<and>
    idx \<le> length xs \<and> (found \<longrightarrow> idx < length xs \<and> c (xs ! idx) = 0) \<and>
    (\<not> found \<longrightarrow> (\<forall>i < idx. 0 < c (xs ! i)) \<and> (\<forall>i < length xs. idx \<le> i \<longrightarrow> c (xs ! i) < 0))"
  using assms(3-8)
proof (induction "nat (hi - lo + 1)" arbitrary: lo hi rule: less_induct)
  case less
  have mono: "sgn (c (xs ! j)) \<le> sgn (c (xs ! i))" if "i \<le> j" "j < length xs" for i j
    using sorted_wrt_nth_less [OF assms(2), of i j] that by (cases "i = j") auto
  note step = bsearch_idx_loop.simps [of c sl "int (length xs)" lo hi]
  show ?case
  proof (cases "lo \<le> hi")
    case False
    with less.prems(2) have lo: "lo = hi + 1" by simp
    then obtain k where k: "lo = int (Suc k)" "hi = int k" using less.prems(3) by (metis nonneg_int_cases
          of_nat_Suc add.commute)
    with less.prems False lo sl_rel_get [OF assms(1)] show ?thesis
      by (intro exI [of _ False] exI [of _ "Suc k"], subst step)
        (auto simp: nat_add_distrib nat_diff_distrib)
  next
    case True
    define mid where "mid = lo + (hi - lo) div 2"
    have mid: "lo \<le> mid" "mid \<le> hi" "0 \<le> mid" "mid < int (length xs)"
      using True less.prems by (auto simp: mid_def)
    then have get: "arr_get (sl_list sl) (nat mid) = Some (xs ! nat mid)"
      using sl_rel_get [OF assms(1), of "nat mid"] by linarith
    consider "c (xs ! nat mid) = 0" | "0 < c (xs ! nat mid)" | "c (xs ! nat mid) < 0" "0 < mid"
      | "c (xs ! nat mid) < 0" "mid = 0" using mid by linarith
    then show ?thesis
    proof cases
      case 1
      with True mid get show ?thesis
        by (intro exI [of _ True] exI [of _ "nat mid"]) (auto simp: step Let_def mid_def [symmetric])
    next
      case 2
      have "\<forall>i < nat (mid + 1). 0 < c (xs ! i)"
        using sgn_le_pos [OF mono [of _ "nat mid"]] mid 2 by simp
      moreover have "bsearch_idx_loop c sl (int (length xs)) lo hi =
          bsearch_idx_loop c sl (int (length xs)) (mid + 1) hi"
        using 2 True mid get by (simp add: step Let_def mid_def [symmetric])
      ultimately show ?thesis using less.hyps [of hi "mid + 1"] less.prems mid by simp
    next
      case 3
      have "\<forall>i < length xs. mid - 1 < int i \<longrightarrow> c (xs ! i) < 0"
        using sgn_le_neg [OF mono [of "nat mid"]] mid 3 by simp
      moreover have "bsearch_idx_loop c sl (int (length xs)) lo hi =
          bsearch_idx_loop c sl (int (length xs)) lo (mid - 1)"
        using 3 True mid get by (simp add: step Let_def mid_def [symmetric])
      ultimately show ?thesis using less.hyps [of "mid - 1" lo] less.prems mid 3 by simp
    next
      case 4
      have "\<forall>i < length xs. c (xs ! i) < 0"
        using sgn_le_neg [OF mono [of 0]] 4 by simp
      moreover have "bsearch_idx_loop c sl (int (length xs)) lo hi = Some (False, 0)"
        unfolding step Let_def mid_def [symmetric] using 4 True mid(1) get \<open>0 \<le> lo\<close> by simp
      ultimately show ?thesis by (intro exI [of _ False] exI [of _ 0]) simp
    qed
  qed
qed

text \<open>
  C40: binary search. On a list that is ordered with respect to the key, \<open>smartlist_bsearch_idx\<close> returns
  without failing any of its assertions. If it reports a match, the index is in range and the
  member there compares equal to the key; otherwise every member before the returned index is
  smaller than the key and every member from it on is greater.
\<close>

theorem smartlist_bsearch_idx_correct:
  assumes "sl_rel sl xs" "sorted_wrt (\<lambda>x y. sgn (cmp key y) \<le> sgn (cmp key x)) xs"
  shows "\<exists>found idx. smartlist_bsearch_idx sl key cmp = Some (found, int idx) \<and> idx \<le> length xs \<and>
    (found \<longrightarrow> idx < length xs \<and> cmp key (xs ! idx) = 0) \<and>
    (\<not> found \<longrightarrow> (\<forall>i < idx. 0 < cmp key (xs ! i)) \<and>
       (\<forall>i < length xs. idx \<le> i \<longrightarrow> cmp key (xs ! i) < 0))"
proof (cases "xs = []")
  case True
  with assms(1) show ?thesis
    by (intro exI [of _ False] exI [of _ 0]) (simp add: smartlist_bsearch_idx_def smartlist_len_def sl_simps)
next
  case False
  then have "1 \<le> int (length xs)" by (cases xs) auto
  with bsearch_idx_loop_correct [OF assms, of 0 "int (length xs) - 1"] False show ?thesis
    unfolding smartlist_bsearch_idx_def smartlist_len_def sl_rel_num_used [OF assms(1)] Let_def by simp
qed

theorem smartlist_bsearch_idx_correct_witness:
  "smartlist_bsearch_idx (mk_sl [Some (1::int), Some 4, Some 9] 13) 4 (\<lambda>k m. k - the m) = Some (True, 1)"
proof -
  have 1: "sl_rel (mk_sl [Some (1::int), Some 4, Some 9] 13) [Some 1, Some 4, Some 9]"
    by (simp add: MAX_CAPACITY_def)
  have 2: "sorted_wrt (\<lambda>x y. sgn ((\<lambda>k m. k - the m) 4 y) \<le> sgn ((\<lambda>k m. k - the m) 4 x))
      [Some (1::int), Some 4, Some 9]"
    by simp
  let ?xs = "[Some (1::int), Some 4, Some 9]"
  obtain found idx where r: "smartlist_bsearch_idx (mk_sl ?xs 13) 4 (\<lambda>k m. k - the m) = Some (found, int idx)"
    "found \<longrightarrow> idx < length ?xs \<and> 4 - the (?xs ! idx) = 0"
    "\<not> found \<longrightarrow> (\<forall>i < idx. 0 < 4 - the (?xs ! i)) \<and> (\<forall>i < length ?xs. idx \<le> i \<longrightarrow> 4 - the (?xs ! i) < 0)"
    using smartlist_bsearch_idx_correct [where cmp = "\<lambda>k m. k - the m", OF 1 2] by metis
  have found using r(3) by (cases "1 < idx") auto
  then have "idx = 1" using r(2) by (auto simp: less_Suc_eq)
  with r(1) \<open>found\<close> show ?thesis by simp
qed

end
