(* ===== verification/Pqueue.thy ===== *)
theory Pqueue
  imports Smartlist_Ops
begin

section \<open>Heap-based priority queues on smartlists, \<^verbatim>\<open>lib/container/smartlist.c\<close>\<close>

text \<open>
  The heap lives in a smartlist of pointers, and each item stores its own index in the heap in
  an integer field. The field is modelled by the function \<open>f\<close> from item pointers to its
  current value; an update through a null pointer is \<open>None\<close>. The heap functions of the source
  take the comparison function as an argument, and so do the definitions here.
\<close>

type_synonym 'a pq = "'a smartlist \<times> ('a option \<Rightarrow> int)"

definition MAX_PARENT_IDX :: nat where
  "MAX_PARENT_IDX = (2147483647 - 2) div 2"

definition IDX_MAY_HAVE_CHILDREN :: "nat \<Rightarrow> bool" where
  "IDX_MAY_HAVE_CHILDREN i \<longleftrightarrow> i \<le> MAX_PARENT_IDX"

lemma IDX_MAY_HAVE_CHILDREN_code [code]: "IDX_MAY_HAVE_CHILDREN i \<longleftrightarrow> int i \<le> 1073741822"
  by (auto simp: IDX_MAY_HAVE_CHILDREN_def MAX_PARENT_IDX_def)

definition LEFT_CHILD :: "nat \<Rightarrow> nat" where
  "LEFT_CHILD i = 2 * i + 1"

definition PARENT :: "nat \<Rightarrow> nat" where
  "PARENT i = (i - 1) div 2"

definition UPDATE_IDX :: "'a pq \<Rightarrow> nat \<Rightarrow> 'a pq option" where
  "UPDATE_IDX q i =
     (case q of (sl, f) \<Rightarrow>
        do {
          updated \<leftarrow> arr_get (sl_list sl) i;
          guard (updated \<noteq> None);
          Some (sl, f(updated := int i))
        })"

text \<open>The body of the loops: exchange two entries and update both stored indices, \<open>i\<close> first.\<close>

definition pq_swap :: "'a pq \<Rightarrow> nat \<Rightarrow> nat \<Rightarrow> 'a pq option" where
  "pq_swap q i j =
     (case q of (sl, f) \<Rightarrow>
        do {
          tmp \<leftarrow> arr_get (sl_list sl) i;
          y \<leftarrow> arr_get (sl_list sl) j;
          l \<leftarrow> arr_set (sl_list sl) i y;
          l \<leftarrow> arr_set l j tmp;
          q \<leftarrow> UPDATE_IDX (sl\<lparr>sl_list := l\<rparr>, f) i;
          UPDATE_IDX q j
        })"

lemma UPDATE_IDX_sl: "UPDATE_IDX q i = Some q' \<Longrightarrow> fst q' = fst q"
  by (auto simp: UPDATE_IDX_def bind_eq_Some_conv split: prod.splits if_splits)

lemma pq_swap_num_used: "pq_swap q i j = Some q' \<Longrightarrow> num_used (fst q') = num_used (fst q)"
  by (auto simp: pq_swap_def bind_eq_Some_conv split: prod.splits dest!: UPDATE_IDX_sl)

text \<open>The choice of \<open>best_idx\<close> in \<open>smartlist_heapify\<close>.\<close>

definition heapify_best ::
  "('a option \<Rightarrow> 'a option \<Rightarrow> int) \<Rightarrow> 'a smartlist \<Rightarrow> nat \<Rightarrow> nat option" where
  "heapify_best compare sl idx =
     do {
       let left_idx = LEFT_CHILD idx;
       x \<leftarrow> arr_get (sl_list sl) idx;
       y \<leftarrow> arr_get (sl_list sl) left_idx;
       let best_idx = (if compare x y < 0 then idx else left_idx);
       (if left_idx + 1 < num_used sl then
          do {
            r \<leftarrow> arr_get (sl_list sl) (left_idx + 1);
            b \<leftarrow> arr_get (sl_list sl) best_idx;
            Some (if compare r b < 0 then left_idx + 1 else best_idx)
          }
        else Some best_idx)
     }"

lemma heapify_best_range:
  "heapify_best compare sl idx = Some b \<Longrightarrow> LEFT_CHILD idx < num_used sl \<Longrightarrow>
     b = idx \<or> idx < b \<and> b < num_used sl"
  by (auto simp: heapify_best_def Let_def LEFT_CHILD_def bind_eq_Some_conv split: if_splits)

function smartlist_heapify ::
  "('a option \<Rightarrow> 'a option \<Rightarrow> int) \<Rightarrow> 'a pq \<Rightarrow> nat \<Rightarrow> 'a pq option" where
  "smartlist_heapify compare q idx =
     (if \<not> IDX_MAY_HAVE_CHILDREN idx then Some q
      else if num_used (fst q) \<le> LEFT_CHILD idx then Some q
      else
        do {
          best_idx \<leftarrow> heapify_best compare (fst q) idx;
          (if best_idx = idx then Some q
           else
             do {
               q' \<leftarrow> pq_swap q idx best_idx;
               smartlist_heapify compare q' best_idx
             })
        })"
  by pat_completeness auto
termination
  by (relation "measure (\<lambda>(c, q, idx). num_used (fst q) - idx)")
    (auto dest!: heapify_best_range pq_swap_num_used)

function pqueue_sift_up :: "('a option \<Rightarrow> 'a option \<Rightarrow> int) \<Rightarrow> 'a pq \<Rightarrow> nat \<Rightarrow> 'a pq option" where
  "pqueue_sift_up compare q idx =
     (if idx \<noteq> 0 then
        do {
          let parent = PARENT idx;
          x \<leftarrow> arr_get (sl_list (fst q)) idx;
          y \<leftarrow> arr_get (sl_list (fst q)) parent;
          (if compare x y < 0 then
             do {
               q' \<leftarrow> pq_swap q parent idx;
               pqueue_sift_up compare q' parent
             }
           else Some q)
        }
      else Some q)"
  by pat_completeness auto
termination
  by (relation "measure (\<lambda>(c, q, idx). idx)") (auto simp: PARENT_def)

definition smartlist_pqueue_add ::
  "'a pq \<Rightarrow> ('a option \<Rightarrow> 'a option \<Rightarrow> int) \<Rightarrow> 'a option \<Rightarrow> 'a pq option" where
  "smartlist_pqueue_add q compare item =
     (case q of (sl, f) \<Rightarrow>
        do {
          sl \<leftarrow> smartlist_add sl item;
          q \<leftarrow> UPDATE_IDX (sl, f) (num_used sl - 1);
          pqueue_sift_up compare q (num_used sl - 1)
        })"

text \<open>The last assignment of \<open>smartlist_pqueue_pop\<close> runs on both branches.\<close>

definition smartlist_pqueue_pop ::
  "'a pq \<Rightarrow> ('a option \<Rightarrow> 'a option \<Rightarrow> int) \<Rightarrow> ('a option \<times> 'a pq) option" where
  "smartlist_pqueue_pop q compare =
     (case q of (sl, f) \<Rightarrow>
        do {
          guard (num_used sl \<noteq> 0);
          top \<leftarrow> arr_get (sl_list sl) 0;
          guard (top \<noteq> None);
          let f = f(top := -1);
          let n = num_used sl - 1;
          (sl, f) \<leftarrow>
            (if n \<noteq> 0 then
               do {
                 lst \<leftarrow> arr_get (sl_list sl) n;
                 l \<leftarrow> arr_set (sl_list sl) 0 lst;
                 l \<leftarrow> arr_set l n None;
                 q \<leftarrow> UPDATE_IDX (sl\<lparr>sl_list := l, num_used := n\<rparr>, f) 0;
                 smartlist_heapify compare q 0
               }
             else Some (sl\<lparr>num_used := n\<rparr>, f));
          l \<leftarrow> arr_set (sl_list sl) (num_used sl) None;
          Some (top, (sl\<lparr>sl_list := l\<rparr>, f))
        })"

definition smartlist_pqueue_remove ::
  "'a pq \<Rightarrow> ('a option \<Rightarrow> 'a option \<Rightarrow> int) \<Rightarrow> 'a option \<Rightarrow> 'a pq option" where
  "smartlist_pqueue_remove q compare item =
     (case q of (sl, f) \<Rightarrow>
        do {
          guard (item \<noteq> None);
          let idx = f item;
          guard (0 \<le> idx);
          x \<leftarrow> arr_get (sl_list sl) (nat idx);
          guard (x = item);
          let n = num_used sl - 1;
          let f = f(item := -1);
          (if nat idx = n then
             do {
               l \<leftarrow> arr_set (sl_list sl) n None;
               Some (sl\<lparr>sl_list := l, num_used := n\<rparr>, f)
             }
           else
             do {
               lst \<leftarrow> arr_get (sl_list sl) n;
               l \<leftarrow> arr_set (sl_list sl) (nat idx) lst;
               l \<leftarrow> arr_set l n None;
               q \<leftarrow> UPDATE_IDX (sl\<lparr>sl_list := l, num_used := n\<rparr>, f) (nat idx);
               smartlist_heapify compare q (nat idx)
             })
        })"

text \<open>\<open>smartlist_pqueue_assert_ok\<close>, from the last index down; \<open>i\<close> is one more than the index.\<close>

fun pqueue_assert_loop :: "('a option \<Rightarrow> 'a option \<Rightarrow> int) \<Rightarrow> 'a pq \<Rightarrow> nat \<Rightarrow> unit option" where
  "pqueue_assert_loop compare q 0 = Some ()"
| "pqueue_assert_loop compare q (Suc i) =
     do {
       x \<leftarrow> arr_get (sl_list (fst q)) i;
       (if 0 < i then
          do {
            p \<leftarrow> arr_get (sl_list (fst q)) (PARENT i);
            guard (compare p x \<le> 0)
          }
        else Some ());
       guard (x \<noteq> None);
       guard (snd q x = int i);
       pqueue_assert_loop compare q i
     }"

definition smartlist_pqueue_assert_ok ::
  "'a pq \<Rightarrow> ('a option \<Rightarrow> 'a option \<Rightarrow> int) \<Rightarrow> unit option" where
  "smartlist_pqueue_assert_ok q compare = pqueue_assert_loop compare q (num_used (fst q))"

declare smartlist_heapify.simps [simp del]
declare pqueue_sift_up.simps [simp del]

subsection \<open>Heaps as lists\<close>

text \<open>
  \<open>pq_data q xs\<close>: the smartlist of \<open>q\<close> holds the items \<open>xs\<close>, none of them null, and each item
  stores its own position. \<open>is_heap\<close> is the heap order. \<open>heap_down\<close> and \<open>heap_up\<close> are the heap
  order with the one exception that sifting down from \<open>k\<close> or up from \<open>k\<close> repairs.
\<close>

definition pq_data :: "'a pq \<Rightarrow> 'a option list \<Rightarrow> bool" where
  "pq_data q xs \<longleftrightarrow>
     sl_rel (fst q) xs \<and> None \<notin> set xs \<and> (\<forall>i < length xs. snd q (xs ! i) = int i)"

definition is_heap :: "('a \<Rightarrow> 'a \<Rightarrow> int) \<Rightarrow> 'a list \<Rightarrow> bool" where
  "is_heap cmp xs \<longleftrightarrow> (\<forall>i < length xs. 0 < i \<longrightarrow> cmp (xs ! PARENT i) (xs ! i) \<le> 0)"

definition pq_rel :: "('a option \<Rightarrow> 'a option \<Rightarrow> int) \<Rightarrow> 'a pq \<Rightarrow> 'a option list \<Rightarrow> bool" where
  "pq_rel cmp q xs \<longleftrightarrow> pq_data q xs \<and> is_heap cmp xs"

definition pq_frame :: "'a pq \<Rightarrow> 'a pq \<Rightarrow> 'a option set \<Rightarrow> bool" where
  "pq_frame q q' S \<longleftrightarrow> (\<forall>p. p \<notin> S \<longrightarrow> snd q' p = snd q p)"

definition grand_ok :: "('a \<Rightarrow> 'a \<Rightarrow> int) \<Rightarrow> 'a list \<Rightarrow> nat \<Rightarrow> bool" where
  "grand_ok cmp xs k \<longleftrightarrow>
     (\<forall>i < length xs. 0 < i \<longrightarrow> PARENT i = k \<longrightarrow> 0 < k \<longrightarrow> cmp (xs ! PARENT k) (xs ! i) \<le> 0)"

definition heap_down :: "('a \<Rightarrow> 'a \<Rightarrow> int) \<Rightarrow> 'a list \<Rightarrow> nat \<Rightarrow> bool" where
  "heap_down cmp xs k \<longleftrightarrow>
     (\<forall>i < length xs. 0 < i \<longrightarrow> PARENT i \<noteq> k \<longrightarrow> cmp (xs ! PARENT i) (xs ! i) \<le> 0) \<and> grand_ok cmp xs k"

definition heap_up :: "('a \<Rightarrow> 'a \<Rightarrow> int) \<Rightarrow> 'a list \<Rightarrow> nat \<Rightarrow> bool" where
  "heap_up cmp xs k \<longleftrightarrow>
     (\<forall>i < length xs. 0 < i \<longrightarrow> i \<noteq> k \<longrightarrow> cmp (xs ! PARENT i) (xs ! i) \<le> 0) \<and> grand_ok cmp xs k"

definition list_swap :: "'a list \<Rightarrow> nat \<Rightarrow> nat \<Rightarrow> 'a list" where
  "list_swap xs i j = xs[i := xs ! j, j := xs ! i]"

lemma PARENT_less: "0 < i \<Longrightarrow> PARENT i < i"
  by (auto simp: PARENT_def)

lemma PARENT_children: "0 < i \<Longrightarrow> PARENT i = k \<longleftrightarrow> i = LEFT_CHILD k \<or> i = LEFT_CHILD k + 1"
  by (auto simp: PARENT_def LEFT_CHILD_def)

lemma length_list_swap [simp]: "length (list_swap xs i j) = length xs"
  by (simp add: list_swap_def)

lemma nth_list_swap:
  "i < length xs \<Longrightarrow> j < length xs \<Longrightarrow> k < length xs \<Longrightarrow>
     list_swap xs i j ! k = (if k = i then xs ! j else if k = j then xs ! i else xs ! k)"
  by (auto simp: list_swap_def nth_list_update)

lemma mset_list_swap [simp]:
  "i < length xs \<Longrightarrow> j < length xs \<Longrightarrow> mset (list_swap xs i j) = mset xs"
  by (simp add: list_swap_def mset_swap)

lemma set_list_swap [simp]:
  "i < length xs \<Longrightarrow> j < length xs \<Longrightarrow> set (list_swap xs i j) = set xs"
  by (metis mset_eq_setD mset_list_swap)

lemma pq_data_distinct:
  assumes "pq_data q xs"
  shows "distinct xs"
  unfolding distinct_conv_nth
proof (intro allI impI)
  fix i j
  assume "i < length xs" "j < length xs" "i \<noteq> j"
  moreover with assms have "snd q (xs ! i) = int i" "snd q (xs ! j) = int j"
    by (auto simp: pq_data_def)
  ultimately show "xs ! i \<noteq> xs ! j" by auto
qed

lemma heap_down_step:
  assumes "heap_down cmp xs k" "0 < b" "PARENT b = k" "b < length xs"
    and best: "\<And>i. i < length xs \<Longrightarrow> 0 < i \<Longrightarrow> PARENT i = k \<Longrightarrow> cmp (xs ! b) (xs ! i) \<le> 0"
    and le: "cmp (xs ! b) (xs ! k) \<le> 0"
  shows "heap_down cmp (list_swap xs k b) b"
proof -
  from assms PARENT_less [of b] have k: "k < b" "k < length xs" by auto
  have nth: "list_swap xs k b ! i = (if i = k then xs ! b else if i = b then xs ! k else xs ! i)"
    if "i < length xs" for i
    using that assms(4) k by (simp add: nth_list_swap)
  show ?thesis
    unfolding heap_down_def grand_ok_def length_list_swap
  proof (intro conjI allI impI)
    fix i
    assume i: "i < length xs" "0 < i" "PARENT i \<noteq> b"
    with PARENT_less [of i] have p: "PARENT i < length xs" "PARENT i \<noteq> i" by auto
    show "cmp (list_swap xs k b ! PARENT i) (list_swap xs k b ! i) \<le> 0"
      unfolding nth [OF i(1)] nth [OF p(1)]
      using assms(1,3,4) i p k best [of i] le by (auto simp: heap_down_def grand_ok_def)
  next
    fix i
    assume i: "i < length xs" "0 < i" "PARENT i = b" "0 < b"
    with PARENT_less [of i] k have "i \<noteq> b" "i \<noteq> k" by auto
    moreover from i k assms(1) have "cmp (xs ! PARENT i) (xs ! i) \<le> 0"
      by (auto simp: heap_down_def)
    ultimately show "cmp (list_swap xs k b ! PARENT b) (list_swap xs k b ! i) \<le> 0"
      using nth [OF i(1)] nth [OF k(2)] i assms(3) by auto
  qed
qed

lemma heap_down_done:
  "heap_down cmp xs k \<Longrightarrow>
     (\<And>i. i < length xs \<Longrightarrow> 0 < i \<Longrightarrow> PARENT i = k \<Longrightarrow> cmp (xs ! k) (xs ! i) \<le> 0) \<Longrightarrow> is_heap cmp xs"
  by (auto simp: heap_down_def is_heap_def)

lemma heap_up_done:
  "heap_up cmp xs k \<Longrightarrow> (0 < k \<Longrightarrow> cmp (xs ! PARENT k) (xs ! k) \<le> 0) \<Longrightarrow> is_heap cmp xs"
  by (auto simp: heap_up_def is_heap_def)

text \<open>The two sifting loops need a comparison that is an order on the items of the heap.\<close>

locale heap_order = cmp_order cmp A
  for cmp :: "'a option \<Rightarrow> 'a option \<Rightarrow> int" and A +
  assumes not_null: "None \<notin> A"
begin

lemma heap_up_step:
  assumes "heap_up cmp xs k" "0 < k" "k < length xs" "set xs \<subseteq> A"
    and less: "cmp (xs ! k) (xs ! PARENT k) < 0"
  shows "heap_up cmp (list_swap xs (PARENT k) k) (PARENT k)"
proof -
  from assms PARENT_less [of k] have p: "PARENT k < k" "PARENT k < length xs" by auto
  have in_A: "xs ! i \<in> A" if "i < length xs" for i
    using that assms(4) by auto
  have nth: "list_swap xs (PARENT k) k ! i =
      (if i = PARENT k then xs ! k else if i = k then xs ! PARENT k else xs ! i)"
    if "i < length xs" for i
    using that assms(3) p by (simp add: nth_list_swap)
  have sib: "cmp (xs ! k) (xs ! i) \<le> 0" if "i < length xs" "0 < i" "i \<noteq> k" "PARENT i = PARENT k" for i
    using that assms p in_A cmp_less_le_trans [of "xs ! k" "xs ! PARENT k" "xs ! i"]
    by (force simp: heap_up_def)
  have up: "cmp (xs ! PARENT (PARENT k)) (xs ! PARENT k) \<le> 0" if "0 < PARENT k"
    using that assms p by (auto simp: heap_up_def)
  show ?thesis
    unfolding heap_up_def grand_ok_def length_list_swap
  proof (intro conjI allI impI)
    fix i
    assume i: "i < length xs" "0 < i" "i \<noteq> PARENT k"
    with PARENT_less [of i] have pi: "PARENT i < length xs" "PARENT i \<noteq> i" by auto
    show "cmp (list_swap xs (PARENT k) k ! PARENT i) (list_swap xs (PARENT k) k ! i) \<le> 0"
      unfolding nth [OF i(1)] nth [OF pi(1)]
      using assms(1,2) i pi less sib [of i] by (auto simp: heap_up_def grand_ok_def)
  next
    fix i
    assume i: "i < length xs" "0 < i" "PARENT i = PARENT k" "0 < PARENT k"
    from PARENT_less [OF i(4)] p have pp: "PARENT (PARENT k) < PARENT k" "PARENT (PARENT k) < length xs" by auto
    from PARENT_less [OF i(2)] i(3) have ne: "i \<noteq> PARENT k" by auto
    have "cmp (xs ! PARENT (PARENT k)) (xs ! i) \<le> 0" if "i \<noteq> k"
      using cmp_trans [OF in_A [OF pp(2)] in_A [OF p(2)] in_A [OF i(1)] up [OF i(4)]] i that assms(1)
      by (auto simp: heap_up_def)
    then show "cmp (list_swap xs (PARENT k) k ! PARENT (PARENT k)) (list_swap xs (PARENT k) k ! i) \<le> 0"
      unfolding nth [OF i(1)] nth [OF pp(2)] using ne pp p up [OF i(4)] by auto
  qed
qed

end

subsection \<open>The operations on the smartlist\<close>

lemma sl_rel_list_swap:
  "sl_rel sl xs \<Longrightarrow> i < length xs \<Longrightarrow> j < length xs \<Longrightarrow>
     sl_rel (sl\<lparr>sl_list := (sl_list sl)[i := xs ! j, j := xs ! i]\<rparr>) (list_swap xs i j)"
  by (auto simp: sl_rel_def list_swap_def mk_sl_def list_update_append)

lemma UPDATE_IDX_data [sl_simps]:
  "sl_rel sl xs \<Longrightarrow> i < length xs \<Longrightarrow> None \<notin> set xs \<Longrightarrow> UPDATE_IDX (sl, f) i = Some (sl, f(xs ! i := int i))"
  by (auto simp: UPDATE_IDX_def sl_rel_get in_set_conv_nth)

lemma pq_swap_data:
  assumes "pq_data q xs" "i < length xs" "j < length xs" "i \<noteq> j"
  shows "\<exists>q'. pq_swap q i j = Some q' \<and> pq_data q' (list_swap xs i j) \<and> pq_frame q q' (set xs)"
proof -
  obtain sl f where q: "q = (sl, f)" by force
  define sl' where "sl' = sl\<lparr>sl_list := (sl_list sl)[i := xs ! j, j := xs ! i]\<rparr>"
  define f' where "f' = (f(xs ! j := int i))(xs ! i := int j)"
  from assms q have rel: "sl_rel sl xs" "None \<notin> set xs" by (auto simp: pq_data_def)
  then have rel': "sl_rel sl' (list_swap xs i j)"
    using assms by (simp add: sl'_def sl_rel_list_swap)
  from rel assms have len: "i < length (sl_list sl)" "j < length (sl_list sl)"
    by (auto elim!: sl_relE)
  have nth: "list_swap xs i j ! i = xs ! j" "list_swap xs i j ! j = xs ! i"
    using assms by (simp_all add: nth_list_swap)
  have "pq_swap q i j = Some (sl', f')"
    using assms(2-4) rel len nth rel' UPDATE_IDX_data [OF rel', of i] UPDATE_IDX_data [OF rel', of j]
    by (simp add: pq_swap_def q sl_rel_get arr_set_in sl'_def f'_def)
  moreover have "f' (list_swap xs i j ! k) = int k" if "k < length xs" for k
    using that assms q pq_data_distinct [OF assms(1)]
    by (auto simp: f'_def nth_list_swap pq_data_def nth_eq_iff_index_eq)
  moreover have "pq_frame q (sl', f') (set xs)"
    using assms by (auto simp: pq_frame_def q f'_def)
  ultimately show ?thesis
    using rel' rel assms by (auto simp: pq_data_def)
qed

lemma pq_frame_refl [simp]: "pq_frame q q S"
  by (simp add: pq_frame_def)

lemma pq_frame_trans: "pq_frame q q' S \<Longrightarrow> pq_frame q' q'' S \<Longrightarrow> pq_frame q q'' S"
  by (simp add: pq_frame_def)

lemma no_children:
  "length xs \<le> MAX_CAPACITY \<Longrightarrow> \<not> IDX_MAY_HAVE_CHILDREN k \<Longrightarrow> length xs \<le> LEFT_CHILD k"
  by (simp add: IDX_MAY_HAVE_CHILDREN_def MAX_PARENT_IDX_def LEFT_CHILD_def MAX_CAPACITY_def)

context heap_order
begin

lemma heapify_best_rel:
  assumes "sl_rel sl xs" "LEFT_CHILD k < length xs" "set xs \<subseteq> A"
  obtains (stop) "heapify_best cmp sl k = Some k"
      "\<And>i. i < length xs \<Longrightarrow> 0 < i \<Longrightarrow> PARENT i = k \<Longrightarrow> cmp (xs ! k) (xs ! i) \<le> 0"
  | (go) b where "heapify_best cmp sl k = Some b" "0 < b" "PARENT b = k" "b < length xs" "b \<noteq> k"
      "\<And>i. i < length xs \<Longrightarrow> 0 < i \<Longrightarrow> PARENT i = k \<Longrightarrow> cmp (xs ! b) (xs ! i) \<le> 0"
      "cmp (xs ! b) (xs ! k) \<le> 0"
proof -
  define l where "l = LEFT_CHILD k"
  define b where "b = (if cmp (xs ! k) (xs ! l) < 0 then k else l)"
  define b' where "b' = (if l + 1 < length xs \<and> cmp (xs ! (l + 1)) (xs ! b) < 0 then l + 1 else b)"
  have k: "k < l" "l < length xs" "k < length xs" "b < length xs" "0 < l"
    using assms by (auto simp: l_def LEFT_CHILD_def b_def)
  have in_A: "xs ! i \<in> A" if "i < length xs" for i
    using that assms(3) by auto
  have eq: "heapify_best cmp sl k = Some b'"
    using assms k by (auto simp: heapify_best_def Let_def sl_rel_get sl_rel_num_used b_def b'_def simp flip: l_def)
  have lt: "cmp (xs ! b) (xs ! k) \<le> 0" "cmp (xs ! b) (xs ! l) \<le> 0"
    using k in_A [OF k(3)] in_A [OF k(2)] cmp_flip [of "xs ! k" "xs ! l"] by (auto simp: b_def)
  have b': "b' < length xs" "cmp (xs ! b') (xs ! b) \<le> 0"
    using k in_A [OF k(4)] by (auto simp: b'_def)
  have le: "cmp (xs ! b') (xs ! k) \<le> 0" "cmp (xs ! b') (xs ! l) \<le> 0"
    using cmp_trans [OF in_A in_A in_A, of b' b] b' lt k by blast+
  have "cmp (xs ! b') (xs ! (l + 1)) \<le> 0" if "l + 1 < length xs"
    using that k in_A cmp_flip [of "xs ! (l + 1)" "xs ! b"] by (auto simp: b'_def)
  then have min: "cmp (xs ! b') (xs ! i) \<le> 0" if "i < length xs" "0 < i" "PARENT i = k" for i
    using that le by (auto simp: PARENT_children l_def)
  show thesis
  proof (cases "b' = k")
    case True
    with eq min show thesis by (auto intro: stop)
  next
    case False
    then have "b' = l \<or> b' = l + 1" by (auto simp: b'_def b_def split: if_splits)
    then have "0 < b'" "PARENT b' = k" by (auto simp: PARENT_def l_def LEFT_CHILD_def)
    then show thesis by (rule go [OF eq _ _ b'(1) False min le(1)])
  qed
qed

lemma smartlist_heapify_rel:
  assumes "pq_data q xs" "set xs \<subseteq> A" "heap_down cmp xs k"
  shows "\<exists>q' ys. smartlist_heapify cmp q k = Some q' \<and> pq_rel cmp q' ys \<and> mset ys = mset xs \<and>
           pq_frame q q' (set xs)"
  using assms
proof (induction "length xs - k" arbitrary: q xs k rule: less_induct)
  case less
  from less.prems have rel: "sl_rel (fst q) xs" by (simp add: pq_data_def)
  note len = sl_rel_length [OF rel] and n = sl_rel_num_used [OF rel]
  show ?case
  proof (cases "length xs \<le> LEFT_CHILD k")
    case True
    then have "is_heap cmp xs"
      by (intro heap_down_done [OF less.prems(3)]) (auto simp: PARENT_children)
    with True less.prems(1) n show ?thesis
      by (intro exI [of _ q] exI [of _ xs]) (simp add: smartlist_heapify.simps [of cmp q] pq_rel_def)
  next
    case False
    with no_children [OF len] have ch: "IDX_MAY_HAVE_CHILDREN k" "LEFT_CHILD k < length xs" by auto
    from rel ch(2) less.prems(2) show ?thesis
    proof (cases rule: heapify_best_rel)
      case stop
      with ch n less.prems heap_down_done [OF less.prems(3)] show ?thesis
        by (intro exI [of _ q] exI [of _ xs]) (simp add: smartlist_heapify.simps [of cmp q] pq_rel_def)
    next
      case (go b)
      then have kb: "k < b" using PARENT_less by blast
      with pq_swap_data [OF less.prems(1), of k b] go obtain q1 where q1:
        "pq_swap q k b = Some q1" "pq_data q1 (list_swap xs k b)" "pq_frame q q1 (set xs)"
        by auto
      from kb go(4) have sz: "k < length xs" "length (list_swap xs k b) - b < length xs - k" by auto
      have "heap_down cmp (list_swap xs k b) b"
        by (rule heap_down_step [OF less.prems(3) go(2,3,4,6,7)])
      with less.hyps [OF sz(2) q1(2)] sz(1) go(4) less.prems(2) obtain q' ys where
        "smartlist_heapify cmp q1 b = Some q'" "pq_rel cmp q' ys" "mset ys = mset xs" "pq_frame q1 q' (set xs)"
        by auto
      with q1 go ch n show ?thesis
        by (auto simp: smartlist_heapify.simps [of cmp q] intro: pq_frame_trans)
    qed
  qed
qed

lemma pqueue_sift_up_rel:
  assumes "pq_data q xs" "set xs \<subseteq> A" "heap_up cmp xs k" "k < length xs"
  shows "\<exists>q' ys. pqueue_sift_up cmp q k = Some q' \<and> pq_rel cmp q' ys \<and> mset ys = mset xs \<and>
           pq_frame q q' (set xs)"
  using assms
proof (induction k arbitrary: q xs rule: less_induct)
  case (less k)
  from less.prems have rel: "sl_rel (fst q) xs" by (simp add: pq_data_def)
  show ?case
  proof (cases "0 < k \<and> cmp (xs ! k) (xs ! PARENT k) < 0")
    case True
    with PARENT_less [of k] less.prems(4) have p: "PARENT k < k" "PARENT k < length xs" by auto
    with pq_swap_data [OF less.prems(1), of "PARENT k" k] less.prems(4) obtain q1 where q1:
      "pq_swap q (PARENT k) k = Some q1" "pq_data q1 (list_swap xs (PARENT k) k)" "pq_frame q q1 (set xs)"
      by auto
    have "heap_up cmp (list_swap xs (PARENT k) k) (PARENT k)"
      using True less.prems by (intro heap_up_step) auto
    with less.IH [OF p(1) q1(2)] p less.prems obtain q' ys where
      "pqueue_sift_up cmp q1 (PARENT k) = Some q'" "pq_rel cmp q' ys" "mset ys = mset xs"
      "pq_frame q1 q' (set xs)"
      by auto
    with q1 True p less.prems rel show ?thesis
      by (auto simp: pqueue_sift_up.simps [of cmp q] sl_rel_get Let_def intro: pq_frame_trans)
  next
    case False
    have "cmp (xs ! PARENT k) (xs ! k) \<le> 0" if "0 < k"
      using that False less.prems PARENT_less [of k] cmp_flip [of "xs ! PARENT k" "xs ! k"]
      by (force simp: subset_iff)
    with less.prems(3) have "is_heap cmp xs" by (rule heap_up_done)
    moreover from False have "pqueue_sift_up cmp q k = Some q"
      using less.prems(4) rel PARENT_less [of k]
      by (auto simp: pqueue_sift_up.simps [of cmp q] sl_rel_get Let_def)
    ultimately show ?thesis
      using less.prems(1) by (intro exI [of _ q] exI [of _ xs]) (simp add: pq_rel_def)
  qed
qed

end

declare not_None_eq [iff del]

lemma pq_data_fill:
  assumes "pq_data (sl, f) (xs @ [l])" "k < length xs"
  shows "pq_data (sl\<lparr>sl_list := (sl_list sl)[k := l, length xs := None], num_used := length xs\<rparr>,
                  f(xs ! k := -1, l := int k)) (xs[k := l])"
    (is "pq_data (?sl, ?f) _")
proof -
  from assms pq_data_distinct [OF assms(1)] have d: "distinct xs" "l \<notin> set xs" by auto
  from assms have rel: "sl_rel sl (xs @ [l])" "None \<notin> set xs" "l \<noteq> None" by (auto simp: pq_data_def)
  from rel(1) obtain n where n: "sl = mk_sl (xs @ [l]) n" "length (xs @ [l]) + n \<le> MAX_CAPACITY"
    by (rule sl_relE)
  then have "?sl = mk_sl (xs[k := l]) (Suc n)"
    using assms(2) by (simp add: mk_sl_def list_update_append)
  with n have "sl_rel ?sl (xs[k := l])" by simp
  moreover have "None \<notin> set (xs[k := l])"
    using rel set_update_subset_insert [of xs k l] by auto
  moreover have "?f (xs[k := l] ! i) = int i" if "i < length xs" for i
  proof (cases "i = k")
    case False
    with that d assms(2) have "xs ! i \<noteq> xs ! k" "xs ! i \<noteq> l" by (auto simp: nth_eq_iff_index_eq)
    moreover from assms(1) that have "f (xs ! i) = int i"
      by (auto simp: pq_data_def nth_append dest: spec [of _ i])
    ultimately show ?thesis using False by simp
  qed (use assms(2) in simp)
  ultimately show ?thesis by (simp add: pq_data_def)
qed

lemma pq_data_drop_last:
  assumes "pq_data (sl, f) (xs @ [l])"
  shows "pq_data (sl\<lparr>sl_list := (sl_list sl)[length xs := None], num_used := length xs\<rparr>, f(l := -1)) xs"
proof -
  from assms pq_data_distinct [OF assms] have d: "l \<notin> set xs" by auto
  from assms have "sl_rel sl (xs @ [l])" by (simp add: pq_data_def)
  then obtain n where n: "sl = mk_sl (xs @ [l]) n" "length (xs @ [l]) + n \<le> MAX_CAPACITY"
    by (rule sl_relE)
  then have "sl\<lparr>sl_list := (sl_list sl)[length xs := None], num_used := length xs\<rparr> = mk_sl xs (Suc n)"
    by (simp add: mk_sl_def list_update_append)
  moreover have "(f(l := -1)) (xs ! i) = int i" if "i < length xs" for i
    using that assms d by (auto simp: pq_data_def nth_append dest: spec [of _ i])
  moreover from n have "sl_rel (mk_sl xs (Suc n)) xs" by simp
  ultimately show ?thesis using assms by (simp add: pq_data_def)
qed

lemma is_heap_append:
  assumes "is_heap cmp (xs @ ys)"
  shows "is_heap cmp xs"
  unfolding is_heap_def
proof (intro allI impI)
  fix i
  assume i: "i < length xs" "0 < i"
  with PARENT_less [of i] have "PARENT i < length xs" by simp
  with assms i show "cmp (xs ! PARENT i) (xs ! i) \<le> 0"
    by (auto simp: is_heap_def nth_append dest: spec [of _ i])
qed

lemma heap_up_append:
  assumes "is_heap cmp xs"
  shows "heap_up cmp (xs @ [x]) (length xs)"
  unfolding heap_up_def grand_ok_def
proof (intro conjI allI impI)
  fix i
  assume "i < length (xs @ [x])" "0 < i" "i \<noteq> length xs"
  then have i: "i < length xs" "0 < i" by auto
  with PARENT_less [of i] have "PARENT i < length xs" by simp
  with assms i show "cmp ((xs @ [x]) ! PARENT i) ((xs @ [x]) ! i) \<le> 0"
    by (simp add: is_heap_def nth_append)
next
  fix i
  assume "i < length (xs @ [x])" "0 < i" "PARENT i = length xs"
  with PARENT_less [of i] show "cmp ((xs @ [x]) ! PARENT (length xs)) ((xs @ [x]) ! i) \<le> 0" by simp
qed

lemma smartlist_heapify_length:
  "smartlist_heapify cmp q k = Some q' \<Longrightarrow> length (sl_list (fst q')) = length (sl_list (fst q))"
proof (induction cmp q k rule: smartlist_heapify.induct)
  case (1 compare q idx)
  have swap: "length (sl_list (fst q1)) = length (sl_list (fst q))" if "pq_swap q i j = Some q1" for q1 i j
    using that by (auto simp: pq_swap_def bind_eq_Some_conv arr_set_def split: if_splits prod.splits dest!: UPDATE_IDX_sl)
  from 1 show ?case
    by (auto simp: smartlist_heapify.simps [of compare q] bind_eq_Some_conv swap split: if_splits)
qed

context heap_order
begin

lemma is_heap_min: "is_heap cmp xs \<Longrightarrow> set xs \<subseteq> A \<Longrightarrow> i < length xs \<Longrightarrow> cmp (xs ! 0) (xs ! i) \<le> 0"
proof (induction i rule: less_induct)
  case (less i)
  have in_A: "xs ! j \<in> A" if "j < length xs" for j
    using that less.prems(2) by auto
  show ?case
  proof (cases "i = 0")
    case False
    then have p: "PARENT i < i" "cmp (xs ! PARENT i) (xs ! i) \<le> 0"
      using less.prems PARENT_less by (auto simp: is_heap_def)
    with less show ?thesis
      using cmp_trans [of "xs ! 0" "xs ! PARENT i" "xs ! i"] in_A [of 0] in_A [of i] in_A [of "PARENT i"]
      by (cases xs) auto
  qed (use in_A [OF less.prems(3)] in simp)
qed

lemma heap_down_update:
  assumes "is_heap cmp xs" "set xs \<subseteq> A" "k < length xs" "0 < k \<Longrightarrow> cmp (xs ! PARENT k) l \<le> 0"
  shows "heap_down cmp (xs[k := l]) k"
proof -
  have in_A: "xs ! j \<in> A" if "j < length xs" for j
    using that assms(2) by auto
  show ?thesis
    unfolding heap_down_def grand_ok_def length_list_update
  proof (intro conjI allI impI)
    fix i
    assume i: "i < length xs" "0 < i" "PARENT i = k" "0 < k"
    with PARENT_less [of i] PARENT_less [of k] assms(3)
    have ne: "i \<noteq> k" "PARENT k \<noteq> k" "PARENT k < length xs" by auto
    have "cmp (xs ! PARENT k) (xs ! k) \<le> 0" "cmp (xs ! k) (xs ! i) \<le> 0"
      using assms(1,3) i by (auto simp: is_heap_def)
    with cmp_trans [OF in_A [OF ne(3)] in_A [OF assms(3)] in_A [OF i(1)]] ne
    show "cmp (xs[k := l] ! PARENT k) (xs[k := l] ! i) \<le> 0" by simp
  next
    fix i
    assume "i < length xs" "0 < i" "PARENT i \<noteq> k"
    with assms PARENT_less [of i] show "cmp (xs[k := l] ! PARENT i) (xs[k := l] ! i) \<le> 0"
      by (auto simp: is_heap_def nth_list_update)
  qed
qed

lemma smartlist_pqueue_add_rel:
  assumes "pq_rel cmp q xs" "set xs \<subseteq> A" "x \<in> A" "x \<notin> set xs" "length xs < MAX_CAPACITY"
  shows "\<exists>q' ys. smartlist_pqueue_add q cmp x = Some q' \<and> pq_rel cmp q' ys \<and>
           mset ys = add_mset x (mset xs) \<and> pq_frame q q' (insert x (set xs))"
proof -
  obtain sl f where q: "q = (sl, f)" by force
  from assms have rel: "sl_rel sl xs" "None \<notin> set xs" "is_heap cmp xs" "x \<noteq> None"
    using not_null by (auto simp: pq_rel_def pq_data_def q)
  with smartlist_add_rel [OF rel(1) assms(5)] obtain sl' where sl':
    "smartlist_add sl x = Some sl'" "sl_rel sl' (xs @ [x])" by blast
  define q1 where "q1 = (sl', f(x := int (length xs)))"
  have up: "UPDATE_IDX (sl', f) (length xs) = Some q1"
    using UPDATE_IDX_data [OF sl'(2), of "length xs" f] rel by (simp add: q1_def)
  have data: "pq_data q1 (xs @ [x])"
    using assms rel sl' by (auto simp: pq_data_def pq_rel_def q1_def q nth_append)
  have heap: "heap_up cmp (xs @ [x]) (length xs)" by (rule heap_up_append [OF rel(3)])
  from assms(2,3) pqueue_sift_up_rel [OF data _ heap] obtain q' ys where
    "pqueue_sift_up cmp q1 (length xs) = Some q'" "pq_rel cmp q' ys" "mset ys = add_mset x (mset xs)"
    "pq_frame q1 q' (insert x (set xs))"
    by auto
  with sl' up sl_rel_num_used [OF sl'(2)] show ?thesis
    by (auto simp: smartlist_pqueue_add_def q q1_def pq_frame_def)
qed

text \<open>
  Refilling the hole at \<open>k\<close> with the last item. Sifting down is enough when the last item is not
  smaller than the parent of the hole, in particular at the root.
\<close>

lemma heapify_fill:
  assumes "pq_rel cmp (sl, f) (xs @ [l])" "set (xs @ [l]) \<subseteq> A" "k < length xs"
    and parent: "0 < k \<Longrightarrow> cmp (xs ! PARENT k) l \<le> 0"
  defines "sl' \<equiv> sl\<lparr>sl_list := (sl_list sl)[k := l, length xs := None], num_used := length xs\<rparr>"
  shows "\<exists>q' ys. do { q \<leftarrow> UPDATE_IDX (sl', f(xs ! k := -1)) k; smartlist_heapify cmp q k } = Some q' \<and>
           pq_rel cmp q' ys \<and> add_mset (xs ! k) (mset ys) = mset (xs @ [l]) \<and> snd q' (xs ! k) = -1 \<and>
           pq_frame (sl, f) q' (set (xs @ [l]))"
proof -
  define q where "q = (sl', f(xs ! k := -1, l := int k))"
  from assms(1) have data: "pq_data (sl, f) (xs @ [l])" "is_heap cmp xs"
    by (auto simp: pq_rel_def intro: is_heap_append)
  then have qd: "pq_data q (xs[k := l])"
    using assms(3) by (simp add: q_def sl'_def pq_data_fill)
  then have upd: "UPDATE_IDX (sl', f(xs ! k := -1)) k = Some q"
    using UPDATE_IDX_data [of sl' "xs[k := l]" k "f(xs ! k := -1)"] assms(3)
    by (simp add: pq_data_def q_def)
  have hole: "heap_down cmp (xs[k := l]) k"
    using data(2) assms by (intro heap_down_update) auto
  have sub: "set (xs[k := l]) \<subseteq> insert l (set xs)" by (rule set_update_subset_insert)
  with assms(2) have "set (xs[k := l]) \<subseteq> A" by auto
  with smartlist_heapify_rel [OF qd _ hole] obtain q' ys where q': "smartlist_heapify cmp q k = Some q'"
    "pq_rel cmp q' ys" "mset ys = mset (xs[k := l])" "pq_frame q q' (set (xs[k := l]))"
    by blast
  from pq_data_distinct [OF data(1)] assms(3)
  have k: "xs ! k \<notin> set (xs[k := l])" "xs ! k \<noteq> l"
    by (auto simp: in_set_conv_nth nth_list_update nth_eq_iff_index_eq split: if_splits)
  have "pq_frame (sl, f) q (set (xs @ [l]))"
    using assms(3) by (auto simp: pq_frame_def q_def)
  moreover have "pq_frame q q' (set (xs @ [l]))"
    using q'(4) sub by (auto simp: pq_frame_def)
  ultimately have "pq_frame (sl, f) q' (set (xs @ [l]))" by (rule pq_frame_trans)
  moreover have "snd q' (xs ! k) = -1"
    using q'(4) k by (simp add: pq_frame_def q_def)
  moreover have "add_mset (xs ! k) (mset ys) = mset (xs @ [l])"
    using q'(3) assms(3) by (simp add: mset_update insert_DiffM)
  ultimately show ?thesis
    using upd q'(1,2) by (intro exI [of _ q'] exI [of _ ys]) simp
qed

lemma smartlist_pqueue_pop_rel:
  assumes "pq_rel cmp q xs" "set xs \<subseteq> A" "xs \<noteq> []"
  shows "\<exists>q' ys. smartlist_pqueue_pop q cmp = Some (xs ! 0, q') \<and> pq_rel cmp q' ys \<and>
           mset xs = add_mset (xs ! 0) (mset ys) \<and> snd q' (xs ! 0) = -1 \<and> pq_frame q q' (set xs)"
proof -
  obtain sl f where q: "q = (sl, f)" by force
  from assms(3) obtain ys l where xs: "xs = ys @ [l]" by (metis rev_exhaust)
  from assms have rel: "sl_rel sl xs" "xs ! 0 \<noteq> None" "None \<notin> set xs"
    by (auto simp: pq_rel_def pq_data_def q in_set_conv_nth)
  note sl = sl_rel_num_used [OF rel(1)] sl_rel_get [OF rel(1)]
  have len: "length ys < length (sl_list sl)" using rel(1) xs by (auto elim!: sl_relE)
  show ?thesis
  proof (cases "ys = []")
    case True
    have "smartlist_pqueue_pop q cmp =
        Some (l, (sl\<lparr>sl_list := (sl_list sl)[length ys := None], num_used := length ys\<rparr>, f(l := -1)))"
      using rel(2) sl len xs True by (simp add: smartlist_pqueue_pop_def q arr_set_in)
    moreover have "pq_data (sl\<lparr>sl_list := (sl_list sl)[length ys := None], num_used := length ys\<rparr>, f(l := -1)) ys"
      using assms(1) by (intro pq_data_drop_last) (simp add: pq_rel_def q xs)
    ultimately show ?thesis
      using True by (auto simp: xs pq_rel_def is_heap_def pq_frame_def q)
  next
    case False
    then have pos: "0 < length ys" "ys ! 0 = xs ! 0" by (simp_all add: xs nth_append)
    with assms heapify_fill [of sl f ys l 0] obtain q' zs where q':
      "do { q \<leftarrow> UPDATE_IDX (sl\<lparr>sl_list := (sl_list sl)[0 := l, length ys := None], num_used := length ys\<rparr>,
              f(xs ! 0 := -1)) 0; smartlist_heapify cmp q 0 } = Some q'"
      "pq_rel cmp q' zs" "add_mset (xs ! 0) (mset zs) = mset xs" "snd q' (xs ! 0) = -1"
      "pq_frame q q' (set xs)"
      by (auto simp: q xs)
    from q'(1) have cap: "length (sl_list (fst q')) = length (sl_list sl)"
      by (auto simp: bind_eq_Some_conv dest!: UPDATE_IDX_sl smartlist_heapify_length)
    from q'(2) obtain k where k: "fst q' = mk_sl zs k" by (auto simp: pq_rel_def pq_data_def elim: sl_relE)
    from q'(3) have "length xs = Suc (length zs)" by (metis size_add_mset size_mset)
    with len cap k xs obtain k' where k': "k = Suc k'" by (cases k) auto
    from k k' have clear: "arr_set (sl_list (fst q')) (num_used (fst q')) None = Some (sl_list (fst q'))"
      by (simp add: arr_set_in list_update_append)
    have n: "num_used sl = Suc (length ys)" "arr_get (sl_list sl) (length ys) = Some l"
      "arr_get (sl_list sl) 0 = Some (xs ! 0)" "0 < length (sl_list sl)"
      using sl len xs by (auto simp: nth_append)
    have "smartlist_pqueue_pop q cmp = Some (xs ! 0, (fst q')\<lparr>sl_list := sl_list (fst q')\<rparr>, snd q')"
      using q'(1) clear rel(2) n len False unfolding smartlist_pqueue_pop_def q
      by (auto simp: arr_set_in Let_def case_prod_beta bind_eq_Some_conv [of "UPDATE_IDX _ _"])
    then have "smartlist_pqueue_pop q cmp = Some (xs ! 0, q')" by simp
    with q' show ?thesis by auto
  qed
qed

lemma smartlist_pqueue_remove_rel:
  assumes "pq_rel cmp (sl, f) xs" "set xs \<subseteq> A" "k < length xs"
    and parent: "0 < k \<Longrightarrow> Suc k < length xs \<Longrightarrow> cmp (xs ! PARENT k) (last xs) \<le> 0"
  shows "\<exists>q' ys. smartlist_pqueue_remove (sl, f) cmp (xs ! k) = Some q' \<and> pq_rel cmp q' ys \<and>
           mset xs = add_mset (xs ! k) (mset ys) \<and> snd q' (xs ! k) = -1"
proof -
  from assms(3) obtain ys l where xs: "xs = ys @ [l]" by (metis rev_exhaust list.size(3) not_less_zero)
  from assms have rel: "sl_rel sl xs" "xs ! k \<noteq> None" "f (xs ! k) = int k"
    by (auto simp: pq_rel_def pq_data_def in_set_conv_nth)
  note sl = sl_rel_num_used [OF rel(1)] sl_rel_get [OF rel(1)]
  have len: "k < length (sl_list sl)" "length ys < length (sl_list sl)"
    using rel(1) assms(3) xs by (auto elim!: sl_relE)
  show ?thesis
  proof (cases "k = length ys")
    case True
    have "pq_data (sl\<lparr>sl_list := (sl_list sl)[length ys := None], num_used := length ys\<rparr>, f(l := -1)) ys"
      using assms(1) by (intro pq_data_drop_last) (simp add: pq_rel_def xs)
    moreover from assms(1) have "is_heap cmp ys" by (auto simp: pq_rel_def xs intro: is_heap_append)
    ultimately show ?thesis
      using True rel sl len assms(3) by (simp add: smartlist_pqueue_remove_def arr_set_in Let_def xs) (auto simp: pq_rel_def)
  next
    case False
    with assms(3) xs have k: "k < length ys" "ys ! k = xs ! k" by (auto simp: nth_append)
    moreover have "0 < k \<Longrightarrow> cmp (ys ! PARENT k) l \<le> 0"
      using parent PARENT_less [of k] k xs by (simp add: nth_append)
    ultimately show ?thesis
      using assms(1,2,3) heapify_fill [of sl f ys l k] rel sl len
      by (simp add: smartlist_pqueue_remove_def arr_set_in xs) metis
  qed
qed

text \<open>
  When the last item is smaller than the parent of the hole, it is smaller than all that is below the hole
  too; \<open>smartlist_heapify\<close> leaves it where it is, and the heap order is lost.
\<close>

lemma heapify_stays:
  assumes "pq_data q xs" "k < length xs"
    and "\<And>i. i < length xs \<Longrightarrow> 0 < i \<Longrightarrow> PARENT i = k \<Longrightarrow> cmp (xs ! k) (xs ! i) < 0" "set xs \<subseteq> A"
  shows "smartlist_heapify cmp q k = Some q"
proof -
  have sl: "sl_rel (fst q) xs" using assms(1) by (simp add: pq_data_def)
  have kids: "PARENT (LEFT_CHILD k) = k" "PARENT (LEFT_CHILD k + 1) = k" "0 < LEFT_CHILD k"
    by (simp_all add: PARENT_def LEFT_CHILD_def)
  have "heapify_best cmp (fst q) k = Some k" if "LEFT_CHILD k < length xs"
  proof -
    have l: "cmp (xs ! k) (xs ! LEFT_CHILD k) < 0" using assms(3) [OF that kids(3,1)] .
    have r: "\<not> cmp (xs ! (LEFT_CHILD k + 1)) (xs ! k) < 0" if "LEFT_CHILD k + 1 < length xs"
      using assms(3) [OF that _ kids(2)] cmp_flip(1) [of "xs ! (LEFT_CHILD k + 1)" "xs ! k"] assms(2,4) that
      by (auto dest: nth_mem)
    show ?thesis using that l r assms(2) sl by (auto simp: heapify_best_def Let_def sl_rel_get sl_rel_num_used)
  qed
  then show ?thesis using sl by (auto simp: smartlist_heapify.simps [of cmp q k] sl_rel_num_used)
qed

lemma heapify_fill_low:
  assumes "pq_rel cmp (sl, f) (xs @ [l])" "set (xs @ [l]) \<subseteq> A" "k < length xs" "0 < k" "0 < cmp (xs ! PARENT k) l"
  defines "sl' \<equiv> sl\<lparr>sl_list := (sl_list sl)[k := l, length xs := None], num_used := length xs\<rparr>"
  shows "\<exists>q'. do { q \<leftarrow> UPDATE_IDX (sl', f(xs ! k := -1)) k; smartlist_heapify cmp q k } = Some q' \<and>
    pq_data q' (xs[k := l]) \<and> \<not> is_heap cmp (xs[k := l]) \<and> snd q' (xs ! k) = -1"
proof -
  define q where "q = (sl', f(xs ! k := -1, l := int k))"
  have data: "pq_data (sl, f) (xs @ [l])" "is_heap cmp xs"
    using assms(1) by (auto simp: pq_rel_def intro: is_heap_append)
  then have qd: "pq_data q (xs[k := l])" using assms(3) by (simp add: q_def sl'_def pq_data_fill)
  then have upd: "UPDATE_IDX (sl', f(xs ! k := -1)) k = Some q"
    using UPDATE_IDX_data [of sl' "xs[k := l]" k "f(xs ! k := -1)"] assms(3) by (simp add: pq_data_def q_def)
  have in_A: "xs ! j \<in> A" if "j < length xs" for j using that assms(2) by auto
  have p: "PARENT k < k" "l \<in> A" using PARENT_less [OF assms(4)] assms(2) by auto
  have "cmp (xs[k := l] ! k) (xs[k := l] ! i) < 0" if "i < length (xs[k := l])" "0 < i" "PARENT i = k" for i
  proof -
    have i: "i < length xs" "i \<noteq> k" using that PARENT_less [of i] by auto
    have "cmp (xs ! PARENT k) (xs ! k) \<le> 0" "cmp (xs ! k) (xs ! i) \<le> 0"
      using data(2) that assms(3,4) by (auto simp: is_heap_def)
    then have "cmp (xs ! PARENT k) (xs ! i) \<le> 0"
      by (rule cmp_trans [rotated 3]) (use in_A i p assms(3) in auto)
    moreover have "cmp l (xs ! PARENT k) < 0" using cmp_flip(1) [of l "xs ! PARENT k"] assms(3,5) p in_A by simp
    ultimately have "cmp l (xs ! i) < 0" using cmp_less_le_trans [of l "xs ! PARENT k" "xs ! i"] p in_A i assms(3) by simp
    then show ?thesis using i assms(3) by simp
  qed
  moreover have "set (xs[k := l]) \<subseteq> A" using assms(2) set_update_subset_insert [of xs k l] by auto
  ultimately have "smartlist_heapify cmp q k = Some q" using heapify_stays [OF qd] assms(3) by simp
  moreover have "\<not> is_heap cmp (xs[k := l])" using assms(3-5) p by (auto simp: is_heap_def intro!: exI [of _ k])
  moreover have "xs ! k \<noteq> l"
    using pq_data_distinct [OF data(1)] assms(3) by (auto simp: in_set_conv_nth)
  ultimately show ?thesis using upd qd by (simp add: q_def)
qed

lemma smartlist_pqueue_remove_low:
  assumes "pq_rel cmp (sl, f) xs" "set xs \<subseteq> A" "0 < k" "Suc k < length xs" "0 < cmp (xs ! PARENT k) (last xs)"
  shows "\<exists>q' ys. smartlist_pqueue_remove (sl, f) cmp (xs ! k) = Some q' \<and> pq_data q' ys \<and> \<not> is_heap cmp ys \<and>
           mset xs = add_mset (xs ! k) (mset ys) \<and> snd q' (xs ! k) = -1"
proof -
  from assms(4) obtain ys l where xs: "xs = ys @ [l]" by (metis rev_exhaust list.size(3) not_less_zero)
  have k: "k < length ys" "ys ! k = xs ! k" using assms(4) xs by (auto simp: nth_append)
  have rel: "sl_rel sl xs" "xs ! k \<noteq> None" "f (xs ! k) = int k"
    using assms(1,4) by (auto simp: pq_rel_def pq_data_def in_set_conv_nth)
  note sl = sl_rel_num_used [OF rel(1)] sl_rel_get [OF rel(1)]
  have len: "k < length (sl_list sl)" "length ys < length (sl_list sl)"
    using rel(1) assms(4) xs by (auto elim!: sl_relE)
  have "0 < cmp (ys ! PARENT k) l" using assms(5) PARENT_less [OF assms(3)] k xs by (simp add: nth_append)
  then obtain q' where "do { q \<leftarrow> UPDATE_IDX (sl\<lparr>sl_list := (sl_list sl)[k := l, length ys := None], num_used := length ys\<rparr>,
        f(ys ! k := -1)) k; smartlist_heapify cmp q k } = Some q'"
    "pq_data q' (ys[k := l])" "\<not> is_heap cmp (ys[k := l])" "snd q' (ys ! k) = -1"
    using heapify_fill_low [of sl f ys l k] assms(1-3) k(1) xs by auto
  moreover have "mset xs = add_mset (ys ! k) (mset (ys[k := l]))" using k(1) by (simp add: xs mset_update)
  ultimately show ?thesis
    using rel sl len assms(3,4) k by (intro exI [of _ q'] exI [of _ "ys[k := l]"])
      (simp add: smartlist_pqueue_remove_def arr_set_in xs)
qed

end

interpretation string_heap: heap_order compare_string_ptrs "{x. x \<noteq> None}"
  by unfold_locales simp

subsection \<open>Properties\<close>

text \<open>A client that fills a queue item by item, and one that empties it.\<close>

fun pq_add_list :: "('a option \<Rightarrow> 'a option \<Rightarrow> int) \<Rightarrow> 'a pq \<Rightarrow> 'a option list \<Rightarrow> 'a pq option" where
  "pq_add_list cmp q [] = Some q"
| "pq_add_list cmp q (x # xs) = do { q \<leftarrow> smartlist_pqueue_add q cmp x; pq_add_list cmp q xs }"

fun pq_drain ::
  "('a option \<Rightarrow> 'a option \<Rightarrow> int) \<Rightarrow> nat \<Rightarrow> 'a pq \<Rightarrow> ('a option list \<times> 'a pq) option" where
  "pq_drain cmp 0 q = Some ([], q)"
| "pq_drain cmp (Suc n) q =
     do { (x, q) \<leftarrow> smartlist_pqueue_pop q cmp; (xs, q) \<leftarrow> pq_drain cmp n q; Some (x # xs, q) }"

context heap_order
begin

lemma pq_add_list_rel:
  assumes "pq_rel cmp q ys" "set (ys @ xs) \<subseteq> A" "distinct (ys @ xs)" "length (ys @ xs) \<le> MAX_CAPACITY"
  shows "\<exists>q' zs. pq_add_list cmp q xs = Some q' \<and> pq_rel cmp q' zs \<and> mset zs = mset (ys @ xs)"
  using assms
proof (induction xs arbitrary: q ys)
  case (Cons x xs)
  from Cons.prems smartlist_pqueue_add_rel [of q ys x] obtain q1 zs where q1:
    "smartlist_pqueue_add q cmp x = Some q1" "pq_rel cmp q1 zs" "mset zs = add_mset x (mset ys)"
    by auto
  from q1(3) have zs: "set zs = insert x (set ys)" "length zs = Suc (length ys)" "distinct zs"
    using Cons.prems(3) mset_eq_setD [of zs "x # ys"] mset_eq_length [of zs "x # ys"]
      mset_eq_imp_distinct_iff [of zs "x # ys"] by auto
  with Cons.IH [OF q1(2)] Cons.prems obtain q' ws where
    "pq_add_list cmp q1 xs = Some q'" "pq_rel cmp q' ws" "mset ws = mset (zs @ xs)" by auto
  with q1 show ?case by auto
qed auto

lemma pq_drain_rel:
  assumes "pq_rel cmp q xs" "set xs \<subseteq> A"
  shows "\<exists>ys q'. pq_drain cmp (length xs) q = Some (ys, q') \<and> mset ys = mset xs \<and>
           sorted_wrt (\<lambda>x y. cmp x y \<le> 0) ys \<and> pq_rel cmp q' [] \<and>
           (\<forall>x \<in> set xs. snd q' x = -1) \<and> pq_frame q q' (set xs)"
  using assms
proof (induction "length xs" arbitrary: q xs)
  case (Suc n)
  then have ne: "xs \<noteq> []" by auto
  from smartlist_pqueue_pop_rel [OF Suc.prems ne] obtain q1 ys where q1:
    "smartlist_pqueue_pop q cmp = Some (xs ! 0, q1)" "pq_rel cmp q1 ys"
    "mset xs = add_mset (xs ! 0) (mset ys)" "snd q1 (xs ! 0) = -1" "pq_frame q q1 (set xs)" by auto
  from q1(3) have ys: "length ys = n" "set xs = insert (xs ! 0) (set ys)"
    using Suc.hyps(2) mset_eq_setD [of xs "xs ! 0 # ys"] mset_eq_length [of xs "xs ! 0 # ys"] by auto
  from Suc.hyps(1) [of ys q1] ys q1(2) Suc.prems(2) obtain zs q' where q':
    "pq_drain cmp n q1 = Some (zs, q')" "mset zs = mset ys" "sorted_wrt (\<lambda>x y. cmp x y \<le> 0) zs"
    "pq_rel cmp q' []" "\<forall>x \<in> set ys. snd q' x = -1" "pq_frame q1 q' (set ys)"
    by auto
  have "distinct (xs ! 0 # ys)"
    using Suc.prems(1) mset_eq_imp_distinct_iff [of xs "xs ! 0 # ys"] q1(3)
    by (auto simp: pq_rel_def dest: pq_data_distinct)
  then have top: "snd q' (xs ! 0) = -1" using q'(6) q1(4) by (auto simp: pq_frame_def)
  have "cmp (xs ! 0) y \<le> 0" if "y \<in> set xs" for y
    using that is_heap_min [OF _ Suc.prems(2)] Suc.prems(1) by (auto simp: pq_rel_def in_set_conv_nth)
  moreover have "set zs = set ys" using q'(2) by (rule mset_eq_setD)
  ultimately have "sorted_wrt (\<lambda>x y. cmp x y \<le> 0) (xs ! 0 # zs)" using q'(3) ys(2) by auto
  moreover have "pq_frame q q' (set xs)" using q1(5) q'(6) ys(2) by (auto simp: pq_frame_def)
  moreover have "\<forall>x \<in> set xs. snd q' x = -1" using top q'(5) ys(2) by auto
  moreover have "pq_drain cmp (length xs) q = Some (xs ! 0 # zs, q')"
    using q1(1) q'(1) by (simp flip: Suc.hyps(2))
  ultimately show ?case using q' q1(3) by (intro exI [of _ "xs ! 0 # zs"] exI [of _ q']) simp
qed auto

end

lemma pqueue_assert_loop_iff:
  assumes "sl_rel (fst q) xs" "n \<le> length xs"
  shows "pqueue_assert_loop cmp q n = Some () \<longleftrightarrow>
           (\<forall>i < n. xs ! i \<noteq> None \<and> snd q (xs ! i) = int i \<and> (0 < i \<longrightarrow> cmp (xs ! PARENT i) (xs ! i) \<le> 0))"
  using assms(2)
proof (induction n)
  case (Suc n)
  moreover have "PARENT n < length xs" if "0 < n"
    using PARENT_less [OF that] Suc.prems by simp
  ultimately show ?case
    using assms(1) by (auto simp: sl_rel_get guard_def bind_eq_Some_conv less_Suc_eq)
qed auto

text \<open>
  \<open>smartlist_pqueue_assert_ok\<close> accepts exactly the states the heap invariant describes: it
  returns without an assertion failure if and only if every item is at most its children in the
  comparison order and every item stores its own index.
\<close>

theorem smartlist_pqueue_assert_ok_iff:
  assumes "sl_rel (fst q) xs"
  shows "smartlist_pqueue_assert_ok q cmp = Some () \<longleftrightarrow> pq_rel cmp q xs"
  using pqueue_assert_loop_iff [OF assms order_refl, of cmp] assms sl_rel_num_used [OF assms]
  by (auto simp: smartlist_pqueue_assert_ok_def pq_rel_def pq_data_def is_heap_def in_set_conv_nth)

theorem smartlist_pqueue_assert_ok_iff_witness:
  "sl_rel smartlist_new [] \<and>
   (smartlist_pqueue_assert_ok (smartlist_new, \<lambda>x. 0) compare_string_ptrs = Some () \<longleftrightarrow>
      pq_rel compare_string_ptrs (smartlist_new, \<lambda>x. 0) [])"
  using smartlist_pqueue_assert_ok_iff [of "(smartlist_new, \<lambda>x. 0)" "[]" compare_string_ptrs]
  by (simp add: smartlist_new_rel)

text \<open>
  C12: The heap sorts. Distinct non-null items, added one by one to an empty queue, are popped
  back in ascending order of the comparison, each exactly once; no assertion fails and no index
  is out of range; the queue ends empty, and every popped item's index field is \<open>-1\<close>.
\<close>

theorem smartlist_pqueue_sorts:
  assumes "heap_order cmp A" "set xs \<subseteq> A" "distinct xs" "length xs \<le> MAX_CAPACITY"
  shows "\<exists>q ys q'. pq_add_list cmp (smartlist_new, f) xs = Some q \<and>
           pq_drain cmp (length xs) q = Some (ys, q') \<and> mset ys = mset xs \<and>
           sorted_wrt (\<lambda>x y. cmp x y \<le> 0) ys \<and> pq_rel cmp q' [] \<and> (\<forall>x \<in> set xs. snd q' x = -1)"
proof -
  have "pq_rel cmp (smartlist_new, f) []"
    by (simp add: pq_rel_def pq_data_def is_heap_def smartlist_new_rel)
  from heap_order.pq_add_list_rel [OF assms(1) this, of xs] assms obtain q zs where q:
    "pq_add_list cmp (smartlist_new, f) xs = Some q" "pq_rel cmp q zs" "mset zs = mset xs" by auto
  moreover from q(3) have "set zs = set xs" "length zs = length xs"
    by (auto dest: mset_eq_setD mset_eq_length)
  ultimately show ?thesis
    using heap_order.pq_drain_rel [OF assms(1) q(2)] assms(2) by auto
qed

theorem smartlist_pqueue_sorts_witness:
  "heap_order compare_string_ptrs {x. x \<noteq> None} \<and>
   (\<exists>q ys q'. pq_add_list compare_string_ptrs (smartlist_new, \<lambda>x. 0) [Some ''b'', Some ''a''] = Some q \<and>
      pq_drain compare_string_ptrs 2 q = Some (ys, q') \<and> mset ys = mset [Some ''b'', Some ''a''])"
  using smartlist_pqueue_sorts [OF string_heap.heap_order_axioms, of "[Some ''b'', Some ''a'']" "\<lambda>x. 0"]
    string_heap.heap_order_axioms
  by (auto simp: MAX_CAPACITY_def numeral_2_eq_2)

text \<open>
  C33: Removing any item of a heap. \<open>smartlist_pqueue_remove\<close> of the item at position \<open>k\<close> returns, takes
  out that item only, sets its index field to \<open>-1\<close> and leaves every other item with its own position in its
  index field. The result is a heap, as \<open>smartlist_pqueue_assert_ok\<close> checks it, exactly when the item
  was the first or the last of the array, or the last item, which moves into the hole, is not smaller
  than the parent of the hole: the code only sifts down from there.
\<close>

theorem smartlist_pqueue_remove_correct:
  assumes "heap_order cmp A" "pq_rel cmp (sl, f) xs" "set xs \<subseteq> A" "k < length xs"
  shows "\<exists>q' ys. smartlist_pqueue_remove (sl, f) cmp (xs ! k) = Some q' \<and> pq_data q' ys \<and>
           mset xs = add_mset (xs ! k) (mset ys) \<and> snd q' (xs ! k) = -1 \<and>
           (smartlist_pqueue_assert_ok q' cmp = Some () \<longleftrightarrow>
              k = 0 \<or> Suc k = length xs \<or> cmp (xs ! PARENT k) (last xs) \<le> 0)"
proof -
  have ok: "smartlist_pqueue_assert_ok q' cmp = Some () \<longleftrightarrow> is_heap cmp ys" if "pq_data q' ys" for q' ys
    using that smartlist_pqueue_assert_ok_iff [of q' ys cmp] by (auto simp: pq_data_def pq_rel_def)
  show ?thesis
  proof (cases "k = 0 \<or> Suc k = length xs \<or> cmp (xs ! PARENT k) (last xs) \<le> 0")
    case True
    then show ?thesis
      using heap_order.smartlist_pqueue_remove_rel [OF assms] ok unfolding pq_rel_def by fastforce
  next
    case False
    then show ?thesis
      using heap_order.smartlist_pqueue_remove_low [OF assms(1-3), of k] assms(4) ok by fastforce
  qed
qed

definition str_idx :: "string option list \<Rightarrow> string option \<Rightarrow> int" where
  "str_idx xs x = (if x \<in> set xs then int (length (takeWhile (\<lambda>y. y \<noteq> x) xs)) else -1)"

text \<open>Removing \<open>b\<close> from \<open>a b c\<close> leaves a heap; removing \<open>l\<close> from \<open>a k b l m c d\<close> moves \<open>d\<close> below \<open>k\<close>.\<close>

lemma heap_of_seven:
  "let xs = [Some ''a'', Some ''k'', Some ''b'', Some ''l'', Some ''m'', Some ''c'', Some ''d'']
   in smartlist_pqueue_assert_ok (mk_sl xs 9, str_idx xs) compare_string_ptrs = Some ()"
  by code_simp

theorem smartlist_pqueue_remove_correct_witness:
  "(\<exists>q'. smartlist_pqueue_remove
        (mk_sl [Some ''a'', Some ''b'', Some ''c''] 13, str_idx [Some ''a'', Some ''b'', Some ''c''])
        compare_string_ptrs (Some ''b'') = Some q' \<and> smartlist_pqueue_assert_ok q' compare_string_ptrs = Some ())
   \<and> (let xs = [Some ''a'', Some ''k'', Some ''b'', Some ''l'', Some ''m'', Some ''c'', Some ''d'']
      in \<exists>q'. smartlist_pqueue_remove (mk_sl xs 9, str_idx xs) compare_string_ptrs (Some ''l'') = Some q'
           \<and> smartlist_pqueue_assert_ok q' compare_string_ptrs \<noteq> Some ())"
proof -
  let ?xs = "[Some ''a'', Some ''b'', Some ''c'']"
  let ?ys = "[Some ''a'', Some ''k'', Some ''b'', Some ''l'', Some ''m'', Some ''c'', Some ''d'']"
  have x: "pq_rel compare_string_ptrs (mk_sl ?xs 13, str_idx ?xs) ?xs"
    by (auto simp: pq_rel_def pq_data_def is_heap_def MAX_CAPACITY_def str_idx_def less_Suc_eq
        PARENT_def compare_string_ptrs_def numeral_3_eq_3)
  have y: "pq_rel compare_string_ptrs (mk_sl ?ys 9, str_idx ?ys) ?ys"
    using smartlist_pqueue_assert_ok_iff [of "(mk_sl ?ys 9, str_idx ?ys)" ?ys compare_string_ptrs]
      heap_of_seven [unfolded Let_def] by (simp add: MAX_CAPACITY_def)
  show ?thesis
    using smartlist_pqueue_remove_correct [OF string_heap.heap_order_axioms x, of 1]
      smartlist_pqueue_remove_correct [OF string_heap.heap_order_axioms y, of 3]
    by (auto simp: PARENT_def compare_string_ptrs_def Let_def)
qed

end
