(* ===== verification/Compat_Time.thy ===== *)
theory Compat_Time
  imports Prelude
begin

section \<open>Monotonic time, \<^verbatim>\<open>lib/time/compat_time.c\<close>\<close>

text \<open>
  The pure part of the clock module, for the \<open>clock_gettime\<close> backend that the Linux build of the
  program uses: arithmetic on \<open>timespec\<close> values and the conversion to 32-bit "stamps". Reading
  the clock is a system call and is not modelled.
\<close>

definition ONE_MILLION :: int where
  "ONE_MILLION = 1000000"

definition ONE_BILLION :: int where
  "ONE_BILLION = 1000000000"

record monotime =
  tv_sec :: int
  tv_nsec :: int

text \<open>A value as \<open>clock_gettime\<close> returns it.\<close>

definition monotime_ok :: "monotime \<Rightarrow> bool" where
  "monotime_ok t \<longleftrightarrow> 0 \<le> tv_sec t \<and> is_i64 (tv_sec t) \<and> 0 \<le> tv_nsec t \<and> tv_nsec t < ONE_BILLION"

definition monotime_total :: "monotime \<Rightarrow> int" where
  "monotime_total t = tv_sec t * ONE_BILLION + tv_nsec t"

definition monotime_diff_nsec :: "monotime \<Rightarrow> monotime \<Rightarrow> int" where
  "monotime_diff_nsec start end_t =
     (let diff_sec = to_i64 (tv_sec end_t - tv_sec start)
      in to_i64 (diff_sec * ONE_BILLION + (tv_nsec end_t - tv_nsec start)))"

text \<open>C integer division truncates toward zero.\<close>

definition c_div :: "int \<Rightarrow> int \<Rightarrow> int" where
  "c_div a b = sgn a * sgn b * (\<bar>a\<bar> div \<bar>b\<bar>)"

definition monotime_coarse_diff_msec32 :: "monotime \<Rightarrow> monotime \<Rightarrow> int" where
  "monotime_coarse_diff_msec32 start end_t =
     (let diff_sec = to_i32 (tv_sec end_t - tv_sec start);
          diff_nsec = to_i32 (tv_nsec end_t - tv_nsec start)
      in to_i32 (diff_sec * 1000 + c_div diff_nsec ONE_MILLION))"

definition STAMP_TICKS_PER_SECOND :: int where
  "STAMP_TICKS_PER_SECOND = 953"

definition monotime_coarse_to_stamp :: "monotime \<Rightarrow> int" where
  "monotime_coarse_to_stamp t =
     (let nsec = to_u32 (tv_nsec t); sec = to_u32 (tv_sec t)
      in to_u32 (sec * STAMP_TICKS_PER_SECOND + nsec div 2 ^ 20))"

definition monotime_is_zero :: "monotime \<Rightarrow> bool" where
  "monotime_is_zero val \<longleftrightarrow> tv_sec val = 0 \<and> tv_nsec val = 0"

definition monotime_add_msec :: "monotime \<Rightarrow> int \<Rightarrow> monotime" where
  "monotime_add_msec val msec =
     (let sec = msec div 1000;
          msec_remainder = msec mod 1000;
          out = \<lparr>tv_sec = tv_sec val + sec, tv_nsec = tv_nsec val + msec_remainder * ONE_MILLION\<rparr>
      in if ONE_BILLION < tv_nsec out
         then \<lparr>tv_sec = tv_sec out + 1, tv_nsec = tv_nsec out - ONE_BILLION\<rparr>
         else out)"

definition monotime_zero :: monotime where
  "monotime_zero = \<lparr>tv_sec = 0, tv_nsec = 0\<rparr>"

text \<open>\<open>CEIL_DIV\<close> is \<open>(a + (b - 1)) / b\<close> with the truncating division of C.\<close>

definition monotime_diff_usec :: "monotime \<Rightarrow> monotime \<Rightarrow> int" where
  "monotime_diff_usec start end_t =
     (let nsec = monotime_diff_nsec start end_t in c_div (to_i64 (nsec + (1000 - 1))) 1000)"

definition monotime_diff_msec :: "monotime \<Rightarrow> monotime \<Rightarrow> int" where
  "monotime_diff_msec start end_t =
     (let nsec = monotime_diff_nsec start end_t in c_div (to_i64 (nsec + (ONE_MILLION - 1))) ONE_MILLION)"

definition monotime_coarse_stamp_units_to_approx_msec :: "int \<Rightarrow> int" where
  "monotime_coarse_stamp_units_to_approx_msec units = to_u64 (units * 1000) div STAMP_TICKS_PER_SECOND"

definition monotime_msec_to_approx_coarse_stamp_units :: "int \<Rightarrow> int" where
  "monotime_msec_to_approx_coarse_stamp_units msec = to_u64 (msec * STAMP_TICKS_PER_SECOND) div 1000"

lemmas monotime_consts = ONE_MILLION_def ONE_BILLION_def STAMP_TICKS_PER_SECOND_def

subsection \<open>Properties\<close>

lemma monotime_add_msec_total:
  "monotime_total (monotime_add_msec t msec) = monotime_total t + msec * ONE_MILLION"
proof -
  define a b where "a = msec div 1000" and "b = msec mod 1000"
  have "1000 * a + b = msec" by (simp add: a_def b_def)
  then show ?thesis
    by (auto simp: monotime_add_msec_def monotime_total_def Let_def monotime_consts
        simp flip: a_def b_def)
qed

lemma c_div_pos: "0 \<le> a \<Longrightarrow> 0 < b \<Longrightarrow> c_div a b = a div b"
  by (cases "a = 0") (auto simp: c_div_def)

lemma ceil_div_exact:
  assumes "0 \<le> a" "0 < b" "a * b + b \<le> 9223372036854775808"
  shows "c_div (to_i64 (a * b + (b - 1))) b = a"
proof -
  from assms have pos: "0 \<le> a * b" by simp
  with assms have "to_i64 (a * b + (b - 1)) = a * b + (b - 1)"
    by (intro to_int_id) (simp add: is_i64_def)
  moreover from assms have "(a * b + (b - 1)) div b = a" by simp
  ultimately show ?thesis
    using assms(2) pos by (simp add: c_div_pos)
qed

lemma to_u32_mult_add: "to_u32 (to_u32 a * b + c) = to_u32 (a * b + c)"
  unfolding to_u32_def by (rule mod_add_cong [OF mod_mult_left_eq refl])

text \<open>The pair of seconds and nanoseconds orders times the way the total does.\<close>

lemma monotime_coarse_to_stamp_eq:
  assumes "monotime_ok t"
  shows "monotime_coarse_to_stamp t = to_u32 (tv_sec t * 953 + tv_nsec t div 1048576)"
proof -
  from assms have "to_u32 (tv_nsec t) = tv_nsec t"
    by (simp add: monotime_ok_def is_u32_def monotime_consts)
  then show ?thesis
    by (simp add: monotime_coarse_to_stamp_def Let_def monotime_consts to_u32_mult_add)
qed

lemma stamp_mono:
  assumes "monotime_ok t" "monotime_ok t'" "monotime_total t \<le> monotime_total t'"
  shows "tv_sec t * 953 + tv_nsec t div 1048576 \<le> tv_sec t' * 953 + tv_nsec t' div 1048576"
proof (cases "tv_sec t = tv_sec t'")
  case True
  with assms show ?thesis by (simp add: monotime_total_def zdiv_mono1)
next
  case False
  with assms have "tv_sec t + 1 \<le> tv_sec t'"
    by (auto simp: monotime_ok_def monotime_total_def monotime_consts)
  moreover from assms have "tv_nsec t div 1048576 \<le> 953" "0 \<le> tv_nsec t' div 1048576"
    by (auto simp: monotime_ok_def monotime_consts)
  ultimately show ?thesis by simp
qed

text \<open>
  C34: Time arithmetic is exact. Adding \<open>msec\<close> milliseconds, any number of 32 bits, to a clock value below nine
  billion seconds and measuring the distance in nanoseconds, microseconds or milliseconds gives back exactly that amount, with
  carries into the seconds handled and no overflow. The sum is a normalised \<open>timespec\<close>, with less than
  a full second in its nanoseconds, except when the nanoseconds add up to exactly one second: the
  carry is taken only above that.
\<close>

theorem monotime_add_diff:
  assumes "monotime_ok t" "is_u32 msec" "tv_sec t < 9000000000"
  shows "monotime_diff_nsec t (monotime_add_msec t msec) = msec * 1000000 \<and>
         monotime_diff_usec t (monotime_add_msec t msec) = msec * 1000 \<and>
         monotime_diff_msec t (monotime_add_msec t msec) = msec \<and>
         (monotime_ok (monotime_add_msec t msec) \<longleftrightarrow> tv_nsec t + msec mod 1000 * 1000000 \<noteq> 1000000000)"
proof -
  define t' where "t' = monotime_add_msec t msec"
  from assms have m: "0 \<le> msec" "msec < 4294967296" by (auto simp: is_u32_def)
  have tot: "monotime_total t' = monotime_total t + msec * 1000000"
    using monotime_add_msec_total [of t msec] by (simp add: t'_def monotime_consts)
  have "0 \<le> tv_sec t' - tv_sec t" "tv_sec t' - tv_sec t \<le> msec + 1"
    using m by (auto simp: t'_def monotime_add_msec_def Let_def)
  with m have sec: "to_i64 (tv_sec t' - tv_sec t) = tv_sec t' - tv_sec t"
    by (intro to_int_id) (simp add: is_i64_def)
  have "monotime_diff_nsec t t' = to_i64 (monotime_total t' - monotime_total t)"
    unfolding monotime_diff_nsec_def Let_def sec by (simp add: monotime_total_def algebra_simps)
  also have "\<dots> = msec * 1000000"
    using tot m by (simp add: is_i64_def)
  finally have d: "monotime_diff_nsec t t' = msec * 1000000" .
  moreover have "monotime_diff_usec t t' = msec * 1000"
    using ceil_div_exact [of "msec * 1000" 1000] m by (simp add: monotime_diff_usec_def d mult.commute)
  moreover have "monotime_diff_msec t t' = msec"
    using ceil_div_exact [of msec 1000000] m by (simp add: monotime_diff_msec_def d ONE_MILLION_def mult.commute)
  moreover have "monotime_ok t' \<longleftrightarrow> tv_nsec t + msec mod 1000 * 1000000 \<noteq> 1000000000"
    using assms(1,3) m by (auto simp: t'_def monotime_add_msec_def monotime_ok_def Let_def is_int_defs monotime_consts)
  ultimately show ?thesis by (simp add: t'_def)
qed

theorem monotime_add_diff_witness:
  "monotime_diff_msec \<lparr>tv_sec = 7, tv_nsec = 900000000\<rparr>
     (monotime_add_msec \<lparr>tv_sec = 7, tv_nsec = 900000000\<rparr> 1250) = 1250 \<and>
   \<not> monotime_ok (monotime_add_msec \<lparr>tv_sec = 3, tv_nsec = 500000000\<rparr> 500)"
  using monotime_add_diff [of "\<lparr>tv_sec = 7, tv_nsec = 900000000\<rparr>" 1250]
    monotime_add_diff [of "\<lparr>tv_sec = 3, tv_nsec = 500000000\<rparr>" 500]
  by (simp add: monotime_ok_def is_int_defs monotime_consts)

end
