(* ===== verification/Token_Bucket.thy ===== *)
theory Token_Bucket
  imports Compat_Time
begin

section \<open>Token buckets, \<^verbatim>\<open>lib/evloop/token_bucket.c\<close>\<close>

text \<open>
  The bandwidth limiter. The fields have the widths of the source: \<open>rate\<close> and the time stamps
  are unsigned 32-bit, \<open>burst\<close> and the bucket levels signed 32-bit, and the conversions to and
  from \<open>size_t\<close> are written out. A division by a zero rate is \<open>None\<close>.
\<close>

definition TOKEN_BUCKET_MAX_BURST :: int where
  "TOKEN_BUCKET_MAX_BURST = INT32_MAX"

definition TICKS_PER_STEP :: int where
  "TICKS_PER_STEP = 16"

definition TB_READ :: int where
  "TB_READ = 1"

definition TB_WRITE :: int where
  "TB_WRITE = 2"

record token_bucket_cfg =
  rate :: int
  burst :: int

record token_bucket_raw =
  bucket :: int

record token_bucket_rw =
  rw_cfg :: token_bucket_cfg
  read_bucket :: token_bucket_raw
  write_bucket :: token_bucket_raw
  rw_last_refilled :: int

record token_bucket_ctr =
  ctr_cfg :: token_bucket_cfg
  counter :: token_bucket_raw
  ctr_last_refilled :: int

subsection \<open>The raw bucket\<close>

definition token_bucket_cfg_init :: "int \<Rightarrow> int \<Rightarrow> token_bucket_cfg" where
  "token_bucket_cfg_init r b =
     (let b = (if TOKEN_BUCKET_MAX_BURST < b then TOKEN_BUCKET_MAX_BURST else b)
      in \<lparr>rate = r, burst = to_i32 b\<rparr>)"

definition token_bucket_raw_get :: "token_bucket_raw \<Rightarrow> int" where
  "token_bucket_raw_get b = (if 0 \<le> bucket b then bucket b else 0)"

definition token_bucket_raw_reset :: "token_bucket_raw \<Rightarrow> token_bucket_cfg \<Rightarrow> token_bucket_raw" where
  "token_bucket_raw_reset b cfg = b\<lparr>bucket := burst cfg\<rparr>"

definition token_bucket_raw_adjust :: "token_bucket_raw \<Rightarrow> token_bucket_cfg \<Rightarrow> token_bucket_raw" where
  "token_bucket_raw_adjust b cfg = b\<lparr>bucket := min (bucket b) (burst cfg)\<rparr>"

definition token_bucket_raw_refill_steps ::
  "token_bucket_raw \<Rightarrow> token_bucket_cfg \<Rightarrow> int \<Rightarrow> (bool \<times> token_bucket_raw) option" where
  "token_bucket_raw_refill_steps b cfg elapsed =
     (let was_empty = (bucket b \<le> 0);
          gap = to_u64 (to_u64 (burst cfg) - to_u64 (bucket b))
      in if rate cfg = 0 then None
         else
           let b' = (if gap div rate cfg < elapsed then b\<lparr>bucket := burst cfg\<rparr>
                     else b\<lparr>bucket := to_i32 (to_u32 (bucket b) + to_u32 (rate cfg * elapsed))\<rparr>)
           in Some (was_empty \<and> 0 < bucket b', b'))"

text \<open>The difference with \<open>n\<close> is computed in \<open>ssize_t\<close> and stored in 32 bits.\<close>

definition token_bucket_raw_dec :: "token_bucket_raw \<Rightarrow> int \<Rightarrow> bool \<times> token_bucket_raw" where
  "token_bucket_raw_dec b n =
     (if n < 0 then (False, b)
      else
        let becomes_empty = (0 < bucket b \<and> bucket b \<le> n)
        in (becomes_empty, b\<lparr>bucket := to_i32 (to_i64 (bucket b - n))\<rparr>))"

definition rate_per_sec_to_rate_per_step :: "int \<Rightarrow> int" where
  "rate_per_sec_to_rate_per_step r =
     (let units = to_u64 (r * TICKS_PER_STEP);
          val = to_u32 (monotime_coarse_stamp_units_to_approx_msec units div 1000)
      in if val \<noteq> 0 then val else 1)"

subsection \<open>The coupled read and write bucket\<close>

definition token_bucket_rw_get_read :: "token_bucket_rw \<Rightarrow> int" where
  "token_bucket_rw_get_read b = token_bucket_raw_get (read_bucket b)"

definition token_bucket_rw_get_write :: "token_bucket_rw \<Rightarrow> int" where
  "token_bucket_rw_get_write b = token_bucket_raw_get (write_bucket b)"

definition token_bucket_rw_adjust :: "token_bucket_rw \<Rightarrow> int \<Rightarrow> int \<Rightarrow> token_bucket_rw" where
  "token_bucket_rw_adjust b r bu =
     (let cfg = token_bucket_cfg_init (rate_per_sec_to_rate_per_step r) bu
      in b\<lparr>rw_cfg := cfg, read_bucket := token_bucket_raw_adjust (read_bucket b) cfg,
           write_bucket := token_bucket_raw_adjust (write_bucket b) cfg\<rparr>)"

definition token_bucket_rw_reset :: "token_bucket_rw \<Rightarrow> int \<Rightarrow> token_bucket_rw" where
  "token_bucket_rw_reset b now_ts_stamp =
     b\<lparr>read_bucket := token_bucket_raw_reset (read_bucket b) (rw_cfg b),
       write_bucket := token_bucket_raw_reset (write_bucket b) (rw_cfg b),
       rw_last_refilled := now_ts_stamp\<rparr>"

definition token_bucket_rw_init :: "int \<Rightarrow> int \<Rightarrow> int \<Rightarrow> token_bucket_rw" where
  "token_bucket_rw_init r bu now_ts_stamp =
     (let b = \<lparr>rw_cfg = \<lparr>rate = 0, burst = 0\<rparr>, read_bucket = \<lparr>bucket = 0\<rparr>,
               write_bucket = \<lparr>bucket = 0\<rparr>, rw_last_refilled = 0\<rparr>
      in token_bucket_rw_reset (token_bucket_rw_adjust b r bu) now_ts_stamp)"

definition token_bucket_rw_refill :: "token_bucket_rw \<Rightarrow> int \<Rightarrow> (int \<times> token_bucket_rw) option" where
  "token_bucket_rw_refill b now_ts_stamp =
     (let elapsed_ticks = to_u32 (now_ts_stamp - rw_last_refilled b)
      in if elapsed_ticks \<le> 4294967295 div 4 then
           let elapsed_steps = elapsed_ticks div TICKS_PER_STEP
           in if elapsed_steps = 0 then Some (0, b)
              else
                do {
                  (r, rb) \<leftarrow> token_bucket_raw_refill_steps (read_bucket b) (rw_cfg b) elapsed_steps;
                  let flags = (if r then TB_READ else 0);
                  (w, wb) \<leftarrow> token_bucket_raw_refill_steps (write_bucket b) (rw_cfg b) elapsed_steps;
                  let flags = (if w then flags OR TB_WRITE else flags);
                  Some (flags, b\<lparr>read_bucket := rb, write_bucket := wb, rw_last_refilled := now_ts_stamp\<rparr>)
                }
         else Some (0, b\<lparr>rw_last_refilled := now_ts_stamp\<rparr>))"

definition token_bucket_rw_dec_read :: "token_bucket_rw \<Rightarrow> int \<Rightarrow> bool \<times> token_bucket_rw" where
  "token_bucket_rw_dec_read b n =
     (case token_bucket_raw_dec (read_bucket b) n of (e, rb) \<Rightarrow> (e, b\<lparr>read_bucket := rb\<rparr>))"

definition token_bucket_rw_dec_write :: "token_bucket_rw \<Rightarrow> int \<Rightarrow> bool \<times> token_bucket_rw" where
  "token_bucket_rw_dec_write b n =
     (case token_bucket_raw_dec (write_bucket b) n of (e, wb) \<Rightarrow> (e, b\<lparr>write_bucket := wb\<rparr>))"

definition token_bucket_rw_dec :: "token_bucket_rw \<Rightarrow> int \<Rightarrow> int \<Rightarrow> int \<times> token_bucket_rw" where
  "token_bucket_rw_dec b n_read n_written =
     (let flags = 0;
          (r, b) = token_bucket_rw_dec_read b n_read;
          flags = (if r then flags OR TB_READ else flags);
          (w, b) = token_bucket_rw_dec_write b n_written;
          flags = (if w then flags OR TB_WRITE else flags)
      in (flags, b))"

subsection \<open>The single counter\<close>

definition token_bucket_ctr_adjust :: "token_bucket_ctr \<Rightarrow> int \<Rightarrow> int \<Rightarrow> token_bucket_ctr" where
  "token_bucket_ctr_adjust b r bu =
     (let cfg = token_bucket_cfg_init r bu
      in b\<lparr>ctr_cfg := cfg, counter := token_bucket_raw_adjust (counter b) cfg\<rparr>)"

definition token_bucket_ctr_reset :: "token_bucket_ctr \<Rightarrow> int \<Rightarrow> token_bucket_ctr" where
  "token_bucket_ctr_reset b now_ts_sec =
     b\<lparr>counter := token_bucket_raw_reset (counter b) (ctr_cfg b), ctr_last_refilled := now_ts_sec\<rparr>"

definition token_bucket_ctr_init :: "int \<Rightarrow> int \<Rightarrow> int \<Rightarrow> token_bucket_ctr" where
  "token_bucket_ctr_init r bu now_ts_sec =
     (let b = \<lparr>ctr_cfg = \<lparr>rate = 0, burst = 0\<rparr>, counter = \<lparr>bucket = 0\<rparr>, ctr_last_refilled = 0\<rparr>
      in token_bucket_ctr_reset (token_bucket_ctr_adjust b r bu) now_ts_sec)"

definition token_bucket_ctr_refill :: "token_bucket_ctr \<Rightarrow> int \<Rightarrow> token_bucket_ctr option" where
  "token_bucket_ctr_refill b now_ts_sec =
     (let elapsed_sec = to_u32 (now_ts_sec - ctr_last_refilled b)
      in do {
           b \<leftarrow> (if elapsed_sec \<le> 4294967295 div 4 then
                   do {
                     (_, c) \<leftarrow> token_bucket_raw_refill_steps (counter b) (ctr_cfg b) elapsed_sec;
                     Some (b\<lparr>counter := c\<rparr>)
                   }
                 else Some b);
           Some (b\<lparr>ctr_last_refilled := now_ts_sec\<rparr>)
         })"

definition token_bucket_ctr_dec :: "token_bucket_ctr \<Rightarrow> int \<Rightarrow> bool \<times> token_bucket_ctr" where
  "token_bucket_ctr_dec b n =
     (case token_bucket_raw_dec (counter b) n of (e, c) \<Rightarrow> (e, b\<lparr>counter := c\<rparr>))"

definition token_bucket_ctr_get :: "token_bucket_ctr \<Rightarrow> int" where
  "token_bucket_ctr_get b = token_bucket_raw_get (counter b)"

subsection \<open>Well-formed buckets\<close>

definition cfg_ok :: "token_bucket_cfg \<Rightarrow> bool" where
  "cfg_ok cfg \<longleftrightarrow> 0 < rate cfg \<and> is_u32 (rate cfg) \<and> 0 \<le> burst cfg \<and> is_i32 (burst cfg)"

definition raw_ok :: "token_bucket_cfg \<Rightarrow> token_bucket_raw \<Rightarrow> bool" where
  "raw_ok cfg b \<longleftrightarrow> is_i32 (bucket b) \<and> bucket b \<le> burst cfg"

definition rw_ok :: "token_bucket_rw \<Rightarrow> bool" where
  "rw_ok b \<longleftrightarrow> cfg_ok (rw_cfg b) \<and> raw_ok (rw_cfg b) (read_bucket b) \<and> raw_ok (rw_cfg b) (write_bucket b) \<and>
     is_u32 (rw_last_refilled b)"

definition ctr_ok :: "token_bucket_ctr \<Rightarrow> bool" where
  "ctr_ok b \<longleftrightarrow> cfg_ok (ctr_cfg b) \<and> raw_ok (ctr_cfg b) (counter b) \<and> is_u32 (ctr_last_refilled b)"

lemma token_bucket_cfg_init_ok:
  "0 < r \<Longrightarrow> is_u32 r \<Longrightarrow> is_u32 b \<Longrightarrow> cfg_ok (token_bucket_cfg_init r b)"
  by (auto simp: cfg_ok_def token_bucket_cfg_init_def Let_def TOKEN_BUCKET_MAX_BURST_def INT32_MAX_def is_int_defs)

lemma int_div_less_iff:
  fixes g r e :: int
  assumes "0 < r"
  shows "g div r < e \<longleftrightarrow> g < r * e"
proof -
  from assms have m: "0 \<le> g mod r" "g mod r < r" "r * (g div r) + g mod r = g" by simp_all
  show ?thesis
  proof
    assume "g div r < e"
    with assms have "r * (g div r + 1) \<le> r * e" by (intro mult_left_mono) auto
    then have "r * (g div r) + r \<le> r * e" by (simp add: distrib_left)
    with m show "g < r * e" by linarith
  next
    assume "g < r * e"
    with m have "r * (g div r) < r * e" by linarith
    with assms show "g div r < e" by simp
  qed
qed

lemma rate_per_step_eq:
  assumes "is_u32 r"
  shows "rate_per_sec_to_rate_per_step r = max 1 (r * 16 div 953)"
proof -
  from assms have r: "0 \<le> r" "r < 4294967296" by (auto simp: is_u32_def)
  then have "is_u64 (r * 16)" "is_u64 (r * 16 * 1000)" by (auto simp: is_u64_def)
  then have "monotime_coarse_stamp_units_to_approx_msec (to_u64 (r * TICKS_PER_STEP)) div 1000 = r * 16 div 953"
    by (simp add: monotime_coarse_stamp_units_to_approx_msec_def TICKS_PER_STEP_def STAMP_TICKS_PER_SECOND_def
        flip: zdiv_zmult2_eq)
  moreover from r have "0 \<le> r * 16 div 953" "r * 16 div 953 < 4294967296"
    by (auto simp: pos_imp_zdiv_nonneg_iff int_div_less_iff)
  ultimately show ?thesis
    by (auto simp: rate_per_sec_to_rate_per_step_def is_u32_def Let_def)
qed

lemma refill_steps_exact:
  assumes "cfg_ok cfg" "raw_ok cfg b" "0 \<le> e" "is_u32 e"
  shows "token_bucket_raw_refill_steps b cfg e =
           Some (bucket b \<le> 0 \<and> 0 < min (burst cfg) (bucket b + rate cfg * e),
                 b\<lparr>bucket := min (burst cfg) (bucket b + rate cfg * e)\<rparr>)"
proof -
  define g where "g = burst cfg - bucket b"
  from assms have g: "0 \<le> g" "g < 4294967296" and r: "0 < rate cfg"
    by (auto simp: g_def cfg_ok_def raw_ok_def is_int_defs)
  have "to_u64 (to_u64 (burst cfg) - to_u64 (bucket b)) = to_u64 g"
    by (simp add: to_u64_def g_def mod_simps)
  also have "\<dots> = g" using g by (simp add: is_u64_def)
  finally have gap: "to_u64 (to_u64 (burst cfg) - to_u64 (bucket b)) = g" .
  show ?thesis
  proof (cases "g div rate cfg < e")
    case True
    with r have "g < rate cfg * e" by (simp add: int_div_less_iff)
    then have "min (burst cfg) (bucket b + rate cfg * e) = burst cfg" by (simp add: g_def)
    with True r show ?thesis by (simp add: token_bucket_raw_refill_steps_def gap)
  next
    case False
    with r have le: "rate cfg * e \<le> g" by (simp add: int_div_less_iff)
    then have "is_u32 (rate cfg * e)" using g r assms(3) by (simp add: is_u32_def)
    moreover have "to_i32 (to_u32 (bucket b) + rate cfg * e) = to_i32 (bucket b + rate cfg * e)"
      by (simp add: to_i32_def to_u32_def mod_simps add.assoc)
    moreover have "is_i32 (bucket b + rate cfg * e)"
    proof -
      from r assms(3) have "0 \<le> rate cfg * e" by simp
      moreover from assms have "-2147483648 \<le> bucket b" "burst cfg < 2147483648"
        by (auto simp: cfg_ok_def raw_ok_def is_i32_def)
      ultimately show ?thesis using le unfolding g_def is_i32_def by linarith
    qed
    ultimately show ?thesis
      using False le r by (simp add: token_bucket_raw_refill_steps_def gap g_def min_absorb2)
  qed
qed

subsection \<open>Rate limiting as an interface\<close>

text \<open>
  What a user of a token bucket relies on. The state is known together with the time \<open>L\<close> of its
  last refill on an unbounded clock, of which the code only sees the value modulo \<open>2^32\<close>. A
  refill at time \<open>T\<close> adds at most \<open>rate\<close> tokens per \<open>unit\<close> of elapsed time, a take removes what
  it is given, and the level never exceeds the burst.
\<close>

locale rate_limiter =
  fixes inv :: "int \<Rightarrow> 's \<Rightarrow> bool"
    and level :: "'s \<Rightarrow> int"
    and lim_rate :: "'s \<Rightarrow> int"
    and lim_burst :: "'s \<Rightarrow> int"
    and take_tokens :: "'s \<Rightarrow> int \<Rightarrow> 's"
    and refill :: "'s \<Rightarrow> int \<Rightarrow> 's option"
    and unit_ticks :: int
  assumes unit_pos: "0 < unit_ticks"
    and rate_pos: "inv L s \<Longrightarrow> 0 < lim_rate s"
    and level_le: "inv L s \<Longrightarrow> level s \<le> lim_burst s"
    and take_ok: "inv L s \<Longrightarrow> 0 \<le> n \<Longrightarrow> n \<le> max 0 (level s) \<Longrightarrow>
      inv L (take_tokens s n) \<and> level (take_tokens s n) = level s - n \<and>
      lim_rate (take_tokens s n) = lim_rate s \<and> lim_burst (take_tokens s n) = lim_burst s"
    and refill_ok: "inv L s \<Longrightarrow> L \<le> T \<Longrightarrow>
      \<exists>s' L'. refill s (to_u32 T) = Some s' \<and> inv L' s' \<and> L \<le> L' \<and> L' \<le> T \<and>
        level s \<le> level s' \<and> level s' \<le> level s + lim_rate s * ((L' - L) div unit_ticks) \<and>
        lim_rate s' = lim_rate s \<and> lim_burst s' = lim_burst s"

text \<open>
  A client's run: it asks for tokens and gets at most what is available, and refills at the
  given times. The result is the number of tokens obtained and the final state.
\<close>

datatype tb_event = Take int | Refill int

fun tb_run :: "('s \<Rightarrow> int) \<Rightarrow> ('s \<Rightarrow> int \<Rightarrow> 's) \<Rightarrow> ('s \<Rightarrow> int \<Rightarrow> 's option) \<Rightarrow> 's \<Rightarrow> tb_event list \<Rightarrow>
    (int \<times> 's) option" where
  "tb_run avail tk refill s [] = Some (0, s)"
| "tb_run avail tk refill s (Take n # es) =
     (let m = min (max 0 n) (avail s)
      in do { (c, s') \<leftarrow> tb_run avail tk refill (tk s m) es; Some (m + c, s') })"
| "tb_run avail tk refill s (Refill t # es) =
     do { s' \<leftarrow> refill s (to_u32 t); tb_run avail tk refill s' es }"

fun times_from :: "int \<Rightarrow> tb_event list \<Rightarrow> int \<Rightarrow> bool" where
  "times_from t [] t_end \<longleftrightarrow> t \<le> t_end"
| "times_from t (Take n # es) t_end \<longleftrightarrow> times_from t es t_end"
| "times_from t (Refill t' # es) t_end \<longleftrightarrow> t \<le> t' \<and> times_from t' es t_end"

lemma div_diff_add_le:
  fixes a b c u :: int
  assumes "0 < u"
  shows "(b - a) div u + (c - b) div u \<le> (c - a) div u"
  using div_add1_eq [of "b - a" "c - b" u] assms by (simp add: pos_imp_zdiv_nonneg_iff)

context rate_limiter
begin

lemma tb_run_bound:
  assumes "inv L s" "0 \<le> level s" "L \<le> t" "times_from t es t_end"
  shows "\<exists>c s'. tb_run (\<lambda>s. max 0 (level s)) take_tokens refill s es = Some (c, s') \<and> 0 \<le> c \<and>
           c \<le> level s + lim_rate s * ((t_end - L) div unit_ticks) \<and>
           0 \<le> level s' \<and> level s' \<le> lim_burst s"
  using assms
proof (induction es arbitrary: s L t)
  case Nil
  then have "0 \<le> lim_rate s * ((t_end - L) div unit_ticks)"
    using rate_pos [OF Nil.prems(1)] unit_pos by (simp add: pos_imp_zdiv_nonneg_iff)
  with Nil show ?case using level_le [OF Nil.prems(1)] by simp
next
  case (Cons e es)
  show ?case
  proof (cases e)
    case (Take n)
    define m where "m = min (max 0 n) (max 0 (level s))"
    from Cons.prems(2) have m: "0 \<le> m" "m \<le> level s" by (auto simp: m_def)
    note t = take_ok [OF Cons.prems(1) m(1)]
    from t m Cons.prems(2-4) Take Cons.IH [of L "take_tokens s m" t] obtain c s' where
      "tb_run (\<lambda>s. max 0 (level s)) take_tokens refill (take_tokens s m) es = Some (c, s')" "0 \<le> c"
      "c \<le> level s - m + lim_rate s * ((t_end - L) div unit_ticks)" "0 \<le> level s'" "level s' \<le> lim_burst s"
      by auto
    moreover from calculation(1) have
      "tb_run (\<lambda>s. max 0 (level s)) take_tokens refill s (e # es) = Some (m + c, s')"
      unfolding Take tb_run.simps Let_def m_def [symmetric] by simp
    ultimately show ?thesis using m by (intro exI [of _ "m + c"] exI [of _ s']) simp
  next
    case (Refill t')
    with Cons.prems have t': "L \<le> t'" "times_from t' es t_end" by auto
    from refill_ok [OF Cons.prems(1) t'(1)] obtain s1 L' where s1: "refill s (to_u32 t') = Some s1"
      "inv L' s1" "L \<le> L'" "L' \<le> t'" "level s \<le> level s1"
      "level s1 \<le> level s + lim_rate s * ((L' - L) div unit_ticks)" "lim_rate s1 = lim_rate s" "lim_burst s1 = lim_burst s"
      by blast
    with Cons.IH [OF s1(2) _ s1(4) t'(2)] Cons.prems(2) obtain c s' where c:
      "tb_run (\<lambda>s. max 0 (level s)) take_tokens refill s1 es = Some (c, s')" "0 \<le> c"
      "c \<le> level s1 + lim_rate s * ((t_end - L') div unit_ticks)" "0 \<le> level s'" "level s' \<le> lim_burst s"
      by auto
    have "lim_rate s * ((L' - L) div unit_ticks + (t_end - L') div unit_ticks) \<le> lim_rate s * ((t_end - L) div unit_ticks)"
      using rate_pos [OF Cons.prems(1)] div_diff_add_le [OF unit_pos] by (intro mult_left_mono) auto
    with c s1 show ?thesis by (simp add: Refill distrib_left)
  qed
qed

end

subsection \<open>The three buckets implement it\<close>

definition rw_at :: "int \<Rightarrow> token_bucket_rw \<Rightarrow> bool" where
  "rw_at L b \<longleftrightarrow> rw_ok b \<and> rw_last_refilled b = to_u32 L"

definition ctr_at :: "int \<Rightarrow> token_bucket_ctr \<Rightarrow> bool" where
  "ctr_at L b \<longleftrightarrow> ctr_ok b \<and> ctr_last_refilled b = to_u32 L"

lemma elapsed_ticks:
  assumes "L \<le> T"
  shows "to_u32 (to_u32 T - to_u32 L) \<le> T - L" "0 \<le> to_u32 (to_u32 T - to_u32 L)"
proof -
  have "to_u32 (to_u32 T - to_u32 L) = (T - L) mod 4294967296"
    by (simp add: to_u32_def mod_simps)
  with assms show "to_u32 (to_u32 T - to_u32 L) \<le> T - L" "0 \<le> to_u32 (to_u32 T - to_u32 L)"
    by (simp_all add: zmod_le_nonneg_dividend)
qed

lemma raw_dec_ok:
  assumes "cfg_ok cfg" "raw_ok cfg b" "0 \<le> n" "n \<le> max 0 (bucket b)"
  shows "token_bucket_raw_dec b n = (0 < bucket b \<and> bucket b \<le> n, b\<lparr>bucket := bucket b - n\<rparr>)"
    "raw_ok cfg (b\<lparr>bucket := bucket b - n\<rparr>)"
proof -
  from assms have "is_i32 (bucket b - n)" by (auto simp: is_i32_def raw_ok_def)
  moreover then have "is_i64 (bucket b - n)" by (simp add: is_int_defs)
  ultimately show "token_bucket_raw_dec b n = (0 < bucket b \<and> bucket b \<le> n, b\<lparr>bucket := bucket b - n\<rparr>)"
    "raw_ok cfg (b\<lparr>bucket := bucket b - n\<rparr>)"
    using assms by (auto simp: token_bucket_raw_dec_def raw_ok_def)
qed

definition refilled :: "token_bucket_cfg \<Rightarrow> int \<Rightarrow> token_bucket_raw \<Rightarrow> token_bucket_raw" where
  "refilled cfg e b = b\<lparr>bucket := min (burst cfg) (bucket b + rate cfg * e)\<rparr>"

lemma refilled_ok:
  assumes "cfg_ok cfg" "raw_ok cfg b" "0 \<le> e"
  shows "raw_ok cfg (refilled cfg e b)" "bucket b \<le> bucket (refilled cfg e b)"
    "bucket (refilled cfg e b) \<le> bucket b + rate cfg * e"
proof -
  define x where "x = rate cfg * e"
  from assms have "0 \<le> x" by (simp add: cfg_ok_def x_def)
  with assms show "raw_ok cfg (refilled cfg e b)" "bucket b \<le> bucket (refilled cfg e b)"
    "bucket (refilled cfg e b) \<le> bucket b + rate cfg * e"
    unfolding refilled_def cfg_ok_def raw_ok_def is_i32_def x_def [symmetric] by (auto simp: min_def)
qed

definition rw_refilled :: "token_bucket_rw \<Rightarrow> int \<Rightarrow> int \<Rightarrow> int \<times> token_bucket_rw" where
  "rw_refilled b e now =
     ((if bucket (read_bucket b) \<le> 0 \<and> 0 < bucket (refilled (rw_cfg b) e (read_bucket b)) then TB_READ else 0) +
      (if bucket (write_bucket b) \<le> 0 \<and> 0 < bucket (refilled (rw_cfg b) e (write_bucket b)) then TB_WRITE else 0),
      b\<lparr>read_bucket := refilled (rw_cfg b) e (read_bucket b),
        write_bucket := refilled (rw_cfg b) e (write_bucket b), rw_last_refilled := now\<rparr>)"

lemma rw_refill_eq:
  assumes "rw_at L b" "L \<le> T"
  defines "d \<equiv> to_u32 (to_u32 T - to_u32 L)"
  shows "token_bucket_rw_refill b (to_u32 T) =
           (if 4294967295 div 4 < d then Some (0, b\<lparr>rw_last_refilled := to_u32 T\<rparr>)
            else if d div TICKS_PER_STEP = 0 then Some (0, b)
            else Some (rw_refilled b (d div TICKS_PER_STEP) (to_u32 T)))"
proof -
  define e where "e = d div TICKS_PER_STEP"
  have last: "rw_last_refilled b = to_u32 L" and ok: "cfg_ok (rw_cfg b)" "raw_ok (rw_cfg b) (read_bucket b)"
    "raw_ok (rw_cfg b) (write_bucket b)"
    using assms(1) by (simp_all add: rw_at_def rw_ok_def)
  have e: "0 \<le> e" using elapsed_ticks(2) [OF assms(2)] by (simp add: e_def d_def TICKS_PER_STEP_def)
  have "is_u32 e" if "d \<le> 4294967295 div 4" using that e by (simp add: e_def is_u32_def TICKS_PER_STEP_def)
  note st = refill_steps_exact [OF ok(1) _ e this, folded refilled_def]
  show ?thesis
    unfolding token_bucket_rw_refill_def last d_def [symmetric] e_def [symmetric] Let_def
    by (auto simp: st ok TB_READ_def TB_WRITE_def rw_refilled_def refilled_def)
qed

lemma rw_refill_cases:
  assumes "rw_at L b" "L \<le> T"
  obtains (none) "token_bucket_rw_refill b (to_u32 T) = Some (0, b)"
  | (skip) "token_bucket_rw_refill b (to_u32 T) = Some (0, b\<lparr>rw_last_refilled := to_u32 T\<rparr>)"
  | (step) e where "0 < e" "e \<le> (T - L) div TICKS_PER_STEP"
      "token_bucket_rw_refill b (to_u32 T) = Some (rw_refilled b e (to_u32 T))"
proof -
  define d where "d = to_u32 (to_u32 T - to_u32 L)"
  note d = elapsed_ticks [OF assms(2), folded d_def] and eq = rw_refill_eq [OF assms, folded d_def]
  from d have e: "0 \<le> d div TICKS_PER_STEP" "d div TICKS_PER_STEP \<le> (T - L) div TICKS_PER_STEP"
    by (simp_all add: TICKS_PER_STEP_def zdiv_mono1)
  with eq show thesis
    using none skip step [of "d div TICKS_PER_STEP"] by (auto split: if_splits)
qed

lemma rw_refill_ok:
  assumes "rw_at L b" "L \<le> T"
  shows "\<exists>f b' L'. token_bucket_rw_refill b (to_u32 T) = Some (f, b') \<and> rw_at L' b' \<and> L \<le> L' \<and> L' \<le> T \<and>
    rw_cfg b' = rw_cfg b \<and>
    bucket (read_bucket b) \<le> bucket (read_bucket b') \<and>
    bucket (read_bucket b') \<le> bucket (read_bucket b) + rate (rw_cfg b) * ((L' - L) div TICKS_PER_STEP) \<and>
    bucket (write_bucket b) \<le> bucket (write_bucket b') \<and>
    bucket (write_bucket b') \<le> bucket (write_bucket b) + rate (rw_cfg b) * ((L' - L) div TICKS_PER_STEP)"
proof -
  have ok: "cfg_ok (rw_cfg b)" "raw_ok (rw_cfg b) (read_bucket b)" "raw_ok (rw_cfg b) (write_bucket b)"
    using assms(1) by (simp_all add: rw_at_def rw_ok_def)
  have "0 \<le> (T - L) div TICKS_PER_STEP" using assms(2) by (simp add: TICKS_PER_STEP_def)
  then have nn: "0 \<le> rate (rw_cfg b) * ((T - L) div TICKS_PER_STEP)"
    using ok(1) by (simp add: cfg_ok_def)
  from assms show ?thesis
  proof (cases rule: rw_refill_cases)
    case none
    with assms show ?thesis by (intro exI [of _ 0] exI [of _ b] exI [of _ L]) simp
  next
    case skip
    with assms nn show ?thesis
      by (intro exI [of _ 0] exI [of _ "b\<lparr>rw_last_refilled := to_u32 T\<rparr>"] exI [of _ T])
        (simp add: rw_at_def rw_ok_def)
  next
    case (step e)
    have le: "rate (rw_cfg b) * e \<le> rate (rw_cfg b) * ((T - L) div TICKS_PER_STEP)"
      using step(2) ok(1) by (intro mult_left_mono) (auto simp: cfg_ok_def)
    from step(1) have "0 \<le> e" by simp
    note rd = refilled_ok [OF ok(1,2) this] and wr = refilled_ok [OF ok(1,3) this]
    define b' where "b' = b\<lparr>read_bucket := refilled (rw_cfg b) e (read_bucket b),
      write_bucket := refilled (rw_cfg b) e (write_bucket b), rw_last_refilled := to_u32 T\<rparr>"
    from step(3) obtain f where "token_bucket_rw_refill b (to_u32 T) = Some (f, b')"
      by (simp add: b'_def rw_refilled_def)
    then show ?thesis
      using assms(2) rd wr le ok
      by (intro exI [of _ f] exI [of _ b'] exI [of _ T]) (simp add: rw_at_def rw_ok_def b'_def)
  qed
qed

definition rw_take_read :: "token_bucket_rw \<Rightarrow> int \<Rightarrow> token_bucket_rw" where
  "rw_take_read b n = snd (token_bucket_rw_dec_read b n)"

definition rw_take_write :: "token_bucket_rw \<Rightarrow> int \<Rightarrow> token_bucket_rw" where
  "rw_take_write b n = snd (token_bucket_rw_dec_write b n)"

definition rw_refill :: "token_bucket_rw \<Rightarrow> int \<Rightarrow> token_bucket_rw option" where
  "rw_refill b t = map_option snd (token_bucket_rw_refill b t)"

definition ctr_take :: "token_bucket_ctr \<Rightarrow> int \<Rightarrow> token_bucket_ctr" where
  "ctr_take b n = snd (token_bucket_ctr_dec b n)"

interpretation rw_read: rate_limiter rw_at "\<lambda>b. bucket (read_bucket b)" "\<lambda>b. rate (rw_cfg b)"
  "\<lambda>b. burst (rw_cfg b)" rw_take_read rw_refill TICKS_PER_STEP
proof unfold_locales
  fix L b n
  assume "rw_at L b" "0 \<le> n" "n \<le> max 0 (bucket (read_bucket b))"
  then show "rw_at L (rw_take_read b n) \<and>
      bucket (read_bucket (rw_take_read b n)) = bucket (read_bucket b) - n \<and>
      rate (rw_cfg (rw_take_read b n)) = rate (rw_cfg b) \<and> burst (rw_cfg (rw_take_read b n)) = burst (rw_cfg b)"
    using raw_dec_ok [of "rw_cfg b" "read_bucket b" n]
    by (simp add: rw_take_read_def token_bucket_rw_dec_read_def rw_at_def rw_ok_def)
next
  fix L b T
  assume "rw_at L b" "L \<le> T"
  from rw_refill_ok [OF this] show "\<exists>b' L'. rw_refill b (to_u32 T) = Some b' \<and> rw_at L' b' \<and> L \<le> L' \<and> L' \<le> T \<and>
      bucket (read_bucket b) \<le> bucket (read_bucket b') \<and>
      bucket (read_bucket b') \<le> bucket (read_bucket b) + rate (rw_cfg b) * ((L' - L) div TICKS_PER_STEP) \<and>
      rate (rw_cfg b') = rate (rw_cfg b) \<and> burst (rw_cfg b') = burst (rw_cfg b)"
    by (auto simp: rw_refill_def)
qed (auto simp: rw_at_def rw_ok_def cfg_ok_def raw_ok_def TICKS_PER_STEP_def)

interpretation rw_write: rate_limiter rw_at "\<lambda>b. bucket (write_bucket b)" "\<lambda>b. rate (rw_cfg b)"
  "\<lambda>b. burst (rw_cfg b)" rw_take_write rw_refill TICKS_PER_STEP
proof unfold_locales
  fix L b n
  assume "rw_at L b" "0 \<le> n" "n \<le> max 0 (bucket (write_bucket b))"
  then show "rw_at L (rw_take_write b n) \<and>
      bucket (write_bucket (rw_take_write b n)) = bucket (write_bucket b) - n \<and>
      rate (rw_cfg (rw_take_write b n)) = rate (rw_cfg b) \<and> burst (rw_cfg (rw_take_write b n)) = burst (rw_cfg b)"
    using raw_dec_ok [of "rw_cfg b" "write_bucket b" n]
    by (simp add: rw_take_write_def token_bucket_rw_dec_write_def rw_at_def rw_ok_def)
next
  fix L b T
  assume "rw_at L b" "L \<le> T"
  from rw_refill_ok [OF this] show "\<exists>b' L'. rw_refill b (to_u32 T) = Some b' \<and> rw_at L' b' \<and> L \<le> L' \<and> L' \<le> T \<and>
      bucket (write_bucket b) \<le> bucket (write_bucket b') \<and>
      bucket (write_bucket b') \<le> bucket (write_bucket b) + rate (rw_cfg b) * ((L' - L) div TICKS_PER_STEP) \<and>
      rate (rw_cfg b') = rate (rw_cfg b) \<and> burst (rw_cfg b') = burst (rw_cfg b)"
    by (auto simp: rw_refill_def)
qed (auto simp: rw_at_def rw_ok_def cfg_ok_def raw_ok_def TICKS_PER_STEP_def)

lemma ctr_refill_ok:
  assumes "ctr_at L b" "L \<le> T"
  shows "\<exists>b'. token_bucket_ctr_refill b (to_u32 T) = Some b' \<and> ctr_at T b' \<and>
    ctr_cfg b' = ctr_cfg b \<and> bucket (counter b) \<le> bucket (counter b') \<and>
    bucket (counter b') \<le> bucket (counter b) + rate (ctr_cfg b) * (T - L)"
proof -
  define d where "d = to_u32 (to_u32 T - to_u32 L)"
  note d = elapsed_ticks [OF assms(2), folded d_def]
  have last: "ctr_last_refilled b = to_u32 L" and ok: "cfg_ok (ctr_cfg b)" "raw_ok (ctr_cfg b) (counter b)"
    using assms(1) by (simp_all add: ctr_at_def ctr_ok_def)
  from d ok(1) have le: "rate (ctr_cfg b) * d \<le> rate (ctr_cfg b) * (T - L)" "0 \<le> rate (ctr_cfg b) * d"
    by (auto intro!: mult_left_mono simp: cfg_ok_def)
  have "is_u32 d" by (simp add: d_def)
  note st = refill_steps_exact [OF ok d(2) this, folded refilled_def] and rd = refilled_ok [OF ok d(2)]
  show ?thesis
    using st rd le ok unfolding token_bucket_ctr_refill_def Let_def last d_def [symmetric]
    by (cases "d \<le> 4294967295 div 4") (auto simp: ctr_at_def ctr_ok_def)
qed

interpretation ctr: rate_limiter ctr_at "\<lambda>b. bucket (counter b)" "\<lambda>b. rate (ctr_cfg b)"
  "\<lambda>b. burst (ctr_cfg b)" ctr_take token_bucket_ctr_refill 1
proof unfold_locales
  fix L b n
  assume "ctr_at L b" "0 \<le> n" "n \<le> max 0 (bucket (counter b))"
  then show "ctr_at L (ctr_take b n) \<and> bucket (counter (ctr_take b n)) = bucket (counter b) - n \<and>
      rate (ctr_cfg (ctr_take b n)) = rate (ctr_cfg b) \<and> burst (ctr_cfg (ctr_take b n)) = burst (ctr_cfg b)"
    using raw_dec_ok [of "ctr_cfg b" "counter b" n]
    by (simp add: ctr_take_def token_bucket_ctr_dec_def ctr_at_def ctr_ok_def)
next
  fix L b T
  assume LT: "ctr_at L b" "L \<le> T"
  from ctr_refill_ok [OF this] LT(2) show "\<exists>b' L'. token_bucket_ctr_refill b (to_u32 T) = Some b' \<and> ctr_at L' b' \<and>
      L \<le> L' \<and> L' \<le> T \<and> bucket (counter b) \<le> bucket (counter b') \<and>
      bucket (counter b') \<le> bucket (counter b) + rate (ctr_cfg b) * ((L' - L) div 1) \<and>
      rate (ctr_cfg b') = rate (ctr_cfg b) \<and> burst (ctr_cfg b') = burst (ctr_cfg b)"
    by auto
qed (auto simp: ctr_at_def ctr_ok_def cfg_ok_def raw_ok_def)

subsection \<open>Properties\<close>

lemma token_bucket_rw_init_at:
  assumes "is_u32 r" "is_u32 bu"
  shows "rw_at T (token_bucket_rw_init r bu (to_u32 T))"
    "rw_cfg (token_bucket_rw_init r bu now) = \<lparr>rate = max 1 (r * 16 div 953), burst = min bu INT32_MAX\<rparr>"
    "bucket (read_bucket (token_bucket_rw_init r bu now)) = min bu INT32_MAX"
    "bucket (write_bucket (token_bucket_rw_init r bu now)) = min bu INT32_MAX"
proof -
  define st where "st = max 1 (r * 16 div 953)"
  have "r * 16 div 953 < 4294967296" using assms(1) by (simp add: is_u32_def int_div_less_iff)
  then have st: "0 < st" "is_u32 st" by (auto simp: st_def is_u32_def)
  have cfg: "token_bucket_cfg_init st bu = \<lparr>rate = st, burst = min bu INT32_MAX\<rparr>" for st
    using assms(2) by (auto simp: token_bucket_cfg_init_def Let_def TOKEN_BUCKET_MAX_BURST_def INT32_MAX_def is_int_defs)
  note ok = token_bucket_cfg_init_ok [OF st assms(2), unfolded cfg]
  note simps = token_bucket_rw_init_def token_bucket_rw_adjust_def token_bucket_rw_reset_def Let_def
    rate_per_step_eq [OF assms(1)] cfg token_bucket_raw_reset_def
  show "rw_cfg (token_bucket_rw_init r bu now) = \<lparr>rate = max 1 (r * 16 div 953), burst = min bu INT32_MAX\<rparr>"
    "bucket (read_bucket (token_bucket_rw_init r bu now)) = min bu INT32_MAX"
    "bucket (write_bucket (token_bucket_rw_init r bu now)) = min bu INT32_MAX"
    by (simp_all add: simps)
  show "rw_at T (token_bucket_rw_init r bu (to_u32 T))"
    using ok by (simp add: rw_at_def rw_ok_def raw_ok_def simps cfg_ok_def flip: st_def)
qed

text \<open>
  C8: the bandwidth limit holds. A client that starts with a fresh read/write bucket at clock
  tick \<open>t0\<close>, refills it at any later times and never takes more than the bucket reports, obtains
  by tick \<open>t_end\<close> at most the burst plus the per-step rate times the number of whole 16-tick steps
  since \<open>t0\<close>, in each direction. This holds across wrap-around of the 32-bit time stamp and
  across arbitrarily large clock jumps; no step fails, and the level stays between zero and the
  burst.
\<close>

theorem token_bucket_rw_rate_limit:
  assumes "is_u32 r" "is_u32 bu" "times_from t0 es t_end"
  defines "b \<equiv> token_bucket_rw_init r bu (to_u32 t0)"
    and "bound \<equiv> min bu INT32_MAX + max 1 (r * 16 div 953) * ((t_end - t0) div TICKS_PER_STEP)"
  shows "(\<exists>c b'. tb_run token_bucket_rw_get_read rw_take_read rw_refill b es = Some (c, b') \<and> c \<le> bound \<and>
            0 \<le> bucket (read_bucket b') \<and> bucket (read_bucket b') \<le> min bu INT32_MAX) \<and>
         (\<exists>c b'. tb_run token_bucket_rw_get_write rw_take_write rw_refill b es = Some (c, b') \<and> c \<le> bound \<and>
            0 \<le> bucket (write_bucket b') \<and> bucket (write_bucket b') \<le> min bu INT32_MAX)"
proof -
  note init = token_bucket_rw_init_at [OF assms(1,2)]
  have nn: "0 \<le> bu" "0 \<le> INT32_MAX" using assms(2) by (simp_all add: is_u32_def INT32_MAX_def)
  have get: "token_bucket_rw_get_read = (\<lambda>b. max 0 (bucket (read_bucket b)))"
    "token_bucket_rw_get_write = (\<lambda>b. max 0 (bucket (write_bucket b)))"
    by (auto simp: token_bucket_rw_get_read_def token_bucket_rw_get_write_def token_bucket_raw_get_def max_def)
  show ?thesis
    using rw_read.tb_run_bound [OF init(1) _ order_refl assms(3)] rw_write.tb_run_bound [OF init(1) _ order_refl assms(3)]
    unfolding get b_def bound_def by (simp add: init nn) blast
qed

theorem token_bucket_rw_rate_limit_witness:
  "\<exists>c b'. tb_run token_bucket_rw_get_read rw_take_read rw_refill
     (token_bucket_rw_init 1000000 5000 (to_u32 4294967290)) [Take 5000, Refill 4294967400, Take 9999999] = Some (c, b') \<and>
     c \<le> 5000 + 16789 * ((4294967500 - 4294967290) div TICKS_PER_STEP)"
  using token_bucket_rw_rate_limit [of 1000000 5000 4294967290
      "[Take 5000, Refill 4294967400, Take 9999999]" 4294967500]
  by (auto simp: is_u32_def INT32_MAX_def)

text \<open>
  A refill adds exactly \<open>rate\<close> tokens per whole elapsed step, capped at the burst, to both
  buckets, although the code computes in mixed 32- and 64-bit arithmetic; the returned flags
  report exactly the buckets that were empty and became nonempty. With less than one step
  elapsed nothing changes, not even the time of the last refill.
\<close>

theorem token_bucket_rw_refill_correct:
  assumes "rw_ok b" "rw_last_refilled b = to_u32 t" "t \<le> now" "now - t \<le> 1073741823"
  defines "e \<equiv> (now - t) div TICKS_PER_STEP"
    and "fill \<equiv> \<lambda>r. r\<lparr>bucket := min (burst (rw_cfg b)) (bucket r + rate (rw_cfg b) * ((now - t) div TICKS_PER_STEP))\<rparr>"
  shows "token_bucket_rw_refill b (to_u32 now) =
    (if e = 0 then Some (0, b)
     else Some ((if bucket (read_bucket b) \<le> 0 \<and> 0 < bucket (fill (read_bucket b)) then TB_READ else 0) +
                (if bucket (write_bucket b) \<le> 0 \<and> 0 < bucket (fill (write_bucket b)) then TB_WRITE else 0),
                b\<lparr>read_bucket := fill (read_bucket b), write_bucket := fill (write_bucket b),
                  rw_last_refilled := to_u32 now\<rparr>))"
proof -
  have "rw_at t b" using assms by (simp add: rw_at_def)
  moreover have "to_u32 (to_u32 now - to_u32 t) = now - t"
    using assms(3,4) by (simp add: to_u32_def mod_simps)
  ultimately show ?thesis
    using rw_refill_eq [of t b now] assms(3,4)
    by (simp add: rw_refilled_def refilled_def e_def fill_def)
qed

theorem token_bucket_rw_refill_correct_witness:
  "token_bucket_rw_refill
     \<lparr>rw_cfg = \<lparr>rate = 10, burst = 100\<rparr>, read_bucket = \<lparr>bucket = -5\<rparr>, write_bucket = \<lparr>bucket = 95\<rparr>,
      rw_last_refilled = 4294967295\<rparr> (to_u32 4294967330) =
   Some (TB_READ,
     \<lparr>rw_cfg = \<lparr>rate = 10, burst = 100\<rparr>, read_bucket = \<lparr>bucket = 15\<rparr>, write_bucket = \<lparr>bucket = 100\<rparr>,
      rw_last_refilled = 34\<rparr>)"
  using token_bucket_rw_refill_correct [of
      "\<lparr>rw_cfg = \<lparr>rate = 10, burst = 100\<rparr>, read_bucket = \<lparr>bucket = -5\<rparr>, write_bucket = \<lparr>bucket = 95\<rparr>,
        rw_last_refilled = 4294967295\<rparr>" 4294967295 4294967330]
  by (simp add: rw_ok_def cfg_ok_def raw_ok_def is_int_defs TICKS_PER_STEP_def to_u32_def)

text \<open>
  The counter bucket is limited in the same way, per second: from a fresh bucket at second
  \<open>t0\<close> a client obtains at most the burst plus \<open>rate\<close> times the seconds elapsed.
\<close>

theorem token_bucket_ctr_rate_limit:
  assumes "is_u32 r" "0 < r" "is_u32 bu" "times_from t0 es t_end"
  shows "\<exists>c b'. tb_run token_bucket_ctr_get ctr_take token_bucket_ctr_refill (token_bucket_ctr_init r bu (to_u32 t0)) es =
             Some (c, b') \<and> c \<le> min bu INT32_MAX + r * (t_end - t0) \<and>
           0 \<le> bucket (counter b') \<and> bucket (counter b') \<le> min bu INT32_MAX"
proof -
  define b where "b = token_bucket_ctr_init r bu (to_u32 t0)"
  have cfg: "token_bucket_cfg_init r bu = \<lparr>rate = r, burst = min bu INT32_MAX\<rparr>"
    using assms(3) by (auto simp: token_bucket_cfg_init_def Let_def TOKEN_BUCKET_MAX_BURST_def INT32_MAX_def is_int_defs)
  note ok = token_bucket_cfg_init_ok [OF assms(2,1,3), unfolded cfg]
  have b: "ctr_cfg b = \<lparr>rate = r, burst = min bu INT32_MAX\<rparr>" "bucket (counter b) = min bu INT32_MAX"
    "ctr_last_refilled b = to_u32 t0"
    by (simp_all add: b_def token_bucket_ctr_init_def token_bucket_ctr_adjust_def token_bucket_ctr_reset_def
        Let_def cfg token_bucket_raw_reset_def)
  have "ctr_at t0 b" using ok by (simp add: ctr_at_def ctr_ok_def raw_ok_def b cfg_ok_def)
  moreover have "0 \<le> bu" "0 \<le> INT32_MAX" using assms(3) by (simp_all add: is_u32_def INT32_MAX_def)
  moreover have "token_bucket_ctr_get = (\<lambda>b. max 0 (bucket (counter b)))"
    by (auto simp: token_bucket_ctr_get_def token_bucket_raw_get_def max_def)
  ultimately show ?thesis
    using ctr.tb_run_bound [OF _ _ order_refl assms(4), of b] unfolding b_def [symmetric] by (simp add: b) blast
qed

theorem token_bucket_ctr_rate_limit_witness:
  "\<exists>c b'. tb_run token_bucket_ctr_get ctr_take token_bucket_ctr_refill
     (token_bucket_ctr_init 3 10 (to_u32 100)) [Take 10, Refill 102, Take 50] = Some (c, b') \<and> c \<le> 10 + 3 * 2"
  using token_bucket_ctr_rate_limit [of 3 10 100 "[Take 10, Refill 102, Take 50]" 102]
  by (auto simp: is_u32_def INT32_MAX_def)

end
