(* ===== verification/Intmath.thy ===== *)
theory Intmath
  imports Prelude
begin

section \<open>Integer arithmetic, \<^verbatim>\<open>lib/intmath\<close>\<close>

text \<open>
  The arithmetic helpers of \<^verbatim>\<open>bits.c\<close>, \<^verbatim>\<open>muldiv.c\<close> and \<^verbatim>\<open>addsub.c\<close>, on machine words of the
  width the source uses. A failed \<open>raw_assert\<close> and a division by zero are \<open>None\<close>.
\<close>

subsection \<open>\<^verbatim>\<open>bits.c\<close>\<close>

definition log2_step :: "nat \<Rightarrow> u64 \<times> nat \<Rightarrow> u64 \<times> nat" where
  "log2_step k s = (case s of (u, r) \<Rightarrow> if push_bit k 1 \<le> u then (drop_bit k u, r + k) else (u, r))"

definition tor_log2 :: "u64 \<Rightarrow> nat" where
  "tor_log2 u =
     (let s = (u, 0);
          s = log2_step 32 s;
          s = log2_step 16 s;
          s = log2_step 8 s;
          s = log2_step 4 s;
          (u, r) = log2_step 2 s
      in if push_bit 1 1 \<le> u then r + 1 else r)"

definition round_to_power_of_2 :: "u64 \<Rightarrow> u64" where
  "round_to_power_of_2 u =
     (if u = 0 then 1
      else
        let lg2 = tor_log2 u;
            low = push_bit lg2 1
        in if lg2 = 63 then low
           else
             let high = push_bit (lg2 + 1) 1
             in if high - u < u - low then high else low)"

definition nybble_table :: "nat list" where
  "nybble_table = [0, 1, 1, 2, 1, 2, 2, 3, 1, 2, 2, 3, 2, 3, 3, 4]"

definition n_bits_set_u8 :: "u8 \<Rightarrow> nat" where
  "n_bits_set_u8 v = nybble_table ! unat (v AND 15) + nybble_table ! unat (drop_bit 4 v)"

subsection \<open>\<^verbatim>\<open>muldiv.c\<close> and \<^verbatim>\<open>addsub.c\<close>\<close>

definition round_to_next_multiple_of :: "u32 \<Rightarrow> u32 \<Rightarrow> u32 option" where
  "round_to_next_multiple_of number divisor =
     do {
       guard (0 < divisor);
       (if - 1 - divisor + 1 < number then Some (- 1)
        else
          do {
            let number = number + (divisor - 1);
            let number = number - number mod divisor;
            Some number
          })
     }"

definition round_uint32_to_next_multiple_of :: "u32 \<Rightarrow> u32 \<Rightarrow> u32 option" where
  "round_uint32_to_next_multiple_of number divisor =
     do {
       guard (0 < divisor);
       (if - 1 - divisor + 1 < number then Some (- 1)
        else
          do {
            let number = number + (divisor - 1);
            let number = number - number mod divisor;
            Some number
          })
     }"

definition round_uint64_to_next_multiple_of :: "u64 \<Rightarrow> u64 \<Rightarrow> u64 option" where
  "round_uint64_to_next_multiple_of number divisor =
     do {
       guard (0 < divisor);
       (if - 1 - divisor + 1 < number then Some (- 1)
        else
          do {
            let number = number + (divisor - 1);
            let number = number - number mod divisor;
            Some number
          })
     }"

function gcd64 :: "u64 \<Rightarrow> u64 \<Rightarrow> u64" where
  "gcd64 a b = (if b \<noteq> 0 then gcd64 b (a mod b) else a)"
  by pat_completeness auto
termination
  by (relation "measure (\<lambda>(a, b). unat b)") (simp_all add: unat_mod unat_gt_0)

definition tor_mul_u64_nowrap :: "u64 \<Rightarrow> u64 \<Rightarrow> u64" where
  "tor_mul_u64_nowrap a b =
     (if a = 0 \<or> b = 0 then 0
      else if - 1 div a < b then - 1
      else a * b)"

definition simplify_fraction64 :: "u64 \<Rightarrow> u64 \<Rightarrow> (u64 \<times> u64) option" where
  "simplify_fraction64 numer denom =
     (let g = gcd64 numer denom
      in if g = 0 then None else Some (numer div g, denom div g))"

definition tor_add_u32_nowrap :: "u32 \<Rightarrow> u32 \<Rightarrow> u32" where
  "tor_add_u32_nowrap a b = (if - 1 - b < a then - 1 else a + b)"

declare gcd64.simps [simp del]

subsection \<open>Logarithm and powers of two\<close>

lemma unat_push_bit_1: "k < 64 \<Longrightarrow> unat (push_bit k 1 :: u64) = 2 ^ k"
  unfolding unsigned_push_bit_eq by (simp add: take_bit_nat_eq_self push_bit_eq_mult)

lemma push_bit_1_le_iff: "k < 64 \<Longrightarrow> push_bit k 1 \<le> (u :: u64) \<longleftrightarrow> 2 ^ k \<le> unat u"
  unfolding word_le_nat_alt by (simp only: unat_push_bit_1)

lemma log2_step_eq:
  "k < 64 \<Longrightarrow> log2_step k (u, r) = (if 2 ^ k \<le> unat u then (drop_bit k u, r + k) else (u, r))"
  unfolding log2_step_def prod.case by (simp only: push_bit_1_le_iff)

lemma log2_step_inv:
  assumes "k < 64" "log2_step k (u, r) = (u', r')" "u \<noteq> 0"
    and "unat u < 2 ^ (2 * k)" "2 ^ r * unat u \<le> n" "n < 2 ^ r * (unat u + 1)"
  shows "u' \<noteq> 0 \<and> unat u' < 2 ^ k \<and> 2 ^ r' * unat u' \<le> n \<and> n < 2 ^ r' * (unat u' + 1)"
proof (cases "2 ^ k \<le> unat u")
  case True
  have "unat (drop_bit k u) = unat u div 2 ^ k"
    unfolding unat_drop_bit_eq by (rule drop_bit_eq_div)
  with True have u': "unat u' = unat u div 2 ^ k" "r' = r + k"
    using assms(1,2) by (auto simp: log2_step_eq)
  define q where "q = unat u div 2 ^ k"
  have q: "2 ^ k * q \<le> unat u" "unat u + 1 \<le> 2 ^ k * (q + 1)"
  proof -
    have "2 ^ k * q + unat u mod 2 ^ k = unat u" by (simp add: q_def)
    moreover have "unat u mod 2 ^ k < 2 ^ k" by simp
    ultimately show "2 ^ k * q \<le> unat u" "unat u + 1 \<le> 2 ^ k * (q + 1)"
      unfolding distrib_left by linarith+
  qed
  have "q < 2 ^ k"
    using assms(4) by (simp add: q_def less_mult_imp_div_less power2_eq_square power_mult mult_2 power_add)
  moreover have "0 < q" using True by (simp add: q_def div_greater_zero_iff)
  moreover have "2 ^ r' * q \<le> n"
    using le_trans [OF mult_le_mono2 [OF q(1), of "2 ^ r"] assms(5)] u' by (simp add: power_add mult.assoc)
  moreover have "n < 2 ^ r' * (q + 1)"
    using less_le_trans [OF assms(6) mult_le_mono2 [OF q(2), of "2 ^ r"]] u'
    by (simp add: power_add mult.assoc distrib_left)
  ultimately show ?thesis using u' by (auto simp: q_def unat_gt_0)
next
  case False
  with assms show ?thesis by (auto simp: log2_step_eq)
qed

lemma tor_log2_bounds:
  assumes "u \<noteq> 0"
  shows "2 ^ tor_log2 u \<le> unat u" "unat u < 2 ^ (tor_log2 u + 1)"
proof -
  obtain u1 r1 where 1: "log2_step 32 (u, 0) = (u1, r1)" by force
  obtain u2 r2 where 2: "log2_step 16 (u1, r1) = (u2, r2)" by force
  obtain u3 r3 where 3: "log2_step 8 (u2, r2) = (u3, r3)" by force
  obtain u4 r4 where 4: "log2_step 4 (u3, r3) = (u4, r4)" by force
  obtain u5 r5 where 5: "log2_step 2 (u4, r4) = (u5, r5)" by force
  have "u1 \<noteq> 0 \<and> unat u1 < 2 ^ 32 \<and> 2 ^ r1 * unat u1 \<le> unat u \<and> unat u < 2 ^ r1 * (unat u1 + 1)"
    using unsigned_less [of u] by (intro log2_step_inv [OF _ 1 assms]) simp_all
  then have "u2 \<noteq> 0 \<and> unat u2 < 2 ^ 16 \<and> 2 ^ r2 * unat u2 \<le> unat u \<and> unat u < 2 ^ r2 * (unat u2 + 1)"
    by (intro log2_step_inv [OF _ 2]) simp_all
  then have "u3 \<noteq> 0 \<and> unat u3 < 2 ^ 8 \<and> 2 ^ r3 * unat u3 \<le> unat u \<and> unat u < 2 ^ r3 * (unat u3 + 1)"
    by (intro log2_step_inv [OF _ 3]) simp_all
  then have "u4 \<noteq> 0 \<and> unat u4 < 2 ^ 4 \<and> 2 ^ r4 * unat u4 \<le> unat u \<and> unat u < 2 ^ r4 * (unat u4 + 1)"
    by (intro log2_step_inv [OF _ 4]) simp_all
  then have *: "u5 \<noteq> 0 \<and> unat u5 < 2 ^ 2 \<and> 2 ^ r5 * unat u5 \<le> unat u \<and> unat u < 2 ^ r5 * (unat u5 + 1)"
    by (intro log2_step_inv [OF _ 5]) simp_all
  have eq: "tor_log2 u = (if 2 \<le> unat u5 then r5 + 1 else r5)"
    using push_bit_1_le_iff [of 1 u5] by (simp add: tor_log2_def 1 2 3 4 5 Let_def)
  show "2 ^ tor_log2 u \<le> unat u"
  proof (cases "2 \<le> unat u5")
    case True
    then have "2 ^ r5 * 2 \<le> 2 ^ r5 * unat u5" by (intro mult_le_mono2)
    with * have "2 ^ r5 * 2 \<le> unat u" by linarith
    with True show ?thesis by (simp add: eq)
  next
    case False
    moreover from * have "unat u5 \<noteq> 0" by (simp add: unat_eq_0)
    ultimately have "unat u5 = 1" by simp
    with * False show ?thesis by (simp add: eq)
  qed
  show "unat u < 2 ^ (tor_log2 u + 1)"
  proof (cases "2 \<le> unat u5")
    case True
    from * have "2 ^ r5 * (unat u5 + 1) \<le> (2 ^ r5 * 4 :: nat)" by (intro mult_le_mono2) simp
    with * have "unat u < 2 ^ r5 * 4" by linarith
    with True show ?thesis by (simp add: eq)
  next
    case False
    then have "2 ^ r5 * (unat u5 + 1) \<le> (2 ^ r5 * 2 :: nat)" by (intro mult_le_mono2) simp
    with * have "unat u < 2 ^ r5 * 2" by linarith
    with False show ?thesis by (simp add: eq)
  qed
qed

lemma tor_log2_less: "u \<noteq> 0 \<Longrightarrow> tor_log2 u < 64"
proof (rule ccontr)
  assume "u \<noteq> 0" "\<not> tor_log2 u < 64"
  then have "(2 ^ 64 :: nat) \<le> 2 ^ tor_log2 u" by (intro power_increasing) auto
  with tor_log2_bounds(1) [OF \<open>u \<noteq> 0\<close>] unsigned_less [of u, where ?'a = nat] show False by simp
qed

lemma int_pow2_mono:
  "k < l \<Longrightarrow> (2 ^ k :: int) < 2 ^ l" "k \<le> l \<Longrightarrow> (2 ^ k :: int) \<le> 2 ^ l"
  by simp_all

lemma nearest_pow2:
  fixes n :: int
  assumes "2 ^ l \<le> n" "n < 2 ^ (l + 1)"
  shows "n - 2 ^ l \<le> 2 ^ (l + 1) - n \<Longrightarrow>
      \<bar>2 ^ l - n\<bar> < \<bar>2 ^ k - n\<bar> \<or> \<bar>2 ^ l - n\<bar> = \<bar>2 ^ k - n\<bar> \<and> l \<le> k"
    and "2 ^ (l + 1) - n < n - 2 ^ l \<Longrightarrow>
      \<bar>2 ^ (l + 1) - n\<bar> < \<bar>2 ^ k - n\<bar> \<or> \<bar>2 ^ (l + 1) - n\<bar> = \<bar>2 ^ k - n\<bar> \<and> l + 1 \<le> k"
proof -
  consider "k < l" | "k = l" | "k = l + 1" | "l + 1 < k" by linarith
  then have "(n - 2 ^ l \<le> 2 ^ (l + 1) - n \<longrightarrow>
      \<bar>2 ^ l - n\<bar> < \<bar>2 ^ k - n\<bar> \<or> \<bar>2 ^ l - n\<bar> = \<bar>2 ^ k - n\<bar> \<and> l \<le> k) \<and>
    (2 ^ (l + 1) - n < n - 2 ^ l \<longrightarrow>
      \<bar>2 ^ (l + 1) - n\<bar> < \<bar>2 ^ k - n\<bar> \<or> \<bar>2 ^ (l + 1) - n\<bar> = \<bar>2 ^ k - n\<bar> \<and> l + 1 \<le> k)"
  proof cases
    case 1
    from int_pow2_mono(1) [OF this] assms show ?thesis by linarith
  next
    case 4
    from int_pow2_mono(1) [OF this] assms 4 show ?thesis by linarith
  qed (use assms in auto)
  then show "n - 2 ^ l \<le> 2 ^ (l + 1) - n \<Longrightarrow>
      \<bar>2 ^ l - n\<bar> < \<bar>2 ^ k - n\<bar> \<or> \<bar>2 ^ l - n\<bar> = \<bar>2 ^ k - n\<bar> \<and> l \<le> k"
    "2 ^ (l + 1) - n < n - 2 ^ l \<Longrightarrow>
      \<bar>2 ^ (l + 1) - n\<bar> < \<bar>2 ^ k - n\<bar> \<or> \<bar>2 ^ (l + 1) - n\<bar> = \<bar>2 ^ k - n\<bar> \<and> l + 1 \<le> k"
    by blast+
qed

text \<open>
  \<open>round_to_power_of_2\<close> returns a power of two in the 64-bit range, no power of two of that
  range is closer to the argument, and of two equally close ones it takes the smaller.
\<close>

theorem round_to_power_of_2_nearest:
  "\<exists>l < 64. unat (round_to_power_of_2 u) = 2 ^ l \<and>
     (\<forall>k < 64. \<bar>2 ^ l - int (unat u)\<bar> < \<bar>2 ^ k - int (unat u)\<bar> \<or>
        \<bar>2 ^ l - int (unat u)\<bar> = \<bar>2 ^ k - int (unat u)\<bar> \<and> l \<le> k)"
proof (cases "u = 0")
  case True
  moreover have "(1 :: int) < 2 ^ k \<or> 1 = (2 ^ k :: int)" for k :: nat
    using one_le_power [of "2 :: int" k] by linarith
  ultimately show ?thesis by (intro exI [of _ 0]) (simp add: round_to_power_of_2_def)
next
  case False
  define l where "l = tor_log2 u"
  define n where "n = int (unat u)"
  have l: "l < 64" by (simp add: l_def tor_log2_less [OF False])
  have b: "2 ^ l \<le> unat u" "unat u < 2 ^ (l + 1)" using tor_log2_bounds [OF False] by (simp_all add: l_def)
  then have "int (2 ^ l) \<le> n" "n < int (2 ^ (l + 1))" unfolding n_def of_nat_le_iff of_nat_less_iff by blast+
  then have bn: "2 ^ l \<le> n" "n < 2 ^ (l + 1)" by simp_all
  show ?thesis
  proof (cases "l = 63")
    case True
    have "\<bar>2 ^ l - n\<bar> < \<bar>2 ^ k - n\<bar> \<or> \<bar>2 ^ l - n\<bar> = \<bar>2 ^ k - n\<bar> \<and> l \<le> k" if "k < 64" for k
    proof (cases "k = l")
      case False
      with that True have "k < l" by simp
      from int_pow2_mono(1) [OF this] bn show ?thesis by linarith
    qed simp
    moreover have "round_to_power_of_2 u = push_bit l 1"
      using False True by (simp add: round_to_power_of_2_def flip: l_def)
    ultimately show ?thesis
      using l unat_push_bit_1 [OF l] unfolding n_def [symmetric] by (intro exI [of _ l]) simp
  next
    case neq: False
    then have hl: "l + 1 < 64" using l by simp
    define low high where "low = (push_bit l 1 :: u64)" and "high = (push_bit (l + 1) 1 :: u64)"
    have low: "unat low = 2 ^ l" "unat high = 2 ^ (l + 1)"
      using unat_push_bit_1 [OF l] unat_push_bit_1 [OF hl] by (simp_all add: low_def high_def)
    have eq: "round_to_power_of_2 u = (if high - u < u - low then high else low)"
      using False neq by (simp add: round_to_power_of_2_def Let_def low_def high_def flip: l_def)
    have "unat (high - u) = 2 ^ (l + 1) - unat u" "unat (u - low) = unat u - 2 ^ l"
      using b low by (simp_all add: unat_sub_if')
    then have cond: "high - u < u - low \<longleftrightarrow> 2 ^ (l + 1) - n < n - 2 ^ l"
      using b unfolding n_def word_less_nat_alt by (simp add: of_nat_diff nat_int_comparison)
    show ?thesis
    proof (cases "high - u < u - low")
      case True
      with nearest_pow2(2) [OF bn] cond low eq hl show ?thesis
        unfolding n_def [symmetric] by (intro exI [of _ "l + 1"]) simp
    next
      case False
      then have "n - 2 ^ l \<le> 2 ^ (l + 1) - n" using cond by simp
      with nearest_pow2(1) [OF bn] low eq l False show ?thesis
        unfolding n_def [symmetric] by (intro exI [of _ l]) simp
    qed
  qed
qed

theorem round_to_power_of_2_nearest_witness:
  "\<exists>l < 64. unat (round_to_power_of_2 6) = 2 ^ l \<and> \<bar>2 ^ l - (6 :: int)\<bar> \<le> \<bar>2 ^ 3 - 6\<bar>"
proof -
  from round_to_power_of_2_nearest [of 6] obtain l where l: "l < 64" "unat (round_to_power_of_2 6) = 2 ^ l"
    "\<bar>2 ^ l - (6 :: int)\<bar> < \<bar>2 ^ 3 - 6\<bar> \<or> \<bar>2 ^ l - (6 :: int)\<bar> = \<bar>2 ^ 3 - 6\<bar> \<and> l \<le> 3"
    by (auto dest: spec [of _ 3])
  then show ?thesis by (intro exI [of _ l]) linarith
qed

lemma nybble_table_all:
  "list_all (\<lambda>n. nybble_table ! n = length (filter (bit (word_of_nat n :: u8)) [0..<4])) [0..<16]"
  by code_simp

lemma nybble_table_eq:
  assumes "unat w < 16"
  shows "nybble_table ! unat w = length (filter (bit (w :: u8)) [0..<4])"
proof -
  from assms nybble_table_all have
    "nybble_table ! unat w = length (filter (bit (word_of_nat (unat w) :: u8)) [0..<4])"
    unfolding list_all_iff by fastforce
  then show ?thesis by simp
qed

text \<open>The table lookup counts the bits.\<close>

lemma n_bits_set_u8_eq: "n_bits_set_u8 v = length (filter (bit v) [0..<8])"
proof -
  have "unat (v AND 15) \<le> unat (15 :: u8)" unfolding word_le_nat_alt [symmetric] by (rule word_and_le1)
  then have "unat (v AND 15) < 16" by simp
  moreover have "unat (drop_bit 4 v) = unat v div 2 ^ 4" unfolding unat_drop_bit_eq by (rule drop_bit_eq_div)
  then have "unat (drop_bit 4 v) < 16"
    using unsigned_less [of v, where ?'a = nat] by (simp add: less_mult_imp_div_less)
  moreover have "bit (15 :: u8) i \<longleftrightarrow> i < 4" for i
    using bit_mask_iff [of 4 i, where 'a = u8] by (auto simp: mask_eq_exp_minus_1)
  ultimately show ?thesis
    by (simp add: n_bits_set_u8_def nybble_table_eq bit_and_iff bit_drop_bit_eq upt_rec numeral_eq_Suc)
qed

subsection \<open>Rounding to multiples\<close>

lemma unat_minus: "d \<noteq> 0 \<Longrightarrow> unat (- d) = 2 ^ LENGTH('a) - unat d" for d :: "'a::len word"
  using unat_sub_if' [of 0 d] by (simp add: unat_eq_0)

lemma round_word_eq:
  fixes n d :: "'a::len word"
  assumes "d \<noteq> 0" "\<not> - d < n"
  shows "unat (n + (d - 1) - (n + (d - 1)) mod d) = (unat n + (unat d - 1)) div unat d * unat d"
proof -
  from assms have "unat n \<le> 2 ^ LENGTH('a) - unat d" by (simp add: word_less_nat_alt unat_minus)
  moreover have pos: "0 < unat d" "unat d \<le> 2 ^ LENGTH('a)"
    using assms(1) less_imp_le [OF unsigned_less [of d, where ?'a = nat]] by (simp_all add: unat_gt_0)
  ultimately have "unat (n + (d - 1)) = unat n + (unat d - 1)"
    using assms(1) by (simp add: unat_word_ariths unat_minus_one)
  moreover have "unat (x - x mod d) = unat x - unat x mod unat d" for x :: "'a word"
    by (simp add: unat_sub_if' unat_mod)
  ultimately show ?thesis by (simp add: minus_mod_eq_div_mult)
qed

definition least_multiple :: "nat \<Rightarrow> nat \<Rightarrow> nat" where
  "least_multiple n d = (n + (d - 1)) div d * d"

lemma least_multiple:
  assumes "0 < d"
  shows "d dvd least_multiple n d" "n \<le> least_multiple n d" "d dvd m \<Longrightarrow> n \<le> m \<Longrightarrow> least_multiple n d \<le> m"
proof -
  show "d dvd least_multiple n d" by (simp add: least_multiple_def)
  have "(n + (d - 1)) div d * d + (n + (d - 1)) mod d = n + (d - 1)" "(n + (d - 1)) mod d < d"
    using assms by simp_all
  then show "n \<le> least_multiple n d" unfolding least_multiple_def by linarith
  assume "d dvd m" "n \<le> m"
  then obtain q where q: "m = q * d" by (auto simp: dvd_def mult.commute)
  with \<open>n \<le> m\<close> assms have "n + (d - 1) < (q + 1) * d" by (simp add: algebra_simps)
  then have "(n + (d - 1)) div d < q + 1" by (rule less_mult_imp_div_less)
  then have "(n + (d - 1)) div d \<le> q" by simp
  then show "least_multiple n d \<le> m" unfolding least_multiple_def q by (rule mult_le_mono1)
qed

lemma round_fits_iff:
  "0 < d \<Longrightarrow> \<not> - d < n \<longleftrightarrow> unat n + unat d \<le> 2 ^ LENGTH('a)" for n d :: "'a::len word"
  using less_imp_le [OF unsigned_less [of d, where ?'a = nat]]
  by (auto simp: word_less_nat_alt unat_minus unat_gt_0 not_less)

lemma Least_multiple:
  assumes "0 < d"
  shows "(LEAST m. d dvd m \<and> n \<le> m) = least_multiple n d"
  by (intro Least_equality) (use least_multiple [OF assms] in auto)

lemma round_word_cases:
  fixes n d :: "'a::len word"
  assumes "d \<noteq> 0"
  shows "unat (if - 1 - d + 1 < n then - 1 else n + (d - 1) - (n + (d - 1)) mod d) =
    (if unat n + unat d \<le> 2 ^ LENGTH('a) then LEAST m. unat d dvd m \<and> unat n \<le> m else 2 ^ LENGTH('a) - 1)"
proof (cases "- d < n")
  case True
  then show ?thesis
    using round_fits_iff [of d n] assms by (simp add: word_gt_0 unsigned_minus_1_eq_mask mask_eq_exp_minus_1)
next
  case False
  then show ?thesis
    using round_fits_iff [of d n] round_word_eq [OF assms False] Least_multiple [of "unat d" "unat n"] assms
    by (simp add: word_gt_0 unat_gt_0 least_multiple_def)
qed

lemma round_word_promise:
  fixes n d :: "'a::len word"
  assumes "d \<noteq> 0" and w: "LENGTH('a) = w"
  defines "x \<equiv> unat (if - 1 - d + 1 < n then - 1 else n + (d - 1) - (n + (d - 1)) mod d)"
    and "m \<equiv> LEAST m. unat d dvd m \<and> unat n \<le> m"
  shows "x = (if unat n + unat d \<le> 2 ^ w then m else 2 ^ w - 1) \<and>
    (x = (if m < 2 ^ w then m else 2 ^ w - 1) \<longleftrightarrow> unat n + unat d \<le> 2 ^ w \<or> 2 ^ w - 1 \<le> m)"
proof -
  have x: "x = (if unat n + unat d \<le> 2 ^ LENGTH('a) then m else 2 ^ LENGTH('a) - 1)"
    unfolding x_def m_def by (rule round_word_cases [OF assms(1)])
  moreover have "x < 2 ^ LENGTH('a)" unfolding x_def by (rule unsigned_less)
  ultimately show ?thesis unfolding w by (auto split: if_splits)
qed

text \<open>
  C35: rounding up to a multiple, for every number and divisor of the type. A zero divisor is an assertion
  failure. Otherwise the functions return, for a number and divisor whose sum is at most two to the width of
  the type, the least multiple of the divisor that is at least the number, and for every other the greatest
  value of the type. That is what the comments promise, the least such multiple if it fits the type and the
  greatest value if it does not, exactly when that sum is within the bound or the least multiple is
  not below the greatest value: the functions give up although some multiples fit.
\<close>

theorem round_to_next_multiple_of_correct:
  "(if d = 0 then round_to_next_multiple_of n d = None \<and> round_uint32_to_next_multiple_of n d = None
    else \<exists>x. round_to_next_multiple_of n d = Some x \<and> round_uint32_to_next_multiple_of n d = Some x \<and>
      (let m = LEAST m. unat d dvd m \<and> unat n \<le> m
       in unat x = (if unat n + unat d \<le> 2 ^ 32 then m else 2 ^ 32 - 1) \<and>
          (unat x = (if m < 2 ^ 32 then m else 2 ^ 32 - 1) \<longleftrightarrow> unat n + unat d \<le> 2 ^ 32 \<or> 2 ^ 32 - 1 \<le> m))) \<and>
   (if e = 0 then round_uint64_to_next_multiple_of k e = None
    else \<exists>x. round_uint64_to_next_multiple_of k e = Some x \<and>
      (let m = LEAST m. unat e dvd m \<and> unat k \<le> m
       in unat x = (if unat k + unat e \<le> 2 ^ 64 then m else 2 ^ 64 - 1) \<and>
          (unat x = (if m < 2 ^ 64 then m else 2 ^ 64 - 1) \<longleftrightarrow> unat k + unat e \<le> 2 ^ 64 \<or> 2 ^ 64 - 1 \<le> m)))"
proof (intro conjI)
  have r: "round_to_next_multiple_of n d = (if d = 0 then None else Some (if - 1 - d + 1 < n then - 1 else n + (d - 1) - (n + (d - 1)) mod d))"
    "round_uint32_to_next_multiple_of n d = round_to_next_multiple_of n d" for n d
    by (simp_all add: round_to_next_multiple_of_def round_uint32_to_next_multiple_of_def Let_def word_gt_0)
  have r64: "round_uint64_to_next_multiple_of k e = (if e = 0 then None else Some (if - 1 - e + 1 < k then - 1 else k + (e - 1) - (k + (e - 1)) mod e))"
    by (simp add: round_uint64_to_next_multiple_of_def Let_def word_gt_0)
  show "if d = 0 then round_to_next_multiple_of n d = None \<and> round_uint32_to_next_multiple_of n d = None
    else \<exists>x. round_to_next_multiple_of n d = Some x \<and> round_uint32_to_next_multiple_of n d = Some x \<and>
      (let m = LEAST m. unat d dvd m \<and> unat n \<le> m
       in unat x = (if unat n + unat d \<le> 2 ^ 32 then m else 2 ^ 32 - 1) \<and>
          (unat x = (if m < 2 ^ 32 then m else 2 ^ 32 - 1) \<longleftrightarrow> unat n + unat d \<le> 2 ^ 32 \<or> 2 ^ 32 - 1 \<le> m))"
  proof (cases "d = 0")
    case False
    then show ?thesis unfolding r Let_def
      by (simp only: if_False option.inject simp_thms) (rule round_word_promise, simp_all)
  qed (simp add: r)
  show "if e = 0 then round_uint64_to_next_multiple_of k e = None
    else \<exists>x. round_uint64_to_next_multiple_of k e = Some x \<and>
      (let m = LEAST m. unat e dvd m \<and> unat k \<le> m
       in unat x = (if unat k + unat e \<le> 2 ^ 64 then m else 2 ^ 64 - 1) \<and>
          (unat x = (if m < 2 ^ 64 then m else 2 ^ 64 - 1) \<longleftrightarrow> unat k + unat e \<le> 2 ^ 64 \<or> 2 ^ 64 - 1 \<le> m))"
  proof (cases "e = 0")
    case False
    then show ?thesis unfolding r64 Let_def
      by (simp only: if_False option.inject simp_thms) (rule round_word_promise, simp_all)
  qed (use r64 in simp)
qed

subsection \<open>Fractions and saturation\<close>

lemma gcd64_eq: "unat (gcd64 a b) = gcd (unat a) (unat b)"
proof (induction a b rule: gcd64.induct)
  case (1 a b)
  show ?case
  proof (cases "b = 0")
    case False
    with 1 have "unat (gcd64 b (a mod b)) = gcd (unat b) (unat a mod unat b)" by (simp add: unat_mod)
    with False show ?thesis
      using gcd_red_nat [of "unat a" "unat b"] by (subst gcd64.simps) simp
  qed (simp add: gcd64.simps)
qed

text \<open>
  \<open>simplify_fraction64\<close> returns for every fraction except zero over zero; the result is the
  same fraction in lowest terms.
\<close>

theorem simplify_fraction64_correct:
  assumes "numer \<noteq> 0 \<or> denom \<noteq> 0"
  shows "\<exists>n d. simplify_fraction64 numer denom = Some (n, d) \<and> coprime (unat n) (unat d) \<and>
           unat n * unat denom = unat numer * unat d \<and> unat n \<le> unat numer \<and> unat d \<le> unat denom"
proof -
  define g where "g = gcd64 numer denom"
  have g: "unat g = gcd (unat numer) (unat denom)" by (simp add: g_def gcd64_eq)
  with assms have "unat g \<noteq> 0" by (auto simp: unat_eq_0)
  then have "g \<noteq> 0" by auto
  obtain a b where ab: "unat numer = a * unat g" "unat denom = b * unat g" "coprime a b"
    using gcd_coprime_exists [of "unat numer" "unat denom", folded g] \<open>unat g \<noteq> 0\<close> by blast
  with \<open>unat g \<noteq> 0\<close> have "unat (numer div g) = a" "unat (denom div g) = b" by (simp_all add: unat_div)
  moreover have "simplify_fraction64 numer denom = Some (numer div g, denom div g)"
    using \<open>g \<noteq> 0\<close> by (simp add: simplify_fraction64_def g_def Let_def)
  moreover have "a * (b * unat g) = a * unat g * b" "a \<le> a * unat g" "b \<le> b * unat g"
    using \<open>unat g \<noteq> 0\<close> by simp_all
  ultimately show ?thesis unfolding ab(1,2) using ab(3) by blast
qed

theorem simplify_fraction64_correct_witness:
  "\<exists>n d. simplify_fraction64 84 36 = Some (n, d) \<and> coprime (unat n) (unat d) \<and>
     unat n * unat (36 :: u64) = unat (84 :: u64) * unat d"
  using simplify_fraction64_correct [of 84 36] by auto

lemma tor_add_u32_nowrap_eq: "unat (tor_add_u32_nowrap a b) = min (unat a + unat b) (2 ^ 32 - 1)"
proof -
  have m: "unat (- 1 - b) = 2 ^ 32 - 1 - unat b"
    using unsigned_less [of b, where ?'a = nat] by (simp add: unat_sub_if' unsigned_minus_1_eq_mask mask_eq_exp_minus_1)
  show ?thesis
    using unsigned_less [of b, where ?'a = nat]
    by (simp add: tor_add_u32_nowrap_def word_less_nat_alt m unat_word_ariths unsigned_minus_1_eq_mask
        mask_eq_exp_minus_1 min_def) linarith
qed

text \<open>
  \<open>tor_mul_u64_nowrap\<close> and \<open>tor_add_u32_nowrap\<close> are exact when the result fits the type and
  otherwise give its maximum.
\<close>

theorem nowrap_saturate:
  "unat (tor_mul_u64_nowrap a b) = min (unat a * unat b) (2 ^ 64 - 1) \<and>
   unat (tor_add_u32_nowrap c d) = min (unat c + unat d) (2 ^ 32 - 1)"
proof -
  have max: "unat (- 1 :: u64) = 2 ^ 64 - 1" by (simp add: unsigned_minus_1_eq_mask mask_eq_exp_minus_1)
  have "unat (tor_mul_u64_nowrap a b) = min (unat a * unat b) (2 ^ 64 - 1)" if "a \<noteq> 0" "b \<noteq> 0"
  proof -
    from that have pos: "0 < unat a" by (simp add: unat_gt_0)
    have "- 1 div a < b \<longleftrightarrow> 2 ^ 64 - 1 < unat b * unat a"
      unfolding word_less_nat_alt unat_div max using pos by (simp add: div_less_iff_less_mult)
    then show ?thesis
      using that max by (auto simp: tor_mul_u64_nowrap_def unat_word_ariths mult.commute min_def)
  qed
  moreover have "unat (tor_mul_u64_nowrap a b) = 0" if "a = 0 \<or> b = 0"
    using that by (auto simp: tor_mul_u64_nowrap_def)
  ultimately show ?thesis
    using tor_add_u32_nowrap_eq by (cases "a = 0 \<or> b = 0") auto
qed

end
