(* ===== verification/Binascii.thy ===== *)
theory Binascii
  imports Prelude
begin

section \<open>Base 16, \<^verbatim>\<open>lib/encoding/binascii.c\<close>\<close>

text \<open>
  A buffer is a list of bytes whose length is the size the caller passes, and a write outside it
  is \<open>None\<close>. An encoder returns the new contents of the destination, a decoder also its \<open>int\<close>
  result, \<open>-1\<close> on failure. The source bytes are the whole list given. This theory holds the
  shared facts on sequential writes and the base 16 functions.
\<close>

definition bytes_of :: "string \<Rightarrow> byte list" where
  "bytes_of s = map of_char s"

definition BASE16_LEN :: "nat \<Rightarrow> nat" where
  "BASE16_LEN n = n * 2"

definition BASE16_BUFSIZE :: "nat \<Rightarrow> nat" where
  "BASE16_BUFSIZE n = BASE16_LEN n + 1"

definition hex_digits :: "byte list" where
  "hex_digits = bytes_of ''0123456789ABCDEF''"

fun base16_encode_loop :: "byte list \<Rightarrow> nat \<Rightarrow> byte list \<Rightarrow> (byte list \<times> nat) option" where
  "base16_encode_loop dest cp [] = Some (dest, cp)"
| "base16_encode_loop dest cp (x # src) =
     do {
       c1 \<leftarrow> arr_get hex_digits (unat (drop_bit 4 x));
       dest \<leftarrow> arr_set dest cp c1;
       c2 \<leftarrow> arr_get hex_digits (unat (x AND 0xf));
       dest \<leftarrow> arr_set dest (cp + 1) c2;
       base16_encode_loop dest (cp + 2) src
     }"

definition base16_encode :: "byte list \<Rightarrow> byte list \<Rightarrow> byte list option" where
  "base16_encode dest src =
     do {
       guard (length src < SIZE_T_CEILING div 2 - 1);
       guard (BASE16_BUFSIZE (length src) \<le> length dest);
       guard (length dest < SIZE_T_CEILING);
       dest \<leftarrow> arr_fill dest 0 (length dest) 0;
       (dest, cp) \<leftarrow> base16_encode_loop dest 0 src;
       arr_set dest cp 0
     }"

text \<open>The \<open>switch\<close> of \<open>hex_decode_digit\<close>, in \<^verbatim>\<open>lib/string/compat_ctype.h\<close>.\<close>

definition hex_decode_digit :: "byte \<Rightarrow> int" where
  "hex_decode_digit c =
     (if c = 48 then 0 else if c = 49 then 1 else if c = 50 then 2 else if c = 51 then 3
      else if c = 52 then 4 else if c = 53 then 5 else if c = 54 then 6 else if c = 55 then 7
      else if c = 56 then 8 else if c = 57 then 9
      else if c = 65 \<or> c = 97 then 10 else if c = 66 \<or> c = 98 then 11
      else if c = 67 \<or> c = 99 then 12 else if c = 68 \<or> c = 100 then 13
      else if c = 69 \<or> c = 101 then 14 else if c = 70 \<or> c = 102 then 15
      else -1)"

text \<open>The length of the input is even when the loop starts; a single left-over byte is a bad read.\<close>

fun base16_decode_loop :: "byte list \<Rightarrow> nat \<Rightarrow> byte list \<Rightarrow> (byte list \<times> int) option" where
  "base16_decode_loop dest di [] = Some (dest, int di)"
| "base16_decode_loop dest di [x] = None"
| "base16_decode_loop dest di (x # y # src) =
     do {
       let v1 = hex_decode_digit x;
       let v2 = hex_decode_digit y;
       (if v1 < 0 \<or> v2 < 0 then Some (dest, -1)
        else
          do {
            dest \<leftarrow> arr_set dest di (word_of_int (push_bit 4 v1 OR v2));
            base16_decode_loop dest (di + 1) src
          })
     }"

definition base16_decode :: "byte list \<Rightarrow> byte list \<Rightarrow> (byte list \<times> int) option" where
  "base16_decode dest src =
     (if length src mod 2 \<noteq> 0 then Some (dest, -1)
      else if length dest < length src div 2 \<or> INT_MAX < int (length dest) then Some (dest, -1)
      else
        do {
          dest \<leftarrow> arr_fill dest 0 (length dest) 0;
          (dest, r) \<leftarrow> base16_decode_loop dest 0 src;
          guard (r \<le> int (length dest));
          Some (dest, r)
        })"

text \<open>\<open>hex_str\<close> writes to a static buffer of 65 bytes, which is the argument here.\<close>

definition hex_str :: "byte list \<Rightarrow> byte list \<Rightarrow> byte list option" where
  "hex_str buf from =
     do {
       guard (length buf = 65);
       let fromlen = (if (65 - 1) div 2 < length from then (65 - 1) div 2 else length from);
       base16_encode buf (take fromlen from)
     }"

subsection \<open>Sequential writes\<close>

lemma arr_set_append [simp]: "arr_set (pre @ r # rest) (length pre) v = Some (pre @ v # rest)"
  by (simp add: arr_set_def)

lemma arr_set_append_Cons: "arr_set (pre @ r # rest) (length pre) v = Some ((pre @ [v]) @ rest)"
  by simp

lemma arr_fill_all: "arr_fill xs 0 (length xs) v = Some (replicate (length xs) v)"
  by (simp add: arr_fill_def arr_blit_def)

lemma drop_replicate_Cons:
  "n < m \<Longrightarrow> replicate m v = replicate n v @ v # replicate (m - n - 1) v"
  by (simp add: replicate_app_Cons_same flip: replicate_add replicate_Suc)

subsection \<open>Base 16\<close>

definition hex_of_byte :: "byte \<Rightarrow> byte list" where
  "hex_of_byte x = [hex_digits ! unat (drop_bit 4 x), hex_digits ! unat (x AND 0xf)]"

definition hex_of_bytes :: "byte list \<Rightarrow> byte list" where
  "hex_of_bytes xs = concat (map hex_of_byte xs)"

lemma hex_of_bytes_simps [simp]:
  "hex_of_bytes [] = []" "hex_of_bytes (x # xs) = hex_of_byte x @ hex_of_bytes xs"
  by (simp_all add: hex_of_bytes_def)

lemma length_hex_of_byte [simp]: "length (hex_of_byte x) = 2"
  by (simp add: hex_of_byte_def)

lemma length_hex_of_bytes [simp]: "length (hex_of_bytes xs) = 2 * length xs"
  by (induction xs) auto

lemma nibble_bounds: "unat (drop_bit 4 (x :: byte)) < 16" "unat (x AND 0xf) < 16"
proof -
  have "unat (drop_bit 4 x) = unat x div 2 ^ 4" unfolding unat_drop_bit_eq by (rule drop_bit_eq_div)
  then show "unat (drop_bit 4 x) < 16"
    using unsigned_less [of x, where ?'a = nat] by (simp add: less_mult_imp_div_less)
  have "unat (x AND 15) \<le> unat (15 :: byte)" unfolding word_le_nat_alt [symmetric] by (rule word_and_le1)
  then show "unat (x AND 0xf) < 16" by simp
qed

lemma length_hex_digits [simp]: "length hex_digits = 16"
  by (simp add: hex_digits_def bytes_of_def)

lemma base16_encode_loop_eq:
  "2 * length src \<le> length rest \<Longrightarrow>
     base16_encode_loop (pre @ rest) (length pre) src =
       Some (pre @ hex_of_bytes src @ drop (2 * length src) rest, length pre + 2 * length src)"
proof (induction src arbitrary: pre rest)
  case (Cons x src)
  from Cons.prems obtain r1 r2 rest' where rest: "rest = r1 # r2 # rest'"
    by (cases rest; cases "tl rest") auto
  have "arr_set (pre @ c1 # r2 # rest') (length pre + 1) c2 = Some (pre @ c1 # c2 # rest')" for c1 c2
    using arr_set_append [of "pre @ [c1]" r2 rest' c2] by simp
  with Cons.IH [of rest' "pre @ hex_of_byte x"] Cons.prems rest show ?case
    by (simp add: arr_get_in nibble_bounds hex_of_byte_def)
qed simp

lemma base16_encode_eq:
  assumes "length src < SIZE_T_CEILING div 2 - 1" "2 * length src < length dest" "length dest < SIZE_T_CEILING"
  shows "base16_encode dest src = Some (hex_of_bytes src @ replicate (length dest - 2 * length src) 0)"
proof -
  define n where "n = length dest - 2 * length src - 1"
  then have n: "length dest - 2 * length src = Suc n" using assms(2) by simp
  have "base16_encode_loop (replicate (length dest) 0) 0 src =
      Some (hex_of_bytes src @ 0 # replicate n 0, 2 * length src)"
    using base16_encode_loop_eq [of src "replicate (length dest) 0" "[]"] assms(2) n by simp
  moreover have "arr_set (hex_of_bytes src @ 0 # replicate n 0) (2 * length src) 0 =
      Some (hex_of_bytes src @ 0 # replicate n 0)"
    using arr_set_append [of "hex_of_bytes src"] by simp
  ultimately show ?thesis
    using assms n by (simp add: base16_encode_def BASE16_BUFSIZE_def BASE16_LEN_def arr_fill_all)
qed

lemma hex_decode_digits_all:
  "list_all (\<lambda>n. hex_decode_digit (hex_digits ! n) = int n) [0..<16]"
  by code_simp

lemma hex_decode_digit_nth: "n < 16 \<Longrightarrow> hex_decode_digit (hex_digits ! n) = int n"
  using hex_decode_digits_all unfolding list_all_iff by fastforce

lemma bit_0xf: "bit (0xf :: byte) i \<longleftrightarrow> i < 4" "bit (0xf :: int) i \<longleftrightarrow> i < 4"
  using bit_mask_iff [of 4 i, where 'a = byte] bit_mask_iff [of 4 i, where 'a = int]
  by (auto simp: mask_eq_exp_minus_1)

lemma byte_nibbles: "word_of_int (push_bit 4 (int (unat (drop_bit 4 x))) OR int (unat (x AND 0xf))) = (x :: byte)"
proof (rule bit_word_eqI)
  fix i
  assume "i < LENGTH(8)"
  then show "bit (word_of_int (push_bit 4 (int (unat (drop_bit 4 x))) OR int (unat (x AND 0xf))) :: byte) i \<longleftrightarrow> bit x i"
    by (auto simp: bit_simps bit_0xf)
qed

lemma base16_decode_loop_hex:
  "length src \<le> length rest \<Longrightarrow>
     base16_decode_loop (pre @ rest) (length pre) (hex_of_bytes src) =
       Some (pre @ src @ drop (length src) rest, int (length pre + length src))"
proof (induction src arbitrary: pre rest)
  case (Cons x src)
  from Cons.prems obtain r rest' where rest: "rest = r # rest'" by (cases rest) auto
  with Cons.IH [of rest' "pre @ [x]"] Cons.prems show ?case
    by (simp add: hex_of_byte_def hex_decode_digit_nth nibble_bounds byte_nibbles [simplified])
qed simp

lemma hex_digits_nonzero: "0 \<notin> set hex_digits"
  by (simp add: hex_digits_def bytes_of_def)

lemma hex_of_bytes_nonzero: "0 \<notin> set (hex_of_bytes xs)"
proof (induction xs)
  case (Cons x xs)
  then show ?case
    using hex_digits_nonzero nth_mem [of _ hex_digits] nibble_bounds [of x]
    by (auto simp: hex_of_byte_def) (metis length_hex_digits nth_mem)+
qed simp

lemma base16_decode_hex:
  assumes "length src \<le> length dest" "int (length dest) \<le> INT_MAX"
  shows "base16_decode dest (hex_of_bytes src) =
           Some (src @ replicate (length dest - length src) 0, int (length src))"
  using assms base16_decode_loop_hex [of src "replicate (length dest) 0" "[]"]
  by (simp add: base16_decode_def arr_fill_all)

text \<open>
  Base 16 round trip. A byte string encoded into a large enough buffer yields its two
  hexadecimal digits per byte followed by zero bytes only, so the text is NUL-terminated and no
  old data stays in the buffer; decoding that text into any buffer of sufficient size returns the
  number of bytes and restores them.
\<close>

theorem base16_roundtrip:
  assumes "length src < SIZE_T_CEILING div 2 - 1" "2 * length src < length dest" "length dest < SIZE_T_CEILING"
    and "length src \<le> length dest2" "int (length dest2) \<le> INT_MAX"
  shows "\<exists>t. base16_encode dest src = Some (t @ replicate (length dest - length t) 0) \<and>
           0 \<notin> set t \<and> length t = 2 * length src \<and>
           base16_decode dest2 t = Some (src @ replicate (length dest2 - length src) 0, int (length src))"
  using base16_encode_eq [OF assms(1-3)] base16_decode_hex [OF assms(4,5)] hex_of_bytes_nonzero
  by (intro exI [of _ "hex_of_bytes src"]) simp

theorem base16_roundtrip_witness:
  "\<exists>t. base16_encode [9, 9, 9, 9, 9, 9] [0x1f, 0] = Some (t @ [0, 0]) \<and> length t = 4 \<and>
     base16_decode [7, 7, 7] t = Some ([0x1f, 0, 0], 2)"
  using base16_roundtrip [of "[0x1f, 0]" "[9, 9, 9, 9, 9, 9]" "[7, 7, 7]"]
  by (auto simp: SIZE_T_CEILING_def INT_MAX_def)

lemma base16_decode_loop_total:
  "even (length src) \<Longrightarrow> length src div 2 \<le> length dest - di \<Longrightarrow> di \<le> length dest \<Longrightarrow>
     \<exists>dest' r. base16_decode_loop dest di src = Some (dest', r) \<and> length dest' = length dest \<and>
       (r = -1 \<or> r = int (di + length src div 2)) \<and>
       (r = -1 \<longleftrightarrow> (\<exists>c \<in> set src. hex_decode_digit c < 0))"
proof (induction src arbitrary: dest di rule: induct_list012)
  case (3 x y src)
  define v where "v = (word_of_int (push_bit 4 (hex_decode_digit x) OR hex_decode_digit y) :: byte)"
  from 3 have "arr_set dest di v = Some (dest[di := v])" by (simp add: arr_set_def)
  with 3(1) [of "dest[di := v]" "di + 1"] 3(3-) show ?case
    by (cases "hex_decode_digit x < 0 \<or> hex_decode_digit y < 0") (auto simp: Let_def simp flip: v_def)
qed auto

text \<open>
  \<open>base16_decode\<close> always returns. It never writes outside the destination, reports failure
  exactly for an odd length, a destination that is too small or larger than \<open>INT_MAX\<close>, or a byte
  that is no hexadecimal digit, and otherwise returns half the input length.
\<close>

theorem base16_decode_total:
  "\<exists>dest' r. base16_decode dest src = Some (dest', r) \<and> length dest' = length dest \<and>
     (if even (length src) \<and> length src div 2 \<le> length dest \<and> int (length dest) \<le> INT_MAX \<and>
         list_all (\<lambda>c. 0 \<le> hex_decode_digit c) src
      then r = int (length src div 2) else r = -1)"
proof (cases "odd (length src) \<or> length dest < length src div 2 \<or> INT_MAX < int (length dest)")
  case True
  then show ?thesis by (auto simp: base16_decode_def odd_iff_mod_2_eq_one)
next
  case False
  with base16_decode_loop_total [of src "replicate (length dest) 0" 0] obtain dest' r where
    "base16_decode_loop (replicate (length dest) 0) 0 src = Some (dest', r)" "length dest' = length dest"
    "r = -1 \<or> r = int (length src div 2)" "r = -1 \<longleftrightarrow> (\<exists>c \<in> set src. hex_decode_digit c < 0)"
    by auto
  with False show ?thesis
    by (auto simp: base16_decode_def arr_fill_all list_all_iff not_le not_less even_iff_mod_2_eq_zero)
qed

end
