(* ===== verification/Base32.thy ===== *)
theory Base32
  imports Binascii
begin

section \<open>Base 32, \<^verbatim>\<open>lib/encoding/binascii.c\<close>\<close>

text \<open>
  The RFC 4648 base 32 coder without padding. The encoder walks over the input five bits at a
  time, the decoder rebuilds bytes from the five possible alignments. Buffers are as in the
  theory of the base 16 functions. The comparisons of the decoder are on \<open>char\<close>; bytes above
  \<open>0x7f\<close> fail all of them whether \<open>char\<close> is signed or not.
\<close>

definition BASE32_CHARS :: "byte list" where
  "BASE32_CHARS = bytes_of ''abcdefghijklmnopqrstuvwxyz234567''"

definition BASE32_NOPAD_LEN :: "nat \<Rightarrow> nat" where
  "BASE32_NOPAD_LEN n = CEIL_DIV (n * 8) 5"

definition BASE32_NOPAD_BUFSIZE :: "nat \<Rightarrow> nat" where
  "BASE32_NOPAD_BUFSIZE n = BASE32_NOPAD_LEN n + 1"

definition base32_encoded_size :: "nat \<Rightarrow> nat option" where
  "base32_encoded_size srclen =
     do {
       guard (srclen < SIZE_T_CEILING div 8);
       let enclen = BASE32_NOPAD_BUFSIZE srclen;
       guard (int enclen < INT_MAX \<and> srclen < enclen);
       Some enclen
     }"

text \<open>The 5-bit value at bit position \<open>pos\<close>: \<open>v\<close> and then \<open>u\<close> in the loop of the source.\<close>

definition base32_quintet :: "byte list \<Rightarrow> nat \<Rightarrow> u32 option" where
  "base32_quintet src pos =
     do {
       let idx = pos div 8;
       x \<leftarrow> arr_get src idx;
       let v = push_bit 8 (ucast x);
       v \<leftarrow> (if idx + 1 < length src then do { y \<leftarrow> arr_get src (idx + 1); Some (v + ucast y) } else Some v);
       Some (drop_bit (11 - pos mod 8) v AND 0x1F)
     }"

function base32_encode_loop ::
  "byte list \<Rightarrow> byte list \<Rightarrow> nat \<Rightarrow> nat \<Rightarrow> nat \<Rightarrow> (byte list \<times> nat) option" where
  "base32_encode_loop dest src i pos nbits =
     (if pos < nbits then
        do {
          u \<leftarrow> base32_quintet src pos;
          c \<leftarrow> arr_get BASE32_CHARS (unat u);
          dest \<leftarrow> arr_set dest i c;
          base32_encode_loop dest src (i + 1) (pos + 5) nbits
        }
      else Some (dest, i))"
  by pat_completeness auto
termination
  by (relation "measure (\<lambda>(dest, src, i, pos, nbits). nbits - pos)") auto

definition base32_encode :: "byte list \<Rightarrow> byte list \<Rightarrow> byte list option" where
  "base32_encode dest src =
     do {
       let nbits = length src * 8;
       enclen \<leftarrow> base32_encoded_size (length src);
       guard (enclen \<le> length dest);
       guard (length dest < SIZE_T_CEILING);
       dest \<leftarrow> arr_fill dest 0 (length dest) 0;
       (dest, i) \<leftarrow> base32_encode_loop dest src 0 0 nbits;
       arr_set dest i 0
     }"

text \<open>The loop that converts characters to 5-bit values; \<open>None\<close> is the illegal character.\<close>

fun base32_values :: "byte list \<Rightarrow> byte list option" where
  "base32_values [] = Some []"
| "base32_values (c # src) =
     do {
       v \<leftarrow> (if 0x60 < c \<and> c < 0x7B then Some (c - 0x61)
             else if 0x31 < c \<and> c < 0x38 then Some (c - 0x18)
             else if 0x40 < c \<and> c < 0x5B then Some (c - 0x41)
             else None);
       vs \<leftarrow> base32_values src;
       Some (v # vs)
     }"

definition base32_byte :: "byte list \<Rightarrow> nat \<Rightarrow> byte option" where
  "base32_byte tmp pos =
     (let a = pos mod 40; k = pos div 5
      in if a = 0 then
           do { t0 \<leftarrow> arr_get tmp k; t1 \<leftarrow> arr_get tmp (k + 1); Some (push_bit 3 t0 + drop_bit 2 t1) }
         else if a = 8 then
           do { t0 \<leftarrow> arr_get tmp k; t1 \<leftarrow> arr_get tmp (k + 1); t2 \<leftarrow> arr_get tmp (k + 2);
                Some (push_bit 6 t0 + push_bit 1 t1 + drop_bit 4 t2) }
         else if a = 16 then
           do { t0 \<leftarrow> arr_get tmp k; t1 \<leftarrow> arr_get tmp (k + 1); Some (push_bit 4 t0 + drop_bit 1 t1) }
         else if a = 24 then
           do { t0 \<leftarrow> arr_get tmp k; t1 \<leftarrow> arr_get tmp (k + 1); t2 \<leftarrow> arr_get tmp (k + 2);
                Some (push_bit 7 t0 + push_bit 2 t1 + drop_bit 3 t2) }
         else
           do { t0 \<leftarrow> arr_get tmp k; t1 \<leftarrow> arr_get tmp (k + 1); Some (push_bit 5 t0 + t1) })"

function base32_decode_loop :: "byte list \<Rightarrow> byte list \<Rightarrow> nat \<Rightarrow> nat \<Rightarrow> nat \<Rightarrow> (byte list \<times> nat) option" where
  "base32_decode_loop dest tmp i pos nbits =
     (if pos < nbits then
        do {
          b \<leftarrow> base32_byte tmp pos;
          dest \<leftarrow> arr_set dest i b;
          base32_decode_loop dest tmp (i + 1) (pos + 8) nbits
        }
      else Some (dest, i))"
  by pat_completeness auto
termination
  by (relation "measure (\<lambda>(dest, tmp, i, pos, nbits). nbits - pos)") auto

definition base32_decode :: "byte list \<Rightarrow> byte list \<Rightarrow> (byte list \<times> int) option" where
  "base32_decode dest src =
     do {
       let nbits = length src * 5 div 8 * 8;
       guard (length src < SIZE_T_CEILING div 5);
       guard (nbits div 8 \<le> length dest);
       guard (length dest < SIZE_T_CEILING);
       dest \<leftarrow> arr_fill dest 0 (length dest) 0;
       (case base32_values src of
          None \<Rightarrow> Some (dest, -1)
        | Some tmp \<Rightarrow>
            do {
              (dest, i) \<leftarrow> base32_decode_loop dest tmp 0 0 nbits;
              Some (dest, int i)
            })
     }"

declare base32_encode_loop.simps [simp del]
declare base32_decode_loop.simps [simp del]

subsection \<open>Bits\<close>

definition byte_bit :: "byte list \<Rightarrow> nat \<Rightarrow> bool" where
  "byte_bit src k \<longleftrightarrow> k < 8 * length src \<and> bit (src ! (k div 8)) (7 - k mod 8)"

lemma bit_0x1f: "bit (0x1F :: u32) i \<longleftrightarrow> i < 5" "bit (0x1F :: int) i \<longleftrightarrow> i < 5"
  using bit_mask_iff [of 5 i, where 'a = u32] bit_mask_iff [of 5 i, where 'a = int]
  by (auto simp: mask_eq_exp_minus_1)

lemma bit_two_bytes:
  "bit (push_bit 8 (ucast (x :: byte)) + ucast (y :: byte) :: u32) t \<longleftrightarrow>
     (if t < 8 then bit y t else bit x (t - 8))"
proof -
  have "push_bit 8 (ucast x) + ucast y = (push_bit 8 (ucast x) OR ucast y :: u32)"
    by (rule disjunctive_add) (auto simp: bit_simps dest: bit_imp_le_length)
  then show ?thesis by (auto simp: bit_simps dest: bit_imp_le_length)
qed

lemma base32_quintet_bit:
  assumes "5 * i < 8 * length src"
  shows "\<exists>u. base32_quintet src (5 * i) = Some u \<and> unat u < 32 \<and>
           (\<forall>j < 5. bit u (4 - j) = byte_bit src (5 * i + j))"
proof -
  define idx m where "idx = 5 * i div 8" and "m = 5 * i mod 8"
  have im: "5 * i = 8 * idx + m" "m < 8" by (simp_all add: idx_def m_def)
  with assms have idx: "idx < length src" by linarith
  define y where "y = (if idx + 1 < length src then src ! (idx + 1) else 0)"
  define v where "v = (push_bit 8 (ucast (src ! idx)) + ucast y :: u32)"
  define u where "u = drop_bit (11 - m) v AND 0x1F"
  have eq: "base32_quintet src (5 * i) = Some u"
    using idx unfolding base32_quintet_def Let_def idx_def [symmetric] m_def [symmetric]
    by (simp add: arr_get_in u_def v_def y_def)
  have "bit u (4 - j) = byte_bit src (5 * i + j)" if "j < 5" for j
  proof (cases "m + j < 8")
    case True
    have "(5 * i + j) div 8 = idx" "(5 * i + j) mod 8 = m + j" "5 * i + j < 8 * length src"
      using True im idx by (simp_all add: add.assoc)
    moreover have "11 - m + (4 - j) = 15 - m - j" "\<not> 15 - m - j < 8" "15 - m - j - 8 = 7 - (m + j)"
      using True that im(2) by simp_all
    ultimately show ?thesis
      by (auto simp: u_def v_def bit_and_iff bit_drop_bit_eq bit_0x1f bit_two_bytes byte_bit_def)
  next
    case False
    have e: "5 * i + j = 8 * (idx + 1) + (m + j - 8)" "m + j - 8 < 8"
      using False that im by simp_all
    have "(5 * i + j) div 8 = idx + 1" "(5 * i + j) mod 8 = m + j - 8"
      unfolding e(1) mod_mult_self4 using e(2) by simp_all
    moreover have "5 * i + j < 8 * length src \<longleftrightarrow> idx + 1 < length src"
      using False that im by linarith
    moreover have "11 - m + (4 - j) = 15 - m - j" "15 - m - j < 8" "15 - m - j = 7 - (m + j - 8)"
      using False that im(2) by simp_all
    ultimately show ?thesis
      by (auto simp: u_def v_def bit_and_iff bit_drop_bit_eq bit_0x1f bit_two_bytes byte_bit_def y_def)
  qed
  moreover have "unat u \<le> unat (0x1F :: u32)"
    unfolding u_def word_le_nat_alt [symmetric] by (rule word_and_le1)
  ultimately show ?thesis using eq by simp
qed

text \<open>A decoded byte, read bit by bit off the 5-bit values.\<close>

lemma bit_add3:
  fixes a b c :: "'a::len word"
  assumes "\<And>n. \<not> bit a n \<or> \<not> bit b n" "\<And>n. \<not> bit a n \<or> \<not> bit c n" "\<And>n. \<not> bit b n \<or> \<not> bit c n"
  shows "a + b + c = a OR b OR c"
proof -
  have "a + b = a OR b" by (rule disjunctive_add) (use assms in auto)
  moreover have "(a OR b) + c = (a OR b) OR c" by (rule disjunctive_add) (use assms in \<open>auto simp: bit_or_iff\<close>)
  ultimately show ?thesis by (simp add: or.assoc)
qed

definition small5 :: "byte \<Rightarrow> bool" where
  "small5 t \<longleftrightarrow> (\<forall>n. bit t n \<longrightarrow> n < 5)"

lemma pieces_disjoint:
  assumes "small5 t"
  shows "5 + k \<le> m \<Longrightarrow> \<not> bit (push_bit m s) n \<or> \<not> bit (push_bit k t) n"
    "5 \<le> m + k \<Longrightarrow> \<not> bit (push_bit m s) n \<or> \<not> bit (drop_bit k t) n"
    "5 \<le> m \<Longrightarrow> \<not> bit (push_bit m s) n \<or> \<not> bit t n"
  using assms unfolding small5_def bit_push_bit_iff bit_drop_bit_eq comp_def by fastforce+

lemma base32_pieces:
  assumes "small5 t0" "small5 t1" "small5 t2"
  shows "push_bit 3 t0 + drop_bit 2 t1 = push_bit 3 t0 OR drop_bit 2 t1"
    "push_bit 6 t0 + push_bit 1 t1 + drop_bit 4 t2 = push_bit 6 t0 OR push_bit 1 t1 OR drop_bit 4 t2"
    "push_bit 4 t0 + drop_bit 1 t1 = push_bit 4 t0 OR drop_bit 1 t1"
    "push_bit 7 t0 + push_bit 2 t1 + drop_bit 3 t2 = push_bit 7 t0 OR push_bit 2 t1 OR drop_bit 3 t2"
    "push_bit 5 t0 + t1 = push_bit 5 t0 OR t1"
proof -
  note d = pieces_disjoint [OF assms(2)] pieces_disjoint [OF assms(3)]
  show "push_bit 3 t0 + drop_bit 2 t1 = push_bit 3 t0 OR drop_bit 2 t1"
    by (rule disjunctive_add, rule d) simp
  show "push_bit 6 t0 + push_bit 1 t1 + drop_bit 4 t2 = push_bit 6 t0 OR push_bit 1 t1 OR drop_bit 4 t2"
    by (rule bit_add3; rule d) simp_all
  show "push_bit 4 t0 + drop_bit 1 t1 = push_bit 4 t0 OR drop_bit 1 t1"
    by (rule disjunctive_add, rule d) simp
  show "push_bit 7 t0 + push_bit 2 t1 + drop_bit 3 t2 = push_bit 7 t0 OR push_bit 2 t1 OR drop_bit 3 t2"
    by (rule bit_add3; rule d) simp_all
  show "push_bit 5 t0 + t1 = push_bit 5 t0 OR t1"
    by (rule disjunctive_add, rule d) simp
qed

lemma less_8_cases: "k < 8 \<Longrightarrow> k = 0 \<or> k = 1 \<or> k = 2 \<or> k = 3 \<or> k = 4 \<or> k = 5 \<or> k = 6 \<or> k = (7 :: nat)"
  by linarith

lemma div_mod_5: "(40 * q + c) div 5 = 8 * q + c div 5" "(40 * q + c) mod 5 = c mod (5 :: nat)"
  using div_mult_self2 [of 5 c "8 * q"] mod_mult_self2 [of c 5 "8 * q"]
  by (simp_all add: add.commute)

lemma small5_bit: "small5 t \<Longrightarrow> 5 \<le> n \<Longrightarrow> \<not> bit t n"
  by (auto simp: small5_def)

lemma bit_double: "bit (x * 2 :: byte) n \<longleftrightarrow> 1 \<le> n \<and> n < 8 \<and> bit x (n - 1)"
  using bit_push_bit_iff [of 1 x n] by (auto simp: mult.commute dest: bit_imp_le_length)

lemma base32_byte_bit:
  assumes "8 * i + 8 \<le> 5 * length tmp" "\<And>t. t \<in> set tmp \<Longrightarrow> small5 t"
  shows "\<exists>b. base32_byte tmp (8 * i) = Some b \<and>
           (\<forall>k < 8. bit b (7 - k) = bit (tmp ! ((8 * i + k) div 5)) (4 - (8 * i + k) mod 5))"
proof -
  define q r where "q = i div 5" and "r = i mod 5"
  have i: "i = 5 * q + r" "r < 5" by (simp_all add: q_def r_def)
  have dm: "(8 * i + k) div 5 = 8 * q + (8 * r + k) div 5" "(8 * i + k) mod 5 = (8 * r + k) mod 5" for k
    using div_mod_5 [of q "8 * r + k"] i by (simp_all add: add.assoc distrib_left)
  have ix: "8 * i mod 40 = 8 * r" "8 * i div 5 = 8 * q + 8 * r div 5"
    using dm(1) [of 0] i by simp_all
  have sm: "small5 (tmp ! n)" if "n < length tmp" for n using assms(2) that by simp
  define t where "t n = tmp ! (8 * q + 8 * r div 5 + n)" for n
  have tx: "tmp ! (8 * q + (8 * r + k) div 5) = t ((8 * r + k) div 5 - 8 * r div 5)" for k
    using div_le_mono [of "8 * r" "8 * r + k" 5] by (simp add: t_def)
  have len: "8 * q + (8 * r + 7) div 5 < length tmp" using assms(1) i by simp
  consider "r = 0" | "r = 1" | "r = 2" | "r = 3" | "r = 4" using i(2) by linarith
  then show ?thesis
  proof cases
    case 1
    with len have st: "small5 (t 0)" "small5 (t 1)" using sm by (simp_all add: t_def)
    have "bit (push_bit 3 (t 0) OR drop_bit 2 (t 1)) (7 - k) =
        bit (tmp ! ((8 * i + k) div 5)) (4 - (8 * i + k) mod 5)" if "k < 8" for k
      using less_8_cases [OF that] unfolding dm tx unfolding 1
      by (elim disjE) (simp_all add: bit_simps bit_double small5_bit [OF st(2) [simplified]])
    with len ix 1 base32_pieces(1) [OF st(1,2,2)] show ?thesis
      by (simp add: base32_byte_def Let_def arr_get_in t_def)
  next
    case 2
    with len have st: "small5 (t 0)" "small5 (t 1)" "small5 (t 2)" using sm by (simp_all add: t_def)
    have "bit (push_bit 6 (t 0) OR push_bit 1 (t 1) OR drop_bit 4 (t 2)) (7 - k) =
        bit (tmp ! ((8 * i + k) div 5)) (4 - (8 * i + k) mod 5)" if "k < 8" for k
      using less_8_cases [OF that] unfolding dm tx unfolding 2
      by (elim disjE) (simp_all add: bit_simps bit_double small5_bit [OF st(2) [simplified]] small5_bit [OF st(3)])
    with len ix 2 base32_pieces(2) [OF st] show ?thesis
      by (simp add: base32_byte_def Let_def arr_get_in t_def)
  next
    case 3
    with len have st: "small5 (t 0)" "small5 (t 1)" using sm by (simp_all add: t_def)
    have "bit (push_bit 4 (t 0) OR drop_bit 1 (t 1)) (7 - k) =
        bit (tmp ! ((8 * i + k) div 5)) (4 - (8 * i + k) mod 5)" if "k < 8" for k
      using less_8_cases [OF that] unfolding dm tx unfolding 3
      by (elim disjE) (simp_all add: bit_simps bit_double small5_bit [OF st(2) [simplified]],
        simp_all add: numeral_3_eq_3 numeral_2_eq_2)
    with len ix 3 base32_pieces(3) [OF st(1,2,2)] show ?thesis
      by (simp add: base32_byte_def Let_def arr_get_in t_def)
  next
    case 4
    with len have st: "small5 (t 0)" "small5 (t 1)" "small5 (t 2)" using sm by (simp_all add: t_def)
    have "bit (push_bit 7 (t 0) OR push_bit 2 (t 1) OR drop_bit 3 (t 2)) (7 - k) =
        bit (tmp ! ((8 * i + k) div 5)) (4 - (8 * i + k) mod 5)" if "k < 8" for k
      using less_8_cases [OF that] unfolding dm tx unfolding 4
      by (elim disjE) (simp_all add: bit_simps bit_double small5_bit [OF st(2) [simplified]] small5_bit [OF st(3)])
    with len ix 4 base32_pieces(4) [OF st] show ?thesis
      by (simp add: base32_byte_def Let_def arr_get_in t_def)
  next
    case 5
    with len have st: "small5 (t 0)" "small5 (t 1)" using sm by (simp_all add: t_def)
    have "bit (push_bit 5 (t 0) OR t 1) (7 - k) =
        bit (tmp ! ((8 * i + k) div 5)) (4 - (8 * i + k) mod 5)" if "k < 8" for k
      using less_8_cases [OF that] unfolding dm tx unfolding 5
      by (elim disjE) (simp_all add: bit_simps bit_double small5_bit [OF st(2) [simplified]])
    with len ix 5 base32_pieces(5) [OF st(1,2,2)] show ?thesis
      by (simp add: base32_byte_def Let_def arr_get_in t_def)
  qed
qed

subsection \<open>The loops\<close>

definition quintet :: "byte list \<Rightarrow> nat \<Rightarrow> u32" where
  "quintet src i = the (base32_quintet src (5 * i))"

definition base32_text :: "byte list \<Rightarrow> byte list" where
  "base32_text src = map (\<lambda>i. BASE32_CHARS ! unat (quintet src i)) [0..<BASE32_NOPAD_LEN (length src)]"

lemma quintet:
  assumes "5 * i < 8 * length src"
  shows "base32_quintet src (5 * i) = Some (quintet src i)" "unat (quintet src i) < 32"
    "j < 5 \<Longrightarrow> bit (quintet src i) (4 - j) = byte_bit src (5 * i + j)"
  using base32_quintet_bit [OF assms] by (auto simp: quintet_def)

lemma length_BASE32_CHARS [simp]: "length BASE32_CHARS = 32"
  by (simp add: BASE32_CHARS_def bytes_of_def)

lemma nopad_len: "n < BASE32_NOPAD_LEN l \<longleftrightarrow> 5 * n < 8 * l"
  unfolding BASE32_NOPAD_LEN_def CEIL_DIV_def by arith

lemma base32_encode_loop_eq:
  assumes "i \<le> BASE32_NOPAD_LEN (length src)" "BASE32_NOPAD_LEN (length src) - i \<le> length rest" "length pre = i"
  shows "base32_encode_loop (pre @ rest) src i (5 * i) (length src * 8) =
           Some (pre @ map (\<lambda>k. BASE32_CHARS ! unat (quintet src k)) [i..<BASE32_NOPAD_LEN (length src)] @
                   drop (BASE32_NOPAD_LEN (length src) - i) rest, BASE32_NOPAD_LEN (length src))"
  using assms
proof (induction "BASE32_NOPAD_LEN (length src) - i" arbitrary: i pre rest)
  case 0
  then have "\<not> 5 * i < 8 * length src" "i = BASE32_NOPAD_LEN (length src)" using nopad_len [of i "length src"] by simp_all
  then show ?case by (simp add: base32_encode_loop.simps mult.commute)
next
  case (Suc n)
  then have lt: "i < BASE32_NOPAD_LEN (length src)" by simp
  then have i: "5 * i < 8 * length src" by (simp add: nopad_len)
  from Suc.hyps(2) Suc.prems obtain r rest' where rest: "rest = r # rest'" by (cases rest) auto
  define c where "c = BASE32_CHARS ! unat (quintet src i)"
  have "arr_set (pre @ r # rest') i c = Some ((pre @ [c]) @ rest')"
    using arr_set_append_Cons [of pre r rest' c] Suc.prems(3) by simp
  moreover have "arr_get BASE32_CHARS (unat (quintet src i)) = Some c"
    using quintet(2) [OF i] by (simp add: arr_get_in c_def)
  moreover have "base32_encode_loop ((pre @ [c]) @ rest') src (i + 1) (5 * (i + 1)) (length src * 8) =
      Some ((pre @ [c]) @ map (\<lambda>k. BASE32_CHARS ! unat (quintet src k)) [i + 1..<BASE32_NOPAD_LEN (length src)] @
              drop (BASE32_NOPAD_LEN (length src) - (i + 1)) rest', BASE32_NOPAD_LEN (length src))"
    using Suc.hyps(2) Suc.prems rest by (intro Suc.hyps(1)) auto
  ultimately show ?case
    using i quintet(1) [OF i] lt rest
    by (subst base32_encode_loop.simps) (simp add: upt_conv_Cons c_def mult.commute [of _ 8] add.commute [of 5] Suc_diff_Suc [OF lt, symmetric])
qed

lemma base32_encode_eq:
  assumes "length src < SIZE_T_CEILING div 8" "int (BASE32_NOPAD_BUFSIZE (length src)) < INT_MAX"
    and "BASE32_NOPAD_BUFSIZE (length src) \<le> length dest" "length dest < SIZE_T_CEILING"
  shows "base32_encode dest src =
           Some (base32_text src @ replicate (length dest - BASE32_NOPAD_LEN (length src)) 0)"
proof -
  define l where "l = BASE32_NOPAD_LEN (length src)"
  have l: "length src < BASE32_NOPAD_BUFSIZE (length src)" "l < length dest"
    using assms(3) by (simp_all add: BASE32_NOPAD_BUFSIZE_def BASE32_NOPAD_LEN_def CEIL_DIV_def l_def)
  have len: "length (base32_text src) = l" by (simp add: base32_text_def l_def)
  obtain n where n: "length dest - l = Suc n" using l(2) by (metis Suc_diff_Suc)
  have "base32_encode_loop (replicate (length dest) 0) src 0 0 (length src * 8) =
      Some (base32_text src @ 0 # replicate n 0, l)"
    using base32_encode_loop_eq [of 0 src "replicate (length dest) 0" "[]"] l n
    by (simp add: base32_text_def l_def)
  moreover have "arr_set (base32_text src @ 0 # replicate n 0) l 0 = Some (base32_text src @ 0 # replicate n 0)"
    using arr_set_append [of "base32_text src"] len by simp
  ultimately show ?thesis
    using assms l n by (simp add: base32_encode_def base32_encoded_size_def arr_fill_all Let_def flip: l_def)
qed

lemma base32_decode_loop_eq:
  assumes "8 * n \<le> 5 * length tmp" "\<And>t. t \<in> set tmp \<Longrightarrow> small5 t"
    and "i \<le> n" "n - i \<le> length rest" "length pre = i"
  shows "base32_decode_loop (pre @ rest) tmp i (8 * i) (8 * n) =
           Some (pre @ map (\<lambda>k. the (base32_byte tmp (8 * k))) [i..<n] @ drop (n - i) rest, n)"
  using assms(3-)
proof (induction "n - i" arbitrary: i pre rest)
  case 0
  then show ?case by (simp add: base32_decode_loop.simps)
next
  case (Suc m)
  then have lt: "i < n" by simp
  with assms(1) have "8 * i + 8 \<le> 5 * length tmp" by linarith
  from base32_byte_bit [OF this assms(2)] obtain b where b: "base32_byte tmp (8 * i) = Some b" by auto
  from Suc.hyps(2) Suc.prems obtain r rest' where rest: "rest = r # rest'" by (cases rest) auto
  have "arr_set (pre @ r # rest') i b = Some ((pre @ [b]) @ rest')"
    using arr_set_append_Cons [of pre r rest' b] Suc.prems(3) by simp
  moreover have "base32_decode_loop ((pre @ [b]) @ rest') tmp (i + 1) (8 * (i + 1)) (8 * n) =
      Some ((pre @ [b]) @ map (\<lambda>k. the (base32_byte tmp (8 * k))) [i + 1..<n] @ drop (n - (i + 1)) rest', n)"
    using Suc.hyps(2) Suc.prems rest by (intro Suc.hyps(1)) auto
  ultimately show ?case
    using b lt rest
    by (subst base32_decode_loop.simps) (simp add: upt_conv_Cons add.commute [of 8] Suc_diff_Suc [OF lt, symmetric])
qed

lemma base32_chars_all:
  "list_all (\<lambda>n. base32_values [BASE32_CHARS ! n] = Some [word_of_nat n]) [0..<32]"
  by code_simp

lemma base32_values_char: "n < 32 \<Longrightarrow> base32_values [BASE32_CHARS ! n] = Some [word_of_nat n]"
  using base32_chars_all unfolding list_all_iff by fastforce

lemma base32_values_Cons:
  "base32_values [c] = Some [v] \<Longrightarrow> base32_values src = Some vs \<Longrightarrow> base32_values (c # src) = Some (v # vs)"
  by (auto simp: bind_eq_Some_conv split: if_splits)

lemma base32_values_map:
  "(\<And>i. i \<in> set is \<Longrightarrow> f i < 32) \<Longrightarrow>
     base32_values (map (\<lambda>i. BASE32_CHARS ! f i) is) = Some (map (\<lambda>i. word_of_nat (f i)) is)"
proof (induction "is")
  case (Cons i "is")
  then have "base32_values [BASE32_CHARS ! f i] = Some [word_of_nat (f i)]" by (intro base32_values_char) simp
  from base32_values_Cons [OF this Cons.IH] Cons.prems show ?case by (simp del: base32_values.simps)
qed simp

text \<open>The 5-bit values the decoder recovers are the quintets of the encoder.\<close>

definition quintets :: "byte list \<Rightarrow> byte list" where
  "quintets src = map (\<lambda>i. word_of_nat (unat (quintet src i))) [0..<BASE32_NOPAD_LEN (length src)]"

lemma base32_values_text: "base32_values (base32_text src) = Some (quintets src)"
  unfolding base32_text_def quintets_def by (rule base32_values_map) (simp add: nopad_len quintet(2))

lemma quintets_bit:
  assumes "k < 8 * length src"
  shows "bit (quintets src ! (k div 5)) (4 - k mod 5) = byte_bit src k"
proof -
  define i j where "i = k div 5" and "j = k mod 5"
  have k: "k = 5 * i + j" "j < 5" by (simp_all add: i_def j_def)
  with assms have i: "5 * i < 8 * length src" by simp
  then have "quintets src ! i = word_of_nat (unat (quintet src i))" by (simp add: quintets_def nopad_len)
  moreover have "4 - j < 8" by simp
  ultimately have "bit (quintets src ! i) (4 - j) = bit (quintet src i) (4 - j)" by (simp add: bit_simps)
  then show ?thesis unfolding i_def [symmetric] j_def [symmetric] quintet(3) [OF i k(2)] k(1) [symmetric] .
qed

lemma quintets_small: "t \<in> set (quintets src) \<Longrightarrow> small5 t"
proof -
  assume "t \<in> set (quintets src)"
  then obtain i where t: "t = word_of_nat (unat (quintet src i))" "5 * i < 8 * length src"
    by (auto simp: quintets_def nopad_len)
  have "take_bit 5 (unat (quintet src i)) = unat (quintet src i)"
    using quintet(2) [OF t(2)] by (simp add: take_bit_nat_eq_self)
  then have "bit (unat (quintet src i)) n \<Longrightarrow> n < 5" for n by (metis bit_take_bit_iff)
  then show "small5 t" by (auto simp: small5_def t(1) bit_simps)
qed

lemma base32_bytes_quintets:
  "map (\<lambda>k. the (base32_byte (quintets src) (8 * k))) [0..<length src] = src"
proof (rule nth_equalityI)
  fix i
  assume "i < length (map (\<lambda>k. the (base32_byte (quintets src) (8 * k))) [0..<length src])"
  then have i: "i < length src" by simp
  have "8 * length src \<le> 5 * length (quintets src)"
    by (simp add: quintets_def BASE32_NOPAD_LEN_def CEIL_DIV_def)
  with i have "8 * i + 8 \<le> 5 * length (quintets src)" by linarith
  from base32_byte_bit [OF this] quintets_small obtain b where b: "base32_byte (quintets src) (8 * i) = Some b"
    "\<And>k. k < 8 \<Longrightarrow> bit b (7 - k) = bit (quintets src ! ((8 * i + k) div 5)) (4 - (8 * i + k) mod 5)" by blast
  have "bit b n = bit (src ! i) n" if "n < 8" for n
  proof -
    have "bit b (7 - (7 - n)) = byte_bit src (8 * i + (7 - n))"
      using b(2) [of "7 - n"] quintets_bit [of "8 * i + (7 - n)" src] i by simp
    moreover have "(8 * i + (7 - n)) div 8 = i" "(8 * i + (7 - n)) mod 8 = 7 - n" "8 * i + (7 - n) < 8 * length src"
      using i by simp_all
    ultimately show ?thesis using that unfolding byte_bit_def by simp
  qed
  then have "b = src ! i" by (intro bit_word_eqI) simp
  with i b(1) show "map (\<lambda>k. the (base32_byte (quintets src) (8 * k))) [0..<length src] ! i = src ! i" by simp
qed simp

lemma base32_decode_text:
  assumes "BASE32_NOPAD_LEN (length src) < SIZE_T_CEILING div 5" "length src \<le> length dest" "length dest < SIZE_T_CEILING"
  shows "base32_decode dest (base32_text src) =
           Some (src @ replicate (length dest - length src) 0, int (length src))"
proof -
  have len: "length (base32_text src) = BASE32_NOPAD_LEN (length src)" by (simp add: base32_text_def)
  have nbits: "BASE32_NOPAD_LEN (length src) * 5 div 8 = length src"
    unfolding BASE32_NOPAD_LEN_def CEIL_DIV_def by arith
  have le: "8 * length src \<le> 5 * length (quintets src)"
    by (simp add: quintets_def BASE32_NOPAD_LEN_def CEIL_DIV_def)
  have "base32_decode_loop (replicate (length dest) 0) (quintets src) 0 0 (8 * length src) =
      Some (src @ replicate (length dest - length src) 0, length src)"
    using base32_decode_loop_eq [OF le quintets_small, where i = 0 and pre = "[]"] assms(2)
    by (simp add: base32_bytes_quintets)
  then show ?thesis
    using assms by (simp add: base32_decode_def len nbits arr_fill_all base32_values_text mult.commute)
qed

lemma base32_text_nonzero: "0 \<notin> set (base32_text src)"
proof -
  have "0 \<notin> set BASE32_CHARS" by (simp add: BASE32_CHARS_def bytes_of_def)
  moreover have "BASE32_CHARS ! unat (quintet src i) \<in> set BASE32_CHARS"
    if "i < BASE32_NOPAD_LEN (length src)" for i
    using that quintet(2) [of i src] by (simp add: nopad_len)
  ultimately show ?thesis by (auto simp: base32_text_def) metis
qed

lemma base32_text_alphabet: "set (base32_text src) \<subseteq> set BASE32_CHARS"
  using quintet(2) by (auto simp: base32_text_def nopad_len intro!: nth_mem)

text \<open>
  C31: base 32 round trip, for less than $10^9$ bytes and buffers of less than \<open>SIZE_T_CEILING\<close> bytes.
  Encoding into a buffer with room for the text and its terminator writes \<open>ceil(8n/5)\<close> characters of the
  alphabet followed by zero bytes only, and decoding that text into any buffer of at least the original
  length gives the original bytes, followed by zeros, and their number. No assertion of either function
  fails and neither touches memory outside its buffers, in particular the decoder's \<open>tmp\<close> array.
\<close>

theorem base32_roundtrip:
  assumes "int (length src) < 1000000000" "BASE32_NOPAD_BUFSIZE (length src) \<le> length dest"
    and "length src \<le> length dest2" "length dest < SIZE_T_CEILING" "length dest2 < SIZE_T_CEILING"
  shows "\<exists>t. base32_encode dest src = Some (t @ replicate (length dest - length t) 0) \<and> set t \<subseteq> set BASE32_CHARS \<and> 0 \<notin> set t \<and>
           length t = BASE32_NOPAD_LEN (length src) \<and>
           base32_decode dest2 t = Some (src @ replicate (length dest2 - length src) 0, int (length src))"
proof -
  have n: "length src < SIZE_T_CEILING div 8" "int (BASE32_NOPAD_BUFSIZE (length src)) < INT_MAX"
    "BASE32_NOPAD_LEN (length src) < SIZE_T_CEILING div 5"
    using assms(1) by (simp_all add: SIZE_T_CEILING_def INT_MAX_def BASE32_NOPAD_BUFSIZE_def
        BASE32_NOPAD_LEN_def CEIL_DIV_def)
  have "length (base32_text src) = BASE32_NOPAD_LEN (length src)" by (simp add: base32_text_def)
  then show ?thesis
    using base32_encode_eq [OF n(1,2) assms(2,4)] base32_decode_text [OF n(3) assms(3,5)] base32_text_nonzero base32_text_alphabet
    by (intro exI [of _ "base32_text src"]) simp
qed

theorem base32_roundtrip_witness:
  "\<exists>t. base32_encode (replicate 8 7) [0xde, 0xad, 0xbe] = Some (t @ [0, 0, 0]) \<and> length t = 5 \<and>
     base32_decode [1, 2, 3, 4] t = Some ([0xde, 0xad, 0xbe, 0], 3)"
  using base32_roundtrip [of "[0xde, 0xad, 0xbe]" "replicate 8 7" "[1, 2, 3, 4]"]
  by (auto simp: SIZE_T_CEILING_def BASE32_NOPAD_BUFSIZE_def BASE32_NOPAD_LEN_def CEIL_DIV_def numeral_3_eq_3)

end
