(* ===== verification/Base64.thy ===== *)
theory Base64
  imports Binascii
begin

section \<open>Base 64, \<^verbatim>\<open>lib/encoding/binascii.c\<close>\<close>

text \<open>
  The base 64 coder with its optional line breaks. The state of the encoder is the destination,
  the write position \<open>d\<close> and the length of the current line; the accumulator \<open>n\<close> is a 32-bit
  word. The argument \<open>ml\<close> is the flag \<open>BASE64_ENCODE_MULTILINE\<close>, the only flag there is.
\<close>

definition BASE64_LEN :: "nat \<Rightarrow> nat" where
  "BASE64_LEN n = CEIL_DIV n 3 * 4"

definition BASE64_OPENSSL_LINELEN :: nat where
  "BASE64_OPENSSL_LINELEN = 64"

definition base64_encode_size :: "nat \<Rightarrow> bool \<Rightarrow> nat option" where
  "base64_encode_size srclen ml =
     do {
       guard (int srclen < INT_MAX);
       guard (int (CEIL_DIV srclen 3) < INT_MAX div 4);
       let enclen = BASE64_LEN srclen;
       let enclen = (if ml then enclen + CEIL_DIV enclen BASE64_OPENSSL_LINELEN else enclen);
       guard (int enclen < INT_MAX \<and> (enclen = 0 \<or> srclen < enclen));
       Some enclen
     }"

definition base64_decode_maxsize :: "nat \<Rightarrow> nat option" where
  "base64_decode_maxsize srclen =
     do {
       guard (int srclen < INT_MAX div 3);
       Some (CEIL_DIV (srclen * 3) 4)
     }"

definition base64_encode_table :: "byte list" where
  "base64_encode_table = bytes_of ''ABCDEFGHIJKLMNOPQRSTUVWXYZabcdefghijklmnopqrstuvwxyz0123456789+/''"

type_synonym b64_state = "byte list \<times> nat \<times> nat"

definition ENCODE_CHAR :: "bool \<Rightarrow> byte \<Rightarrow> b64_state \<Rightarrow> b64_state option" where
  "ENCODE_CHAR ml ch st =
     (case st of (dest, d, linelen) \<Rightarrow>
        do {
          dest \<leftarrow> arr_set dest d ch;
          (if ml then
             (if (linelen + 1) mod BASE64_OPENSSL_LINELEN = 0 then
                do { dest \<leftarrow> arr_set dest (d + 1) 10; Some (dest, d + 2, 0) }
              else Some (dest, d + 1, linelen + 1))
           else Some (dest, d + 1, linelen))
        })"

definition ENCODE_N :: "bool \<Rightarrow> u32 \<Rightarrow> nat \<Rightarrow> b64_state \<Rightarrow> b64_state option" where
  "ENCODE_N ml n idx st =
     do {
       ch \<leftarrow> arr_get base64_encode_table (unat (drop_bit ((3 - idx) * 6) n AND 0x3f));
       ENCODE_CHAR ml ch st
     }"

definition ENCODE_PAD :: "bool \<Rightarrow> b64_state \<Rightarrow> b64_state option" where
  "ENCODE_PAD ml st = ENCODE_CHAR ml 61 st"

fun base64_encode_loop :: "bool \<Rightarrow> byte list \<Rightarrow> u32 \<Rightarrow> nat \<Rightarrow> b64_state \<Rightarrow> (u32 \<times> nat \<times> b64_state) option" where
  "base64_encode_loop ml [] n n_idx st = Some (n, n_idx, st)"
| "base64_encode_loop ml (x # src) n n_idx st =
     do {
       let n = push_bit 8 n OR ucast x;
       (if n_idx + 1 = 3 then
          do {
            st \<leftarrow> ENCODE_N ml n 0 st;
            st \<leftarrow> ENCODE_N ml n 1 st;
            st \<leftarrow> ENCODE_N ml n 2 st;
            st \<leftarrow> ENCODE_N ml n 3 st;
            base64_encode_loop ml src 0 0 st
          }
        else base64_encode_loop ml src n (n_idx + 1) st)
     }"

text \<open>The \<open>switch\<close> on the left-over bytes; its default case returns \<open>-1\<close>, here \<open>Inl\<close>.\<close>

definition base64_encode_tail :: "bool \<Rightarrow> u32 \<Rightarrow> nat \<Rightarrow> b64_state \<Rightarrow> (unit + b64_state) option" where
  "base64_encode_tail ml n n_idx st =
     (if n_idx = 0 then Some (Inr st)
      else if n_idx = 1 then
        do {
          let n = push_bit 4 n;
          st \<leftarrow> ENCODE_N ml n 2 st;
          st \<leftarrow> ENCODE_N ml n 3 st;
          st \<leftarrow> ENCODE_PAD ml st;
          st \<leftarrow> ENCODE_PAD ml st;
          Some (Inr st)
        }
      else if n_idx = 2 then
        do {
          let n = push_bit 2 n;
          st \<leftarrow> ENCODE_N ml n 1 st;
          st \<leftarrow> ENCODE_N ml n 2 st;
          st \<leftarrow> ENCODE_N ml n 3 st;
          st \<leftarrow> ENCODE_PAD ml st;
          Some (Inr st)
        }
      else Some (Inl ()))"

definition base64_encode :: "byte list \<Rightarrow> byte list \<Rightarrow> bool \<Rightarrow> (byte list \<times> int) option" where
  "base64_encode dest src ml =
     do {
       enclen \<leftarrow> base64_encode_size (length src) ml;
       (if length dest < enclen + 1 then Some (dest, -1)
        else if SIZE_T_CEILING < length dest then Some (dest, -1)
        else if INT_MAX < int enclen then Some (dest, -1)
        else
          do {
            dest \<leftarrow> arr_fill dest 0 (length dest) 0;
            (n, n_idx, st) \<leftarrow> base64_encode_loop ml src 0 0 (dest, 0, 0);
            r \<leftarrow> base64_encode_tail ml n n_idx st;
            (case r of
               Inl _ \<Rightarrow> Some (fst st, -1)
             | Inr (dest, d, linelen) \<Rightarrow>
                 do {
                   (dest, d) \<leftarrow>
                     (if ml \<and> linelen \<noteq> 0 then do { dest \<leftarrow> arr_set dest d 10; Some (dest, d + 1) }
                      else Some (dest, d));
                   guard (d = enclen);
                   dest \<leftarrow> arr_set dest d 0;
                   Some (dest, int enclen)
                 })
          })
     }"

text \<open>The compaction loop of \<open>base64_encode_nopad\<close>; reading past the buffer is \<open>None\<close>.\<close>

function nopad_loop :: "byte list \<Rightarrow> nat \<Rightarrow> nat \<Rightarrow> (byte list \<times> nat) option" where
  "nopad_loop dest i out =
     (if length dest \<le> i then None
      else if dest ! i = 0 then Some (dest, out)
      else if dest ! i = 61 \<or> dest ! i = 10 then nopad_loop dest (i + 1) out
      else if length dest \<le> out then None
      else nopad_loop (dest[out := dest ! i]) (i + 1) (out + 1))"
  by pat_completeness auto
termination
  by (relation "measure (\<lambda>(dest, i, out). length dest - i)") auto

definition base64_encode_nopad :: "byte list \<Rightarrow> byte list \<Rightarrow> (byte list \<times> int) option" where
  "base64_encode_nopad dest src =
     do {
       (dest, n) \<leftarrow> base64_encode dest src False;
       (if n \<le> 0 then Some (dest, n)
        else
          do {
            guard (n < int (length dest) \<and> dest ! nat n = 0);
            (dest, out) \<leftarrow> nopad_loop dest 0 0;
            dest \<leftarrow> arr_set dest out 0;
            guard (int out \<le> INT_MAX);
            Some (dest, int out)
          })
     }"

text \<open>The decoding table: \<open>255\<close> is an invalid character, \<open>64\<close> a space and \<open>65\<close> the padding.\<close>

definition base64_decode_table :: "byte list" where
  "base64_decode_table =
     [255, 255, 255, 255, 255, 255, 255, 255, 255, 64, 64, 64, 255, 64, 255, 255,
      255, 255, 255, 255, 255, 255, 255, 255, 255, 255, 255, 255, 255, 255, 255, 255,
      64, 255, 255, 255, 255, 255, 255, 255, 255, 255, 255, 62, 255, 255, 255, 63,
      52, 53, 54, 55, 56, 57, 58, 59, 60, 61, 255, 255, 255, 65, 255, 255,
      255, 0, 1, 2, 3, 4, 5, 6, 7, 8, 9, 10, 11, 12, 13, 14,
      15, 16, 17, 18, 19, 20, 21, 22, 23, 24, 25, 255, 255, 255, 255, 255,
      255, 26, 27, 28, 29, 30, 31, 32, 33, 34, 35, 36, 37, 38, 39, 40,
      41, 42, 43, 44, 45, 46, 47, 48, 49, 50, 51, 255, 255, 255, 255, 255] @
     replicate 128 255"

fun base64_decode_loop ::
  "byte list \<Rightarrow> byte list \<Rightarrow> nat \<Rightarrow> u32 \<Rightarrow> nat \<Rightarrow> (byte list + (byte list \<times> nat \<times> u32 \<times> nat)) option" where
  "base64_decode_loop [] dest di n n_idx = Some (Inr (dest, di, n, n_idx))"
| "base64_decode_loop (c # src) dest di n n_idx =
     do {
       v \<leftarrow> arr_get base64_decode_table (unat c);
       (if v = 255 then Some (Inl dest)
        else if v = 64 then base64_decode_loop src dest di n n_idx
        else if v = 65 then Some (Inr (dest, di, n, n_idx))
        else
          let n = push_bit 6 n OR ucast v
          in if n_idx + 1 = 4 then
               (if length dest < 3 \<or> length dest - 3 < di then Some (Inl dest)
                else
                  do {
                    dest \<leftarrow> arr_set dest di (ucast (drop_bit 16 n));
                    dest \<leftarrow> arr_set dest (di + 1) (ucast (drop_bit 8 n AND 0xff));
                    dest \<leftarrow> arr_set dest (di + 2) (ucast (n AND 0xff));
                    base64_decode_loop src dest (di + 3) 0 0
                  })
             else base64_decode_loop src dest di n (n_idx + 1))
     }"

definition base64_decode_tail ::
  "byte list \<Rightarrow> nat \<Rightarrow> u32 \<Rightarrow> nat \<Rightarrow> (byte list + (byte list \<times> nat)) option" where
  "base64_decode_tail dest di n n_idx =
     (if n_idx = 1 then Some (Inl dest)
      else if n_idx = 2 then
        (if length dest < 1 \<or> length dest - 1 < di then Some (Inl dest)
         else do { dest \<leftarrow> arr_set dest di (ucast (drop_bit 4 n)); Some (Inr (dest, di + 1)) })
      else if n_idx = 3 then
        (if length dest < 2 \<or> length dest - 2 < di then Some (Inl dest)
         else
           do {
             dest \<leftarrow> arr_set dest di (ucast (drop_bit 10 n));
             dest \<leftarrow> arr_set dest (di + 1) (ucast (drop_bit 2 n));
             Some (Inr (dest, di + 2))
           })
      else Some (Inr (dest, di)))"

definition base64_decode :: "byte list \<Rightarrow> byte list \<Rightarrow> (byte list \<times> int) option" where
  "base64_decode dest src =
     (if INT_MAX < int (length dest) then Some (dest, -1)
      else
        do {
          dest \<leftarrow> arr_fill dest 0 (length dest) 0;
          r \<leftarrow> base64_decode_loop src dest 0 0 0;
          (case r of
             Inl dest \<Rightarrow> Some (dest, -1)
           | Inr (dest, di, n, n_idx) \<Rightarrow>
               do {
                 r \<leftarrow> base64_decode_tail dest di n n_idx;
                 (case r of
                    Inl dest \<Rightarrow> Some (dest, -1)
                  | Inr (dest, di) \<Rightarrow> do { guard (di \<le> length dest); Some (dest, int di) })
               })
        })"

declare nopad_loop.simps [simp del]

subsection \<open>Words and 6-bit values\<close>

definition sextet :: "u32 \<Rightarrow> nat \<Rightarrow> u32" where
  "sextet n idx = drop_bit ((3 - idx) * 6) n AND 0x3f"

definition b64_char :: "u32 \<Rightarrow> nat \<Rightarrow> byte" where
  "b64_char n idx = base64_encode_table ! unat (sextet n idx)"

definition word3 :: "byte \<Rightarrow> byte \<Rightarrow> byte \<Rightarrow> u32" where
  "word3 a b c = push_bit 8 (push_bit 8 (ucast a) OR ucast b) OR ucast c"

lemma bit_0x3f: "bit (0x3f :: u32) i \<longleftrightarrow> i < 6" "bit (0x3f :: int) i \<longleftrightarrow> i < 6"
  using bit_mask_iff [of 6 i, where 'a = u32] bit_mask_iff [of 6 i, where 'a = int]
  by (auto simp: mask_eq_exp_minus_1)

lemma bit_0xff: "bit (0xff :: u32) i \<longleftrightarrow> i < 8" "bit (0xff :: int) i \<longleftrightarrow> i < 8"
  using bit_mask_iff [of 8 i, where 'a = u32] bit_mask_iff [of 8 i, where 'a = int]
  by (auto simp: mask_eq_exp_minus_1)

lemma sextet_bit: "bit (sextet n idx) i \<longleftrightarrow> i < 6 \<and> bit n ((3 - idx) * 6 + i)"
  unfolding sextet_def bit_and_iff bit_drop_bit_eq bit_0x3f by auto

lemma sextet_bound: "unat (sextet n idx) < 64"
proof -
  have "unat (sextet n idx) \<le> unat (0x3f :: u32)"
    unfolding sextet_def word_le_nat_alt [symmetric] by (rule word_and_le1)
  then show ?thesis by simp
qed

lemma word3_bit:
  "bit (word3 a b c) i \<longleftrightarrow> (if i < 8 then bit c i else if i < 16 then bit b (i - 8) else bit a (i - 16))"
  unfolding word3_def bit_or_iff bit_push_bit_iff
  by (auto simp: bit_simps dest: bit_imp_le_length)

lemma word3_bytes:
  "ucast (drop_bit 16 (word3 a b c)) = a" "ucast (drop_bit 8 (word3 a b c) AND 0xff) = b"
  "ucast (word3 a b c AND 0xff) = c"
  by (rule bit_word_eqI; auto simp: bit_simps word3_bit bit_0xff)+

lemma word2_bytes:
  "ucast (drop_bit 10 (push_bit 2 (word3 0 a b))) = a" "ucast (drop_bit 2 (push_bit 2 (word3 0 a b))) = b"
  "ucast (drop_bit 4 (push_bit 4 (word3 0 0 a))) = a"
  by (rule bit_word_eqI; auto simp: bit_simps word3_bit)+

text \<open>Shifting the 6-bit values of a word back in gives the low 24 bits, or fewer.\<close>

lemma sextets_join4:
  "push_bit 6 (push_bit 6 (push_bit 6 (sextet n 0) OR sextet n 1) OR sextet n 2) OR sextet n 3 = take_bit 24 n"
proof (rule bit_word_eqI)
  fix i
  assume i: "i < LENGTH(32)"
  consider "i < 6" | "6 \<le> i" "i < 12" | "12 \<le> i" "i < 18" | "18 \<le> i" "i < 24" | "24 \<le> i" by linarith
  then show "bit (push_bit 6 (push_bit 6 (push_bit 6 (sextet n 0) OR sextet n 1) OR sextet n 2) OR sextet n 3) i =
      bit (take_bit 24 n) i"
    by cases (use i in \<open>auto simp: bit_or_iff bit_push_bit_iff bit_take_bit_iff sextet_bit\<close>)
qed

lemma sextets_join3:
  "push_bit 6 (push_bit 6 (sextet n 1) OR sextet n 2) OR sextet n 3 = take_bit 18 n"
proof (rule bit_word_eqI)
  fix i
  assume i: "i < LENGTH(32)"
  consider "i < 6" | "6 \<le> i" "i < 12" | "12 \<le> i" "i < 18" | "18 \<le> i" by linarith
  then show "bit (push_bit 6 (push_bit 6 (sextet n 1) OR sextet n 2) OR sextet n 3) i = bit (take_bit 18 n) i"
    by cases (use i in \<open>auto simp: bit_or_iff bit_push_bit_iff bit_take_bit_iff sextet_bit\<close>)
qed

lemma sextets_join2: "push_bit 6 (sextet n 2) OR sextet n 3 = take_bit 12 n"
proof (rule bit_word_eqI)
  fix i
  assume i: "i < LENGTH(32)"
  consider "i < 6" | "6 \<le> i" "i < 12" | "12 \<le> i" by linarith
  then show "bit (push_bit 6 (sextet n 2) OR sextet n 3) i = bit (take_bit 12 n) i"
    by cases (use i in \<open>auto simp: bit_or_iff bit_push_bit_iff bit_take_bit_iff sextet_bit\<close>)
qed

lemma word3_short:
  "take_bit 24 (word3 a b c) = word3 a b c" "take_bit 18 (push_bit 2 (word3 0 a b)) = push_bit 2 (word3 0 a b)"
  "take_bit 12 (push_bit 4 (word3 0 0 a)) = push_bit 4 (word3 0 0 a)"
  by (rule bit_word_eqI; auto simp: bit_simps word3_bit dest: bit_imp_le_length)+

subsection \<open>The text of an encoding\<close>

fun enc64 :: "byte list \<Rightarrow> byte list" where
  "enc64 (a # b # c # r) =
     (let n = word3 a b c in [b64_char n 0, b64_char n 1, b64_char n 2, b64_char n 3]) @ enc64 r"
| "enc64 [a, b] = (let n = push_bit 2 (word3 0 a b) in [b64_char n 1, b64_char n 2, b64_char n 3])"
| "enc64 [a] = (let n = push_bit 4 (word3 0 0 a) in [b64_char n 2, b64_char n 3])"
| "enc64 [] = []"

fun pad64 :: "byte list \<Rightarrow> byte list" where
  "pad64 (a # b # c # r) = pad64 r"
| "pad64 [a, b] = [61]"
| "pad64 [a] = [61, 61]"
| "pad64 [] = []"

lemma BASE64_LEN_3: "BASE64_LEN (Suc (Suc (Suc n))) = 4 + BASE64_LEN n"
proof -
  have "(Suc (Suc (Suc n)) + (3 - 1)) div 3 = Suc ((n + (3 - 1)) div 3)" by arith
  then show ?thesis unfolding BASE64_LEN_def CEIL_DIV_def by simp
qed

lemma length_enc64: "length (enc64 src) + length (pad64 src) = BASE64_LEN (length src)"
proof (induction src rule: enc64.induct)
  case (1 a b c r)
  then show ?case by (simp add: BASE64_LEN_3 Let_def)
qed (auto simp: BASE64_LEN_def CEIL_DIV_def Let_def)

lemma length_base64_encode_table [simp]: "length base64_encode_table = 64"
  by (simp add: base64_encode_table_def bytes_of_def)

text \<open>What \<open>ENCODE_CHAR\<close> writes for a run of characters, with the line length it ends with.\<close>

fun emit :: "bool \<Rightarrow> nat \<Rightarrow> byte list \<Rightarrow> byte list \<times> nat" where
  "emit ml l [] = ([], l)"
| "emit ml l (c # cs) =
     (if ml then
        (if (l + 1) mod BASE64_OPENSSL_LINELEN = 0
         then (case emit ml 0 cs of (out, l') \<Rightarrow> (c # 10 # out, l'))
         else (case emit ml (l + 1) cs of (out, l') \<Rightarrow> (c # out, l')))
      else (case emit ml l cs of (out, l') \<Rightarrow> (c # out, l')))"

lemma emit_append:
  "emit ml l (xs @ ys) = (case emit ml l xs of (o1, l1) \<Rightarrow> case emit ml l1 ys of (o2, l2) \<Rightarrow> (o1 @ o2, l2))"
  by (induction ml l xs rule: emit.induct) (auto split: prod.splits)

lemma emit_filter: "10 \<notin> set cs \<Longrightarrow> filter (\<lambda>c. c \<noteq> 10) (fst (emit ml l cs)) = cs"
  by (induction ml l cs rule: emit.induct) (auto split: prod.splits)

lemma emit_single: "emit False l cs = (cs, l)"
  by (induction cs arbitrary: l) auto

lemma emit_multi:
  "l < 64 \<Longrightarrow> length (fst (emit True l cs)) = length cs + (l + length cs) div 64 \<and>
     snd (emit True l cs) = (l + length cs) mod 64"
proof (induction cs arbitrary: l)
  case (Cons c cs)
  show ?case
  proof (cases "l = 63")
    case True
    with Cons.IH [of 0] show ?thesis
      by (auto simp: BASE64_OPENSSL_LINELEN_def div_add_self1 split: prod.splits)
  next
    case False
    with Cons.prems Cons.IH [of "l + 1"] show ?thesis
      by (auto simp: BASE64_OPENSSL_LINELEN_def split: prod.splits)
  qed
qed simp

subsection \<open>The encoder\<close>

lemma ENCODE_CHAR_eq:
  assumes "length (fst (emit ml l [c])) \<le> length rest"
  shows "ENCODE_CHAR ml c (pre @ rest, length pre, l) =
     Some (pre @ fst (emit ml l [c]) @ drop (length (fst (emit ml l [c]))) rest,
           length pre + length (fst (emit ml l [c])), snd (emit ml l [c]))"
proof -
  from assms obtain r rest' where rest: "rest = r # rest'" by (cases rest) (auto split: if_splits)
  have "arr_set (pre @ c # r2 # rest2) (length pre + 1) 10 = Some (pre @ c # 10 # rest2)" for r2 rest2
    using arr_set_append [of "pre @ [c]" r2 rest2 10] by simp
  with assms rest show ?thesis
    by (cases rest') (auto simp: ENCODE_CHAR_def)
qed

fun put_chars :: "bool \<Rightarrow> byte list \<Rightarrow> b64_state \<Rightarrow> b64_state option" where
  "put_chars ml [] st = Some st"
| "put_chars ml (c # cs) st = do { st \<leftarrow> ENCODE_CHAR ml c st; put_chars ml cs st }"

lemma put_chars_append: "put_chars ml (xs @ ys) st = do { st \<leftarrow> put_chars ml xs st; put_chars ml ys st }"
proof (induction xs arbitrary: st)
  case (Cons x xs)
  then show ?case by (cases "ENCODE_CHAR ml x st") simp_all
qed simp

lemma put_chars_eq:
  "length (fst (emit ml l cs)) \<le> length rest \<Longrightarrow>
     put_chars ml cs (pre @ rest, length pre, l) =
       Some (pre @ fst (emit ml l cs) @ drop (length (fst (emit ml l cs))) rest,
             length pre + length (fst (emit ml l cs)), snd (emit ml l cs))"
proof (induction cs arbitrary: pre rest l)
  case (Cons c cs)
  define out l1 where "out = fst (emit ml l [c])" and "l1 = snd (emit ml l [c])"
  then have em: "emit ml l [c] = (out, l1)" by simp
  have app: "emit ml l (c # cs) = (out @ fst (emit ml l1 cs), snd (emit ml l1 cs))"
    using emit_append [of ml l "[c]" cs] em by (simp add: case_prod_beta del: emit.simps)
  with Cons.prems have len: "length out + length (fst (emit ml l1 cs)) \<le> length rest" by simp
  then have "ENCODE_CHAR ml c (pre @ rest, length pre, l) =
      Some ((pre @ out) @ drop (length out) rest, length (pre @ out), l1)"
    using ENCODE_CHAR_eq [of ml l c rest pre] by (simp add: em del: emit.simps)
  moreover have "put_chars ml cs ((pre @ out) @ drop (length out) rest, length (pre @ out), l1) =
      Some ((pre @ out) @ fst (emit ml l1 cs) @ drop (length (fst (emit ml l1 cs))) (drop (length out) rest),
            length (pre @ out) + length (fst (emit ml l1 cs)), snd (emit ml l1 cs))"
    using len by (intro Cons.IH) simp
  ultimately show ?case by (simp add: app add.assoc add.commute del: emit.simps)
qed simp

lemma ENCODE_N_eq: "ENCODE_N ml n idx st = ENCODE_CHAR ml (b64_char n idx) st"
  using sextet_bound [of n idx] by (simp add: ENCODE_N_def b64_char_def sextet_def arr_get_in)

definition encode_body :: "bool \<Rightarrow> byte list \<Rightarrow> b64_state \<Rightarrow> (unit + b64_state) option" where
  "encode_body ml src st =
     do { (n, n_idx, st) \<leftarrow> base64_encode_loop ml src 0 0 st; base64_encode_tail ml n n_idx st }"

lemma encode_body_eq:
  "encode_body ml src st = do { st \<leftarrow> put_chars ml (enc64 src @ pad64 src) st; Some (Inr st) }"
proof (induction src arbitrary: st rule: enc64.induct)
  case (1 a b c r)
  define n where "n = word3 a b c"
  have "encode_body ml (a # b # c # r) st =
      do {
        st \<leftarrow> put_chars ml [b64_char n 0, b64_char n 1, b64_char n 2, b64_char n 3] st;
        encode_body ml r st
      }"
    by (simp add: encode_body_def n_def word3_def ENCODE_N_eq Let_def)
  then show ?case
    using 1 by (simp add: put_chars_append [of _ "[_, _, _, _]", simplified] n_def Let_def)
next
  case (2 a b)
  have "word3 0 a b = push_bit 8 (ucast a) OR ucast b" by (simp add: word3_def)
  then show ?case
    by (simp add: encode_body_def base64_encode_tail_def ENCODE_N_eq ENCODE_PAD_def Let_def)
next
  case (3 a)
  have "word3 0 0 a = ucast a" by (simp add: word3_def)
  then show ?case
    by (simp add: encode_body_def base64_encode_tail_def ENCODE_N_eq ENCODE_PAD_def Let_def)
next
  case 4
  show ?case by (simp add: encode_body_def base64_encode_tail_def)
qed

definition b64_text :: "bool \<Rightarrow> byte list \<Rightarrow> byte list" where
  "b64_text ml src =
     (case emit ml 0 (enc64 src @ pad64 src) of (out, l) \<Rightarrow> out @ (if ml \<and> l \<noteq> 0 then [10] else []))"

definition b64_len :: "nat \<Rightarrow> bool \<Rightarrow> nat" where
  "b64_len n ml = BASE64_LEN n + (if ml then CEIL_DIV (BASE64_LEN n) 64 else 0)"

lemma ceil_div_64: "(n + 63) div 64 = n div 64 + (if n mod 64 \<noteq> 0 then 1 else 0 :: nat)"
proof (cases "n mod 64 = 0")
  case True
  then obtain q where "n = 64 * q" by auto
  then show ?thesis by simp
next
  case False
  define q r where "q = n div 64" and "r = n mod 64"
  have "n = 64 * q + r" "r < 64" "0 < r" using False by (simp_all add: q_def r_def)
  then have "n + 63 = 64 * (q + 1) + (r - 1)" "r - 1 < 64" by simp_all
  then have "(n + 63) div 64 = q + 1" by simp
  with False show ?thesis by (simp add: q_def)
qed

lemma length_b64_text: "length (b64_text ml src) = b64_len (length src) ml"
proof (cases ml)
  case False
  then show ?thesis by (simp add: b64_text_def b64_len_def emit_single length_enc64)
next
  case True
  define cs where "cs = enc64 src @ pad64 src"
  have "length cs = BASE64_LEN (length src)" by (simp add: cs_def length_enc64)
  moreover note ceil_div_64
  ultimately show ?thesis
    using True emit_multi [of 0 cs] by (simp add: b64_text_def b64_len_def CEIL_DIV_def case_prod_beta flip: cs_def)
qed

lemma base64_encode_size_eq:
  "n \<le> 1000000000 \<Longrightarrow> base64_encode_size n ml = Some (b64_len n ml)"
proof -
  assume n: "n \<le> 1000000000"
  define m where "m = CEIL_DIV n 3"
  define q where "q = CEIL_DIV (m * 4) 64"
  have m: "n \<le> 3 * m" "3 * m \<le> n + 2" unfolding m_def CEIL_DIV_def by arith+
  have q: "64 * q \<le> m * 4 + 63" unfolding q_def CEIL_DIV_def by arith
  have "int n < INT_MAX" "int m < INT_MAX div 4" "int (m * 4 + q) < INT_MAX" "int (m * 4) < INT_MAX"
    "n < m * 4 \<or> m = 0" "n < m * 4 + q \<or> m * 4 + q = 0"
    using n m q by (auto simp: INT_MAX_def)
  then show ?thesis
    by (auto simp: base64_encode_size_def b64_len_def BASE64_LEN_def BASE64_OPENSSL_LINELEN_def Let_def
        simp flip: m_def q_def)
qed

lemma base64_encode_size_bound: "base64_encode_size n ml = Some N \<Longrightarrow> int N \<le> INT_MAX"
  by (auto simp: base64_encode_size_def Let_def split: if_splits)

lemma base64_encode_eq:
  assumes "length src \<le> 1000000000" "b64_len (length src) ml < length dest" "length dest \<le> SIZE_T_CEILING"
  shows "base64_encode dest src ml =
           Some (b64_text ml src @ replicate (length dest - b64_len (length src) ml) 0, int (b64_len (length src) ml))"
proof -
  define cs out l where "cs = enc64 src @ pad64 src" and "out = fst (emit ml 0 cs)" and "l = snd (emit ml 0 cs)"
  define N where "N = b64_len (length src) ml"
  have tx: "b64_text ml src = out @ (if ml \<and> l \<noteq> 0 then [10] else [])"
    by (simp add: b64_text_def cs_def out_def l_def case_prod_beta)
  then have N: "N = length out + (if ml \<and> l \<noteq> 0 then 1 else 0)"
    using length_b64_text [of ml src] by (auto simp: N_def)
  have "put_chars ml cs (replicate (length dest) 0, 0, 0) =
      Some (out @ replicate (length dest - length out) 0, length out, l)"
    using put_chars_eq [of ml 0 cs "replicate (length dest) 0" "[]"] assms(2) N
    by (simp add: out_def l_def N_def [symmetric])
  then have body: "encode_body ml src (replicate (length dest) 0, 0, 0) =
      Some (Inr (out @ replicate (length dest - length out) 0, length out, l))"
    by (simp add: encode_body_eq cs_def)
  from body obtain n n_idx st where run: "base64_encode_loop ml src 0 0 (replicate (length dest) 0, 0, 0) = Some (n, n_idx, st)"
    "base64_encode_tail ml n n_idx st = Some (Inr (out @ replicate (length dest - length out) 0, length out, l))"
    unfolding encode_body_def by (auto simp: bind_eq_Some_conv)
  have size: "base64_encode_size (length src) ml = Some N" "int N \<le> INT_MAX"
    using base64_encode_size_eq [OF assms(1)] by (simp_all add: N_def base64_encode_size_bound [OF base64_encode_size_eq [OF assms(1)]])
  obtain k where k: "length dest - N = Suc k" using assms(2) by (metis N_def Suc_diff_Suc)
  show ?thesis
  proof (cases "ml \<and> l \<noteq> 0")
    case True
    with N k have "length dest - length out = Suc (Suc k)" by simp
    moreover have "arr_set (out @ 0 # 0 # replicate k 0) (length out) 10 = Some (out @ 10 # 0 # replicate k 0)"
      by simp
    moreover have "arr_set (out @ 10 # 0 # replicate k 0) (Suc (length out)) 0 = Some (out @ 10 # 0 # replicate k 0)"
      using arr_set_append [of "out @ [10]" 0 "replicate k 0" 0] by simp
    ultimately show ?thesis
      using True run size N k assms tx unfolding N_def [symmetric]
      by (simp add: base64_encode_def arr_fill_all)
  next
    case False
    with N k have "length dest - length out = Suc k" by auto
    with False run size N k assms tx show ?thesis
      unfolding N_def [symmetric] by (simp add: base64_encode_def arr_fill_all)
  qed
qed

subsection \<open>The decoder\<close>

lemma length_base64_decode_table [simp]: "length base64_decode_table = 256"
  by (simp add: base64_decode_table_def)

lemma decode_table_all:
  "list_all (\<lambda>k. base64_decode_table ! unat (base64_encode_table ! k) = word_of_nat k) [0..<64]"
  by code_simp

lemma decode_table_char:
  "k < 64 \<Longrightarrow> base64_decode_table ! unat (base64_encode_table ! k) = word_of_nat k"
  using decode_table_all unfolding list_all_iff by fastforce

lemma decode_table_special:
  "base64_decode_table ! 10 = 64" "base64_decode_table ! 61 = 65" "base64_decode_table ! 0 = 255"
  by (simp_all add: base64_decode_table_def)

lemma decode_get: "arr_get base64_decode_table (unat (c :: byte)) = Some (base64_decode_table ! unat c)"
  using unsigned_less [of c, where ?'a = nat] by (simp add: arr_get_in)

lemma sextet_cast: "ucast (ucast (sextet n idx) :: byte) = sextet n idx"
proof (rule bit_word_eqI)
  fix i
  show "bit (ucast (ucast (sextet n idx) :: byte) :: u32) i = bit (sextet n idx) i"
    by (auto simp: bit_simps sextet_bit)
qed

lemma sextet_not_special:
  "(ucast (sextet n idx) :: byte) \<noteq> 255" "(ucast (sextet n idx) :: byte) \<noteq> 64" "(ucast (sextet n idx) :: byte) \<noteq> 65"
proof -
  have "unat (ucast (sextet n idx) :: byte) = unat (sextet n idx)"
    using sextet_bound [of n idx] by (simp add: unsigned_ucast_eq take_bit_nat_eq_self)
  then have *: "unat (ucast (sextet n idx) :: byte) < 64" using sextet_bound [of n idx] by simp
  have "v \<noteq> 255 \<and> v \<noteq> 64 \<and> v \<noteq> 65" if "unat (v :: byte) < 64" for v using that by auto
  from this [OF *] show "(ucast (sextet n idx) :: byte) \<noteq> 255"
    "(ucast (sextet n idx) :: byte) \<noteq> 64" "(ucast (sextet n idx) :: byte) \<noteq> 65" by blast+
qed

lemma decode_table_sextet: "base64_decode_table ! unat (b64_char m idx) = ucast (sextet m idx)"
  using decode_table_char [OF sextet_bound [of m idx]] by (simp add: b64_char_def)

lemma decode_char:
  "base64_decode_loop (b64_char m idx # src) dest di n n_idx =
     (let n = push_bit 6 n OR sextet m idx
      in if n_idx + 1 = 4 then
           (if length dest < 3 \<or> length dest - 3 < di then Some (Inl dest)
            else
              do {
                dest \<leftarrow> arr_set dest di (ucast (drop_bit 16 n));
                dest \<leftarrow> arr_set dest (di + 1) (ucast (drop_bit 8 n AND 0xff));
                dest \<leftarrow> arr_set dest (di + 2) (ucast (n AND 0xff));
                base64_decode_loop src dest (di + 3) 0 0
              })
         else base64_decode_loop src dest di n (n_idx + 1))"
  using sextet_not_special [of m idx]
  by (simp add: decode_get decode_table_sextet sextet_cast del: One_nat_def)

lemma decode_skip_newlines:
  "base64_decode_loop (filter (\<lambda>c. c \<noteq> 10) src) dest di n n_idx = base64_decode_loop src dest di n n_idx"
  by (induction src dest di n n_idx rule: base64_decode_loop.induct)
    (auto simp: decode_get decode_table_special Let_def cong: bind_option_cong)

lemma decode_stop:
  "tl_ok = [] \<or> hd tl_ok = 61 \<Longrightarrow> base64_decode_loop tl_ok dest di n n_idx = Some (Inr (dest, di, n, n_idx))"
  by (cases tl_ok) (auto simp: arr_get_in decode_table_special)

lemma arr_set3:
  "arr_set (pre @ r1 # r2 # r3 # rest) (length pre) a = Some (pre @ a # r2 # r3 # rest)"
  "arr_set (pre @ a # r2 # r3 # rest) (length pre + 1) b = Some (pre @ a # b # r3 # rest)"
  "arr_set (pre @ a # b # r3 # rest) (Suc (Suc (length pre))) c = Some (pre @ a # b # c # rest)"
  using arr_set_append [of "pre @ [a]" r2 "r3 # rest" b] arr_set_append [of "pre @ [a, b]" r3 rest c] by simp_all

lemma decode_enc64:
  assumes "tl_ok = [] \<or> hd tl_ok = 61" "length src \<le> length rest"
  shows "\<exists>dest di n k. base64_decode_loop (enc64 src @ tl_ok) (pre @ rest) (length pre) 0 0 = Some (Inr (dest, di, n, k)) \<and>
           base64_decode_tail dest di n k = Some (Inr (pre @ src @ drop (length src) rest, length pre + length src))"
  using assms(2)
proof (induction src arbitrary: pre rest rule: enc64.induct)
  case (1 a b c r)
  then obtain r1 r2 r3 rest' where rest: "rest = r1 # r2 # r3 # rest'"
    by (cases rest; cases "tl rest"; cases "tl (tl rest)") auto
  define n where "n = word3 a b c"
  have j: "push_bit 6 (push_bit 6 (push_bit 6 (push_bit 6 0 OR sextet n 0) OR sextet n 1) OR sextet n 2) OR sextet n 3 = n"
    using sextets_join4 [of n] word3_short(1) [of a b c] by (simp add: n_def)
  have "base64_decode_loop (enc64 (a # b # c # r) @ tl_ok) (pre @ rest) (length pre) 0 0 =
      base64_decode_loop (enc64 r @ tl_ok) (pre @ a # b # c # rest') (length pre + 3) 0 0"
    unfolding enc64.simps Let_def n_def [symmetric] append.simps append_assoc decode_char j
    using word3_bytes [of a b c, folded n_def] by (simp add: rest j arr_set3 del: One_nat_def)
  with 1(1) [of rest' "pre @ [a, b, c]"] 1(2) rest show ?case by (simp add: numeral_3_eq_3)
next
  case (2 a b)
  then obtain r1 r2 rest' where rest: "rest = r1 # r2 # rest'" by (cases rest; cases "tl rest") auto
  define n where "n = push_bit 2 (word3 0 a b)"
  have j: "push_bit 6 (push_bit 6 (push_bit 6 0 OR sextet n 1) OR sextet n 2) OR sextet n 3 = n"
    using sextets_join3 [of n] word3_short(2) [of a b] by (simp add: n_def)
  have "base64_decode_loop (enc64 [a, b] @ tl_ok) (pre @ rest) (length pre) 0 0 =
      Some (Inr (pre @ rest, length pre, n, 3))"
    unfolding enc64.simps Let_def n_def [symmetric] append.simps decode_char j
    by (simp add: j decode_stop [OF assms(1)])
  moreover have "base64_decode_tail (pre @ rest) (length pre) n 3 =
      Some (Inr (pre @ a # b # rest', length pre + 2))"
    using word2_bytes(1,2) [of a b, folded n_def] arr_set_append [of "pre @ [a]" r2 rest' b]
    by (simp add: base64_decode_tail_def rest)
  ultimately show ?case by (simp add: rest)
next
  case (3 a)
  then obtain r1 rest' where rest: "rest = r1 # rest'" by (cases rest) auto
  define n where "n = push_bit 4 (word3 0 0 a)"
  have j: "push_bit 6 (push_bit 6 0 OR sextet n 2) OR sextet n 3 = n"
    using sextets_join2 [of n] word3_short(3) [of a] by (simp add: n_def)
  have "base64_decode_loop (enc64 [a] @ tl_ok) (pre @ rest) (length pre) 0 0 =
      Some (Inr (pre @ rest, length pre, n, 2))"
    unfolding enc64.simps Let_def n_def [symmetric] append.simps decode_char j
    by (simp add: j decode_stop [OF assms(1)])
  moreover have "base64_decode_tail (pre @ rest) (length pre) n 2 = Some (Inr (pre @ a # rest', length pre + 1))"
    using word2_bytes(3) [of a, folded n_def] by (simp add: base64_decode_tail_def rest)
  ultimately show ?case by (simp add: rest)
next
  case 4
  then show ?case by (simp add: decode_stop [OF assms(1)] base64_decode_tail_def)
qed

lemma enc_table_all:
  "list_all (\<lambda>c. c \<noteq> 0 \<and> c \<noteq> 10 \<and> c \<noteq> 61) base64_encode_table"
  by code_simp

lemma enc64_chars: "c \<in> set (enc64 src) \<Longrightarrow> c \<noteq> 0 \<and> c \<noteq> 10 \<and> c \<noteq> 61"
proof (induction src rule: enc64.induct)
  have "b64_char n i \<noteq> 0 \<and> b64_char n i \<noteq> 10 \<and> b64_char n i \<noteq> 61" for n i
  proof -
    have "b64_char n i \<in> set base64_encode_table" by (simp add: b64_char_def sextet_bound)
    then show ?thesis using enc_table_all unfolding list_all_iff by blast
  qed
  note [simp] = this [THEN conjunct1] this [THEN conjunct2, THEN conjunct1] this [THEN conjunct2, THEN conjunct2]
  {
    case (1 a b c r)
    then show ?case by (auto simp: Let_def)
  next
    case (2 a b)
    then show ?case by (auto simp: Let_def)
  next
    case (3 a)
    then show ?case by (auto simp: Let_def)
  }
qed simp

lemma pad64_chars: "c \<in> set (pad64 src) \<Longrightarrow> c = 61"
  by (induction src rule: pad64.induct) auto

lemma pad64_hd: "pad64 src = [] \<or> hd (pad64 src) = 61"
  by (induction src rule: pad64.induct) auto

lemma base64_decode_chars:
  assumes "filter (\<lambda>c. c \<noteq> 10) t = enc64 src @ tl_ok" "tl_ok = [] \<or> hd tl_ok = 61"
    and "length src \<le> length dest" "int (length dest) \<le> INT_MAX"
  shows "base64_decode dest t = Some (src @ replicate (length dest - length src) 0, int (length src))"
proof -
  from decode_enc64 [OF assms(2), of src "replicate (length dest) 0" "[]"] assms(3) obtain dest' di n k where d:
    "base64_decode_loop (enc64 src @ tl_ok) (replicate (length dest) 0) 0 0 0 = Some (Inr (dest', di, n, k))"
    "base64_decode_tail dest' di n k = Some (Inr (src @ replicate (length dest - length src) 0, length src))"
    by auto
  have "base64_decode_loop t (replicate (length dest) 0) 0 0 0 = Some (Inr (dest', di, n, k))"
    using decode_skip_newlines [of t] d(1) unfolding assms(1) by metis
  with d(2) assms(3,4) show ?thesis by (simp add: base64_decode_def arr_fill_all)
qed

lemma b64_text_filter: "filter (\<lambda>c. c \<noteq> 10) (b64_text ml src) = enc64 src @ pad64 src"
proof -
  have "10 \<notin> set (enc64 src @ pad64 src)" using enc64_chars pad64_chars by fastforce
  from emit_filter [OF this] show ?thesis by (simp add: b64_text_def case_prod_beta)
qed

text \<open>
  C11: base 64 round trip, with and without line breaks, for at most $10^9$ bytes. Encoding a byte
  string into a buffer of at most \<open>SIZE_T_CEILING\<close> bytes that has room for the text and its terminator
  returns the length of the text that \<open>base64_encode_size\<close> announces and writes the text followed by
  zero bytes only; decoding that text into any buffer of at least the original length and at most
  \<open>INT_MAX\<close> bytes gives the original bytes, followed by zeros, and their number.
\<close>

theorem base64_roundtrip:
  assumes "length src \<le> 1000000000" "base64_encode_size (length src) ml = Some n" "n < length dest"
    and "length dest \<le> SIZE_T_CEILING" "length src \<le> length dest2" "int (length dest2) \<le> INT_MAX"
  shows "\<exists>t. base64_encode dest src ml = Some (t @ replicate (length dest - n) 0, int n) \<and> length t = n \<and>
           base64_decode dest2 t = Some (src @ replicate (length dest2 - length src) 0, int (length src))"
proof -
  have n: "n = b64_len (length src) ml" using base64_encode_size_eq [OF assms(1)] assms(2) by simp
  have "base64_encode dest src ml = Some (b64_text ml src @ replicate (length dest - n) 0, int n)"
    using base64_encode_eq [OF assms(1) _ assms(4)] assms(3) by (simp add: n)
  moreover have "base64_decode dest2 (b64_text ml src) = Some (src @ replicate (length dest2 - length src) 0, int (length src))"
    by (rule base64_decode_chars [OF b64_text_filter pad64_hd assms(5,6)])
  ultimately show ?thesis by (auto simp: length_b64_text n)
qed

theorem base64_roundtrip_witness:
  "base64_encode_size 2 True = Some 5 \<and>
   (\<exists>t. base64_encode [1, 1, 1, 1, 1, 1, 1] [0xff, 0x10] True = Some (t @ [0, 0], 5) \<and> length t = 5 \<and>
      base64_decode [3, 3, 3] t = Some ([0xff, 0x10, 0], 2))"
proof -
  have "base64_encode_size 2 True = Some 5"
    by (simp add: base64_encode_size_def BASE64_LEN_def CEIL_DIV_def BASE64_OPENSSL_LINELEN_def INT_MAX_def)
  with base64_roundtrip [of "[0xff, 0x10]" True 5 "[1, 1, 1, 1, 1, 1, 1]" "[3, 3, 3]"] show ?thesis
    by (auto simp: SIZE_T_CEILING_def INT_MAX_def numeral_2_eq_2)
qed

subsection \<open>Encoding without padding\<close>

lemma nopad_loop_eq:
  "drop i dest = cs @ 0 # rest \<Longrightarrow> out \<le> i \<Longrightarrow> 0 \<notin> set cs \<Longrightarrow>
     \<exists>d. nopad_loop dest i out = Some (d, out + length (filter (\<lambda>c. c \<noteq> 61 \<and> c \<noteq> 10) cs)) \<and>
       take (out + length (filter (\<lambda>c. c \<noteq> 61 \<and> c \<noteq> 10) cs)) d =
         take out dest @ filter (\<lambda>c. c \<noteq> 61 \<and> c \<noteq> 10) cs \<and> length d = length dest"
proof (induction cs arbitrary: dest i out)
  case Nil
  then have "i < length dest" "dest ! i = 0" by (metis append_Nil drop_eq_Nil list.discI not_le, metis append_Nil nth_via_drop)
  then show ?case by (simp add: nopad_loop.simps)
next
  case (Cons c cs)
  then have i: "i < length dest" "dest ! i = c" "drop (Suc i) dest = cs @ 0 # rest"
    by (metis append_Cons drop_eq_Nil list.discI not_le, metis append_Cons nth_via_drop,
        metis append_Cons drop_Suc list.sel(3) tl_drop)
  show ?case
  proof (cases "c = 61 \<or> c = 10")
    case True
    with Cons.IH [OF i(3), of out] Cons.prems i show ?thesis
      by (auto simp: nopad_loop.simps [of dest i out])
  next
    case False
    have "drop (Suc i) (dest[out := c]) = cs @ 0 # rest" using i(3) Cons.prems(2) by simp
    from Cons.IH [OF this, of "Suc out"] Cons.prems False i show ?thesis
      by (auto simp: nopad_loop.simps [of dest i out] take_Suc_conv_app_nth)
  qed
qed

text \<open>
  \<open>base64_encode_nopad\<close> returns the length of a text without padding or line breaks, that text
  is NUL-terminated in the destination, and \<open>base64_decode\<close> accepts it and gives back the bytes.
\<close>

theorem base64_nopad_roundtrip:
  assumes "length src \<le> 1000000000" "src \<noteq> []" "BASE64_LEN (length src) < length dest"
    and "length dest \<le> SIZE_T_CEILING" "length src \<le> length dest2" "int (length dest2) \<le> INT_MAX"
  shows "\<exists>d t. base64_encode_nopad dest src = Some (d, int (length t)) \<and> take (length t + 1) d = t @ [0] \<and>
           61 \<notin> set t \<and> 10 \<notin> set t \<and> 0 \<notin> set t \<and>
           base64_decode dest2 t = Some (src @ replicate (length dest2 - length src) 0, int (length src))"
proof -
  define cs where "cs = enc64 src @ pad64 src"
  have cs: "length cs = BASE64_LEN (length src)" "b64_text False src = cs"
    by (simp_all add: cs_def length_enc64 b64_text_def emit_single)
  obtain k where k: "length dest - BASE64_LEN (length src) = Suc k" using assms(3) by (metis Suc_diff_Suc)
  have enc: "base64_encode dest src False = Some (cs @ 0 # replicate k 0, int (length cs))"
    using base64_encode_eq [OF assms(1), of False dest] assms(3,4) k by (simp add: b64_len_def cs)
  have nz: "0 \<notin> set cs" using enc64_chars pad64_chars by (fastforce simp: cs_def)
  have fl: "filter (\<lambda>c. c \<noteq> 61 \<and> c \<noteq> 10) cs = enc64 src"
    using enc64_chars [of _ src] pad64_chars [of _ src] by (auto simp: cs_def filter_empty_conv intro!: filter_True)
  from nopad_loop_eq [of 0 "cs @ 0 # replicate k 0" cs "replicate k 0" 0] nz obtain d where d:
    "nopad_loop (cs @ 0 # replicate k 0) 0 0 = Some (d, length (enc64 src))"
    "take (length (enc64 src)) d = enc64 src" "length d = Suc (length cs + k)"
    by (auto simp: fl)
  have "length (enc64 src) \<le> length cs" by (simp add: cs_def)
  then have lt: "length (enc64 src) < length d" using d(3) by simp
  have "0 < length cs" using assms(2) cs(1) by (cases src) (auto simp: BASE64_LEN_def CEIL_DIV_def)
  moreover have "int (length (enc64 src)) \<le> INT_MAX"
    using \<open>length (enc64 src) \<le> length cs\<close> assms(1) unfolding cs(1)
    by (simp add: BASE64_LEN_def CEIL_DIV_def INT_MAX_def)
  ultimately have "base64_encode_nopad dest src = Some (d[length (enc64 src) := 0], int (length (enc64 src)))"
    using lt d by (simp add: base64_encode_nopad_def enc arr_set_in nth_append)
  moreover have "take (length (enc64 src) + 1) (d[length (enc64 src) := 0]) = enc64 src @ [0]"
    using lt d(2) by (simp add: take_Suc_conv_app_nth)
  moreover have "base64_decode dest2 (enc64 src) = Some (src @ replicate (length dest2 - length src) 0, int (length src))"
    using enc64_chars [of _ src] assms(5,6) by (intro base64_decode_chars [where tl_ok = "[]"]) (auto intro!: filter_True)
  ultimately show ?thesis using enc64_chars [of _ src] by (intro exI conjI) auto
qed

theorem base64_nopad_roundtrip_witness:
  "\<exists>d t. base64_encode_nopad [1, 1, 1, 1, 1, 1] [0xff] = Some (d, int (length t)) \<and>
     base64_decode [3, 3] t = Some ([0xff, 0], 1)"
  using base64_nopad_roundtrip [of "[0xff]" "[1, 1, 1, 1, 1, 1]" "[3, 3]"]
  by (auto simp: SIZE_T_CEILING_def INT_MAX_def BASE64_LEN_def CEIL_DIV_def)

subsection \<open>Memory safety of the decoder\<close>

definition decode_state_ok :: "nat \<Rightarrow> byte list + (byte list \<times> nat \<times> u32 \<times> nat) \<Rightarrow> bool" where
  "decode_state_ok m r \<longleftrightarrow>
     (case r of Inl d \<Rightarrow> length d = m | Inr (d, di, n, k) \<Rightarrow> length d = m \<and> di \<le> m)"

lemma base64_decode_loop_safe:
  "di \<le> length dest \<Longrightarrow>
     \<exists>r. base64_decode_loop src dest di n k = Some r \<and> decode_state_ok (length dest) r"
proof (induction src arbitrary: dest di n k)
  case (Cons c src)
  define v where "v = base64_decode_table ! unat c"
  define n' where "n' = push_bit 6 n OR ucast v"
  consider "v = 255" | "v = 64" | "v = 65" | "v \<notin> {255, 64, 65}" "k + 1 \<noteq> 4"
    | "v \<notin> {255, 64, 65}" "k + 1 = 4" "length dest < 3 \<or> length dest - 3 < di"
    | "v \<notin> {255, 64, 65}" "k + 1 = 4" "\<not> (length dest < 3 \<or> length dest - 3 < di)"
    by blast
  then show ?case
  proof cases
    case 6
    define d where "d = dest[di := ucast (drop_bit 16 n'), di + 1 := ucast (drop_bit 8 n' AND 0xff), di + 2 := ucast (n' AND 0xff)]"
    from 6(3) have room: "Suc (Suc di) < length dest" by linarith
    with 6 have eq: "base64_decode_loop (c # src) dest di n k = base64_decode_loop src d (di + 3) 0 0"
      by (simp add: decode_get v_def [symmetric] n'_def [symmetric] Let_def arr_set_def d_def)
    have "di + 3 \<le> length d" "length d = length dest" using room by (simp_all add: d_def)
    with Cons.IH [of "di + 3" d 0 0] show ?thesis unfolding eq by metis
  qed (use Cons in \<open>auto simp: decode_get v_def [symmetric] n'_def [symmetric] Let_def decode_state_ok_def\<close>)
qed (simp add: decode_state_ok_def)

text \<open>
  C32: \<open>base64_decode\<close> is memory safe on every input. For any source bytes and any destination it
  returns, keeps the size of the destination, never writes outside it, and its result is \<open>-1\<close> or
  a count of at most the destination's size.
\<close>

theorem base64_decode_safe:
  "\<exists>dest' r. base64_decode dest src = Some (dest', r) \<and> length dest' = length dest \<and>
     -1 \<le> r \<and> r \<le> int (length dest)"
proof (cases "INT_MAX < int (length dest)")
  case False
  define z where "z = replicate (length dest) (0 :: byte)"
  from base64_decode_loop_safe [of 0 z src 0 0] obtain r where r:
    "base64_decode_loop src z 0 0 0 = Some r" "decode_state_ok (length dest) r" by (auto simp: z_def)
  have fill: "arr_fill dest 0 (length dest) 0 = Some z" by (simp add: arr_fill_all z_def)
  show ?thesis
  proof (cases r)
    case (Inl d)
    with r False fill show ?thesis by (auto simp: base64_decode_def decode_state_ok_def)
  next
    case (Inr x)
    then obtain d di n k where x: "r = Inr (d, di, n, k)" by (cases x) auto
    with r have d: "length d = length dest" "di \<le> length dest" by (auto simp: decode_state_ok_def)
    have "\<exists>y. base64_decode_tail d di n k = Some y \<and>
        (case y of Inl e \<Rightarrow> length e = length dest | Inr (e, i) \<Rightarrow> length e = length dest \<and> i \<le> length dest)"
      using d by (auto simp: base64_decode_tail_def arr_set_def)
    then obtain y where y: "base64_decode_tail d di n k = Some y"
      "case y of Inl e \<Rightarrow> length e = length dest | Inr (e, i) \<Rightarrow> length e = length dest \<and> i \<le> length dest"
      by blast
    show ?thesis
    proof (cases y)
      case (Inl e)
      with y r(1) x False fill show ?thesis by (simp add: base64_decode_def)
    next
      case (Inr z')
      with y r(1) x False fill show ?thesis by (cases z') (simp add: base64_decode_def)
    qed
  qed
qed (auto simp: base64_decode_def)

end
