(* ===== verification/Di_Ops.thy ===== *)
theory Di_Ops
  imports Prelude
begin

section \<open>Data-independent operations, \<^verbatim>\<open>lib/ctime/di_ops.c\<close>\<close>

text \<open>
  The comparisons and selections that run in a time independent of the data. They replace every
  branch on a secret by masks, so what has to be shown is that the masks compute the branch:
  \<open>tor_memcmp\<close> is \<open>memcmp\<close>, \<open>tor_memeq\<close> is equality, \<open>dimap_search\<close> is a map lookup,
  \<open>select_array_member_cumulative_timei\<close> is the first index past a cumulative weight and
  \<open>memcpy_if_true_timei\<close> is a conditional copy. An \<open>int\<close> is a HOL integer, whose shift is the
  sign-extending one the source requires; unsigned types are words.
\<close>

subsection \<open>Comparison of byte ranges\<close>

fun tor_memcmp_loop :: "byte list \<Rightarrow> byte list \<Rightarrow> nat \<Rightarrow> int \<Rightarrow> int option" where
  "tor_memcmp_loop x y 0 retval = Some retval"
| "tor_memcmp_loop x y (Suc i) retval =
     do {
       v1 \<leftarrow> map_option uint (arr_get x i);
       v2 \<leftarrow> map_option uint (arr_get y i);
       let equal_p = v1 XOR v2;
       let equal_p = equal_p - 1;
       let equal_p = drop_bit 8 equal_p;
       let retval = retval AND equal_p;
       let retval = retval + (v1 - v2);
       tor_memcmp_loop x y i retval
     }"

definition tor_memcmp :: "byte list \<Rightarrow> byte list \<Rightarrow> nat \<Rightarrow> int option" where
  "tor_memcmp a b len = tor_memcmp_loop a b len 0"

fun tor_memeq_loop :: "byte list \<Rightarrow> byte list \<Rightarrow> nat \<Rightarrow> u32 \<Rightarrow> u32 option" where
  "tor_memeq_loop ba bb 0 any_difference = Some any_difference"
| "tor_memeq_loop ba bb (Suc sz) any_difference =
     do {
       x \<leftarrow> arr_get ba 0;
       y \<leftarrow> arr_get bb 0;
       let byte_diff = x XOR y;
       tor_memeq_loop (tl ba) (tl bb) sz (any_difference OR ucast byte_diff)
     }"

definition tor_memeq :: "byte list \<Rightarrow> byte list \<Rightarrow> nat \<Rightarrow> u32 option" where
  "tor_memeq a b sz =
     do {
       any_difference \<leftarrow> tor_memeq_loop a b sz 0;
       Some (1 AND drop_bit 8 (any_difference - 1))
     }"

fun safe_mem_is_zero_loop :: "byte list \<Rightarrow> nat \<Rightarrow> u32 \<Rightarrow> u32 option" where
  "safe_mem_is_zero_loop ptr 0 tot = Some tot"
| "safe_mem_is_zero_loop ptr (Suc sz) tot =
     do {
       x \<leftarrow> arr_get ptr 0;
       safe_mem_is_zero_loop (tl ptr) sz (tot OR ucast x)
     }"

definition safe_mem_is_zero :: "byte list \<Rightarrow> nat \<Rightarrow> u32 option" where
  "safe_mem_is_zero mem sz =
     do {
       tot \<leftarrow> safe_mem_is_zero_loop mem sz 0;
       Some (1 AND drop_bit 8 (tot - 1))
     }"

subsection \<open>The map from 32-byte digests\<close>

text \<open>An entry of the linked list; a value is a pointer, a 64-bit word whose null is 0.\<close>

record di_entry =
  di_key :: "byte list"
  di_val :: u64

type_synonym di_digest256_map = "di_entry list"

fun dimap_search_loop :: "di_digest256_map \<Rightarrow> byte list \<Rightarrow> u64 \<Rightarrow> u64 option" where
  "dimap_search_loop [] key result = Some result"
| "dimap_search_loop (e # mp) key result =
     do {
       r \<leftarrow> map_option ucast (tor_memeq (di_key e) key 32);
       let r = (r :: u64) - 1;
       let result = result AND r;
       let result = result OR (di_val e AND NOT r);
       dimap_search_loop mp key result
     }"

definition dimap_search :: "di_digest256_map \<Rightarrow> byte list \<Rightarrow> u64 \<Rightarrow> u64 option" where
  "dimap_search mp key dflt_val = dimap_search_loop mp key dflt_val"

definition dimap_add_entry :: "di_digest256_map \<Rightarrow> byte list \<Rightarrow> u64 \<Rightarrow> di_digest256_map option" where
  "dimap_add_entry mp key val =
     do {
       old_val \<leftarrow> dimap_search mp key 0;
       guard (old_val = 0);
       guard (val \<noteq> 0);
       k \<leftarrow> arr_slice key 0 32;
       Some (\<lparr>di_key = k, di_val = val\<rparr> # mp)
     }"

text \<open>\<open>dimap_free_\<close> calls \<open>free_fn\<close> on each value in the order of the list; the model returns them.\<close>

fun dimap_free :: "di_digest256_map \<Rightarrow> u64 list" where
  "dimap_free [] = []"
| "dimap_free (victim # mp) = di_val victim # dimap_free mp"

subsection \<open>Selection and conditional copy\<close>

text \<open>
  \<open>gt_i64_timei\<close> is the comparison where pointers have eight bytes; \<open>gt_i64_timei_32\<close> is the
  function other platforms use.
\<close>

definition gt_i64_timei :: "u64 \<Rightarrow> u64 \<Rightarrow> bool" where
  "gt_i64_timei a b \<longleftrightarrow> b < a"

definition gt_i64_timei_32 :: "u64 \<Rightarrow> u64 \<Rightarrow> bool" where
  "gt_i64_timei_32 a b = (let diff = sint (b - a); res = drop_bit 63 diff in res AND 1 \<noteq> 0)"

definition INT64_MAX :: u64 where
  "INT64_MAX = 9223372036854775807"

fun select_loop :: "u64 list \<Rightarrow> nat \<Rightarrow> u64 \<Rightarrow> u64 \<Rightarrow> int \<Rightarrow> nat \<Rightarrow> u64 \<times> int \<times> nat" where
  "select_loop [] i total_so_far rand_val i_chosen n_chosen = (total_so_far, i_chosen, n_chosen)"
| "select_loop (e # entries) i total_so_far rand_val i_chosen n_chosen =
     (let total_so_far = total_so_far + e in
      if gt_i64_timei total_so_far rand_val
      then select_loop entries (i + 1) total_so_far INT64_MAX (int i) (n_chosen + 1)
      else select_loop entries (i + 1) total_so_far rand_val i_chosen n_chosen)"

definition select_array_member_cumulative_timei :: "u64 list \<Rightarrow> u64 \<Rightarrow> u64 \<Rightarrow> int option" where
  "select_array_member_cumulative_timei entries tot rand_val =
     do {
       let (total_so_far, i_chosen, n_chosen) = select_loop entries 0 0 rand_val (-1) 0;
       guard (total_so_far = tot);
       guard (n_chosen = 1);
       guard (0 \<le> i_chosen);
       guard (i_chosen < int (length entries));
       Some i_chosen
     }"

fun memcpy_if_true_loop :: "byte \<Rightarrow> byte list \<Rightarrow> byte list \<Rightarrow> nat \<Rightarrow> nat \<Rightarrow> byte list option" where
  "memcpy_if_true_loop msk dest src i 0 = Some dest"
| "memcpy_if_true_loop msk dest src i (Suc n) =
     do {
       d \<leftarrow> arr_get dest i;
       s \<leftarrow> arr_get src i;
       dest \<leftarrow> arr_set dest i ((d AND NOT msk) OR (s AND msk));
       memcpy_if_true_loop msk dest src (i + 1) n
     }"

definition memcpy_if_true_timei :: "bool \<Rightarrow> byte list \<Rightarrow> byte list \<Rightarrow> nat \<Rightarrow> byte list option" where
  "memcpy_if_true_timei s dest src n =
     (let msk = (- (if s then 1 else 0) :: byte) in memcpy_if_true_loop msk dest src 0 n)"

subsection \<open>The masks compute the branches\<close>

lemma memcmp_mask: "drop_bit 8 ((uint x XOR uint y) - 1) = (if x = y then -1 else 0)" for x y :: byte
proof (cases "x = y")
  case False
  define z where "z = x XOR y"
  have "x = y" if "z = 0" using that by (auto simp: z_def bit_eq_iff bit_xor_iff)
  with False have "z \<noteq> 0" by blast
  then have "0 < uint z" "uint z < 256"
    using uint_lt2p [of z] by (simp_all add: uint_0_iff order_less_le)
  then show ?thesis using False by (simp add: drop_bit_eq_div z_def flip: uint_xor)
qed (simp add: drop_bit_eq_div)

lemma least_difference:
  assumes "take i x = take i y" "i < length x" "i < length y" "x ! i \<noteq> y ! i"
  shows "(LEAST k. x ! k \<noteq> y ! k) = i"
proof (rule Least_equality)
  fix k
  assume "x ! k \<noteq> y ! k"
  then show "i \<le> k" using assms(1) nth_take [of k i x] nth_take [of k i y] by (cases "k < i") auto
qed (rule assms(4))

lemma tor_memcmp_loop_eq:
  "i \<le> length x \<Longrightarrow> i \<le> length y \<Longrightarrow>
     tor_memcmp_loop x y i r =
       Some (if take i x = take i y then r
             else let k = (LEAST k. x ! k \<noteq> y ! k) in uint (x ! k) - uint (y ! k))"
proof (induction i arbitrary: r)
  case (Suc i)
  then have "take (Suc i) x = take i x @ [x ! i]" "take (Suc i) y = take i y @ [y ! i]"
    by (simp_all add: take_Suc_conv_app_nth)
  with Suc show ?case
    using least_difference [of i x y] by (simp add: arr_get_def memcmp_mask Let_def)
qed simp

lemma zero_test: "unat w < 256 \<Longrightarrow> 1 AND drop_bit 8 (w - 1) = (if w = 0 then 1 else 0)" for w :: u32
proof (cases "w = 0")
  case False
  assume "unat w < 256"
  with False have "unat (w - 1) < 2 ^ 8" by (simp add: unat_minus_one)
  then have "drop_bit 8 (unat (w - 1)) = 0" by (simp add: drop_bit_eq_div)
  then have "unat (drop_bit 8 (w - 1)) = 0" by (simp only: unat_drop_bit_eq)
  then have "drop_bit 8 (w - 1) = 0" by (simp only: unat_eq_zero)
  with False show ?thesis by simp
qed (simp, code_simp)

lemma zero_test_0 [simp]: "1 AND mask 24 = (1 :: u32)"
  by code_simp

lemma or_byte_bound: "unat w < 256 \<Longrightarrow> unat (w OR ucast b) < 256" for w :: u32 and b :: byte
proof -
  assume "unat w < 256"
  then have "take_bit 8 (unat w) = unat w" "take_bit 8 (unat b) = unat b"
    using unsigned_less [of b, where ?'a = nat] by (simp_all add: take_bit_nat_eq_self)
  then have "take_bit 8 (unat w OR unat b) = unat w OR unat b" by simp
  then have "unat w OR unat b < 2 ^ 8" by (simp only: take_bit_nat_eq_self_iff)
  moreover have "take_bit 32 (unat b) = unat b"
    using unsigned_less [of b, where ?'a = nat] by (simp add: take_bit_nat_eq_self)
  ultimately show ?thesis by (simp add: unsigned_or_eq unsigned_ucast_eq)
qed

lemma or_eq_0: "w OR v = 0 \<longleftrightarrow> w = 0 \<and> v = 0" for w v :: u32
  by (auto simp: bit_eq_iff bit_or_iff)

lemma xor_ucast_eq_0: "ucast (x XOR y) = (0 :: u32) \<longleftrightarrow> x = y" for x y :: byte
proof -
  have "unat (ucast (x XOR y) :: u32) = unat (x XOR y)"
    using unsigned_less [of "x XOR y", where ?'a = nat] by (simp add: unsigned_ucast_eq take_bit_nat_eq_self)
  then have "ucast (x XOR y) = (0 :: u32) \<longleftrightarrow> x XOR y = 0" by (metis unat_eq_zero)
  also have "\<dots> \<longleftrightarrow> x = y" by (auto simp: bit_eq_iff bit_xor_iff)
  finally show ?thesis .
qed

lemma tor_memeq_loop_eq:
  "sz \<le> length a \<Longrightarrow> sz \<le> length b \<Longrightarrow> unat d < 256 \<Longrightarrow>
     \<exists>d'. tor_memeq_loop a b sz d = Some d' \<and> unat d' < 256 \<and>
       (d' = 0 \<longleftrightarrow> d = 0 \<and> take sz a = take sz b)"
proof (induction a b sz d rule: tor_memeq_loop.induct)
  case (2 ba bb sz d)
  from 2(2,3) obtain x xs y ys where "ba = x # xs" "bb = y # ys" by (cases ba; cases bb) auto
  with 2(1) [of x y "x XOR y"] 2(2-) or_byte_bound [of d "x XOR y"] show ?case
    by (auto simp: arr_get_def or_eq_0 xor_ucast_eq_0)
qed auto

lemma tor_memeq_eq:
  "sz \<le> length a \<Longrightarrow> sz \<le> length b \<Longrightarrow>
     tor_memeq a b sz = Some (if take sz a = take sz b then 1 else 0)"
  using tor_memeq_loop_eq [of sz a b 0] by (auto simp: tor_memeq_def zero_test)

lemma safe_mem_is_zero_loop_eq:
  "sz \<le> length a \<Longrightarrow> unat d < 256 \<Longrightarrow>
     \<exists>d'. safe_mem_is_zero_loop a sz d = Some d' \<and> unat d' < 256 \<and>
       (d' = 0 \<longleftrightarrow> d = 0 \<and> take sz a = replicate sz 0)"
proof (induction a sz d rule: safe_mem_is_zero_loop.induct)
  case (2 ptr sz d)
  from 2(2) obtain x xs where "ptr = x # xs" by (cases ptr) auto
  with 2(1) [of x] 2(2-) or_byte_bound [of d x] xor_ucast_eq_0 [of x 0] show ?case
    by (auto simp: arr_get_def or_eq_0)
qed auto

lemma memcpy_if_true_loop_eq:
  assumes "msk = 0 \<or> msk = -1"
  shows "i + n \<le> length dest \<Longrightarrow> i + n \<le> length src \<Longrightarrow>
     memcpy_if_true_loop msk dest src i n =
       Some (if msk = 0 then dest else take i dest @ take n (drop i src) @ drop (i + n) dest)"
proof (induction n arbitrary: i dest)
  case (Suc n)
  then have "drop i src = src ! i # drop (Suc i) src" by (simp add: Cons_nth_drop_Suc)
  with Suc assms show ?case
    by (auto simp: arr_get_def arr_set_def take_Suc_conv_app_nth)
qed simp

text \<open>
  C36: the timing-safe primitives compute what their branching counterparts do. On readable
  ranges, \<open>tor_memcmp\<close> returns the difference of the first pair of bytes that differ, and 0 when
  there is none; \<open>tor_memeq\<close> and \<open>safe_mem_is_zero\<close> return exactly 1 or 0; \<open>memcpy_if_true_timei\<close>
  copies the range when its flag is set and leaves the destination alone otherwise.
\<close>

theorem timing_safe_primitives:
  assumes "len \<le> length a" "len \<le> length b"
  shows "tor_memcmp a b len =
           Some (if take len a = take len b then 0
                 else let k = (LEAST k. a ! k \<noteq> b ! k) in uint (a ! k) - uint (b ! k)) \<and>
         tor_memeq a b len = Some (if take len a = take len b then 1 else 0) \<and>
         safe_mem_is_zero a len = Some (if take len a = replicate len 0 then 1 else 0) \<and>
         memcpy_if_true_timei s a b len = Some (if s then take len b @ drop len a else a)"
  using assms tor_memcmp_loop_eq [of len a b 0] tor_memeq_eq [of len a b]
    safe_mem_is_zero_loop_eq [of len a 0] memcpy_if_true_loop_eq [of "- (if s then 1 else 0)" 0 len a b]
  by (auto simp: tor_memcmp_def safe_mem_is_zero_def zero_test memcpy_if_true_timei_def Let_def)

theorem timing_safe_primitives_witness:
  "tor_memcmp [1, 2, 3] [1, 9, 0] 2 = Some (-7) \<and> tor_memeq [1, 2, 3] [1, 9, 0] 2 = Some 0 \<and>
   memcpy_if_true_timei True [1, 2, 3] [1, 9, 0] 2 = Some [1, 9, 3]"
proof -
  have "(LEAST k. [1, 2, 3 :: byte] ! k \<noteq> [1, 9, 0] ! k) = 1"
    by (rule least_difference) simp_all
  with timing_safe_primitives [of 2 "[1, 2, 3]" "[1, 9, 0]" True] show ?thesis by simp
qed
subsection \<open>The digest map\<close>

fun add_list :: "('m \<Rightarrow> 'k \<Rightarrow> 'v \<Rightarrow> 'm option) \<Rightarrow> 'm \<Rightarrow> ('k \<times> 'v) list \<Rightarrow> 'm option" where
  "add_list add m [] = Some m"
| "add_list add m ((k, v) # kvs) =
     do {
       m \<leftarrow> add m k v;
       add_list add m kvs
     }"

text \<open>
  What a user of a map that refuses to replace an entry relies on: a lookup with a default, and an
  insertion that succeeds for a fresh key and changes that key only.
\<close>

locale write_once_map =
  fixes add :: "'m \<Rightarrow> 'k \<Rightarrow> 'v \<Rightarrow> 'm option"
    and lookup :: "'m \<Rightarrow> 'k \<Rightarrow> 'v \<Rightarrow> 'v option"
    and new :: 'm
    and ok :: "'m \<Rightarrow> bool"
    and keys :: "'k set"
    and null :: 'v
  assumes ok_new: "ok new"
    and lookup_new: "k \<in> keys \<Longrightarrow> lookup new k d = Some d"
    and add_fresh: "ok m \<Longrightarrow> k \<in> keys \<Longrightarrow> v \<noteq> null \<Longrightarrow> lookup m k null = Some null \<Longrightarrow>
      \<exists>m'. add m k v = Some m' \<and> ok m' \<and>
        (\<forall>k' d. k' \<in> keys \<longrightarrow> lookup m' k' d = (if k' = k then Some v else lookup m k' d))"
begin

lemma add_list_lookup:
  assumes "distinct (map fst kvs)" "fst ` set kvs \<subseteq> keys" "null \<notin> snd ` set kvs" "ok m"
    and "\<And>k. k \<in> fst ` set kvs \<Longrightarrow> lookup m k null = Some null"
  shows "\<exists>m'. add_list add m kvs = Some m' \<and> ok m' \<and>
           (\<forall>k d. k \<in> keys \<longrightarrow>
              lookup m' k d = (case map_of kvs k of None \<Rightarrow> lookup m k d | Some v \<Rightarrow> Some v))"
  using assms
proof (induction kvs arbitrary: m)
  case (Cons kv kvs)
  obtain k v where kv: "kv = (k, v)" by fastforce
  with Cons.prems add_fresh [of m k v] obtain m1 where m1: "add m k v = Some m1" "ok m1"
    "\<And>k' d. k' \<in> keys \<Longrightarrow> lookup m1 k' d = (if k' = k then Some v else lookup m k' d)" by auto
  have "k \<notin> fst ` set kvs" using Cons.prems(1) by (simp add: kv)
  then have none: "map_of kvs k = None" by (simp add: map_of_eq_None_iff)
  have fresh: "lookup m1 k' null = Some null" if "k' \<in> fst ` set kvs" for k'
  proof -
    have "k' \<noteq> k" "k' \<in> keys" using that \<open>k \<notin> fst ` set kvs\<close> Cons.prems(2) by auto
    then show ?thesis using m1(3) [of k' null] Cons.prems(5) [of k'] that by simp
  qed
  have "\<exists>m'. add_list add m1 kvs = Some m' \<and> ok m' \<and>
      (\<forall>k d. k \<in> keys \<longrightarrow> lookup m' k d = (case map_of kvs k of None \<Rightarrow> lookup m1 k d | Some v \<Rightarrow> Some v))"
    using Cons.prems fresh m1(2) by (intro Cons.IH) auto
  with m1 none show ?case by (auto simp: kv split: option.split)
qed simp

end

definition dimap_ok :: "di_digest256_map \<Rightarrow> bool" where
  "dimap_ok mp \<longleftrightarrow> list_all (\<lambda>e. length (di_key e) = 32 \<and> di_val e \<noteq> 0) mp \<and> distinct (map di_key mp)"

lemma dimap_search_Nil [simp]: "dimap_search [] k d = Some d"
  by (simp add: dimap_search_def)

lemma dimap_search_Cons [simp]:
  "length (di_key e) = 32 \<Longrightarrow> length k = 32 \<Longrightarrow>
     dimap_search (e # mp) k d = dimap_search mp k (if di_key e = k then di_val e else d)"
  by (simp add: dimap_search_def tor_memeq_eq Let_def)

lemma dimap_search_eq:
  "dimap_ok mp \<Longrightarrow> length k = 32 \<Longrightarrow>
     dimap_search mp k d =
       Some (case map_of (map (\<lambda>e. (di_key e, di_val e)) mp) k of None \<Rightarrow> d | Some v \<Rightarrow> v)"
proof (induction mp arbitrary: d)
  case (Cons e mp)
  moreover have "map_of (map (\<lambda>e. (di_key e, di_val e)) mp) (di_key e) = None"
    using Cons.prems by (auto simp: dimap_ok_def map_of_eq_None_iff image_image)
  ultimately show ?case by (auto simp: dimap_ok_def)
qed simp

lemma dimap_search_null:
  "dimap_ok mp \<Longrightarrow> length k = 32 \<Longrightarrow> dimap_search mp k 0 = Some 0 \<longleftrightarrow> k \<notin> di_key ` set mp"
proof -
  assume ok: "dimap_ok mp" "length k = 32"
  have "v \<noteq> 0" if "map_of (map (\<lambda>e. (di_key e, di_val e)) mp) k = Some v" for v
    using ok(1) map_of_SomeD [OF that] by (auto simp: dimap_ok_def list_all_iff)
  then show ?thesis
    using ok map_of_eq_None_iff [of "map (\<lambda>e. (di_key e, di_val e)) mp" k]
    by (auto simp: dimap_search_eq image_image split: option.split)
qed

interpretation dimap: write_once_map dimap_add_entry dimap_search "[]" dimap_ok "{k. length k = 32}" 0
proof
  fix m :: di_digest256_map and k and v :: u64
  assume "dimap_ok m" and k: "k \<in> {k. length k = 32}" and "v \<noteq> 0" "dimap_search m k 0 = Some 0"
  moreover from this have "k \<notin> di_key ` set m" by (simp add: dimap_search_null)
  ultimately have "dimap_add_entry m k v = Some (\<lparr>di_key = k, di_val = v\<rparr> # m)"
    "dimap_ok (\<lparr>di_key = k, di_val = v\<rparr> # m)" "map_of (map (\<lambda>e. (di_key e, di_val e)) m) k = None"
    by (auto simp: dimap_add_entry_def arr_slice_def dimap_ok_def map_of_eq_None_iff image_image)
  with k \<open>dimap_ok m\<close> show "\<exists>m'. dimap_add_entry m k v = Some m' \<and> dimap_ok m' \<and>
      (\<forall>k' d. k' \<in> {k. length k = 32} \<longrightarrow>
         dimap_search m' k' d = (if k' = k then Some v else dimap_search m k' d))"
    by (auto simp: dimap_search_eq)
qed (simp_all add: dimap_ok_def)

text \<open>
  C37: the data-independent map is a map. Entries with distinct 32-byte keys and non-null values
  can all be added; a search then returns the value added for the key, or the default when there
  is none, wherever the entry is in the list; and a further insertion is refused by the assertions
  exactly when the key is present or the value null.
\<close>

theorem dimap_correct:
  assumes "distinct (map fst kvs)" "fst ` set kvs \<subseteq> {k. length k = 32}" "0 \<notin> snd ` set kvs"
    and "length k = 32"
  shows "\<exists>m. add_list dimap_add_entry [] kvs = Some m \<and>
           dimap_search m k d = Some (case map_of kvs k of None \<Rightarrow> d | Some v \<Rightarrow> v) \<and>
           (dimap_add_entry m k v = None \<longleftrightarrow> map_of kvs k \<noteq> None \<or> v = 0)"
proof -
  from dimap.add_list_lookup [OF assms(1-3) dimap.ok_new] assms(2,4) obtain m where
    m: "add_list dimap_add_entry [] kvs = Some m"
    "\<And>d. dimap_search m k d = (case map_of kvs k of None \<Rightarrow> dimap_search [] k d | Some v \<Rightarrow> Some v)"
    by auto
  have "w \<noteq> 0" if "map_of kvs k = Some w" for w
    using assms(3) map_of_SomeD [OF that] by force
  with m assms(4) show ?thesis
    by (intro exI [of _ m]) (auto simp: dimap_add_entry_def arr_slice_def split: option.splits)
qed

theorem dimap_correct_witness:
  "\<exists>m. add_list dimap_add_entry [] [(replicate 32 1, 7), (replicate 32 2, 8)] = Some m \<and>
     dimap_search m (replicate 32 1) 0 = Some 7"
  using dimap_correct [of "[(replicate 32 1, 7), (replicate 32 2, 8)]" "replicate 32 1" 0 0] by auto

subsection \<open>Selection by cumulative weight\<close>

lemma unat_add_small: "unat a + unat b \<le> unat INT64_MAX \<Longrightarrow> unat (a + b) = unat a + unat b" for a b :: u64
  by (simp add: unat_word_ariths INT64_MAX_def)

lemma select_loop_done:
  "unat acc + sum_list (map unat es) \<le> unat INT64_MAX \<Longrightarrow>
     select_loop es i acc INT64_MAX c n = (acc + of_nat (sum_list (map unat es)), c, n)"
proof (induction es arbitrary: i acc)
  case (Cons e es)
  then have u: "unat (acc + e) = unat acc + unat e" by (intro unat_add_small) simp
  with Cons.prems have "\<not> gt_i64_timei (acc + e) INT64_MAX"
    by (simp add: gt_i64_timei_def word_less_nat_alt)
  with Cons.IH [of "acc + e" "i + 1"] Cons.prems u show ?case by (simp add: Let_def add.assoc)
qed simp

lemma select_loop_first:
  "unat acc + sum_list (map unat es) \<le> unat INT64_MAX \<Longrightarrow> acc \<le> rand_val \<Longrightarrow>
   unat rand_val < unat acc + sum_list (map unat es) \<Longrightarrow>
     \<exists>k < length es. unat acc + sum_list (map unat (take k es)) \<le> unat rand_val \<and>
       unat rand_val < unat acc + sum_list (map unat (take (Suc k) es)) \<and>
       select_loop es i acc rand_val c n = (acc + of_nat (sum_list (map unat es)), int (i + k), n + 1)"
proof (induction es arbitrary: i acc)
  case (Cons e es)
  then have u: "unat (acc + e) = unat acc + unat e" by (intro unat_add_small) simp
  show ?case
  proof (cases "gt_i64_timei (acc + e) rand_val")
    case True
    with Cons.prems u select_loop_done [of "acc + e" es "i + 1" "int i" "n + 1"] show ?thesis
      by (intro exI [of _ 0]) (simp add: Let_def add.assoc gt_i64_timei_def word_less_nat_alt word_le_nat_alt)
  next
    case False
    with Cons.IH [of "acc + e" "i + 1"] Cons.prems u obtain k where
      "k < length es" "unat acc + unat e + sum_list (map unat (take k es)) \<le> unat rand_val"
      "unat rand_val < unat acc + unat e + sum_list (map unat (take (Suc k) es))"
      "select_loop es (i + 1) (acc + e) rand_val c n =
         (acc + e + of_nat (sum_list (map unat es)), int (i + 1 + k), n + 1)"
      by (auto simp: gt_i64_timei_def not_less)
    with False show ?thesis
      by (intro exI [of _ "Suc k"]) (simp add: Let_def add.assoc)
  qed
qed (simp add: word_le_nat_alt)

text \<open>
  Weighted selection. For weights whose sum is the given total, at most \<open>INT64_MAX\<close>, and a
  random value below the total, \<open>select_array_member_cumulative_timei\<close> passes its assertions and
  returns the index whose cumulative interval contains the random value; in particular an entry
  of weight 0 is never chosen, and the loop that keeps running after the choice does not change it.
\<close>

theorem select_array_member_correct:
  assumes "sum_list (map unat entries) = unat tot" "tot \<le> INT64_MAX" "rand_val < tot"
  shows "\<exists>k < length entries.
           select_array_member_cumulative_timei entries tot rand_val = Some (int k) \<and>
           sum_list (map unat (take k entries)) \<le> unat rand_val \<and>
           unat rand_val < sum_list (map unat (take (Suc k) entries))"
proof -
  have "sum_list (map unat entries) \<le> unat INT64_MAX" "unat rand_val < sum_list (map unat entries)"
    using assms by (simp_all add: word_le_nat_alt word_less_nat_alt)
  with select_loop_first [of 0 entries rand_val 0 "-1" 0] assms(1) obtain k where "k < length entries"
    "sum_list (map unat (take k entries)) \<le> unat rand_val"
    "unat rand_val < sum_list (map unat (take (Suc k) entries))"
    "select_loop entries 0 0 rand_val (-1) 0 = (tot, int k, 1)" by auto
  then show ?thesis
    by (intro exI [of _ k]) (simp add: select_array_member_cumulative_timei_def)
qed

theorem select_array_member_correct_witness:
  "select_array_member_cumulative_timei [5, 0, 4] 9 5 = Some 2"
proof -
  from select_array_member_correct [of "[5, 0, 4]" 9 5] obtain k where
    "k < 3" "select_array_member_cumulative_timei [5, 0, 4] 9 5 = Some (int k)"
    "5 < sum_list (map unat (take (Suc k) [5, 0, 4 :: u64]))"
    by (auto simp: INT64_MAX_def)
  then show ?thesis by (auto simp: less_Suc_eq numeral_3_eq_3)
qed

lemma gt_i64_timei_32_eq:
  assumes "a \<le> INT64_MAX" "b \<le> INT64_MAX"
  shows "gt_i64_timei_32 a b = gt_i64_timei a b"
proof -
  define d where "d = uint b - uint a"
  have bd: "- (2 ^ 63) \<le> d" "d < 2 ^ 63"
    using assms uint_ge_0 [of a] uint_ge_0 [of b] unfolding d_def INT64_MAX_def word_le_def
    by (simp_all, linarith+)
  have "b - a = word_of_int d" by (simp add: d_def)
  then have "sint (b - a) = d" using bd by (simp add: sint_sbintrunc' signed_take_bit_int_eq_self)
  moreover have "drop_bit 63 d = (if d < 0 then -1 else 0)"
    using bd by (auto simp: drop_bit_eq_div div_eq_minus1)
  ultimately show ?thesis
    by (simp add: gt_i64_timei_32_def gt_i64_timei_def word_less_def d_def)
qed

end
