(* ===== verification/Cstring.thy ===== *)
theory Cstring
  imports Binascii Smartlist_Ops Di_Ops
begin

section \<open>Character classes and strings, \<^verbatim>\<open>lib/string/compat_ctype.c\<close> and \<^verbatim>\<open>util_string.c\<close>\<close>

text \<open>
  A NUL-terminated string is the list of the bytes before its NUL; a pointer into it is the rest of
  the list from there, and the empty list is the pointer to the NUL. A function that returns a
  pointer returns such a rest. A memory range, given by a pointer and a length, is a list of bytes
  too, but may hold zero bytes. In-place updates return the new contents. The functions of the C
  library that the code calls (\<open>strchr\<close>, \<open>memchr\<close>, \<open>strncmp\<close>, \<open>strcasecmp\<close>) are defined as the C
  standard describes them in the C locale.
\<close>

subsection \<open>Character classes\<close>

definition ctype_bit :: "u32 list \<Rightarrow> byte \<Rightarrow> bool" where
  "ctype_bit table u =
     (table ! unat (drop_bit 5 u AND 7) AND push_bit (unat (u AND 31)) 1 \<noteq> 0)"

definition TOR_ISALPHA_TABLE :: "u32 list" where
  "TOR_ISALPHA_TABLE = [0, 0, 0x7fffffe, 0x7fffffe, 0, 0, 0, 0]"

definition TOR_ISALNUM_TABLE :: "u32 list" where
  "TOR_ISALNUM_TABLE = [0, 0x3ff0000, 0x7fffffe, 0x7fffffe, 0, 0, 0, 0]"

definition TOR_ISSPACE_TABLE :: "u32 list" where
  "TOR_ISSPACE_TABLE = [0x3e00, 0x1, 0, 0, 0, 0, 0, 0]"

definition TOR_ISXDIGIT_TABLE :: "u32 list" where
  "TOR_ISXDIGIT_TABLE = [0, 0x3ff0000, 0x7e, 0x7e, 0, 0, 0, 0]"

definition TOR_ISDIGIT_TABLE :: "u32 list" where
  "TOR_ISDIGIT_TABLE = [0, 0x3ff0000, 0, 0, 0, 0, 0, 0]"

definition TOR_ISPRINT_TABLE :: "u32 list" where
  "TOR_ISPRINT_TABLE = [0, 0xffffffff, 0xffffffff, 0x7fffffff, 0, 0, 0, 0x0]"

definition TOR_ISUPPER_TABLE :: "u32 list" where
  "TOR_ISUPPER_TABLE = [0, 0, 0x7fffffe, 0, 0, 0, 0, 0]"

definition TOR_ISLOWER_TABLE :: "u32 list" where
  "TOR_ISLOWER_TABLE = [0, 0, 0, 0x7fffffe, 0, 0, 0, 0]"

definition TOR_ISALPHA :: "byte \<Rightarrow> bool" where
  "TOR_ISALPHA = ctype_bit TOR_ISALPHA_TABLE"

definition TOR_ISALNUM :: "byte \<Rightarrow> bool" where
  "TOR_ISALNUM = ctype_bit TOR_ISALNUM_TABLE"

definition TOR_ISSPACE :: "byte \<Rightarrow> bool" where
  "TOR_ISSPACE = ctype_bit TOR_ISSPACE_TABLE"

definition TOR_ISDIGIT :: "byte \<Rightarrow> bool" where
  "TOR_ISDIGIT = ctype_bit TOR_ISDIGIT_TABLE"

definition TOR_ISXDIGIT :: "byte \<Rightarrow> bool" where
  "TOR_ISXDIGIT = ctype_bit TOR_ISXDIGIT_TABLE"

definition TOR_ISPRINT :: "byte \<Rightarrow> bool" where
  "TOR_ISPRINT = ctype_bit TOR_ISPRINT_TABLE"

definition TOR_ISLOWER :: "byte \<Rightarrow> bool" where
  "TOR_ISLOWER = ctype_bit TOR_ISLOWER_TABLE"

definition TOR_ISUPPER :: "byte \<Rightarrow> bool" where
  "TOR_ISUPPER = ctype_bit TOR_ISUPPER_TABLE"

definition TOR_TOUPPER_TABLE :: "byte list" where
  "TOR_TOUPPER_TABLE =
    [0, 1, 2, 3, 4, 5, 6, 7, 8, 9, 10, 11, 12, 13, 14, 15,
     16, 17, 18, 19, 20, 21, 22, 23, 24, 25, 26, 27, 28, 29, 30, 31,
     32, 33, 34, 35, 36, 37, 38, 39, 40, 41, 42, 43, 44, 45, 46, 47,
     48, 49, 50, 51, 52, 53, 54, 55, 56, 57, 58, 59, 60, 61, 62, 63,
     64, 65, 66, 67, 68, 69, 70, 71, 72, 73, 74, 75, 76, 77, 78, 79,
     80, 81, 82, 83, 84, 85, 86, 87, 88, 89, 90, 91, 92, 93, 94, 95,
     96, 65, 66, 67, 68, 69, 70, 71, 72, 73, 74, 75, 76, 77, 78, 79,
     80, 81, 82, 83, 84, 85, 86, 87, 88, 89, 90, 123, 124, 125, 126, 127,
     128, 129, 130, 131, 132, 133, 134, 135, 136, 137, 138, 139, 140, 141, 142, 143,
     144, 145, 146, 147, 148, 149, 150, 151, 152, 153, 154, 155, 156, 157, 158, 159,
     160, 161, 162, 163, 164, 165, 166, 167, 168, 169, 170, 171, 172, 173, 174, 175,
     176, 177, 178, 179, 180, 181, 182, 183, 184, 185, 186, 187, 188, 189, 190, 191,
     192, 193, 194, 195, 196, 197, 198, 199, 200, 201, 202, 203, 204, 205, 206, 207,
     208, 209, 210, 211, 212, 213, 214, 215, 216, 217, 218, 219, 220, 221, 222, 223,
     224, 225, 226, 227, 228, 229, 230, 231, 232, 233, 234, 235, 236, 237, 238, 239,
     240, 241, 242, 243, 244, 245, 246, 247, 248, 249, 250, 251, 252, 253, 254, 255]"

definition TOR_TOLOWER_TABLE :: "byte list" where
  "TOR_TOLOWER_TABLE =
    [0, 1, 2, 3, 4, 5, 6, 7, 8, 9, 10, 11, 12, 13, 14, 15,
     16, 17, 18, 19, 20, 21, 22, 23, 24, 25, 26, 27, 28, 29, 30, 31,
     32, 33, 34, 35, 36, 37, 38, 39, 40, 41, 42, 43, 44, 45, 46, 47,
     48, 49, 50, 51, 52, 53, 54, 55, 56, 57, 58, 59, 60, 61, 62, 63,
     64, 97, 98, 99, 100, 101, 102, 103, 104, 105, 106, 107, 108, 109, 110, 111,
     112, 113, 114, 115, 116, 117, 118, 119, 120, 121, 122, 91, 92, 93, 94, 95,
     96, 97, 98, 99, 100, 101, 102, 103, 104, 105, 106, 107, 108, 109, 110, 111,
     112, 113, 114, 115, 116, 117, 118, 119, 120, 121, 122, 123, 124, 125, 126, 127,
     128, 129, 130, 131, 132, 133, 134, 135, 136, 137, 138, 139, 140, 141, 142, 143,
     144, 145, 146, 147, 148, 149, 150, 151, 152, 153, 154, 155, 156, 157, 158, 159,
     160, 161, 162, 163, 164, 165, 166, 167, 168, 169, 170, 171, 172, 173, 174, 175,
     176, 177, 178, 179, 180, 181, 182, 183, 184, 185, 186, 187, 188, 189, 190, 191,
     192, 193, 194, 195, 196, 197, 198, 199, 200, 201, 202, 203, 204, 205, 206, 207,
     208, 209, 210, 211, 212, 213, 214, 215, 216, 217, 218, 219, 220, 221, 222, 223,
     224, 225, 226, 227, 228, 229, 230, 231, 232, 233, 234, 235, 236, 237, 238, 239,
     240, 241, 242, 243, 244, 245, 246, 247, 248, 249, 250, 251, 252, 253, 254, 255]"

definition TOR_TOLOWER :: "byte \<Rightarrow> byte" where
  "TOR_TOLOWER c = TOR_TOLOWER_TABLE ! unat c"

definition TOR_TOUPPER :: "byte \<Rightarrow> byte" where
  "TOR_TOUPPER c = TOR_TOUPPER_TABLE ! unat c"

text \<open>A table entry is a word of 32 flags; each constant used is a run of one bits.\<close>

lemma bits_of_u32:
  "list_all (\<lambda>n. bit (w :: u32) n = P n) [0..<32] \<Longrightarrow> bit w n \<longleftrightarrow> n < 32 \<and> P n"
  using bit_imp_le_length [of w n] by (auto simp: list_all_iff)

lemma ctype_words:
  "bit (0x7fffffe :: u32) n \<longleftrightarrow> n < 32 \<and> 1 \<le> n \<and> n \<le> 26" "bit (0x3ff0000 :: u32) n \<longleftrightarrow> n < 32 \<and> 16 \<le> n \<and> n \<le> 25"
  "bit (0x3e00 :: u32) n \<longleftrightarrow> n < 32 \<and> 9 \<le> n \<and> n \<le> 13" "bit (0x7e :: u32) n \<longleftrightarrow> n < 32 \<and> 1 \<le> n \<and> n \<le> 6"
  "bit (0xffffffff :: u32) n \<longleftrightarrow> n < 32 \<and> True" "bit (0x7fffffff :: u32) n \<longleftrightarrow> n < 32 \<and> n \<le> 30"
  by (rule bits_of_u32, code_simp)+

lemma ctype_bit_eq: "ctype_bit table u = bit (table ! (unat u div 32)) (unat u mod 32)"
proof -
  have m: "(7 :: byte) = mask 3" "(31 :: byte) = mask 5" by (simp_all add: mask_eq_exp_minus_1)
  have "unat (drop_bit 5 u AND 7) = take_bit 3 (drop_bit 5 (unat u))"
    unfolding m take_bit_eq_mask [symmetric] unsigned_take_bit_eq unat_drop_bit_eq ..
  also have "\<dots> = unat u div 32"
    using unsigned_less [of u, where ?'a = nat] by (simp add: take_bit_eq_mod drop_bit_eq_div)
  finally have "unat (drop_bit 5 u AND 7) = unat u div 32" .
  moreover have "unat (u AND 31) = unat u mod 32"
    unfolding m take_bit_eq_mask [symmetric] unsigned_take_bit_eq by (simp add: take_bit_eq_mod)
  ultimately show ?thesis by (simp add: ctype_bit_def bit_iff_and_push_bit_not_eq_0)
qed

lemma ctype_table_nth:
  "hi < 8 \<Longrightarrow> [a, b, c, d, 0, 0, 0, 0 :: u32] ! hi =
     (if hi = 0 then a else if hi = 1 then b else if hi = 2 then c else if hi = 3 then d else 0)"
  by (auto simp: nth_Cons' numeral_eq_Suc less_Suc_eq)

lemmas ctype_defs = TOR_ISALPHA_def TOR_ISALNUM_def TOR_ISSPACE_def TOR_ISDIGIT_def TOR_ISXDIGIT_def
  TOR_ISPRINT_def TOR_ISLOWER_def TOR_ISUPPER_def TOR_ISALPHA_TABLE_def TOR_ISALNUM_TABLE_def
  TOR_ISSPACE_TABLE_def TOR_ISDIGIT_TABLE_def TOR_ISXDIGIT_TABLE_def TOR_ISPRINT_TABLE_def
  TOR_ISLOWER_TABLE_def TOR_ISUPPER_TABLE_def

lemma ctype_ranges:
  "TOR_ISDIGIT u \<longleftrightarrow> unat u \<in> {48..57}" (is ?digit)
  "TOR_ISUPPER u \<longleftrightarrow> unat u \<in> {65..90}" (is ?upper)
  "TOR_ISLOWER u \<longleftrightarrow> unat u \<in> {97..122}" (is ?lower)
  "TOR_ISALPHA u \<longleftrightarrow> unat u \<in> {65..90} \<union> {97..122}" (is ?alpha)
  "TOR_ISALNUM u \<longleftrightarrow> unat u \<in> {48..57} \<union> {65..90} \<union> {97..122}" (is ?alnum)
  "TOR_ISXDIGIT u \<longleftrightarrow> unat u \<in> {48..57} \<union> {65..70} \<union> {97..102}" (is ?xdigit)
  "TOR_ISSPACE u \<longleftrightarrow> unat u \<in> {9..13} \<union> {32}" (is ?space)
  "TOR_ISPRINT u \<longleftrightarrow> unat u \<in> {32..126}" (is ?print)
proof -
  define hi lo where "hi = unat u div 32" "lo = unat u mod 32"
  then have u: "unat u = 32 * hi + lo" "hi < 8" "lo < 32" "\<And>table. ctype_bit table u = bit (table ! hi) lo"
    using unsigned_less [of u, where ?'a = nat] by (simp_all add: ctype_bit_eq)
  note defs = ctype_defs u(4) ctype_table_nth [OF u(2)] ctype_words bit_1_iff
  show ?digit ?upper ?lower ?alpha ?alnum ?xdigit ?space ?print
    using u(1-3) by (auto simp: defs simp del: bit_numeral_word_iff)
qed

lemma nth_map_upto: "uint c \<le> n \<Longrightarrow> map g [0..n] ! unat c = g (uint c)" for c :: byte
proof -
  have "map g [0..n] ! nat k = g k" if "0 \<le> k" "k \<le> n" for k
    using that by (simp add: nth_upto)
  from this [OF uint_ge_0 [of c]] show "uint c \<le> n \<Longrightarrow> map g [0..n] ! unat c = g (uint c)" by simp
qed

lemma TOR_TOLOWER_TABLE_eq:
  "TOR_TOLOWER_TABLE = map (\<lambda>i. word_of_int (if 65 \<le> i \<and> i \<le> 90 then i + 32 else i)) [0..255]"
  unfolding TOR_TOLOWER_TABLE_def by code_simp

lemma TOR_TOUPPER_TABLE_eq:
  "TOR_TOUPPER_TABLE = map (\<lambda>i. word_of_int (if 97 \<le> i \<and> i \<le> 122 then i - 32 else i)) [0..255]"
  unfolding TOR_TOUPPER_TABLE_def by code_simp

lemma tor_case_eq:
  "TOR_TOLOWER u = (if unat u \<in> {65..90} then u + 32 else u)"
  "TOR_TOUPPER u = (if unat u \<in> {97..122} then u - 32 else u)"
proof -
  have le: "uint u \<le> 255" using uint_lt2p [of u] by simp
  show "TOR_TOLOWER u = (if unat u \<in> {65..90} then u + 32 else u)"
    unfolding TOR_TOLOWER_def TOR_TOLOWER_TABLE_eq nth_map_upto [OF le] by (auto simp flip: nat_uint_eq)
  show "TOR_TOUPPER u = (if unat u \<in> {97..122} then u - 32 else u)"
    unfolding TOR_TOUPPER_def TOR_TOUPPER_TABLE_eq nth_map_upto [OF le] by (auto simp flip: nat_uint_eq)
qed

text \<open>
  The character tables. Each of the eight class tables marks exactly the codes of the ASCII
  class it is named after, and the two case tables move exactly the letters of the other case, for
  every one of the 256 byte values.
\<close>

theorem ctype_tables_ascii:
  "(TOR_ISDIGIT u \<longleftrightarrow> unat u \<in> {48..57}) \<and>
   (TOR_ISUPPER u \<longleftrightarrow> unat u \<in> {65..90}) \<and>
   (TOR_ISLOWER u \<longleftrightarrow> unat u \<in> {97..122}) \<and>
   (TOR_ISALPHA u \<longleftrightarrow> unat u \<in> {65..90} \<union> {97..122}) \<and>
   (TOR_ISALNUM u \<longleftrightarrow> unat u \<in> {48..57} \<union> {65..90} \<union> {97..122}) \<and>
   (TOR_ISXDIGIT u \<longleftrightarrow> unat u \<in> {48..57} \<union> {65..70} \<union> {97..102}) \<and>
   (TOR_ISSPACE u \<longleftrightarrow> unat u \<in> {9..13} \<union> {32}) \<and>
   (TOR_ISPRINT u \<longleftrightarrow> unat u \<in> {32..126}) \<and>
   TOR_TOLOWER u = (if unat u \<in> {65..90} then u + 32 else u) \<and>
   TOR_TOUPPER u = (if unat u \<in> {97..122} then u - 32 else u)"
  using ctype_ranges [of u] tor_case_eq [of u] by blast

subsection \<open>Searching memory\<close>

text \<open>\<open>memchr (haystack + p, c, n)\<close>: the offset of the first such byte in the range, if any.\<close>

fun memchr :: "byte list \<Rightarrow> nat \<Rightarrow> byte \<Rightarrow> nat \<Rightarrow> nat option option" where
  "memchr s p c 0 = Some None"
| "memchr s p c (Suc n) =
     do {
       x \<leftarrow> arr_get s p;
       (if x = c then Some (Some p) else memchr s (p + 1) c n)
     }"

lemma memchr_Some: "memchr s p c n = Some (Some q) \<Longrightarrow> p \<le> q \<and> q < p + n \<and> arr_get s q = Some c"
  by (induction s p c n rule: memchr.induct) (auto split: bind_splits if_splits)

text \<open>
  The loop of \<open>tor_memmem\<close> on platforms without \<open>memmem\<close>; on the others the function has the same
  assertion and length test and then calls \<open>memmem\<close>.
\<close>

function tor_memmem_loop :: "byte list \<Rightarrow> byte list \<Rightarrow> byte \<Rightarrow> nat \<Rightarrow> nat \<Rightarrow> nat option option" where
  "tor_memmem_loop haystack needle first lst p =
     do {
       r \<leftarrow> memchr haystack p first (lst + 1 - p);
       (case r of
          None \<Rightarrow> Some None
        | Some p' \<Rightarrow>
            do {
              w \<leftarrow> arr_slice haystack p' (length needle);
              (if w = needle then Some (Some p')
               else if lst < p' + 1 then Some None
               else tor_memmem_loop haystack needle first lst (p' + 1))
            })
     }"
  by pat_completeness auto
termination
  by (relation "measure (\<lambda>(h, n, f, lst, p). lst + 1 - p)") (auto dest: memchr_Some)

definition tor_memmem :: "byte list \<Rightarrow> byte list \<Rightarrow> nat option option" where
  "tor_memmem haystack needle =
     do {
       guard (length needle \<noteq> 0);
       (if length haystack < length needle then Some None
        else
          do {
            first \<leftarrow> arr_get needle 0;
            tor_memmem_loop haystack needle first (length haystack - length needle) 0
          })
     }"

definition tor_memstr :: "byte list \<Rightarrow> byte list \<Rightarrow> nat option option" where
  "tor_memstr haystack needle = tor_memmem haystack needle"

function fast_mem_is_zero :: "byte list \<Rightarrow> bool" where
  "fast_mem_is_zero mem =
     (if 32 \<le> length mem then
        (if take 32 mem \<noteq> replicate 32 0 then False else fast_mem_is_zero (drop 32 mem))
      else if length mem \<noteq> 0 then mem = take (length mem) (replicate 32 0)
      else True)"
  by pat_completeness auto
termination
  by (relation "measure length") auto

definition tor_digest_is_zero :: "byte list \<Rightarrow> u32 option" where
  "tor_digest_is_zero digest = safe_mem_is_zero digest 20"

definition tor_digest256_is_zero :: "byte list \<Rightarrow> u32 option" where
  "tor_digest256_is_zero digest = safe_mem_is_zero digest 32"

subsection \<open>Changing and testing every character\<close>

text \<open>The reading pointer is the list; the bytes written so far are the result.\<close>

fun tor_strstrip :: "byte list \<Rightarrow> byte list \<Rightarrow> byte list" where
  "tor_strstrip [] strip = []"
| "tor_strstrip (c # s) strip =
     (if c \<in> set strip then tor_strstrip s strip else c # tor_strstrip s strip)"

fun tor_strlower :: "byte list \<Rightarrow> byte list" where
  "tor_strlower [] = []"
| "tor_strlower (c # s) = TOR_TOLOWER c # tor_strlower s"

fun tor_strupper :: "byte list \<Rightarrow> byte list" where
  "tor_strupper [] = []"
| "tor_strupper (c # s) = TOR_TOUPPER c # tor_strupper s"

fun tor_strreplacechar :: "byte list \<Rightarrow> byte \<Rightarrow> byte \<Rightarrow> byte list" where
  "tor_strreplacechar [] old replacement = []"
| "tor_strreplacechar (c # s) old replacement =
     (if c = old then replacement else c) # tor_strreplacechar s old replacement"

fun tor_strisprint :: "byte list \<Rightarrow> bool" where
  "tor_strisprint [] = True"
| "tor_strisprint (c # s) = (if \<not> TOR_ISPRINT c then False else tor_strisprint s)"

fun tor_strisnonupper :: "byte list \<Rightarrow> bool" where
  "tor_strisnonupper [] = True"
| "tor_strisnonupper (c # s) = (if TOR_ISUPPER c then False else tor_strisnonupper s)"

fun tor_strisspace :: "byte list \<Rightarrow> bool" where
  "tor_strisspace [] = True"
| "tor_strisspace (c # s) = (if \<not> TOR_ISSPACE c then False else tor_strisspace s)"

subsection \<open>Comparisons\<close>

definition strncmp :: "byte list \<Rightarrow> byte list \<Rightarrow> nat \<Rightarrow> int" where
  "strncmp s1 s2 n = strcmp (take n s1) (take n s2)"

definition ascii_lower :: "byte \<Rightarrow> byte" where
  "ascii_lower c = (if 65 \<le> c \<and> c \<le> 90 then c + 32 else c)"

definition strcasecmp :: "byte list \<Rightarrow> byte list \<Rightarrow> int" where
  "strcasecmp s1 s2 = strcmp (map ascii_lower s1) (map ascii_lower s2)"

definition strncasecmp :: "byte list \<Rightarrow> byte list \<Rightarrow> nat \<Rightarrow> int" where
  "strncasecmp s1 s2 n = strcasecmp (take n s1) (take n s2)"

fun strcmp_opt :: "byte list option \<Rightarrow> byte list option \<Rightarrow> int" where
  "strcmp_opt None None = 0"
| "strcmp_opt None (Some s2) = -1"
| "strcmp_opt (Some s1) None = 1"
| "strcmp_opt (Some s1) (Some s2) = strcmp s1 s2"

definition strcmpstart :: "byte list \<Rightarrow> byte list \<Rightarrow> int" where
  "strcmpstart s1 s2 = (let n = length s2 in strncmp s1 s2 n)"

definition strcasecmpstart :: "byte list \<Rightarrow> byte list \<Rightarrow> int" where
  "strcasecmpstart s1 s2 = (let n = length s2 in strncasecmp s1 s2 n)"

definition fast_memcmpstart :: "byte list \<Rightarrow> byte list \<Rightarrow> int" where
  "fast_memcmpstart mem prefix =
     (let plen = length prefix in
      if length mem < plen then -1 else strcmp (take plen mem) (take plen prefix))"

definition strcmpend :: "byte list \<Rightarrow> byte list \<Rightarrow> int" where
  "strcmpend s1 s2 =
     (let n1 = length s1; n2 = length s2 in
      if n1 < n2 then strcmp s1 s2 else strncmp (drop (n1 - n2) s1) s2 n2)"

definition strcasecmpend :: "byte list \<Rightarrow> byte list \<Rightarrow> int" where
  "strcasecmpend s1 s2 =
     (let n1 = length s1; n2 = length s2 in
      if n1 < n2 then strcasecmp s1 s2 else strncasecmp (drop (n1 - n2) s1) s2 n2)"

subsection \<open>Moving over whitespace\<close>

text \<open>The codes in these functions: 32 is space, 9 tab, 10 newline, 13 carriage return, 35 \<open>#\<close>.\<close>

function eat_whitespace :: "byte list \<Rightarrow> byte list" where
  "eat_whitespace [] = []"
| "eat_whitespace (c # s) =
     (if c = 32 \<or> c = 9 \<or> c = 10 \<or> c = 13 then eat_whitespace s
      else if c = 35 then eat_whitespace (dropWhile (\<lambda>c. c \<noteq> 10) s)
      else c # s)"
  by pat_completeness auto
termination
  by (relation "measure length") (auto simp: length_dropWhile_le le_imp_less_Suc)

function eat_whitespace_eos :: "byte list \<Rightarrow> byte list" where
  "eat_whitespace_eos [] = []"
| "eat_whitespace_eos (c # s) =
     (if c = 32 \<or> c = 9 \<or> c = 10 \<or> c = 13 then eat_whitespace_eos s
      else if c = 35 then eat_whitespace_eos (dropWhile (\<lambda>c. c \<noteq> 0 \<and> c \<noteq> 10) s)
      else c # s)"
  by pat_completeness auto
termination
  by (relation "measure length") (auto simp: length_dropWhile_le le_imp_less_Suc)

fun eat_whitespace_no_nl :: "byte list \<Rightarrow> byte list" where
  "eat_whitespace_no_nl [] = []"
| "eat_whitespace_no_nl (c # s) =
     (if c = 32 \<or> c = 9 \<or> c = 13 then eat_whitespace_no_nl s else c # s)"

fun eat_whitespace_eos_no_nl :: "byte list \<Rightarrow> byte list" where
  "eat_whitespace_eos_no_nl [] = []"
| "eat_whitespace_eos_no_nl (c # s) =
     (if c = 32 \<or> c = 9 \<or> c = 13 then eat_whitespace_eos_no_nl s else c # s)"

fun find_whitespace :: "byte list \<Rightarrow> byte list" where
  "find_whitespace [] = []"
| "find_whitespace (c # s) =
     (if c = 35 \<or> c = 32 \<or> c = 13 \<or> c = 10 \<or> c = 9 then c # s else find_whitespace s)"

fun find_whitespace_eos :: "byte list \<Rightarrow> byte list" where
  "find_whitespace_eos [] = []"
| "find_whitespace_eos (c # s) =
     (if c = 0 \<or> c = 35 \<or> c = 32 \<or> c = 13 \<or> c = 10 \<or> c = 9 then c # s else find_whitespace_eos s)"

text \<open>The result is the rest of the haystack from the line found, or \<open>None\<close> for the null pointer.\<close>

function find_str_at_start_of_line :: "byte list \<Rightarrow> byte list \<Rightarrow> byte list option" where
  "find_str_at_start_of_line haystack needle =
     (if strncmp haystack needle (length needle) = 0 then Some haystack
      else
        (case dropWhile (\<lambda>c. c \<noteq> 10) haystack of
           [] \<Rightarrow> None
         | nl # rest \<Rightarrow> (if rest = [] then None else find_str_at_start_of_line rest needle)))"
  by pat_completeness auto
termination
  by (relation "measure (\<lambda>(h, n). length h)")
    (auto dest!: arg_cong [where f = length], metis Suc_le_lessD length_dropWhile_le)

fun C_identifier_loop :: "byte list \<Rightarrow> nat \<Rightarrow> bool" where
  "C_identifier_loop [] iter = True"
| "C_identifier_loop (c # s) iter =
     (if iter = 0
      then (if \<not> (TOR_ISALPHA c \<or> c = 95) then False else C_identifier_loop s (iter + 1))
      else (if \<not> (TOR_ISALPHA c \<or> TOR_ISDIGIT c \<or> c = 95) then False
            else C_identifier_loop s (iter + 1)))"

definition string_is_C_identifier :: "byte list \<Rightarrow> bool" where
  "string_is_C_identifier s = (if length s = 0 then False else C_identifier_loop s 0)"

subsection \<open>Searching memory finds the first occurrence\<close>

definition occurs_at :: "byte list \<Rightarrow> byte list \<Rightarrow> nat \<Rightarrow> bool" where
  "occurs_at haystack needle p \<longleftrightarrow> arr_slice haystack p (length needle) = Some needle"

lemma memchr_found:
  assumes "take n (drop p s) = x @ c # rest" "c \<notin> set x"
  shows "memchr s p c n = Some (Some (p + length x))"
  using assms
proof (induction x arbitrary: p n)
  case Nil
  then have p: "p < length s" "0 < n" by (cases "p < length s"; cases n; simp)+
  with Nil have "s ! p = c" by (cases n) (simp_all add: Cons_nth_drop_Suc [symmetric])
  with p show ?case by (cases n) (auto simp: arr_get_in)
next
  case (Cons y x)
  then have p: "p < length s" "0 < n" by (cases "p < length s"; cases n; simp)+
  then obtain m where m: "n = Suc m" by (cases n) auto
  with Cons.prems p have "s ! p = y" "take m (drop (Suc p) s) = x @ c # rest"
    by (simp_all flip: Cons_nth_drop_Suc)
  with Cons.IH [of m "Suc p"] Cons.prems(2) p m show ?case by (auto simp: arr_get_in)
qed

lemma memchr_absent:
  assumes "c \<notin> set (take n (drop p s))" "p + n \<le> length s"
  shows "memchr s p c n = Some None"
  using assms
proof (induction n arbitrary: p)
  case (Suc n)
  then have "p < length s" by simp
  with Suc have "s ! p \<noteq> c" "c \<notin> set (take n (drop (Suc p) s))" by (auto simp flip: Cons_nth_drop_Suc)
  with Suc show ?case by (simp add: arr_get_in)
qed simp

lemma memchr_cases:
  assumes "p + n \<le> length s"
  obtains (found) q where "memchr s p c n = Some (Some q)" "p \<le> q" "q < p + n" "s ! q = c"
      "\<And>r. p \<le> r \<Longrightarrow> r < q \<Longrightarrow> s ! r \<noteq> c"
  | (absent) "memchr s p c n = Some None" "\<And>r. p \<le> r \<Longrightarrow> r < p + n \<Longrightarrow> s ! r \<noteq> c"
proof -
  have "(\<exists>q. memchr s p c n = Some (Some q) \<and> p \<le> q \<and> q < p + n \<and> s ! q = c \<and> (\<forall>r. p \<le> r \<longrightarrow> r < q \<longrightarrow> s ! r \<noteq> c))
      \<or> memchr s p c n = Some None \<and> (\<forall>r. p \<le> r \<longrightarrow> r < p + n \<longrightarrow> s ! r \<noteq> c)"
    using assms
  proof (induction s p c n rule: memchr.induct)
    case (2 s p c n)
    show ?case
    proof (cases "s ! p = c")
      case True
      with 2(2) show ?thesis by (auto simp: arr_get_def)
    next
      case False
      then have m: "memchr s p c (Suc n) = memchr s (p + 1) c n" using 2(2) by (simp add: arr_get_def)
      have ge: "p + 1 \<le> r" if "p \<le> r" "s ! r = c" for r
        using that False by (cases "r = p") auto
      have "(\<exists>q. memchr s (p + 1) c n = Some (Some q) \<and> p + 1 \<le> q \<and> q < p + 1 + n \<and> s ! q = c \<and>
          (\<forall>r. p + 1 \<le> r \<longrightarrow> r < q \<longrightarrow> s ! r \<noteq> c)) \<or>
          memchr s (p + 1) c n = Some None \<and> (\<forall>r. p + 1 \<le> r \<longrightarrow> r < p + 1 + n \<longrightarrow> s ! r \<noteq> c)"
        using 2(1) [of "s ! p"] 2(2) False by (simp add: arr_get_def)
      then show ?thesis
      proof (elim disjE exE conjE)
        fix q
        assume q: "memchr s (p + 1) c n = Some (Some q)" "p + 1 \<le> q" "q < p + 1 + n" "s ! q = c"
          "\<forall>r. p + 1 \<le> r \<longrightarrow> r < q \<longrightarrow> s ! r \<noteq> c"
        with ge have "\<forall>r. p \<le> r \<longrightarrow> r < q \<longrightarrow> s ! r \<noteq> c" by blast
        with q m show ?thesis by (intro disjI1 exI [of _ q]) simp
      next
        assume a: "memchr s (p + 1) c n = Some None" "\<forall>r. p + 1 \<le> r \<longrightarrow> r < p + 1 + n \<longrightarrow> s ! r \<noteq> c"
        with ge have "\<forall>r. p \<le> r \<longrightarrow> r < p + Suc n \<longrightarrow> s ! r \<noteq> c" by fastforce
        with a m show ?thesis by simp
      qed
    qed
  qed simp
  then show thesis using found absent by blast
qed

declare tor_memmem_loop.simps [simp del]

lemma occurs_at_first:
  "occurs_at haystack (c # needle) r \<Longrightarrow> r < length haystack \<and> haystack ! r = c \<and> r + length (c # needle) \<le> length haystack"
  by (auto simp: occurs_at_def arr_slice_def split: if_splits dest!: arg_cong [where f = hd] simp: hd_drop_conv_nth)

lemma tor_memmem_loop_eq:
  assumes n: "needle = c # cs" and len: "length needle \<le> length haystack" and lst: "lst = length haystack - length needle"
    and "p \<le> lst + 1" "\<And>r. occurs_at haystack needle r \<Longrightarrow> p \<le> r"
  shows "tor_memmem_loop haystack needle c lst p =
           Some (if \<exists>r. occurs_at haystack needle r then Some (LEAST r. occurs_at haystack needle r) else None)"
  using assms(4,5)
proof (induction "lst + 1 - p" arbitrary: p rule: less_induct)
  case less
  have occ: "p \<le> r \<and> r \<le> lst \<and> haystack ! r = c" if "occurs_at haystack needle r" for r
    using that less.prems(2) occurs_at_first [of haystack c cs r] by (auto simp: n lst)
  have rng: "p + (Suc lst - p) \<le> length haystack" using less.prems(1) len by (auto simp: lst n)
  show ?case
  proof (rule memchr_cases [OF rng, of c])
    assume "memchr haystack p c (Suc lst - p) = Some None"
      and "\<And>r. p \<le> r \<Longrightarrow> r < p + (Suc lst - p) \<Longrightarrow> haystack ! r \<noteq> c"
    then show ?thesis
      using occ less.prems(1) by (fastforce simp: tor_memmem_loop.simps [of haystack needle c lst p])
  next
    fix q
    assume q: "memchr haystack p c (Suc lst - p) = Some (Some q)" "p \<le> q" "q < p + (Suc lst - p)"
      and before: "\<And>r. p \<le> r \<Longrightarrow> r < q \<Longrightarrow> haystack ! r \<noteq> c"
    have ge: "q \<le> r" if "occurs_at haystack needle r" for r
      using occ [OF that] before [of r] by (cases "q \<le> r") auto
    have "q + length needle \<le> length haystack" using q less.prems(1) len by (auto simp: lst n)
    then have sl: "arr_slice haystack q (length needle) = Some (take (length needle) (drop q haystack))"
      by (simp add: arr_slice_def)
    note unf = tor_memmem_loop.simps [of haystack needle c lst p] q(1) sl
    show ?thesis
    proof (cases "occurs_at haystack needle q")
      case True
      then have "take (length needle) (drop q haystack) = needle" by (simp add: occurs_at_def sl)
      moreover from True ge have "(LEAST r. occurs_at haystack needle r) = q" by (rule Least_equality)
      ultimately show ?thesis using True by (auto simp: unf)
    next
      case False
      then have neq: "take (length needle) (drop q haystack) \<noteq> needle" by (simp add: occurs_at_def sl)
      have gt: "q + 1 \<le> r" if "occurs_at haystack needle r" for r
        using ge [OF that] that False by (cases "r = q") auto
      show ?thesis
      proof (cases "lst < q + 1")
        case True
        with gt occ have "\<nexists>r. occurs_at haystack needle r" by fastforce
        with True neq show ?thesis by (simp add: unf)
      next
        case False
        with less.hyps [of "q + 1"] gt q neq show ?thesis by (simp add: unf)
      qed
    qed
  qed
qed

declare fast_mem_is_zero.simps [simp del]

lemma fast_mem_is_zero_eq: "fast_mem_is_zero mem \<longleftrightarrow> mem = replicate (length mem) 0"
proof (induction mem rule: fast_mem_is_zero.induct)
  case (1 mem)
  show ?case
  proof (cases "32 \<le> length mem")
    case True
    then obtain n where n: "length mem = 32 + n" using le_Suc_ex by blast
    have "mem = replicate (length mem) 0 \<longleftrightarrow> take 32 mem @ drop 32 mem = replicate 32 0 @ replicate n 0"
      by (simp only: append_take_drop_id n replicate_add)
    also have "\<dots> \<longleftrightarrow> take 32 mem = replicate 32 0 \<and> drop 32 mem = replicate n 0"
      using n by (intro append_eq_append_conv) simp
    finally show ?thesis using 1 True n by (simp add: fast_mem_is_zero.simps [of mem])
  next
    case False
    then show ?thesis by (simp add: fast_mem_is_zero.simps [of mem])
  qed
qed

lemma tor_memmem_eq:
  assumes "needle \<noteq> []"
  shows "tor_memmem haystack needle =
           Some (if \<exists>r. occurs_at haystack needle r then Some (LEAST r. occurs_at haystack needle r) else None)"
proof -
  from assms obtain c cs where n: "needle = c # cs" by (cases needle) auto
  show ?thesis
  proof (cases "length haystack < length needle")
    case True
    then show ?thesis by (auto simp: tor_memmem_def n occurs_at_def arr_slice_def)
  next
    case False
    with tor_memmem_loop_eq [OF n, of haystack _ 0] show ?thesis by (simp add: tor_memmem_def arr_get_def n)
  qed
qed

lemma tor_memmem_total:
  assumes "needle \<noteq> []"
  obtains "tor_memmem haystack needle = Some None"
  | r where "tor_memmem haystack needle = Some (Some r)" "r + length needle \<le> length haystack"
proof (cases "\<exists>r. occurs_at haystack needle r")
  case True
  then have "occurs_at haystack needle (LEAST r. occurs_at haystack needle r)" by (rule LeastI_ex)
  then have "(LEAST r. occurs_at haystack needle r) + length needle \<le> length haystack"
    unfolding occurs_at_def arr_slice_def by (meson option.distinct(1))
  with True that(2) tor_memmem_eq [OF assms, of haystack] show thesis by simp
qed (use that(1) tor_memmem_eq [OF assms, of haystack] in simp)

text \<open>
  Searching and testing memory. For a nonempty needle \<open>tor_memmem\<close> stays inside the haystack
  and returns the offset of the first occurrence of the needle, or the null pointer when there is
  none; and the blockwise \<open>fast_mem_is_zero\<close> is true exactly when every byte is zero.
\<close>

theorem tor_memmem_correct:
  assumes "needle \<noteq> []"
  shows "tor_memmem haystack needle =
           Some (if \<exists>r. occurs_at haystack needle r then Some (LEAST r. occurs_at haystack needle r) else None) \<and>
         (fast_mem_is_zero haystack \<longleftrightarrow> haystack = replicate (length haystack) 0)"
  using tor_memmem_eq [OF assms] fast_mem_is_zero_eq by blast

theorem tor_memmem_correct_witness:
  "tor_memmem [1, 2, 1, 3] [1, 3] =
     Some (if \<exists>r. occurs_at [1, 2, 1, 3] [1, 3] r then Some (LEAST r. occurs_at [1, 2, 1, 3] [1, 3] r) else None)"
  using tor_memmem_correct [of "[1, 3]" "[1, 2, 1, 3]"] by blast

subsection \<open>UTF-8\<close>

definition TOP_BITS :: "nat \<Rightarrow> u8" where
  "TOP_BITS x = word_of_int (push_bit (8 - x) 0xFF)"

definition LOW_BITS :: "nat \<Rightarrow> u8" where
  "LOW_BITS x = word_of_int (drop_bit (8 - x) 0xFF)"

definition bytes_in_char :: "u8 \<Rightarrow> nat" where
  "bytes_in_char b =
     (if TOP_BITS 1 AND b = 0x00 then 1
      else if TOP_BITS 3 AND b = TOP_BITS 2 then 2
      else if TOP_BITS 4 AND b = TOP_BITS 3 then 3
      else if TOP_BITS 5 AND b = TOP_BITS 4 then 4
      else 0)"

definition is_continuation_byte :: "u8 \<Rightarrow> bool" where
  "is_continuation_byte b = (let top2bits = b AND TOP_BITS 2 in top2bits = TOP_BITS 1)"

text \<open>The loop over the continuation bytes; \<open>Inl\<close> is the early return of false.\<close>

fun validate_char_loop :: "u8 list \<Rightarrow> u32 \<Rightarrow> (bool + u32)" where
  "validate_char_loop [] codepoint = Inr codepoint"
| "validate_char_loop (c # cs) codepoint =
     (if \<not> is_continuation_byte c then Inl False
      else validate_char_loop cs (push_bit 6 codepoint OR ucast (c AND LOW_BITS 6)))"

definition validate_char :: "u8 list \<Rightarrow> nat \<Rightarrow> bool option" where
  "validate_char c len =
     (if len = 1 then Some True
      else
        do {
          c0 \<leftarrow> arr_get c 0;
          cs \<leftarrow> arr_slice c 1 (len - 1);
          let codepoint = (ucast (c0 AND LOW_BITS (7 - len)) :: u32);
          (case validate_char_loop cs codepoint of
             Inl r \<Rightarrow> Some r
           | Inr codepoint \<Rightarrow>
               if len = 2 \<and> codepoint \<le> 0x7f then Some False
               else if len = 3 \<and> codepoint \<le> 0x7ff then Some False
               else if len = 4 \<and> codepoint \<le> 0xffff then Some False
               else if 0xd800 \<le> codepoint \<and> codepoint \<le> 0xdfff then Some False
               else Some (codepoint \<le> 0x10ffff))
        })"

function string_is_utf8_loop :: "byte list \<Rightarrow> nat \<Rightarrow> bool option" where
  "string_is_utf8_loop str i =
     (if i < length str then
        (let num_bytes = bytes_in_char (str ! i) in
         if num_bytes = 0 then Some False
         else
           (let next_char = i + num_bytes in
            if length str < next_char then Some False
            else
              do {
                v \<leftarrow> validate_char (drop i str) num_bytes;
                (if \<not> v then Some False else string_is_utf8_loop str next_char)
              }))
      else Some True)"
  by pat_completeness auto
termination
  by (relation "measure (\<lambda>(str, i). length str - i)") auto

text \<open>A null pointer is \<open>None\<close>; its length is then the second argument.\<close>

definition string_is_utf8 :: "byte list option \<Rightarrow> nat \<Rightarrow> bool option" where
  "string_is_utf8 str len =
     (case str of
        None \<Rightarrow> Some (len = 0)
      | Some s \<Rightarrow>
          do {
            s \<leftarrow> arr_slice s 0 len;
            string_is_utf8_loop s 0
          })"

definition string_is_utf8_no_bom :: "byte list option \<Rightarrow> nat \<Rightarrow> bool option" where
  "string_is_utf8_no_bom str len =
     (case str of
        None \<Rightarrow> string_is_utf8 None len
      | Some s \<Rightarrow>
          if 3 \<le> len \<and> (strcmpstart s [0xEF, 0xBB, 0xBF] = 0 \<or> strcmpstart s [0xEF, 0xBF, 0xBE] = 0)
          then Some False
          else string_is_utf8 str len)"


lemma ff_mask: "(0xFF :: int) = mask 8"
  by (simp add: mask_eq_exp_minus_1)

lemma TOP_BITS_and: "k \<le> 8 \<Longrightarrow> unat (TOP_BITS k AND b) = 2 ^ (8 - k) * (unat b div 2 ^ (8 - k))"
proof -
  assume "k \<le> 8"
  have "TOP_BITS k AND b = push_bit (8 - k) (drop_bit (8 - k) b)"
    by (rule bit_word_eqI) (auto simp: TOP_BITS_def ff_mask bit_simps simp del: mask_numeral)
  moreover have "2 ^ (8 - k) * (unat b div 2 ^ (8 - k)) < 2 ^ 8"
    by (rule order_le_less_trans [OF times_div_less_eq_dividend]) (use unsigned_less [of b, where ?'a = nat] in simp)
  ultimately show ?thesis
    using unsigned_push_bit_eq [of "8 - k" "drop_bit (8 - k) b", where ?'a = nat] unat_drop_bit_eq [of "8 - k" b]
    by (simp only: push_bit_eq_mult drop_bit_eq_div take_bit_nat_eq_self mult.commute) (simp add: take_bit_nat_eq_self)
qed

lemma TOP_BITS_nat:
  "unat (TOP_BITS 1) = 128" "unat (TOP_BITS 2) = 192" "unat (TOP_BITS 3) = 224"
  "unat (TOP_BITS 4) = 240" "unat (TOP_BITS 5) = 248"
  by (simp_all add: TOP_BITS_def)

lemma LOW_BITS_and: "k \<le> 8 \<Longrightarrow> unat (b AND LOW_BITS k) = unat b mod 2 ^ k"
proof -
  assume "k \<le> 8"
  then have low: "LOW_BITS k = mask k"
    unfolding LOW_BITS_def ff_mask by (simp add: drop_bit_mask_eq of_int_mask_eq)
  show ?thesis unfolding low take_bit_eq_mask [symmetric] unsigned_take_bit_eq by (rule take_bit_eq_mod)
qed

lemma mult_div_eq_iff: "0 < m \<Longrightarrow> m * (n div m) = m * q \<longleftrightarrow> m * q \<le> n \<and> n < m * q + m" for n :: nat
proof
  assume "0 < m" "m * (n div m) = m * q"
  then show "m * q \<le> n \<and> n < m * q + m"
    using mult_div_mod_eq [of m n] mod_less_divisor [of m n] by linarith
next
  assume "0 < m" "m * q \<le> n \<and> n < m * q + m"
  then have "n div m = q" by (intro div_nat_eqI) (simp_all add: mult.commute)
  then show "m * (n div m) = m * q" by simp
qed

lemma top_ranges:
  "128 * (n div 128) = 0 \<longleftrightarrow> n < 128" "32 * (n div 32) = 192 \<longleftrightarrow> 192 \<le> n \<and> n < 224"
  "16 * (n div 16) = 224 \<longleftrightarrow> 224 \<le> n \<and> n < 240" "8 * (n div 8) = 240 \<longleftrightarrow> 240 \<le> n \<and> n < 248"
  "64 * (n div 64) = 128 \<longleftrightarrow> 128 \<le> n \<and> n < 192" for n :: nat
  using mult_div_eq_iff [of 128 n 0] mult_div_eq_iff [of 32 n 6] mult_div_eq_iff [of 16 n 14]
    mult_div_eq_iff [of 8 n 30] mult_div_eq_iff [of 64 n 2] by simp_all

lemma bytes_in_char_eq:
  "bytes_in_char b = (if unat b < 128 then 1 else if unat b < 192 then 0 else if unat b < 224 then 2
     else if unat b < 240 then 3 else if unat b < 248 then 4 else 0)"
  using TOP_BITS_and [of 1 b] TOP_BITS_and [of 3 b] TOP_BITS_and [of 4 b] TOP_BITS_and [of 5 b]
  unfolding bytes_in_char_def word_unat_eq_iff TOP_BITS_nat by (simp add: top_ranges div_eq_0_iff)

lemma is_continuation_byte_iff: "is_continuation_byte b \<longleftrightarrow> 128 \<le> unat b \<and> unat b < 192"
  using TOP_BITS_and [of 2 b]
  unfolding is_continuation_byte_def Let_def word_unat_eq_iff TOP_BITS_nat by (simp add: top_ranges and.commute)

lemma utf8_step:
  "unat cp < 2 ^ 26 \<Longrightarrow> unat (push_bit 6 cp OR ucast (c AND LOW_BITS 6)) = unat cp * 64 + unat c mod 64"
  for cp :: u32
proof -
  assume cp: "unat cp < 2 ^ 26"
  have "push_bit 6 (unat cp) OR take_bit 6 (unat c) = push_bit 6 (unat cp) + take_bit 6 (unat c)"
    by (rule disjunctive_add [symmetric]) (auto simp: bit_simps)
  then have "push_bit 6 (unat cp) OR unat c mod 64 = unat cp * 64 + unat c mod 64"
    by (simp add: take_bit_eq_mod push_bit_eq_mult)
  moreover have "unat (push_bit 6 cp) = push_bit 6 (unat cp)"
    using cp unsigned_push_bit_eq [of 6 cp, where ?'a = nat] by (simp add: push_bit_eq_mult take_bit_nat_eq_self)
  ultimately show ?thesis
    by (simp only: unsigned_or_eq) (simp add: unsigned_ucast_eq take_bit_nat_eq_self LOW_BITS_and)
qed

text \<open>The encoding of RFC 3629: the scalar values and the bytes of each.\<close>

definition scalar_value :: "nat \<Rightarrow> bool" where
  "scalar_value cp \<longleftrightarrow> cp < 0xD800 \<or> 0xDFFF < cp \<and> cp \<le> 0x10FFFF"

definition utf8_nats :: "nat \<Rightarrow> nat list" where
  "utf8_nats cp =
     (if cp < 0x80 then [cp]
      else if cp < 0x800 then [192 + cp div 64, 128 + cp mod 64]
      else if cp < 0x10000 then [224 + cp div 64 div 64, 128 + cp div 64 mod 64, 128 + cp mod 64]
      else [240 + cp div 64 div 64 div 64, 128 + cp div 64 div 64 mod 64, 128 + cp div 64 mod 64,
            128 + cp mod 64])"

definition utf8_encode :: "nat \<Rightarrow> byte list" where
  "utf8_encode cp = map word_of_nat (utf8_nats cp)"

definition utf8_value :: "nat \<Rightarrow> byte list \<Rightarrow> nat" where
  "utf8_value a cs = foldl (\<lambda>a c. a * 64 + unat c mod 64) a cs"

lemma validate_char_loop_eq:
  "(unat cp + 1) * 64 ^ length cs \<le> 2 ^ 32 \<Longrightarrow>
     (if list_all is_continuation_byte cs
      then \<exists>cp'. validate_char_loop cs cp = Inr cp' \<and> unat cp' = utf8_value (unat cp) cs
      else validate_char_loop cs cp = Inl False)"
proof (induction cs arbitrary: cp)
  case (Cons c cs)
  have one: "1 \<le> (64 :: nat) ^ length cs" by simp
  have "(unat cp + 1) * 64 \<le> (unat cp + 1) * 64 * 64 ^ length cs"
    using mult_le_mono2 [OF one, of "(unat cp + 1) * 64"] by simp
  also have "\<dots> \<le> 2 ^ 32" using Cons.prems by (simp only: length_Cons power_Suc mult.assoc)
  finally have "unat cp < 2 ^ 26" by simp
  then have u: "unat (push_bit 6 cp OR ucast (c AND LOW_BITS 6)) = unat cp * 64 + unat c mod 64"
    by (rule utf8_step)
  have "unat cp * 64 + unat c mod 64 + 1 \<le> (unat cp + 1) * 64"
    using mod_less_divisor [of 64 "unat c"] by simp
  from mult_le_mono1 [OF this, of "64 ^ length cs"]
  have "(unat (push_bit 6 cp OR ucast (c AND LOW_BITS 6)) + 1) * 64 ^ length cs \<le> (unat cp + 1) * 64 * 64 ^ length cs"
    unfolding u .
  also have "\<dots> \<le> 2 ^ 32" using Cons.prems by (simp only: length_Cons power_Suc mult.assoc)
  finally have "(unat (push_bit 6 cp OR ucast (c AND LOW_BITS 6)) + 1) * 64 ^ length cs \<le> 2 ^ 32" .
  from Cons.IH [OF this] show ?case by (auto simp: utf8_value_def u)
qed (simp add: utf8_value_def)

lemma unat_ucast_u32: "unat (ucast b :: u32) = unat b" for b :: byte
  using unsigned_less [of b, where ?'a = nat] by (simp add: unsigned_ucast_eq take_bit_nat_eq_self)

lemma validate_char_eq:
  assumes "1 < k" "k \<le> 4" "k = Suc (length cs)" "v = utf8_value (unat c mod 2 ^ (7 - k)) cs"
  shows "validate_char (c # cs @ r) k =
           Some (list_all is_continuation_byte cs \<and> (if k = 2 then 0x80 else if k = 3 then 0x800 else 0x10000) \<le> v \<and>
             scalar_value v)"
proof -
  define cp where "cp = (ucast (c AND LOW_BITS (7 - k)) :: u32)"
  have u: "unat cp = unat c mod 2 ^ (7 - k)" by (simp add: cp_def unat_ucast_u32 LOW_BITS_and)
  then have "unat cp + 1 \<le> 2 ^ (7 - k)" by (simp add: Suc_leI)
  from mult_le_mono1 [OF this, of "64 ^ length cs"]
  have "(unat cp + 1) * 64 ^ length cs \<le> 2 ^ (7 - k) * 64 ^ length cs" by simp
  also have "k = 2 \<and> length cs = 1 \<or> k = 3 \<and> length cs = 2 \<or> k = 4 \<and> length cs = 3"
    using assms(1-3) by linarith
  then have "2 ^ (7 - k) * 64 ^ length cs \<le> (2 ^ 32 :: nat)" by auto
  finally have "(unat cp + 1) * 64 ^ length cs \<le> 2 ^ 32" .
  note loop = validate_char_loop_eq [OF this]
  have sl: "arr_slice (c # cs @ r) 1 (k - 1) = Some cs" "arr_get (c # cs @ r) 0 = Some c" "k \<noteq> 1"
    using assms by (simp_all add: arr_slice_def arr_get_def)
  note eq = validate_char_def [of "c # cs @ r" k] sl(1,2) bind.bind_lunit Let_def cp_def [symmetric]
  show ?thesis
  proof (cases "list_all is_continuation_byte cs")
    case False
    with loop show ?thesis by (simp only: eq) (use sl(3) in simp)
  next
    case True
    with loop u assms(4) obtain cp' where cp': "validate_char_loop cs cp = Inr cp'" "unat cp' = v" by auto
    then have "cp' \<le> n \<longleftrightarrow> v \<le> unat n" "n \<le> cp' \<longleftrightarrow> unat n \<le> v" for n
      by (simp_all add: word_le_nat_alt)
    with cp' True assms(1,2) sl(3) show ?thesis
      by (simp only: eq) (auto simp: scalar_value_def)
  qed
qed

lemma utf8_nats_less: "scalar_value cp \<Longrightarrow> n \<in> set (utf8_nats cp) \<Longrightarrow> n < 256"
proof -
  assume cp: "scalar_value cp" and n: "n \<in> set (utf8_nats cp)"
  have "m mod 64 < 64" for m :: nat by simp
  moreover have "cp < 0x800 \<Longrightarrow> cp div 64 < 32" "cp < 0x10000 \<Longrightarrow> cp div 64 div 64 < 16" 
    "cp \<le> 0x10FFFF \<Longrightarrow> cp div 64 div 64 div 64 < 8" by (simp_all add: less_mult_imp_div_less div_mult2_eq [symmetric])
  ultimately show ?thesis using cp n
    by (auto simp: utf8_nats_def scalar_value_def split: if_splits)
qed

lemma utf8_encode_eq_iff:
  assumes "scalar_value cp"
  shows "bs = utf8_encode cp \<longleftrightarrow> map unat bs = utf8_nats cp"
proof
  have "map (unat \<circ> (word_of_nat :: nat \<Rightarrow> byte)) (utf8_nats cp) = utf8_nats cp"
    using utf8_nats_less [OF assms] by (intro map_idI) (simp add: unat_of_nat)
  then show "bs = utf8_encode cp \<Longrightarrow> map unat bs = utf8_nats cp"
    by (simp add: utf8_encode_def)
next
  assume "map unat bs = utf8_nats cp"
  then have "map word_of_nat (map unat bs) = utf8_encode cp" by (simp add: utf8_encode_def)
  then show "bs = utf8_encode cp" by (simp add: comp_def)
qed

lemma mod_dvd_add: "m dvd l \<Longrightarrow> x < m \<Longrightarrow> (l + x) mod m = x" for x :: nat
  by (auto elim: dvdE)

lemma horner: "y < 64 \<Longrightarrow> v = x * 64 + y \<Longrightarrow> v div 64 = x \<and> v mod 64 = y" for v :: nat
  by simp

lemma utf8_nats_2:
  assumes "192 \<le> n0" "n0 < 224"
  shows "(\<exists>v. scalar_value v \<and> [n0, n1] = utf8_nats v) \<longleftrightarrow>
     128 \<le> n1 \<and> n1 < 192 \<and> 0x80 \<le> n0 mod 32 * 64 + n1 mod 64 \<and> scalar_value (n0 mod 32 * 64 + n1 mod 64)"
    (is "?L = ?R")
proof
  assume ?L
  then obtain v where v: "scalar_value v" "0x80 \<le> v" "v < 0x800" "n0 = 192 + v div 64" "n1 = 128 + v mod 64"
    by (auto simp: utf8_nats_def split: if_splits)
  then have "n0 mod 32 = v div 64" "n1 mod 64 = v mod 64" by (simp_all add: mod_add_eq [symmetric] less_mult_imp_div_less)
  with v show ?R by simp
next
  assume ?R
  then obtain b where b: "n1 = 128 + b" "b < 64" using le_Suc_ex [of 128 n1] by auto
  from assms obtain a where a: "n0 = 192 + a" "a < 32" using le_Suc_ex [of 192 n0] by auto
  from a b \<open>?R\<close> show ?L
    by (intro exI [of _ "a * 64 + b"]) (auto simp: utf8_nats_def mod_add_eq [symmetric])
qed

lemma utf8_nats_3:
  assumes "224 \<le> n0" "n0 < 240" and V: "V = (n0 mod 16 * 64 + n1 mod 64) * 64 + n2 mod 64"
  shows "(\<exists>v. scalar_value v \<and> [n0, n1, n2] = utf8_nats v) \<longleftrightarrow>
     128 \<le> n1 \<and> n1 < 192 \<and> 128 \<le> n2 \<and> n2 < 192 \<and> 0x800 \<le> V \<and> scalar_value V"
    (is "?L = ?R")
proof
  assume ?L
  then obtain v where v: "scalar_value v" "0x800 \<le> v" "v < 0x10000" "n0 = 224 + v div 64 div 64"
    "n1 = 128 + v div 64 mod 64" "n2 = 128 + v mod 64"
    by (auto simp: utf8_nats_def split: if_splits)
  then have "n0 mod 16 = v div 64 div 64" "n1 mod 64 = v div 64 mod 64" "n2 mod 64 = v mod 64"
    by (simp_all add: mod_dvd_add less_mult_imp_div_less)
  then have "V = v" unfolding V by (simp only: div_mult_mod_eq)
  with v show ?R by simp
next
  assume R: ?R
  define b c where "b = n1 - 128" "c = n2 - 128"
  with R have b: "n1 = 128 + b" "b < 64" "n2 = 128 + c" "c < 64" by linarith+
  from assms obtain a where a: "n0 = 224 + a" "a < 16" using le_Suc_ex [of 224 n0] by auto
  have "V = (a * 64 + b) * 64 + c" using a b by (simp add: V mod_dvd_add)
  moreover from this a b have "V < 0x10000" by simp
  ultimately have "utf8_nats V = [n0, n1, n2]"
    using a b R horner [of c V "a * 64 + b"] horner [of b "V div 64" a] by (simp add: utf8_nats_def)
  with R show ?L by auto
qed

lemma utf8_nats_4:
  assumes "240 \<le> n0" "n0 < 248" and V: "V = ((n0 mod 8 * 64 + n1 mod 64) * 64 + n2 mod 64) * 64 + n3 mod 64"
  shows "(\<exists>v. scalar_value v \<and> [n0, n1, n2, n3] = utf8_nats v) \<longleftrightarrow>
     128 \<le> n1 \<and> n1 < 192 \<and> 128 \<le> n2 \<and> n2 < 192 \<and> 128 \<le> n3 \<and> n3 < 192 \<and> 0x10000 \<le> V \<and> scalar_value V"
    (is "?L = ?R")
proof
  assume ?L
  then obtain v where v0: "scalar_value v" "[n0, n1, n2, n3] = utf8_nats v" by blast
  have "0x10000 \<le> v" using arg_cong [OF v0(2), of length] by (simp add: utf8_nats_def split: if_splits)
  with v0 have v: "scalar_value v" "0x10000 \<le> v" "n0 = 240 + v div 64 div 64 div 64"
    "n1 = 128 + v div 64 div 64 mod 64" "n2 = 128 + v div 64 mod 64" "n3 = 128 + v mod 64"
    by (simp_all add: utf8_nats_def)
  then have "v < 8 * 64 * 64 * 64" by (auto simp: scalar_value_def)
  then have "v div 64 div 64 div 64 < 8" by (simp add: less_mult_imp_div_less div_mult2_eq [symmetric])
  then have "n0 mod 8 = v div 64 div 64 div 64" "n1 mod 64 = v div 64 div 64 mod 64"
    "n2 mod 64 = v div 64 mod 64" "n3 mod 64 = v mod 64"
    unfolding v by (simp_all add: mod_dvd_add)
  then have "V = v" unfolding V by (simp only: div_mult_mod_eq)
  with v show ?R by simp
next
  assume R: ?R
  define b c d where "b = n1 - 128" "c = n2 - 128" "d = n3 - 128"
  with R have b: "n1 = 128 + b" "b < 64" "n2 = 128 + c" "c < 64" "n3 = 128 + d" "d < 64" by linarith+
  from assms obtain a where a: "n0 = 240 + a" "a < 8" using le_Suc_ex [of 240 n0] by auto
  have "V = ((a * 64 + b) * 64 + c) * 64 + d" using a b by (simp add: V mod_dvd_add)
  then have "utf8_nats V = [n0, n1, n2, n3]"
    using a b R horner [of d V "(a * 64 + b) * 64 + c"] horner [of c "V div 64" "a * 64 + b"]
      horner [of b "V div 64 div 64" a] by (simp add: utf8_nats_def)
  with R show ?L by auto
qed

lemma utf8_first:
  assumes "k = bytes_in_char c" "k \<noteq> 0" "k = Suc (length cs)"
  shows "validate_char (c # cs @ r) k = Some (\<exists>v. scalar_value v \<and> c # cs = utf8_encode v)"
proof -
  have nat: "(\<exists>v. scalar_value v \<and> c # cs = utf8_encode v) \<longleftrightarrow> (\<exists>v. scalar_value v \<and> map unat (c # cs) = utf8_nats v)"
    using utf8_encode_eq_iff [of _ "c # cs"] by auto
  have "k = 1 \<and> unat c < 128 \<and> cs = [] \<or> k = 2 \<and> 192 \<le> unat c \<and> unat c < 224 \<and> (\<exists>c1. cs = [c1]) \<or>
      k = 3 \<and> 224 \<le> unat c \<and> unat c < 240 \<and> (\<exists>c1 c2. cs = [c1, c2]) \<or>
      k = 4 \<and> 240 \<le> unat c \<and> unat c < 248 \<and> (\<exists>c1 c2 c3. cs = [c1, c2, c3])"
    using assms by (auto simp: bytes_in_char_eq length_Suc_conv numeral_eq_Suc split: if_splits)
  then consider (1) "k = 1" "unat c < 128" "cs = []"
    | (2) c1 where "k = 2" "192 \<le> unat c" "unat c < 224" "cs = [c1]"
    | (3) c1 c2 where "k = 3" "224 \<le> unat c" "unat c < 240" "cs = [c1, c2]"
    | (4) c1 c2 c3 where "k = 4" "240 \<le> unat c" "unat c < 248" "cs = [c1, c2, c3]" by blast
  then show ?thesis
  proof cases
    case 1
    then have "scalar_value (unat c)" "[unat c] = utf8_nats (unat c)" by (simp_all add: scalar_value_def utf8_nats_def)
    with 1 nat show ?thesis by (auto simp: validate_char_def)
  next
    case 2
    with utf8_nats_2 [of "unat c" "unat c1"] validate_char_eq [of k cs _ c r] nat show ?thesis
      by (simp add: utf8_value_def is_continuation_byte_iff)
  next
    case 3
    with utf8_nats_3 [of "unat c" _ "unat c1" "unat c2"] validate_char_eq [of k cs _ c r] nat show ?thesis
      by (simp add: utf8_value_def is_continuation_byte_iff)
  next
    case 4
    with utf8_nats_4 [of "unat c" _ "unat c1" "unat c2" "unat c3"] validate_char_eq [of k cs _ c r] nat show ?thesis
      by (simp add: utf8_value_def is_continuation_byte_iff)
  qed
qed

lemma utf8_encode_first:
  assumes "scalar_value v" "utf8_encode v = c # cs"
  shows "bytes_in_char c = Suc (length cs)"
proof -
  have "map unat (c # cs) = utf8_nats v" using utf8_encode_eq_iff [OF assms(1), of "c # cs"] assms(2) by simp
  moreover have "v < 0x800 \<Longrightarrow> v div 64 < 32" "v < 0x10000 \<Longrightarrow> v div 64 div 64 < 16" 
    "v \<le> 0x10FFFF \<Longrightarrow> v div 64 div 64 div 64 < 8" by (simp_all add: less_mult_imp_div_less div_mult2_eq [symmetric])
  ultimately show ?thesis using assms(1)
    by (auto simp: utf8_nats_def bytes_in_char_eq scalar_value_def split: if_splits)
qed

definition is_utf8 :: "byte list \<Rightarrow> bool" where
  "is_utf8 s \<longleftrightarrow> (\<exists>vs. list_all scalar_value vs \<and> s = concat (map utf8_encode vs))"

lemma is_utf8_Nil: "is_utf8 []"
  by (auto simp: is_utf8_def intro: exI [of _ "[]"])

lemma utf8_encode_nonempty: "utf8_encode v \<noteq> []"
  by (simp add: utf8_encode_def utf8_nats_def)

lemma is_utf8_Cons:
  "is_utf8 (c # s) \<longleftrightarrow> (\<exists>v r. scalar_value v \<and> c # s = utf8_encode v @ r \<and> is_utf8 r)"
proof
  assume "is_utf8 (c # s)"
  then obtain vs where vs: "list_all scalar_value vs" "c # s = concat (map utf8_encode vs)" by (auto simp: is_utf8_def)
  then show "\<exists>v r. scalar_value v \<and> c # s = utf8_encode v @ r \<and> is_utf8 r"
    by (cases vs) (auto simp: is_utf8_def)
next
  assume "\<exists>v r. scalar_value v \<and> c # s = utf8_encode v @ r \<and> is_utf8 r"
  then obtain v vs where "scalar_value v" "list_all scalar_value vs" "c # s = utf8_encode v @ concat (map utf8_encode vs)"
    by (auto simp: is_utf8_def)
  then show "is_utf8 (c # s)" unfolding is_utf8_def by (intro exI [of _ "v # vs"]) simp
qed

lemma is_utf8_split:
  "is_utf8 (c # s) \<longleftrightarrow>
     (\<exists>v cs r. scalar_value v \<and> utf8_encode v = c # cs \<and> s = cs @ r \<and> bytes_in_char c = Suc (length cs) \<and> is_utf8 r)"
proof
  assume "is_utf8 (c # s)"
  then obtain v r where v: "scalar_value v" "c # s = utf8_encode v @ r" "is_utf8 r" by (auto simp: is_utf8_Cons)
  moreover from v(2) obtain cs where "utf8_encode v = c # cs" "s = cs @ r"
    using utf8_encode_nonempty [of v] by (cases "utf8_encode v") auto
  ultimately show "\<exists>v cs r. scalar_value v \<and> utf8_encode v = c # cs \<and> s = cs @ r \<and>
      bytes_in_char c = Suc (length cs) \<and> is_utf8 r"
    using utf8_encode_first by blast
qed (force simp: is_utf8_Cons)

declare string_is_utf8_loop.simps [simp del]

lemma string_is_utf8_loop_eq: "i \<le> length str \<Longrightarrow> string_is_utf8_loop str i = Some (is_utf8 (drop i str))"
proof (induction str i rule: string_is_utf8_loop.induct)
  case (1 str i)
  show ?case
  proof (cases "i < length str")
    case False
    with 1(2) show ?thesis by (simp add: string_is_utf8_loop.simps is_utf8_Nil)
  next
    case True
    define c s k where "c = str ! i" and "s = drop (Suc i) str" and "k = bytes_in_char c"
    have dr: "drop i str = c # s" using True by (simp add: c_def s_def Cons_nth_drop_Suc)
    have len: "length str = i + Suc (length s)" using True by (simp add: s_def)
    have utf8_iff: "is_utf8 (c # s) \<longleftrightarrow>
        (\<exists>v cs r. scalar_value v \<and> utf8_encode v = c # cs \<and> s = cs @ r \<and> k = Suc (length cs) \<and> is_utf8 r)"
      unfolding k_def by (rule is_utf8_split)
    show ?thesis
    proof (cases "k = 0 \<or> length str < i + k")
      case True
      then have "\<not> is_utf8 (c # s)" unfolding utf8_iff len by auto
      with True dr \<open>i < length str\<close> show ?thesis
        by (auto simp: string_is_utf8_loop.simps [of str i] c_def [symmetric] k_def [symmetric] Let_def)
    next
      case False
      define cs r where "cs = take (k - 1) s" and "r = drop (k - 1) s"
      obtain j where j: "k = Suc j" "j \<le> length s" using False len by (cases k) auto
      have k: "k = Suc (length cs)" "s = cs @ r" "r = drop (i + k) str"
        using j by (simp add: cs_def, simp add: cs_def r_def, simp add: r_def s_def add.commute)
      have "is_utf8 (c # s) \<longleftrightarrow> (\<exists>v. scalar_value v \<and> c # cs = utf8_encode v) \<and> is_utf8 r"
      proof
        assume "is_utf8 (c # s)"
        then obtain v cs' r' where v: "scalar_value v" "utf8_encode v = c # cs'" "s = cs' @ r'"
          "k = Suc (length cs')" "is_utf8 r'" unfolding utf8_iff by blast
        with k(1,2) have "cs' = cs" "r' = r" by auto
        with v show "(\<exists>v. scalar_value v \<and> c # cs = utf8_encode v) \<and> is_utf8 r" by auto
      next
        assume "(\<exists>v. scalar_value v \<and> c # cs = utf8_encode v) \<and> is_utf8 r"
        then show "is_utf8 (c # s)" unfolding utf8_iff using k(1,2) by metis
      qed
      with utf8_first [of k c cs r] k 1(1) False True dr show ?thesis
        by (auto simp: string_is_utf8_loop.simps [of str i] c_def [symmetric] k_def [symmetric] Let_def)
    qed
  qed
qed

text \<open>
  C38: UTF-8 validation. \<open>string_is_utf8\<close> never reads past the range it is given, and accepts it
  exactly when it is the concatenation of the RFC 3629 encodings of a sequence of Unicode scalar
  values: overlong forms, surrogates, values above 0x10FFFF, stray continuation bytes and
  truncated characters are all refused, and nothing else is.
\<close>

theorem string_is_utf8_correct:
  "string_is_utf8 (Some s) (length s) =
     Some (\<exists>vs. list_all scalar_value vs \<and> s = concat (map utf8_encode vs))"
  by (simp add: string_is_utf8_def arr_slice_def string_is_utf8_loop_eq is_utf8_def)

end
