(* ===== verification/Parse_Int.thy ===== *)
theory Parse_Int
  imports Cstring
begin

section \<open>Parsing integers, \<^verbatim>\<open>lib/string/parse_int.c\<close>\<close>

text \<open>
  \<open>strtol\<close>, \<open>strtoul\<close> and \<open>strtoull\<close> as the C standard and POSIX define them in the C locale, on a
  platform with a 64-bit \<open>long\<close>: leading whitespace, an optional sign, an optional prefix, the
  digits of the base, saturation with \<open>ERANGE\<close>. A position in the string is an offset. The result
  is \<open>None\<close> for a base that C leaves undefined, since \<open>endptr\<close> is then not written.

  The three parsers return the value, the flag stored in \<open>ok\<close>, and the offset stored in \<open>next\<close>,
  which is \<open>None\<close> where the code leaves \<open>*next\<close> alone.
\<close>

definition LONG_MIN :: int where
  "LONG_MIN = -9223372036854775808"

definition LONG_MAX :: int where
  "LONG_MAX = 9223372036854775807"

definition ULONG_MAX :: int where
  "ULONG_MAX = 18446744073709551615"

text \<open>The value of a digit in bases up to 36; 36 for any other character.\<close>

definition digit_value :: "byte \<Rightarrow> nat" where
  "digit_value c =
     (let n = unat c in
      if 48 \<le> n \<and> n \<le> 57 then n - 48
      else if 97 \<le> n \<and> n \<le> 122 then n - 97 + 10
      else if 65 \<le> n \<and> n \<le> 90 then n - 65 + 10
      else 36)"

fun scan_digits :: "nat \<Rightarrow> byte list \<Rightarrow> nat \<Rightarrow> nat \<Rightarrow> nat \<times> nat" where
  "scan_digits base [] acc n = (acc, n)"
| "scan_digits base (c # s) acc n =
     (if digit_value c < base then scan_digits base s (acc * base + digit_value c) (n + 1) else (acc, n))"

definition c_isspace :: "byte \<Rightarrow> bool" where
  "c_isspace c \<longleftrightarrow> c = 32 \<or> 9 \<le> c \<and> c \<le> 13"

text \<open>The sign, the magnitude and the offset of the first character not converted, 0 if none was.\<close>

definition has_hex_prefix :: "byte list \<Rightarrow> bool" where
  "has_hex_prefix s =
     (case s of
        z # x # d # r \<Rightarrow> z = 48 \<and> (x = 120 \<or> x = 88) \<and> digit_value d < 16
      | _ \<Rightarrow> False)"

definition strto_scan :: "byte list \<Rightarrow> nat \<Rightarrow> bool \<times> nat \<times> nat" where
  "strto_scan s base =
     (let ws = length (takeWhile c_isspace s);
          s1 = drop ws s;
          neg = (case s1 of c # r \<Rightarrow> c = 45 | [] \<Rightarrow> False);
          sg = (case s1 of c # r \<Rightarrow> if c = 45 \<or> c = 43 then 1 else 0 | [] \<Rightarrow> 0);
          s2 = drop sg s1;
          hex = ((base = 0 \<or> base = 16) \<and> has_hex_prefix s2);
          base = (if base \<noteq> 0 then base else if hex then 16
                  else case s2 of c # r \<Rightarrow> if c = 48 then 8 else 10 | [] \<Rightarrow> 10);
          s3 = (if hex then drop 2 s2 else s2);
          (v, n) = scan_digits base s3 0 0
      in (neg, v, if n = 0 then 0 else ws + sg + (if hex then 2 else 0) + n))"

definition strtol :: "byte list \<Rightarrow> int \<Rightarrow> (int \<times> nat \<times> bool) option" where
  "strtol s base =
     (if base = 1 \<or> 36 < base \<or> base < 0 then None
      else
        (let (neg, v, endptr) = strto_scan s (nat base);
             r = (if neg then - int v else int v)
         in if r < LONG_MIN then Some (LONG_MIN, endptr, True)
            else if LONG_MAX < r then Some (LONG_MAX, endptr, True)
            else Some (r, endptr, False)))"

definition strtoul :: "byte list \<Rightarrow> int \<Rightarrow> (int \<times> nat \<times> bool) option" where
  "strtoul s base =
     (if base = 1 \<or> 36 < base \<or> base < 0 then None
      else
        (let (neg, v, endptr) = strto_scan s (nat base)
         in if ULONG_MAX < int v then Some (ULONG_MAX, endptr, True)
            else Some (if neg then to_u64 (- int v) else int v, endptr, False)))"

subsection \<open>The parsers\<close>

definition CHECK_STRTOX_RESULT ::
    "byte list \<Rightarrow> int \<Rightarrow> nat \<Rightarrow> bool \<Rightarrow> int \<Rightarrow> int \<Rightarrow> bool \<Rightarrow> int \<times> bool \<times> nat option" where
  "CHECK_STRTOX_RESULT s r endptr erange mn mx next =
     (let err = (0, False, if next then Some endptr else None) in
      if erange then err
      else if endptr = 0 then err
      else if \<not> next \<and> endptr < length s then err
      else if mx < mn then err
      else if r < mn \<or> mx < r then err
      else (r, True, if next then Some endptr else None))"

definition tor_parse_long ::
    "byte list \<Rightarrow> int \<Rightarrow> int \<Rightarrow> int \<Rightarrow> bool \<Rightarrow> (int \<times> bool \<times> nat option) option" where
  "tor_parse_long s base mn mx next =
     (if base < 0 then Some (0, False, None)
      else
        do {
          (r, endptr, erange) \<leftarrow> strtol s base;
          Some (CHECK_STRTOX_RESULT s r endptr erange mn mx next)
        })"

definition tor_parse_ulong ::
    "byte list \<Rightarrow> int \<Rightarrow> int \<Rightarrow> int \<Rightarrow> bool \<Rightarrow> (int \<times> bool \<times> nat option) option" where
  "tor_parse_ulong s base mn mx next =
     (if base < 0 then Some (0, False, None)
      else
        do {
          (r, endptr, erange) \<leftarrow> strtoul s base;
          Some (CHECK_STRTOX_RESULT s r endptr erange mn mx next)
        })"

text \<open>\<open>strtoull\<close> is \<open>strtoul\<close> where \<open>long\<close> has 64 bits.\<close>

definition tor_parse_uint64 ::
    "byte list \<Rightarrow> int \<Rightarrow> int \<Rightarrow> int \<Rightarrow> bool \<Rightarrow> (int \<times> bool \<times> nat option) option" where
  "tor_parse_uint64 s base mn mx next =
     (if base < 0 then Some (0, False, None)
      else
        do {
          (r, endptr, erange) \<leftarrow> strtoul s base;
          Some (CHECK_STRTOX_RESULT s (to_u64 r) endptr erange mn mx next)
        })"

subsection \<open>Printing integers\<close>

text \<open>
  The conversion \<open>%d\<close> of \<open>printf\<close>, and \<open>tor_snprintf\<close> of the formatted text: the string left in a
  buffer of the given size and the result, \<open>-1\<close> on truncation. With size 0, or one above
  \<open>SIZE_T_CEILING\<close>, nothing is written.
\<close>

fun dec_digits :: "nat \<Rightarrow> byte list" where
  "dec_digits n = (if n < 10 then [word_of_nat (48 + n)] else dec_digits (n div 10) @ [word_of_nat (48 + n mod 10)])"

definition fmt_d :: "int \<Rightarrow> byte list" where
  "fmt_d i = (if i < 0 then 45 # dec_digits (nat (- i)) else dec_digits (nat i))"

definition tor_snprintf :: "nat \<Rightarrow> byte list \<Rightarrow> (byte list \<times> int) option" where
  "tor_snprintf sz formatted =
     (if sz = 0 \<or> SIZE_T_CEILING < sz then None
      else Some (take (sz - 1) formatted, if sz \<le> length formatted then -1 else int (length formatted)))"

declare dec_digits.simps [simp del]

subsection \<open>Printing and parsing agree\<close>

lemma scan_digits_append:
  "list_all (\<lambda>c. digit_value c < base) xs \<Longrightarrow>
     scan_digits base (xs @ ys) acc n =
       scan_digits base ys (foldl (\<lambda>a c. a * base + digit_value c) acc xs) (n + length xs)"
  by (induction xs arbitrary: acc n) auto

lemma digit_value_dec: "d < 10 \<Longrightarrow> digit_value (word_of_nat (48 + d)) = d"
  by (simp add: digit_value_def unat_of_nat Let_def del: of_nat_add)

lemma dec_digits_ok:
  "list_all (\<lambda>c. digit_value c < 10) (dec_digits n) \<and>
   foldl (\<lambda>a c. a * 10 + digit_value c) 0 (dec_digits n) = n \<and> dec_digits n \<noteq> []"
proof (induction n rule: dec_digits.induct)
  case (1 n)
  then show ?case
    by (cases "n < 10") (simp_all add: dec_digits.simps [of n] digit_value_dec del: of_nat_add)
qed

lemma digit_chars:
  "digit_value c < 10 \<Longrightarrow> \<not> c_isspace c \<and> c \<noteq> 45 \<and> c \<noteq> 43"
  by (auto simp: digit_value_def c_isspace_def word_le_nat_alt Let_def split: if_splits)

lemma scan_digits_stop: "rest = [] \<or> \<not> digit_value (hd rest) < base \<Longrightarrow> scan_digits base rest acc n = (acc, n)"
  by (cases rest) auto

lemma strto_scan_fmt_d:
  assumes "rest = [] \<or> \<not> digit_value (hd rest) < 10"
  shows "strto_scan (fmt_d i @ rest) 10 = (i < 0, nat \<bar>i\<bar>, length (fmt_d i))"
proof -
  have scan: "scan_digits 10 (dec_digits n @ rest) 0 0 = (n, length (dec_digits n))" for n
    using dec_digits_ok [of n] by (simp add: scan_digits_append scan_digits_stop [OF assms])
  have hd: "\<exists>c r. dec_digits n = c # r \<and> \<not> c_isspace c \<and> c \<noteq> 45 \<and> c \<noteq> 43" for n
    using dec_digits_ok [of n] digit_chars by (cases "dec_digits n") auto
  show ?thesis
  proof (cases "i < 0")
    case True
    have "\<not> c_isspace 45" by (simp add: c_isspace_def)
    with True scan [of "nat (- i)"] hd [of "nat (- i)"] show ?thesis
      by (auto simp: strto_scan_def fmt_d_def Let_def)
  next
    case False
    with scan [of "nat i"] hd [of "nat i"] show ?thesis
      by (auto simp: strto_scan_def fmt_d_def Let_def)
  qed
qed

lemma strtol_fmt_d:
  assumes "LONG_MIN \<le> i" "i \<le> LONG_MAX" "rest = [] \<or> \<not> digit_value (hd rest) < 10"
  shows "strtol (fmt_d i @ rest) 10 = Some (i, length (fmt_d i), False)" "fmt_d i \<noteq> []"
proof -
  show "strtol (fmt_d i @ rest) 10 = Some (i, length (fmt_d i), False)"
    using assms by (simp add: strtol_def strto_scan_fmt_d)
  show "fmt_d i \<noteq> []" using dec_digits_ok by (simp add: fmt_d_def)
qed

lemma tor_parse_long_next:
  assumes "LONG_MIN \<le> i" "i \<le> LONG_MAX" "mn \<le> i" "i \<le> mx" "rest = [] \<or> \<not> digit_value (hd rest) < 10"
  shows "tor_parse_long (fmt_d i @ rest) 10 mn mx True = Some (i, True, Some (length (fmt_d i)))"
  using strtol_fmt_d [OF assms(1,2,5)] assms(3,4) by (simp add: tor_parse_long_def CHECK_STRTOX_RESULT_def Let_def)

text \<open>
  Printing and parsing. The decimal text of a \<open>long\<close> inside the limits, followed by anything
  that does not go on with a digit, is parsed back to the same value; \<open>next\<close> is then the rest of
  the text, and without a \<open>next\<close> argument the call succeeds exactly when there is no rest.
\<close>

theorem tor_parse_long_fmt_d:
  assumes "LONG_MIN \<le> i" "i \<le> LONG_MAX" "mn \<le> i" "i \<le> mx" "rest = [] \<or> \<not> digit_value (hd rest) < 10"
  shows "tor_parse_long (fmt_d i @ rest) 10 mn mx True = Some (i, True, Some (length (fmt_d i))) \<and>
         tor_parse_long (fmt_d i @ rest) 10 mn mx False =
           Some (if rest = [] then (i, True, None) else (0, False, None))"
  using tor_parse_long_next [OF assms] strtol_fmt_d [OF assms(1,2,5)] assms(3,4)
  by (simp add: tor_parse_long_def CHECK_STRTOX_RESULT_def Let_def)

theorem tor_parse_long_fmt_d_witness:
  "tor_parse_long (fmt_d (-42) @ [44]) 10 (-50) 50 True = Some (-42, True, Some (length (fmt_d (-42))))"
  using tor_parse_long_fmt_d [of "-42" "-50" 50 "[44]"]
  by (simp add: LONG_MIN_def LONG_MAX_def digit_value_def)

text \<open>A minus sign is accepted by the unsigned parsers, which read the negated value modulo \<open>2 ^ 64\<close>.\<close>

lemma tor_parse_uint64_minus:
  "tor_parse_uint64 (fmt_d (-1)) 10 0 ULONG_MAX False = Some (ULONG_MAX, True, None)"
  using strto_scan_fmt_d [of "[]" "-1"] dec_digits_ok
  by (simp add: tor_parse_uint64_def strtoul_def CHECK_STRTOX_RESULT_def Let_def ULONG_MAX_def to_u64_def fmt_d_def)

end
