(* ===== verification/Smartlist_Strings.thy ===== *)
theory Smartlist_Strings
  imports Parse_Int
begin

section \<open>Lists of strings: \<^verbatim>\<open>lib/container/smartlist.c\<close> and \<^verbatim>\<open>smartlist_split.c\<close>\<close>

text \<open>
  The smartlist functions whose elements are strings, digests or integers, and the conversion
  between a string and the list of its pieces. Dereferencing a null element is \<open>None\<close>. A string is the list of
  the bytes before its terminating zero byte, so it has no zero byte itself: the library functions on strings
  are modelled for such lists, and what is shown of them here is shown for lists without a zero.
\<close>

subsection \<open>Searching and removing\<close>

function smartlist_string_remove_loop ::
    "byte list smartlist \<Rightarrow> byte list \<Rightarrow> nat \<Rightarrow> byte list smartlist option" where
  "smartlist_string_remove_loop sl element i =
     (if i < num_used sl then
        do {
          x \<leftarrow> arr_get (sl_list sl) i;
          x \<leftarrow> x;
          (if strcmp element x = 0 then
             do {
               let n = num_used sl - 1;
               lst \<leftarrow> arr_get (sl_list sl) n;
               l \<leftarrow> arr_set (sl_list sl) i lst;
               l \<leftarrow> arr_set l n None;
               smartlist_string_remove_loop (sl\<lparr>sl_list := l, num_used := n\<rparr>) element i
             }
           else smartlist_string_remove_loop sl element (i + 1))
        }
      else Some sl)"
  by pat_completeness auto
termination
  by (relation "measure (\<lambda>(sl, e, i). num_used sl - i)") auto

definition smartlist_string_remove :: "byte list smartlist \<Rightarrow> byte list \<Rightarrow> byte list smartlist option" where
  "smartlist_string_remove sl element = smartlist_string_remove_loop sl element 0"

text \<open>The search loop with the comparison of each element as an argument.\<close>

function find_string_loop ::
    "('a \<Rightarrow> bool option) \<Rightarrow> 'a smartlist \<Rightarrow> nat \<Rightarrow> nat option option" where
  "find_string_loop eq sl i =
     (if i < num_used sl then
        do {
          x \<leftarrow> arr_get (sl_list sl) i;
          x \<leftarrow> x;
          b \<leftarrow> eq x;
          (if b then Some (Some i) else find_string_loop eq sl (i + 1))
        }
      else Some None)"
  by pat_completeness auto
termination
  by (relation "measure (\<lambda>(eq, sl, i). num_used sl - i)") auto

definition smartlist_contains_string :: "byte list smartlist option \<Rightarrow> byte list \<Rightarrow> bool option" where
  "smartlist_contains_string sl element =
     (case sl of None \<Rightarrow> Some False
      | Some sl \<Rightarrow> map_option (\<lambda>r. r \<noteq> None) (find_string_loop (\<lambda>x. Some (strcmp x element = 0)) sl 0))"

definition smartlist_string_pos :: "byte list smartlist option \<Rightarrow> byte list \<Rightarrow> int option" where
  "smartlist_string_pos sl element =
     (case sl of None \<Rightarrow> Some (-1)
      | Some sl \<Rightarrow>
          map_option (\<lambda>r. case r of None \<Rightarrow> -1 | Some i \<Rightarrow> int i)
            (find_string_loop (\<lambda>x. Some (strcmp x element = 0)) sl 0))"

definition smartlist_contains_string_case :: "byte list smartlist option \<Rightarrow> byte list \<Rightarrow> bool option" where
  "smartlist_contains_string_case sl element =
     (case sl of None \<Rightarrow> Some False
      | Some sl \<Rightarrow> map_option (\<lambda>r. r \<noteq> None) (find_string_loop (\<lambda>x. Some (strcasecmp x element = 0)) sl 0))"

definition smartlist_contains_int_as_string :: "byte list smartlist option \<Rightarrow> int \<Rightarrow> bool option" where
  "smartlist_contains_int_as_string sl num =
     do {
       (buf, r) \<leftarrow> tor_snprintf 32 (fmt_d num);
       smartlist_contains_string sl buf
     }"

definition smartlist_contains_digest :: "byte list smartlist option \<Rightarrow> byte list \<Rightarrow> bool option" where
  "smartlist_contains_digest sl element =
     (case sl of None \<Rightarrow> Some False
      | Some sl \<Rightarrow>
          map_option (\<lambda>r. r \<noteq> None)
            (find_string_loop (\<lambda>x. map_option (\<lambda>v. v \<noteq> 0) (tor_memeq x element 20)) sl 0))"

text \<open>The loop of \<open>SMARTLIST_FOREACH\<close> over the first list that compares the elements pairwise.\<close>

function elements_eq_loop :: "('a \<Rightarrow> 'a \<Rightarrow> bool) \<Rightarrow> 'a smartlist \<Rightarrow> 'a smartlist \<Rightarrow> nat \<Rightarrow> bool option" where
  "elements_eq_loop eq sl1 sl2 i =
     (if i < smartlist_len sl1 then
        do {
          cp1 \<leftarrow> smartlist_get sl1 i;
          cp1 \<leftarrow> cp1;
          cp2 \<leftarrow> smartlist_get sl2 i;
          cp2 \<leftarrow> cp2;
          (if eq cp1 cp2 then elements_eq_loop eq sl1 sl2 (i + 1) else Some False)
        }
      else Some True)"
  by pat_completeness auto
termination
  by (relation "measure (\<lambda>(eq, sl1, sl2, i). smartlist_len sl1 - i)") auto

definition smartlist_strings_eq ::
    "byte list smartlist option \<Rightarrow> byte list smartlist option \<Rightarrow> bool option" where
  "smartlist_strings_eq sl1 sl2 =
     (case sl1 of None \<Rightarrow> Some (sl2 = None)
      | Some sl1 \<Rightarrow>
          (case sl2 of None \<Rightarrow> Some False
           | Some sl2 \<Rightarrow>
               if smartlist_len sl1 \<noteq> smartlist_len sl2 then Some False
               else elements_eq_loop (\<lambda>cp1 cp2. strcmp cp1 cp2 = 0) sl1 sl2 0))"

definition smartlist_ints_eq :: "int smartlist option \<Rightarrow> int smartlist option \<Rightarrow> bool option" where
  "smartlist_ints_eq sl1 sl2 =
     (case sl1 of None \<Rightarrow> Some (sl2 = None)
      | Some sl1 \<Rightarrow>
          (case sl2 of None \<Rightarrow> Some False
           | Some sl2 \<Rightarrow>
               if smartlist_len sl1 \<noteq> smartlist_len sl2 then Some False
               else elements_eq_loop (\<lambda>cp1 cp2. cp1 = cp2) sl1 sl2 0))"

subsection \<open>Joining\<close>

fun join_size_loop :: "byte list smartlist \<Rightarrow> nat \<Rightarrow> nat \<Rightarrow> nat \<Rightarrow> nat \<Rightarrow> nat option" where
  "join_size_loop sl join_len i 0 n = Some n"
| "join_size_loop sl join_len i (Suc k) n =
     do {
       s \<leftarrow> arr_get (sl_list sl) i;
       s \<leftarrow> s;
       let n = n + length s;
       let n = (if i + 1 < num_used sl then n + join_len else n);
       join_size_loop sl join_len (i + 1) k n
     }"

fun join_copy_loop ::
    "byte list smartlist \<Rightarrow> byte list \<Rightarrow> nat \<Rightarrow> nat \<Rightarrow> byte list \<Rightarrow> nat \<Rightarrow> (byte list \<times> nat) option" where
  "join_copy_loop sl join i 0 r dst = Some (r, dst)"
| "join_copy_loop sl join i (Suc k) r dst =
     do {
       src \<leftarrow> arr_get (sl_list sl) i;
       src \<leftarrow> src;
       r \<leftarrow> arr_blit r dst src;
       let dst = dst + length src;
       (if i + 1 < num_used sl then
          do {
            r \<leftarrow> arr_blit r dst join;
            join_copy_loop sl join (i + 1) k r (dst + length join)
          }
        else join_copy_loop sl join (i + 1) k r dst)
     }"

text \<open>
  The loops run over the \<open>num_used\<close> entries. The result is the allocated buffer and \<open>*len_out\<close>;
  the argument \<open>fresh\<close> is what the allocator left in the buffer of the given size.
\<close>

definition smartlist_join_strings2 ::
    "(nat \<Rightarrow> byte list) \<Rightarrow> byte list smartlist \<Rightarrow> byte list \<Rightarrow> bool \<Rightarrow> (byte list \<times> nat) option" where
  "smartlist_join_strings2 fresh sl join terminate =
     do {
       let n = (if terminate then length join else 0);
       n \<leftarrow> join_size_loop sl (length join) 0 (num_used sl) n;
       (r, dst) \<leftarrow> join_copy_loop sl join 0 (num_used sl) (fresh (n + 1)) 0;
       (r, dst) \<leftarrow> (if terminate then map_option (\<lambda>r. (r, dst + length join)) (arr_blit r dst join)
                   else Some (r, dst));
       r \<leftarrow> arr_set r dst 0;
       Some (r, dst)
     }"

definition smartlist_join_strings ::
    "(nat \<Rightarrow> byte list) \<Rightarrow> byte list smartlist \<Rightarrow> byte list \<Rightarrow> bool \<Rightarrow> (byte list \<times> nat) option" where
  "smartlist_join_strings fresh sl join terminate = smartlist_join_strings2 fresh sl join terminate"

subsection \<open>Splitting\<close>

definition SPLIT_SKIP_SPACE :: nat where
  "SPLIT_SKIP_SPACE = 0x01"

definition SPLIT_IGNORE_BLANK :: nat where
  "SPLIT_IGNORE_BLANK = 0x02"

definition SPLIT_STRIP_SPACE :: nat where
  "SPLIT_STRIP_SPACE = 0x04"

text \<open>\<open>strstr\<close>: the offset of the first occurrence, 0 for an empty needle.\<close>

fun strstr :: "byte list \<Rightarrow> byte list \<Rightarrow> nat option" where
  "strstr [] sep = (if sep = [] then Some 0 else None)"
| "strstr (c # s) sep =
     (if take (length sep) (c # s) = sep then Some 0 else map_option Suc (strstr s sep))"

text \<open>The offset of \<open>end\<close> from \<open>cp\<close>.\<close>

definition split_end :: "byte list \<Rightarrow> byte list option \<Rightarrow> int \<Rightarrow> int \<Rightarrow> nat" where
  "split_end cp sep mx n =
     (if 0 < mx \<and> n = mx - 1 then length cp
      else
        (case sep of
           Some sep \<Rightarrow> (case strstr cp sep of Some e \<Rightarrow> e | None \<Rightarrow> length cp)
         | None \<Rightarrow> length (takeWhile (\<lambda>c. c \<noteq> 9 \<and> c \<noteq> 32) cp)))"

definition split_next :: "byte list \<Rightarrow> byte list option \<Rightarrow> nat \<Rightarrow> byte list option" where
  "split_next cp sep en =
     (if length cp \<le> en then None
      else
        (case sep of
           Some sep \<Rightarrow> Some (drop (en + length sep) cp)
         | None \<Rightarrow> Some (dropWhile (\<lambda>c. c = 9 \<or> c = 32) (drop (en + 1) cp))))"

definition split_piece :: "byte list \<Rightarrow> nat \<Rightarrow> nat \<Rightarrow> byte list" where
  "split_piece cp flags en =
     (let piece = take en cp in
      if flags AND SPLIT_SKIP_SPACE \<noteq> 0 then rev (dropWhile TOR_ISSPACE (rev piece)) else piece)"

partial_function (option) split_string_loop ::
    "byte list smartlist \<Rightarrow> byte list \<Rightarrow> byte list option \<Rightarrow> nat \<Rightarrow> int \<Rightarrow> int \<Rightarrow> (byte list smartlist \<times> int) option" where
  "split_string_loop sl cp sep flags mx n =
     (let cp = (if flags AND SPLIT_SKIP_SPACE \<noteq> 0 then dropWhile TOR_ISSPACE cp else cp);
          en = split_end cp sep mx n;
          next = split_next cp sep en;
          piece = split_piece cp flags en
      in
        do {
          (sl, n) \<leftarrow>
            (if piece \<noteq> [] \<or> flags AND SPLIT_IGNORE_BLANK = 0 then
               do {
                 let str = (if flags AND SPLIT_STRIP_SPACE \<noteq> 0 then tor_strstrip piece [32] else piece);
                 sl \<leftarrow> smartlist_add sl (Some str);
                 Some (sl, n + 1)
               }
             else Some (sl, n));
          (case next of
             None \<Rightarrow> Some (sl, n)
           | Some cp \<Rightarrow> split_string_loop sl cp sep flags mx n)
        })"

definition smartlist_split_string ::
    "byte list smartlist \<Rightarrow> byte list \<Rightarrow> byte list option \<Rightarrow> nat \<Rightarrow> int \<Rightarrow> (byte list smartlist \<times> int) option" where
  "smartlist_split_string sl str sep flags mx = split_string_loop sl str sep flags mx 0"

subsection \<open>Joining and splitting are inverse\<close>

fun join_with :: "byte list \<Rightarrow> byte list list \<Rightarrow> byte list" where
  "join_with sep [] = []"
| "join_with sep [x] = x"
| "join_with sep (x # y # xs) = x @ sep @ join_with sep (y # xs)"

lemma join_with_Cons: "xs \<noteq> [] \<Longrightarrow> join_with sep (x # xs) = x @ sep @ join_with sep xs"
  by (cases xs) auto

lemma sl_rel_get_append:
  "sl_rel sl (map Some (pre @ x # suf)) \<Longrightarrow> arr_get (sl_list sl) (length pre) = Some (Some x)"
  using sl_rel_get [of sl "map Some (pre @ x # suf)" "length pre"] by (simp add: nth_append)

lemma join_size_loop_eq:
  "sl_rel sl (map Some (pre @ suf)) \<Longrightarrow>
     join_size_loop sl (length sep) (length pre) (length suf) n = Some (n + length (join_with sep suf))"
proof (induction suf arbitrary: pre n)
  case (Cons x suf)
  note get = sl_rel_get_append [OF Cons.prems] sl_rel_num_used [OF Cons.prems]
  show ?case
  proof (cases "suf = []")
    case False
    with get Cons.prems Cons.IH [of "pre @ [x]" "n + length x + length sep"] show ?thesis
      by (simp add: join_with_Cons)
  qed (use get in simp)
qed simp

lemma arr_blit_append:
  "length ys \<le> length rest \<Longrightarrow> arr_blit (p @ rest) (length p) ys = Some ((p @ ys) @ drop (length ys) rest)"
  by (simp add: arr_blit_def)

lemma join_copy_loop_eq:
  "sl_rel sl (map Some (pre @ suf)) \<Longrightarrow> length (join_with sep suf) \<le> length rest \<Longrightarrow>
     join_copy_loop sl sep (length pre) (length suf) (p @ rest) (length p) =
       Some ((p @ join_with sep suf) @ drop (length (join_with sep suf)) rest, length (p @ join_with sep suf))"
proof (induction suf arbitrary: pre p rest)
  case (Cons x suf)
  note get = sl_rel_get_append [OF Cons.prems(1)] sl_rel_num_used [OF Cons.prems(1)]
  show ?case
  proof (cases "suf = []")
    case True
    with get Cons.prems(2) show ?thesis by (simp add: arr_blit_append)
  next
    case False
    have "length x + length sep + length (join_with sep suf) \<le> length rest"
      using Cons.prems(2) False by (simp add: join_with_Cons)
    then have "arr_blit (p @ rest) (length p) x = Some ((p @ x) @ drop (length x) rest)"
      "arr_blit ((p @ x) @ drop (length x) rest) (length (p @ x)) sep =
         Some ((p @ x @ sep) @ drop (length x + length sep) rest)"
      using arr_blit_append [of x rest p] arr_blit_append [of sep "drop (length x) rest" "p @ x"]
      by (simp_all add: add.commute)
    then have "join_copy_loop sl sep (length pre) (length (x # suf)) (p @ rest) (length p) =
        join_copy_loop sl sep (length (pre @ [x])) (length suf)
          ((p @ x @ sep) @ drop (length x + length sep) rest) (length (p @ x @ sep))"
      using get False by (simp add: add.assoc)
    also have "\<dots> = Some (((p @ x @ sep) @ join_with sep suf) @
          drop (length (join_with sep suf)) (drop (length x + length sep) rest),
        length ((p @ x @ sep) @ join_with sep suf))"
      using Cons.prems(1) \<open>length x + length sep + length (join_with sep suf) \<le> length rest\<close> by (intro Cons.IH) simp_all
    finally show ?thesis using False by (simp add: join_with_Cons ac_simps)
  qed
qed simp

lemma smartlist_join_strings_eq:
  assumes "sl_rel sl (map Some xs)" "\<And>m. length (fresh m) = m"
    and t: "t = join_with sep xs @ (if terminate then sep else [])"
  shows "smartlist_join_strings fresh sl sep terminate = Some (t @ [0], length t)"
proof -
  have len: "num_used sl = length xs" using sl_rel_num_used [OF assms(1)] by simp
  have "join_size_loop sl (length sep) 0 (length xs) (if terminate then length sep else 0) = Some (length t)"
    using join_size_loop_eq [of sl "[]" xs sep] assms(1) by (auto simp: t)
  moreover have "join_copy_loop sl sep 0 (length xs) (fresh (length t + 1)) 0 =
      Some (join_with sep xs @ drop (length (join_with sep xs)) (fresh (length t + 1)), length (join_with sep xs))"
    using join_copy_loop_eq [of sl "[]" xs sep "fresh (length t + 1)" "[]"] assms by simp
  moreover define d where "d = drop (length t) (fresh (length t + 1))"
  have "length d = 1" using assms(2) by (simp add: d_def)
  then obtain z where z: "d = [z]" by (cases d) auto
  have "(if terminate then map_option (\<lambda>r. (r, length (join_with sep xs) + length sep))
          (arr_blit (join_with sep xs @ drop (length (join_with sep xs)) (fresh (length t + 1))) (length (join_with sep xs)) sep)
        else Some (join_with sep xs @ drop (length (join_with sep xs)) (fresh (length t + 1)), length (join_with sep xs))) =
      Some (t @ d, length t)"
    using arr_blit_append [of sep "drop (length (join_with sep xs)) (fresh (length t + 1))" "join_with sep xs"]
    by (cases terminate) (simp_all add: d_def t assms(2) add.commute)
  ultimately show ?thesis
    by (cases terminate) (auto simp: smartlist_join_strings_def smartlist_join_strings2_def len z)
qed

lemma strstr_single:
  "c \<notin> set x \<Longrightarrow> strstr x [c] = None" "c \<notin> set x \<Longrightarrow> strstr (x @ c # r) [c] = Some (length x)"
  by (induction x) auto

lemma split_string_loop_join:
  "xs \<noteq> [] \<Longrightarrow> list_all (\<lambda>x. c \<notin> set x) xs \<Longrightarrow> sl_rel sl ys \<Longrightarrow> length ys + length xs \<le> MAX_CAPACITY \<Longrightarrow>
     mx \<le> 0 \<or> n + int (length xs) \<le> mx \<Longrightarrow>
     \<exists>sl'. split_string_loop sl (join_with [c] xs) (Some [c]) 0 mx n = Some (sl', n + int (length xs)) \<and>
       sl_rel sl' (ys @ map Some xs)"
proof (induction xs arbitrary: sl ys n)
  case (Cons x xs)
  from smartlist_add_rel [OF Cons.prems(3), of "Some x"] Cons.prems(4) obtain sl1 where
    sl1: "smartlist_add sl (Some x) = Some sl1" "sl_rel sl1 (ys @ [Some x])" by auto
  show ?case
  proof (cases "xs = []")
    case True
    with Cons.prems(2) sl1 show ?thesis
      by (simp add: split_string_loop.simps [of sl] split_end_def split_next_def split_piece_def strstr_single)
  next
    case False
    then have "\<not> (0 < mx \<and> n = mx - 1)" using Cons.prems(5) by (cases xs) auto
    then have mx: "split_end cp (Some [c]) mx n = (case strstr cp [c] of Some e \<Rightarrow> e | None \<Rightarrow> length cp)" for cp
      by (auto simp: split_end_def)
    from Cons.IH [OF False _ sl1(2), of "n + 1"] Cons.prems(2,4,5) obtain sl2 where
      "split_string_loop sl1 (join_with [c] xs) (Some [c]) 0 mx (n + 1) = Some (sl2, n + 1 + int (length xs))"
      "sl_rel sl2 (ys @ map Some (x # xs))" by auto
    with False Cons.prems(2) mx sl1(1) show ?thesis
      by (simp add: split_string_loop.simps [of sl] split_next_def split_piece_def
          strstr_single join_with_Cons)
  qed
qed simp

text \<open>With a limit on the number of pieces the loop ends on every text and the list is large enough.\<close>

lemma split_string_loop_limit:
  "n < mx \<Longrightarrow> 0 \<le> n \<Longrightarrow> sl_rel sl (map Some ys) \<Longrightarrow> length ys + nat (mx - n) \<le> MAX_CAPACITY \<Longrightarrow>
     \<exists>sl' zs m. split_string_loop sl cp (Some sep) 0 mx n = Some (sl', m) \<and> sl_rel sl' (map Some zs)"
proof (induction "nat (mx - n)" arbitrary: n sl ys cp)
  case (Suc k)
  let ?e = "split_end cp (Some sep) mx n"
  have "length (map Some ys) < MAX_CAPACITY" using Suc.prems(1,4) by simp
  from smartlist_add_rel [OF Suc.prems(3) this, of "Some (take ?e cp)"] obtain sl1 where
    sl1: "smartlist_add sl (Some (take ?e cp)) = Some sl1" "sl_rel sl1 (map Some (ys @ [take ?e cp]))" by auto
  show ?case
  proof (cases "split_next cp (Some sep) ?e")
    case None
    with sl1(1) have "split_string_loop sl cp (Some sep) 0 mx n = Some (sl1, n + 1)"
      by (simp add: split_string_loop.simps [of sl] split_piece_def)
    with sl1(2) show ?thesis by blast
  next
    case (Some cp')
    then have "n + 1 < mx" using Suc.prems(1,2) by (cases "n = mx - 1") (auto simp: split_end_def split_next_def)
    with Suc.hyps(1) [of "n + 1" sl1 "ys @ [take ?e cp]" cp'] Suc.hyps(2) Suc.prems sl1 Some show ?thesis
      by (auto simp: split_string_loop.simps [of sl] split_piece_def)
  qed
qed simp

text \<open>
  The pieces of a joined text: a list without strings gives one empty piece, and a separator at the end gives
  an empty piece after it.
\<close>

definition joined_pieces :: "byte list list \<Rightarrow> bool \<Rightarrow> byte list list" where
  "joined_pieces xs terminate = (if xs = [] then [[]] else xs) @ (if terminate then [[]] else [])"

lemma join_with_snoc: "xs \<noteq> [] \<Longrightarrow> join_with sep (xs @ [x]) = join_with sep xs @ sep @ x"
proof (induction xs)
  case (Cons a xs)
  then show ?case by (cases xs) auto
qed simp

lemma join_joined_pieces: "join_with sep (joined_pieces xs terminate) = join_with sep xs @ (if terminate then sep else [])"
  by (simp add: joined_pieces_def join_with_snoc)

lemma set_join_with: "set (join_with sep xs) \<subseteq> \<Union> (set ` set xs) \<union> set sep"
  by (induction sep xs rule: join_with.induct) auto

text \<open>
  C39: join and split, for strings and a separator without zero bytes. Joining the strings of a list, also
  an empty one, fills the allocated buffer exactly: the strings with the separator between them, the
  separator once more if a terminator is asked for, and one NUL, which is the only zero byte. Splitting
  the joined text at a separator of one character that occurs in none of the strings appends to any list the
  strings in their order and returns their number, with one empty piece for an empty list and one more after
  the terminator. The flags are those that keep blanks and spaces, the limit on the pieces is absent or
  not below their number, and the list must have room for them. The loop terminates.
\<close>

theorem smartlist_join_split:
  assumes "sl_rel sl (map Some xs)" "\<And>m. length (fresh m) = m" "list_all (\<lambda>x. 0 \<notin> set x) xs" "0 \<notin> set sep"
  shows "\<exists>t. smartlist_join_strings fresh sl sep terminate = Some (t @ [0], length t) \<and>
    t = join_with sep xs @ (if terminate then sep else []) \<and> 0 \<notin> set t \<and>
    (\<forall>c s2 ys mx. sep = [c] \<and> list_all (\<lambda>x. c \<notin> set x) xs \<and> sl_rel s2 ys \<and>
         length ys + length (joined_pieces xs terminate) \<le> MAX_CAPACITY \<and>
         (mx \<le> 0 \<or> int (length (joined_pieces xs terminate)) \<le> mx) \<longrightarrow>
       (\<exists>sl'. smartlist_split_string s2 t (Some [c]) 0 mx = Some (sl', int (length (joined_pieces xs terminate))) \<and>
          sl_rel sl' (ys @ map Some (joined_pieces xs terminate))))"
proof -
  define t where "t = join_with sep xs @ (if terminate then sep else [])"
  have "0 \<notin> set t" using assms(3,4) set_join_with [of sep xs] by (auto simp: t_def list_all_iff)
  moreover have "\<exists>sl'. smartlist_split_string s2 t (Some [c]) 0 mx = Some (sl', int (length (joined_pieces xs terminate))) \<and>
      sl_rel sl' (ys @ map Some (joined_pieces xs terminate))"
    if "sep = [c]" "list_all (\<lambda>x. c \<notin> set x) xs" "sl_rel s2 ys" "length ys + length (joined_pieces xs terminate) \<le> MAX_CAPACITY"
      "mx \<le> 0 \<or> int (length (joined_pieces xs terminate)) \<le> mx" for c s2 ys mx
    using split_string_loop_join [of "joined_pieces xs terminate" c s2 ys mx 0] that join_joined_pieces [of sep xs terminate]
    by (simp add: smartlist_split_string_def t_def joined_pieces_def)
  ultimately show ?thesis
    using smartlist_join_strings_eq [OF assms(1,2) t_def] by (intro exI [of _ t]) (simp add: t_def)
qed

theorem smartlist_join_split_witness:
  "\<exists>t sl'. smartlist_join_strings (\<lambda>m. replicate m 9) (mk_sl [Some [1, 2], Some [], Some [3]] 1) [44] True =
       Some (t @ [0], length t) \<and> t = [1, 2, 44, 44, 3, 44] \<and>
     smartlist_split_string smartlist_new t (Some [44]) 0 4 = Some (sl', 4) \<and>
     sl_rel sl' [Some [1, 2], Some [], Some [3], Some []]"
proof -
  have "sl_rel (mk_sl (map Some [[1, 2], [], [3]]) 1) (map Some [[1, 2], [], [3 :: byte]])"
    by (auto simp: sl_rel_def MAX_CAPACITY_def intro!: exI [of _ 1])
  from smartlist_join_split [OF this, of "\<lambda>m. replicate m 9" "[44]" True] smartlist_new_rel show ?thesis
    by (fastforce simp: joined_pieces_def MAX_CAPACITY_def)
qed

end
