(* ===== verification/Bitarray.thy ===== *)
theory Bitarray
  imports Prelude
begin

section \<open>Bit arrays, \<^verbatim>\<open>lib/container/bitarray.h\<close>\<close>

text \<open>
  A bit array is an array of 32-bit words; the number of bits is not stored. The locale
  \<open>flag_array\<close> states what a user expects of an array of flags, and the bit arrays interpret it.
\<close>

definition BITARRAY_SHIFT :: nat where
  "BITARRAY_SHIFT = 5"

definition BITARRAY_MASK :: int where
  "BITARRAY_MASK = push_bit BITARRAY_SHIFT 1 - 1"

type_synonym bitarray = "u32 list"

definition bitarray_words :: "u32 \<Rightarrow> nat" where
  "bitarray_words n_bits = unat (drop_bit BITARRAY_SHIFT (n_bits + word_of_int BITARRAY_MASK))"

definition bitarray_init_zero :: "u32 \<Rightarrow> bitarray" where
  "bitarray_init_zero n_bits = replicate (bitarray_words n_bits) 0"

text \<open>The argument \<open>fresh\<close> is what the reallocation leaves in the words it adds.\<close>

definition bitarray_expand :: "(nat \<Rightarrow> u32 list) \<Rightarrow> bitarray \<Rightarrow> u32 \<Rightarrow> u32 \<Rightarrow> bitarray option" where
  "bitarray_expand fresh ba n_bits_old n_bits_new =
     (let sz_old = bitarray_words n_bits_old; sz_new = bitarray_words n_bits_new in
      if sz_new \<le> sz_old then Some ba
      else arr_fill (take sz_new (ba @ fresh (sz_new - length ba))) sz_old (sz_new - sz_old) 0)"

definition bitarray_set :: "bitarray \<Rightarrow> int \<Rightarrow> bitarray option" where
  "bitarray_set b i =
     do {
       let k = drop_bit BITARRAY_SHIFT i;
       guard (0 \<le> k);
       w \<leftarrow> arr_get b (nat k);
       arr_set b (nat k) (w OR push_bit (nat (i AND BITARRAY_MASK)) 1)
     }"

definition bitarray_clear :: "bitarray \<Rightarrow> int \<Rightarrow> bitarray option" where
  "bitarray_clear b i =
     do {
       let k = drop_bit BITARRAY_SHIFT i;
       guard (0 \<le> k);
       w \<leftarrow> arr_get b (nat k);
       arr_set b (nat k) (w AND NOT (push_bit (nat (i AND BITARRAY_MASK)) 1))
     }"

definition bitarray_is_set :: "bitarray \<Rightarrow> int \<Rightarrow> u32 option" where
  "bitarray_is_set b i =
     do {
       let k = drop_bit BITARRAY_SHIFT i;
       guard (0 \<le> k);
       w \<leftarrow> arr_get b (nat k);
       Some (w AND push_bit (nat (i AND BITARRAY_MASK)) 1)
     }"

subsection \<open>Arrays of flags\<close>

fun set_flags :: "('b \<Rightarrow> int \<Rightarrow> 'b option) \<Rightarrow> 'b \<Rightarrow> nat list \<Rightarrow> 'b option" where
  "set_flags set_flag b [] = Some b"
| "set_flags set_flag b (i # is) =
     do {
       b \<leftarrow> set_flag b (int i);
       set_flags set_flag b is
     }"

locale flag_array =
  fixes set_flag :: "'b \<Rightarrow> int \<Rightarrow> 'b option"
    and test :: "'b \<Rightarrow> int \<Rightarrow> u32 option"
    and cap :: "'b \<Rightarrow> nat"
    and flag :: "'b \<Rightarrow> nat \<Rightarrow> bool"
  assumes set_flag_ok: "i < cap b \<Longrightarrow>
      \<exists>b'. set_flag b (int i) = Some b' \<and> cap b' = cap b \<and> (\<forall>j. flag b' j \<longleftrightarrow> j = i \<or> flag b j)"
    and test_ok: "i < cap b \<Longrightarrow> \<exists>w. test b (int i) = Some w \<and> (w \<noteq> 0 \<longleftrightarrow> flag b i)"
begin

lemma set_flags_ok:
  "(\<And>i. i \<in> set is \<Longrightarrow> i < cap b) \<Longrightarrow>
     \<exists>b'. set_flags set_flag b is = Some b' \<and> cap b' = cap b \<and> (\<forall>j. flag b' j \<longleftrightarrow> j \<in> set is \<or> flag b j)"
proof (induction "is" arbitrary: b)
  case (Cons i "is")
  from set_flag_ok [of i b] Cons.prems obtain b1 where
    b1: "set_flag b (int i) = Some b1" "cap b1 = cap b" "\<And>j. flag b1 j \<longleftrightarrow> j = i \<or> flag b j" by auto
  from Cons.IH [of b1] Cons.prems b1 obtain b2 where
    "set_flags set_flag b1 is = Some b2" "cap b2 = cap b" "\<And>j. flag b2 j \<longleftrightarrow> j \<in> set is \<or> flag b1 j" by auto
  with b1 show ?case by auto
qed simp

end

definition ba_cap :: "bitarray \<Rightarrow> nat" where
  "ba_cap b = 32 * length b"

definition ba_bit :: "bitarray \<Rightarrow> nat \<Rightarrow> bool" where
  "ba_bit b i \<longleftrightarrow> i < ba_cap b \<and> bit (b ! (i div 32)) (i mod 32)"

lemma bitarray_index:
  "drop_bit BITARRAY_SHIFT (int i) = int (i div 32)" "nat (int i AND BITARRAY_MASK) = i mod 32"
proof -
  show "drop_bit BITARRAY_SHIFT (int i) = int (i div 32)"
    by (simp add: BITARRAY_SHIFT_def drop_bit_eq_div zdiv_int)
  have m: "BITARRAY_MASK = mask 5" by (simp add: BITARRAY_MASK_def BITARRAY_SHIFT_def mask_eq_exp_minus_1)
  have "int i AND BITARRAY_MASK = int (i mod 32)"
    unfolding m take_bit_eq_mask [symmetric] by (simp add: take_bit_eq_mod zmod_int)
  then show "nat (int i AND BITARRAY_MASK) = i mod 32" by simp
qed

lemma nth_list_update_div:
  "i < 32 * length b \<Longrightarrow> b[i div 32 := v] ! (j div 32) = (if j div 32 = i div 32 then v else b ! (j div 32))"
  by (auto simp: nth_list_update)

lemma div_mod_32_eq: "j div 32 = i div 32 \<Longrightarrow> j mod 32 = i mod 32 \<Longrightarrow> j = (i :: nat)"
  by (metis div_mult_mod_eq)

lemma bit_single: "n < 32 \<Longrightarrow> bit (push_bit n 1 :: u32) m \<longleftrightarrow> m = n"
  by (auto simp: bit_simps)

lemma bitarray_set_ok:
  assumes "i < ba_cap b"
  shows "\<exists>b'. bitarray_set b (int i) = Some b' \<and> ba_cap b' = ba_cap b \<and> (\<forall>j. ba_bit b' j \<longleftrightarrow> j = i \<or> ba_bit b j)"
proof -
  let ?b = "b[i div 32 := b ! (i div 32) OR push_bit (i mod 32) 1]"
  have i: "i div 32 < length b" "i < 32 * length b" using assms by (auto simp: ba_cap_def)
  then have "bitarray_set b (int i) = Some ?b"
    by (simp add: bitarray_set_def bitarray_index arr_get_def arr_set_def del: push_bit_of_1)
  moreover have "ba_bit ?b j \<longleftrightarrow> j = i \<or> ba_bit b j" for j
    using i div_mod_32_eq [of j i]
    by (auto simp: ba_bit_def ba_cap_def nth_list_update_div bit_or_iff bit_single simp del: push_bit_of_1)
  ultimately show ?thesis by (auto simp: ba_cap_def)
qed

lemma bitarray_is_set_ok:
  assumes "i < ba_cap b"
  shows "\<exists>w. bitarray_is_set b (int i) = Some w \<and> (w \<noteq> 0 \<longleftrightarrow> ba_bit b i)"
proof -
  have i: "i div 32 < length b" using assms by (auto simp: ba_cap_def)
  then have "bitarray_is_set b (int i) = Some (b ! (i div 32) AND push_bit (i mod 32) 1)"
    by (simp add: bitarray_is_set_def bitarray_index arr_get_def del: push_bit_of_1)
  then show ?thesis using assms by (simp add: ba_bit_def bit_iff_and_push_bit_not_eq_0)
qed

interpretation ba: flag_array bitarray_set bitarray_is_set ba_cap ba_bit
  by unfold_locales (use bitarray_set_ok bitarray_is_set_ok in auto)

lemma bitarray_clear_ok:
  assumes "i < ba_cap b"
  shows "\<exists>b'. bitarray_clear b (int i) = Some b' \<and> ba_cap b' = ba_cap b \<and> (\<forall>j. ba_bit b' j \<longleftrightarrow> j \<noteq> i \<and> ba_bit b j)"
proof -
  let ?b = "b[i div 32 := b ! (i div 32) AND NOT (push_bit (i mod 32) 1)]"
  have i: "i div 32 < length b" "i < 32 * length b" using assms by (auto simp: ba_cap_def)
  then have "bitarray_clear b (int i) = Some ?b"
    by (simp add: bitarray_clear_def bitarray_index arr_get_def arr_set_def del: push_bit_of_1)
  moreover have "ba_bit ?b j \<longleftrightarrow> j \<noteq> i \<and> ba_bit b j" for j
    using i div_mod_32_eq [of j i]
    by (auto simp: ba_bit_def ba_cap_def nth_list_update_div bit_and_iff bit_not_iff bit_single simp del: push_bit_of_1)
  ultimately show ?thesis by (auto simp: ba_cap_def)
qed

lemma bitarray_words_eq: "n + 31 < 2 ^ 32 \<Longrightarrow> bitarray_words (word_of_nat n) = (n + 31) div 32"
proof -
  assume n: "n + 31 < 2 ^ 32"
  have m: "BITARRAY_MASK = 31" by (simp add: BITARRAY_MASK_def BITARRAY_SHIFT_def)
  have "unat (word_of_nat n + 31 :: u32) = n + 31"
    using n by (simp add: unat_word_ariths unat_of_nat)
  then show ?thesis
    unfolding bitarray_words_def BITARRAY_SHIFT_def unat_drop_bit_eq m by (simp add: drop_bit_eq_div)
qed

lemma bitarray_init_zero_ok:
  "n + 31 < 2 ^ 32 \<Longrightarrow> n \<le> ba_cap (bitarray_init_zero (word_of_nat n))"
  "\<not> ba_bit (bitarray_init_zero w) j"
proof -
  have "n \<le> 32 * ((n + 31) div 32)" by simp
  then show "n + 31 < 2 ^ 32 \<Longrightarrow> n \<le> ba_cap (bitarray_init_zero (word_of_nat n))"
    by (simp add: ba_cap_def bitarray_init_zero_def bitarray_words_eq)
  show "\<not> ba_bit (bitarray_init_zero w) j"
    by (simp add: ba_bit_def ba_cap_def bitarray_init_zero_def)
qed

end
