(* ===== verification/Lcs.thy ===== *)
theory Lcs
  imports Main "HOL-Library.Sublist"
begin

section \<open>Longest common subsequences\<close>

text \<open>
  The length of a longest common subsequence, as a maximum over all common subsequences, and the
  equations that the dynamic program and the divide-and-conquer step of the consensus diff rest
  on.
\<close>

definition lcs :: "'a list \<Rightarrow> 'a list \<Rightarrow> nat" where
  "lcs xs ys = Max (length ` {zs. subseq zs xs \<and> subseq zs ys})"

lemma finite_common: "finite {zs. subseq zs xs \<and> subseq zs ys}"
  by (rule finite_subset [of _ "set (subseqs xs)"]) auto

lemma lcs_ge: "subseq zs xs \<Longrightarrow> subseq zs ys \<Longrightarrow> length zs \<le> lcs xs ys"
  unfolding lcs_def using finite_common by (intro Max_ge) auto

lemma lcs_attained: "\<exists>zs. subseq zs xs \<and> subseq zs ys \<and> length zs = lcs xs ys"
proof -
  have "[] \<in> {zs. subseq zs xs \<and> subseq zs ys}" by simp
  then have "lcs xs ys \<in> length ` {zs. subseq zs xs \<and> subseq zs ys}"
    unfolding lcs_def using finite_common by (intro Max_in) auto
  then show ?thesis by auto
qed

lemma lcs_le: "(\<And>zs. subseq zs xs \<Longrightarrow> subseq zs ys \<Longrightarrow> length zs \<le> n) \<Longrightarrow> lcs xs ys \<le> n"
  using lcs_attained by metis

lemma lcs_sym: "lcs xs ys = lcs ys xs"
  unfolding lcs_def by (simp add: conj_commute)

lemma lcs_Nil [simp]: "lcs [] ys = 0" "lcs xs [] = 0"
  using lcs_le [of "[]" ys 0] lcs_le [of xs "[]" 0] by simp_all

lemma lcs_mono: "subseq xs xs' \<Longrightarrow> subseq ys ys' \<Longrightarrow> lcs xs ys \<le> lcs xs' ys'"
  by (intro lcs_le lcs_ge) (auto intro: subseq_order.trans)

lemma lcs_Cons_same: "lcs (x # xs) (x # ys) = Suc (lcs xs ys)"
proof (rule antisym)
  show "lcs (x # xs) (x # ys) \<le> Suc (lcs xs ys)"
  proof (rule lcs_le)
    fix zs
    assume "subseq zs (x # xs)" "subseq zs (x # ys)"
    then have "subseq (tl zs) xs" "subseq (tl zs) ys"
      by (cases zs; auto split: if_splits dest: subseq_Cons')+
    from lcs_ge [OF this] show "length zs \<le> Suc (lcs xs ys)" by simp
  qed
  obtain zs where "subseq zs xs" "subseq zs ys" "length zs = lcs xs ys" using lcs_attained by blast
  then show "Suc (lcs xs ys) \<le> lcs (x # xs) (x # ys)" using lcs_ge [of "x # zs" "x # xs" "x # ys"] by simp
qed

lemma lcs_Cons_diff: "x \<noteq> y \<Longrightarrow> lcs (x # xs) (y # ys) = max (lcs xs (y # ys)) (lcs (x # xs) ys)"
proof (rule antisym)
  assume "x \<noteq> y"
  show "lcs (x # xs) (y # ys) \<le> max (lcs xs (y # ys)) (lcs (x # xs) ys)"
  proof (rule lcs_le)
    fix zs
    assume "subseq zs (x # xs)" "subseq zs (y # ys)"
    with \<open>x \<noteq> y\<close> have "subseq zs xs \<and> subseq zs (y # ys) \<or> subseq zs (x # xs) \<and> subseq zs ys"
      by (cases zs) (auto split: if_splits)
    then show "length zs \<le> max (lcs xs (y # ys)) (lcs (x # xs) ys)"
      using lcs_ge by (fastforce simp: le_max_iff_disj)
  qed
next
  have "subseq xs (x # xs)" "subseq ys (y # ys)" by auto
  then show "max (lcs xs (y # ys)) (lcs (x # xs) ys) \<le> lcs (x # xs) (y # ys)" by (simp add: lcs_mono)
qed

lemma subseq_rev: "subseq xs ys \<Longrightarrow> subseq (rev xs) (rev ys)"
  by (induction rule: list_emb.induct) (auto intro: list_emb_append_mono)

lemma lcs_rev: "lcs (rev xs) (rev ys) = lcs xs ys"
proof -
  have "lcs xs ys \<le> lcs (rev xs) (rev ys)" for xs ys :: "'a list"
    by (rule lcs_le) (metis lcs_ge length_rev subseq_rev)
  from this [of xs ys] this [of "rev xs" "rev ys"] show ?thesis by simp
qed

lemma lcs_snoc:
  "lcs (xs @ [x]) (ys @ [y]) = (if x = y then Suc (lcs xs ys) else max (lcs (xs @ [x]) ys) (lcs xs (ys @ [y])))"
  using lcs_rev [of "xs @ [x]" "ys @ [y]"] lcs_rev [of xs ys] lcs_rev [of "xs @ [x]" ys] lcs_rev [of xs "ys @ [y]"]
  using lcs_Cons_same [of x "rev xs" "rev ys"] lcs_Cons_diff [of x y "rev xs" "rev ys"]
  by (auto simp: max.commute)

lemma lcs_append_same: "lcs (ps @ xs @ qs) (ps @ ys @ qs) = length ps + lcs xs ys + length qs"
proof -
  have front: "lcs (ps @ xs) (ps @ ys) = length ps + lcs xs ys" for ps xs ys :: "'a list"
    by (induction ps) (simp_all add: lcs_Cons_same)
  have "lcs (xs @ qs) (ys @ qs) = lcs (rev qs @ rev xs) (rev qs @ rev ys)"
    by (metis lcs_rev rev_append)
  also have "\<dots> = length qs + lcs xs ys" by (simp add: front lcs_rev)
  finally show ?thesis by (simp add: front)
qed

lemma lcs_split_le: "lcs xs ys + lcs xs' ys' \<le> lcs (xs @ xs') (ys @ ys')"
proof -
  obtain zs zs' where "subseq zs xs" "subseq zs ys" "length zs = lcs xs ys"
    "subseq zs' xs'" "subseq zs' ys'" "length zs' = lcs xs' ys'" using lcs_attained by metis
  then show ?thesis using lcs_ge [of "zs @ zs'" "xs @ xs'" "ys @ ys'"] by (simp add: list_emb_append_mono)
qed

lemma lcs_split_ex:
  "\<exists>k \<le> length ys. lcs (xs @ xs') ys = lcs xs (take k ys) + lcs xs' (drop k ys)"
proof -
  obtain zs where zs: "subseq zs (xs @ xs')" "subseq zs ys" "length zs = lcs (xs @ xs') ys"
    using lcs_attained by blast
  from zs(1) obtain us vs where uv: "zs = us @ vs" "subseq us xs" "subseq vs xs'"
    by (auto simp: subseq_append_iff)
  with zs(2) obtain ys1 ys2 where y: "ys = ys1 @ ys2" "subseq us ys1" "subseq vs ys2"
    using list_emb_appendD by blast
  have "lcs (xs @ xs') ys \<le> lcs xs ys1 + lcs xs' ys2"
    using zs(3) uv y lcs_ge [of us xs ys1] lcs_ge [of vs xs' ys2] by simp
  moreover have "lcs xs ys1 + lcs xs' ys2 \<le> lcs (xs @ xs') ys" unfolding y(1) by (rule lcs_split_le)
  ultimately show ?thesis using y(1) by (intro exI [of _ "length ys1"]) simp
qed

lemma lcs_singleton: "lcs [x] ys = (if x \<in> set ys then 1 else 0)"
proof (induction ys)
  case (Cons y ys)
  then show ?case by (cases "x = y") (simp_all add: lcs_Cons_same lcs_Cons_diff)
qed simp

end
