(* ===== verification/Consdiff_Changes.thy ===== *)
theory Consdiff_Changes
  imports Smartlist_Strings Bitarray Lcs
begin

section \<open>Consensus diffs: lines and changes, \<^verbatim>\<open>feature/dircommon/consdiff.c\<close>\<close>

text \<open>
  A \<open>cdline\<close> is a \<open>cdline_t\<close>, a pointer into a document and a length: the bytes of the line and
  the byte that follows them in memory, \<open>None\<close> where the object ends with the line. No function
  reads further than that byte. A smartlist of lines is the list of its lines, which the smartlist
  operations implement by the refinement of theory \<open>Smartlist\<close>; an index outside it is \<open>None\<close>.

  This theory holds the comparison of lines, the slices, and the search for the lines that two
  slices do not share: the dynamic program \<open>lcs_lengths\<close> and the divide and conquer of
  \<open>calc_changes\<close> on bit arrays.
\<close>

subsection \<open>Lines\<close>

record cdline =
  cd_s :: "byte list"
  cd_next :: "byte option"

definition lines_eq :: "cdline \<Rightarrow> cdline \<Rightarrow> bool" where
  "lines_eq a b \<longleftrightarrow> length (cd_s a) = length (cd_s b) \<and> cd_s a = cd_s b"

definition line_str_eq :: "cdline \<Rightarrow> byte list \<Rightarrow> bool option" where
  "line_str_eq a b =
     do {
       let len = length b;
       guard (len \<le> UINT32_MAX);
       let bline = \<lparr>cd_s = b, cd_next = Some 0\<rparr>;
       Some (lines_eq a bline)
     }"

definition line_starts_with_str :: "cdline \<Rightarrow> byte list \<Rightarrow> bool option" where
  "line_starts_with_str a b =
     do {
       let len = length b;
       guard (len \<le> UINT32_MAX);
       Some (len \<le> length (cd_s a) \<and> take len (cd_s a) = b)
     }"

text \<open>The copy has exactly the bytes of the string; its length is stored in 32 bits.\<close>

definition cdline_linecpy :: "byte list \<Rightarrow> cdline" where
  "cdline_linecpy s =
     (let len = length s; ss = s
      in \<lparr>cd_s = take (len mod 4294967296) ss, cd_next = arr_get ss (len mod 4294967296)\<rparr>)"

definition smartlist_add_linecpy :: "cdline list \<Rightarrow> byte list \<Rightarrow> cdline list" where
  "smartlist_add_linecpy lst s = lst @ [cdline_linecpy s]"

definition line_get :: "'a list \<Rightarrow> int \<Rightarrow> 'a option" where
  "line_get xs i = (if 0 \<le> i then arr_get xs (nat i) else None)"

subsection \<open>Slices\<close>

record smartlist_slice_t =
  ss_list :: "cdline list"
  ss_offset :: int
  ss_len :: int

definition smartlist_slice :: "cdline list \<Rightarrow> int \<Rightarrow> int \<Rightarrow> smartlist_slice_t option" where
  "smartlist_slice lst start end1 =
     do {
       let list_len = int (length lst);
       guard (0 \<le> start);
       guard (start \<le> list_len);
       let en = (if end1 = -1 then list_len else end1);
       guard (start \<le> en);
       Some \<lparr>ss_list = lst, ss_offset = start, ss_len = en - start\<rparr>
     }"

subsection \<open>The lengths of common subsequences\<close>

fun lcs_row :: "cdline \<Rightarrow> cdline list \<Rightarrow> int \<Rightarrow> int list \<Rightarrow> nat \<Rightarrow> nat \<Rightarrow> int \<Rightarrow> int list \<Rightarrow> int list option" where
  "lcs_row line1 list2 direction prev j 0 sj result = Some result"
| "lcs_row line1 list2 direction prev j (Suc k) sj result =
     do {
       line2 \<leftarrow> line_get list2 sj;
       result \<leftarrow>
         (if lines_eq line1 line2 then
            do {
              p \<leftarrow> arr_get prev j;
              arr_set result (j + 1) (p + 1)
            }
          else
            do {
              a \<leftarrow> arr_get result j;
              b \<leftarrow> arr_get prev (j + 1);
              arr_set result (j + 1) (max a b)
            });
       lcs_row line1 list2 direction prev (j + 1) k (sj + direction) result
     }"

fun lcs_rows :: "smartlist_slice_t \<Rightarrow> smartlist_slice_t \<Rightarrow> int \<Rightarrow> nat \<Rightarrow> int \<Rightarrow> int list \<Rightarrow> int list option" where
  "lcs_rows s1 s2 direction 0 si result = Some result"
| "lcs_rows s1 s2 direction (Suc k) si result =
     do {
       line1 \<leftarrow> line_get (ss_list s1) si;
       let prev = result;
       let sj = ss_offset s2;
       let sj = (if direction = -1 then sj + (ss_len s2 - 1) else sj);
       result \<leftarrow> lcs_row line1 (ss_list s2) direction prev 0 (nat (ss_len s2)) sj result;
       lcs_rows s1 s2 direction k (si + direction) result
     }"

definition lcs_lengths :: "smartlist_slice_t \<Rightarrow> smartlist_slice_t \<Rightarrow> int \<Rightarrow> int list option" where
  "lcs_lengths s1 s2 direction =
     do {
       let result = replicate (nat (ss_len s2 + 1)) 0;
       guard (direction = 1 \<or> direction = -1);
       let si = ss_offset s1;
       let si = (if direction = -1 then si + (ss_len s1 - 1) else si);
       lcs_rows s1 s2 direction (nat (ss_len s1)) si result
     }"

subsection \<open>Trimming\<close>

function trim_front :: "smartlist_slice_t \<Rightarrow> smartlist_slice_t \<Rightarrow> (smartlist_slice_t \<times> smartlist_slice_t) option" where
  "trim_front s1 s2 =
     (if 0 < ss_len s1 \<and> 0 < ss_len s2 then
        do {
          line1 \<leftarrow> line_get (ss_list s1) (ss_offset s1);
          line2 \<leftarrow> line_get (ss_list s2) (ss_offset s2);
          (if \<not> lines_eq line1 line2 then Some (s1, s2)
           else trim_front (s1\<lparr>ss_offset := ss_offset s1 + 1, ss_len := ss_len s1 - 1\<rparr>)
                  (s2\<lparr>ss_offset := ss_offset s2 + 1, ss_len := ss_len s2 - 1\<rparr>))
        }
      else Some (s1, s2))"
  by pat_completeness auto
termination
  by (relation "measure (\<lambda>(s1, s2). nat (ss_len s1))") auto

function trim_back ::
    "smartlist_slice_t \<Rightarrow> smartlist_slice_t \<Rightarrow> int \<Rightarrow> int \<Rightarrow> (smartlist_slice_t \<times> smartlist_slice_t) option" where
  "trim_back s1 s2 i1 i2 =
     (if 0 < ss_len s1 \<and> 0 < ss_len s2 then
        do {
          line1 \<leftarrow> line_get (ss_list s1) i1;
          line2 \<leftarrow> line_get (ss_list s2) i2;
          (if \<not> lines_eq line1 line2 then Some (s1, s2)
           else trim_back (s1\<lparr>ss_len := ss_len s1 - 1\<rparr>) (s2\<lparr>ss_len := ss_len s2 - 1\<rparr>)
                  (i1 - 1) (i2 - 1))
        }
      else Some (s1, s2))"
  by pat_completeness auto
termination
  by (relation "measure (\<lambda>(s1, s2, i1, i2). nat (ss_len s1))") auto

definition trim_slices :: "smartlist_slice_t \<Rightarrow> smartlist_slice_t \<Rightarrow> (smartlist_slice_t \<times> smartlist_slice_t) option" where
  "trim_slices s1 s2 =
     do {
       (s1, s2) \<leftarrow> trim_front s1 s2;
       let i1 = (ss_offset s1 + ss_len s1) - 1;
       let i2 = (ss_offset s2 + ss_len s2) - 1;
       trim_back s1 s2 i1 i2
     }"

subsection \<open>Marking changes\<close>

fun slice_string_pos_loop :: "cdline list \<Rightarrow> cdline \<Rightarrow> int \<Rightarrow> nat \<Rightarrow> int option" where
  "slice_string_pos_loop lst str i 0 = Some (-1)"
| "slice_string_pos_loop lst str i (Suc k) =
     do {
       el \<leftarrow> line_get lst i;
       (if lines_eq el str then Some i else slice_string_pos_loop lst str (i + 1) k)
     }"

definition smartlist_slice_string_pos :: "smartlist_slice_t \<Rightarrow> cdline \<Rightarrow> int option" where
  "smartlist_slice_string_pos s str =
     slice_string_pos_loop (ss_list s) str (ss_offset s) (nat (ss_len s))"

fun set_changed_loop :: "bitarray \<Rightarrow> int \<Rightarrow> int \<Rightarrow> nat \<Rightarrow> bitarray option" where
  "set_changed_loop changed2 toskip i 0 = Some changed2"
| "set_changed_loop changed2 toskip i (Suc k) =
     do {
       changed2 \<leftarrow> (if i \<noteq> toskip then bitarray_set changed2 i else Some changed2);
       set_changed_loop changed2 toskip (i + 1) k
     }"

definition set_changed ::
    "bitarray \<Rightarrow> bitarray \<Rightarrow> smartlist_slice_t \<Rightarrow> smartlist_slice_t \<Rightarrow> (bitarray \<times> bitarray) option" where
  "set_changed changed1 changed2 s1 s2 =
     do {
       guard (ss_len s1 = 0 \<or> ss_len s1 = 1);
       (changed1, toskip) \<leftarrow>
         (if ss_len s1 = 1 then
            do {
              line_common \<leftarrow> line_get (ss_list s1) (ss_offset s1);
              toskip \<leftarrow> smartlist_slice_string_pos s2 line_common;
              changed1 \<leftarrow> (if toskip = -1 then bitarray_set changed1 (ss_offset s1) else Some changed1);
              Some (changed1, toskip)
            }
          else Some (changed1, -1));
       changed2 \<leftarrow> set_changed_loop changed2 toskip (ss_offset s2) (nat (ss_len s2));
       Some (changed1, changed2)
     }"

fun best_column_loop :: "int list \<Rightarrow> int list \<Rightarrow> int \<Rightarrow> nat \<Rightarrow> nat \<Rightarrow> int \<Rightarrow> int \<Rightarrow> int option" where
  "best_column_loop lens_top lens_bot len i 0 column max_sum = Some column"
| "best_column_loop lens_top lens_bot len i (Suc k) column max_sum =
     do {
       a \<leftarrow> arr_get lens_top i;
       b \<leftarrow> line_get lens_bot (len - int i);
       let sm = a + b;
       (if max_sum < sm then best_column_loop lens_top lens_bot len (i + 1) k (int i) sm
        else best_column_loop lens_top lens_bot len (i + 1) k column max_sum)
     }"

definition optimal_column_to_split ::
    "smartlist_slice_t \<Rightarrow> smartlist_slice_t \<Rightarrow> smartlist_slice_t \<Rightarrow> int option" where
  "optimal_column_to_split top1 bot1 s2 =
     do {
       lens_top \<leftarrow> lcs_lengths top1 s2 1;
       lens_bot \<leftarrow> lcs_lengths bot1 s2 (-1);
       best_column_loop lens_top lens_bot (ss_len s2) 0 (nat (ss_len s2 + 1)) 0 (-1)
     }"

declare trim_front.simps [simp del] trim_back.simps [simp del]

lemma trim_front_len: "trim_front s1 s2 = Some (t1, t2) \<Longrightarrow> ss_len t1 \<le> ss_len s1"
proof (induction s1 s2 rule: trim_front.induct)
  case (1 s1 s2)
  note step = "1.prems" [unfolded trim_front.simps [of s1 s2]]
  show ?case
  proof (cases "0 < ss_len s1 \<and> 0 < ss_len s2")
    case True
    with step obtain l1 l2 where l: "line_get (ss_list s1) (ss_offset s1) = Some l1"
      "line_get (ss_list s2) (ss_offset s2) = Some l2" by (auto split: bind_splits)
    with "1.IH" [OF True l] step True show ?thesis by (cases "lines_eq l1 l2") auto
  qed (use step in auto)
qed

lemma trim_back_len: "trim_back s1 s2 i1 i2 = Some (t1, t2) \<Longrightarrow> ss_len t1 \<le> ss_len s1"
proof (induction s1 s2 i1 i2 rule: trim_back.induct)
  case (1 s1 s2 i1 i2)
  note step = "1.prems" [unfolded trim_back.simps [of s1 s2]]
  show ?case
  proof (cases "0 < ss_len s1 \<and> 0 < ss_len s2")
    case True
    with step obtain l1 l2 where l: "line_get (ss_list s1) i1 = Some l1"
      "line_get (ss_list s2) i2 = Some l2" by (auto split: bind_splits)
    with "1.IH" [OF True l] step True show ?thesis by (cases "lines_eq l1 l2") auto
  qed (use step in auto)
qed

lemma trim_slices_len: "trim_slices s1 s2 = Some (t1, t2) \<Longrightarrow> ss_len t1 \<le> ss_len s1"
  by (fastforce simp: trim_slices_def split: bind_splits dest: trim_front_len trim_back_len)

lemma smartlist_slice_len:
  "smartlist_slice lst start en = Some t \<Longrightarrow> 0 \<le> start \<and> (en \<noteq> -1 \<longrightarrow> ss_len t = en - start)"
  by (auto simp: smartlist_slice_def Let_def split: if_splits)

subsection \<open>Divide and conquer\<close>

function calc_changes ::
    "smartlist_slice_t \<Rightarrow> smartlist_slice_t \<Rightarrow> bitarray \<Rightarrow> bitarray \<Rightarrow> (bitarray \<times> bitarray) option" where
  "calc_changes s1 s2 changed1 changed2 =
     do {
       (s1, s2) \<leftarrow> trim_slices s1 s2;
       (if ss_len s1 \<le> 1 then set_changed changed1 changed2 s1 s2
        else if ss_len s2 \<le> 1 then
          map_option (\<lambda>(c2, c1). (c1, c2)) (set_changed changed2 changed1 s2 s1)
        else
          do {
            let mid = ss_len s1 div 2;
            top1 \<leftarrow> smartlist_slice (ss_list s1) (ss_offset s1) (ss_offset s1 + mid);
            bot1 \<leftarrow> smartlist_slice (ss_list s1) (ss_offset s1 + mid) (ss_offset s1 + ss_len s1);
            mid2 \<leftarrow> optimal_column_to_split top1 bot1 s2;
            left \<leftarrow> smartlist_slice (ss_list s2) (ss_offset s2) (ss_offset s2 + mid2);
            right \<leftarrow> smartlist_slice (ss_list s2) (ss_offset s2 + mid2) (ss_offset s2 + ss_len s2);
            (changed1, changed2) \<leftarrow> calc_changes top1 left changed1 changed2;
            calc_changes bot1 right changed1 changed2
          })
     }"
  by pat_completeness auto
termination
proof (relation "measure (\<lambda>(s1, s2, c1, c2). nat (ss_len s1))", goal_cases)
  case (2 s1 s2 changed1 changed2 x t1 t2 mid top1 bot1 mid2 left right)
  then have "ss_len t1 \<le> ss_len s1" "1 < ss_len t1"
    "smartlist_slice (ss_list t1) (ss_offset t1) (ss_offset t1 + ss_len t1 div 2) = Some top1"
    using trim_slices_len [of s1 s2 t1 t2] by simp_all
  moreover from this(2) have "0 < ss_len t1 div 2" "ss_len t1 div 2 < ss_len t1" by simp_all
  ultimately show ?case using smartlist_slice_len [of _ _ _ top1] by fastforce
next
  case (3 s1 s2 changed1 changed2 x t1 t2 mid top1 bot1 mid2 left right)
  then have "ss_len t1 \<le> ss_len s1" "1 < ss_len t1"
    "smartlist_slice (ss_list t1) (ss_offset t1 + ss_len t1 div 2) (ss_offset t1 + ss_len t1) = Some bot1"
    "smartlist_slice (ss_list t1) (ss_offset t1) (ss_offset t1 + ss_len t1 div 2) = Some top1"
    using trim_slices_len [of s1 s2 t1 t2] by simp_all
  moreover from this(2) have "0 < ss_len t1 div 2" "ss_len t1 div 2 < ss_len t1" by simp_all
  ultimately show ?case using smartlist_slice_len [of _ _ _ top1] smartlist_slice_len [of _ _ _ bot1] by fastforce
qed simp

declare calc_changes.simps [simp del]

subsection \<open>The dynamic program\<close>

definition sub :: "'a list \<Rightarrow> nat \<Rightarrow> nat \<Rightarrow> 'a list" where
  "sub xs ofs n = take n (drop ofs xs)"

definition mk_slice :: "cdline list \<Rightarrow> nat \<Rightarrow> nat \<Rightarrow> smartlist_slice_t" where
  "mk_slice lst ofs n = \<lparr>ss_list = lst, ss_offset = int ofs, ss_len = int n\<rparr>"

abbreviation contents :: "cdline list \<Rightarrow> byte list list" where
  "contents lst \<equiv> map cd_s lst"

lemma mk_slice_simps [simp]:
  "ss_list (mk_slice lst ofs n) = lst" "ss_offset (mk_slice lst ofs n) = int ofs" "ss_len (mk_slice lst ofs n) = int n"
  by (simp_all add: mk_slice_def)

lemma length_sub [simp]: "ofs + n \<le> length xs \<Longrightarrow> length (sub xs ofs n) = n"
  by (simp add: sub_def)

lemma nth_sub: "ofs + n \<le> length xs \<Longrightarrow> i < n \<Longrightarrow> sub xs ofs n ! i = xs ! (ofs + i)"
  by (simp add: sub_def)

lemma sub_append: "sub xs ofs (n + m) = sub xs ofs n @ sub xs (ofs + n) m"
  by (simp only: sub_def take_add drop_drop add.commute [of ofs n])

lemma lines_eq_iff [simp]: "lines_eq a b \<longleftrightarrow> cd_s a = cd_s b"
  by (auto simp: lines_eq_def)

lemma line_str_dot [simp]: "line_str_eq line (bytes_of ''.'') = Some (cd_s line = bytes_of ''.'')"
  by (simp add: line_str_eq_def lines_eq_def UINT32_MAX_def bytes_of_def)

lemma line_get_int [simp]: "i < length xs \<Longrightarrow> line_get xs (int i) = Some (xs ! i)"
  by (simp add: line_get_def arr_get_def)

lemma smartlist_slice_eq:
  "a \<le> b \<Longrightarrow> b \<le> length lst \<Longrightarrow> smartlist_slice lst (int a) (int b) = Some (mk_slice lst a (b - a))"
  by (simp add: smartlist_slice_def mk_slice_def Let_def of_nat_diff)

text \<open>The lines met when walking over a list from an index with a step have the given contents.\<close>

definition walks :: "cdline list \<Rightarrow> int \<Rightarrow> int \<Rightarrow> byte list list \<Rightarrow> bool" where
  "walks lst s d ys \<longleftrightarrow> (\<forall>j < length ys. \<exists>x. line_get lst (s + d * int j) = Some x \<and> cd_s x = ys ! j)"

lemma walks_forward:
  "ofs + n \<le> length lst \<Longrightarrow> walks lst (int ofs) 1 (sub (contents lst) ofs n)"
  unfolding walks_def by (simp add: nth_sub flip: of_nat_add)

lemma walks_backward:
  assumes "ofs + n \<le> length lst"
  shows "walks lst (int ofs + (int n - 1)) (-1) (rev (sub (contents lst) ofs n))"
  unfolding walks_def
proof (intro allI impI)
  fix j
  assume "j < length (rev (sub (contents lst) ofs n))"
  then have j: "j < n" using assms by simp
  define k where "k = ofs + (n - 1 - j)"
  from j have e: "int ofs + (int n - 1) + - 1 * int j = int k" by (simp add: k_def)
  have "line_get lst (int ofs + (int n - 1) + - 1 * int j) = Some (lst ! k)"
    unfolding e using assms j by (intro line_get_int) (simp add: k_def)
  moreover have "rev (sub (contents lst) ofs n) ! j = cd_s (lst ! k)"
    using assms j by (simp add: rev_nth nth_sub k_def)
  ultimately show "\<exists>x. line_get lst (int ofs + (int n - 1) + - 1 * int j) = Some x \<and>
      cd_s x = rev (sub (contents lst) ofs n) ! j" by simp
qed

definition lcs_table :: "'a list \<Rightarrow> 'a list \<Rightarrow> int list" where
  "lcs_table xs ys = map (\<lambda>j. int (lcs xs (take j ys))) [0..<Suc (length ys)]"

lemma length_lcs_table [simp]: "length (lcs_table xs ys) = Suc (length ys)"
  by (simp add: lcs_table_def)

lemma nth_lcs_table [simp]: "j \<le> length ys \<Longrightarrow> lcs_table xs ys ! j = int (lcs xs (take j ys))"
  by (simp add: lcs_table_def del: upt_Suc)

lemma lcs_row_eq:
  assumes "walks lst s d ys"
  shows "j + k = length ys \<Longrightarrow> length result = Suc (length ys) \<Longrightarrow>
     (\<And>m. m \<le> j \<Longrightarrow> result ! m = int (lcs (xs @ [cd_s line1]) (take m ys))) \<Longrightarrow>
     lcs_row line1 lst d (lcs_table xs ys) j k (s + d * int j) result = Some (lcs_table (xs @ [cd_s line1]) ys)"
proof (induction k arbitrary: j result)
  case 0
  then show ?case by (auto intro: nth_equalityI)
next
  case (Suc k)
  then have j: "j < length ys" by simp
  from assms j obtain y where y: "line_get lst (s + d * int j) = Some y" "cd_s y = ys ! j" by (auto simp: walks_def)
  define v where "v = int (lcs (xs @ [cd_s line1]) (take (Suc j) ys))"
  have v: "v = (if cd_s line1 = cd_s y then int (lcs xs (take j ys)) + 1
      else max (result ! j) (int (lcs xs (take (Suc j) ys))))"
    using j Suc.prems(3) [of j] y(2)
    by (simp add: v_def take_Suc_conv_app_nth lcs_snoc of_nat_max)
  have "lcs_row line1 lst d (lcs_table xs ys) (j + 1) k (s + d * int (j + 1)) (result[j + 1 := v]) =
      Some (lcs_table (xs @ [cd_s line1]) ys)"
    using Suc.prems j by (intro Suc.IH) (auto simp: nth_list_update le_Suc_eq v_def)
  then show ?case
    using j Suc.prems(2) y by (cases "cd_s line1 = cd_s y") (simp_all add: arr_get_def arr_set_def v algebra_simps)
qed

lemma lcs_rows_eq:
  assumes "walks (ss_list s2) sj d ys" "sj = (if d = -1 then ss_offset s2 + (ss_len s2 - 1) else ss_offset s2)"
    "ss_len s2 = int (length ys)" "walks (ss_list s1) s d xs"
  shows "i + k = length xs \<Longrightarrow>
     lcs_rows s1 s2 d k (s + d * int i) (lcs_table (take i xs) ys) = Some (lcs_table xs ys)"
proof (induction k arbitrary: i)
  case (Suc k)
  then have i: "i < length xs" by simp
  from assms(4) i obtain x where x: "line_get (ss_list s1) (s + d * int i) = Some x" "cd_s x = xs ! i"
    by (auto simp: walks_def)
  have "lcs_row x (ss_list s2) d (lcs_table (take i xs) ys) 0 (length ys) (sj + d * int 0) (lcs_table (take i xs) ys) =
      Some (lcs_table (take i xs @ [cd_s x]) ys)"
    by (rule lcs_row_eq [OF assms(1)]) simp_all
  moreover have "lcs_rows s1 s2 d k (s + d * int (i + 1)) (lcs_table (take (i + 1) xs) ys) = Some (lcs_table xs ys)"
    using Suc.prems by (intro Suc.IH) simp
  ultimately show ?case
    using x i assms(2,3) by (simp add: take_Suc_conv_app_nth algebra_simps Let_def)
qed simp

lemma lcs_lengths_eq:
  assumes "o1 + n1 \<le> length l1" "o2 + n2 \<le> length l2"
  defines "X \<equiv> sub (contents l1) o1 n1" and "Y \<equiv> sub (contents l2) o2 n2"
  shows "lcs_lengths (mk_slice l1 o1 n1) (mk_slice l2 o2 n2) 1 = Some (lcs_table X Y)"
    "lcs_lengths (mk_slice l1 o1 n1) (mk_slice l2 o2 n2) (-1) = Some (lcs_table (rev X) (rev Y))"
proof -
  have len: "length X = n1" "length Y = n2" using assms by simp_all
  have zero: "replicate (nat (int n2 + 1)) 0 = lcs_table [] ys" if "length ys = n2" for ys :: "byte list list"
    using that by (simp add: lcs_table_def map_replicate_const nat_add_distrib)
  have "lcs_rows (mk_slice l1 o1 n1) (mk_slice l2 o2 n2) 1 n1 (int o1 + 1 * int 0) (lcs_table (take 0 X) Y) =
      Some (lcs_table X Y)"
    using walks_forward [OF assms(1)] walks_forward [OF assms(2)] len
    by (intro lcs_rows_eq [of _ "int o2"]) (simp_all add: X_def Y_def)
  then show "lcs_lengths (mk_slice l1 o1 n1) (mk_slice l2 o2 n2) 1 = Some (lcs_table X Y)"
    unfolding lcs_lengths_def mk_slice_simps zero [OF len(2)] by simp
  have "lcs_rows (mk_slice l1 o1 n1) (mk_slice l2 o2 n2) (-1) n1 (int o1 + (int n1 - 1) + (-1) * int 0)
      (lcs_table (take 0 (rev X)) (rev Y)) = Some (lcs_table (rev X) (rev Y))"
    using walks_backward [OF assms(1)] walks_backward [OF assms(2)] len
    by (intro lcs_rows_eq [of _ "int o2 + (int n2 - 1)"]) (simp_all add: X_def Y_def)
  moreover have "length (rev Y) = n2" using len by simp
  ultimately show "lcs_lengths (mk_slice l1 o1 n1) (mk_slice l2 o2 n2) (-1) = Some (lcs_table (rev X) (rev Y))"
    unfolding lcs_lengths_def mk_slice_simps zero [of "rev Y"] by (simp add: zero [of "rev Y"])
qed

subsection \<open>The split is optimal\<close>

lemma best_column_loop_eq:
  assumes "\<And>i. i \<le> n \<Longrightarrow> \<exists>a b. arr_get lens_top i = Some a \<and> line_get lens_bot (int n - int i) = Some b \<and> a + b = f i"
  shows "i + k = Suc n \<Longrightarrow> c \<le> n \<Longrightarrow> (\<And>j. j < i \<Longrightarrow> f j \<le> max_sum) \<Longrightarrow>
     (0 < i \<and> max_sum = f c \<or> i = 0 \<and> max_sum = -1 \<and> 0 \<le> f 0) \<Longrightarrow>
     \<exists>c' \<le> n. best_column_loop lens_top lens_bot (int n) i k (int c) max_sum = Some (int c') \<and> (\<forall>j \<le> n. f j \<le> f c')"
proof (induction k arbitrary: i c max_sum)
  case 0
  then show ?case by (intro exI [of _ c]) (auto simp: less_Suc_eq_le)
next
  case (Suc k)
  then have i: "i \<le> n" by simp
  from assms [OF i] obtain a b where ab: "arr_get lens_top i = Some a" "line_get lens_bot (int n - int i) = Some b" "a + b = f i"
    by blast
  show ?case
  proof (cases "max_sum < f i")
    case True
    have "\<exists>c' \<le> n. best_column_loop lens_top lens_bot (int n) (i + 1) k (int i) (f i) = Some (int c') \<and> (\<forall>j \<le> n. f j \<le> f c')"
      using Suc.prems True i by (intro Suc.IH) (force simp: less_Suc_eq)+
    with True ab show ?thesis by (simp add: Let_def)
  next
    case False
    have "0 < i" using False Suc.prems(4) by auto
    then have "\<exists>c' \<le> n. best_column_loop lens_top lens_bot (int n) (i + 1) k (int c) max_sum = Some (int c') \<and> (\<forall>j \<le> n. f j \<le> f c')"
      using Suc.prems False i by (intro Suc.IH) (auto simp: less_Suc_eq)
    with False ab show ?thesis by (simp add: Let_def)
  qed
qed

lemma optimal_column_eq:
  assumes "o1 + m1 \<le> length l1" "p1 + k1 \<le> length l1" "o2 + n2 \<le> length l2"
  defines "T \<equiv> sub (contents l1) o1 m1" and "B \<equiv> sub (contents l1) p1 k1" and "Y \<equiv> sub (contents l2) o2 n2"
  shows "\<exists>c \<le> n2. optimal_column_to_split (mk_slice l1 o1 m1) (mk_slice l1 p1 k1) (mk_slice l2 o2 n2) = Some (int c) \<and>
    lcs T (take c Y) + lcs B (drop c Y) = lcs (T @ B) Y"
proof -
  define f where "f i = int (lcs T (take i Y) + lcs B (drop i Y))" for i
  have len: "length Y = n2" using assms by simp
  have tops: "lcs_lengths (mk_slice l1 o1 m1) (mk_slice l2 o2 n2) 1 = Some (lcs_table T Y)"
    using lcs_lengths_eq(1) [OF assms(1,3)] by (simp add: T_def Y_def)
  have bots: "lcs_lengths (mk_slice l1 p1 k1) (mk_slice l2 o2 n2) (-1) = Some (lcs_table (rev B) (rev Y))"
    using lcs_lengths_eq(2) [OF assms(2,3)] by (simp add: B_def Y_def)
  have "\<exists>a b. arr_get (lcs_table T Y) i = Some a \<and> line_get (lcs_table (rev B) (rev Y)) (int n2 - int i) = Some b \<and> a + b = f i"
    if "i \<le> n2" for i
  proof -
    have "line_get (lcs_table (rev B) (rev Y)) (int (n2 - i)) = Some (int (lcs (rev B) (take (n2 - i) (rev Y))))"
      using that len by (subst line_get_int) simp_all
    moreover have "take (n2 - i) (rev Y) = rev (drop i Y)" using that len by (simp add: take_rev)
    ultimately show ?thesis using that len by (simp add: arr_get_def f_def lcs_rev of_nat_diff)
  qed
  from best_column_loop_eq [OF this, where i = 0 and k = "Suc n2" and c = 0 and max_sum = "-1"] obtain c where c: "c \<le> n2"
    "best_column_loop (lcs_table T Y) (lcs_table (rev B) (rev Y)) (int n2) 0 (Suc n2) 0 (-1) = Some (int c)"
    "\<And>j. j \<le> n2 \<Longrightarrow> f j \<le> f c"
    by (auto simp: f_def)
  from lcs_split_ex [of Y T B] obtain k where "k \<le> n2" "lcs (T @ B) Y = lcs T (take k Y) + lcs B (drop k Y)"
    by (auto simp: len)
  with c(3) [of k] have "lcs (T @ B) Y \<le> lcs T (take c Y) + lcs B (drop c Y)" by (simp add: f_def)
  moreover have "lcs T (take c Y) + lcs B (drop c Y) \<le> lcs (T @ B) Y"
    using lcs_split_le [of T "take c Y" B "drop c Y"] by simp
  moreover have "nat (int n2 + 1) = Suc n2" by simp
  ultimately show ?thesis using c(1,2) by (intro exI [of _ c]) (simp add: optimal_column_to_split_def tops bots)
qed

subsection \<open>Trimming removes common ends\<close>

lemma sub_Suc: "ofs + n < length xs \<Longrightarrow> sub xs ofs (Suc n) = xs ! ofs # sub xs (Suc ofs) n"
  by (simp add: sub_def Cons_nth_drop_Suc [symmetric])

lemma sub_snoc: "ofs + n < length xs \<Longrightarrow> sub xs ofs (Suc n) = sub xs ofs n @ [xs ! (ofs + n)]"
  by (simp add: sub_def take_Suc_conv_app_nth)

lemma sub_0 [simp]: "sub xs ofs 0 = []"
  by (simp add: sub_def)

lemma mk_slice_upd [simp]:
  "(mk_slice l ofs (Suc n))\<lparr>ss_offset := int ofs + 1, ss_len := int n\<rparr> = mk_slice l (Suc ofs) n"
  "(mk_slice l ofs (Suc n))\<lparr>ss_len := int n\<rparr> = mk_slice l ofs n"
  by (simp_all add: mk_slice_def)

lemma trim_front_eq:
  "o1 + n1 \<le> length l1 \<Longrightarrow> o2 + n2 \<le> length l2 \<Longrightarrow>
     \<exists>p \<le> min n1 n2. trim_front (mk_slice l1 o1 n1) (mk_slice l2 o2 n2) =
         Some (mk_slice l1 (o1 + p) (n1 - p), mk_slice l2 (o2 + p) (n2 - p)) \<and>
       sub (contents l1) o1 p = sub (contents l2) o2 p"
proof (induction n1 arbitrary: o1 o2 n2)
  case (Suc n1)
  show ?case
  proof (cases n2)
    case (Suc m2)
    show ?thesis
    proof (cases "cd_s (l1 ! o1) = cd_s (l2 ! o2)")
      case False
      with Suc Suc.prems \<open>o1 + _ \<le> _\<close> show ?thesis
        by (intro exI [of _ 0]) (simp add: trim_front.simps)
    next
      case True
      from Suc.IH [of "Suc o1" "Suc o2" m2] Suc.prems Suc obtain p where p: "p \<le> min n1 m2"
        "trim_front (mk_slice l1 (Suc o1) n1) (mk_slice l2 (Suc o2) m2) =
           Some (mk_slice l1 (Suc o1 + p) (n1 - p), mk_slice l2 (Suc o2 + p) (m2 - p))"
        "sub (contents l1) (Suc o1) p = sub (contents l2) (Suc o2) p" by auto
      with p True Suc Suc.prems show ?thesis
        by (intro exI [of _ "Suc p"]) (simp add: trim_front.simps [of "mk_slice l1 o1 (Suc n1)"] sub_Suc)
    qed
  qed (auto simp: trim_front.simps)
qed (simp add: trim_front.simps)

lemma trim_back_eq:
  "o1 + n1 \<le> length l1 \<Longrightarrow> o2 + n2 \<le> length l2 \<Longrightarrow>
     \<exists>q \<le> min n1 n2. trim_back (mk_slice l1 o1 n1) (mk_slice l2 o2 n2) (int o1 + int n1 - 1) (int o2 + int n2 - 1) =
         Some (mk_slice l1 o1 (n1 - q), mk_slice l2 o2 (n2 - q)) \<and>
       sub (contents l1) (o1 + (n1 - q)) q = sub (contents l2) (o2 + (n2 - q)) q"
proof (induction n1 arbitrary: n2)
  case (Suc n1)
  show ?case
  proof (cases n2)
    case (Suc m2)
    have get: "line_get l1 (int o1 + int (Suc n1) - 1) = Some (l1 ! (o1 + n1))"
      "line_get l2 (int o2 + int n2 - 1) = Some (l2 ! (o2 + m2))"
      using line_get_int [of "o1 + n1" l1] line_get_int [of "o2 + m2" l2] Suc Suc.prems by simp_all
    show ?thesis
    proof (cases "cd_s (l1 ! (o1 + n1)) = cd_s (l2 ! (o2 + m2))")
      case False
      with get Suc show ?thesis by (intro exI [of _ 0]) (simp add: trim_back.simps)
    next
      case True
      from Suc.IH [of m2] Suc.prems Suc obtain q where q: "q \<le> min n1 m2"
        "trim_back (mk_slice l1 o1 n1) (mk_slice l2 o2 m2) (int o1 + int n1 - 1) (int o2 + int m2 - 1) =
           Some (mk_slice l1 o1 (n1 - q), mk_slice l2 o2 (m2 - q))"
        "sub (contents l1) (o1 + (n1 - q)) q = sub (contents l2) (o2 + (m2 - q)) q" by auto
      have "o1 + (n1 - q) + q = o1 + n1" "o2 + (m2 - q) + q = o2 + m2" using q(1) by simp_all
      then show ?thesis using q True Suc Suc.prems get
        by (intro exI [of _ "Suc q"]) (simp add: trim_back.simps [of "mk_slice l1 o1 (Suc n1)"] sub_snoc)
    qed
  qed (auto simp: trim_back.simps)
qed (simp add: trim_back.simps)

subsection \<open>What remains unmarked\<close>

fun kept :: "(nat \<Rightarrow> bool) \<Rightarrow> nat \<Rightarrow> 'a list \<Rightarrow> 'a list" where
  "kept f ofs [] = []"
| "kept f ofs (x # xs) = (if f ofs then kept f (Suc ofs) xs else x # kept f (Suc ofs) xs)"

lemma kept_append: "kept f ofs (xs @ ys) = kept f ofs xs @ kept f (ofs + length xs) ys"
  by (induction xs arbitrary: ofs) auto

lemma kept_cong: "(\<And>j. ofs \<le> j \<Longrightarrow> j < ofs + length xs \<Longrightarrow> f j = g j) \<Longrightarrow> kept f ofs xs = kept g ofs xs"
proof (induction xs arbitrary: ofs)
  case (Cons x xs)
  from Cons.IH [of "Suc ofs"] Cons.prems [of ofs] Cons.prems show ?case by simp
qed simp

lemma kept_none: "(\<And>j. ofs \<le> j \<Longrightarrow> j < ofs + length xs \<Longrightarrow> \<not> f j) \<Longrightarrow> kept f ofs xs = xs"
proof (induction xs arbitrary: ofs)
  case (Cons x xs)
  from Cons.IH [of "Suc ofs"] Cons.prems [of ofs] Cons.prems show ?case by simp
qed simp

lemma kept_all: "(\<And>j. ofs \<le> j \<Longrightarrow> j < ofs + length xs \<Longrightarrow> f j) \<Longrightarrow> kept f ofs xs = []"
proof (induction xs arbitrary: ofs)
  case (Cons x xs)
  from Cons.IH [of "Suc ofs"] Cons.prems [of ofs] Cons.prems show ?case by simp
qed simp

text \<open>
  The marks of both slices go from \<open>c1\<close>, \<open>c2\<close> to \<open>c1'\<close>, \<open>c2'\<close>: nothing outside the slices changes,
  and the lines left unmarked are one longest common subsequence of both.
\<close>

definition changes_ok ::
    "bitarray \<Rightarrow> bitarray \<Rightarrow> bitarray \<Rightarrow> bitarray \<Rightarrow> nat \<Rightarrow> 'a list \<Rightarrow> nat \<Rightarrow> 'a list \<Rightarrow> bool" where
  "changes_ok c1 c2 c1' c2' o1 X o2 Y \<longleftrightarrow>
     ba_cap c1' = ba_cap c1 \<and> ba_cap c2' = ba_cap c2 \<and>
     (\<forall>j. j < o1 \<or> o1 + length X \<le> j \<longrightarrow> ba_bit c1' j = ba_bit c1 j) \<and>
     (\<forall>j. j < o2 \<or> o2 + length Y \<le> j \<longrightarrow> ba_bit c2' j = ba_bit c2 j) \<and>
     kept (ba_bit c1') o1 X = kept (ba_bit c2') o2 Y \<and>
     length (kept (ba_bit c1') o1 X) = lcs X Y"

definition unmarked :: "bitarray \<Rightarrow> nat \<Rightarrow> nat \<Rightarrow> bool" where
  "unmarked c ofs n \<longleftrightarrow> ofs + n \<le> ba_cap c \<and> (\<forall>j. ofs \<le> j \<longrightarrow> j < ofs + n \<longrightarrow> \<not> ba_bit c j)"

lemma changes_ok_sym: "changes_ok c1 c2 c1' c2' o1 X o2 Y \<longleftrightarrow> changes_ok c2 c1 c2' c1' o2 Y o1 X"
  by (auto simp: changes_ok_def lcs_sym [of X Y])

lemma changes_ok_append:
  assumes "changes_ok c1 c2 d1 d2 o1 X o2 Y" "changes_ok d1 d2 e1 e2 (o1 + length X) X' (o2 + length Y) Y'"
    and "lcs X Y + lcs X' Y' = lcs (X @ X') (Y @ Y')"
  shows "changes_ok c1 c2 e1 e2 o1 (X @ X') o2 (Y @ Y')"
proof -
  have "kept (ba_bit e1) o1 X = kept (ba_bit d1) o1 X" "kept (ba_bit e2) o2 Y = kept (ba_bit d2) o2 Y"
    using assms(2) by (auto intro!: kept_cong simp: changes_ok_def)
  with assms show ?thesis by (auto simp: changes_ok_def kept_append)
qed

lemma changes_ok_trim:
  assumes "changes_ok c1 c2 d1 d2 (o1 + length P) X (o2 + length P) Y"
    and "unmarked c1 o1 (length (P @ X @ Q))" "unmarked c2 o2 (length (P @ Y @ Q))"
  shows "changes_ok c1 c2 d1 d2 o1 (P @ X @ Q) o2 (P @ Y @ Q)"
proof -
  have "kept (ba_bit d1) o1 P = P" "kept (ba_bit d1) (o1 + length P + length X) Q = Q"
    using assms(1,2) by (auto intro!: kept_none simp: changes_ok_def unmarked_def)
  moreover have "kept (ba_bit d2) o2 P = P" "kept (ba_bit d2) (o2 + length P + length Y) Q = Q"
    using assms(1,3) by (auto intro!: kept_none simp: changes_ok_def unmarked_def)
  ultimately show ?thesis
    using assms(1) by (auto simp: changes_ok_def kept_append lcs_append_same add.assoc)
qed

lemma set_changed_loop_eq:
  "set_changed_loop c toskip (int i) k = set_flags bitarray_set c (filter (\<lambda>j. int j \<noteq> toskip) [i..<i + k])"
proof (induction k arbitrary: i c)
  case (Suc k)
  have "[i..<i + Suc k] = i # [Suc i..<Suc i + k]" by (simp add: upt_conv_Cons)
  with Suc.IH [of _ "Suc i"] show ?case by (auto simp: add.commute intro: bind_option_cong)
qed simp

lemma slice_string_pos_cases:
  assumes "ofs + n \<le> length lst"
  obtains (absent) "slice_string_pos_loop lst x (int ofs) n = Some (-1)" "cd_s x \<notin> set (sub (contents lst) ofs n)"
  | (found) j where "slice_string_pos_loop lst x (int ofs) n = Some (int j)" "ofs \<le> j" "j < ofs + n" "cd_s (lst ! j) = cd_s x"
proof -
  have "slice_string_pos_loop lst x (int ofs) n = Some (-1) \<and> cd_s x \<notin> set (sub (contents lst) ofs n) \<or>
      (\<exists>j. slice_string_pos_loop lst x (int ofs) n = Some (int j) \<and> ofs \<le> j \<and> j < ofs + n \<and> cd_s (lst ! j) = cd_s x)"
    using assms
  proof (induction n arbitrary: ofs)
    case (Suc n)
    from Suc.IH [of "Suc ofs"] Suc.prems show ?case
      by (auto simp: sub_Suc add.commute)
  qed simp
  then show thesis using absent found by blast
qed

lemma set_changed_eq:
  assumes "n1 \<le> 1" "o1 + n1 \<le> length l1" "o2 + n2 \<le> length l2" "unmarked c1 o1 n1" "unmarked c2 o2 n2"
  shows "\<exists>c1' c2'. set_changed c1 c2 (mk_slice l1 o1 n1) (mk_slice l2 o2 n2) = Some (c1', c2') \<and>
           changes_ok c1 c2 c1' c2' o1 (sub (contents l1) o1 n1) o2 (sub (contents l2) o2 n2)"
proof -
  let ?Y = "sub (contents l2) o2 n2"
  have flags: "\<exists>c2'. set_changed_loop c2 t (int o2) n2 = Some c2' \<and> ba_cap c2' = ba_cap c2 \<and>
      (\<forall>j. ba_bit c2' j \<longleftrightarrow> o2 \<le> j \<and> j < o2 + n2 \<and> int j \<noteq> t \<or> ba_bit c2 j)" for t
    using ba.set_flags_ok [of "filter (\<lambda>j. int j \<noteq> t) [o2..<o2 + n2]" c2] assms(5)
    by (auto simp: set_changed_loop_eq unmarked_def)
  have all: "changes_ok c1 c2 c1' c2' o1 X o2 ?Y"
    if "set_changed_loop c2 (-1) (int o2) n2 = Some c2'" "ba_cap c1' = ba_cap c1" "kept (ba_bit c1') o1 X = []"
      "lcs X ?Y = 0" "\<And>j. j < o1 \<or> o1 + length X \<le> j \<Longrightarrow> ba_bit c1' j = ba_bit c1 j" for c1' c2' X
  proof -
    have c2': "ba_cap c2' = ba_cap c2" "\<And>j. ba_bit c2' j \<longleftrightarrow> o2 \<le> j \<and> j < o2 + n2 \<or> ba_bit c2 j"
      using that(1) flags [of "-1"] by auto
    then have "kept (ba_bit c2') o2 ?Y = []" using assms(3) by (intro kept_all) simp
    with that c2' assms(3) show ?thesis by (auto simp: changes_ok_def)
  qed
  show ?thesis
  proof (cases "n1 = 0")
    case True
    from flags [of "-1"] obtain c2' where c2': "set_changed_loop c2 (-1) (int o2) n2 = Some c2'" by blast
    with all [OF c2', of c1 "[]"] True show ?thesis by (simp add: set_changed_def)
  next
    case False
    then have n1: "n1 = 1" using assms(1) by simp
    define x where "x = l1 ! o1"
    have X: "sub (contents l1) o1 n1 = [cd_s x]" using assms(2) n1 by (simp add: sub_Suc x_def)
    have get: "line_get l1 (int o1) = Some x" using assms(2) n1 by (simp add: x_def)
    show ?thesis
    proof (rule slice_string_pos_cases [OF assms(3), of x])
      assume a: "slice_string_pos_loop l2 x (int o2) n2 = Some (-1)" "cd_s x \<notin> set ?Y"
      from ba.set_flag_ok [of o1 c1] assms(4) n1 obtain c1' where
        c1': "bitarray_set c1 (int o1) = Some c1'" "ba_cap c1' = ba_cap c1" "\<And>j. ba_bit c1' j \<longleftrightarrow> j = o1 \<or> ba_bit c1 j"
        by (auto simp: unmarked_def)
      from flags [of "-1"] obtain c2' where c2': "set_changed_loop c2 (-1) (int o2) n2 = Some c2'" by blast
      have "changes_ok c1 c2 c1' c2' o1 [cd_s x] o2 ?Y"
        using a(2) c1' by (intro all [OF c2']) (auto simp: lcs_singleton)
      with a(1) c1'(1) c2' get n1 X show ?thesis
        by (simp add: set_changed_def smartlist_slice_string_pos_def)
    next
      fix t
      assume t: "slice_string_pos_loop l2 x (int o2) n2 = Some (int t)" "o2 \<le> t" "t < o2 + n2" "cd_s (l2 ! t) = cd_s x"
      from flags [of "int t"] obtain c2' where c2': "set_changed_loop c2 (int t) (int o2) n2 = Some c2'"
        "ba_cap c2' = ba_cap c2" "\<And>j. ba_bit c2' j \<longleftrightarrow> o2 \<le> j \<and> j < o2 + n2 \<and> j \<noteq> t \<or> ba_bit c2 j" by auto
      define a b where "a = t - o2" and "b = n2 - a - 1"
      have ab: "n2 = a + Suc b" "t = o2 + a" using t by (simp_all add: a_def b_def)
      have Y: "?Y = sub (contents l2) o2 a @ cd_s x # sub (contents l2) (Suc t) b"
        using assms(3) t(4) unfolding ab(1) sub_append by (simp add: ab(2) sub_Suc)
      have "kept (ba_bit c2') o2 (sub (contents l2) o2 a) = []" "kept (ba_bit c2') (Suc t) (sub (contents l2) (Suc t) b) = []"
        using assms(3) ab by (auto intro!: kept_all simp: c2'(3))
      moreover have "\<not> ba_bit c2' t" "\<not> ba_bit c1 o1" using assms(4,5) t n1 by (auto simp: c2'(3) unmarked_def)
      moreover have "cd_s x \<in> set ?Y" by (simp add: Y)
      ultimately have "changes_ok c1 c2 c1 c2' o1 [cd_s x] o2 ?Y"
        using assms(3) c2' ab unfolding Y by (auto simp: changes_ok_def kept_append lcs_singleton)
      with t(1) c2'(1) get n1 X show ?thesis
        by (simp add: set_changed_def smartlist_slice_string_pos_def)
    qed
  qed
qed

lemma unmarked_sub: "unmarked c ofs n \<Longrightarrow> ofs \<le> ofs' \<Longrightarrow> ofs' + n' \<le> ofs + n \<Longrightarrow> unmarked c ofs' n'"
  by (auto simp: unmarked_def)

lemma unmarked_frame:
  "unmarked c ofs n \<Longrightarrow> ba_cap c' = ba_cap c \<Longrightarrow> (\<And>j. ofs \<le> j \<Longrightarrow> j < ofs + n \<Longrightarrow> ba_bit c' j = ba_bit c j) \<Longrightarrow> unmarked c' ofs n"
  by (auto simp: unmarked_def)

lemma trim_slices_eq:
  assumes "o1 + n1 \<le> length l1" "o2 + n2 \<le> length l2"
  obtains p m1 m2 q where "n1 = p + m1 + q" "n2 = p + m2 + q"
    "trim_slices (mk_slice l1 o1 n1) (mk_slice l2 o2 n2) = Some (mk_slice l1 (o1 + p) m1, mk_slice l2 (o2 + p) m2)"
    "sub (contents l1) o1 p = sub (contents l2) o2 p"
    "sub (contents l1) (o1 + p + m1) q = sub (contents l2) (o2 + p + m2) q"
proof -
  obtain p where p: "p \<le> min n1 n2" "trim_front (mk_slice l1 o1 n1) (mk_slice l2 o2 n2) =
      Some (mk_slice l1 (o1 + p) (n1 - p), mk_slice l2 (o2 + p) (n2 - p))" "sub (contents l1) o1 p = sub (contents l2) o2 p"
    using trim_front_eq [OF assms] by blast
  obtain q where q: "q \<le> min (n1 - p) (n2 - p)"
    "trim_back (mk_slice l1 (o1 + p) (n1 - p)) (mk_slice l2 (o2 + p) (n2 - p))
        (int (o1 + p) + int (n1 - p) - 1) (int (o2 + p) + int (n2 - p) - 1) =
      Some (mk_slice l1 (o1 + p) (n1 - p - q), mk_slice l2 (o2 + p) (n2 - p - q))"
    "sub (contents l1) (o1 + p + (n1 - p - q)) q = sub (contents l2) (o2 + p + (n2 - p - q)) q"
    using trim_back_eq [of "o1 + p" "n1 - p" l1 "o2 + p" "n2 - p" l2] assms p(1) by auto
  show thesis
  proof (rule that)
    show "n1 = p + (n1 - p - q) + q" "n2 = p + (n2 - p - q) + q" using p(1) q(1) by auto
    show "trim_slices (mk_slice l1 o1 n1) (mk_slice l2 o2 n2) =
        Some (mk_slice l1 (o1 + p) (n1 - p - q), mk_slice l2 (o2 + p) (n2 - p - q))"
      using p(2) q(2) by (simp add: trim_slices_def)
  qed (rule p(3), rule q(3))
qed

text \<open>The recursive step on trimmed slices, given that the calls on shorter slices are correct.\<close>

lemma calc_changes_split:
  assumes IH: "\<And>o1 n1 o2 n2 c1 c2. n1 < m1 \<Longrightarrow> o1 + n1 \<le> length l1 \<Longrightarrow> o2 + n2 \<le> length l2 \<Longrightarrow>
      unmarked c1 o1 n1 \<Longrightarrow> unmarked c2 o2 n2 \<Longrightarrow>
      \<exists>c1' c2'. calc_changes (mk_slice l1 o1 n1) (mk_slice l2 o2 n2) c1 c2 = Some (c1', c2') \<and>
        changes_ok c1 c2 c1' c2' o1 (sub (contents l1) o1 n1) o2 (sub (contents l2) o2 n2)"
    and "1 < m1" "1 < m2" "o1 + m1 \<le> length l1" "o2 + m2 \<le> length l2" "unmarked c1 o1 m1" "unmarked c2 o2 m2"
    and trim: "trim_slices s1 s2 = Some (mk_slice l1 o1 m1, mk_slice l2 o2 m2)"
  shows "\<exists>c1' c2'. calc_changes s1 s2 c1 c2 = Some (c1', c2') \<and>
           changes_ok c1 c2 c1' c2' o1 (sub (contents l1) o1 m1) o2 (sub (contents l2) o2 m2)"
proof -
  define h where "h = m1 div 2"
  have h: "0 < h" "h < m1" "int m1 div 2 = int h" using assms(2) by (auto simp: h_def zdiv_int)
  define T B Y where "T = sub (contents l1) o1 h" and "B = sub (contents l1) (o1 + h) (m1 - h)"
    and "Y = sub (contents l2) o2 m2"
  have X: "sub (contents l1) o1 m1 = T @ B" using h sub_append [of "contents l1" o1 h "m1 - h"] by (simp add: T_def B_def)
  obtain c where c: "c \<le> m2" "optimal_column_to_split (mk_slice l1 o1 h) (mk_slice l1 (o1 + h) (m1 - h)) (mk_slice l2 o2 m2) = Some (int c)"
    "lcs T (take c Y) + lcs B (drop c Y) = lcs (T @ B) Y"
    using optimal_column_eq [of o1 h l1 "o1 + h" "m1 - h" o2 m2 l2] h assms(4,5) by (auto simp: T_def B_def Y_def)
  have Y: "take c Y = sub (contents l2) o2 c" "drop c Y = sub (contents l2) (o2 + c) (m2 - c)"
    using c(1) by (simp_all add: Y_def sub_def drop_take add.commute)
  have "unmarked c1 o1 h" "unmarked c2 o2 c"
    using unmarked_sub [OF assms(6)] unmarked_sub [OF assms(7)] h(2) c(1) by simp_all
  with IH [of h o1 o2 c c1 c2] h c(1) assms(4,5) obtain d1 d2 where d:
    "calc_changes (mk_slice l1 o1 h) (mk_slice l2 o2 c) c1 c2 = Some (d1, d2)"
    "changes_ok c1 c2 d1 d2 o1 T o2 (take c Y)"
    by (auto simp: T_def Y)
  have "unmarked d1 (o1 + h) (m1 - h)" "unmarked d2 (o2 + c) (m2 - c)"
    using d(2) h(2) c(1) assms(4-7) unmarked_sub [OF assms(6), of "o1 + h" "m1 - h"] unmarked_sub [OF assms(7), of "o2 + c" "m2 - c"]
    by (auto simp: changes_ok_def T_def Y elim!: unmarked_frame)
  from IH [OF _ _ _ this] h c(1) assms(4,5) obtain e1 e2 where e:
    "calc_changes (mk_slice l1 (o1 + h) (m1 - h)) (mk_slice l2 (o2 + c) (m2 - c)) d1 d2 = Some (e1, e2)"
    "changes_ok d1 d2 e1 e2 (o1 + h) B (o2 + c) (drop c Y)"
    by (auto simp: B_def Y)
  have "length T = h" "length (take c Y) = c" using c(1) h(2) assms(4,5) by (simp_all add: T_def Y)
  then have "changes_ok c1 c2 e1 e2 o1 (T @ B) o2 (take c Y @ drop c Y)"
    using d(2) e(2) c(3) by (intro changes_ok_append) simp_all
  moreover have "smartlist_slice l1 (int o1) (int o1 + int h) = Some (mk_slice l1 o1 h)"
    "smartlist_slice l1 (int o1 + int h) (int o1 + int m1) = Some (mk_slice l1 (o1 + h) (m1 - h))"
    "smartlist_slice l2 (int o2) (int o2 + int c) = Some (mk_slice l2 o2 c)"
    "smartlist_slice l2 (int o2 + int c) (int o2 + int m2) = Some (mk_slice l2 (o2 + c) (m2 - c))"
    using smartlist_slice_eq [of o1 "o1 + h" l1] smartlist_slice_eq [of "o1 + h" "o1 + m1" l1]
      smartlist_slice_eq [of o2 "o2 + c" l2] smartlist_slice_eq [of "o2 + c" "o2 + m2" l2] h(2) c(1) assms(4,5) by simp_all
  ultimately show ?thesis
    using c(2) d(1) e(1) assms(2,3) h(3) by (simp add: calc_changes.simps [of s1] trim X Y_def)
qed

lemma calc_changes_eq:
  "o1 + n1 \<le> length l1 \<Longrightarrow> o2 + n2 \<le> length l2 \<Longrightarrow> unmarked c1 o1 n1 \<Longrightarrow> unmarked c2 o2 n2 \<Longrightarrow>
     \<exists>c1' c2'. calc_changes (mk_slice l1 o1 n1) (mk_slice l2 o2 n2) c1 c2 = Some (c1', c2') \<and>
       changes_ok c1 c2 c1' c2' o1 (sub (contents l1) o1 n1) o2 (sub (contents l2) o2 n2)"
proof (induction n1 arbitrary: o1 o2 n2 c1 c2 rule: less_induct)
  case (less n1)
  let ?C1 = "contents l1" and ?C2 = "contents l2"
  obtain p m1 m2 q where n: "n1 = p + m1 + q" "n2 = p + m2 + q"
    and trim: "trim_slices (mk_slice l1 o1 n1) (mk_slice l2 o2 n2) = Some (mk_slice l1 (o1 + p) m1, mk_slice l2 (o2 + p) m2)"
    and same: "sub ?C1 o1 p = sub ?C2 o2 p" "sub ?C1 (o1 + p + m1) q = sub ?C2 (o2 + p + m2) q"
    by (rule trim_slices_eq [OF less.prems(1,2)])
  have b: "o1 + p + m1 \<le> length l1" "o2 + p + m2 \<le> length l2" using less.prems n by simp_all
  have u: "unmarked c1 (o1 + p) m1" "unmarked c2 (o2 + p) m2"
    using less.prems(3,4) by (auto intro: unmarked_sub simp: n)
  have "\<exists>c1' c2'. calc_changes (mk_slice l1 o1 n1) (mk_slice l2 o2 n2) c1 c2 = Some (c1', c2') \<and>
      changes_ok c1 c2 c1' c2' (o1 + p) (sub ?C1 (o1 + p) m1) (o2 + p) (sub ?C2 (o2 + p) m2)"
  proof (cases "m1 \<le> 1")
    case True
    with set_changed_eq [OF True b u] show ?thesis by (simp add: calc_changes.simps [of "mk_slice l1 o1 n1"] trim)
  next
    case m1: False
    show ?thesis
    proof (cases "m2 \<le> 1")
      case True
      from set_changed_eq [OF True b(2,1) u(2,1)] obtain c2' c1' where
        "set_changed c2 c1 (mk_slice l2 (o2 + p) m2) (mk_slice l1 (o1 + p) m1) = Some (c2', c1')"
        "changes_ok c2 c1 c2' c1' (o2 + p) (sub ?C2 (o2 + p) m2) (o1 + p) (sub ?C1 (o1 + p) m1)" by blast
      with True m1 show ?thesis
        by (simp add: calc_changes.simps [of "mk_slice l1 o1 n1"] trim changes_ok_sym [of c1])
    next
      case False
      with m1 less.IH n(1) b u show ?thesis by (intro calc_changes_split [OF _ _ _ _ _ _ _ trim]) auto
    qed
  qed
  moreover have "sub ?C1 o1 n1 = sub ?C1 o1 p @ sub ?C1 (o1 + p) m1 @ sub ?C1 (o1 + p + m1) q"
    "sub ?C2 o2 n2 = sub ?C1 o1 p @ sub ?C2 (o2 + p) m2 @ sub ?C1 (o1 + p + m1) q"
    unfolding n sub_append using same by (simp_all add: add.assoc)
  moreover have "length (sub ?C1 o1 p) = p" "length (sub ?C1 o1 n1) = n1" "length (sub ?C2 o2 n2) = n2"
    using less.prems n by simp_all
  ultimately show ?case using less.prems(3,4) changes_ok_trim by metis
qed

text \<open>
  C22: the changes found are minimal. On two slices inside their lists and clear marks,
  \<open>calc_changes\<close> terminates, passes its assertions, stays inside the lists and the bit arrays and
  marks no line outside the slices. The lines left unmarked are the same sequence in both slices,
  and no common subsequence of the slices is longer, so the diff has the fewest possible changes.
\<close>

theorem calc_changes_minimal:
  assumes "o1 + n1 \<le> length l1" "o2 + n2 \<le> length l2" "unmarked c1 o1 n1" "unmarked c2 o2 n2"
  shows "\<exists>c1' c2' zs. calc_changes (mk_slice l1 o1 n1) (mk_slice l2 o2 n2) c1 c2 = Some (c1', c2') \<and>
    (\<forall>j. ba_bit c1' j \<noteq> ba_bit c1 j \<longrightarrow> o1 \<le> j \<and> j < o1 + n1) \<and>
    (\<forall>j. ba_bit c2' j \<noteq> ba_bit c2 j \<longrightarrow> o2 \<le> j \<and> j < o2 + n2) \<and>
    zs = kept (ba_bit c1') o1 (sub (contents l1) o1 n1) \<and>
    zs = kept (ba_bit c2') o2 (sub (contents l2) o2 n2) \<and>
    (\<forall>ws. subseq ws (sub (contents l1) o1 n1) \<and> subseq ws (sub (contents l2) o2 n2) \<longrightarrow> length ws \<le> length zs)"
proof -
  from calc_changes_eq [OF assms] obtain c1' c2' where c:
    "calc_changes (mk_slice l1 o1 n1) (mk_slice l2 o2 n2) c1 c2 = Some (c1', c2')"
    "changes_ok c1 c2 c1' c2' o1 (sub (contents l1) o1 n1) o2 (sub (contents l2) o2 n2)" by blast
  have "o1 \<le> j \<and> j < o1 + n1" if "ba_bit c1' j \<noteq> ba_bit c1 j" for j
    using c(2) that assms(1) by (cases "j < o1 \<or> o1 + n1 \<le> j") (auto simp: changes_ok_def)
  moreover have "o2 \<le> j \<and> j < o2 + n2" if "ba_bit c2' j \<noteq> ba_bit c2 j" for j
    using c(2) that assms(2) by (cases "j < o2 \<or> o2 + n2 \<le> j") (auto simp: changes_ok_def)
  moreover have "kept (ba_bit c1') o1 (sub (contents l1) o1 n1) = kept (ba_bit c2') o2 (sub (contents l2) o2 n2)"
    "length (kept (ba_bit c1') o1 (sub (contents l1) o1 n1)) = lcs (sub (contents l1) o1 n1) (sub (contents l2) o2 n2)"
    using c(2) unfolding changes_ok_def by blast+
  ultimately show ?thesis using c(1) lcs_ge by metis
qed

definition text_line :: "string \<Rightarrow> cdline" where
  "text_line s = \<lparr>cd_s = bytes_of s, cd_next = Some 10\<rparr>"

theorem calc_changes_minimal_witness:
  "\<exists>c1' c2'. calc_changes (mk_slice (map text_line [''a'', ''b'', ''c'']) 0 3) (mk_slice (map text_line [''a'', ''x'']) 0 2) [0] [0] =
     Some (c1', c2') \<and>
     kept (ba_bit c1') 0 (map bytes_of [''a'', ''b'', ''c'']) = kept (ba_bit c2') 0 (map bytes_of [''a'', ''x''])"
proof -
  have "unmarked [0] 0 3" "unmarked [0] 0 2" by (auto simp: unmarked_def ba_cap_def ba_bit_def)
  moreover have "sub (contents (map text_line [''a'', ''b'', ''c''])) 0 3 = map bytes_of [''a'', ''b'', ''c'']"
    "sub (contents (map text_line [''a'', ''x''])) 0 2 = map bytes_of [''a'', ''x'']"
    by (simp_all add: sub_def text_line_def)
  moreover have "0 + 3 \<le> length (map text_line [''a'', ''b'', ''c''])" "0 + 2 \<le> length (map text_line [''a'', ''x''])"
    by simp_all
  ultimately show ?thesis using calc_changes_minimal by metis
qed

end
