(* ===== verification/Consdiff_Ed.thy ===== *)
theory Consdiff_Ed
  imports Consdiff_Changes
begin

section \<open>Consensus diffs: generating ed scripts, \<^verbatim>\<open>feature/dircommon/consdiff.c\<close>\<close>

text \<open>
  The router entries that cut a consensus into chunks, and \<open>gen_ed_diff\<close>. A result
  \<open>Some None\<close> is the null pointer the code returns after a warning, \<open>None\<close> a failed assertion or
  an access outside an object. The growing result lists are HOL lists.
\<close>

subsection \<open>Identities of routers\<close>

definition NOT_VALID_BASE64 :: u8 where
  "NOT_VALID_BASE64 = 255"

definition base64_compare_table :: "u8 list" where
  "base64_compare_table =
    [255, 255, 255, 255, 255, 255, 255, 255, 255, 255, 255, 255, 255, 255, 255, 255,
     255, 255, 255, 255, 255, 255, 255, 255, 255, 255, 255, 255, 255, 255, 255, 255,
     255, 255, 255, 255, 255, 255, 255, 255, 255, 255, 255, 62, 255, 255, 255, 63,
     52, 53, 54, 55, 56, 57, 58, 59, 60, 61, 255, 255, 255, 255, 255, 255,
     255, 0, 1, 2, 3, 4, 5, 6, 7, 8, 9, 10, 11, 12, 13, 14,
     15, 16, 17, 18, 19, 20, 21, 22, 23, 24, 25, 255, 255, 255, 255, 255,
     255, 26, 27, 28, 29, 30, 31, 32, 33, 34, 35, 36, 37, 38, 39, 40,
     41, 42, 43, 44, 45, 46, 47, 48, 49, 50, 51, 255, 255, 255, 255, 255,
     255, 255, 255, 255, 255, 255, 255, 255, 255, 255, 255, 255, 255, 255, 255, 255,
     255, 255, 255, 255, 255, 255, 255, 255, 255, 255, 255, 255, 255, 255, 255, 255,
     255, 255, 255, 255, 255, 255, 255, 255, 255, 255, 255, 255, 255, 255, 255, 255,
     255, 255, 255, 255, 255, 255, 255, 255, 255, 255, 255, 255, 255, 255, 255, 255,
     255, 255, 255, 255, 255, 255, 255, 255, 255, 255, 255, 255, 255, 255, 255, 255,
     255, 255, 255, 255, 255, 255, 255, 255, 255, 255, 255, 255, 255, 255, 255, 255,
     255, 255, 255, 255, 255, 255, 255, 255, 255, 255, 255, 255, 255, 255, 255, 255,
     255, 255, 255, 255, 255, 255, 255, 255, 255, 255, 255, 255, 255, 255, 255, 255]"

text \<open>A byte read through the pointer of a line: inside it, or the one byte behind it.\<close>

definition line_byte :: "cdline \<Rightarrow> nat \<Rightarrow> byte option" where
  "line_byte line k =
     (if k < length (cd_s line) then Some (cd_s line ! k)
      else if k = length (cd_s line) then cd_next line
      else None)"

function hash_end_loop :: "cdline \<Rightarrow> nat \<Rightarrow> nat option" where
  "hash_end_loop line k =
     do {
       c \<leftarrow> line_byte line k;
       (if base64_compare_table ! unat c \<noteq> NOT_VALID_BASE64 \<and> k < length (cd_s line)
        then hash_end_loop line (k + 1)
        else Some k)
     }"
  by pat_completeness auto
termination
  by (relation "measure (\<lambda>(line, k). length (cd_s line) - k)") auto

text \<open>The hash found, or \<open>None\<close> for the result \<open>-1\<close>.\<close>

definition get_id_hash :: "cdline \<Rightarrow> cdline option option" where
  "get_id_hash line =
     (if length (cd_s line) < 2 then Some None
      else
        do {
          r \<leftarrow> memchr (cd_s line) 2 32 (length (cd_s line) - 2);
          (case r of
             None \<Rightarrow> Some None
           | Some hash \<Rightarrow>
               do {
                 let hash = hash + 1;
                 hash_end \<leftarrow> hash_end_loop line hash;
                 (if hash_end = hash then Some None
                  else
                    do {
                      guard (hash \<le> hash_end);
                      guard (hash_end - hash \<le> UINT32_MAX);
                      Some (Some \<lparr>cd_s = take (hash_end - hash) (drop hash (cd_s line)),
                                  cd_next = line_byte line hash_end\<rparr>)
                    })
               })
        })"

definition is_valid_router_entry :: "cdline \<Rightarrow> bool option" where
  "is_valid_router_entry line =
     (if length (cd_s line) < 2 \<or> take 2 (cd_s line) \<noteq> bytes_of ''r '' then Some False
      else map_option (\<lambda>h. h \<noteq> None) (get_id_hash line))"

function next_router_loop :: "cdline list \<Rightarrow> int \<Rightarrow> int option" where
  "next_router_loop cons cur =
     do {
       line \<leftarrow> line_get cons cur;
       v \<leftarrow> is_valid_router_entry line;
       (if \<not> v then
          (if int (length cons) \<le> cur + 1 then Some (int (length cons)) else next_router_loop cons (cur + 1))
        else Some cur)
     }"
  by pat_completeness auto
termination
  by (relation "measure (\<lambda>(cons, cur). nat (int (length cons) - cur))") auto

definition next_router :: "cdline list \<Rightarrow> int \<Rightarrow> int option" where
  "next_router cons cur =
     do {
       let len = int (length cons);
       guard (-1 \<le> cur \<and> cur < len);
       let cur = cur + 1;
       (if len \<le> cur then Some len else next_router_loop cons cur)
     }"

function base64cmp_loop :: "cdline \<Rightarrow> cdline \<Rightarrow> nat \<Rightarrow> int option" where
  "base64cmp_loop hash1 hash2 i =
     do {
       a \<leftarrow> line_byte hash1 i;
       b \<leftarrow> line_byte hash2 i;
       let av = base64_compare_table ! unat a;
       let bv = base64_compare_table ! unat b;
       (if av = NOT_VALID_BASE64 then (if bv = NOT_VALID_BASE64 then Some 0 else Some (-1))
        else if bv = NOT_VALID_BASE64 then Some 1
        else if av < bv then Some (-1)
        else if bv < av then Some 1
        else if i + 1 = length (cd_s hash1) then
          (if i + 1 = length (cd_s hash2) then Some 0 else Some (-1))
        else if i + 1 = length (cd_s hash2) then Some 1
        else base64cmp_loop hash1 hash2 (i + 1))
     }"
  by pat_completeness auto
termination
  by (relation "measure (\<lambda>(h1, h2, i). length (cd_s h1) + 1 - i)") (auto simp: line_byte_def split: if_splits)

text \<open>A null \<open>s\<close> pointer is \<open>None\<close>.\<close>

definition base64cmp :: "cdline option \<Rightarrow> cdline option \<Rightarrow> int option" where
  "base64cmp hash1 hash2 =
     (case hash1 of
        None \<Rightarrow> (case hash2 of None \<Rightarrow> Some 0 | Some h2 \<Rightarrow> Some (-1))
      | Some h1 \<Rightarrow> (case hash2 of None \<Rightarrow> Some 1 | Some h2 \<Rightarrow> base64cmp_loop h1 h2 0))"

record router_id_iterator =
  last_hash :: "cdline option"
  id_hash :: "cdline option"

definition ROUTER_ID_ITERATOR_INIT :: router_id_iterator where
  "ROUTER_ID_ITERATOR_INIT = \<lparr>last_hash = None, id_hash = None\<rparr>"

definition find_next_router_line ::
    "cdline list \<Rightarrow> int \<Rightarrow> router_id_iterator \<Rightarrow> (int \<times> int \<times> router_id_iterator) option" where
  "find_next_router_line cons idx iter =
     do {
       idx \<leftarrow> next_router cons idx;
       (if idx < int (length cons) then
          do {
            let iter = iter\<lparr>last_hash := id_hash iter\<rparr>;
            line \<leftarrow> line_get cons idx;
            h \<leftarrow> get_id_hash line;
            (case h of
               None \<Rightarrow> Some (-1, idx, iter)
             | Some h \<Rightarrow>
                 do {
                   let iter = iter\<lparr>id_hash := Some h\<rparr>;
                   c \<leftarrow> base64cmp (id_hash iter) (last_hash iter);
                   Some (if c \<le> 0 then -1 else 0, idx, iter)
                 })
          }
        else Some (0, idx, iter))
     }"

subsection \<open>Preprocessing\<close>

definition START_OF_SIGNATURES_SECTION :: "byte list" where
  "START_OF_SIGNATURES_SECTION = bytes_of ''directory-signature ''"

fun dirsig_loop :: "cdline list \<Rightarrow> nat \<Rightarrow> int option" where
  "dirsig_loop [] idx = Some (-1)"
| "dirsig_loop (line # cons) idx =
     do {
       b \<leftarrow> line_starts_with_str line START_OF_SIGNATURES_SECTION;
       (if b then Some (int idx) else dirsig_loop cons (idx + 1))
     }"

text \<open>\<open>smartlist_del\<close> moves the last element to the index and shortens the list by one.\<close>

definition list_del :: "'a list \<Rightarrow> nat \<Rightarrow> 'a list" where
  "list_del xs i = butlast (xs[i := last xs])"

function delete_tail :: "'a list \<Rightarrow> nat \<Rightarrow> 'a list" where
  "delete_tail xs i = (if i < length xs then delete_tail (list_del xs i) i else xs)"
  by pat_completeness auto
termination
  by (relation "measure (\<lambda>(xs, i). length xs)") (auto simp: list_del_def)

definition preprocess_consensus :: "cdline list \<Rightarrow> (cdline list \<times> cdline option) option" where
  "preprocess_consensus cons =
     do {
       dirsig_idx \<leftarrow> dirsig_loop cons 0;
       (if 0 \<le> dirsig_idx then
          do {
            let cons = delete_tail cons (nat dirsig_idx);
            (buf, r) \<leftarrow> tor_snprintf 64 (fmt_d (dirsig_idx + 1) @ bytes_of '',$d'');
            Some (cons, Some (cdline_linecpy buf))
          }
        else Some (cons, None))
     }"

declare hash_end_loop.simps [simp del] next_router_loop.simps [simp del] base64cmp_loop.simps [simp del]
  delete_tail.simps [simp del]

lemma next_router_loop_range:
  "next_router_loop cons cur = Some r \<Longrightarrow> cur < int (length cons) \<Longrightarrow> cur \<le> r \<and> r \<le> int (length cons)"
proof (induction cons cur rule: next_router_loop.induct)
  case (1 cons cur)
  from "1.prems" (1) obtain line v where l: "line_get cons cur = Some line" "is_valid_router_entry line = Some v"
    by (auto simp: next_router_loop.simps [of cons cur] split: bind_splits)
  with "1.IH" [OF l] "1.prems" show ?case
    by (fastforce simp: next_router_loop.simps [of cons cur] split: if_splits)
qed

lemma next_router_range: "next_router cons cur = Some r \<Longrightarrow> cur < r \<and> r \<le> int (length cons)"
  by (auto simp: next_router_def Let_def split: if_splits dest: next_router_loop_range)

lemma find_next_router_line_range:
  "find_next_router_line cons idx iter = Some (r, idx', iter') \<Longrightarrow> idx < idx' \<and> idx' \<le> int (length cons)"
  by (auto simp: find_next_router_line_def Let_def split: bind_splits if_splits option.splits dest: next_router_range)

subsection \<open>Generating\<close>

text \<open>
  The inner loop of \<open>gen_ed_diff\<close>: advance the position with the lower identity until both are
  equal. The result of the jump to \<open>error_cleanup\<close> is \<open>Some None\<close>.
\<close>

function align_routers ::
    "cdline list \<Rightarrow> cdline list \<Rightarrow> int \<Rightarrow> int \<Rightarrow> router_id_iterator \<Rightarrow> router_id_iterator \<Rightarrow> int \<Rightarrow>
     (int \<times> int \<times> router_id_iterator \<times> router_id_iterator) option option" where
  "align_routers cons1 cons2 i1 i2 iter1 iter2 cmp =
     (if cmp \<noteq> 0 then
        (if i1 < int (length cons1) \<and> cmp < 0 then
           do {
             (r, i1', iter1) \<leftarrow> find_next_router_line cons1 i1 iter1;
             (if r < 0 then Some None
              else if i1' = int (length cons1) then Some (Some (i1', int (length cons2), iter1, iter2))
              else
                do {
                  cmp \<leftarrow> base64cmp (id_hash iter1) (id_hash iter2);
                  align_routers cons1 cons2 i1' i2 iter1 iter2 cmp
                })
           }
         else if i2 < int (length cons2) \<and> 0 < cmp then
           do {
             (r, i2', iter2) \<leftarrow> find_next_router_line cons2 i2 iter2;
             (if r < 0 then Some None
              else if i2' = int (length cons2) then Some (Some (int (length cons1), i2', iter1, iter2))
              else
                do {
                  cmp \<leftarrow> base64cmp (id_hash iter1) (id_hash iter2);
                  align_routers cons1 cons2 i1 i2' iter1 iter2 cmp
                })
           }
         else Some (Some (int (length cons1), int (length cons2), iter1, iter2)))
      else Some (Some (i1, i2, iter1, iter2)))"
  by pat_completeness auto
termination
  by (relation "measure (\<lambda>(c1, c2, i1, i2, t1, t2, cmp). nat (int (length c1) - i1) + nat (int (length c2) - i2))")
    (auto dest!: find_next_router_line_range)

definition MAX_LINE_COUNT :: int where
  "MAX_LINE_COUNT = 10000"

text \<open>One step of a position in the outer loop, \<open>Some None\<close> on a misordered identity.\<close>

definition advance_router ::
    "cdline list \<Rightarrow> int \<Rightarrow> router_id_iterator \<Rightarrow> (int \<times> router_id_iterator) option option" where
  "advance_router cons i iter =
     (if i < int (length cons) then
        do {
          (r, i, iter) \<leftarrow> find_next_router_line cons i iter;
          (if r < 0 then Some None else Some (Some (i, iter)))
        }
      else Some (Some (i, iter)))"

definition align_step ::
    "cdline list \<Rightarrow> cdline list \<Rightarrow> int \<Rightarrow> int \<Rightarrow> router_id_iterator \<Rightarrow> router_id_iterator \<Rightarrow>
     (int \<times> int \<times> router_id_iterator \<times> router_id_iterator) option option" where
  "align_step cons1 cons2 i1 i2 iter1 iter2 =
     (if i1 < int (length cons1) \<or> i2 < int (length cons2) then
        do {
          cmp \<leftarrow> base64cmp (id_hash iter1) (id_hash iter2);
          align_routers cons1 cons2 i1 i2 iter1 iter2 cmp
        }
      else Some (Some (i1, i2, iter1, iter2)))"

declare align_routers.simps [simp del]

lemma advance_router_range:
  "advance_router cons i iter = Some (Some (i', iter')) \<Longrightarrow>
     (if i < int (length cons) then i < i' \<and> i' \<le> int (length cons) else i' = i)"
  by (auto simp: advance_router_def split: bind_splits if_splits dest!: find_next_router_line_range)

lemma align_routers_range:
  "align_routers cons1 cons2 i1 i2 iter1 iter2 cmp = Some (Some (i1', i2', iter1', iter2')) \<Longrightarrow>
     min i1 (int (length cons1)) \<le> i1' \<and> min i2 (int (length cons2)) \<le> i2' \<and>
     (i1 \<le> int (length cons1) \<longrightarrow> i1' \<le> int (length cons1)) \<and> (i2 \<le> int (length cons2) \<longrightarrow> i2' \<le> int (length cons2))"
proof (induction cons1 cons2 i1 i2 iter1 iter2 cmp rule: align_routers.induct)
  case (1 cons1 cons2 i1 i2 iter1 iter2 cmp)
  note step = "1.prems" [unfolded align_routers.simps [of cons1 cons2 i1 i2 iter1 iter2 cmp]]
  consider (eq) "cmp = 0" | (low1) "cmp \<noteq> 0" "i1 < int (length cons1) \<and> cmp < 0"
    | (low2) "cmp \<noteq> 0" "\<not> (i1 < int (length cons1) \<and> cmp < 0)" "i2 < int (length cons2) \<and> 0 < cmp"
    | (none) "cmp \<noteq> 0" "\<not> (i1 < int (length cons1) \<and> cmp < 0)" "\<not> (i2 < int (length cons2) \<and> 0 < cmp)" by blast
  then show ?case
  proof cases
    case low1
    with step obtain r j it where f: "find_next_router_line cons1 i1 iter1 = Some (r, j, it)" "\<not> r < 0"
      by (auto split: bind_splits if_splits)
    note rng = find_next_router_line_range [OF f(1)]
    show ?thesis
    proof (cases "j = int (length cons1)")
      case False
      with step low1 f obtain c where "base64cmp (id_hash it) (id_hash iter2) = Some c"
        "align_routers cons1 cons2 j i2 it iter2 c = Some (Some (i1', i2', iter1', iter2'))" by (auto split: bind_splits)
      with "1.IH"(1) [OF low1 f(1) refl refl f(2) False] rng show ?thesis by fastforce
    qed (use step low1 f rng in auto)
  next
    case low2
    with step obtain r j it where f: "find_next_router_line cons2 i2 iter2 = Some (r, j, it)" "\<not> r < 0"
      by (auto split: bind_splits if_splits)
    note rng = find_next_router_line_range [OF f(1)]
    show ?thesis
    proof (cases "j = int (length cons2)")
      case False
      with step low2 f obtain c where "base64cmp (id_hash iter1) (id_hash it) = Some c"
        "align_routers cons1 cons2 i1 j iter1 it c = Some (Some (i1', i2', iter1', iter2'))" by (auto split: bind_splits)
      with "1.IH"(2) [OF low2 f(1) refl refl f(2) False] rng show ?thesis by fastforce
    qed (use step low2 f rng in auto)
  qed (use step in auto)
qed

lemma align_step_range:
  "align_step cons1 cons2 i1 i2 iter1 iter2 = Some (Some (i1', i2', iter1', iter2')) \<Longrightarrow>
     min i1 (int (length cons1)) \<le> i1' \<and> min i2 (int (length cons2)) \<le> i2' \<and>
     (i1 \<le> int (length cons1) \<longrightarrow> i1' \<le> int (length cons1)) \<and> (i2 \<le> int (length cons2) \<longrightarrow> i2' \<le> int (length cons2))"
  by (auto simp: align_step_def split: bind_splits if_splits dest!: align_routers_range)

lemma chunk_progress:
  assumes "advance_router cons1 i1 iter1 = Some (Some (i1', t1))" "advance_router cons2 i2 iter2 = Some (Some (i2', t2))"
    "align_step cons1 cons2 i1' i2' t1 t2 = Some (Some (j1, j2, u1, u2))"
    "i1 < int (length cons1) \<or> i2 < int (length cons2)"
  shows "nat (int (length cons1) - j1) + nat (int (length cons2) - j2) <
     nat (int (length cons1) - i1) + nat (int (length cons2) - i2)"
  using advance_router_range [OF assms(1)] advance_router_range [OF assms(2)] align_step_range [OF assms(3)] assms(4)
  by (auto simp: min_def split: if_splits)

text \<open>The outer loop: the marks of all chunks, or \<open>Some None\<close> for a refusal.\<close>

function mark_chunks ::
    "cdline list \<Rightarrow> cdline list \<Rightarrow> int \<Rightarrow> int \<Rightarrow> int \<Rightarrow> int \<Rightarrow> router_id_iterator \<Rightarrow> router_id_iterator \<Rightarrow>
     bitarray \<Rightarrow> bitarray \<Rightarrow> (bitarray \<times> bitarray) option option" where
  "mark_chunks cons1 cons2 i1 i2 start1 start2 iter1 iter2 changed1 changed2 =
     (if i1 < int (length cons1) \<or> i2 < int (length cons2) then
        do {
          a1 \<leftarrow> advance_router cons1 i1 iter1;
          (case a1 of
             None \<Rightarrow> Some None
           | Some (i1', iter1) \<Rightarrow>
               do {
                 a2 \<leftarrow> advance_router cons2 i2 iter2;
                 (case a2 of
                    None \<Rightarrow> Some None
                  | Some (i2', iter2) \<Rightarrow>
                      do {
                        al \<leftarrow> align_step cons1 cons2 i1' i2' iter1 iter2;
                        (case al of
                           None \<Rightarrow> Some None
                         | Some (j1, j2, iter1, iter2) \<Rightarrow>
                             if MAX_LINE_COUNT < j1 - start1 \<or> MAX_LINE_COUNT < j2 - start2 then Some None
                             else
                               do {
                                 cons1_sl \<leftarrow> smartlist_slice cons1 start1 j1;
                                 cons2_sl \<leftarrow> smartlist_slice cons2 start2 j2;
                                 (changed1, changed2) \<leftarrow> calc_changes cons1_sl cons2_sl changed1 changed2;
                                 mark_chunks cons1 cons2 j1 j2 j1 j2 iter1 iter2 changed1 changed2
                               })
                      })
               })
        }
      else Some (Some (changed1, changed2)))"
  by pat_completeness auto
termination
proof (relation "measure (\<lambda>(c1, c2, i1, i2, r). nat (int (length c1) - i1) + nat (int (length c2) - i2))", goal_cases)
  case 1
  then show ?case by simp
next
  case (2 cons1 cons2 i1 i2 start1 start2 iter1 iter2 changed1 changed2 a1 x i1' t1 a2 y i2' t2 al z j1 w j2 v u1 u2)
  then show ?case unfolding in_measure case_prod_conv by (intro chunk_progress) auto
qed

declare mark_chunks.simps [simp del]

text \<open>Whether the line at an index that may be negative is marked, and the run of marked lines.\<close>

definition marked_at :: "bitarray \<Rightarrow> int \<Rightarrow> bool option" where
  "marked_at changed i = (if 0 \<le> i then map_option (\<lambda>w. w \<noteq> 0) (bitarray_is_set changed i) else Some False)"

function grab_changed :: "bitarray \<Rightarrow> int \<Rightarrow> int option" where
  "grab_changed changed i =
     do {
       b \<leftarrow> marked_at changed i;
       (if b then grab_changed changed (i - 1) else Some i)
     }"
  by pat_completeness auto
termination
  by (relation "measure (\<lambda>(c, i). nat (i + 1))") (auto simp: marked_at_def split: if_splits)

fun add_lines_loop :: "cdline list \<Rightarrow> int \<Rightarrow> nat \<Rightarrow> cdline list \<Rightarrow> cdline list option option" where
  "add_lines_loop cons2 i 0 result = Some (Some result)"
| "add_lines_loop cons2 i (Suc k) result =
     do {
       line \<leftarrow> line_get cons2 i;
       dot \<leftarrow> line_str_eq line (bytes_of ''.'');
       (if dot then Some None else add_lines_loop cons2 (i + 1) k (result @ [line]))
     }"

definition add_command :: "cdline list \<Rightarrow> byte list \<Rightarrow> cdline list option" where
  "add_command result formatted =
     do {
       (buf, r) \<leftarrow> tor_snprintf 128 formatted;
       Some (smartlist_add_linecpy result buf)
     }"

text \<open>The ed command of one run of changes.\<close>

definition emit_change ::
    "cdline list \<Rightarrow> int \<Rightarrow> int \<Rightarrow> int \<Rightarrow> int \<Rightarrow> int \<Rightarrow> cdline list \<Rightarrow> cdline list option option" where
  "emit_change cons2 start1x start2x end2 added deleted result =
     (if added = 0 then
        (if deleted = 1 then map_option Some (add_command result (fmt_d (start1x + 1) @ bytes_of ''d''))
         else map_option Some
                (add_command result (fmt_d (start1x + 1) @ bytes_of '','' @ fmt_d (start1x + deleted) @ bytes_of ''d'')))
      else
        do {
          result \<leftarrow>
            (if deleted = 0 then add_command result (fmt_d start1x @ bytes_of ''a'')
             else if deleted = 1 then add_command result (fmt_d (start1x + 1) @ bytes_of ''c'')
             else add_command result (fmt_d (start1x + 1) @ bytes_of '','' @ fmt_d (start1x + deleted) @ bytes_of ''c''));
          r \<leftarrow> add_lines_loop cons2 start2x (nat (end2 + 1 - start2x)) result;
          (case r of
             None \<Rightarrow> Some None
           | Some result \<Rightarrow> Some (Some (smartlist_add_linecpy result (bytes_of ''.''))))
        })"

declare grab_changed.simps [simp del]

lemma grab_changed_range:
  "grab_changed changed i = Some j \<Longrightarrow> j \<le> i \<and> (marked_at changed i = Some True \<longrightarrow> j < i)"
proof (induction changed i rule: grab_changed.induct)
  case (1 changed i)
  from "1.prems" obtain b where b: "marked_at changed i = Some b" by (auto simp: grab_changed.simps [of changed i] split: bind_splits)
  with "1.IH" [OF b] "1.prems" show ?case by (cases b) (auto simp: grab_changed.simps [of changed i])
qed

function emit_loop ::
    "cdline list \<Rightarrow> bitarray \<Rightarrow> bitarray \<Rightarrow> int \<Rightarrow> int \<Rightarrow> cdline list \<Rightarrow> cdline list option option" where
  "emit_loop cons2 changed1 changed2 i1 i2 result =
     (if 0 \<le> i1 \<or> 0 \<le> i2 then
        do {
          m1 \<leftarrow> marked_at changed1 i1;
          m2 \<leftarrow> (if m1 then Some True else marked_at changed2 i2);
          (if \<not> m1 \<and> \<not> m2 then
             emit_loop cons2 changed1 changed2 (if 0 \<le> i1 then i1 - 1 else i1) (if 0 \<le> i2 then i2 - 1 else i2) result
           else
             do {
               let end1 = i1;
               let end2 = i2;
               j1 \<leftarrow> grab_changed changed1 i1;
               j2 \<leftarrow> grab_changed changed2 i2;
               r \<leftarrow> emit_change cons2 (j1 + 1) (j2 + 1) end2 (end2 - j2) (end1 - j1) result;
               (case r of
                  None \<Rightarrow> Some None
                | Some result \<Rightarrow> emit_loop cons2 changed1 changed2 j1 j2 result)
             })
        }
      else Some (Some result))"
  by pat_completeness auto
termination
proof (relation "measure (\<lambda>(cons2, c1, c2, i1, i2, r). nat (i1 + 1) + nat (i2 + 1))", goal_cases)
  case (3 cons2 changed1 changed2 i1 i2 result m1 m2 end1 end2 j1 j2 r x)
  then have g: "grab_changed changed1 i1 = Some j1" "grab_changed changed2 i2 = Some j2" by simp_all
  from 3 have "marked_at changed1 i1 = Some True \<or> marked_at changed2 i2 = Some True"
    by (cases m1) auto
  then have "0 \<le> i1 \<and> j1 < i1 \<or> 0 \<le> i2 \<and> j2 < i2"
    using grab_changed_range [OF g(1)] grab_changed_range [OF g(2)] by (auto simp: marked_at_def split: if_splits)
  with grab_changed_range [OF g(1)] grab_changed_range [OF g(2)] show ?case by auto
qed auto

declare emit_loop.simps [simp del]

definition gen_ed_diff :: "cdline list \<Rightarrow> cdline list \<Rightarrow> cdline list option option" where
  "gen_ed_diff cons1_orig cons2 =
     do {
       (cons1, remove_trailer) \<leftarrow> preprocess_consensus cons1_orig;
       let len1 = length cons1;
       let len2 = length cons2;
       let result = (case remove_trailer of None \<Rightarrow> [] | Some l \<Rightarrow> [l]);
       let changed1 = bitarray_init_zero (word_of_nat len1);
       let changed2 = bitarray_init_zero (word_of_nat len2);
       m \<leftarrow> mark_chunks cons1 cons2 (-1) (-1) 0 0 ROUTER_ID_ITERATOR_INIT ROUTER_ID_ITERATOR_INIT changed1 changed2;
       (case m of
          None \<Rightarrow> Some None
        | Some (changed1, changed2) \<Rightarrow>
            emit_loop cons2 changed1 changed2 (int len1 - 1) (int len2 - 1) result)
     }"

subsection \<open>Totality\<close>

text \<open>
  A line of a split document: the byte behind it can be read, and its length fits its field. The
  identities found in such lines are not empty and also have a byte behind them.
\<close>

definition line_ok :: "cdline \<Rightarrow> bool" where
  "line_ok line \<longleftrightarrow> cd_next line \<noteq> None \<and> length (cd_s line) \<le> UINT32_MAX"

definition hash_ok :: "cdline option \<Rightarrow> bool" where
  "hash_ok h = (case h of None \<Rightarrow> True | Some h \<Rightarrow> cd_next h \<noteq> None \<and> cd_s h \<noteq> [])"

lemma hash_end_loop_total:
  "k \<le> length (cd_s line) \<Longrightarrow> cd_next line \<noteq> None \<Longrightarrow>
     \<exists>e. hash_end_loop line k = Some e \<and> k \<le> e \<and> e \<le> length (cd_s line)"
proof (induction line k rule: hash_end_loop.induct)
  case (1 line k)
  from "1.prems" obtain c where c: "line_byte line k = Some c"
    by (cases "k = length (cd_s line)") (auto simp: line_byte_def)
  show ?case
  proof (cases "base64_compare_table ! unat c \<noteq> NOT_VALID_BASE64 \<and> k < length (cd_s line)")
    case True
    with "1.IH" [OF c True] "1.prems" c show ?thesis by (auto simp: hash_end_loop.simps [of line k])
  next
    case False
    with "1.prems" c show ?thesis by (auto simp: hash_end_loop.simps [of line k])
  qed
qed

lemma get_id_hash_total:
  assumes "line_ok line"
  shows "\<exists>h. get_id_hash line = Some h \<and> hash_ok h"
proof (cases "length (cd_s line) < 2")
  case False
  then have len: "2 + (length (cd_s line) - 2) \<le> length (cd_s line)" by simp
  from len show ?thesis
  proof (cases rule: memchr_cases [where c = 32])
    case (found q)
    then have "q + 1 \<le> length (cd_s line)" using False by simp
    with hash_end_loop_total [of "q + 1" line] assms obtain e where
      e: "hash_end_loop line (q + 1) = Some e" "q + 1 \<le> e" "e \<le> length (cd_s line)" by (auto simp: line_ok_def)
    then have "line_byte line e \<noteq> None" using assms by (auto simp: line_byte_def line_ok_def)
    moreover have "e - (q + 1) \<le> UINT32_MAX" using e assms by (auto simp: line_ok_def)
    ultimately show ?thesis using False found e
      by (cases "e = q + 1") (auto simp: get_id_hash_def hash_ok_def Let_def)
  qed (use False in \<open>auto simp: get_id_hash_def hash_ok_def\<close>)
qed (simp add: get_id_hash_def hash_ok_def)

lemma is_valid_router_entry_total: "line_ok line \<Longrightarrow> \<exists>b. is_valid_router_entry line = Some b"
  using get_id_hash_total [of line] by (auto simp: is_valid_router_entry_def)

lemma next_router_loop_total:
  "list_all line_ok cons \<Longrightarrow> 0 \<le> cur \<Longrightarrow> cur < int (length cons) \<Longrightarrow> \<exists>r. next_router_loop cons cur = Some r"
proof (induction cons cur rule: next_router_loop.induct)
  case (1 cons cur)
  then have l: "line_get cons cur = Some (cons ! nat cur)" using line_get_int [of "nat cur" cons] by simp
  from 1 obtain b where b: "is_valid_router_entry (cons ! nat cur) = Some b"
    using is_valid_router_entry_total by (fastforce simp: list_all_length)
  show ?case
  proof (cases "\<not> b \<and> \<not> int (length cons) \<le> cur + 1")
    case True
    with "1.IH" [OF l b] "1.prems" l b show ?thesis by (simp add: next_router_loop.simps [of cons cur])
  qed (use l b in \<open>auto simp: next_router_loop.simps [of cons cur]\<close>)
qed

lemma base64cmp_loop_total:
  "i < length (cd_s h1) \<Longrightarrow> i < length (cd_s h2) \<Longrightarrow> \<exists>c. base64cmp_loop h1 h2 i = Some c"
proof (induction "length (cd_s h1) - i" arbitrary: i)
  case (Suc n)
  from Suc.prems have b: "line_byte h1 i = Some (cd_s h1 ! i)" "line_byte h2 i = Some (cd_s h2 ! i)"
    by (simp_all add: line_byte_def)
  show ?case
  proof (cases "i + 1 = length (cd_s h1) \<or> i + 1 = length (cd_s h2)")
    case False
    with Suc.hyps(1) [of "i + 1"] Suc.hyps(2) Suc.prems b show ?thesis
      by (auto simp: base64cmp_loop.simps [of h1 h2 i] Let_def)
  qed (use b in \<open>auto simp: base64cmp_loop.simps [of h1 h2 i] Let_def\<close>)
qed simp

lemma base64cmp_total: "hash_ok h1 \<Longrightarrow> hash_ok h2 \<Longrightarrow> \<exists>c. base64cmp h1 h2 = Some c"
  using base64cmp_loop_total [of 0] by (auto simp: base64cmp_def hash_ok_def split: option.splits)

text \<open>
  The order the code demands of the router entries of a document: every identity is greater than
  the one before it, and the first one is greater than \<open>prev\<close>.
\<close>

fun ids_sorted :: "cdline list \<Rightarrow> cdline option \<Rightarrow> bool" where
  "ids_sorted [] prev = True"
| "ids_sorted (line # cons) prev =
     (if is_valid_router_entry line = Some True then
        (case get_id_hash line of
           Some (Some h) \<Rightarrow>
             (case base64cmp (Some h) prev of Some c \<Rightarrow> 0 < c \<and> ids_sorted cons (Some h) | None \<Rightarrow> False)
         | _ \<Rightarrow> False)
      else ids_sorted cons prev)"

definition iter_sorted :: "cdline list \<Rightarrow> int \<Rightarrow> router_id_iterator \<Rightarrow> bool" where
  "iter_sorted cons idx iter = ids_sorted (drop (nat (idx + 1)) cons) (id_hash iter)"

lemma next_router_loop_sorted:
  "next_router_loop cons cur = Some n \<Longrightarrow> 0 \<le> cur \<Longrightarrow> cur < int (length cons) \<Longrightarrow> ids_sorted (drop (nat cur) cons) prev \<Longrightarrow>
     ids_sorted (drop (nat n) cons) prev \<and> (n < int (length cons) \<longrightarrow> is_valid_router_entry (cons ! nat n) = Some True)"
proof (induction cons cur rule: next_router_loop.induct)
  case (1 cons cur)
  have l: "line_get cons cur = Some (cons ! nat cur)" using 1 line_get_int [of "nat cur" cons] by simp
  with "1.prems"(1) obtain v where v: "is_valid_router_entry (cons ! nat cur) = Some v"
    by (auto simp: next_router_loop.simps [of cons cur] split: bind_splits)
  have d: "drop (nat cur) cons = cons ! nat cur # drop (nat (cur + 1)) cons"
    using "1.prems"(2,3) by (simp add: nat_add_distrib flip: Cons_nth_drop_Suc)
  show ?case
  proof (cases "\<not> v \<and> \<not> int (length cons) \<le> cur + 1")
    case True
    with "1.IH" [OF l v] "1.prems" l v d show ?thesis by (simp add: next_router_loop.simps [of cons cur])
  qed (use "1.prems" l v d in \<open>auto simp: next_router_loop.simps [of cons cur] split: if_splits\<close>)
qed

lemma next_router_sorted:
  assumes "next_router cons idx = Some n" "ids_sorted (drop (nat (idx + 1)) cons) prev"
  shows "ids_sorted (drop (nat n) cons) prev" "n < int (length cons) \<Longrightarrow> is_valid_router_entry (cons ! nat n) = Some True"
  using assms next_router_loop_sorted [of cons "idx + 1" n prev] by (auto simp: next_router_def Let_def split: if_splits)

lemma find_next_router_line_total:
  assumes "list_all line_ok cons" "-1 \<le> idx" "idx < int (length cons)" "hash_ok (id_hash iter)"
  obtains r idx' iter' where "find_next_router_line cons idx iter = Some (r, idx', iter')" "hash_ok (id_hash iter')"
    "iter_sorted cons idx iter \<longrightarrow> \<not> r < 0 \<and> iter_sorted cons idx' iter'"
proof -
  from assms(1-3) next_router_loop_total [of cons "idx + 1"] obtain n where n: "next_router cons idx = Some n"
    by (cases "int (length cons) \<le> idx + 1") (auto simp: next_router_def)
  note srt = next_router_sorted [OF n, of "id_hash iter"]
  show thesis
  proof (cases "n < int (length cons)")
    case True
    define k where "k = nat n"
    have k: "n = int k" "k < length cons" using next_router_range [OF n] True assms(2) by (auto simp: k_def)
    with assms(1) get_id_hash_total [of "cons ! k"] obtain h where h: "get_id_hash (cons ! k) = Some h" "hash_ok h"
      by (auto simp: list_all_length)
    have d: "drop k cons = cons ! k # drop (nat (n + 1)) cons" using k by (simp add: nat_add_distrib flip: Cons_nth_drop_Suc)
    show thesis
    proof (cases h)
      case None
      with srt True k h d have "\<not> iter_sorted cons idx iter" by (auto simp: iter_sorted_def)
      then show ?thesis using that n True k h None assms(4) by (simp add: find_next_router_line_def Let_def)
    next
      case (Some x)
      with h base64cmp_total [of h "id_hash iter"] assms(4) obtain c where c: "base64cmp (Some x) (id_hash iter) = Some c"
        by auto
      with srt True k h d Some have "iter_sorted cons idx iter \<longrightarrow> 0 < c \<and> ids_sorted (drop (nat (n + 1)) cons) (Some x)"
        by (auto simp: iter_sorted_def)
      with c show ?thesis using that n True k h Some by (auto simp: find_next_router_line_def Let_def iter_sorted_def)
    qed
  qed (use that n assms(4) next_router_range [OF n] in \<open>simp add: find_next_router_line_def iter_sorted_def\<close>)
qed

lemma advance_router_total:
  assumes "list_all line_ok cons" "-1 \<le> i" "hash_ok (id_hash iter)"
  obtains "advance_router cons i iter = Some None" "\<not> iter_sorted cons i iter"
  | i' iter' where "advance_router cons i iter = Some (Some (i', iter'))" "hash_ok (id_hash iter')"
      "iter_sorted cons i iter \<longrightarrow> iter_sorted cons i' iter'"
proof (cases "i < int (length cons)")
  case True
  from find_next_router_line_total [OF assms(1,2) True assms(3)] obtain r i' it where
    "find_next_router_line cons i iter = Some (r, i', it)" "hash_ok (id_hash it)"
    "iter_sorted cons i iter \<longrightarrow> \<not> r < 0 \<and> iter_sorted cons i' it" by blast
  with True that show thesis by (cases "r < 0") (auto simp: advance_router_def)
qed (use that assms(3) in \<open>auto simp: advance_router_def\<close>)

lemma iter_sorted_end [simp]: "iter_sorted cons (int (length cons)) iter"
  by (simp add: iter_sorted_def nat_add_distrib)

lemma align_routers_total:
  assumes "list_all line_ok cons1" "list_all line_ok cons2"
  shows "-1 \<le> i1 \<Longrightarrow> -1 \<le> i2 \<Longrightarrow> hash_ok (id_hash iter1) \<Longrightarrow> hash_ok (id_hash iter2) \<Longrightarrow>
     align_routers cons1 cons2 i1 i2 iter1 iter2 cmp = Some None \<and> \<not> (iter_sorted cons1 i1 iter1 \<and> iter_sorted cons2 i2 iter2) \<or>
     (\<exists>j1 j2 t1 t2. align_routers cons1 cons2 i1 i2 iter1 iter2 cmp = Some (Some (j1, j2, t1, t2)) \<and>
       hash_ok (id_hash t1) \<and> hash_ok (id_hash t2) \<and>
       (iter_sorted cons1 i1 iter1 \<and> iter_sorted cons2 i2 iter2 \<longrightarrow> iter_sorted cons1 j1 t1 \<and> iter_sorted cons2 j2 t2))"
  using assms
proof (induction cons1 cons2 i1 i2 iter1 iter2 cmp rule: align_routers.induct)
  case (1 cons1 cons2 i1 i2 iter1 iter2 cmp)
  note step = align_routers.simps [of cons1 cons2 i1 i2 iter1 iter2 cmp]
  consider (eq) "cmp = 0" | (low1) "cmp \<noteq> 0" "i1 < int (length cons1) \<and> cmp < 0"
    | (low2) "cmp \<noteq> 0" "\<not> (i1 < int (length cons1) \<and> cmp < 0)" "i2 < int (length cons2) \<and> 0 < cmp"
    | (none) "cmp \<noteq> 0" "\<not> (i1 < int (length cons1) \<and> cmp < 0)" "\<not> (i2 < int (length cons2) \<and> 0 < cmp)" by blast
  then show ?case
  proof cases
    case low1
    with 1 obtain r j it where f: "find_next_router_line cons1 i1 iter1 = Some (r, j, it)" "hash_ok (id_hash it)"
      "iter_sorted cons1 i1 iter1 \<longrightarrow> \<not> r < 0 \<and> iter_sorted cons1 j it"
      using find_next_router_line_total [of cons1 i1 iter1] by blast
    with base64cmp_total [of "id_hash it" "id_hash iter2"] 1 obtain c where
      c: "base64cmp (id_hash it) (id_hash iter2) = Some c" by blast
    show ?thesis
    proof (cases "r < 0 \<or> j = int (length cons1)")
      case False
      with "1.IH"(1) [OF low1 f(1) refl refl _ _ c] "1.prems" f find_next_router_line_range [OF f(1)] step low1 c
      show ?thesis by auto
    qed (use step low1 f "1.prems" in auto)
  next
    case low2
    with 1 obtain r j it where f: "find_next_router_line cons2 i2 iter2 = Some (r, j, it)" "hash_ok (id_hash it)"
      "iter_sorted cons2 i2 iter2 \<longrightarrow> \<not> r < 0 \<and> iter_sorted cons2 j it"
      using find_next_router_line_total [of cons2 i2 iter2] by blast
    with base64cmp_total [of "id_hash iter1" "id_hash it"] 1 obtain c where
      c: "base64cmp (id_hash iter1) (id_hash it) = Some c" by blast
    show ?thesis
    proof (cases "r < 0 \<or> j = int (length cons2)")
      case False
      with "1.IH"(2) [OF low2 f(1) refl refl _ _ c] "1.prems" f find_next_router_line_range [OF f(1)] step low2 c
      show ?thesis by auto
    qed (use step low2 f "1.prems" in auto)
  qed (use step "1.prems" in auto)
qed

lemma align_step_total:
  assumes "list_all line_ok cons1" "list_all line_ok cons2" "-1 \<le> i1" "-1 \<le> i2"
    "hash_ok (id_hash iter1)" "hash_ok (id_hash iter2)"
  obtains "align_step cons1 cons2 i1 i2 iter1 iter2 = Some None" "\<not> (iter_sorted cons1 i1 iter1 \<and> iter_sorted cons2 i2 iter2)"
  | j1 j2 t1 t2 where "align_step cons1 cons2 i1 i2 iter1 iter2 = Some (Some (j1, j2, t1, t2))"
      "hash_ok (id_hash t1)" "hash_ok (id_hash t2)"
      "iter_sorted cons1 i1 iter1 \<and> iter_sorted cons2 i2 iter2 \<longrightarrow> iter_sorted cons1 j1 t1 \<and> iter_sorted cons2 j2 t2"
proof (cases "i1 < int (length cons1) \<or> i2 < int (length cons2)")
  case True
  from base64cmp_total [OF assms(5,6)] obtain c where "base64cmp (id_hash iter1) (id_hash iter2) = Some c" by blast
  with True align_routers_total [OF assms, of c] that show thesis by (fastforce simp: align_step_def)
qed (use that assms in \<open>auto simp: align_step_def\<close>)

subsection \<open>The marks of all chunks\<close>

text \<open>
  The invariant of the outer loop: behind the starts nothing is marked, and the unmarked lines
  before the starts are the same in both documents.
\<close>

definition chunk_inv :: "cdline list \<Rightarrow> cdline list \<Rightarrow> nat \<Rightarrow> nat \<Rightarrow> bitarray \<Rightarrow> bitarray \<Rightarrow> bool" where
  "chunk_inv cons1 cons2 a b c1 c2 \<longleftrightarrow>
     a \<le> length cons1 \<and> b \<le> length cons2 \<and> length cons1 \<le> ba_cap c1 \<and> length cons2 \<le> ba_cap c2 \<and>
     (\<forall>j \<ge> a. \<not> ba_bit c1 j) \<and> (\<forall>j \<ge> b. \<not> ba_bit c2 j) \<and>
     kept (ba_bit c1) 0 (take a (contents cons1)) = kept (ba_bit c2) 0 (take b (contents cons2))"

lemma kept_take_add:
  assumes "a + n \<le> length xs" "\<And>j. j < a \<Longrightarrow> f j = g j"
  shows "kept f 0 (take (a + n) xs) = kept g 0 (take a xs) @ kept f a (sub xs a n)"
proof -
  have "kept f 0 (take a xs) = kept g 0 (take a xs)" using assms by (intro kept_cong) auto
  with assms(1) show ?thesis by (simp add: take_add kept_append sub_def)
qed

lemma chunk_step:
  assumes "chunk_inv cons1 cons2 a b c1 c2" "a \<le> a'" "a' \<le> length cons1" "b \<le> b'" "b' \<le> length cons2"
  obtains d1 d2 where "calc_changes (mk_slice cons1 a (a' - a)) (mk_slice cons2 b (b' - b)) c1 c2 = Some (d1, d2)"
    "chunk_inv cons1 cons2 a' b' d1 d2"
proof -
  from assms have u: "unmarked c1 a (a' - a)" "unmarked c2 b (b' - b)" by (auto simp: chunk_inv_def unmarked_def)
  from assms obtain d1 d2 where d: "calc_changes (mk_slice cons1 a (a' - a)) (mk_slice cons2 b (b' - b)) c1 c2 = Some (d1, d2)"
    and ok: "changes_ok c1 c2 d1 d2 a (sub (contents cons1) a (a' - a)) b (sub (contents cons2) b (b' - b))"
    using calc_changes_eq [OF _ _ u, of cons1 cons2] by auto
  have "kept (ba_bit d1) 0 (take (a + (a' - a)) (contents cons1)) =
      kept (ba_bit c1) 0 (take a (contents cons1)) @ kept (ba_bit d1) a (sub (contents cons1) a (a' - a))"
    using assms(2,3) ok by (intro kept_take_add) (simp_all add: changes_ok_def)
  moreover have "kept (ba_bit d2) 0 (take (b + (b' - b)) (contents cons2)) =
      kept (ba_bit c2) 0 (take b (contents cons2)) @ kept (ba_bit d2) b (sub (contents cons2) b (b' - b))"
    using assms(4,5) ok by (intro kept_take_add) (simp_all add: changes_ok_def)
  ultimately have "chunk_inv cons1 cons2 a' b' d1 d2"
    using assms ok by (simp add: changes_ok_def chunk_inv_def)
  with d that show thesis by blast
qed

text \<open>A position is in front of the first line, or at the start of the next chunk.\<close>

definition at_start :: "int \<Rightarrow> nat \<Rightarrow> bool" where
  "at_start i a \<longleftrightarrow> i = -1 \<and> a = 0 \<or> i = int a"

lemma chunk_ends:
  assumes "advance_router cons i iter = Some (Some (i', t))" "at_start i a" "a \<le> length cons"
    "min i' (int (length cons)) \<le> j" "i' \<le> int (length cons) \<longrightarrow> j \<le> int (length cons)"
  obtains a' where "j = int a'" "a \<le> a'" "a' \<le> length cons"
proof -
  have "a \<le> nat j" "nat j \<le> length cons" "0 \<le> j"
    using advance_router_range [OF assms(1)] assms(2-5) by (auto simp: at_start_def split: if_splits)
  then show thesis using that [of "nat j"] by simp
qed

lemma mark_chunks_ok:
  assumes "list_all line_ok cons1" "list_all line_ok cons2"
  shows "at_start i1 a \<Longrightarrow> at_start i2 b \<Longrightarrow> chunk_inv cons1 cons2 a b c1 c2 \<Longrightarrow>
     hash_ok (id_hash iter1) \<Longrightarrow> hash_ok (id_hash iter2) \<Longrightarrow>
     mark_chunks cons1 cons2 i1 i2 (int a) (int b) iter1 iter2 c1 c2 = Some None \<and>
       \<not> (iter_sorted cons1 i1 iter1 \<and> iter_sorted cons2 i2 iter2 \<and>
          int (length cons1) \<le> MAX_LINE_COUNT \<and> int (length cons2) \<le> MAX_LINE_COUNT) \<or>
     (\<exists>d1 d2. mark_chunks cons1 cons2 i1 i2 (int a) (int b) iter1 iter2 c1 c2 = Some (Some (d1, d2)) \<and>
       chunk_inv cons1 cons2 (length cons1) (length cons2) d1 d2)"
proof (induction "nat (int (length cons1) - i1) + nat (int (length cons2) - i2)"
    arbitrary: i1 i2 a b iter1 iter2 c1 c2 rule: less_induct)
  case less
  note step = mark_chunks.simps [of cons1 cons2 i1 i2 "int a" "int b" iter1 iter2 c1 c2]
  from less.prems have pos: "-1 \<le> i1" "-1 \<le> i2" by (auto simp: at_start_def)
  show ?case
  proof (cases "i1 < int (length cons1) \<or> i2 < int (length cons2)")
    case more: True
    show ?thesis
    proof (cases rule: advance_router_total [OF assms(1) pos(1) less.prems(4)])
      case 1
      with more step show ?thesis by simp
    next
      case A: (2 i1' t1)
      show ?thesis
      proof (cases rule: advance_router_total [OF assms(2) pos(2) less.prems(5)])
        case 1
        with more step A show ?thesis by simp
      next
        case B: (2 i2' t2)
        have pos': "-1 \<le> i1'" "-1 \<le> i2'"
          using advance_router_range [OF A(1)] advance_router_range [OF B(1)] pos by (auto split: if_splits)
        show ?thesis
        proof (cases rule: align_step_total [OF assms pos' A(2) B(2)])
          case 1
          with more step A B show ?thesis by auto
        next
          case C: (2 j1 j2 u1 u2)
          note rng = align_step_range [OF C(1)]
          from chunk_ends [OF A(1) less.prems(1)] less.prems(3) rng obtain a' where
            a': "j1 = int a'" "a \<le> a'" "a' \<le> length cons1" by (auto simp: chunk_inv_def)
          from chunk_ends [OF B(1) less.prems(2)] less.prems(3) rng obtain b' where
            b': "j2 = int b'" "b \<le> b'" "b' \<le> length cons2" by (auto simp: chunk_inv_def)
          from chunk_step [OF less.prems(3) a'(2,3) b'(2,3)] obtain d1 d2 where d:
            "calc_changes (mk_slice cons1 a (a' - a)) (mk_slice cons2 b (b' - b)) c1 c2 = Some (d1, d2)"
            "chunk_inv cons1 cons2 a' b' d1 d2" by blast
          have start: "at_start j1 a'" "at_start j2 b'" using a' b' by (simp_all add: at_start_def)
          from less.hyps [OF chunk_progress [OF A(1) B(1) C(1) more] start d(2) C(2,3)] more step A B C a' b' d(1)
          show ?thesis
            by (cases "MAX_LINE_COUNT < j1 - int a \<or> MAX_LINE_COUNT < j2 - int b") (auto simp: smartlist_slice_eq)
        qed
      qed
    qed
  next
    case False
    with less.prems have "a = length cons1" "b = length cons2" by (auto simp: at_start_def chunk_inv_def)
    with False step less.prems(3) show ?thesis by simp
  qed
qed

subsection \<open>The script\<close>

text \<open>
  What the second loop writes for the first \<open>n1\<close> lines of the base and the first \<open>n2\<close> lines of the
  target: nothing for a line both have, and for a run of changes one command, with its added lines
  and the closing dot. The commands of the last lines come first.
\<close>

abbreviation DOT :: "byte list" where
  "DOT \<equiv> bytes_of ''.''"

definition plain_line :: "byte list \<Rightarrow> cdline" where
  "plain_line s = \<lparr>cd_s = s, cd_next = None\<rparr>"

definition edit_range :: "nat \<Rightarrow> nat \<Rightarrow> byte list" where
  "edit_range m n = (if n = m + 1 then fmt_d (int m + 1) else fmt_d (int m + 1) @ bytes_of '','' @ fmt_d (int n))"

definition edit_lines :: "nat \<Rightarrow> nat \<Rightarrow> cdline list \<Rightarrow> cdline list" where
  "edit_lines m n adds =
     (if adds = [] then [plain_line (edit_range m n @ bytes_of ''d'')]
      else plain_line (if m = n then fmt_d (int m) @ bytes_of ''a'' else edit_range m n @ bytes_of ''c'') #
           adds @ [plain_line DOT])"

inductive ed_script :: "cdline list \<Rightarrow> cdline list \<Rightarrow> nat \<Rightarrow> nat \<Rightarrow> cdline list \<Rightarrow> bool"
  for cons1 cons2 :: "cdline list" where
  start: "ed_script cons1 cons2 0 0 []"
| same: "ed_script cons1 cons2 n1 n2 script \<Longrightarrow> n1 < length cons1 \<Longrightarrow> n2 < length cons2 \<Longrightarrow>
     cd_s (cons1 ! n1) = cd_s (cons2 ! n2) \<Longrightarrow> ed_script cons1 cons2 (Suc n1) (Suc n2) script"
| change: "ed_script cons1 cons2 m1 m2 script \<Longrightarrow> m1 \<le> n1 \<Longrightarrow> m2 \<le> n2 \<Longrightarrow> m1 < n1 \<or> m2 < n2 \<Longrightarrow>
     n1 \<le> length cons1 \<Longrightarrow> n2 \<le> length cons2 \<Longrightarrow> adds = sub cons2 m2 (n2 - m2) \<Longrightarrow> DOT \<notin> set (contents adds) \<Longrightarrow>
     ed_script cons1 cons2 n1 n2 (edit_lines m1 n1 adds @ script)"

lemma marked_at_ok: "n \<le> ba_cap c \<Longrightarrow> marked_at c (int n - 1) = Some (0 < n \<and> ba_bit c (n - 1))"
  using bitarray_is_set_ok [of "n - 1" c] by (cases n) (auto simp: marked_at_def)

lemma grab_changed_ok:
  "n \<le> ba_cap c \<Longrightarrow> \<exists>m \<le> n. grab_changed c (int n - 1) = Some (int m - 1) \<and>
     (\<forall>j. m \<le> j \<longrightarrow> j < n \<longrightarrow> ba_bit c j) \<and> (0 < n \<longrightarrow> ba_bit c (n - 1) \<longrightarrow> m < n)"
proof (induction n)
  case 0
  then show ?case by (simp add: grab_changed.simps [of c "-1"] marked_at_def)
next
  case (Suc n)
  note mk = marked_at_ok [OF Suc.prems]
  show ?case
  proof (cases "ba_bit c n")
    case True
    from Suc obtain m where "m \<le> n" "grab_changed c (int n - 1) = Some (int m - 1)"
      "\<forall>j. m \<le> j \<longrightarrow> j < n \<longrightarrow> ba_bit c j" by auto
    with True mk show ?thesis
      by (intro exI [of _ m]) (auto simp: grab_changed.simps [of c "int n"] less_Suc_eq)
  next
    case False
    with mk show ?thesis by (intro exI [of _ "Suc n"]) (auto simp: grab_changed.simps [of c "int n"])
  qed
qed

lemma add_lines_loop_eq:
  "m + k \<le> length cons2 \<Longrightarrow> add_lines_loop cons2 (int m) k result =
     Some (if DOT \<in> set (contents (sub cons2 m k)) then None else Some (result @ sub cons2 m k))"
proof (induction k arbitrary: m result)
  case (Suc k)
  have "sub cons2 m (Suc k) = cons2 ! m # sub cons2 (Suc m) k"
    using Suc.prems by (simp add: sub_def take_Suc_conv_app_nth flip: Cons_nth_drop_Suc)
  with Suc.IH [of "Suc m" "result @ [cons2 ! m]"] Suc.prems show ?case
    by (auto simp: add.commute [of 1])
qed (simp add: sub_def)

lemma dec_digits_length: "n < 10 ^ Suc k \<Longrightarrow> length (dec_digits n) \<le> Suc k"
proof (induction k arbitrary: n)
  case (Suc k)
  from Suc.IH [of "n div 10"] Suc.prems show ?case by (auto simp: dec_digits.simps [of n])
qed (simp add: dec_digits.simps)

lemma fmt_d_length: "int n \<le> INT_MAX \<Longrightarrow> length (fmt_d (int n)) \<le> 10"
  using dec_digits_length [of n 9] by (simp add: fmt_d_def INT_MAX_def)

lemma cdline_linecpy_short: "length s < 128 \<Longrightarrow> cdline_linecpy s = plain_line s"
  by (simp add: cdline_linecpy_def plain_line_def Let_def arr_get_def)

lemma add_command_eq: "length s < 128 \<Longrightarrow> add_command result s = Some (result @ [plain_line s])"
  by (simp add: add_command_def tor_snprintf_def smartlist_add_linecpy_def cdline_linecpy_short SIZE_T_CEILING_def)

lemma edit_range_length: "m < n \<Longrightarrow> int n \<le> INT_MAX \<Longrightarrow> length (edit_range m n) \<le> 21"
  using fmt_d_length [of n] fmt_d_length [of "Suc m"] by (simp add: edit_range_def bytes_of_def add.commute [of 1])

lemma emit_change_eq:
  assumes "m1 \<le> n1" "m2 \<le> n2" "m1 < n1 \<or> m2 < n2" "n2 \<le> length cons2" "int n1 \<le> INT_MAX"
    and adds: "adds = sub cons2 m2 (n2 - m2)"
  shows "emit_change cons2 (int m1) (int m2) (int n2 - 1) (int n2 - int m2) (int n1 - int m1) result =
     Some (if DOT \<in> set (contents adds) then None else Some (result @ edit_lines m1 n1 adds))"
proof -
  have ne: "adds = [] \<longleftrightarrow> m2 = n2" using assms(2,4) by (auto simp: adds sub_def)
  have nat: "nat (int n2 - int m2) = n2 - m2" using assms(2) by linarith
  have sum: "int m1 + (int n1 - int m1) = int n1" by simp
  have cmd: "add_command result (edit_range m1 n1 @ bytes_of ''d'') = Some (result @ [plain_line (edit_range m1 n1 @ bytes_of ''d'')])"
    "add_command result (edit_range m1 n1 @ bytes_of ''c'') = Some (result @ [plain_line (edit_range m1 n1 @ bytes_of ''c'')])"
    if "m1 < n1" using edit_range_length [OF that assms(5)] by (simp_all add: add_command_eq bytes_of_def)
  have one: "add_command result (fmt_d (int m1) @ bytes_of ''a'') = Some (result @ [plain_line (fmt_d (int m1) @ bytes_of ''a'')])"
    using fmt_d_length [of m1] assms(1,5) by (simp add: add_command_eq bytes_of_def)
  have dot: "cdline_linecpy DOT = plain_line DOT" by (simp add: cdline_linecpy_short bytes_of_def)
  show ?thesis
  proof (cases "m2 = n2")
    case True
    then have "m1 < n1" "sub cons2 m2 (n2 - m2) = []" using assms(3) by (auto simp: sub_def)
    with True cmd(1) ne sum adds show ?thesis
      by (cases "n1 = m1 + 1") (simp_all add: emit_change_def edit_lines_def edit_range_def)
  next
    case False
    have loop: "add_lines_loop cons2 (int m2) (n2 - m2) r = Some (if DOT \<in> set (contents adds) then None else Some (r @ adds))" for r
      using add_lines_loop_eq [of m2 "n2 - m2" cons2 r] assms(2,4) adds by simp
    from assms(1) consider "n1 = m1" | "n1 = m1 + 1" | "m1 + 1 < n1" by linarith
    then show ?thesis
    proof cases
      case 1
      with False ne one loop dot nat show ?thesis
        by (simp add: emit_change_def edit_lines_def smartlist_add_linecpy_def)
    next
      case 2
      with False ne cmd(2) loop dot nat sum show ?thesis
        by (simp add: emit_change_def edit_lines_def edit_range_def smartlist_add_linecpy_def)
    next
      case 3
      with False ne cmd(2) loop dot nat sum show ?thesis
        by (simp add: emit_change_def edit_lines_def edit_range_def smartlist_add_linecpy_def)
    qed
  qed
qed

lemma kept_take_Suc:
  "k < length xs \<Longrightarrow> kept f 0 (take (Suc k) xs) = kept f 0 (take k xs) @ (if f k then [] else [xs ! k])"
  by (simp add: take_Suc_conv_app_nth kept_append)

lemma kept_take_marked:
  assumes "m \<le> n" "n \<le> length xs" "\<And>j. m \<le> j \<Longrightarrow> j < n \<Longrightarrow> f j"
  shows "kept f 0 (take n xs) = kept f 0 (take m xs)"
proof -
  have "kept f m (sub xs m (n - m)) = []" using assms by (intro kept_all) auto
  with kept_take_add [of m "n - m" xs f f] assms show ?thesis by simp
qed

lemma emit_loop_ok:
  assumes cap: "length cons1 \<le> ba_cap c1" "length cons2 \<le> ba_cap c2" and len: "int (length cons1) \<le> INT_MAX"
  shows "n1 \<le> length cons1 \<Longrightarrow> n2 \<le> length cons2 \<Longrightarrow>
     kept (ba_bit c1) 0 (take n1 (contents cons1)) = kept (ba_bit c2) 0 (take n2 (contents cons2)) \<Longrightarrow>
     emit_loop cons2 c1 c2 (int n1 - 1) (int n2 - 1) result = Some None \<and> DOT \<in> set (contents cons2) \<or>
     (\<exists>script. emit_loop cons2 c1 c2 (int n1 - 1) (int n2 - 1) result = Some (Some (result @ script)) \<and>
       ed_script cons1 cons2 n1 n2 script)"
proof (induction "n1 + n2" arbitrary: n1 n2 result rule: less_induct)
  case less
  note step = emit_loop.simps [of cons2 c1 c2 "int n1 - 1" "int n2 - 1" result]
  have mk: "marked_at c1 (int n1 - 1) = Some (0 < n1 \<and> ba_bit c1 (n1 - 1))"
    "marked_at c2 (int n2 - 1) = Some (0 < n2 \<and> ba_bit c2 (n2 - 1))"
    using less.prems(1,2) cap by (simp_all add: marked_at_ok)
  consider (start) "n1 = 0" "n2 = 0"
    | (same) "0 < n1 \<or> 0 < n2" "\<not> (0 < n1 \<and> ba_bit c1 (n1 - 1))" "\<not> (0 < n2 \<and> ba_bit c2 (n2 - 1))"
    | (change) "0 < n1 \<and> ba_bit c1 (n1 - 1) \<or> 0 < n2 \<and> ba_bit c2 (n2 - 1)" by (metis gr0I)
  then show ?case
  proof cases
    case start
    then show ?thesis by (simp add: emit_loop.simps [of cons2 c1 c2 "-1" "-1"] ed_script.start)
  next
    case same
    then have "0 < n1 \<and> 0 < n2"
      using less.prems kept_take_Suc [of "n1 - 1" "contents cons1" "ba_bit c1"] kept_take_Suc [of "n2 - 1" "contents cons2" "ba_bit c2"]
      by (cases n1; cases n2) auto
    then obtain k1 k2 where k: "n1 = Suc k1" "n2 = Suc k2" by (metis gr0_conv_Suc)
    from same k less.prems have "kept (ba_bit c1) 0 (take k1 (contents cons1)) = kept (ba_bit c2) 0 (take k2 (contents cons2))"
      "cd_s (cons1 ! k1) = cd_s (cons2 ! k2)" by (simp_all add: kept_take_Suc)
    with less.hyps [of k1 k2 result] less.prems same k mk show ?thesis
      by (auto simp: emit_loop.simps [of cons2 c1 c2 "int k1" "int k2"] Suc_le_eq intro: ed_script.same)
  next
    case change
    from less.prems(1,2) cap have caps: "n1 \<le> ba_cap c1" "n2 \<le> ba_cap c2" by linarith+
    from grab_changed_ok [OF caps(1)] grab_changed_ok [OF caps(2)] obtain m1 m2 where
      m1: "m1 \<le> n1" "grab_changed c1 (int n1 - 1) = Some (int m1 - 1)" "\<forall>j. m1 \<le> j \<longrightarrow> j < n1 \<longrightarrow> ba_bit c1 j"
        "0 < n1 \<longrightarrow> ba_bit c1 (n1 - 1) \<longrightarrow> m1 < n1" and
      m2: "m2 \<le> n2" "grab_changed c2 (int n2 - 1) = Some (int m2 - 1)" "\<forall>j. m2 \<le> j \<longrightarrow> j < n2 \<longrightarrow> ba_bit c2 j"
        "0 < n2 \<longrightarrow> ba_bit c2 (n2 - 1) \<longrightarrow> m2 < n2" by auto
    let ?adds = "sub cons2 m2 (n2 - m2)"
    have lt: "m1 < n1 \<or> m2 < n2" using change m1(4) m2(4) by blast
    have "int n1 \<le> INT_MAX" using less.prems(1) len by linarith
    note e = emit_change_eq [OF m1(1) m2(1) lt less.prems(2) this refl, of result]
    have s: "emit_loop cons2 c1 c2 (int n1 - 1) (int n2 - 1) result =
        (if DOT \<in> set (contents ?adds) then Some None
         else emit_loop cons2 c1 c2 (int m1 - 1) (int m2 - 1) (result @ edit_lines m1 n1 ?adds))"
      using change mk m1(2) m2(2) e by (auto simp: step)
    have "kept (ba_bit c1) 0 (take m1 (contents cons1)) = kept (ba_bit c2) 0 (take m2 (contents cons2))"
      using less.prems m1 m2 kept_take_marked [of m1 n1 "contents cons1" "ba_bit c1"]
        kept_take_marked [of m2 n2 "contents cons2" "ba_bit c2"] by simp
    moreover have "DOT \<in> set (contents ?adds) \<longrightarrow> DOT \<in> set (contents cons2)"
      by (auto simp: sub_def dest!: in_set_takeD in_set_dropD)
    ultimately show ?thesis using less.hyps [of m1 m2 "result @ edit_lines m1 n1 ?adds"] less.prems m1(1) m2(1) lt s
      by (cases "DOT \<in> set (contents ?adds)")
        (fastforce intro: ed_script.change [OF _ m1(1) m2(1) lt less.prems(1,2) refl])+
  qed
qed

subsection \<open>The signatures and the whole script\<close>

text \<open>The number of lines in front of the signatures, and the command that deletes the signatures.\<close>

definition body_length :: "cdline list \<Rightarrow> nat" where
  "body_length cons = length (takeWhile (\<lambda>l. \<not> (20 \<le> length (cd_s l) \<and> take 20 (cd_s l) = START_OF_SIGNATURES_SECTION)) cons)"

definition trailer_lines :: "cdline list \<Rightarrow> cdline list" where
  "trailer_lines cons =
     (if body_length cons < length cons then [plain_line (fmt_d (int (body_length cons) + 1) @ bytes_of '',$d'')] else [])"

lemma body_length_le: "body_length cons \<le> length cons"
  by (simp add: body_length_def length_takeWhile_le)

lemma sig_length: "length START_OF_SIGNATURES_SECTION = 20"
  by (simp add: START_OF_SIGNATURES_SECTION_def bytes_of_def)

lemma dirsig_loop_eq:
  "dirsig_loop cons k = Some (if body_length cons < length cons then int (k + body_length cons) else -1)"
proof (induction cons arbitrary: k)
  case (Cons l cons)
  have "line_starts_with_str l START_OF_SIGNATURES_SECTION =
      Some (20 \<le> length (cd_s l) \<and> take 20 (cd_s l) = START_OF_SIGNATURES_SECTION)"
    by (simp add: line_starts_with_str_def sig_length UINT32_MAX_def)
  with Cons.IH [of "k + 1"] show ?case by (auto simp: body_length_def)
qed (simp add: body_length_def)

lemma delete_tail_eq: "n \<le> length xs \<Longrightarrow> delete_tail xs n = take n xs"
proof (induction xs n rule: delete_tail.induct)
  case (1 xs n)
  show ?case
  proof (cases "n < length xs")
    case True
    then have "n \<le> length xs - 1" by simp
    then have "take n (list_del xs n) = take n xs" "n \<le> length (list_del xs n)"
      using True by (simp_all add: list_del_def butlast_conv_take min_def)
    with "1.IH" True show ?thesis by (simp add: delete_tail.simps [of xs n])
  qed (use "1.prems" in \<open>simp add: delete_tail.simps [of xs "length xs"]\<close>)
qed

lemma preprocess_consensus_eq:
  assumes "int (length cons) \<le> INT_MAX"
  shows "preprocess_consensus cons = Some (take (body_length cons) cons, case trailer_lines cons of [] \<Rightarrow> None | l # ls \<Rightarrow> Some l)"
proof (cases "body_length cons < length cons")
  case True
  then have "length (fmt_d (int (body_length cons) + 1)) \<le> 10"
    using fmt_d_length [of "body_length cons + 1"] assms by (simp add: add.commute [of 1])
  with True show ?thesis
    by (simp add: preprocess_consensus_def dirsig_loop_eq delete_tail_eq trailer_lines_def tor_snprintf_def
        SIZE_T_CEILING_def cdline_linecpy_short bytes_of_def Let_def)
qed (use body_length_le [of cons] in \<open>simp add: preprocess_consensus_def dirsig_loop_eq trailer_lines_def\<close>)

text \<open>
  What is enough for a script to be generated: sorted router entries, no more lines than the limit
  on a chunk, and no line in the target that would close a list of added lines.
\<close>

definition diffable :: "cdline list \<Rightarrow> cdline list \<Rightarrow> bool" where
  "diffable cons1 cons2 \<longleftrightarrow>
     ids_sorted (take (body_length cons1) cons1) None \<and> ids_sorted cons2 None \<and>
     int (body_length cons1) \<le> MAX_LINE_COUNT \<and> int (length cons2) \<le> MAX_LINE_COUNT \<and>
     DOT \<notin> set (contents cons2)"

lemma gen_ed_diff_ok:
  assumes ok: "list_all line_ok cons1" "list_all line_ok cons2"
    and len: "int (length cons1) \<le> INT_MAX" "int (length cons2) \<le> INT_MAX"
  obtains "gen_ed_diff cons1 cons2 = Some None" "\<not> diffable cons1 cons2"
  | script where "gen_ed_diff cons1 cons2 = Some (Some (trailer_lines cons1 @ script))"
      "ed_script (take (body_length cons1) cons1) cons2 (body_length cons1) (length cons2) script"
proof -
  let ?n = "body_length cons1"
  let ?body = "take ?n cons1" and ?c1 = "bitarray_init_zero (word_of_nat ?n)" and ?c2 = "bitarray_init_zero (word_of_nat (length cons2))"
  have n: "length ?body = ?n" "int ?n \<le> INT_MAX" using body_length_le [of cons1] len(1) by auto
  have body: "list_all line_ok ?body" using ok(1) by (auto simp: list_all_iff dest: in_set_takeD)
  have inv: "chunk_inv ?body cons2 0 0 ?c1 ?c2"
    using bitarray_init_zero_ok n len(2) by (simp add: chunk_inv_def INT_MAX_def)
  have "case trailer_lines cons1 of [] \<Rightarrow> True | l # ls \<Rightarrow> ls = []" by (simp add: trailer_lines_def)
  then have res: "(case case trailer_lines cons1 of [] \<Rightarrow> None | l # ls \<Rightarrow> Some l of None \<Rightarrow> [] | Some l \<Rightarrow> [l]) = trailer_lines cons1"
    by (simp split: list.splits)
  have srt: "diffable cons1 cons2 \<Longrightarrow> iter_sorted ?body (-1) ROUTER_ID_ITERATOR_INIT \<and>
      iter_sorted cons2 (-1) ROUTER_ID_ITERATOR_INIT \<and> int (length ?body) \<le> MAX_LINE_COUNT \<and> int (length cons2) \<le> MAX_LINE_COUNT"
    unfolding n(1) by (simp add: diffable_def iter_sorted_def ROUTER_ID_ITERATOR_INIT_def)
  have init: "hash_ok (id_hash ROUTER_ID_ITERATOR_INIT)" "at_start (-1) 0"
    by (simp_all add: hash_ok_def ROUTER_ID_ITERATOR_INIT_def at_start_def)
  note marks = mark_chunks_ok [OF body ok(2) init(2) init(2) inv init(1) init(1), unfolded n(1) int_ops(1)]
  from marks srt [unfolded n(1)] consider "mark_chunks ?body cons2 (-1) (-1) 0 0 ROUTER_ID_ITERATOR_INIT ROUTER_ID_ITERATOR_INIT ?c1 ?c2 = Some None"
      "\<not> diffable cons1 cons2"
    | d1 d2 where "mark_chunks ?body cons2 (-1) (-1) 0 0 ROUTER_ID_ITERATOR_INIT ROUTER_ID_ITERATOR_INIT ?c1 ?c2 = Some (Some (d1, d2))"
      "chunk_inv ?body cons2 ?n (length cons2) d1 d2"
    by blast
  then show thesis
  proof cases
    case 1
    with that(1) n show ?thesis by (simp add: gen_ed_diff_def preprocess_consensus_eq [OF len(1)])
  next
    case (2 d1 d2)
    then have cap: "length ?body \<le> ba_cap d1" "length cons2 \<le> ba_cap d2"
      and kept: "kept (ba_bit d1) 0 (take ?n (contents ?body)) = kept (ba_bit d2) 0 (take (length cons2) (contents cons2))"
      unfolding chunk_inv_def by blast+
    have "int (length ?body) \<le> INT_MAX" using n by simp
    from emit_loop_ok [OF cap this _ order_refl kept, of "trailer_lines cons1"] n(1) body_length_le [of cons1] 2(1) that res show ?thesis
      by (auto simp: gen_ed_diff_def preprocess_consensus_eq [OF len(1)] diffable_def)
  qed
qed

end
