(* ===== verification/Consdiff_Apply.thy ===== *)
theory Consdiff_Apply
  imports Consdiff_Changes
begin

section \<open>Consensus diffs: applying ed scripts, \<^verbatim>\<open>feature/dircommon/consdiff.c\<close>\<close>

text \<open>
  The second half of \<open>feature/dircommon/consdiff.c\<close> at the level of lines: reading an ed command
  (\<open>get_linenum\<close>, \<open>parse_command\<close>) and applying a script of such commands to a list of lines
  (\<open>apply_ed_diff\<close>). \<open>None\<close> is an access outside a buffer or a list, \<open>Some None\<close> the null pointer
  returned for a malformed script. The main result: on every base and every script, whatever its
  bytes, the loops stay inside their buffers and end.
\<close>

subsection \<open>Reading commands\<close>

text \<open>
  \<open>get_linenum\<close> reads from a position of a NUL-terminated buffer; the result is the number and the
  new position, or \<open>None\<close> for \<open>-1\<close>.
\<close>

definition c_string_at :: "byte list \<Rightarrow> nat \<Rightarrow> byte list" where
  "c_string_at buf p = takeWhile (\<lambda>c. c \<noteq> 0) (drop p buf)"

definition get_linenum :: "byte list \<Rightarrow> nat \<Rightarrow> (int \<times> nat) option option" where
  "get_linenum buf p =
     do {
       c \<leftarrow> arr_get buf p;
       (if \<not> TOR_ISDIGIT c then Some None
        else
          do {
            (num, ok, next) \<leftarrow> tor_parse_long (c_string_at buf p) 10 0 INT32_MAX True;
            (case next of
               None \<Rightarrow> Some None
             | Some n \<Rightarrow> if ok then Some (Some (to_i32 num, p + n)) else Some None)
          })
     }"

text \<open>A parsed command: the range, whether the end was \<open>$\<close>, whether there was a range, the action.\<close>

record ed_command =
  ed_start :: int
  ed_end :: int
  end_was_eof :: bool
  had_range :: bool
  ed_action :: byte

definition parse_range :: "nat \<Rightarrow> byte list \<Rightarrow> (int \<times> int \<times> bool \<times> bool \<times> nat) option option" where
  "parse_range cons1_len buf =
     do {
       a \<leftarrow> get_linenum buf 0;
       (case a of
          None \<Rightarrow> Some None
        | Some (start, p) \<Rightarrow>
            do {
              c \<leftarrow> arr_get buf p;
              (if c = 44 then
                 do {
                   c2 \<leftarrow> arr_get buf (p + 1);
                   e \<leftarrow> (if c2 = 36 then Some (Some (int cons1_len, p + 2, True))
                        else map_option (map_option (\<lambda>(n, q). (n, q, False))) (get_linenum buf (p + 1)));
                   (case e of
                      None \<Rightarrow> Some None
                    | Some (en, q, eof) \<Rightarrow>
                        if en \<le> start then Some None else Some (Some (start, en, eof, True, q)))
                 }
               else Some (Some (start, start, False, False, p)))
            })
     }"

definition parse_command :: "nat \<Rightarrow> int \<Rightarrow> cdline \<Rightarrow> ed_command option option" where
  "parse_command cons1_len j line =
     (if 128 - 1 < length (cd_s line) then Some None
      else
        do {
          let buf = cd_s line @ [0];
          r \<leftarrow> parse_range cons1_len buf;
          (case r of
             None \<Rightarrow> Some None
           | Some (start, en, eof, rng, p) \<Rightarrow>
               if j < en then Some None
               else
                 do {
                   action \<leftarrow> arr_get buf p;
                   (if action = 0 then Some None
                    else
                      do {
                        nxt \<leftarrow> arr_get buf (p + 1);
                        (if nxt \<noteq> 0 then Some None
                         else if action \<noteq> 97 \<and> action \<noteq> 99 \<and> action \<noteq> 100 then Some None
                         else if eof \<and> action \<noteq> 100 then Some None
                         else if rng \<and> action = 97 then Some None
                         else Some (Some \<lparr>ed_start = start, ed_end = en, end_was_eof = eof, had_range = rng, ed_action = action\<rparr>))
                      })
                 })
        })"

function copy_down :: "cdline list \<Rightarrow> int \<Rightarrow> int \<Rightarrow> cdline list \<Rightarrow> (int \<times> cdline list) option" where
  "copy_down cons1 j en cons2 =
     (if j \<noteq> 0 \<and> en < j then
        do {
          line \<leftarrow> line_get cons1 (j - 1);
          copy_down cons1 (j - 1) en (cons2 @ [line])
        }
      else Some (j, cons2))"
  by pat_completeness auto
termination
  by (relation "measure (\<lambda>(c, j, en, c2). nat (j - en))") auto

text \<open>The loop \<open>while (--j >= start)\<close> leaves \<open>j\<close> at the smaller of \<open>j - 1\<close> and \<open>start - 1\<close>.\<close>

function skip_down :: "int \<Rightarrow> int \<Rightarrow> int" where
  "skip_down j start = (let j = j - 1 in if start \<le> j then skip_down j start else j)"
  by pat_completeness auto
termination
  by (relation "measure (\<lambda>(j, start). nat (j - start + 1))") auto

text \<open>The search for the line with a single dot, from index \<open>i\<close>; \<open>Some None\<close> when it is missing.\<close>

function find_dot :: "cdline list \<Rightarrow> nat \<Rightarrow> nat option option" where
  "find_dot diff i =
     (if i < length diff then
        do {
          line \<leftarrow> arr_get diff i;
          dot \<leftarrow> line_str_eq line (bytes_of ''.'');
          (if dot then Some (Some i)
           else if i + 1 = length diff then Some None
           else find_dot diff (i + 1))
        }
      else Some (Some i))"
  by pat_completeness auto
termination
  by (relation "measure (\<lambda>(diff, i). length diff - i)") auto

fun add_reversed :: "cdline list \<Rightarrow> nat \<Rightarrow> nat \<Rightarrow> cdline list \<Rightarrow> cdline list option" where
  "add_reversed diff added_i 0 cons2 = Some cons2"
| "add_reversed diff added_i (Suc k) cons2 =
     do {
       line \<leftarrow> arr_get diff added_i;
       add_reversed diff (added_i - 1) k (cons2 @ [line])
     }"

declare copy_down.simps [simp del] skip_down.simps [simp del] find_dot.simps [simp del]

lemma find_dot_range: "find_dot diff i = Some (Some k) \<Longrightarrow> i \<le> k"
proof (induction diff i rule: find_dot.induct)
  case (1 diff i)
  show ?case
  proof (cases "i < length diff")
    case True
    with "1.prems" obtain l d where l: "arr_get diff i = Some l" "line_str_eq l (bytes_of ''.'') = Some d"
      by (auto simp: find_dot.simps [of diff i] split: bind_splits)
    with "1.IH" [OF True l] "1.prems" True show ?thesis by (auto simp: find_dot.simps [of diff i] split: if_splits)
  qed (use "1.prems" in \<open>auto simp: find_dot.simps [of diff i]\<close>)
qed

function apply_loop :: "cdline list \<Rightarrow> cdline list \<Rightarrow> nat \<Rightarrow> int \<Rightarrow> cdline list \<Rightarrow> (int \<times> cdline list) option option" where
  "apply_loop cons1 diff i j cons2 =
     (if i < length diff then
        do {
          diff_cdline \<leftarrow> arr_get diff i;
          cmd \<leftarrow> parse_command (length cons1) j diff_cdline;
          (case cmd of
             None \<Rightarrow> Some None
           | Some c \<Rightarrow>
               do {
                 (j, cons2) \<leftarrow> copy_down cons1 j (ed_end c) cons2;
                 let j = (if ed_action c = 99 \<or> ed_action c = 100 then skip_down j (ed_start c) else j);
                 (if ed_action c = 97 \<or> ed_action c = 99 then
                    do {
                      d \<leftarrow> find_dot diff (i + 1);
                      (case d of
                         None \<Rightarrow> Some None
                       | Some k \<Rightarrow>
                           if k - 1 = i then Some None
                           else
                             do {
                               cons2 \<leftarrow> add_reversed diff (k - 1) (k - 1 - i) cons2;
                               apply_loop cons1 diff (k + 1) j cons2
                             })
                    }
                  else apply_loop cons1 diff (i + 1) j cons2)
               })
        }
      else Some (Some (j, cons2)))"
  by pat_completeness auto
termination
  by (relation "measure (\<lambda>(c1, diff, i, j, c2). length diff - i)") (auto dest!: find_dot_range)

text \<open>
  The callers pass a constant as the first line of the script, 0 or 2, so it is a natural number here. The
  smartlists of lines are lists: that a smartlist cannot hold more than \<open>INT_MAX\<close> lines, which
  \<open>smartlist_add\<close> asserts, is left out.
\<close>

definition apply_ed_diff :: "cdline list \<Rightarrow> cdline list \<Rightarrow> nat \<Rightarrow> cdline list option option" where
  "apply_ed_diff cons1 diff diff_starting_line =
     do {
       r \<leftarrow> apply_loop cons1 diff diff_starting_line (int (length cons1)) [];
       (case r of
          None \<Rightarrow> Some None
        | Some (j, cons2) \<Rightarrow>
            do {
              (j, cons2) \<leftarrow> copy_down cons1 j 0 cons2;
              Some (Some (rev cons2))
            })
     }"

declare apply_loop.simps [simp del]

subsection \<open>Memory safety\<close>

lemma scan_digits_length: "scan_digits base s acc n = (v, m) \<Longrightarrow> m \<le> n + length s"
  by (induction s arbitrary: acc n) (fastforce split: if_splits)+

lemma strto_scan_length: "strto_scan s 10 = (neg, v, e) \<Longrightarrow> e \<le> length s"
proof -
  assume a: "strto_scan s 10 = (neg, v, e)"
  define ws where "ws = length (takeWhile c_isspace s)"
  define sg :: nat where "sg = (case drop ws s of c # r \<Rightarrow> if c = 45 \<or> c = 43 then 1 else 0 | [] \<Rightarrow> 0)"
  obtain w m where sc: "scan_digits 10 (drop sg (drop ws s)) 0 0 = (w, m)" by fastforce
  have "ws \<le> length s" by (simp add: ws_def length_takeWhile_le)
  moreover have "sg \<le> length (drop ws s)" unfolding sg_def by (cases "drop ws s") (simp_all del: length_drop)
  moreover have "m \<le> length (drop sg (drop ws s))" using scan_digits_length [OF sc] by simp
  moreover have "e = (if m = 0 then 0 else ws + sg + m)"
    using a sc by (auto simp: strto_scan_def Let_def simp flip: ws_def sg_def)
  ultimately show ?thesis by (auto split: if_splits)
qed

lemma tor_parse_long_cases:
  obtains e where "tor_parse_long s 10 0 INT32_MAX True = Some (0, False, Some e)"
  | i e where "tor_parse_long s 10 0 INT32_MAX True = Some (i, True, Some e)" "0 \<le> i" "i \<le> INT32_MAX" "0 < e" "e \<le> length s"
proof -
  obtain neg v e where sc: "strto_scan s 10 = (neg, v, e)" by (metis prod_cases3)
  define r where "r = (if neg then - int v else int v)"
  have eq: "tor_parse_long s 10 0 INT32_MAX True =
      Some (if 0 < e \<and> 0 \<le> r \<and> r \<le> INT32_MAX then (r, True, Some e) else (0, False, Some e))"
    using sc by (auto simp: tor_parse_long_def strtol_def CHECK_STRTOX_RESULT_def Let_def r_def INT32_MAX_def LONG_MIN_def LONG_MAX_def)
  show thesis
    by (cases "0 < e \<and> 0 \<le> r \<and> r \<le> INT32_MAX") (use eq strto_scan_length [OF sc] that in auto)
qed

text \<open>The buffer is terminated: its last byte is the first NUL a scan cannot pass.\<close>

lemma length_takeWhile_le_nth: "k < length xs \<Longrightarrow> \<not> P (xs ! k) \<Longrightarrow> length (takeWhile P xs) \<le> k"
proof (rule ccontr)
  assume "\<not> P (xs ! k)" "\<not> length (takeWhile P xs) \<le> k"
  then show False using nth_mem [of k "takeWhile P xs"] set_takeWhileD [of _ P xs] by (auto simp: takeWhile_nth)
qed

lemma c_string_at_length:
  assumes "p < length buf" "buf ! (length buf - 1) = 0"
  shows "p + length (c_string_at buf p) < length buf"
proof -
  have "length buf - 1 - p < length (drop p buf)" "drop p buf ! (length buf - 1 - p) = 0" using assms by auto
  then have "length (takeWhile (\<lambda>c. c \<noteq> 0) (drop p buf)) \<le> length buf - 1 - p"
    by (intro length_takeWhile_le_nth) auto
  with assms(1) show ?thesis by (simp add: c_string_at_def)
qed

lemma get_linenum_safe:
  assumes "p < length buf" "buf ! (length buf - 1) = 0"
  obtains "get_linenum buf p = Some None"
  | i q where "get_linenum buf p = Some (Some (i, q))" "0 \<le> i" "i \<le> INT32_MAX" "p < q" "q < length buf"
proof (cases "TOR_ISDIGIT (buf ! p)")
  case True
  show thesis
  proof (cases rule: tor_parse_long_cases [of "c_string_at buf p"])
    case (1 e)
    with True assms(1) show ?thesis by (intro that(1)) (simp add: get_linenum_def arr_get_in)
  next
    case (2 i e)
    then have "get_linenum buf p = Some (Some (i, p + e))"
      using True assms(1) by (simp add: get_linenum_def arr_get_in is_int_defs INT32_MAX_def)
    with 2 c_string_at_length [OF assms] show ?thesis by (intro that(2) [of i "p + e"]) linarith+
  qed
qed (use assms(1) that(1) in \<open>simp add: get_linenum_def arr_get_in\<close>)

lemma parse_range_safe:
  assumes "buf \<noteq> []" "buf ! (length buf - 1) = 0"
  obtains "parse_range n buf = Some None"
  | a e eof rng q where "parse_range n buf = Some (Some (a, e, eof, rng, q))" "0 \<le> a" "a \<le> e" "q < length buf"
proof -
  from assms(1) have z: "0 < length buf" by simp
  show thesis
  proof (cases rule: get_linenum_safe [OF z assms(2)])
    case 1
    then show ?thesis by (intro that(1)) (simp add: parse_range_def)
  next
    case (2 i q)
    show ?thesis
    proof (cases "buf ! q = 44")
      case True
      then have q: "q + 1 < length buf" using 2(5) assms(2) by (cases "q = length buf - 1") auto
      show ?thesis
      proof (cases "buf ! (q + 1) = 36")
        case eof: True
        then have "q + 2 < length buf" using q assms(2) by (cases "q + 1 = length buf - 1") auto
        with 2 True eof q that show ?thesis by (cases "int n \<le> i") (auto simp: parse_range_def arr_get_in)
      next
        case neof: False
        show ?thesis
          by (cases rule: get_linenum_safe [OF q assms(2)]; cases "fst (the (the (get_linenum buf (q + 1)))) \<le> i")
            (use 2 True neof q that in \<open>auto simp: parse_range_def arr_get_in\<close>)
      qed
    next
      case False
      with 2 that(2) [of i i False False q] show ?thesis by (simp add: parse_range_def arr_get_in)
    qed
  qed
qed

lemma parse_command_safe:
  obtains "parse_command n j line = Some None"
  | c where "parse_command n j line = Some (Some c)" "0 \<le> ed_start c" "ed_start c \<le> ed_end c" "ed_end c \<le> j"
      "ed_action c \<in> {97, 99, 100}"
proof -
  let ?buf = "cd_s line @ [0]"
  have buf: "?buf \<noteq> []" "?buf ! (length ?buf - 1) = 0" by simp_all
  show thesis
  proof (cases rule: parse_range_safe [OF buf, of n])
    case 1
    with that(1) show ?thesis by (simp add: parse_command_def Let_def)
  next
    case (2 a e eof rng q)
    have "?buf ! q \<noteq> 0 \<Longrightarrow> q + 1 < length ?buf" using 2(4) by (cases "q = length (cd_s line)") (auto simp: nth_append)
    with 2 that show ?thesis
      by (fastforce simp: parse_command_def Let_def arr_get_in split: if_splits)
  qed
qed

lemma copy_down_eq:
  "e \<le> j \<Longrightarrow> j \<le> length cons1 \<Longrightarrow>
     copy_down cons1 (int j) (int e) cons2 = Some (int e, cons2 @ rev (sub cons1 e (j - e)))"
proof (induction "j - e" arbitrary: j cons2)
  case 0
  then show ?case by (simp add: copy_down.simps [of cons1 "int e" "int e"] sub_def)
next
  case (Suc n)
  define k where "k = j - 1"
  with Suc have j: "j = Suc k" "e \<le> k" "k < length cons1" "n = k - e" by auto
  have "sub cons1 e (j - e) = sub cons1 e (k - e) @ [cons1 ! k]"
    using j by (simp add: sub_def Suc_diff_le take_Suc_conv_app_nth)
  with Suc.hyps(1) [of k "cons2 @ [cons1 ! k]"] j show ?case
    by (simp add: copy_down.simps [of cons1 "1 + int k"])
qed

lemma skip_down_eq: "skip_down j start = min (j - 1) (start - 1)"
proof (induction j start rule: skip_down.induct)
  case (1 j start)
  then show ?case by (cases "start \<le> j - 1") (auto simp: skip_down.simps [of j start])
qed

lemma find_dot_safe:
  "i \<le> length diff \<Longrightarrow> find_dot diff i = Some None \<or> (\<exists>k. find_dot diff i = Some (Some k) \<and> i \<le> k \<and> k \<le> length diff)"
proof (induction diff i rule: find_dot.induct)
  case (1 diff i)
  show ?case
  proof (cases "i < length diff")
    case True
    with 1 show ?thesis
      by (cases "cd_s (diff ! i) = bytes_of ''.''") (fastforce simp: find_dot.simps [of diff i] arr_get_in)+
  qed (use 1 in \<open>simp add: find_dot.simps [of diff "length diff"]\<close>)
qed

lemma add_reversed_eq:
  "k \<le> Suc a \<Longrightarrow> a < length diff \<or> k = 0 \<Longrightarrow> add_reversed diff a k cons2 = Some (cons2 @ rev (sub diff (Suc a - k) k))"
proof (induction k arbitrary: a cons2)
  case (Suc k)
  have "sub diff (Suc a - Suc k) (Suc k) = sub diff (Suc a - Suc k) k @ [diff ! a]"
    using Suc.prems by (simp add: sub_def take_Suc_conv_app_nth)
  with Suc.IH [of "a - 1" "cons2 @ [diff ! a]"] Suc.prems show ?case
    by (cases a) (auto simp: arr_get_in)
qed (simp add: sub_def)

text \<open>One command: the unchanged lines down to its end are copied, then its range is skipped.\<close>

lemma apply_loop_command:
  assumes "i < length diff" "parse_command (length cons1) (int j) (diff ! i) = Some (Some c)"
    "ed_end c = int e" "e \<le> j" "j \<le> length cons1" "ed_start c \<le> int e"
  shows "apply_loop cons1 diff i (int j) cons2 =
     (let j' = (if ed_action c = 99 \<or> ed_action c = 100 then ed_start c - 1 else int e);
          cons2' = cons2 @ rev (sub cons1 e (j - e))
      in if ed_action c = 97 \<or> ed_action c = 99 then
           do {
             d \<leftarrow> find_dot diff (i + 1);
             (case d of
                None \<Rightarrow> Some None
              | Some k \<Rightarrow> if k - 1 = i then Some None
                          else do { cons2 \<leftarrow> add_reversed diff (k - 1) (k - 1 - i) cons2'; apply_loop cons1 diff (k + 1) j' cons2 })
           }
         else apply_loop cons1 diff (i + 1) j' cons2')"
proof -
  have "skip_down (int e) (ed_start c) = ed_start c - 1" using assms(6) by (simp add: skip_down_eq)
  with assms show ?thesis
    by (simp add: apply_loop.simps [of cons1 diff i] arr_get_in copy_down_eq Let_def cong: if_cong option.case_cong)
qed

lemma set_sub: "set (sub xs ofs n) \<subseteq> set xs"
  unfolding sub_def by (meson order_trans set_drop_subset set_take_subset)

lemma apply_loop_safe:
  "-1 \<le> j \<Longrightarrow> j \<le> int (length cons1) \<Longrightarrow> apply_loop cons1 diff i j cons2 = Some None \<or>
     (\<exists>j' out. apply_loop cons1 diff i j cons2 = Some (Some (j', out)) \<and> -1 \<le> j' \<and> j' \<le> int (length cons1) \<and>
       set out \<subseteq> set cons2 \<union> set cons1 \<union> set diff)"
proof (induction "length diff - i" arbitrary: i j cons2 rule: less_induct)
  case less
  show ?case
  proof (cases "i < length diff")
    case i: True
    show ?thesis
    proof (cases rule: parse_command_safe [of "length cons1" j "diff ! i"])
      case 1
      with i show ?thesis by (simp add: apply_loop.simps [of cons1 diff i] arr_get_in)
    next
      case (2 c)
      define e where "e = nat (ed_end c)"
      define n where "n = nat j"
      from 2 less.prems have e: "ed_end c = int e" "e \<le> n" "n \<le> length cons1" "ed_start c \<le> int e" "j = int n"
        by (auto simp: e_def n_def)
      define j' where "j' = (if ed_action c = 99 \<or> ed_action c = 100 then ed_start c - 1 else int e)"
      have j': "-1 \<le> j'" "j' \<le> int (length cons1)" using 2 e by (auto simp: j'_def)
      let ?out = "cons2 @ rev (sub cons1 e (n - e))"
      have out: "set ?out \<subseteq> set cons2 \<union> set cons1" using set_sub by fastforce
      note step = apply_loop_command [OF i 2(1) [unfolded e(5)] e(1-4), unfolded Let_def, folded j'_def e(5)]
      show ?thesis
      proof (cases "ed_action c = 97 \<or> ed_action c = 99")
        case True
        from find_dot_safe [of "i + 1" diff] i consider "find_dot diff (i + 1) = Some None"
          | k where "find_dot diff (i + 1) = Some (Some k)" "i + 1 \<le> k" "k \<le> length diff" by auto
        then show ?thesis
        proof cases
          case (2 k)
          have add: "add_reversed diff (k - 1) (k - 1 - i) ?out = Some (?out @ rev (sub diff (Suc i) (k - 1 - i)))"
            using 2 i by (subst add_reversed_eq) auto
          from 2 i have "length diff - (k + 1) < length diff - i" by simp
          from less.hyps [OF this j', of "?out @ rev (sub diff (Suc i) (k - 1 - i))"] step True 2 add out set_sub [of diff]
          show ?thesis by (cases "k - 1 = i") fastforce+
        qed (use step True in simp)
      next
        case False
        from i have "length diff - (i + 1) < length diff - i" by simp
        from less.hyps [OF this j', of ?out] step False out show ?thesis by fastforce
      qed
    qed
  qed (use less.prems in \<open>auto simp: apply_loop.simps [of cons1 diff i]\<close>)
qed

lemma apply_ed_diff_total:
  "\<exists>r. apply_ed_diff cons1 diff diff_starting_line = Some r \<and>
     (case r of None \<Rightarrow> True | Some cons2 \<Rightarrow> set cons2 \<subseteq> set cons1 \<union> set diff)"
proof -
  from apply_loop_safe [of "int (length cons1)" cons1 diff diff_starting_line "[]"]
  consider "apply_loop cons1 diff diff_starting_line (int (length cons1)) [] = Some None"
    | j out where "apply_loop cons1 diff diff_starting_line (int (length cons1)) [] = Some (Some (j, out))"
      "-1 \<le> j" "j \<le> int (length cons1)" "set out \<subseteq> set cons1 \<union> set diff" by auto
  then show ?thesis
  proof cases
    case (2 j out)
    show ?thesis
    proof (cases "j = -1")
      case True
      with 2 show ?thesis by (simp add: apply_ed_diff_def copy_down.simps [of cons1 "-1"])
    next
      case False
      with 2 have "j = int (nat j)" "nat j \<le> length cons1" by auto
      with 2 copy_down_eq [of 0 "nat j" cons1 out] set_sub [of cons1 0 "nat j"] show ?thesis
        by (auto simp: apply_ed_diff_def)
    qed
  qed (simp add: apply_ed_diff_def)
qed

text \<open>
  C23: applying is safe. For every base document, every script of any bytes and every starting line,
  \<open>apply_ed_diff\<close> neither reads outside the command buffer or one of the lists nor runs forever: it
  refuses the script, or it returns a list all of whose lines are lines of the base or of the script.
\<close>

theorem apply_ed_diff_safe:
  "\<exists>r. apply_ed_diff cons1 diff diff_starting_line = Some r \<and>
     (case r of None \<Rightarrow> True | Some cons2 \<Rightarrow> set cons2 \<subseteq> set cons1 \<union> set diff)"
  by (rule apply_ed_diff_total)

end
