(* ===== verification/Consdiff_Script.thy ===== *)
theory Consdiff_Script
  imports Consdiff_Ed Consdiff_Apply
begin

section \<open>Consensus diffs: scripts do what they were generated for\<close>

text \<open>
  The composition of the two halves: the parser reads back the commands the generator prints, and
  running a generated script on its base gives the lines of the target. The statements compare the
  contents of lines, so they also hold for a script that was written out and split again.
\<close>

subsection \<open>Commands are read back\<close>

lemma dec_digits_range: "c \<in> set (dec_digits n) \<Longrightarrow> 48 \<le> unat c \<and> unat c \<le> 57"
proof (induction n rule: dec_digits.induct)
  case (1 n)
  have "unat (word_of_nat (48 + d) :: byte) = 48 + d" if "d < 10" for d
    using that by (simp add: unat_of_nat del: of_nat_add)
  from this [of n] this [of "n mod 10"] 1 show ?case
    by (cases "n < 10") (auto simp: dec_digits.simps [of n] simp del: of_nat_add)
qed

lemma fmt_d_digits: "c \<in> set (fmt_d (int n)) \<Longrightarrow> TOR_ISDIGIT c \<and> c \<noteq> 0"
  using dec_digits_range [of c n] by (auto simp: fmt_d_def ctype_ranges)

lemma fmt_d_nonempty: "fmt_d (int n) \<noteq> []"
  using dec_digits_ok by (simp add: fmt_d_def)

lemma get_linenum_fmt_d:
  assumes "buf = pre @ fmt_d (int n) @ c # rest" "\<not> digit_value c < 10" "int n \<le> INT32_MAX"
  shows "get_linenum buf (length pre) = Some (Some (int n, length pre + length (fmt_d (int n))))"
proof -
  have "c_string_at buf (length pre) = fmt_d (int n) @ takeWhile (\<lambda>c. c \<noteq> 0) (c # rest)"
    using fmt_d_digits [of _ n] by (auto simp: c_string_at_def assms(1))
  moreover have "tor_parse_long (fmt_d (int n) @ takeWhile (\<lambda>c. c \<noteq> 0) (c # rest)) 10 0 INT32_MAX True =
      Some (int n, True, Some (length (fmt_d (int n))))"
    using assms(2,3) by (intro tor_parse_long_next) (auto simp: LONG_MIN_def LONG_MAX_def INT32_MAX_def)
  moreover have "arr_get buf (length pre) = Some (hd (fmt_d (int n)))" "TOR_ISDIGIT (hd (fmt_d (int n)))"
    using fmt_d_nonempty [of n] fmt_d_digits [of "hd (fmt_d (int n))" n]
    by (simp_all add: assms(1) arr_get_def nth_append hd_conv_nth)
  ultimately show ?thesis using assms(3) by (simp add: get_linenum_def is_int_defs INT32_MAX_def)
qed

lemma arr_get_append: "arr_get (xs @ c # ys) (length xs) = Some c"
  by (simp add: arr_get_def)

lemma parse_range_single:
  assumes "int n \<le> INT32_MAX" "\<not> digit_value c < 10" "c \<noteq> 44"
  shows "parse_range len (fmt_d (int n) @ c # rest) =
     Some (Some (int n, int n, False, False, length (fmt_d (int n))))"
  using get_linenum_fmt_d [of _ "[]" n c rest] assms by (simp add: parse_range_def arr_get_append)

lemma parse_range_double:
  assumes "int n \<le> INT32_MAX" "m < n" "\<not> digit_value c < 10"
  shows "parse_range len (fmt_d (int m) @ 44 # fmt_d (int n) @ c # rest) =
     Some (Some (int m, int n, False, True, length (fmt_d (int m)) + 1 + length (fmt_d (int n))))"
proof -
  let ?buf = "fmt_d (int m) @ 44 # fmt_d (int n) @ c # rest"
  have "get_linenum ?buf 0 = Some (Some (int m, length (fmt_d (int m))))"
    using get_linenum_fmt_d [of ?buf "[]" m 44] assms by (simp add: digit_value_def)
  moreover have "get_linenum ?buf (length (fmt_d (int m)) + 1) =
      Some (Some (int n, length (fmt_d (int m)) + 1 + length (fmt_d (int n))))"
    using get_linenum_fmt_d [of ?buf "fmt_d (int m) @ [44]" n c rest] assms by simp
  moreover have "arr_get ?buf (length (fmt_d (int m)) + 1) = Some (hd (fmt_d (int n)))" "hd (fmt_d (int n)) \<noteq> 36"
    using fmt_d_nonempty [of n] fmt_d_digits [of "hd (fmt_d (int n))" n]
    by (auto simp: arr_get_def nth_append hd_conv_nth ctype_ranges)
  ultimately show ?thesis using assms(2) by (simp add: parse_range_def arr_get_append)
qed

lemma parse_range_eof:
  assumes "int m \<le> INT32_MAX"
  shows "parse_range len (fmt_d (int m) @ 44 # 36 # rest) =
     Some (if len \<le> m then None else Some (int m, int len, True, True, length (fmt_d (int m)) + 2))"
proof -
  let ?buf = "fmt_d (int m) @ 44 # 36 # rest"
  have "get_linenum ?buf 0 = Some (Some (int m, length (fmt_d (int m))))"
    using get_linenum_fmt_d [of ?buf "[]" m 44] assms by (simp add: digit_value_def)
  moreover have "arr_get ?buf (length (fmt_d (int m)) + 1) = Some 36"
    using arr_get_append [of "fmt_d (int m) @ [44]" 36 rest] by simp
  ultimately show ?thesis by (simp add: parse_range_def arr_get_append)
qed

lemma parse_command_range:
  assumes "parse_range len (t @ [action, 0]) = Some (Some (a, e, eof, rng, length t))" "e \<le> j"
    "cd_s line = t @ [action]" "length t < 127" "action \<in> {97, 99, 100}" "eof \<longrightarrow> action = 100" "rng \<longrightarrow> action \<noteq> 97"
  shows "parse_command len j line =
     Some (Some \<lparr>ed_start = a, ed_end = e, end_was_eof = eof, had_range = rng, ed_action = action\<rparr>)"
proof -
  have "arr_get (t @ [action, 0]) (length t) = Some action" "arr_get (t @ [action, 0]) (Suc (length t)) = Some 0"
    using arr_get_append [of "t @ [action]" 0] by (simp_all add: arr_get_append)
  with assms show ?thesis by (auto simp: parse_command_def Let_def)
qed

lemma parse_edit:
  assumes "m < n" "n \<le> j" "int n \<le> INT_MAX" "cd_s line = edit_range m n @ [action]" "action \<in> {99, 100}"
  obtains c where "parse_command len (int j) line = Some (Some c)"
    "ed_start c = int m + 1" "ed_end c = int n" "ed_action c = action"
proof -
  have d: "\<not> digit_value action < 10" "action \<noteq> 44" using assms(5) by (auto simp: digit_value_def)
  have l: "length (edit_range m n) < 127" using edit_range_length [OF assms(1,3)] by simp
  have i: "int n \<le> INT32_MAX" "int (Suc m) \<le> INT32_MAX" using assms(1,3) by (simp_all add: INT_MAX_def INT32_MAX_def)
  have "\<exists>rng. parse_range len (edit_range m n @ [action, 0]) = Some (Some (int m + 1, int n, False, rng, length (edit_range m n)))"
  proof (cases "n = m + 1")
    case True
    with parse_range_single [OF i(2) d, of len "[0]"] show ?thesis
      by (intro exI [of _ False]) (simp add: edit_range_def add.commute [of 1])
  next
    case False
    with assms(1) have "Suc m < n" by simp
    from parse_range_double [OF i(1) this d(1), of len "[0]"] False show ?thesis
      by (intro exI [of _ True]) (simp add: edit_range_def bytes_of_def add.commute [of 1])
  qed
  then obtain rng where "parse_range len (edit_range m n @ [action, 0]) =
      Some (Some (int m + 1, int n, False, rng, length (edit_range m n)))" by blast
  from parse_command_range [OF this _ assms(4) l, of "int j"] assms(2,5) that show thesis by auto
qed

lemma parse_append:
  assumes "m \<le> j" "int m \<le> INT_MAX" "cd_s line = fmt_d (int m) @ [97]"
  obtains c where "parse_command len (int j) line = Some (Some c)"
    "ed_start c = int m" "ed_end c = int m" "ed_action c = 97"
proof -
  have r: "parse_range len (fmt_d (int m) @ [97, 0]) = Some (Some (int m, int m, False, False, length (fmt_d (int m))))"
    using assms(2) by (intro parse_range_single) (simp_all add: INT_MAX_def INT32_MAX_def digit_value_def)
  have "length (fmt_d (int m)) < 127" using fmt_d_length [OF assms(2)] by simp
  from parse_command_range [OF r _ assms(3) this, of "int j"] assms(1) that show thesis by simp
qed

lemma parse_trailer:
  assumes "int m < INT_MAX" "cd_s line = fmt_d (int m + 1) @ bytes_of '',$d''"
  shows "len \<le> m + 1 \<Longrightarrow> parse_command len (int j) line = Some None"
    and "m + 1 < len \<Longrightarrow> len \<le> j \<Longrightarrow> \<exists>c. parse_command len (int j) line = Some (Some c) \<and>
      ed_start c = int m + 1 \<and> ed_end c = int len \<and> ed_action c = 100"
proof -
  let ?t = "fmt_d (int m + 1) @ [44, 36]"
  have l: "length ?t < 127" using fmt_d_length [of "Suc m"] assms(1) by (simp add: add.commute [of 1])
  have s: "cd_s line = ?t @ [100]" using assms(2) by (simp add: bytes_of_def)
  have r: "parse_range len (?t @ [100, 0]) = Some (if len \<le> m + 1 then None else Some (int m + 1, int len, True, True, length ?t))"
    using parse_range_eof [of "Suc m" len "[100, 0]"] assms(1) by (simp add: INT_MAX_def INT32_MAX_def add.commute [of 1])
  show "parse_command len (int j) line = Some None" if "len \<le> m + 1"
    using that r s l by (simp add: parse_command_def)
  show "\<exists>c. parse_command len (int j) line = Some (Some c) \<and>
      ed_start c = int m + 1 \<and> ed_end c = int len \<and> ed_action c = 100" if "m + 1 < len" "len \<le> j"
  proof -
    have "parse_range len (?t @ [100, 0]) = Some (Some (int m + 1, int len, True, True, length ?t))" using r that(1) by simp
    from parse_command_range [OF this _ s l, of "int j"] that(2) show ?thesis by simp
  qed
qed

subsection \<open>Running a script\<close>

lemma find_dot_eq:
  "contents (drop i diff) = xs @ DOT # ys \<Longrightarrow> DOT \<notin> set xs \<Longrightarrow> find_dot diff i = Some (Some (i + length xs))"
proof (induction xs arbitrary: i)
  case Nil
  then have "i < length diff" by (cases "i < length diff") auto
  with Nil have "cd_s (diff ! i) = DOT" by (metis append_Nil list.inject list.simps(9) Cons_nth_drop_Suc)
  with \<open>i < length diff\<close> show ?case by (simp add: find_dot.simps [of diff i] arr_get_in)
next
  case (Cons x xs)
  then have i: "i < length diff" by (cases "i < length diff") auto
  with Cons.prems have x: "cd_s (diff ! i) = x" "contents (drop (Suc i) diff) = xs @ DOT # ys"
    by (simp_all flip: Cons_nth_drop_Suc)
  from x(2) have "length (contents (drop (Suc i) diff)) = length (xs @ DOT # ys)" by (rule arg_cong)
  then have "Suc i \<noteq> length diff" by auto
  with Cons.IH [OF x(2)] Cons.prems(2) x(1) i show ?case by (auto simp: find_dot.simps [of diff i] arr_get_in)
qed

lemma contents_sub: "contents (sub xs a n) = sub (contents xs) a n"
  by (simp add: sub_def take_map drop_map)

lemma sub_split: "a \<le> b \<Longrightarrow> b \<le> c \<Longrightarrow> sub xs a (c - a) = sub xs a (b - a) @ sub xs b (c - b)"
  using sub_append [of xs a "b - a" "c - b"] by simp

lemma take_sub: "a \<le> b \<Longrightarrow> take b xs = take a xs @ sub xs a (b - a)"
  using take_add [of a "b - a" xs] by (simp add: sub_def)

text \<open>
  A script for the first \<open>n1\<close> lines, run while the lines up to \<open>j\<close> are still to be copied: the lines
  in front of the new position and the lines put out (in reverse) are the target of the script
  followed by what was pending.
\<close>

definition runs_to :: "cdline list \<Rightarrow> cdline list \<Rightarrow> nat \<Rightarrow> nat \<Rightarrow> cdline list \<Rightarrow> byte list list \<Rightarrow> bool" where
  "runs_to base diff i j out target \<longleftrightarrow>
     (\<exists>j' out'. apply_loop base diff i (int j) out = Some (Some (int j', out')) \<and> j' \<le> length base \<and>
       contents (take j' base) @ rev (contents out') = target)"

lemma runs_to_delete:
  assumes "m < n" "n \<le> j" "j \<le> length base" "int n \<le> INT_MAX" "i < length diff"
    and "cd_s (diff ! i) = edit_range m n @ bytes_of ''d''"
    and "runs_to base diff (i + 1) m (out @ rev (sub base n (j - n))) target"
  shows "runs_to base diff i j out target"
proof -
  from assms(6) have l: "cd_s (diff ! i) = edit_range m n @ [100]" by (simp add: bytes_of_def)
  from parse_edit [OF assms(1,2,4) l] obtain c where c: "parse_command (length base) (int j) (diff ! i) = Some (Some c)"
    "ed_start c = int m + 1" "ed_end c = int n" "ed_action c = 100" by auto
  from apply_loop_command [OF assms(5) c(1,3) assms(2,3), of out] assms(1,7) c show ?thesis
    by (simp add: runs_to_def)
qed

lemma runs_to_add:
  assumes c: "parse_command (length base) (int j) (diff ! i) = Some (Some c)" "ed_end c = int n"
      "ed_action c = 97 \<and> m = n \<or> ed_action c = 99 \<and> ed_start c = int m + 1" "ed_start c \<le> int n"
    and "n \<le> j" "j \<le> length base" "i < length diff"
    and d: "contents (drop (Suc i) diff) = contents adds @ DOT # rest" "DOT \<notin> set (contents adds)" "adds \<noteq> []"
    and run: "\<And>out'. contents out' = contents out @ rev (contents (sub base n (j - n))) @ rev (contents adds) \<Longrightarrow>
      runs_to base diff (i + length adds + 2) m out' target"
  shows "runs_to base diff i j out target"
proof -
  let ?k = "Suc i + length adds"
  have f: "find_dot diff (i + 1) = Some (Some ?k)" using find_dot_eq [OF d(1,2)] by simp
  from d(1) have "length (contents (drop (Suc i) diff)) = length (contents adds @ DOT # rest)" by (rule arg_cong)
  then have k: "?k < length diff" by simp
  have "contents (sub diff (Suc i) (length adds)) = contents adds"
    unfolding sub_def using d(1) by (metis append_eq_conv_conj length_map take_map)
  then have out: "contents (out @ rev (sub base n (j - n)) @ rev (sub diff (Suc i) (length adds))) =
      contents out @ rev (contents (sub base n (j - n))) @ rev (contents adds)" by (simp flip: rev_map)
  have a: "add_reversed diff (?k - 1) (?k - 1 - i) out' = Some (out' @ rev (sub diff (Suc i) (length adds)))" for out'
    using add_reversed_eq [of "length adds" "i + length adds" diff] k by simp
  have "(if ed_action c = 99 \<or> ed_action c = 100 then ed_start c - 1 else int n) = int m" using c(3) by auto
  with apply_loop_command [OF assms(7) c(1,2) assms(5,6) c(4), of out] f a run [OF out] d(3) c(3) show ?thesis
    by (auto simp: runs_to_def Let_def)
qed

lemma ed_script_runs:
  assumes base: "take (length cons1) base = cons1" "length cons1 \<le> length base" "int (length cons1) \<le> INT_MAX"
  shows "ed_script cons1 cons2 n1 n2 script \<Longrightarrow> contents (drop i diff) = contents script \<Longrightarrow> n1 \<le> j \<Longrightarrow> j \<le> length base \<Longrightarrow>
     runs_to base diff i j out (contents (take n2 cons2) @ contents (sub base n1 (j - n1)) @ rev (contents out))"
proof (induction arbitrary: i j out rule: ed_script.induct)
  case start
  then show ?case
    by (auto simp: runs_to_def apply_loop.simps [of base diff i] sub_def)
next
  case (same n1 n2 script)
  have "base ! n1 = cons1 ! n1" using same.hyps base by (metis nth_take)
  with same.hyps same.prems have "contents (sub base n1 (j - n1)) = cd_s (cons2 ! n2) # contents (sub base (Suc n1) (j - Suc n1))"
    using sub_split [of n1 "Suc n1" j base] by (simp add: sub_def [of base n1 "Suc 0"] flip: Cons_nth_drop_Suc)
  with same.IH [of i j out] same.hyps same.prems show ?case by (simp add: take_Suc_conv_app_nth)
next
  case (change m1 m2 script n1 n2 adds)
  have len: "length adds = n2 - m2" using change.hyps by simp
  have i: "i < length diff" using change.prems(1) by (cases "i < length diff") (auto simp: edit_lines_def split: if_splits)
  then have d: "cd_s (diff ! i) # contents (drop (Suc i) diff) = contents (edit_lines m1 n1 adds @ script)"
    using change.prems(1) by (simp flip: Cons_nth_drop_Suc)
  have n: "int n1 \<le> INT_MAX" "m1 \<le> length base" using change.hyps base by linarith+
  have target: "contents (take n2 cons2) = contents (take m2 cons2) @ contents adds"
    using take_sub [of m2 n2 cons2] change.hyps by simp
  show ?case
  proof (cases "adds = []")
    case True
    then have lt: "m1 < n1" "m2 = n2" using change.hyps len by auto
    from d True have cmd: "cd_s (diff ! i) = edit_range m1 n1 @ bytes_of ''d''"
      and rest: "contents (drop (i + 1) diff) = contents script" by (simp_all add: edit_lines_def plain_line_def)
    show ?thesis
      using change.IH [OF rest order_refl n(2), of "out @ rev (sub base n1 (j - n1))"] lt(2)
      by (intro runs_to_delete [OF lt(1) change.prems(2,3) n(1) i cmd]) (simp add: sub_def rev_map)
  next
    case False
    have tail: "contents (drop (Suc i) diff) = contents adds @ DOT # contents script"
      using d False by (simp add: edit_lines_def plain_line_def)
    have "contents (drop (i + length adds + 2) diff) = drop (Suc (length adds)) (contents (drop (Suc i) diff))"
      by (simp add: drop_map add.commute)
    then have "contents (drop (i + length adds + 2) diff) = contents script" by (simp only: tail) simp
    note run = change.IH [OF this order_refl n(2)]
    obtain c where c: "parse_command (length base) (int j) (diff ! i) = Some (Some c)" "ed_end c = int n1"
      "ed_action c = 97 \<and> m1 = n1 \<or> ed_action c = 99 \<and> ed_start c = int m1 + 1" "ed_start c \<le> int n1"
    proof (cases "m1 = n1")
      case True
      with d False have "cd_s (diff ! i) = fmt_d (int n1) @ [97]" by (simp add: edit_lines_def plain_line_def bytes_of_def)
      then obtain c where "parse_command (length base) (int j) (diff ! i) = Some (Some c)"
        "ed_start c = int n1" "ed_end c = int n1" "ed_action c = 97"
        by (rule parse_append [OF change.prems(2) n(1)])
      then show ?thesis using that [of c] True by simp
    next
      case ne: False
      with d False have l: "cd_s (diff ! i) = edit_range m1 n1 @ [99]" by (simp add: edit_lines_def plain_line_def bytes_of_def)
      from ne change.hyps have "m1 < n1" by simp
      then obtain c where "parse_command (length base) (int j) (diff ! i) = Some (Some c)"
        "ed_start c = int m1 + 1" "ed_end c = int n1" "ed_action c = 99"
        by (rule parse_edit [OF _ change.prems(2) n(1) l]) simp
      then show ?thesis using that [of c] \<open>m1 < n1\<close> by simp
    qed
    show ?thesis
    proof (rule runs_to_add [OF c change.prems(2,3) i tail change.hyps(8) False])
      fix out'
      assume "contents out' = contents out @ rev (contents (sub base n1 (j - n1))) @ rev (contents adds)"
      with run [of out'] target show "runs_to base diff (i + length adds + 2) m1 out'
          (contents (take n2 cons2) @ contents (sub base n1 (j - n1)) @ rev (contents out))"
        by (simp add: sub_def [of base m1])
    qed
  qed
qed

subsection \<open>Generating, then applying\<close>

lemma runs_to_apply:
  assumes "runs_to cons1 diff k (length cons1) [] target"
  shows "\<exists>cons2. apply_ed_diff cons1 diff k = Some (Some cons2) \<and> contents cons2 = target"
proof -
  from assms obtain j out where "apply_loop cons1 diff k (int (length cons1)) [] = Some (Some (int j, out))"
    "j \<le> length cons1" "contents (take j cons1) @ rev (contents out) = target" by (auto simp: runs_to_def)
  with copy_down_eq [of 0 j cons1 out] show ?thesis
    by (auto simp: apply_ed_diff_def sub_def rev_map)
qed

text \<open>
  The header lines \<open>hdr\<close> stand for the two lines of a complete diff; they are skipped by the
  starting line.
\<close>

lemma gen_apply:
  assumes ok: "list_all line_ok cons1" "list_all line_ok cons2"
    and len: "int (length cons1) \<le> INT_MAX" "int (length cons2) \<le> INT_MAX"
    and gen: "gen_ed_diff cons1 cons2 = Some (Some ed_diff)"
    and sig: "body_length cons1 + 1 \<noteq> length cons1"
    and diff: "contents diff = hdr @ contents ed_diff"
  shows "\<exists>r. apply_ed_diff cons1 diff (length hdr) = Some (Some r) \<and> contents r = contents cons2"
proof -
  let ?n = "body_length cons1"
  obtain script where s: "ed_diff = trailer_lines cons1 @ script"
    "ed_script (take ?n cons1) cons2 ?n (length cons2) script"
    by (cases rule: gen_ed_diff_ok [OF ok len]) (use gen in auto)
  have n: "take (length (take ?n cons1)) cons1 = take ?n cons1" "length (take ?n cons1) \<le> length cons1"
    "int (length (take ?n cons1)) \<le> INT_MAX" "?n \<le> length cons1" using body_length_le [of cons1] len(1) by auto
  from diff have "drop (length hdr) (contents diff) = contents ed_diff" by simp
  then have d: "contents (drop (length hdr) diff) = contents (trailer_lines cons1) @ contents script"
    by (simp add: s(1) drop_map)
  have "runs_to cons1 diff (length hdr) (length cons1) [] (contents cons2)"
  proof (cases "?n < length cons1")
    case False
    with n(4) have "?n = length cons1" by simp
    with d False ed_script_runs [OF n(1-3) s(2), of "length hdr" diff "length cons1" "[]"] show ?thesis
      by (simp add: trailer_lines_def sub_def)
  next
    case True
    from d True have i: "length hdr < length diff" by (cases "length hdr < length diff") (auto simp: trailer_lines_def)
    with d True have l: "cd_s (diff ! length hdr) = fmt_d (int ?n + 1) @ bytes_of '',$d''"
      and rest: "contents (drop (Suc (length hdr)) diff) = contents script"
      by (simp_all add: trailer_lines_def plain_line_def flip: Cons_nth_drop_Suc)
    from parse_trailer(2) [OF _ l, of "length cons1" "length cons1"] True sig len(1) obtain c where
      c: "parse_command (length cons1) (int (length cons1)) (diff ! length hdr) = Some (Some c)"
      "ed_start c = int ?n + 1" "ed_end c = int (length cons1)" "ed_action c = 100" by auto
    have "runs_to cons1 diff (length hdr + 1) ?n [] (contents cons2)"
      using ed_script_runs [OF n(1-3) s(2), of "length hdr + 1" diff ?n "[]"] rest n(4) by (simp add: sub_def)
    with apply_loop_command [OF i c(1,3) order_refl order_refl, of "[]"] c(2,4) True show ?thesis
      by (simp add: runs_to_def sub_def)
  qed
  then show ?thesis by (rule runs_to_apply)
qed

lemma gen_apply_one_signature_line:
  assumes ok: "list_all line_ok cons1" "list_all line_ok cons2"
    and len: "int (length cons1) \<le> INT_MAX" "int (length cons2) \<le> INT_MAX"
    and gen: "gen_ed_diff cons1 cons2 = Some (Some ed_diff)"
    and sig: "body_length cons1 + 1 = length cons1"
  shows "apply_ed_diff cons1 ed_diff 0 = Some None"
proof -
  let ?n = "body_length cons1"
  obtain script where s: "ed_diff = trailer_lines cons1 @ script"
    by (cases rule: gen_ed_diff_ok [OF ok len]) (use gen in auto)
  then have l: "0 < length ed_diff" "cd_s (ed_diff ! 0) = fmt_d (int ?n + 1) @ bytes_of '',$d''"
    using sig by (simp_all add: trailer_lines_def plain_line_def)
  from parse_trailer(1) [OF _ l(2), of "length cons1" "length cons1"] sig len(1) have
    "parse_command (length cons1) (int (length cons1)) (ed_diff ! 0) = Some None" by simp
  with l(1) show ?thesis
    by (simp add: apply_ed_diff_def apply_loop.simps [of cons1 ed_diff 0] arr_get_in)
qed

text \<open>
  C20: a generated script is correct. For two documents of well-formed lines \<open>gen_ed_diff\<close> ends without
  a failed assertion or an access outside its arrays. Whenever it returns a script, applying that
  script to the base gives the lines of the target; the one exception is a base whose signatures are
  a single last line, where the script is refused by \<open>apply_ed_diff\<close>.
\<close>

theorem gen_ed_diff_correct:
  assumes "list_all line_ok cons1" "list_all line_ok cons2"
    and "int (length cons1) \<le> INT_MAX" "int (length cons2) \<le> INT_MAX"
  shows "\<exists>r. gen_ed_diff cons1 cons2 = Some r \<and>
    (case r of
       None \<Rightarrow> True
     | Some ed_diff \<Rightarrow>
         if body_length cons1 + 1 = length cons1 then apply_ed_diff cons1 ed_diff 0 = Some None
         else \<exists>ed_cons2. apply_ed_diff cons1 ed_diff 0 = Some (Some ed_cons2) \<and> contents ed_cons2 = contents cons2)"
proof (cases rule: gen_ed_diff_ok [OF assms])
  case (2 script)
  with gen_apply [OF assms 2(1), of "trailer_lines cons1 @ script" "[]"] gen_apply_one_signature_line [OF assms 2(1)]
  show ?thesis by simp
qed simp

text \<open>
  C21: a script is always found. For documents of well-formed lines with at most \<open>MAX_LINE_COUNT\<close>
  lines, router entries in strictly ascending order of their identities and no target line that
  consists of a single dot, \<open>gen_ed_diff\<close> does return a script.
\<close>

theorem gen_ed_diff_succeeds:
  assumes "list_all line_ok cons1" "list_all line_ok cons2" "int (length cons1) \<le> MAX_LINE_COUNT" "diffable cons1 cons2"
  shows "\<exists>ed_diff. gen_ed_diff cons1 cons2 = Some (Some ed_diff)"
proof -
  from assms have "int (length cons1) \<le> INT_MAX" "int (length cons2) \<le> INT_MAX"
    by (simp_all add: MAX_LINE_COUNT_def INT_MAX_def diffable_def)
  from gen_ed_diff_ok [OF assms(1,2) this] assms(4) show ?thesis by metis
qed

text \<open>
  The example: two documents with router entries, whose bodies differ in two places; the base ends
  with two lines of signatures.
\<close>

definition example_base :: "cdline list" where
  "example_base = map text_line [''x'', ''r a AB'', ''r b AC'', ''directory-signature 1'', ''s'']"

definition example_target :: "cdline list" where
  "example_target = map text_line [''y'', ''r a AB'', ''p'', ''r b AC'']"

lemma example_ok: "list_all line_ok example_base" "list_all line_ok example_target"
  by (simp_all add: example_base_def example_target_def line_ok_def text_line_def bytes_of_def UINT32_MAX_def)

lemma example_table:
  "base64_compare_table ! 65 = 0" "base64_compare_table ! 66 = 1" "base64_compare_table ! 67 = 2" "base64_compare_table ! 10 = 255"
  by (simp_all add: base64_compare_table_def NOT_VALID_BASE64_def)

lemma memchr_numeral:
  "memchr s p c (numeral k) = do { x \<leftarrow> arr_get s p; (if x = c then Some (Some p) else memchr s (p + 1) c (pred_numeral k)) }"
  by (simp add: numeral_eq_Suc)

lemma example_ids:
  "get_id_hash (text_line ''r a AB'') = Some (Some \<lparr>cd_s = [65, 66], cd_next = Some 10\<rparr>)"
  "get_id_hash (text_line ''r b AC'') = Some (Some \<lparr>cd_s = [65, 67], cd_next = Some 10\<rparr>)"
  by (simp_all add: get_id_hash_def text_line_def bytes_of_def memchr_numeral arr_get_def
      hash_end_loop.simps [of "\<lparr>cd_s = _, cd_next = _\<rparr>"] line_byte_def NOT_VALID_BASE64_def
      example_table UINT32_MAX_def Let_def)

lemma example_entries:
  "is_valid_router_entry (text_line ''r a AB'') = Some True" "is_valid_router_entry (text_line ''r b AC'') = Some True"
  "is_valid_router_entry (text_line ''x'') = Some False" "is_valid_router_entry (text_line ''y'') = Some False"
  "is_valid_router_entry (text_line ''p'') = Some False"
  by (simp_all add: is_valid_router_entry_def example_ids) (simp_all add: text_line_def bytes_of_def)

lemma example_order:
  "base64cmp (Some \<lparr>cd_s = [65, 67], cd_next = Some 10\<rparr>) (Some \<lparr>cd_s = [65, 66], cd_next = Some 10\<rparr>) = Some 1"
  "base64cmp (Some h) None = Some 1"
  by (simp_all add: base64cmp_def base64cmp_loop.simps [of "\<lparr>cd_s = _, cd_next = _\<rparr>"] line_byte_def
      NOT_VALID_BASE64_def example_table Let_def)

lemma example_body: "body_length example_base = 3"
  by (simp add: body_length_def example_base_def text_line_def START_OF_SIGNATURES_SECTION_def bytes_of_def)

lemma example_diffable: "diffable example_base example_target"
proof -
  have "take 3 example_base = map text_line [''x'', ''r a AB'', ''r b AC'']" by (simp add: example_base_def)
  moreover have "DOT \<notin> set (contents example_target)" by (simp add: example_target_def text_line_def bytes_of_def)
  ultimately show ?thesis
    by (simp add: diffable_def example_body example_target_def example_entries example_ids example_order MAX_LINE_COUNT_def)
qed

theorem gen_ed_diff_succeeds_witness:
  "\<exists>ed_diff. gen_ed_diff example_base example_target = Some (Some ed_diff)"
  by (rule gen_ed_diff_succeeds [OF example_ok _ example_diffable]) (simp add: example_base_def MAX_LINE_COUNT_def)

theorem gen_ed_diff_correct_witness:
  "\<exists>ed_diff ed_cons2. gen_ed_diff example_base example_target = Some (Some ed_diff) \<and>
     apply_ed_diff example_base ed_diff 0 = Some (Some ed_cons2) \<and>
     contents ed_cons2 = map bytes_of [''y'', ''r a AB'', ''p'', ''r b AC'']"
proof -
  have len: "int (length example_base) \<le> INT_MAX" "int (length example_target) \<le> INT_MAX"
    by (simp_all add: example_base_def example_target_def INT_MAX_def)
  obtain ed_diff where "gen_ed_diff example_base example_target = Some (Some ed_diff)"
    by (cases rule: gen_ed_diff_ok [OF example_ok len]) (use example_diffable in auto)
  moreover have "contents example_target = map bytes_of [''y'', ''r a AB'', ''p'', ''r b AC'']"
    "length example_base = 5" by (simp_all add: example_target_def example_base_def text_line_def)
  ultimately show ?thesis using gen_ed_diff_correct [OF example_ok len] example_body by auto
qed

end
