(* ===== verification/Consdiff.thy ===== *)
theory Consdiff
  imports Consdiff_Script
begin

section \<open>Consensus diffs: documents and digests, \<^verbatim>\<open>feature/dircommon/consdiff.c\<close>\<close>

text \<open>
  The outer functions of the diff code: splitting documents into lines and joining them,
  the digests in the header of a diff, generation and application on whole documents, and the part
  of a document its digest covers (\<^verbatim>\<open>feature/dirparse/sigcommon.c\<close> and \<^verbatim>\<open>ns_parse.c\<close>).
  The hash functions of the cryptographic library are parameters; \<open>None\<close> is their failure. A
  document is the list of its bytes, its length argument the length of the list. The parameter
  \<open>fresh\<close> gives the contents of newly allocated memory. A returned text ends with its NUL. The smartlists
  of lines are lists, without the assertion of \<open>smartlist_add\<close> that there are at most \<open>INT_MAX\<close>
  lines; the memory of a document of that many lines is not considered either.
\<close>

definition ns_diff_version :: "byte list" where
  "ns_diff_version = bytes_of ''network-status-diff-version 1''"

definition hash_token :: "byte list" where
  "hash_token = bytes_of ''hash''"

definition DIGEST256_LEN :: nat where
  "DIGEST256_LEN = 32"

definition HEX_DIGEST256_LEN :: nat where
  "HEX_DIGEST256_LEN = 64"

subsection \<open>The signed part of a document\<close>

text \<open>The offsets of the first byte to hash and of the byte behind the last; \<open>None\<close> for \<open>-1\<close>.\<close>

definition router_get_hash_impl_helper ::
    "byte list \<Rightarrow> byte list \<Rightarrow> byte list \<Rightarrow> byte \<Rightarrow> (nat \<times> nat) option option" where
  "router_get_hash_impl_helper s start_str end_str end_c =
     do {
       r \<leftarrow> tor_memstr s start_str;
       (case r of
          None \<Rightarrow> Some None
        | Some start \<Rightarrow>
            do {
              bol \<leftarrow> (if start \<noteq> 0 then map_option (\<lambda>c. c = 10) (arr_get s (start - 1)) else Some True);
              (if \<not> bol then Some None
               else
                 do {
                   r \<leftarrow> tor_memstr (drop (start + length start_str) s) end_str;
                   (case r of
                      None \<Rightarrow> Some None
                    | Some e \<Rightarrow>
                        do {
                          let en = start + length start_str + e;
                          r \<leftarrow> memchr s (en + length end_str) end_c (length s - en - length end_str);
                          (case r of
                             None \<Rightarrow> Some None
                           | Some q \<Rightarrow> Some (Some (start, q + 1)))
                        })
                 })
            })
     }"

datatype digest_algorithm = DIGEST_SHA1 | DIGEST_SHA256 | DIGEST_SHA512 | DIGEST_SHA3_256 | DIGEST_SHA3_512

definition router_compute_hash_final ::
    "(byte list \<Rightarrow> byte list option) \<Rightarrow> (byte list \<Rightarrow> digest_algorithm \<Rightarrow> byte list option) \<Rightarrow>
     byte list \<Rightarrow> digest_algorithm \<Rightarrow> byte list option" where
  "router_compute_hash_final crypto_digest crypto_digest256 m alg =
     (if alg = DIGEST_SHA1 then crypto_digest m else crypto_digest256 m alg)"

definition router_get_hash_impl ::
    "(byte list \<Rightarrow> byte list option) \<Rightarrow> (byte list \<Rightarrow> digest_algorithm \<Rightarrow> byte list option) \<Rightarrow>
     byte list \<Rightarrow> byte list \<Rightarrow> byte list \<Rightarrow> byte \<Rightarrow> digest_algorithm \<Rightarrow> byte list option option" where
  "router_get_hash_impl crypto_digest crypto_digest256 s start_str end_str end_c alg =
     do {
       r \<leftarrow> router_get_hash_impl_helper s start_str end_str end_c;
       (case r of
          None \<Rightarrow> Some None
        | Some (start, en) \<Rightarrow>
            do {
              m \<leftarrow> arr_slice s start (en - start);
              Some (router_compute_hash_final crypto_digest crypto_digest256 m alg)
            })
     }"

definition router_get_networkstatus_v3_signed_boundaries :: "byte list \<Rightarrow> (nat \<times> nat) option option" where
  "router_get_networkstatus_v3_signed_boundaries s =
     router_get_hash_impl_helper s (bytes_of ''network-status-version'') (10 # bytes_of ''directory-signature'') 32"

definition router_get_networkstatus_v3_sha3_as_signed ::
    "(byte list \<Rightarrow> digest_algorithm \<Rightarrow> byte list option) \<Rightarrow> byte list \<Rightarrow> byte list option option" where
  "router_get_networkstatus_v3_sha3_as_signed crypto_digest256 s =
     do {
       r \<leftarrow> router_get_networkstatus_v3_signed_boundaries s;
       let (start, en) = (case r of None \<Rightarrow> (0, length s) | Some b \<Rightarrow> b);
       m \<leftarrow> arr_slice s start (en - start);
       Some (crypto_digest256 m DIGEST_SHA3_256)
     }"

definition consensus_compute_digest ::
    "(byte list \<Rightarrow> digest_algorithm \<Rightarrow> byte list option) \<Rightarrow> byte list \<Rightarrow> byte list option" where
  "consensus_compute_digest crypto_digest256 cons = crypto_digest256 cons DIGEST_SHA3_256"

definition consensus_compute_digest_as_signed ::
    "(byte list \<Rightarrow> digest_algorithm \<Rightarrow> byte list option) \<Rightarrow> byte list \<Rightarrow> byte list option option" where
  "consensus_compute_digest_as_signed crypto_digest256 cons =
     router_get_networkstatus_v3_sha3_as_signed crypto_digest256 cons"

definition consensus_digest_eq :: "byte list \<Rightarrow> byte list \<Rightarrow> bool" where
  "consensus_digest_eq d1 d2 \<longleftrightarrow> take DIGEST256_LEN d1 = take DIGEST256_LEN d2"

subsection \<open>Lines of a document\<close>

definition CONSENSUS_LINE_MAX_LEN :: nat where
  "CONSENSUS_LINE_MAX_LEN = push_bit 20 1"

function split_lines_loop :: "byte list \<Rightarrow> nat \<Rightarrow> cdline list \<Rightarrow> cdline list option option" where
  "split_lines_loop s p out =
     (if p < length s then
        do {
          r \<leftarrow> memchr s p 10 (length s - p);
          (case r of
             None \<Rightarrow> Some None
           | Some eol \<Rightarrow>
               if CONSENSUS_LINE_MAX_LEN < eol - p then Some None
               else split_lines_loop s (eol + 1)
                      (out @ [\<lparr>cd_s = take ((eol - p) mod 4294967296) (drop p s),
                               cd_next = arr_get s (p + (eol - p) mod 4294967296)\<rparr>]))
        }
      else Some (Some out))"
  by pat_completeness auto
termination
  by (relation "measure (\<lambda>(s, p, out). length s - p)") (auto dest!: memchr_Some)

definition consensus_split_lines :: "byte list \<Rightarrow> cdline list option option" where
  "consensus_split_lines s = split_lines_loop s 0 []"

fun join_lines_loop :: "cdline list \<Rightarrow> byte list \<Rightarrow> nat \<Rightarrow> (byte list \<times> nat) option" where
  "join_lines_loop [] result out = Some (result, out)"
| "join_lines_loop (cdline # inp) result out =
     do {
       result \<leftarrow> arr_blit result out (cd_s cdline);
       let out = out + length (cd_s cdline);
       result \<leftarrow> arr_set result out 10;
       join_lines_loop inp result (out + 1)
     }"

definition consensus_join_lines :: "(nat \<Rightarrow> byte list) \<Rightarrow> cdline list \<Rightarrow> byte list option" where
  "consensus_join_lines fresh inp =
     do {
       let n = fold (\<lambda>cdline n. n + (length (cd_s cdline) + 1)) inp 0;
       let n = n + 1;
       let result = fresh n;
       (result, out) \<leftarrow> join_lines_loop inp result 0;
       result \<leftarrow> arr_set result out 0;
       let out = out + 1;
       guard (out = n);
       Some result
     }"

subsection \<open>Diffs with their header\<close>

fun same_lines :: "cdline list \<Rightarrow> cdline list \<Rightarrow> nat \<Rightarrow> bool option" where
  "same_lines [] ed_cons2 i = Some True"
| "same_lines (line1 # cons2) ed_cons2 i =
     do {
       line2 \<leftarrow> arr_get ed_cons2 i;
       (if \<not> lines_eq line1 line2 then Some False else same_lines cons2 ed_cons2 (i + 1))
     }"

text \<open>The string in a buffer.\<close>

definition c_string :: "byte list \<Rightarrow> byte list" where
  "c_string buf = takeWhile (\<lambda>c. c \<noteq> 0) buf"

definition consdiff_gen_diff ::
    "cdline list \<Rightarrow> cdline list \<Rightarrow> byte list \<Rightarrow> byte list \<Rightarrow> cdline list option option" where
  "consdiff_gen_diff cons1 cons2 digests1 digests2 =
     do {
       r \<leftarrow> gen_ed_diff cons1 cons2;
       (case r of
          None \<Rightarrow> Some None
        | Some ed_diff \<Rightarrow>
            do {
              r \<leftarrow> apply_ed_diff cons1 ed_diff 0;
              (case r of
                 None \<Rightarrow> Some None
               | Some ed_cons2 \<Rightarrow>
                   do {
                     cons2_eq \<leftarrow> (if length cons2 = length ed_cons2 then same_lines cons2 ed_cons2 0 else Some False);
                     (if \<not> cons2_eq then Some None
                      else
                        do {
                          cons1_hash_hex \<leftarrow> base16_encode (replicate (HEX_DIGEST256_LEN + 1) 0) digests1;
                          cons2_hash_hex \<leftarrow> base16_encode (replicate (HEX_DIGEST256_LEN + 1) 0) digests2;
                          let result = [];
                          (buf, n) \<leftarrow> tor_snprintf 160 ns_diff_version;
                          let result = smartlist_add_linecpy result buf;
                          (buf, n) \<leftarrow> tor_snprintf 160 (hash_token @ [32] @ c_string cons1_hash_hex @ [32] @ c_string cons2_hash_hex);
                          let result = smartlist_add_linecpy result buf;
                          let result = result @ ed_diff;
                          Some (Some result)
                        })
                   })
            })
     }"

text \<open>The two digests, or \<open>None\<close> for the result 1.\<close>

definition consdiff_get_digests :: "cdline list \<Rightarrow> (byte list \<times> byte list) option option" where
  "consdiff_get_digests diff =
     (if length diff < 2 then Some None
      else
        do {
          format \<leftarrow> arr_get diff 0;
          known \<leftarrow> line_str_eq format ns_diff_version;
          (if \<not> known then Some None
           else
             do {
               line2 \<leftarrow> arr_get diff 1;
               let h = c_string (cd_s line2 @ [0]);
               (hash_words, n) \<leftarrow> smartlist_split_string smartlist_new h (Some (bytes_of '' '')) 0 4;
               (if num_used hash_words \<noteq> 3 then Some None
                else
                  do {
                    w0 \<leftarrow> smartlist_get hash_words 0;
                    token \<leftarrow> w0;
                    (if token \<noteq> hash_token then Some None
                     else
                       do {
                         w1 \<leftarrow> smartlist_get hash_words 1;
                         w2 \<leftarrow> smartlist_get hash_words 2;
                         cons1_hash_hex \<leftarrow> w1;
                         cons2_hash_hex \<leftarrow> w2;
                         (if length cons1_hash_hex \<noteq> HEX_DIGEST256_LEN \<or> length cons2_hash_hex \<noteq> HEX_DIGEST256_LEN
                          then Some None
                          else
                            do {
                              (cons1_hash, r1) \<leftarrow> base16_decode (replicate DIGEST256_LEN 0) cons1_hash_hex;
                              (if r1 \<noteq> int DIGEST256_LEN then Some None
                               else
                                 do {
                                   (cons2_hash, r2) \<leftarrow> base16_decode (replicate DIGEST256_LEN 0) cons2_hash_hex;
                                   (if r2 \<noteq> int DIGEST256_LEN then Some None
                                    else Some (Some (cons1_hash, cons2_hash)))
                                 })
                            })
                       })
                  })
             })
        })"

definition consdiff_apply_diff ::
    "(byte list \<Rightarrow> digest_algorithm \<Rightarrow> byte list option) \<Rightarrow> (nat \<Rightarrow> byte list) \<Rightarrow>
     cdline list \<Rightarrow> cdline list \<Rightarrow> byte list \<Rightarrow> byte list option option" where
  "consdiff_apply_diff crypto_digest256 fresh cons1 diff digests1 =
     do {
       r \<leftarrow> consdiff_get_digests diff;
       (case r of
          None \<Rightarrow> Some None
        | Some (e_cons1_hash, e_cons2_hash) \<Rightarrow>
            if \<not> consensus_digest_eq digests1 e_cons1_hash then Some None
            else
              do {
                r \<leftarrow> apply_ed_diff cons1 diff 2;
                (case r of
                   None \<Rightarrow> Some None
                 | Some cons2 \<Rightarrow>
                     do {
                       cons2_str \<leftarrow> consensus_join_lines fresh cons2;
                       (case consensus_compute_digest crypto_digest256 (c_string cons2_str) of
                          None \<Rightarrow> Some None
                        | Some cons2_digests \<Rightarrow>
                            if \<not> consensus_digest_eq cons2_digests e_cons2_hash then Some None
                            else Some (Some cons2_str))
                     })
              })
     }"

subsection \<open>Whole documents\<close>

definition consensus_diff_generate ::
    "(byte list \<Rightarrow> digest_algorithm \<Rightarrow> byte list option) \<Rightarrow> (nat \<Rightarrow> byte list) \<Rightarrow>
     byte list \<Rightarrow> byte list \<Rightarrow> byte list option option" where
  "consensus_diff_generate crypto_digest256 fresh cons1 cons2 =
     do {
       r1 \<leftarrow> consensus_compute_digest_as_signed crypto_digest256 cons1;
       let r2 = consensus_compute_digest crypto_digest256 cons2;
       (case (r1, r2) of
          (Some d1, Some d2) \<Rightarrow>
            do {
              l1 \<leftarrow> consensus_split_lines cons1;
              (case l1 of
                 None \<Rightarrow> Some None
               | Some lines1 \<Rightarrow>
                   do {
                     l2 \<leftarrow> consensus_split_lines cons2;
                     (case l2 of
                        None \<Rightarrow> Some None
                      | Some lines2 \<Rightarrow>
                          do {
                            r \<leftarrow> consdiff_gen_diff lines1 lines2 d1 d2;
                            (case r of
                               None \<Rightarrow> Some None
                             | Some result_lines \<Rightarrow> map_option Some (consensus_join_lines fresh result_lines))
                          })
                   })
            }
        | _ \<Rightarrow> Some None)
     }"

definition consensus_diff_apply ::
    "(byte list \<Rightarrow> digest_algorithm \<Rightarrow> byte list option) \<Rightarrow> (nat \<Rightarrow> byte list) \<Rightarrow>
     byte list \<Rightarrow> byte list \<Rightarrow> byte list option option" where
  "consensus_diff_apply crypto_digest256 fresh consensus diff =
     do {
       r1 \<leftarrow> consensus_compute_digest_as_signed crypto_digest256 consensus;
       (case r1 of
          None \<Rightarrow> Some None
        | Some d1 \<Rightarrow>
            do {
              l1 \<leftarrow> consensus_split_lines consensus;
              (case l1 of
                 None \<Rightarrow> Some None
               | Some lines1 \<Rightarrow>
                   do {
                     l2 \<leftarrow> consensus_split_lines diff;
                     (case l2 of
                        None \<Rightarrow> Some None
                      | Some lines2 \<Rightarrow> consdiff_apply_diff crypto_digest256 fresh lines1 lines2 d1)
                   })
            })
     }"

definition looks_like_a_consensus_diff :: "byte list \<Rightarrow> bool" where
  "looks_like_a_consensus_diff document \<longleftrightarrow>
     length ns_diff_version \<le> length document \<and> take (length ns_diff_version) document = ns_diff_version"

declare split_lines_loop.simps [simp del]

subsection \<open>Splitting and joining lines\<close>

definition joined :: "byte list list \<Rightarrow> byte list" where
  "joined xs = concat (map (\<lambda>x. x @ [10]) xs)"

definition line_text_ok :: "byte list \<Rightarrow> bool" where
  "line_text_ok x \<longleftrightarrow> 10 \<notin> set x \<and> length x \<le> CONSENSUS_LINE_MAX_LEN"

abbreviation split_line :: "byte list \<Rightarrow> cdline" where
  "split_line x \<equiv> \<lparr>cd_s = x, cd_next = Some 10\<rparr>"

lemma joined_simps [simp]: "joined [] = []" "joined (x # xs) = x @ 10 # joined xs" "joined (xs @ ys) = joined xs @ joined ys"
  by (simp_all add: joined_def)

lemma memchr_first:
  assumes "drop p s = x @ c # rest" "c \<notin> set x"
  shows "memchr s p c (length s - p) = Some (Some (p + length x))"
proof (rule memchr_found [OF _ assms(2)])
  have "take (length s - p) (drop p s) = drop p s" by simp
  then show "take (length s - p) (drop p s) = x @ c # rest" using assms(1) by simp
qed

lemma split_lines_loop_step:
  assumes "drop p s = x @ 10 # rest" "line_text_ok x"
  shows "split_lines_loop s p out = split_lines_loop s (p + length x + 1) (out @ [split_line x])"
proof -
  have p: "p < length s" using assms(1) by (cases "p < length s") auto
  have "length x mod 4294967296 = length x" using assms(2) by (simp add: line_text_ok_def CONSENSUS_LINE_MAX_LEN_def)
  moreover have "take (length x) (drop p s) = x" using assms(1) by simp
  moreover have "p + length x < length s" "s ! (p + length x) = 10"
    using arg_cong [OF assms(1), of length] arg_cong [OF assms(1), of "\<lambda>l. l ! length x"] p by auto
  ultimately show ?thesis
    using assms memchr_first [OF assms(1)] p
    by (simp add: split_lines_loop.simps [of s p] line_text_ok_def arr_get_in)
qed

lemma split_lines_loop_joined:
  "list_all line_text_ok xs \<Longrightarrow> drop p s = joined xs \<Longrightarrow> split_lines_loop s p out = Some (Some (out @ map split_line xs))"
proof (induction xs arbitrary: p out)
  case Nil
  then show ?case by (simp add: split_lines_loop.simps [of s p])
next
  case (Cons x xs)
  then have d: "drop p s = x @ 10 # joined xs" by simp
  have "drop (p + length x + 1) s = drop (length x + 1) (drop p s)" by (simp add: add.commute)
  then have "drop (p + length x + 1) s = joined xs" by (simp only: d) simp
  with Cons.IH [of "p + length x + 1" "out @ [split_line x]"] split_lines_loop_step [OF d, of out] Cons.prems(1) show ?case by simp
qed

lemma split_joined: "list_all line_text_ok xs \<Longrightarrow> consensus_split_lines (joined xs) = Some (Some (map split_line xs))"
  using split_lines_loop_joined [of xs 0 "joined xs" "[]"] by (simp add: consensus_split_lines_def)

text \<open>The loop never fails, and what it returns is the only way to cut the rest of the text.\<close>

lemma split_lines_loop_total:
  "\<exists>r. split_lines_loop s p out = Some r \<and>
     (\<forall>ls. r = Some ls \<longrightarrow> (\<exists>xs. ls = out @ map split_line xs \<and> list_all line_text_ok xs \<and> drop p s = joined xs))"
proof (induction "length s - p" arbitrary: p out rule: less_induct)
  case less
  show ?case
  proof (cases "p < length s")
    case True
    then have "p + (length s - p) \<le> length s" by simp
    then show ?thesis
    proof (cases rule: memchr_cases [where c = 10])
      case (found q)
      define x where "x = take (q - p) (drop p s)"
      have q: "q < length s" "length x = q - p" using found(2,3) True by (simp_all add: x_def)
      have "drop q s = 10 # drop (q + 1) s" using q(1) found(4) by (simp flip: Cons_nth_drop_Suc)
      then have d: "drop p s = x @ 10 # drop (q + 1) s"
        using found(2) append_take_drop_id [of "q - p" "drop p s"] by (simp add: x_def)
      have no: "10 \<notin> set x" using found(2,3,5) by (auto simp: x_def in_set_conv_nth)
      show ?thesis
      proof (cases "CONSENSUS_LINE_MAX_LEN < q - p")
        case True
        with found \<open>p < length s\<close> show ?thesis by (simp add: split_lines_loop.simps [of s p])
      next
        case False
        with no q have ok: "line_text_ok x" by (simp add: line_text_ok_def)
        have next_p: "p + length x + 1 = q + 1" using q found(2) by simp
        from True q found(2) have "length s - (q + 1) < length s - p" by simp
        from less [OF this, of "out @ [split_line x]"] obtain r where
          r: "split_lines_loop s (q + 1) (out @ [split_line x]) = Some r"
          "\<And>ls. r = Some ls \<Longrightarrow> \<exists>xs. ls = (out @ [split_line x]) @ map split_line xs \<and> list_all line_text_ok xs \<and> drop (q + 1) s = joined xs"
          by blast
        have "\<exists>xs. ls = out @ map split_line xs \<and> list_all line_text_ok xs \<and> drop p s = joined xs" if ls: "r = Some ls" for ls
        proof -
          from r(2) [OF ls] obtain xs where "ls = out @ map split_line (x # xs)" "list_all line_text_ok xs"
            "drop (q + 1) s = joined xs" by auto
          with ok d show ?thesis by (intro exI [of _ "x # xs"]) simp
        qed
        with split_lines_loop_step [OF d ok, of out] r(1) next_p show ?thesis by auto
      qed
    qed (use True in \<open>simp add: split_lines_loop.simps [of s p]\<close>)
  qed (auto simp: split_lines_loop.simps [of s p] intro!: exI [of _ "[]"])
qed

lemma split_lines_cases:
  obtains "consensus_split_lines s = Some None"
  | xs where "consensus_split_lines s = Some (Some (map split_line xs))" "s = joined xs" "list_all line_text_ok xs"
  using split_lines_loop_total [of s 0 "[]"] by (auto simp: consensus_split_lines_def) (metis (no_types, lifting) option.exhaust)

lemma split_lines_total: "\<exists>r. consensus_split_lines s = Some r"
  using split_lines_loop_total [of s 0 "[]"] by (auto simp: consensus_split_lines_def)

lemma join_size: "fold (\<lambda>cdline n. n + (length (cd_s cdline) + 1)) inp n = n + length (joined (contents inp))"
  by (induction inp arbitrary: n) auto

lemma join_lines_loop_eq:
  "length (joined (contents inp)) \<le> length rest \<Longrightarrow>
     join_lines_loop inp (pre @ rest) (length pre) =
       Some (pre @ joined (contents inp) @ drop (length (joined (contents inp))) rest, length pre + length (joined (contents inp)))"
proof (induction inp arbitrary: pre rest)
  case (Cons l inp)
  define x where "x = cd_s l"
  define rest' where "rest' = drop (length x + 1) rest"
  have "length x < length rest" using Cons.prems by (simp add: x_def)
  then have "rest = take (length x) rest @ rest ! length x # rest'" by (simp add: rest'_def id_take_nth_drop)
  then obtain a c where r: "rest = a @ c # rest'" "length a = length x" using \<open>length x < length rest\<close>
    by (metis (no_types, lifting) length_take less_imp_le min.absorb2)
  have "arr_blit (pre @ a @ c # rest') (length pre) x = Some (pre @ x @ c # rest')"
    using r(2) by (simp add: arr_blit_in)
  moreover have "arr_set (pre @ x @ c # rest') (length pre + length x) 10 = Some (pre @ x @ 10 # rest')"
    using arr_set_in [of "length pre + length x" "pre @ x @ c # rest'" 10] by (simp add: list_update_append)
  ultimately show ?case using Cons.IH [of rest' "pre @ x @ [10]"] Cons.prems r
    by (simp flip: x_def)
qed simp

lemma consensus_join_lines_eq:
  assumes "\<And>n. length (fresh n) = n"
  shows "consensus_join_lines fresh inp = Some (joined (contents inp) @ [0])"
proof -
  let ?t = "joined (contents inp)"
  define d where "d = drop (length ?t) (fresh (length ?t + 1))"
  have "length d = 1" using assms by (simp add: d_def)
  then obtain z where z: "d = [z]" by (cases d) auto
  have "join_lines_loop inp (fresh (length ?t + 1)) 0 = Some (?t @ [z], length ?t)"
    using join_lines_loop_eq [of inp "fresh (length ?t + 1)" "[]"] assms z by (simp add: d_def)
  then show ?thesis
    using join_size [of inp 0] arr_set_in [of "length ?t" "?t @ [z]" 0] by (simp add: consensus_join_lines_def)
qed

subsection \<open>The header\<close>

definition header_text :: "byte list \<Rightarrow> byte list \<Rightarrow> byte list" where
  "header_text d1 d2 = hash_token @ [32] @ hex_of_bytes d1 @ [32] @ hex_of_bytes d2"

lemma hex_of_bytes_chars: "c \<in> set (hex_of_bytes xs) \<Longrightarrow> c \<noteq> 0 \<and> c \<noteq> 10 \<and> c \<noteq> 32"
proof (induction xs)
  case (Cons x xs)
  have "c \<in> set hex_digits \<Longrightarrow> c \<noteq> 0 \<and> c \<noteq> 10 \<and> c \<noteq> 32" by (auto simp: hex_digits_def bytes_of_def)
  moreover have "hex_digits ! unat (drop_bit 4 x) \<in> set hex_digits" "hex_digits ! unat (x AND 15) \<in> set hex_digits"
    using nibble_bounds [of x] by (auto intro!: nth_mem)
  ultimately show ?case using Cons by (auto simp: hex_of_byte_def)
qed simp

lemma c_string_eq: "0 \<notin> set x \<Longrightarrow> c_string (x @ 0 # rest) = x"
  by (induction x) (auto simp: c_string_def)

lemma header_words: "header_text d1 d2 = join_with [32] [hash_token, hex_of_bytes d1, hex_of_bytes d2]"
  by (simp add: header_text_def join_with_Cons)

lemma consdiff_get_digests_header:
  assumes "length d1 = DIGEST256_LEN" "length d2 = DIGEST256_LEN" "2 \<le> length diff"
    "cd_s (diff ! 0) = ns_diff_version" "cd_s (diff ! 1) = header_text d1 d2"
  shows "consdiff_get_digests diff = Some (Some (d1, d2))"
proof -
  let ?ws = "[hash_token, hex_of_bytes d1, hex_of_bytes d2]"
  have "0 \<notin> set (header_text d1 d2)"
    using hex_of_bytes_chars by (auto simp: header_text_def hash_token_def bytes_of_def)
  then have h: "c_string (cd_s (diff ! 1) @ [0]) = join_with [32] ?ws"
    using c_string_eq assms(5) header_words by metis
  have "list_all (\<lambda>x. 32 \<notin> set x) ?ws" using hex_of_bytes_chars by (auto simp: hash_token_def bytes_of_def)
  from split_string_loop_join [OF _ this smartlist_new_rel, of 4 0] obtain sl where
    sl: "smartlist_split_string smartlist_new (join_with [32] ?ws) (Some [32]) 0 4 = Some (sl, 3)" "sl_rel sl (map Some ?ws)"
    by (auto simp: smartlist_split_string_def MAX_CAPACITY_def)
  have dec: "base16_decode (replicate DIGEST256_LEN 0) (hex_of_bytes d) = Some (d, int DIGEST256_LEN)"
    if "length d = DIGEST256_LEN" for d
    using base16_decode_hex [of d "replicate DIGEST256_LEN 0"] that by (simp add: DIGEST256_LEN_def INT_MAX_def)
  have "line_str_eq (diff ! 0) ns_diff_version = Some True"
    using assms(4) by (simp add: line_str_eq_def ns_diff_version_def bytes_of_def UINT32_MAX_def)
  moreover have "length (hex_of_bytes d1) = HEX_DIGEST256_LEN" "length (hex_of_bytes d2) = HEX_DIGEST256_LEN"
    using assms(1,2) by (simp_all add: DIGEST256_LEN_def HEX_DIGEST256_LEN_def)
  moreover have "bytes_of '' '' = [32]" by (simp add: bytes_of_def)
  moreover have "arr_get diff 0 = Some (diff ! 0)" "arr_get diff 1 = Some (diff ! 1)" "\<not> length diff < 2"
    using assms(3) by (auto intro!: arr_get_in)
  moreover have "smartlist_get sl 0 = Some (Some hash_token)" "smartlist_get sl 1 = Some (Some (hex_of_bytes d1))"
    "smartlist_get sl 2 = Some (Some (hex_of_bytes d2))" "num_used sl = 3"
    using sl_rel_get [OF sl(2)] sl_rel_num_used [OF sl(2)] by (simp_all add: smartlist_get_def)
  ultimately show ?thesis
    using h sl(1) dec [OF assms(1)] dec [OF assms(2)] by (simp add: consdiff_get_digests_def)
qed

lemma same_lines_eq: "contents xs = contents ys \<Longrightarrow> same_lines xs (pre @ ys) (length pre) = Some True"
proof (induction xs arbitrary: pre ys)
  case (Cons x xs)
  then obtain y ys' where y: "ys = y # ys'" "cd_s x = cd_s y" "contents xs = contents ys'" by (cases ys) auto
  with Cons.IH [of ys' "pre @ [y]"] show ?case by (simp add: arr_get_def)
qed simp

lemma hex_digest_encode:
  "length d = DIGEST256_LEN \<Longrightarrow> base16_encode (replicate (HEX_DIGEST256_LEN + 1) 0) d = Some (hex_of_bytes d @ [0])"
  using base16_encode_eq [of d "replicate (HEX_DIGEST256_LEN + 1) 0"]
  by (simp add: HEX_DIGEST256_LEN_def DIGEST256_LEN_def SIZE_T_CEILING_def)

text \<open>What a returned diff looks like: the two header lines and a script that was tried out.\<close>

lemma consdiff_gen_diff_Some:
  assumes "length d1 = DIGEST256_LEN" "length d2 = DIGEST256_LEN"
    and "consdiff_gen_diff cons1 cons2 d1 d2 = Some (Some diff)"
  obtains ed_diff r where "gen_ed_diff cons1 cons2 = Some (Some ed_diff)" "apply_ed_diff cons1 ed_diff 0 = Some (Some r)"
    "diff = plain_line ns_diff_version # plain_line (header_text d1 d2) # ed_diff"
proof -
  have c: "c_string (hex_of_bytes d @ [0]) = hex_of_bytes d" for d
    using hex_of_bytes_chars by (intro c_string_eq) blast
  have l: "length (header_text d1 d2) < 160" "length (header_text d1 d2) < 4294967296" "length ns_diff_version < 160"
    using assms(1,2) by (simp_all add: header_text_def hash_token_def ns_diff_version_def bytes_of_def DIGEST256_LEN_def)
  then have t: "tor_snprintf 160 (header_text d1 d2) = Some (header_text d1 d2, int (length (header_text d1 d2)))"
    "tor_snprintf 160 ns_diff_version = Some (ns_diff_version, int (length ns_diff_version))"
    by (simp_all add: tor_snprintf_def SIZE_T_CEILING_def)
  have p: "cdline_linecpy x = plain_line x" if "length x < 4294967296" for x
    using that by (simp add: cdline_linecpy_def plain_line_def arr_get_def Let_def)
  from assms(3) obtain ed_diff r where "gen_ed_diff cons1 cons2 = Some (Some ed_diff)" "apply_ed_diff cons1 ed_diff 0 = Some (Some r)"
    by (auto simp: consdiff_gen_diff_def split: bind_splits option.splits)
  moreover from assms(3) this have "diff = plain_line ns_diff_version # plain_line (header_text d1 d2) # ed_diff"
    using hex_digest_encode [OF assms(1)] hex_digest_encode [OF assms(2)] c t p [of ns_diff_version] p [of "header_text d1 d2"] l
    by (auto simp: consdiff_gen_diff_def smartlist_add_linecpy_def header_text_def split: bind_splits if_splits)
  ultimately show thesis using that by blast
qed

subsection \<open>Totality\<close>

lemma router_get_hash_impl_helper_total:
  assumes "start_str \<noteq> []" "end_str \<noteq> []"
  obtains "router_get_hash_impl_helper s start_str end_str end_c = Some None"
  | a b where "router_get_hash_impl_helper s start_str end_str end_c = Some (Some (a, b))" "a \<le> b" "b \<le> length s"
proof (cases rule: tor_memmem_total [OF assms(1), of s])
  case 1
  with that(1) show thesis by (simp add: router_get_hash_impl_helper_def tor_memstr_def)
next
  case start: (2 a)
  let ?p = "a + length start_str"
  have bol: "(if a \<noteq> 0 then map_option (\<lambda>c. c = 10) (arr_get s (a - 1)) else Some True) = Some (a = 0 \<or> s ! (a - 1) = 10)"
    using start(2) by (auto simp: arr_get_in)
  show thesis
  proof (cases rule: tor_memmem_total [OF assms(2), of "drop ?p s"])
    case 1
    with start bol that(1) show thesis by (auto simp: router_get_hash_impl_helper_def tor_memstr_def)
  next
    case (2 e)
    let ?q = "?p + e + length end_str"
    have q: "?q + (length s - ?q) \<le> length s" "?q \<le> length s" using 2(2) start(2) by auto
    have n: "length s - (?p + e) - length end_str = length s - ?q" by simp
    from q(1) show thesis
    proof (cases rule: memchr_cases [where c = end_c])
      case (found k)
      then have "router_get_hash_impl_helper s start_str end_str end_c =
          Some (if a = 0 \<or> s ! (a - 1) = 10 then Some (a, k + 1) else None)"
        using start(1) bol 2(1) unfolding router_get_hash_impl_helper_def tor_memstr_def Let_def n [symmetric]
        by (auto simp: Let_def)
      with found(2,3) q(2) that show thesis by (cases "a = 0 \<or> s ! (a - 1) = 10") auto
    next
      case absent
      then have "router_get_hash_impl_helper s start_str end_str end_c = Some None"
        using start(1) bol 2(1) unfolding router_get_hash_impl_helper_def tor_memstr_def Let_def n [symmetric]
        by (auto simp: Let_def)
      with that(1) show thesis by blast
    qed
  qed
qed

lemma sha3_as_signed_total: "\<exists>d. consensus_compute_digest_as_signed crypto_digest256 s = Some d \<and>
   (\<exists>m. d = crypto_digest256 m DIGEST_SHA3_256)"
proof -
  have ne: "bytes_of ''network-status-version'' \<noteq> []" "10 # bytes_of ''directory-signature'' \<noteq> []" by (simp_all add: bytes_of_def)
  show ?thesis
    by (cases rule: router_get_hash_impl_helper_total [OF ne, of s 32])
      (auto simp: consensus_compute_digest_as_signed_def router_get_networkstatus_v3_sha3_as_signed_def
        router_get_networkstatus_v3_signed_boundaries_def arr_slice_def)
qed

lemma same_lines_total: "length xs + i \<le> length ys \<Longrightarrow> \<exists>b. same_lines xs ys i = Some b"
  by (induction xs arbitrary: i) (auto simp: arr_get_in)

lemma split_lines_ok: "list_all line_text_ok xs \<Longrightarrow> list_all line_ok (map split_line xs)"
  by (auto simp: list_all_iff line_text_ok_def line_ok_def CONSENSUS_LINE_MAX_LEN_def UINT32_MAX_def)

lemma consdiff_gen_diff_total:
  assumes "list_all line_ok cons1" "list_all line_ok cons2" "int (length cons1) \<le> INT_MAX" "int (length cons2) \<le> INT_MAX"
    "length d1 = DIGEST256_LEN" "length d2 = DIGEST256_LEN"
  shows "\<exists>r. consdiff_gen_diff cons1 cons2 d1 d2 = Some r"
proof (cases rule: gen_ed_diff_ok [OF assms(1-4)])
  case (2 script)
  from apply_ed_diff_total obtain r where r: "apply_ed_diff cons1 (trailer_lines cons1 @ script) 0 = Some r" by blast
  show ?thesis
  proof (cases r)
    case (Some ed_cons2)
    have "\<exists>b. (if length cons2 = length ed_cons2 then same_lines cons2 ed_cons2 0 else Some False) = Some b"
      using same_lines_total [of cons2 0 ed_cons2] by auto
    then obtain b where "(if length cons2 = length ed_cons2 then same_lines cons2 ed_cons2 0 else Some False) = Some b" by blast
    with 2(1) r Some hex_digest_encode [OF assms(5)] hex_digest_encode [OF assms(6)] show ?thesis
      by (cases b) (auto simp: consdiff_gen_diff_def tor_snprintf_def SIZE_T_CEILING_def)
  qed (use 2(1) r in \<open>simp add: consdiff_gen_diff_def\<close>)
qed (simp add: consdiff_gen_diff_def)

lemma consdiff_get_digests_total: "\<exists>r. consdiff_get_digests diff = Some r"
proof (cases "length diff < 2")
  case False
  have known: "line_str_eq (diff ! 0) ns_diff_version = Some (cd_s (diff ! 0) = ns_diff_version)"
    by (simp add: line_str_eq_def ns_diff_version_def bytes_of_def UINT32_MAX_def)
  have "sl_rel smartlist_new (map Some [])" using smartlist_new_rel by simp
  from split_string_loop_limit [of 0 4, OF _ _ this, of "c_string (cd_s (diff ! 1) @ [0])" "bytes_of '' ''"] obtain sl zs m where
    sl: "smartlist_split_string smartlist_new (c_string (cd_s (diff ! 1) @ [0])) (Some (bytes_of '' '')) 0 4 = Some (sl, m)"
    "sl_rel sl (map Some zs)" by (auto simp: smartlist_split_string_def MAX_CAPACITY_def)
  have g: "arr_get diff 0 = Some (diff ! 0)" "arr_get diff 1 = Some (diff ! 1)" using False by (auto intro!: arr_get_in)
  have dec: "\<exists>p. base16_decode (replicate DIGEST256_LEN 0) h = Some p" if "length h = HEX_DIGEST256_LEN" for h
    using base16_decode_loop_total [of h "replicate DIGEST256_LEN 0" 0] that arr_fill_all [of "replicate DIGEST256_LEN (0 :: byte)" 0]
    by (auto simp: base16_decode_def DIGEST256_LEN_def HEX_DIGEST256_LEN_def)
  show ?thesis
  proof (cases "cd_s (diff ! 0) = ns_diff_version \<and> length zs = 3")
    case True
    then obtain a b c where z: "zs = [a, b, c]" by (auto simp: numeral_3_eq_3 length_Suc_conv)
    then have w: "smartlist_get sl 0 = Some (Some a)" "smartlist_get sl 1 = Some (Some b)" "smartlist_get sl 2 = Some (Some c)"
      "num_used sl = 3" using sl_rel_get [OF sl(2)] sl_rel_num_used [OF sl(2)] by (simp_all add: smartlist_get_def)
    show ?thesis
    proof (cases "length b = HEX_DIGEST256_LEN \<and> length c = HEX_DIGEST256_LEN")
      case len: True
      with dec [of b] dec [of c] obtain p q where
        "base16_decode (replicate DIGEST256_LEN 0) b = Some p" "base16_decode (replicate DIGEST256_LEN 0) c = Some q" by blast
      with True len False known sl(1) g w show ?thesis by (cases p; cases q) (simp add: consdiff_get_digests_def)
    qed (use True False known sl(1) g w in \<open>auto simp: consdiff_get_digests_def\<close>)
  qed (use False known sl(1) g sl_rel_num_used [OF sl(2)] in \<open>auto simp: consdiff_get_digests_def\<close>)
qed (simp add: consdiff_get_digests_def)

subsection \<open>Generating and applying documents\<close>

lemma fmt_d_text: "c \<in> set (fmt_d (int n)) \<Longrightarrow> c \<noteq> 10" "c \<in> set (fmt_d (int n + 1)) \<Longrightarrow> c \<noteq> 10"
  using fmt_d_digits [of c n] fmt_d_digits [of c "Suc n"] by (auto simp: ctype_ranges add.commute [of 1])

lemma edit_range_text: "10 \<notin> set (edit_range m n)"
  using fmt_d_text by (auto simp: edit_range_def bytes_of_def)

lemma edit_lines_text:
  assumes "m \<le> n" "m < n \<or> adds \<noteq> []" "int n \<le> INT_MAX" "list_all line_text_ok (contents adds)"
  shows "list_all line_text_ok (contents (edit_lines m n adds))"
proof -
  have "length (fmt_d (int m)) \<le> 10" using fmt_d_length [of m] assms(1,3) by linarith
  then have "line_text_ok (fmt_d (int m) @ bytes_of ''a'')"
    using fmt_d_text(1) [of 10 m] by (auto simp: line_text_ok_def bytes_of_def CONSENSUS_LINE_MAX_LEN_def)
  moreover have "line_text_ok (edit_range m n @ bytes_of ''c'')" "line_text_ok (edit_range m n @ bytes_of ''d'')" if "m < n"
    using edit_range_length [OF that assms(3)] edit_range_text
    by (simp_all add: line_text_ok_def bytes_of_def CONSENSUS_LINE_MAX_LEN_def)
  moreover have "line_text_ok DOT" by (simp add: line_text_ok_def bytes_of_def CONSENSUS_LINE_MAX_LEN_def)
  ultimately show ?thesis using assms by (auto simp: edit_lines_def plain_line_def)
qed

lemma ed_script_text:
  assumes "int (length cons1) \<le> INT_MAX" "list_all line_text_ok (contents cons2)"
  shows "ed_script cons1 cons2 n1 n2 script \<Longrightarrow> list_all line_text_ok (contents script)"
proof (induction rule: ed_script.induct)
  case (change m1 m2 script n1 n2 adds)
  have "list_all line_text_ok (contents adds)"
    using assms(2) set_sub [of cons2 m2 "n2 - m2"] change.hyps by (auto simp: list_all_iff)
  moreover have "m1 < n1 \<or> adds \<noteq> []" using change.hyps by (auto simp: sub_def)
  moreover have "int n1 \<le> INT_MAX" using change.hyps assms(1) by linarith
  ultimately show ?case using change edit_lines_text by auto
qed simp_all

lemma trailer_text: "int (length cons1) \<le> INT_MAX \<Longrightarrow> list_all line_text_ok (contents (trailer_lines cons1))"
  using fmt_d_length [of "Suc (body_length cons1)"] fmt_d_text(2) [of 10 "body_length cons1"]
  by (auto simp: trailer_lines_def plain_line_def line_text_ok_def bytes_of_def CONSENSUS_LINE_MAX_LEN_def add.commute [of 1])

lemma header_text_ok:
  assumes "length d1 = DIGEST256_LEN" "length d2 = DIGEST256_LEN"
  shows "line_text_ok ns_diff_version" "line_text_ok (header_text d1 d2)"
proof -
  show "line_text_ok ns_diff_version"
    by (simp add: line_text_ok_def ns_diff_version_def bytes_of_def CONSENSUS_LINE_MAX_LEN_def)
  show "line_text_ok (header_text d1 d2)"
    using assms hex_of_bytes_chars [of 10]
    by (auto simp: line_text_ok_def header_text_def hash_token_def bytes_of_def CONSENSUS_LINE_MAX_LEN_def DIGEST256_LEN_def)
qed

lemma length_joined: "length xs \<le> length (joined xs)"
  by (induction xs) auto

text \<open>A diff of two split documents, written out and read again, leads from the one to the other.\<close>

lemma consdiff_gen_apply:
  assumes fresh: "\<And>n. length (fresh n) = n"
    and xs: "list_all line_text_ok xs" "list_all line_text_ok ys"
    and len: "int (length xs) \<le> INT_MAX" "int (length ys) \<le> INT_MAX"
    and d: "length d1 = DIGEST256_LEN" "length d2 = DIGEST256_LEN"
    and nul: "0 \<notin> set (joined ys)" and d2: "crypto_digest256 (joined ys) DIGEST_SHA3_256 = Some d2"
    and gen: "consdiff_gen_diff (map split_line xs) (map split_line ys) d1 d2 = Some (Some diff)"
  shows "\<exists>lines. consensus_split_lines (joined (contents diff)) = Some (Some lines) \<and>
    consdiff_apply_diff crypto_digest256 fresh (map split_line xs) lines d1 = Some (Some (joined ys @ [0]))"
proof -
  let ?c1 = "map split_line xs" and ?c2 = "map split_line ys"
  note ok = split_lines_ok [OF xs(1)] split_lines_ok [OF xs(2)]
  have l: "int (length ?c1) \<le> INT_MAX" "int (length ?c2) \<le> INT_MAX" using len by simp_all
  obtain ed_diff r where e: "gen_ed_diff ?c1 ?c2 = Some (Some ed_diff)" "apply_ed_diff ?c1 ed_diff 0 = Some (Some r)"
    "diff = plain_line ns_diff_version # plain_line (header_text d1 d2) # ed_diff"
    using consdiff_gen_diff_Some [OF d gen] .
  have sig: "body_length ?c1 + 1 \<noteq> length ?c1" using gen_apply_one_signature_line [OF ok l e(1)] e(2) by auto
  have "list_all line_text_ok (contents ed_diff)"
  proof (cases rule: gen_ed_diff_ok [OF ok l])
    case (2 script)
    have "int (length (take (body_length ?c1) ?c1)) \<le> INT_MAX" using l(1) by simp
    from ed_script_text [OF this _ 2(2)] trailer_text [OF l(1)] xs(2) 2(1) e(1) show ?thesis by (simp add: list.pred_map comp_def)
  qed (use e(1) in simp)
  then have "list_all line_text_ok (contents diff)" using header_text_ok [OF d] e(3) by (simp add: plain_line_def)
  then have split: "consensus_split_lines (joined (contents diff)) = Some (Some (map split_line (contents diff)))"
    by (rule split_joined)
  let ?lines = "map split_line (contents diff)"
  have "contents ?lines = [ns_diff_version, header_text d1 d2] @ contents ed_diff" by (simp add: e(3) plain_line_def comp_def)
  from gen_apply [OF ok l e(1) sig this] obtain r2 where
    r2: "apply_ed_diff ?c1 ?lines 2 = Some (Some r2)" "contents r2 = ys" by (auto simp: comp_def numeral_2_eq_2)
  have "consdiff_get_digests ?lines = Some (Some (d1, d2))"
    by (rule consdiff_get_digests_header [OF d]) (simp_all add: e(3) plain_line_def)
  moreover have "consensus_join_lines fresh r2 = Some (joined ys @ [0])"
    using consensus_join_lines_eq [of fresh r2, OF fresh] r2(2) by simp
  moreover have "c_string (joined ys @ [0]) = joined ys" using nul by (rule c_string_eq)
  ultimately show ?thesis using split r2(1) d2
    by (simp add: consdiff_apply_diff_def consensus_digest_eq_def consensus_compute_digest_def)
qed

text \<open>
  C1: diffs lead from the base to the target. For documents of at most \<open>INT_MAX\<close> bytes, a target
  without NUL bytes and a hash function with results of 32 bytes, \<open>consensus_diff_generate\<close> ends
  without a failed assertion or a bad access. A diff it returns is recognised as a diff, and
  \<open>consensus_diff_apply\<close> turns the base and that diff into exactly the target: the header is read
  back, the digests match and the text ends with its NUL.
\<close>

theorem consensus_diff_roundtrip:
  assumes sha3: "\<And>m d. crypto_digest256 m DIGEST_SHA3_256 = Some d \<Longrightarrow> length d = DIGEST256_LEN"
    and fresh: "\<And>n. length (fresh n) = n"
    and len: "int (length cons1) \<le> INT_MAX" "int (length cons2) \<le> INT_MAX" and nul: "0 \<notin> set cons2"
  shows "\<exists>r. consensus_diff_generate crypto_digest256 fresh cons1 cons2 = Some r \<and>
    (case r of
       None \<Rightarrow> True
     | Some t \<Rightarrow> \<exists>diff. t = diff @ [0] \<and> looks_like_a_consensus_diff diff \<and>
         consensus_diff_apply crypto_digest256 fresh cons1 diff = Some (Some (cons2 @ [0])))"
proof -
  let ?gen = "consensus_diff_generate crypto_digest256 fresh cons1 cons2"
  note defs = consensus_diff_generate_def consensus_diff_apply_def consensus_compute_digest_def
  from sha3_as_signed_total [of crypto_digest256 cons1] obtain r1 m where
    r1: "consensus_compute_digest_as_signed crypto_digest256 cons1 = Some r1" "r1 = crypto_digest256 m DIGEST_SHA3_256" by blast
  show ?thesis
  proof (cases "r1 = None \<or> crypto_digest256 cons2 DIGEST_SHA3_256 = None \<or>
      consensus_split_lines cons1 = Some None \<or> consensus_split_lines cons2 = Some None")
    case True
    obtain l1 l2 where l: "consensus_split_lines cons1 = Some l1" "consensus_split_lines cons2 = Some l2"
      using split_lines_total by blast
    with True r1(1) have "?gen = Some None"
      by (cases r1; cases "crypto_digest256 cons2 DIGEST_SHA3_256"; cases l1; cases l2) (simp_all add: defs)
    then show ?thesis by simp
  next
    case False
    then obtain d1 d2 where d: "r1 = Some d1" "crypto_digest256 cons2 DIGEST_SHA3_256 = Some d2" by auto
    obtain xs where x: "consensus_split_lines cons1 = Some (Some (map split_line xs))" "cons1 = joined xs" "list_all line_text_ok xs"
      by (cases rule: split_lines_cases [of cons1]) (use False in auto)
    obtain ys where y: "consensus_split_lines cons2 = Some (Some (map split_line ys))" "cons2 = joined ys" "list_all line_text_ok ys"
      by (cases rule: split_lines_cases [of cons2]) (use False in auto)
    have dl: "length d1 = DIGEST256_LEN" "length d2 = DIGEST256_LEN" using sha3 d r1(2) by auto
    have n: "int (length xs) \<le> INT_MAX" "int (length ys) \<le> INT_MAX"
      using len length_joined [of xs] length_joined [of ys] x(2) y(2) by auto
    obtain g where g: "consdiff_gen_diff (map split_line xs) (map split_line ys) d1 d2 = Some g"
      using consdiff_gen_diff_total [OF split_lines_ok [OF x(3)] split_lines_ok [OF y(3)] _ _ dl] n by auto
    show ?thesis
    proof (cases g)
      case None
      with r1(1) d x(1) y(1) g show ?thesis by (simp add: defs)
    next
      case (Some diff)
      with g have "consdiff_gen_diff (map split_line xs) (map split_line ys) d1 d2 = Some (Some diff)" by simp
      note diff = this consdiff_gen_apply [where fresh = fresh and ?crypto_digest256.0 = crypto_digest256, OF fresh x(3) y(3) n dl nul [unfolded y(2)] d(2) [unfolded y(2)] this]
      have "?gen = Some (Some (joined (contents diff) @ [0]))"
        using r1(1) d x(1) y(1) diff(1) consensus_join_lines_eq [OF fresh] by (simp add: defs)
      moreover have "consensus_diff_apply crypto_digest256 fresh cons1 (joined (contents diff)) = Some (Some (cons2 @ [0]))"
        using r1(1) d(1) x(1) diff(2) y(2) by (auto simp: defs)
      moreover obtain ed_diff r where "diff = plain_line ns_diff_version # plain_line (header_text d1 d2) # ed_diff"
        using consdiff_gen_diff_Some [OF dl diff(1)] .
      then have "looks_like_a_consensus_diff (joined (contents diff))"
        by (simp add: looks_like_a_consensus_diff_def plain_line_def)
      ultimately show ?thesis by simp
    qed
  qed
qed

text \<open>
  C16: applying a diff is safe and authenticated. Whatever the bytes of the base and of the diff,
  \<open>consensus_diff_apply\<close> ends without a failed assertion or a bad access. When it returns a text, the
  header of the diff has two digests, the first is the digest of the signed part of the base, and
  the second is the digest of the text up to its first NUL.
\<close>

theorem consensus_diff_apply_safe:
  assumes fresh: "\<And>n. length (fresh n) = n"
  shows "\<exists>r. consensus_diff_apply crypto_digest256 fresh cons1 diff = Some r \<and>
    (case r of
       None \<Rightarrow> True
     | Some t \<Rightarrow> \<exists>d1 d2 lines e1 e2.
         consensus_compute_digest_as_signed crypto_digest256 cons1 = Some (Some d1) \<and>
         crypto_digest256 (c_string t) DIGEST_SHA3_256 = Some d2 \<and>
         consensus_split_lines diff = Some (Some lines) \<and> consdiff_get_digests lines = Some (Some (e1, e2)) \<and>
         take 32 d1 = take 32 e1 \<and> take 32 d2 = take 32 e2)"
proof -
  from sha3_as_signed_total [of crypto_digest256 cons1] obtain r1 where
    r1: "consensus_compute_digest_as_signed crypto_digest256 cons1 = Some r1" by blast
  obtain l1 l2 where l: "consensus_split_lines cons1 = Some l1" "consensus_split_lines diff = Some l2"
    using split_lines_total by blast
  show ?thesis
  proof (cases "r1 = None \<or> l1 = None \<or> l2 = None")
    case True
    with r1 l show ?thesis by (cases r1; cases l1; cases l2) (simp_all add: consensus_diff_apply_def)
  next
    case False
    then obtain d1 lines1 lines where s: "r1 = Some d1" "l1 = Some lines1" "l2 = Some lines" by auto
    obtain g where g: "consdiff_get_digests lines = Some g" using consdiff_get_digests_total by blast
    obtain a where a: "apply_ed_diff lines1 lines 2 = Some a" using apply_ed_diff_total by blast
    have eq: "consensus_diff_apply crypto_digest256 fresh cons1 diff = consdiff_apply_diff crypto_digest256 fresh lines1 lines d1"
      using r1 l s by (simp add: consensus_diff_apply_def)
    show ?thesis
      using r1 l s g a consensus_join_lines_eq [OF fresh, of "the a"] unfolding eq
      by (cases g; cases a; cases "crypto_digest256 (c_string (joined (contents (the a)) @ [0])) DIGEST_SHA3_256")
        (auto simp: consdiff_apply_diff_def consensus_compute_digest_def consensus_digest_eq_def DIGEST256_LEN_def)
  qed
qed

subsection \<open>The example as documents\<close>

text \<open>A stand-in for the hash function: the first 32 bytes of the padded message.\<close>

definition example_digest :: "byte list \<Rightarrow> digest_algorithm \<Rightarrow> byte list option" where
  "example_digest m alg = Some (take DIGEST256_LEN (m @ replicate DIGEST256_LEN 0))"

definition example_texts1 :: "byte list list" where
  "example_texts1 = map bytes_of [''x'', ''r a AB'', ''r b AC'', ''directory-signature 1'', ''s'']"

definition example_texts2 :: "byte list list" where
  "example_texts2 = map bytes_of [''y'', ''r a AB'', ''p'', ''r b AC'']"

lemma example_lines:
  "map split_line example_texts1 = example_base" "map split_line example_texts2 = example_target"
  "list_all line_text_ok example_texts1" "list_all line_text_ok example_texts2"
  by (simp_all add: example_texts1_def example_texts2_def example_base_def example_target_def text_line_def
      line_text_ok_def bytes_of_def CONSENSUS_LINE_MAX_LEN_def)

lemma consdiff_gen_diff_succeeds:
  assumes "list_all line_ok cons1" "list_all line_ok cons2" "int (length cons1) \<le> INT_MAX" "int (length cons2) \<le> INT_MAX"
    "length d1 = DIGEST256_LEN" "length d2 = DIGEST256_LEN" "diffable cons1 cons2" "body_length cons1 + 1 \<noteq> length cons1"
  shows "\<exists>diff. consdiff_gen_diff cons1 cons2 d1 d2 = Some (Some diff)"
proof -
  obtain ed_diff where g: "gen_ed_diff cons1 cons2 = Some (Some ed_diff)"
    by (cases rule: gen_ed_diff_ok [OF assms(1-4)]) (use assms(7) in auto)
  from gen_apply [OF assms(1-4) g assms(8), of ed_diff "[]"] obtain r where
    r: "apply_ed_diff cons1 ed_diff 0 = Some (Some r)" "contents r = contents cons2" by auto
  have "length cons2 = length r" using arg_cong [OF r(2), of length] by simp
  moreover have "same_lines cons2 r 0 = Some True" using same_lines_eq [of cons2 r "[]"] r(2) by simp
  ultimately show ?thesis using g r(1) hex_digest_encode [OF assms(5)] hex_digest_encode [OF assms(6)]
    by (auto simp: consdiff_gen_diff_def tor_snprintf_def SIZE_T_CEILING_def)
qed

lemma example_generate: "consensus_diff_generate example_digest (\<lambda>n. replicate n 0) (joined example_texts1) (joined example_texts2) \<noteq> Some None"
proof -
  have len: "int (length example_base) \<le> INT_MAX" "int (length example_target) \<le> INT_MAX"
    by (simp_all add: example_base_def example_target_def INT_MAX_def)
  obtain m where m: "consensus_compute_digest_as_signed example_digest (joined example_texts1) = Some (example_digest m DIGEST_SHA3_256)"
    using sha3_as_signed_total by blast
  have "length (the (example_digest m a)) = DIGEST256_LEN" for m a by (simp add: example_digest_def)
  moreover have "body_length example_base + 1 \<noteq> length example_base" using example_body by (simp add: example_base_def)
  ultimately obtain diff where "consdiff_gen_diff example_base example_target
      (the (example_digest m DIGEST_SHA3_256)) (the (example_digest (joined example_texts2) DIGEST_SHA3_256)) = Some (Some diff)"
    using consdiff_gen_diff_succeeds [OF example_ok len _ _ example_diffable] by blast
  then show ?thesis
    using m split_joined [OF example_lines(3)] split_joined [OF example_lines(4)] example_lines(1,2)
      consensus_join_lines_eq [of "\<lambda>n. replicate n 0" diff]
    by (simp add: consensus_diff_generate_def consensus_compute_digest_def example_digest_def)
qed

theorem consensus_diff_roundtrip_witness:
  "\<exists>diff. consensus_diff_generate example_digest (\<lambda>n. replicate n 0) (joined example_texts1) (joined example_texts2) = Some (Some (diff @ [0])) \<and>
     consensus_diff_apply example_digest (\<lambda>n. replicate n 0) (joined example_texts1) diff = Some (Some (joined example_texts2 @ [0]))"
proof -
  have dl: "\<And>m d. example_digest m DIGEST_SHA3_256 = Some d \<Longrightarrow> length d = DIGEST256_LEN"
    by (auto simp: example_digest_def)
  have l: "int (length (joined example_texts1)) \<le> INT_MAX" "int (length (joined example_texts2)) \<le> INT_MAX"
    "0 \<notin> set (joined example_texts2)" by (simp_all add: example_texts1_def example_texts2_def bytes_of_def INT_MAX_def)
  let ?fresh = "\<lambda>n. replicate n 0"
  have "\<exists>r. consensus_diff_generate example_digest ?fresh (joined example_texts1) (joined example_texts2) = Some r \<and>
    (case r of
       None \<Rightarrow> True
     | Some t \<Rightarrow> \<exists>diff. t = diff @ [0] \<and> looks_like_a_consensus_diff diff \<and>
         consensus_diff_apply example_digest ?fresh (joined example_texts1) diff = Some (Some (joined example_texts2 @ [0])))"
    by (rule consensus_diff_roundtrip [OF _ _ l]) (erule dl, rule length_replicate)
  with example_generate show ?thesis by (auto split: option.splits)
qed

theorem consensus_diff_apply_safe_witness:
  "\<exists>r. consensus_diff_apply example_digest (\<lambda>n. replicate n 0) (joined example_texts1) (bytes_of ''no diff'') = Some r"
  using consensus_diff_apply_safe [of "\<lambda>n. replicate n 0" example_digest "joined example_texts1" "bytes_of ''no diff''"] by auto

end
