(* ===== verification/Buffers.thy ===== *)
theory Buffers
  imports Cstring
begin

section \<open>Chunked byte buffers: \<^verbatim>\<open>lib/buf/buffers.c\<close>\<close>

text \<open>
  A buffer is a singly linked list of chunks with a pointer to its first and its last chunk. The
  model keeps the chunks in a list; \<open>head\<close> is its first and \<open>tail\<close> its last element, both null when
  it is empty. A pointer into a chunk is an offset into its memory, whose last \<open>SENTINEL_LEN\<close> bytes
  are the sentinel. The counter of all allocated bytes is passed through as \<open>tot\<close>; \<open>fresh\<close> gives the
  contents of new memory and \<open>now\<close> the coarse time stamp. \<open>None\<close> is a failed assertion or an access
  outside an object. Sizes are those of a platform with 64-bit pointers.
\<close>

record chunk_t =
  ch_datalen :: nat
  ch_memlen :: nat
  DBG_alloc :: nat
  ch_data :: nat
  inserted_time :: u32
  ch_mem :: "byte list"

record buf_t =
  buf_magic :: u32
  b_datalen :: nat
  default_chunk_size :: nat
  buf_chunks :: "chunk_t list"

definition BUFFER_MAGIC :: u32 where
  "BUFFER_MAGIC = 0xB0FFF312"

definition BUF_MAX_LEN :: nat where
  "BUF_MAX_LEN = 2147483646"

definition CHUNK_HEADER_LEN :: nat where
  "CHUNK_HEADER_LEN = 44"

definition SENTINEL_LEN :: nat where
  "SENTINEL_LEN = 4"

definition CHUNK_OVERHEAD :: nat where
  "CHUNK_OVERHEAD = CHUNK_HEADER_LEN + SENTINEL_LEN"

definition CHUNK_ALLOC_SIZE :: "nat \<Rightarrow> nat" where
  "CHUNK_ALLOC_SIZE memlen = CHUNK_OVERHEAD + memlen"

definition CHUNK_SIZE_WITH_ALLOC :: "nat \<Rightarrow> nat" where
  "CHUNK_SIZE_WITH_ALLOC memlen = memlen - CHUNK_OVERHEAD"

definition CHUNK_REMAINING_CAPACITY :: "chunk_t \<Rightarrow> nat" where
  "CHUNK_REMAINING_CAPACITY chunk = ch_memlen chunk - (ch_data chunk + ch_datalen chunk)"

definition CHUNK_WRITE_PTR :: "chunk_t \<Rightarrow> nat" where
  "CHUNK_WRITE_PTR chunk = ch_data chunk + ch_datalen chunk"

subsection \<open>Chunks\<close>

definition CHUNK_SET_SENTINEL :: "chunk_t \<Rightarrow> nat \<Rightarrow> chunk_t option" where
  "CHUNK_SET_SENTINEL chunk alloclen =
     do {
       guard (CHUNK_HEADER_LEN + ch_memlen chunk + SENTINEL_LEN = alloclen);
       mem \<leftarrow> arr_fill (ch_mem chunk) (ch_memlen chunk) SENTINEL_LEN 0;
       Some (chunk\<lparr>ch_mem := mem\<rparr>)
     }"

definition chunk_repack :: "chunk_t \<Rightarrow> chunk_t option" where
  "chunk_repack chunk =
     do {
       mem \<leftarrow>
         (if ch_datalen chunk \<noteq> 0 \<and> ch_data chunk \<noteq> 0 then
            do {
              d \<leftarrow> arr_slice (ch_mem chunk) (ch_data chunk) (ch_datalen chunk);
              arr_blit (ch_mem chunk) 0 d
            }
          else Some (ch_mem chunk));
       Some (chunk\<lparr>ch_mem := mem, ch_data := 0\<rparr>)
     }"

definition buf_chunk_free_unchecked :: "nat \<Rightarrow> chunk_t \<Rightarrow> nat option" where
  "buf_chunk_free_unchecked tot chunk =
     do {
       guard (CHUNK_ALLOC_SIZE (ch_memlen chunk) = DBG_alloc chunk);
       guard (CHUNK_ALLOC_SIZE (ch_memlen chunk) \<le> tot);
       Some (tot - CHUNK_ALLOC_SIZE (ch_memlen chunk))
     }"

definition chunk_new_with_alloc_size :: "(nat \<Rightarrow> byte list) \<Rightarrow> nat \<Rightarrow> nat \<Rightarrow> (nat \<times> chunk_t) option" where
  "chunk_new_with_alloc_size fresh tot alloc =
     do {
       guard (CHUNK_OVERHEAD \<le> alloc);
       let ch = \<lparr>ch_datalen = 0, ch_memlen = CHUNK_SIZE_WITH_ALLOC alloc, DBG_alloc = alloc, ch_data = 0,
                 inserted_time = 0, ch_mem = fresh (alloc - CHUNK_HEADER_LEN)\<rparr>;
       ch \<leftarrow> CHUNK_SET_SENTINEL ch alloc;
       Some (tot + alloc, ch)
     }"

definition chunk_grow :: "(nat \<Rightarrow> byte list) \<Rightarrow> nat \<Rightarrow> chunk_t \<Rightarrow> nat \<Rightarrow> (nat \<times> chunk_t) option" where
  "chunk_grow fresh tot chunk sz =
     do {
       let memlen_orig = ch_memlen chunk;
       let orig_alloc = CHUNK_ALLOC_SIZE memlen_orig;
       let new_alloc = CHUNK_ALLOC_SIZE sz;
       guard (ch_memlen chunk < sz);
       let mem = ch_mem chunk @ fresh (new_alloc - orig_alloc);
       guard (DBG_alloc chunk = orig_alloc);
       let chunk = chunk\<lparr>ch_mem := mem, ch_memlen := sz, DBG_alloc := new_alloc\<rparr>;
       chunk \<leftarrow> CHUNK_SET_SENTINEL chunk new_alloc;
       Some (tot + (new_alloc - orig_alloc), chunk)
     }"

definition MIN_CHUNK_ALLOC :: nat where
  "MIN_CHUNK_ALLOC = 256"

definition MAX_CHUNK_ALLOC :: nat where
  "MAX_CHUNK_ALLOC = 65536"

text \<open>The size starts at \<open>MIN_CHUNK_ALLOC\<close> and only doubles, so it is never 0.\<close>

function preferred_size_loop :: "nat \<Rightarrow> nat \<Rightarrow> nat" where
  "preferred_size_loop target sz =
     (if 0 < sz \<and> CHUNK_SIZE_WITH_ALLOC sz < target then preferred_size_loop target (2 * sz) else sz)"
  by pat_completeness auto
termination
  by (relation "measure (\<lambda>(target, sz). target + CHUNK_OVERHEAD - sz)") (auto simp: CHUNK_SIZE_WITH_ALLOC_def)

definition buf_preferred_chunk_size :: "nat \<Rightarrow> nat option" where
  "buf_preferred_chunk_size target =
     do {
       guard (target \<le> SIZE_T_CEILING - CHUNK_OVERHEAD);
       Some (if MAX_CHUNK_ALLOC \<le> CHUNK_ALLOC_SIZE target then CHUNK_ALLOC_SIZE target
             else preferred_size_loop target MIN_CHUNK_ALLOC)
     }"

subsection \<open>Creating and clearing buffers\<close>

definition buf_new :: buf_t where
  "buf_new = \<lparr>buf_magic = BUFFER_MAGIC, b_datalen = 0, default_chunk_size = 4096, buf_chunks = []\<rparr>"

definition buf_new_with_capacity :: "nat \<Rightarrow> buf_t option" where
  "buf_new_with_capacity sz =
     do {
       let b = buf_new;
       s \<leftarrow> buf_preferred_chunk_size sz;
       Some (b\<lparr>default_chunk_size := s\<rparr>)
     }"

definition buf_get_default_chunk_size :: "buf_t \<Rightarrow> nat" where
  "buf_get_default_chunk_size buf = default_chunk_size buf"

fun free_chunks :: "nat \<Rightarrow> chunk_t list \<Rightarrow> nat option" where
  "free_chunks tot [] = Some tot"
| "free_chunks tot (chunk # chunks) =
     do {
       tot \<leftarrow> buf_chunk_free_unchecked tot chunk;
       free_chunks tot chunks
     }"

definition buf_clear :: "nat \<Rightarrow> buf_t \<Rightarrow> (nat \<times> buf_t) option" where
  "buf_clear tot buf =
     do {
       let buf = buf\<lparr>b_datalen := 0\<rparr>;
       tot \<leftarrow> free_chunks tot (buf_chunks buf);
       Some (tot, buf\<lparr>buf_chunks := []\<rparr>)
     }"

definition buf_datalen :: "buf_t \<Rightarrow> nat" where
  "buf_datalen buf = b_datalen buf"

definition buf_allocation :: "buf_t \<Rightarrow> nat" where
  "buf_allocation buf = fold (\<lambda>chunk tot. tot + CHUNK_ALLOC_SIZE (ch_memlen chunk)) (buf_chunks buf) 0"

definition buf_slack :: "buf_t \<Rightarrow> nat" where
  "buf_slack buf = (if buf_chunks buf = [] then 0 else CHUNK_REMAINING_CAPACITY (last (buf_chunks buf)))"

definition buf_free :: "nat \<Rightarrow> buf_t option \<Rightarrow> nat option" where
  "buf_free tot buf =
     (case buf of
        None \<Rightarrow> Some tot
      | Some buf \<Rightarrow>
          do {
            (tot, buf) \<leftarrow> buf_clear tot buf;
            Some tot
          })"

text \<open>A copied chunk has its data at the same offset.\<close>

definition chunk_copy :: "nat \<Rightarrow> chunk_t \<Rightarrow> nat \<times> chunk_t" where
  "chunk_copy tot in_chunk =
     (tot + CHUNK_ALLOC_SIZE (ch_memlen in_chunk), in_chunk\<lparr>DBG_alloc := CHUNK_ALLOC_SIZE (ch_memlen in_chunk)\<rparr>)"

fun copy_chunks :: "nat \<Rightarrow> chunk_t list \<Rightarrow> chunk_t list \<Rightarrow> nat \<times> chunk_t list" where
  "copy_chunks tot [] out = (tot, out)"
| "copy_chunks tot (ch # chs) out =
     (let (tot, newch) = chunk_copy tot ch in copy_chunks tot chs (out @ [newch]))"

definition buf_copy :: "nat \<Rightarrow> buf_t \<Rightarrow> nat \<times> buf_t" where
  "buf_copy tot buf =
     (let out = buf_new;
          out = out\<lparr>default_chunk_size := default_chunk_size buf\<rparr>;
          (tot, chunks) = copy_chunks tot (buf_chunks buf) [];
          out = out\<lparr>buf_chunks := chunks\<rparr>
      in (tot, out\<lparr>b_datalen := b_datalen buf\<rparr>))"

definition buf_set_to_copy :: "nat \<Rightarrow> buf_t option \<Rightarrow> buf_t \<Rightarrow> (nat \<times> buf_t) option" where
  "buf_set_to_copy tot output input =
     do {
       tot \<leftarrow> buf_free tot output;
       Some (buf_copy tot input)
     }"

subsection \<open>Adding and removing data\<close>

definition buf_add_chunk_with_capacity ::
    "(nat \<Rightarrow> byte list) \<Rightarrow> u32 \<Rightarrow> nat \<Rightarrow> buf_t \<Rightarrow> nat \<Rightarrow> bool \<Rightarrow> (nat \<times> buf_t) option" where
  "buf_add_chunk_with_capacity fresh now tot buf cap capped =
     do {
       (tot, chunk) \<leftarrow>
         (if CHUNK_ALLOC_SIZE cap < default_chunk_size buf then
            chunk_new_with_alloc_size fresh tot (default_chunk_size buf)
          else if capped \<and> MAX_CHUNK_ALLOC < CHUNK_ALLOC_SIZE cap then
            chunk_new_with_alloc_size fresh tot MAX_CHUNK_ALLOC
          else
            do {
              s \<leftarrow> buf_preferred_chunk_size cap;
              chunk_new_with_alloc_size fresh tot s
            });
       let chunk = chunk\<lparr>inserted_time := now\<rparr>;
       Some (tot, buf\<lparr>buf_chunks := buf_chunks buf @ [chunk]\<rparr>)
     }"

definition buf_get_total_allocation :: "nat \<Rightarrow> nat" where
  "buf_get_total_allocation tot = tot"

definition buf_get_oldest_chunk_timestamp :: "buf_t \<Rightarrow> u32 \<Rightarrow> u32" where
  "buf_get_oldest_chunk_timestamp buf now =
     (case buf_chunks buf of [] \<Rightarrow> 0 | head # chunks \<Rightarrow> now - inserted_time head)"

text \<open>The part of the loop of \<open>buf_add\<close> that fills the tail.\<close>

definition fill_tail :: "buf_t \<Rightarrow> byte list \<Rightarrow> nat \<Rightarrow> buf_t option" where
  "fill_tail buf string copy =
     do {
       let tail = last (buf_chunks buf);
       src \<leftarrow> arr_slice string 0 copy;
       mem \<leftarrow> arr_blit (ch_mem tail) (CHUNK_WRITE_PTR tail) src;
       let tail = tail\<lparr>ch_mem := mem, ch_datalen := ch_datalen tail + copy\<rparr>;
       Some (buf\<lparr>b_datalen := b_datalen buf + copy, buf_chunks := butlast (buf_chunks buf) @ [tail]\<rparr>)
     }"

partial_function (option) buf_add_loop ::
    "(nat \<Rightarrow> byte list) \<Rightarrow> u32 \<Rightarrow> nat \<Rightarrow> buf_t \<Rightarrow> byte list \<Rightarrow> (nat \<times> buf_t) option" where
  "buf_add_loop fresh now tot buf string =
     (if string \<noteq> [] then
        do {
          (tot, buf) \<leftarrow>
            (if buf_chunks buf = [] \<or> CHUNK_REMAINING_CAPACITY (last (buf_chunks buf)) = 0
             then buf_add_chunk_with_capacity fresh now tot buf (length string) True
             else Some (tot, buf));
          let copy = CHUNK_REMAINING_CAPACITY (last (buf_chunks buf));
          let copy = (if length string < copy then length string else copy);
          buf \<leftarrow> fill_tail buf string copy;
          buf_add_loop fresh now tot buf (drop copy string)
        }
      else Some (tot, buf))"

text \<open>The difference \<open>BUF_MAX_LEN - string_len\<close> is computed in \<open>size_t\<close>.\<close>

definition buf_add ::
    "(nat \<Rightarrow> byte list) \<Rightarrow> u32 \<Rightarrow> nat \<Rightarrow> buf_t \<Rightarrow> byte list \<Rightarrow> (nat \<times> buf_t \<times> int) option" where
  "buf_add fresh now tot buf string =
     (if string = [] then Some (tot, buf, to_i32 (int (b_datalen buf)))
      else if BUF_MAX_LEN < b_datalen buf then Some (tot, buf, -1)
      else if to_u64 (int BUF_MAX_LEN - int (length string)) < int (b_datalen buf) then Some (tot, buf, -1)
      else
        do {
          (tot, buf) \<leftarrow> buf_add_loop fresh now tot buf string;
          guard (b_datalen buf \<le> BUF_MAX_LEN);
          Some (tot, buf, to_i32 (int (b_datalen buf)))
        })"

definition buf_add_string ::
    "(nat \<Rightarrow> byte list) \<Rightarrow> u32 \<Rightarrow> nat \<Rightarrow> buf_t \<Rightarrow> byte list \<Rightarrow> (nat \<times> buf_t) option" where
  "buf_add_string fresh now tot buf string =
     map_option (\<lambda>(tot, buf, r). (tot, buf)) (buf_add fresh now tot buf string)"

text \<open>The argument \<open>formatted\<close> is the text that the format and its arguments give.\<close>

definition buf_add_vprintf ::
    "(nat \<Rightarrow> byte list) \<Rightarrow> u32 \<Rightarrow> nat \<Rightarrow> buf_t \<Rightarrow> byte list \<Rightarrow> (nat \<times> buf_t) option" where
  "buf_add_vprintf fresh now tot buf formatted =
     do {
       let tmp = formatted;
       (tot, buf, r) \<leftarrow> buf_add fresh now tot buf tmp;
       Some (tot, buf)
     }"

definition buf_add_printf ::
    "(nat \<Rightarrow> byte list) \<Rightarrow> u32 \<Rightarrow> nat \<Rightarrow> buf_t \<Rightarrow> byte list \<Rightarrow> (nat \<times> buf_t) option" where
  "buf_add_printf fresh now tot buf formatted = buf_add_vprintf fresh now tot buf formatted"

fun drain_loop :: "nat \<Rightarrow> nat \<Rightarrow> chunk_t list \<Rightarrow> nat \<Rightarrow> (nat \<times> nat \<times> chunk_t list) option" where
  "drain_loop tot datalen [] n = (if n = 0 then Some (tot, datalen, []) else None)"
| "drain_loop tot datalen (head # chunks) n =
     (if n = 0 then Some (tot, datalen, head # chunks)
      else if n < ch_datalen head then
        Some (tot, datalen - n, head\<lparr>ch_datalen := ch_datalen head - n, ch_data := ch_data head + n\<rparr> # chunks)
      else
        do {
          tot \<leftarrow> buf_chunk_free_unchecked tot head;
          drain_loop tot (datalen - ch_datalen head) chunks (n - ch_datalen head)
        })"

definition buf_drain :: "nat \<Rightarrow> buf_t \<Rightarrow> nat \<Rightarrow> (nat \<times> buf_t) option" where
  "buf_drain tot buf n =
     do {
       guard (n \<le> b_datalen buf);
       (tot, datalen, chunks) \<leftarrow> drain_loop tot (b_datalen buf) (buf_chunks buf) n;
       Some (tot, buf\<lparr>b_datalen := datalen, buf_chunks := chunks\<rparr>)
     }"

text \<open>The destination is the array \<open>string\<close> of the caller, written from offset \<open>at\<close>.\<close>

fun peek_loop :: "chunk_t list \<Rightarrow> byte list \<Rightarrow> nat \<Rightarrow> nat \<Rightarrow> byte list option" where
  "peek_loop [] string at string_len = (if string_len = 0 then Some string else None)"
| "peek_loop (chunk # chunks) string at string_len =
     (if string_len = 0 then Some string
      else
        do {
          let copy = (if ch_datalen chunk < string_len then ch_datalen chunk else string_len);
          d \<leftarrow> arr_slice (ch_mem chunk) (ch_data chunk) copy;
          string \<leftarrow> arr_blit string at d;
          peek_loop chunks string (at + copy) (string_len - copy)
        })"

definition buf_peek :: "buf_t \<Rightarrow> byte list \<Rightarrow> nat \<Rightarrow> byte list option" where
  "buf_peek buf string string_len =
     do {
       guard (string_len \<le> b_datalen buf);
       peek_loop (buf_chunks buf) string 0 string_len
     }"

definition buf_get_bytes :: "nat \<Rightarrow> buf_t \<Rightarrow> byte list \<Rightarrow> nat \<Rightarrow> (nat \<times> buf_t \<times> byte list \<times> int) option" where
  "buf_get_bytes tot buf string string_len =
     do {
       string \<leftarrow> buf_peek buf string string_len;
       (tot, buf) \<leftarrow> buf_drain tot buf string_len;
       guard (b_datalen buf \<le> BUF_MAX_LEN);
       Some (tot, buf, string, to_i32 (int (b_datalen buf)))
     }"

definition buf_extract :: "(nat \<Rightarrow> byte list) \<Rightarrow> buf_t \<Rightarrow> (byte list \<times> nat) option" where
  "buf_extract fresh buf =
     do {
       let sz = buf_datalen buf;
       result \<leftarrow> buf_peek buf (fresh (sz + 1)) sz;
       result \<leftarrow> arr_set result sz 0;
       Some (result, sz)
     }"

text \<open>
  The first part of \<open>buf_pullup\<close> makes room in the head, the loop moves data there. In the result,
  \<open>head_out\<close> is the offset of the data in the memory of the head, \<open>None\<close> when it is null.
\<close>

definition pullup_room :: "(nat \<Rightarrow> byte list) \<Rightarrow> nat \<Rightarrow> chunk_t \<Rightarrow> nat \<Rightarrow> (nat \<times> chunk_t) option" where
  "pullup_room fresh tot head cap =
     (if cap \<le> ch_memlen head then
        do {
          let needed = cap - ch_datalen head;
          head \<leftarrow> (if CHUNK_REMAINING_CAPACITY head < needed then chunk_repack head else Some head);
          guard (needed \<le> CHUNK_REMAINING_CAPACITY head);
          Some (tot, head)
        }
      else
        do {
          head \<leftarrow> chunk_repack head;
          s \<leftarrow> buf_preferred_chunk_size cap;
          let newsize = CHUNK_SIZE_WITH_ALLOC s;
          (tot, newhead) \<leftarrow> chunk_grow fresh tot head newsize;
          guard (cap \<le> ch_memlen newhead);
          Some (tot, newhead)
        })"

fun pullup_loop :: "nat \<Rightarrow> chunk_t \<Rightarrow> chunk_t list \<Rightarrow> nat \<Rightarrow> (nat \<times> chunk_t list) option" where
  "pullup_loop tot dest [] bytes = (if ch_datalen dest < bytes then None else Some (tot, [dest]))"
| "pullup_loop tot dest (src # chunks) bytes =
     (if ch_datalen dest < bytes then
        do {
          let n = bytes - ch_datalen dest;
          (if ch_datalen src \<le> n then
             do {
               d \<leftarrow> arr_slice (ch_mem src) (ch_data src) (ch_datalen src);
               mem \<leftarrow> arr_blit (ch_mem dest) (CHUNK_WRITE_PTR dest) d;
               let dest = dest\<lparr>ch_mem := mem, ch_datalen := ch_datalen dest + ch_datalen src\<rparr>;
               tot \<leftarrow> buf_chunk_free_unchecked tot src;
               pullup_loop tot dest chunks bytes
             }
           else
             do {
               d \<leftarrow> arr_slice (ch_mem src) (ch_data src) n;
               mem \<leftarrow> arr_blit (ch_mem dest) (CHUNK_WRITE_PTR dest) d;
               let dest = dest\<lparr>ch_mem := mem, ch_datalen := ch_datalen dest + n\<rparr>;
               let src = src\<lparr>ch_data := ch_data src + n, ch_datalen := ch_datalen src - n\<rparr>;
               guard (ch_datalen dest = bytes);
               Some (tot, dest # src # chunks)
             })
        }
      else Some (tot, dest # src # chunks))"

definition buf_pullup ::
    "(nat \<Rightarrow> byte list) \<Rightarrow> nat \<Rightarrow> buf_t \<Rightarrow> nat \<Rightarrow> (nat \<times> buf_t \<times> nat option \<times> nat) option" where
  "buf_pullup fresh tot buf bytes =
     (case buf_chunks buf of
        [] \<Rightarrow> Some (tot, buf, None, 0)
      | head # chunks \<Rightarrow>
          do {
            let bytes = (if b_datalen buf < bytes then b_datalen buf else bytes);
            let cap = bytes;
            (if bytes \<le> ch_datalen head then Some (tot, buf, Some (ch_data head), ch_datalen head)
             else
               do {
                 (tot, dest) \<leftarrow> pullup_room fresh tot head cap;
                 (tot, chunks) \<leftarrow> pullup_loop tot dest chunks bytes;
                 let buf = buf\<lparr>buf_chunks := chunks\<rparr>;
                 Some (tot, buf, Some (ch_data (hd chunks)), ch_datalen (hd chunks))
               })
          })"

subsection \<open>Moving data between buffers\<close>

text \<open>The array \<open>b\<close> of 4096 bytes on the stack.\<close>

function move_loop ::
    "(nat \<Rightarrow> byte list) \<Rightarrow> u32 \<Rightarrow> nat \<Rightarrow> buf_t \<Rightarrow> buf_t \<Rightarrow> byte list \<Rightarrow> nat \<Rightarrow> (nat \<times> buf_t \<times> buf_t) option" where
  "move_loop fresh now tot buf_out buf_in b len =
     (if len \<noteq> 0 then
        do {
          let n = (if 4096 < len then 4096 else len);
          (tot, buf_in, b, r) \<leftarrow> buf_get_bytes tot buf_in b n;
          s \<leftarrow> arr_slice b 0 n;
          (tot, buf_out, r) \<leftarrow> buf_add fresh now tot buf_out s;
          move_loop fresh now tot buf_out buf_in b (len - n)
        }
      else Some (tot, buf_out, buf_in))"
  by pat_completeness auto
termination
  by (relation "measure (\<lambda>(fresh, now, tot, bo, bi, b, len). len)") auto

definition buf_move_to_buf ::
    "(nat \<Rightarrow> byte list) \<Rightarrow> u32 \<Rightarrow> nat \<Rightarrow> buf_t \<Rightarrow> buf_t \<Rightarrow> nat \<Rightarrow> (nat \<times> buf_t \<times> buf_t \<times> nat \<times> int) option" where
  "buf_move_to_buf fresh now tot buf_out buf_in buf_flushlen =
     (if BUF_MAX_LEN < b_datalen buf_out \<or> BUF_MAX_LEN < buf_flushlen then Some (tot, buf_out, buf_in, buf_flushlen, -1)
      else if BUF_MAX_LEN - buf_flushlen < b_datalen buf_out then Some (tot, buf_out, buf_in, buf_flushlen, -1)
      else
        do {
          let len = (if b_datalen buf_in < buf_flushlen then b_datalen buf_in else buf_flushlen);
          let cp = len;
          guard (cp \<le> BUF_MAX_LEN);
          (tot, buf_out, buf_in) \<leftarrow> move_loop fresh now tot buf_out buf_in (fresh 4096) len;
          Some (tot, buf_out, buf_in, buf_flushlen - cp, to_i32 (int cp))
        })"

definition buf_move_all :: "buf_t \<Rightarrow> buf_t option \<Rightarrow> buf_t \<times> buf_t option \<times> nat" where
  "buf_move_all buf_out buf_in_p =
     (case buf_in_p of
        None \<Rightarrow> (buf_out, None, 0)
      | Some buf_in \<Rightarrow>
          if buf_datalen buf_in = 0 then (buf_out, Some buf_in, 0)
          else if BUF_MAX_LEN < b_datalen buf_out \<or> BUF_MAX_LEN < b_datalen buf_in then (buf_out, Some buf_in, 0)
          else if BUF_MAX_LEN - b_datalen buf_in < b_datalen buf_out then (buf_out, Some buf_in, 0)
          else
            (let n_bytes_moved = b_datalen buf_in;
                 buf_out = buf_out\<lparr>buf_chunks := buf_chunks buf_out @ buf_chunks buf_in\<rparr>;
                 buf_out = buf_out\<lparr>b_datalen := b_datalen buf_out + b_datalen buf_in\<rparr>;
                 buf_in = buf_in\<lparr>buf_chunks := [], b_datalen := 0\<rparr>
             in (buf_out, Some buf_in, n_bytes_moved)))"

subsection \<open>Searching\<close>

text \<open>A position: the chunks from the current one on, the offset in its data, the bytes before it.\<close>

record buf_pos_t =
  pos_chunk :: "chunk_t list"
  pos_pos :: nat
  pos_chunk_pos :: nat

definition buf_pos_init :: "buf_t \<Rightarrow> buf_pos_t" where
  "buf_pos_init buf = \<lparr>pos_chunk = buf_chunks buf, pos_pos = 0, pos_chunk_pos = 0\<rparr>"

fun find_pos_loop :: "byte \<Rightarrow> chunk_t list \<Rightarrow> nat \<Rightarrow> buf_pos_t \<Rightarrow> (buf_pos_t \<times> nat option) option" where
  "find_pos_loop ch [] pos out = Some (out, None)"
| "find_pos_loop ch (chunk # chunks) pos out =
     do {
       r \<leftarrow> memchr (ch_mem chunk) (ch_data chunk + pos) ch (ch_datalen chunk - pos);
       (case r of
          Some cp \<Rightarrow>
            do {
              guard (cp - ch_data chunk \<le> BUF_MAX_LEN);
              let out = out\<lparr>pos_chunk := chunk # chunks, pos_pos := cp - ch_data chunk\<rparr>;
              Some (out, Some (pos_chunk_pos out + pos_pos out))
            }
        | None \<Rightarrow> find_pos_loop ch chunks 0 (out\<lparr>pos_chunk_pos := pos_chunk_pos out + ch_datalen chunk\<rparr>))
     }"

text \<open>The second result is \<open>None\<close> for \<open>-1\<close>.\<close>

definition buf_find_pos_of_char :: "byte \<Rightarrow> buf_pos_t \<Rightarrow> (buf_pos_t \<times> nat option) option" where
  "buf_find_pos_of_char ch out =
     do {
       guard (case pos_chunk out of
                [] \<Rightarrow> True
              | chunk # chunks \<Rightarrow> if ch_datalen chunk \<noteq> 0 then pos_pos out < ch_datalen chunk else pos_pos out = 0);
       find_pos_loop ch (pos_chunk out) (pos_pos out) out
     }"

text \<open>The result is \<open>Some None\<close> at the end of the buffer.\<close>

definition buf_pos_inc :: "buf_pos_t \<Rightarrow> buf_pos_t option option" where
  "buf_pos_inc pos =
     (case pos_chunk pos of
        [] \<Rightarrow> None
      | chunk # chunks \<Rightarrow>
          do {
            guard (pos_pos pos < BUF_MAX_LEN);
            let pos = pos\<lparr>pos_pos := pos_pos pos + 1\<rparr>;
            (if pos_pos pos = ch_datalen chunk then
               (if chunks = [] then Some None
                else Some (Some (pos\<lparr>pos_chunk_pos := pos_chunk_pos pos + ch_datalen chunk, pos_chunk := chunks, pos_pos := 0\<rparr>)))
             else Some (Some pos))
          })"

fun matches_loop :: "buf_pos_t \<Rightarrow> byte list \<Rightarrow> bool option" where
  "matches_loop p [] = Some True"
| "matches_loop p (c # s) =
     (case pos_chunk p of
        [] \<Rightarrow> None
      | chunk # chunks \<Rightarrow>
          do {
            ch \<leftarrow> arr_get (ch_mem chunk) (ch_data chunk + pos_pos p);
            (if ch \<noteq> c then Some False
             else if s = [] then Some True
             else
               do {
                 r \<leftarrow> buf_pos_inc p;
                 (case r of
                    None \<Rightarrow> Some False
                  | Some p \<Rightarrow> matches_loop p s)
               })
          })"

definition buf_matches_at_pos :: "buf_pos_t \<Rightarrow> byte list \<Rightarrow> bool option" where
  "buf_matches_at_pos pos s = matches_loop pos s"

partial_function (option) find_string_offset_loop :: "buf_pos_t \<Rightarrow> byte \<Rightarrow> byte list \<Rightarrow> int option" where
  "find_string_offset_loop pos c s =
     do {
       (pos, r) \<leftarrow> buf_find_pos_of_char c pos;
       (case r of
          None \<Rightarrow> Some (-1)
        | Some a \<Rightarrow>
            do {
              m \<leftarrow> buf_matches_at_pos pos s;
              (if m then
                 do {
                   guard (pos_chunk_pos pos + pos_pos pos \<le> BUF_MAX_LEN);
                   Some (to_i32 (int (pos_chunk_pos pos + pos_pos pos)))
                 }
               else
                 do {
                   q \<leftarrow> buf_pos_inc pos;
                   (case q of
                      None \<Rightarrow> Some (-1)
                    | Some pos \<Rightarrow> find_string_offset_loop pos c s)
                 })
            })
     }"

text \<open>The string is the list of its \<open>n\<close> characters; its first one is read before \<open>n\<close> is looked at.\<close>

definition buf_find_string_offset :: "buf_t \<Rightarrow> byte list \<Rightarrow> int option" where
  "buf_find_string_offset buf s =
     do {
       let pos = buf_pos_init buf;
       c \<leftarrow> arr_get s 0;
       find_string_offset_loop pos c s
     }"

definition PEEK_BUF_STARTSWITH_MAX :: nat where
  "PEEK_BUF_STARTSWITH_MAX = 16"

definition buf_peek_startswith :: "(nat \<Rightarrow> byte list) \<Rightarrow> buf_t \<Rightarrow> byte list \<Rightarrow> bool option" where
  "buf_peek_startswith fresh buf cmd =
     (let clen = length cmd in
      if clen = 0 then Some True
      else if PEEK_BUF_STARTSWITH_MAX < clen then Some False
      else if b_datalen buf < clen then Some False
      else
        do {
          tmp \<leftarrow> buf_peek buf (fresh PEEK_BUF_STARTSWITH_MAX) clen;
          Some (take clen tmp = cmd)
        })"

fun offset_of_char_loop :: "chunk_t list \<Rightarrow> byte \<Rightarrow> nat \<Rightarrow> nat option option" where
  "offset_of_char_loop [] ch offset = Some None"
| "offset_of_char_loop (chunk # chunks) ch offset =
     do {
       r \<leftarrow> memchr (ch_mem chunk) (ch_data chunk) ch (ch_datalen chunk);
       (case r of
          Some cp \<Rightarrow> Some (Some (offset + (cp - ch_data chunk)))
        | None \<Rightarrow> offset_of_char_loop chunks ch (offset + ch_datalen chunk))
     }"

definition buf_find_offset_of_char :: "buf_t \<Rightarrow> byte \<Rightarrow> nat option option" where
  "buf_find_offset_of_char buf ch =
     do {
       guard (b_datalen buf \<le> BUF_MAX_LEN);
       offset_of_char_loop (buf_chunks buf) ch 0
     }"

text \<open>The array \<open>data_out\<close> and the value of \<open>data_len\<close> are returned with the buffer and the result.\<close>

definition buf_get_line :: "nat \<Rightarrow> buf_t \<Rightarrow> byte list \<Rightarrow> nat \<Rightarrow> (nat \<times> buf_t \<times> byte list \<times> nat \<times> int) option" where
  "buf_get_line tot buf data_out data_len =
     (if buf_chunks buf = [] then Some (tot, buf, data_out, data_len, 0)
      else
        do {
          offset \<leftarrow> buf_find_offset_of_char buf 10;
          (case offset of
             None \<Rightarrow> Some (tot, buf, data_out, data_len, 0)
           | Some sz \<Rightarrow>
               if data_len < sz + 2 then Some (tot, buf, data_out, sz + 2, -1)
               else
                 do {
                   (tot, buf, data_out, r) \<leftarrow> buf_get_bytes tot buf data_out (sz + 1);
                   data_out \<leftarrow> arr_set data_out (sz + 1) 0;
                   Some (tot, buf, data_out, sz + 1, 1)
                 })
        })"

subsection \<open>The checks of \<open>buf_assert_ok\<close>\<close>

definition chunk_assert_ok :: "chunk_t \<Rightarrow> bool" where
  "chunk_assert_ok ch \<longleftrightarrow>
     ch_datalen ch \<le> ch_memlen ch \<and> ch_datalen ch \<le> BUF_MAX_LEN \<and> ch_data ch \<le> ch_memlen ch \<and>
     ch_data ch + ch_datalen ch \<le> ch_memlen ch"

definition buf_assert_ok :: "buf_t \<Rightarrow> unit option" where
  "buf_assert_ok buf =
     do {
       guard (buf_magic buf = BUFFER_MAGIC);
       (if buf_chunks buf = [] then guard (b_datalen buf = 0)
        else
          do {
            guard (list_all chunk_assert_ok (buf_chunks buf));
            guard (b_datalen buf = fold (\<lambda>ch tot. tot + ch_datalen ch) (buf_chunks buf) 0)
          })
     }"

declare move_loop.simps [simp del] preferred_size_loop.simps [simp del]

subsection \<open>The contents and the invariant\<close>

definition chunk_bytes :: "chunk_t \<Rightarrow> byte list" where
  "chunk_bytes ch = take (ch_datalen ch) (drop (ch_data ch) (ch_mem ch))"

definition chunks_bytes :: "chunk_t list \<Rightarrow> byte list" where
  "chunks_bytes chs = concat (map chunk_bytes chs)"

definition chunk_ok :: "chunk_t \<Rightarrow> bool" where
  "chunk_ok ch \<longleftrightarrow> ch_data ch + ch_datalen ch \<le> ch_memlen ch \<and> DBG_alloc ch = CHUNK_ALLOC_SIZE (ch_memlen ch) \<and>
     length (ch_mem ch) = ch_memlen ch + SENTINEL_LEN \<and> drop (ch_memlen ch) (ch_mem ch) = replicate SENTINEL_LEN 0"

definition chunks_alloc :: "chunk_t list \<Rightarrow> nat" where
  "chunks_alloc chs = sum_list (map (\<lambda>ch. CHUNK_ALLOC_SIZE (ch_memlen ch)) chs)"

definition chunks_filled :: "chunk_t list \<Rightarrow> bool" where
  "chunks_filled chs = list_all (\<lambda>ch. ch_datalen ch \<noteq> 0) chs"

text \<open>The chunks hold \<open>xs\<close>; of the \<open>tot\<close> allocated bytes, \<open>rest\<close> are those of other buffers.\<close>

definition chunks_rel :: "nat \<Rightarrow> nat \<Rightarrow> chunk_t list \<Rightarrow> byte list \<Rightarrow> bool" where
  "chunks_rel tot rest chs xs \<longleftrightarrow> list_all chunk_ok chs \<and> chunks_bytes chs = xs \<and> tot = chunks_alloc chs + rest"

definition buf_shape :: "nat \<Rightarrow> nat \<Rightarrow> buf_t \<Rightarrow> byte list \<Rightarrow> bool" where
  "buf_shape tot rest buf xs \<longleftrightarrow> buf_magic buf = BUFFER_MAGIC \<and> chunks_rel tot rest (buf_chunks buf) xs \<and>
     b_datalen buf = length xs"

text \<open>The invariant: the buffer holds \<open>xs\<close>, which is not longer than a buffer may be.\<close>

definition buf_rel :: "nat \<Rightarrow> nat \<Rightarrow> buf_t \<Rightarrow> byte list \<Rightarrow> bool" where
  "buf_rel tot rest buf xs \<longleftrightarrow> buf_shape tot rest buf xs \<and> length xs \<le> BUF_MAX_LEN"

definition buf_filled :: "buf_t \<Rightarrow> bool" where
  "buf_filled buf = chunks_filled (buf_chunks buf)"

lemmas chunk_size_defs =
  CHUNK_ALLOC_SIZE_def CHUNK_SIZE_WITH_ALLOC_def CHUNK_OVERHEAD_def CHUNK_HEADER_LEN_def SENTINEL_LEN_def

lemma length_chunk_bytes [simp]: "chunk_ok ch \<Longrightarrow> length (chunk_bytes ch) = ch_datalen ch"
  by (auto simp: chunk_bytes_def chunk_ok_def min_def)

lemma chunks_bytes_simps [simp]:
  "chunks_bytes [] = []"
  "chunks_bytes (ch # chs) = chunk_bytes ch @ chunks_bytes chs"
  "chunks_bytes (chs @ chs') = chunks_bytes chs @ chunks_bytes chs'"
  by (simp_all add: chunks_bytes_def)

lemma chunks_alloc_simps [simp]:
  "chunks_alloc [] = 0"
  "chunks_alloc (ch # chs) = CHUNK_ALLOC_SIZE (ch_memlen ch) + chunks_alloc chs"
  "chunks_alloc (chs @ chs') = chunks_alloc chs + chunks_alloc chs'"
  by (simp_all add: chunks_alloc_def)

lemma chunks_filled_simps [simp]:
  "chunks_filled []"
  "chunks_filled (ch # chs) \<longleftrightarrow> ch_datalen ch \<noteq> 0 \<and> chunks_filled chs"
  "chunks_filled (chs @ chs') \<longleftrightarrow> chunks_filled chs \<and> chunks_filled chs'"
  by (simp_all add: chunks_filled_def)

lemma chunks_rel_Nil [simp]: "chunks_rel tot rest [] xs \<longleftrightarrow> xs = [] \<and> tot = rest"
  by (auto simp: chunks_rel_def)

lemma chunks_rel_Cons:
  "chunks_rel tot rest (ch # chs) xs \<longleftrightarrow>
     chunk_ok ch \<and> (\<exists>ys. xs = chunk_bytes ch @ ys \<and> chunks_rel tot (CHUNK_ALLOC_SIZE (ch_memlen ch) + rest) chs ys)"
  by (auto simp: chunks_rel_def)

lemma buf_allocation_eq: "buf_allocation buf = chunks_alloc (buf_chunks buf)"
proof -
  have "fold (\<lambda>chunk tot. tot + CHUNK_ALLOC_SIZE (ch_memlen chunk)) chs n = n + chunks_alloc chs" for chs n
    by (induction chs arbitrary: n) simp_all
  then show ?thesis by (simp add: buf_allocation_def)
qed

lemma buf_rel_new: "buf_rel tot tot buf_new []"
  by (simp add: buf_rel_def buf_shape_def buf_new_def)

lemma buf_datalen_rel: "buf_rel tot rest buf xs \<Longrightarrow> buf_datalen buf = length xs"
  by (simp add: buf_datalen_def buf_rel_def buf_shape_def)

text \<open>The checks of the code are part of the invariant.\<close>

lemma buf_assert_ok_rel:
  assumes "buf_rel tot rest buf xs"
  shows "buf_assert_ok buf = Some ()"
proof -
  have fold_eq: "list_all chunk_ok chs \<Longrightarrow> fold (\<lambda>ch tot. tot + ch_datalen ch) chs n = n + length (chunks_bytes chs)" for chs n
    by (induction chs arbitrary: n) auto
  have "list_all chunk_ok chs \<Longrightarrow> length (chunks_bytes chs) \<le> m \<Longrightarrow> list_all (\<lambda>ch. ch_datalen ch \<le> m) chs" for chs m
    by (induction chs) auto
  with assms show ?thesis
    by (auto simp: buf_rel_def buf_shape_def chunks_rel_def buf_assert_ok_def fold_eq chunk_assert_ok_def chunk_ok_def list_all_iff)
qed

subsection \<open>Chunk operations\<close>

lemma chunk_repack_ok:
  assumes "chunk_ok ch"
  obtains ch' where "chunk_repack ch = Some ch'" "chunk_ok ch'" "chunk_bytes ch' = chunk_bytes ch"
    "ch_memlen ch' = ch_memlen ch" "ch_datalen ch' = ch_datalen ch" "ch_data ch' = 0"
proof (cases "ch_datalen ch \<noteq> 0 \<and> ch_data ch \<noteq> 0")
  case True
  let ?d = "take (ch_datalen ch) (drop (ch_data ch) (ch_mem ch))"
  have len: "length ?d = ch_datalen ch" using length_chunk_bytes [OF assms] by (simp add: chunk_bytes_def)
  let ?c = "ch\<lparr>ch_mem := ?d @ drop (ch_datalen ch) (ch_mem ch), ch_data := 0\<rparr>"
  have "chunk_repack ch = Some ?c"
    using True assms len by (simp add: chunk_repack_def arr_slice_in arr_blit_in chunk_ok_def)
  moreover have "chunk_ok ?c"
    using assms len by (simp add: chunk_ok_def add.commute)
  moreover have "chunk_bytes ?c = chunk_bytes ch"
    using len by (simp add: chunk_bytes_def)
  ultimately show ?thesis using that by simp
next
  case False
  then have "chunk_repack ch = Some (ch\<lparr>ch_data := 0\<rparr>)" "chunk_bytes (ch\<lparr>ch_data := 0\<rparr>) = chunk_bytes ch"
    by (auto simp: chunk_repack_def chunk_bytes_def)
  moreover have "chunk_ok (ch\<lparr>ch_data := 0\<rparr>)" using assms by (simp add: chunk_ok_def)
  ultimately show ?thesis using that by simp
qed

lemma chunk_new_ok:
  assumes "\<And>n. length (fresh n) = n" "CHUNK_OVERHEAD < alloc"
  obtains ch where "chunk_new_with_alloc_size fresh tot alloc = Some (tot + alloc, ch)" "chunk_ok ch"
    "ch_data ch = 0" "ch_datalen ch = 0" "0 < ch_memlen ch" "CHUNK_ALLOC_SIZE (ch_memlen ch) = alloc"
    "ch_memlen ch = CHUNK_SIZE_WITH_ALLOC alloc"
  using assms
  by (simp add: chunk_new_with_alloc_size_def CHUNK_SET_SENTINEL_def arr_fill_in chunk_ok_def chunk_size_defs)

lemma chunk_grow_ok:
  assumes "\<And>n. length (fresh n) = n" "chunk_ok ch" "ch_memlen ch < sz"
  obtains ch' where "chunk_grow fresh tot ch sz = Some (tot + (sz - ch_memlen ch), ch')" "chunk_ok ch'"
    "chunk_bytes ch' = chunk_bytes ch" "ch_memlen ch' = sz" "ch_datalen ch' = ch_datalen ch" "ch_data ch' = ch_data ch"
proof -
  let ?m = "take sz (ch_mem ch @ fresh (sz - ch_memlen ch)) @ replicate 4 0"
  let ?c = "ch\<lparr>ch_mem := ?m, ch_memlen := sz, DBG_alloc := CHUNK_ALLOC_SIZE sz\<rparr>"
  have "chunk_grow fresh tot ch sz = Some (tot + (sz - ch_memlen ch), ?c)"
    using assms
    by (simp add: chunk_grow_def CHUNK_SET_SENTINEL_def arr_fill_in chunk_ok_def chunk_size_defs Let_def)
  moreover have "chunk_ok ?c" using assms by (simp add: chunk_ok_def chunk_size_defs)
  moreover have "ch_datalen ch \<le> sz - ch_data ch" "ch_data ch + ch_datalen ch \<le> length (ch_mem ch)"
    using assms by (auto simp: chunk_ok_def)
  then have "chunk_bytes ?c = chunk_bytes ch"
    by (simp add: chunk_bytes_def drop_take min_absorb1)
  ultimately show ?thesis using that by simp
qed

lemma chunk_free_ok [simp]:
  "chunk_ok ch \<Longrightarrow> CHUNK_ALLOC_SIZE (ch_memlen ch) \<le> tot \<Longrightarrow>
     buf_chunk_free_unchecked tot ch = Some (tot - CHUNK_ALLOC_SIZE (ch_memlen ch))"
  by (simp add: buf_chunk_free_unchecked_def chunk_ok_def)

text \<open>Writing at the write pointer appends to the data of the chunk.\<close>

lemma chunk_append_ok:
  assumes "chunk_ok ch" "length ys \<le> CHUNK_REMAINING_CAPACITY ch"
  obtains mem where "arr_blit (ch_mem ch) (CHUNK_WRITE_PTR ch) ys = Some mem"
    "chunk_ok (ch\<lparr>ch_mem := mem, ch_datalen := ch_datalen ch + length ys\<rparr>)"
    "chunk_bytes (ch\<lparr>ch_mem := mem, ch_datalen := ch_datalen ch + length ys\<rparr>) = chunk_bytes ch @ ys"
proof -
  let ?mem = "take (CHUNK_WRITE_PTR ch) (ch_mem ch) @ ys @ drop (CHUNK_WRITE_PTR ch + length ys) (ch_mem ch)"
  have le: "CHUNK_WRITE_PTR ch + length ys \<le> ch_memlen ch" and len: "length (ch_mem ch) = ch_memlen ch + 4"
    using assms by (auto simp: chunk_ok_def CHUNK_REMAINING_CAPACITY_def CHUNK_WRITE_PTR_def SENTINEL_LEN_def)
  then have "arr_blit (ch_mem ch) (CHUNK_WRITE_PTR ch) ys = Some ?mem" by (simp add: arr_blit_in)
  moreover have "chunk_ok (ch\<lparr>ch_mem := ?mem, ch_datalen := ch_datalen ch + length ys\<rparr>)"
    using assms le len by (simp add: chunk_ok_def CHUNK_WRITE_PTR_def min_def)
  moreover have "chunk_bytes (ch\<lparr>ch_mem := ?mem, ch_datalen := ch_datalen ch + length ys\<rparr>) = chunk_bytes ch @ ys"
    using le len by (auto simp: chunk_bytes_def CHUNK_WRITE_PTR_def min_def drop_take)
  ultimately show ?thesis using that by blast
qed

subsection \<open>Sizes of new chunks\<close>

lemma preferred_size_loop_ge: "0 < sz \<Longrightarrow> target \<le> CHUNK_SIZE_WITH_ALLOC (preferred_size_loop target sz) \<and> sz \<le> preferred_size_loop target sz"
  by (induction target sz rule: preferred_size_loop.induct, subst (1 2) preferred_size_loop.simps) auto

lemma buf_preferred_chunk_size_ok:
  assumes "target \<le> SIZE_T_CEILING - CHUNK_OVERHEAD"
  obtains s where "buf_preferred_chunk_size target = Some s" "CHUNK_OVERHEAD < s \<or> target = 0" "MIN_CHUNK_ALLOC \<le> s"
    "target \<le> CHUNK_SIZE_WITH_ALLOC s"
  using assms preferred_size_loop_ge [of MIN_CHUNK_ALLOC target]
  by (auto simp: buf_preferred_chunk_size_def MIN_CHUNK_ALLOC_def MAX_CHUNK_ALLOC_def chunk_size_defs split: if_splits)

lemma buf_add_chunk_ok:
  assumes fresh: "\<And>n. length (fresh n) = n" and rel: "buf_shape tot rest buf xs" and cap: "0 < cap"
    and fits: "capped \<or> cap \<le> SIZE_T_CEILING - CHUNK_OVERHEAD"
  obtains ch tot' where
    "buf_add_chunk_with_capacity fresh now tot buf cap capped = Some (tot', buf\<lparr>buf_chunks := buf_chunks buf @ [ch]\<rparr>)"
    "chunk_ok ch" "ch_data ch = 0" "ch_datalen ch = 0" "0 < ch_memlen ch" "inserted_time ch = now"
    "buf_shape tot' rest (buf\<lparr>buf_chunks := buf_chunks buf @ [ch]\<rparr>) xs" "capped \<or> cap \<le> ch_memlen ch"
proof -
  have "\<exists>alloc. CHUNK_OVERHEAD < alloc \<and> (capped \<or> cap \<le> CHUNK_SIZE_WITH_ALLOC alloc) \<and>
     (\<forall>ch. chunk_new_with_alloc_size fresh tot alloc = Some (tot + alloc, ch) \<longrightarrow>
       buf_add_chunk_with_capacity fresh now tot buf cap capped =
       Some (tot + alloc, buf\<lparr>buf_chunks := buf_chunks buf @ [ch\<lparr>inserted_time := now\<rparr>]\<rparr>))"
  proof (cases "CHUNK_ALLOC_SIZE cap < default_chunk_size buf \<or> capped \<and> MAX_CHUNK_ALLOC < CHUNK_ALLOC_SIZE cap")
    case True
    then show ?thesis
      by (cases "CHUNK_ALLOC_SIZE cap < default_chunk_size buf")
        (auto simp: buf_add_chunk_with_capacity_def chunk_size_defs MAX_CHUNK_ALLOC_def
          intro: exI [of _ "default_chunk_size buf"] exI [of _ 65536])
  next
    case False
    then have "cap \<le> SIZE_T_CEILING - CHUNK_OVERHEAD"
      using fits by (auto simp: MAX_CHUNK_ALLOC_def SIZE_T_CEILING_def chunk_size_defs)
    then obtain s where "buf_preferred_chunk_size cap = Some s" "CHUNK_OVERHEAD < s" "cap \<le> CHUNK_SIZE_WITH_ALLOC s"
      using cap by (auto elim: buf_preferred_chunk_size_ok)
    with False show ?thesis
      by (intro exI [of _ s]) (auto simp: buf_add_chunk_with_capacity_def)
  qed
  then obtain alloc where alloc: "CHUNK_OVERHEAD < alloc" "capped \<or> cap \<le> CHUNK_SIZE_WITH_ALLOC alloc"
    and add: "\<And>ch. chunk_new_with_alloc_size fresh tot alloc = Some (tot + alloc, ch) \<Longrightarrow>
       buf_add_chunk_with_capacity fresh now tot buf cap capped =
       Some (tot + alloc, buf\<lparr>buf_chunks := buf_chunks buf @ [ch\<lparr>inserted_time := now\<rparr>]\<rparr>)" by blast
  obtain ch where ch: "chunk_new_with_alloc_size fresh tot alloc = Some (tot + alloc, ch)" "chunk_ok ch"
    "ch_data ch = 0" "ch_datalen ch = 0" "0 < ch_memlen ch" "CHUNK_ALLOC_SIZE (ch_memlen ch) = alloc"
    "ch_memlen ch = CHUNK_SIZE_WITH_ALLOC alloc"
    using chunk_new_ok [OF fresh alloc(1)] .
  let ?ch = "ch\<lparr>inserted_time := now\<rparr>"
  have "chunk_ok ?ch" using ch(2) by (simp add: chunk_ok_def)
  moreover have "buf_shape (tot + alloc) rest (buf\<lparr>buf_chunks := buf_chunks buf @ [?ch]\<rparr>) xs"
    using rel ch calculation by (auto simp: buf_shape_def chunks_rel_def chunk_bytes_def)
  ultimately show ?thesis
    using that [OF add [OF ch(1)]] ch alloc by simp
qed

subsection \<open>Adding data\<close>

lemma fill_tail_ok:
  assumes rel: "buf_shape tot rest buf xs" and ne: "buf_chunks buf \<noteq> []"
    and copy: "copy \<le> length string" "copy \<le> CHUNK_REMAINING_CAPACITY (last (buf_chunks buf))"
  obtains buf' where "fill_tail buf string copy = Some buf'" "buf_shape tot rest buf' (xs @ take copy string)"
    "chunks_filled (butlast (buf_chunks buf)) \<Longrightarrow> 0 < copy \<Longrightarrow> buf_filled buf'"
proof -
  obtain chs ch where chs: "buf_chunks buf = chs @ [ch]" using ne by (metis append_butlast_last_id)
  with rel have ok: "chunk_ok ch" by (simp add: buf_shape_def chunks_rel_def)
  have tlen: "length (take copy string) = copy" using copy by simp
  with copy chs obtain mem where mem: "arr_blit (ch_mem ch) (CHUNK_WRITE_PTR ch) (take copy string) = Some mem"
    "chunk_ok (ch\<lparr>ch_mem := mem, ch_datalen := ch_datalen ch + copy\<rparr>)"
    "chunk_bytes (ch\<lparr>ch_mem := mem, ch_datalen := ch_datalen ch + copy\<rparr>) = chunk_bytes ch @ take copy string"
    using chunk_append_ok [OF ok, of "take copy string"] by auto
  let ?b = "buf\<lparr>b_datalen := b_datalen buf + copy,
    buf_chunks := chs @ [ch\<lparr>ch_mem := mem, ch_datalen := ch_datalen ch + copy\<rparr>]\<rparr>"
  have "fill_tail buf string copy = Some ?b"
    using chs mem copy by (simp add: fill_tail_def arr_slice_in)
  moreover have "buf_shape tot rest ?b (xs @ take copy string)"
    using rel chs mem copy by (auto simp: buf_shape_def chunks_rel_def)
  ultimately show ?thesis using that [of ?b] chs by (simp add: buf_filled_def)
qed

lemma buf_add_loop_ok:
  assumes fresh: "\<And>n. length (fresh n) = n"
  shows "buf_shape tot rest buf xs \<Longrightarrow>
    \<exists>tot' buf'. buf_add_loop fresh now tot buf string = Some (tot', buf') \<and> buf_shape tot' rest buf' (xs @ string) \<and>
      (buf_filled buf \<longrightarrow> buf_filled buf')"
proof (induction string arbitrary: tot buf xs rule: length_induct)
  case (1 string)
  show ?case
  proof (cases "string = []")
    case True
    then show ?thesis using "1.prems" by (simp add: buf_add_loop.simps)
  next
    case False
    let ?full = "buf_chunks buf = [] \<or> CHUNK_REMAINING_CAPACITY (last (buf_chunks buf)) = 0"
    let ?sel = "if ?full then buf_add_chunk_with_capacity fresh now tot buf (length string) True else Some (tot, buf)"
    obtain tot1 buf1 where b1: "?sel = Some (tot1, buf1)" "buf_shape tot1 rest buf1 xs" "buf_chunks buf1 \<noteq> []"
      "0 < CHUNK_REMAINING_CAPACITY (last (buf_chunks buf1))" "buf_filled buf \<longrightarrow> chunks_filled (butlast (buf_chunks buf1))"
    proof (cases ?full)
      case True
      obtain ch t where "buf_add_chunk_with_capacity fresh now tot buf (length string) True =
          Some (t, buf\<lparr>buf_chunks := buf_chunks buf @ [ch]\<rparr>)" "ch_data ch = 0" "ch_datalen ch = 0" "0 < ch_memlen ch"
        "buf_shape t rest (buf\<lparr>buf_chunks := buf_chunks buf @ [ch]\<rparr>) xs"
        by (rule buf_add_chunk_ok [OF fresh "1.prems", of "length string" True now]) (use False in auto)
      with True show ?thesis
        using that [of t "buf\<lparr>buf_chunks := buf_chunks buf @ [ch]\<rparr>"]
        by (simp add: CHUNK_REMAINING_CAPACITY_def buf_filled_def)
    next
      case False
      moreover from this have "buf_filled buf \<longrightarrow> chunks_filled (butlast (buf_chunks buf))"
        by (metis append_butlast_last_id buf_filled_def chunks_filled_simps(3))
      ultimately show ?thesis using that [of tot buf] "1.prems" by simp
    qed
    define copy where "copy = (if length string < CHUNK_REMAINING_CAPACITY (last (buf_chunks buf1)) then length string
      else CHUNK_REMAINING_CAPACITY (last (buf_chunks buf1)))"
    have copy: "0 < copy" "copy \<le> length string" "copy \<le> CHUNK_REMAINING_CAPACITY (last (buf_chunks buf1))"
      using b1(4) False by (auto simp: copy_def)
    obtain buf2 where b2: "fill_tail buf1 string copy = Some buf2" "buf_shape tot1 rest buf2 (xs @ take copy string)"
      "chunks_filled (butlast (buf_chunks buf1)) \<Longrightarrow> 0 < copy \<Longrightarrow> buf_filled buf2"
      using fill_tail_ok [OF b1(2,3) copy(2,3)] by blast
    have "\<exists>tot' buf'. buf_add_loop fresh now tot1 buf2 (drop copy string) = Some (tot', buf') \<and>
        buf_shape tot' rest buf' ((xs @ take copy string) @ drop copy string) \<and> (buf_filled buf2 \<longrightarrow> buf_filled buf')"
      using copy False by (intro "1.IH" [rule_format, OF _ b2(2)]) auto
    then obtain tot' buf' where res: "buf_add_loop fresh now tot1 buf2 (drop copy string) = Some (tot', buf')"
      "buf_shape tot' rest buf' (xs @ string)" "buf_filled buf2 \<longrightarrow> buf_filled buf'" by auto
    have "buf_add_loop fresh now tot buf string = Some (tot', buf')"
      by (subst buf_add_loop.simps)
        (use False b1(1) b2(1) res(1) in \<open>simp add: Let_def copy_def [symmetric] del: if_split\<close>)
    moreover have "buf_filled buf \<longrightarrow> buf_filled buf2" using b1(5) b2(3) copy(1) by blast
    ultimately show ?thesis using res by blast
  qed
qed

lemma to_i32_len [simp]: "n \<le> BUF_MAX_LEN \<Longrightarrow> to_i32 (int n) = int n"
  by (simp add: BUF_MAX_LEN_def is_int_defs)

lemma to_i32_len_add [simp]: "m + n \<le> BUF_MAX_LEN \<Longrightarrow> to_i32 (int m + int n) = int m + int n"
  using to_i32_len [of "m + n"] by simp

lemma buf_add_ok:
  assumes fresh: "\<And>n. length (fresh n) = n" and rel: "buf_rel tot rest buf xs" and len: "length string \<le> BUF_MAX_LEN"
  shows "\<exists>tot' buf'. buf_add fresh now tot buf string =
        Some (tot', buf', if length xs + length string \<le> BUF_MAX_LEN then int (length xs + length string) else -1) \<and>
      buf_rel tot' rest buf' (if length xs + length string \<le> BUF_MAX_LEN then xs @ string else xs) \<and>
      (buf_filled buf \<longrightarrow> buf_filled buf')"
proof -
  have dl: "b_datalen buf = length xs" "length xs \<le> BUF_MAX_LEN" using rel by (simp_all add: buf_rel_def buf_shape_def)
  have u: "to_u64 (int BUF_MAX_LEN - int (length string)) = int BUF_MAX_LEN - int (length string)"
    using len by (intro to_int_id) (auto simp: is_int_defs BUF_MAX_LEN_def)
  show ?thesis
  proof (cases "length xs + length string \<le> BUF_MAX_LEN")
    case True
    have "buf_shape tot rest buf xs" using rel by (simp add: buf_rel_def)
    with True obtain tot' buf' where "buf_add_loop fresh now tot buf string = Some (tot', buf')"
      "buf_rel tot' rest buf' (xs @ string)" "buf_filled buf \<longrightarrow> buf_filled buf'"
      using buf_add_loop_ok [OF fresh] by (force simp: buf_rel_def)
    moreover from this have "b_datalen buf' = length xs + length string" by (simp add: buf_rel_def buf_shape_def)
    ultimately show ?thesis using True dl u rel by (auto simp: buf_add_def)
  next
    case False
    then show ?thesis using dl u rel by (auto simp: buf_add_def)
  qed
qed

lemma buf_add_aborts:
  assumes fresh: "\<And>n. length (fresh n) = n" and rel: "buf_rel tot rest buf xs"
    and len: "BUF_MAX_LEN < length string" "length string < 2 ^ 63"
  shows "buf_add fresh now tot buf string = None"
proof -
  have dl: "b_datalen buf = length xs" "length xs \<le> BUF_MAX_LEN" using rel by (simp_all add: buf_rel_def buf_shape_def)
  have "to_u64 (int BUF_MAX_LEN - int (length string)) = int BUF_MAX_LEN - int (length string) + 18446744073709551616"
    using len unfolding to_u64_def by (subst mod_add_self2 [symmetric], intro mod_pos_pos_trivial) (simp_all add: BUF_MAX_LEN_def)
  with len dl have "int (b_datalen buf) \<le> to_u64 (int BUF_MAX_LEN - int (length string))"
    by (simp add: BUF_MAX_LEN_def)
  moreover obtain tot' buf' where "buf_add_loop fresh now tot buf string = Some (tot', buf')"
    "buf_shape tot' rest buf' (xs @ string)"
    using buf_add_loop_ok [OF fresh] rel by (force simp: buf_rel_def)
  moreover from this have "b_datalen buf' = length xs + length string" by (simp add: buf_shape_def)
  ultimately show ?thesis using dl len by (auto simp: buf_add_def)
qed

subsection \<open>Removing data\<close>

lemma free_chunks_ok:
  "chunks_rel tot rest chs xs \<Longrightarrow> free_chunks tot chs = Some rest"
proof (induction chs arbitrary: tot xs)
  case (Cons ch chs)
  then have "buf_chunk_free_unchecked tot ch = Some (tot - CHUNK_ALLOC_SIZE (ch_memlen ch))"
    "chunks_rel (tot - CHUNK_ALLOC_SIZE (ch_memlen ch)) rest chs (chunks_bytes chs)"
    by (auto simp: chunks_rel_def)
  with Cons.IH show ?case by simp
qed simp

lemma buf_clear_ok:
  "buf_rel tot rest buf xs \<Longrightarrow> \<exists>buf'. buf_clear tot buf = Some (rest, buf') \<and> buf_rel rest rest buf' [] \<and> buf_filled buf'"
  by (auto simp: buf_clear_def buf_rel_def buf_shape_def buf_filled_def dest!: free_chunks_ok)

lemma buf_free_ok: "buf_rel tot rest buf xs \<Longrightarrow> buf_free tot (Some buf) = Some rest"
  using buf_clear_ok by (fastforce simp: buf_free_def)

lemma drain_loop_ok:
  assumes "chunks_rel tot rest chs xs" "n \<le> length xs" "length xs \<le> datalen"
  shows "\<exists>tot' chs'. drain_loop tot datalen chs n = Some (tot', datalen - n, chs') \<and>
    chunks_rel tot' rest chs' (drop n xs) \<and> (chunks_filled chs \<longrightarrow> chunks_filled chs')"
  using assms
proof (induction chs arbitrary: tot datalen n xs)
  case Nil
  then show ?case by simp
next
  case (Cons ch chs)
  from Cons.prems(1) obtain ys where ys: "xs = chunk_bytes ch @ ys" and ok: "chunk_ok ch"
    and tl: "chunks_rel (tot - CHUNK_ALLOC_SIZE (ch_memlen ch)) rest chs ys"
    and le: "CHUNK_ALLOC_SIZE (ch_memlen ch) \<le> tot"
    by (auto simp: chunks_rel_def)
  show ?case
  proof (cases "n < ch_datalen ch")
    case True
    let ?ch = "ch\<lparr>ch_datalen := ch_datalen ch - n, ch_data := ch_data ch + n\<rparr>"
    have "chunk_ok ?ch" "chunk_bytes ?ch = drop n (chunk_bytes ch)"
      using ok True by (auto simp: chunk_ok_def chunk_bytes_def drop_take add.commute)
    moreover have "drop n xs = drop n (chunk_bytes ch) @ ys" using ys ok True by simp
    ultimately show ?thesis
      using True Cons.prems(1) ys by (cases "n = 0") (auto simp: chunks_rel_def)
  next
    case False
    then have n: "ch_datalen ch \<le> n" "n - ch_datalen ch \<le> length ys" "length ys \<le> datalen - ch_datalen ch"
      using Cons.prems ys ok by auto
    moreover have "drop n xs = drop (n - ch_datalen ch) ys" using ys ok n by simp
    moreover have "datalen - ch_datalen ch - (n - ch_datalen ch) = datalen - n" using n by simp
    ultimately show ?thesis
      using Cons.IH [OF tl n(2,3)] False ok le Cons.prems(1) by auto
  qed
qed

lemma buf_drain_ok:
  assumes "buf_rel tot rest buf xs" "n \<le> length xs"
  shows "\<exists>tot' buf'. buf_drain tot buf n = Some (tot', buf') \<and> buf_rel tot' rest buf' (drop n xs) \<and>
    (buf_filled buf \<longrightarrow> buf_filled buf')"
proof -
  have "chunks_rel tot rest (buf_chunks buf) xs" "length xs \<le> b_datalen buf" "b_datalen buf = length xs"
    using assms by (auto simp: buf_rel_def buf_shape_def)
  with assms show ?thesis
    using drain_loop_ok [OF _ assms(2)] by (fastforce simp: buf_drain_def buf_rel_def buf_shape_def buf_filled_def)
qed

lemma peek_loop_ok:
  assumes "list_all chunk_ok chs" "n \<le> length (chunks_bytes chs)" "at + n \<le> length string"
  shows "peek_loop chs string at n = Some (take at string @ take n (chunks_bytes chs) @ drop (at + n) string)"
  using assms
proof (induction chs arbitrary: string at n)
  case Nil
  then show ?case by simp
next
  case (Cons ch chs)
  then have ok: "chunk_ok ch" and len: "length (chunk_bytes ch) = ch_datalen ch" by simp_all
  define copy where "copy = (if ch_datalen ch < n then ch_datalen ch else n)"
  let ?d = "take copy (drop (ch_data ch) (ch_mem ch))"
  let ?s = "take at string @ ?d @ drop (at + copy) string"
  have copy: "copy \<le> ch_datalen ch" "copy \<le> n" by (simp_all add: copy_def)
  have d: "?d = take copy (chunk_bytes ch)" using copy by (simp add: chunk_bytes_def min_absorb1)
  have slice: "arr_slice (ch_mem ch) (ch_data ch) copy = Some ?d"
    using ok copy by (simp add: arr_slice_in chunk_ok_def)
  have dlen: "length ?d = copy" using d len copy by simp
  have blit: "arr_blit string at ?d = Some ?s" using dlen copy Cons.prems(3) by (simp add: arr_blit_in)
  have "peek_loop chs ?s (at + copy) (n - copy) =
      Some (take (at + copy) ?s @ take (n - copy) (chunks_bytes chs) @ drop (at + copy + (n - copy)) ?s)"
  proof (rule Cons.IH)
    show "n - copy \<le> length (chunks_bytes chs)" using Cons.prems(1,2) len by (auto simp: copy_def)
    show "at + copy + (n - copy) \<le> length ?s" using dlen copy Cons.prems(3) by simp
  qed (use Cons.prems in simp)
  moreover have "take (at + copy) ?s = take at string @ ?d" using dlen copy Cons.prems(3) by simp
  moreover have "drop (at + copy + (n - copy)) ?s = drop (at + n) string"
    using dlen copy Cons.prems(3) by (simp add: add.commute)
  moreover have "take n (chunks_bytes (ch # chs)) = ?d @ take (n - copy) (chunks_bytes chs)"
    using d len by (auto simp: copy_def)
  ultimately show ?case
    using slice blit by (cases "n = 0") (simp_all add: copy_def [symmetric] del: take_append drop_append)
qed

lemma buf_peek_ok:
  assumes "buf_rel tot rest buf xs" "n \<le> length xs" "n \<le> length string"
  shows "buf_peek buf string n = Some (take n xs @ drop n string)"
  using assms peek_loop_ok [of "buf_chunks buf" n 0 string]
  by (auto simp: buf_peek_def buf_rel_def buf_shape_def chunks_rel_def)

lemma buf_get_bytes_ok:
  assumes "buf_rel tot rest buf xs" "n \<le> length xs" "n \<le> length string"
  shows "\<exists>tot' buf'. buf_get_bytes tot buf string n =
      Some (tot', buf', take n xs @ drop n string, int (length xs - n)) \<and> buf_rel tot' rest buf' (drop n xs) \<and>
    (buf_filled buf \<longrightarrow> buf_filled buf')"
proof -
  obtain tot' buf' where d: "buf_drain tot buf n = Some (tot', buf')" "buf_rel tot' rest buf' (drop n xs)"
    "buf_filled buf \<longrightarrow> buf_filled buf'" using buf_drain_ok [OF assms(1,2)] by blast
  then have "b_datalen buf' = length xs - n" "length xs - n \<le> BUF_MAX_LEN"
    by (auto simp: buf_rel_def buf_shape_def)
  then show ?thesis
    using d buf_peek_ok [OF assms] by (simp add: buf_get_bytes_def)
qed

lemma buf_extract_ok:
  assumes "\<And>n. length (fresh n) = n" "buf_rel tot rest buf xs"
  shows "buf_extract fresh buf = Some (xs @ [0], length xs)"
proof -
  have len: "length (fresh (length xs + 1)) = length xs + 1" using assms(1) .
  then have "length (drop (length xs) (fresh (length xs + 1))) = Suc 0" by simp
  then obtain x where "drop (length xs) (fresh (length xs + 1)) = [x]" unfolding length_Suc_conv by auto
  then have "arr_set (xs @ drop (length xs) (fresh (length xs + 1))) (length xs) 0 = Some (xs @ [0])"
    by (simp add: arr_set_def)
  then show ?thesis
    using assms buf_peek_ok [OF assms(2), of "length xs" "fresh (length xs + 1)"] len
    by (simp add: buf_extract_def buf_datalen_def buf_rel_def buf_shape_def)
qed

subsection \<open>Copies\<close>

lemma copy_chunks_ok:
  "list_all chunk_ok chs \<Longrightarrow> copy_chunks tot chs out = (tot + chunks_alloc chs, out @ chs)"
  by (induction chs arbitrary: tot out) (auto simp: chunk_copy_def chunk_ok_def)

lemma buf_copy_ok:
  assumes "buf_rel tot rest buf xs"
  shows "\<exists>buf'. buf_copy tot buf = (tot + buf_allocation buf, buf') \<and> buf_rel (tot + buf_allocation buf) tot buf' xs \<and>
    (buf_filled buf \<longrightarrow> buf_filled buf')"
  using assms
  by (auto simp: buf_copy_def buf_rel_def buf_shape_def chunks_rel_def copy_chunks_ok buf_allocation_eq buf_filled_def
      buf_new_def Let_def)

subsection \<open>\<open>buf_pullup\<close>\<close>

lemma pullup_room_ok:
  assumes fresh: "\<And>n. length (fresh n) = n" and ok: "chunk_ok ch" and cap: "ch_datalen ch < cap" "cap \<le> BUF_MAX_LEN"
  obtains tot' ch' where "pullup_room fresh tot ch cap = Some (tot', ch')" "chunk_ok ch'" "chunk_bytes ch' = chunk_bytes ch"
    "ch_datalen ch' = ch_datalen ch" "tot' + ch_memlen ch = tot + ch_memlen ch'" "cap - ch_datalen ch \<le> CHUNK_REMAINING_CAPACITY ch'"
proof -
  obtain ch1 where ch1: "chunk_repack ch = Some ch1" "chunk_ok ch1" "chunk_bytes ch1 = chunk_bytes ch"
    "ch_memlen ch1 = ch_memlen ch" "ch_datalen ch1 = ch_datalen ch" "ch_data ch1 = 0"
    using chunk_repack_ok [OF ok] .
  show ?thesis
  proof (cases "cap \<le> ch_memlen ch")
    case True
    show ?thesis
    proof (cases "CHUNK_REMAINING_CAPACITY ch < cap - ch_datalen ch")
      case room: True
      moreover have "cap - ch_datalen ch \<le> CHUNK_REMAINING_CAPACITY ch1"
        using True ch1 by (simp add: CHUNK_REMAINING_CAPACITY_def)
      ultimately show ?thesis
        using that [of tot ch1] True ch1 by (simp add: pullup_room_def)
    next
      case False
      then show ?thesis using that [of tot ch] True ok by (simp add: pullup_room_def)
    qed
  next
    case False
    have "cap \<le> SIZE_T_CEILING - CHUNK_OVERHEAD"
      using cap(2) by (simp add: BUF_MAX_LEN_def SIZE_T_CEILING_def chunk_size_defs)
    then obtain s where s: "buf_preferred_chunk_size cap = Some s" "cap \<le> CHUNK_SIZE_WITH_ALLOC s"
      using buf_preferred_chunk_size_ok by blast
    with False ch1(4) have "ch_memlen ch1 < CHUNK_SIZE_WITH_ALLOC s" by simp
    then obtain ch2 where ch2: "chunk_grow fresh tot ch1 (CHUNK_SIZE_WITH_ALLOC s) =
        Some (tot + (CHUNK_SIZE_WITH_ALLOC s - ch_memlen ch1), ch2)" "chunk_ok ch2" "chunk_bytes ch2 = chunk_bytes ch1"
      "ch_memlen ch2 = CHUNK_SIZE_WITH_ALLOC s" "ch_datalen ch2 = ch_datalen ch1" "ch_data ch2 = ch_data ch1"
      using chunk_grow_ok [OF fresh ch1(2)] by blast
    show ?thesis
    proof (rule that [of "tot + (CHUNK_SIZE_WITH_ALLOC s - ch_memlen ch1)" ch2])
      show "pullup_room fresh tot ch cap = Some (tot + (CHUNK_SIZE_WITH_ALLOC s - ch_memlen ch1), ch2)"
        using False s ch1 ch2 by (simp add: pullup_room_def)
    qed (use ch1 ch2 s False in \<open>auto simp: CHUNK_REMAINING_CAPACITY_def\<close>)
  qed
qed

lemma pullup_loop_ok:
  assumes "chunk_ok dest" "chunks_rel tot (CHUNK_ALLOC_SIZE (ch_memlen dest) + rest) chs ys" "ch_datalen dest \<le> bytes"
    and "bytes \<le> ch_datalen dest + length ys" "bytes - ch_datalen dest \<le> CHUNK_REMAINING_CAPACITY dest"
  shows "\<exists>tot' dest' chs'. pullup_loop tot dest chs bytes = Some (tot', dest' # chs') \<and>
    chunks_rel tot' rest (dest' # chs') (chunk_bytes dest @ ys) \<and> ch_datalen dest' = bytes \<and>
    (chunks_filled chs \<longrightarrow> chunks_filled chs')"
  using assms
proof (induction chs arbitrary: tot dest ys)
  case Nil
  then show ?case by (auto simp: chunks_rel_def)
next
  case (Cons src chs)
  from Cons.prems(2) obtain zs where zs: "ys = chunk_bytes src @ zs" and ok: "chunk_ok src"
    and tl: "chunks_rel (tot - CHUNK_ALLOC_SIZE (ch_memlen src)) (CHUNK_ALLOC_SIZE (ch_memlen dest) + rest) chs zs"
    and le: "CHUNK_ALLOC_SIZE (ch_memlen src) \<le> tot"
    by (auto simp: chunks_rel_def)
  define m where "m = min (ch_datalen src) (bytes - ch_datalen dest)"
  let ?d = "take m (chunk_bytes src)"
  have m: "m \<le> ch_datalen src" "m \<le> CHUNK_REMAINING_CAPACITY dest" "length ?d = m"
    using Cons.prems(5) ok by (simp_all add: m_def)
  have slice: "arr_slice (ch_mem src) (ch_data src) m = Some ?d"
    using ok m(1) by (simp add: arr_slice_in chunk_ok_def chunk_bytes_def min_absorb1)
  obtain mem where mem: "arr_blit (ch_mem dest) (CHUNK_WRITE_PTR dest) ?d = Some mem"
    "chunk_ok (dest\<lparr>ch_mem := mem, ch_datalen := ch_datalen dest + m\<rparr>)"
    "chunk_bytes (dest\<lparr>ch_mem := mem, ch_datalen := ch_datalen dest + m\<rparr>) = chunk_bytes dest @ ?d"
    using chunk_append_ok [OF Cons.prems(1), of ?d] m by auto
  let ?dest = "dest\<lparr>ch_mem := mem, ch_datalen := ch_datalen dest + m\<rparr>"
  show ?case
  proof (cases "ch_datalen dest < bytes")
    case False
    with Cons.prems show ?thesis by (auto simp: chunks_rel_def)
  next
    case True
    show ?thesis
    proof (cases "ch_datalen src \<le> bytes - ch_datalen dest")
      case all: True
      then have ms: "m = ch_datalen src" "?d = chunk_bytes src" using ok by (simp_all add: m_def)
      have "\<exists>tot' dest' chs'. pullup_loop (tot - CHUNK_ALLOC_SIZE (ch_memlen src)) ?dest chs bytes = Some (tot', dest' # chs') \<and>
          chunks_rel tot' rest (dest' # chs') (chunk_bytes ?dest @ zs) \<and> ch_datalen dest' = bytes \<and>
          (chunks_filled chs \<longrightarrow> chunks_filled chs')"
        using Cons.prems mem(2) tl ms all zs ok by (intro Cons.IH) (auto simp: CHUNK_REMAINING_CAPACITY_def)
      with True all ms slice mem ok le zs show ?thesis by auto
    next
      case part: False
      then have ms: "m = bytes - ch_datalen dest" by (simp add: m_def)
      let ?src = "src\<lparr>ch_data := ch_data src + m, ch_datalen := ch_datalen src - m\<rparr>"
      have "chunk_ok ?src" "chunk_bytes ?src = drop m (chunk_bytes src)"
        using ok m(1) by (auto simp: chunk_ok_def chunk_bytes_def drop_take add.commute)
      moreover have "chunk_bytes dest @ ys = (chunk_bytes dest @ ?d) @ drop m (chunk_bytes src) @ zs"
        using zs by simp
      ultimately show ?thesis
        using True part ms slice mem Cons.prems(2,3) zs by (auto simp: chunks_rel_def)
    qed
  qed
qed

lemma buf_pullup_ok:
  assumes fresh: "\<And>n. length (fresh n) = n" and rel: "buf_rel tot rest buf xs"
  shows "\<exists>tot' buf' head len. buf_pullup fresh tot buf bytes = Some (tot', buf', head, len) \<and> buf_rel tot' rest buf' xs \<and>
    (buf_filled buf \<longrightarrow> buf_filled buf') \<and>
    (case buf_chunks buf' of
       [] \<Rightarrow> head = None \<and> len = 0 \<and> xs = []
     | ch # chs \<Rightarrow> head = Some (ch_data ch) \<and> min bytes (length xs) \<le> len \<and> arr_slice (ch_mem ch) (ch_data ch) len = Some (take len xs))"
proof (cases "buf_chunks buf")
  case Nil
  with rel show ?thesis by (simp add: buf_pullup_def buf_rel_def buf_shape_def)
next
  case (Cons ch chs)
  let ?n = "if b_datalen buf < bytes then b_datalen buf else bytes"
  obtain ys where ys: "xs = chunk_bytes ch @ ys" and ok: "chunk_ok ch" and tl: "list_all chunk_ok chs" "chunks_bytes chs = ys"
    and tot: "tot = CHUNK_ALLOC_SIZE (ch_memlen ch) + chunks_alloc chs + rest" and n: "?n = min bytes (length xs)"
    and dl: "b_datalen buf = length xs" "length xs \<le> BUF_MAX_LEN"
    using rel Cons by (auto simp: buf_rel_def buf_shape_def chunks_rel_def)
  have slice: "arr_slice (ch_mem c) (ch_data c) (ch_datalen c) = Some (chunk_bytes c)" if "chunk_ok c" for c
    using that by (simp add: arr_slice_in chunk_ok_def chunk_bytes_def)
  show ?thesis
  proof (cases "?n \<le> ch_datalen ch")
    case True
    then have "buf_pullup fresh tot buf bytes = Some (tot, buf, Some (ch_data ch), ch_datalen ch)"
      using Cons by (simp add: buf_pullup_def Let_def)
    with True Cons rel slice [OF ok] ys ok n show ?thesis by simp
  next
    case False
    then have lt: "ch_datalen ch < ?n" "?n \<le> BUF_MAX_LEN" using dl by (simp_all split: if_splits)
    obtain tot1 d where d: "pullup_room fresh tot ch ?n = Some (tot1, d)" "chunk_ok d" "chunk_bytes d = chunk_bytes ch"
      "ch_datalen d = ch_datalen ch" "tot1 + ch_memlen ch = tot + ch_memlen d" "?n - ch_datalen ch \<le> CHUNK_REMAINING_CAPACITY d"
      using pullup_room_ok [OF fresh ok lt] .
    have "chunks_rel tot1 (CHUNK_ALLOC_SIZE (ch_memlen d) + rest) chs ys"
      using tl tot d(5) by (simp add: chunks_rel_def CHUNK_ALLOC_SIZE_def)
    moreover have "ch_datalen d \<le> ?n" "?n \<le> ch_datalen d + length ys" "?n - ch_datalen d \<le> CHUNK_REMAINING_CAPACITY d"
      using False d n ys ok by auto
    ultimately obtain tot2 d' chs' where res: "pullup_loop tot1 d chs ?n = Some (tot2, d' # chs')"
      "chunks_rel tot2 rest (d' # chs') xs" "ch_datalen d' = ?n" "chunks_filled chs \<longrightarrow> chunks_filled chs'"
      using pullup_loop_ok [OF d(2), of tot1 rest chs ys ?n] d(3) ys by (auto simp del: if_split)
    from res(2) have ok': "chunk_ok d'" and xs: "xs = chunk_bytes d' @ chunks_bytes chs'" by (auto simp: chunks_rel_def)
    have "buf_pullup fresh tot buf bytes =
        Some (tot2, buf\<lparr>buf_chunks := d' # chs'\<rparr>, Some (ch_data d'), ch_datalen d')"
      using False Cons d(1) res(1) by (simp add: buf_pullup_def Let_def del: if_split)
    moreover have "take (ch_datalen d') xs = chunk_bytes d'" using ok' xs by simp
    moreover have "buf_rel tot2 rest (buf\<lparr>buf_chunks := d' # chs'\<rparr>) xs"
      using rel res(2) by (simp add: buf_rel_def buf_shape_def)
    moreover have "buf_filled buf \<longrightarrow> buf_filled (buf\<lparr>buf_chunks := d' # chs'\<rparr>)"
      using Cons res(3,4) False by (auto simp: buf_filled_def)
    ultimately show ?thesis using slice [OF ok'] res(3) n by simp
  qed
qed

subsection \<open>Moving data\<close>

lemma buf_rel_alloc: "buf_rel tot rest buf xs \<Longrightarrow> tot = buf_allocation buf + rest"
  by (simp add: buf_rel_def buf_shape_def chunks_rel_def buf_allocation_eq)

lemma buf_rel_other: "buf_rel tot rest buf xs \<Longrightarrow> tot' = buf_allocation buf + rest' \<Longrightarrow> buf_rel tot' rest' buf xs"
  by (simp add: buf_rel_def buf_shape_def chunks_rel_def buf_allocation_eq)

text \<open>Two buffers of the program, and the allocation of the others.\<close>

definition bufs_rel :: "nat \<Rightarrow> nat \<Rightarrow> buf_t \<Rightarrow> byte list \<Rightarrow> buf_t \<Rightarrow> byte list \<Rightarrow> bool" where
  "bufs_rel tot rest b xs c ys \<longleftrightarrow> buf_rel tot (buf_allocation c + rest) b xs \<and> buf_rel tot (buf_allocation b + rest) c ys"

lemma bufs_relI:
  "buf_rel tot (buf_allocation c + rest) b xs \<Longrightarrow> buf_rel tot' rest' c ys \<Longrightarrow> bufs_rel tot rest b xs c ys"
  by (auto simp: bufs_rel_def intro: buf_rel_other dest!: buf_rel_alloc [of tot])

lemma bufs_relI2:
  "buf_rel tot' rest' b xs \<Longrightarrow> buf_rel tot (buf_allocation b + rest) c ys \<Longrightarrow> bufs_rel tot rest b xs c ys"
  by (auto simp: bufs_rel_def intro: buf_rel_other dest!: buf_rel_alloc [of tot])

lemma move_loop_ok:
  assumes fresh: "\<And>n. length (fresh n) = n"
  shows "bufs_rel tot rest bo ys bi xs \<Longrightarrow> len \<le> length xs \<Longrightarrow> length ys + len \<le> BUF_MAX_LEN \<Longrightarrow> length b = 4096 \<Longrightarrow>
    \<exists>tot' bo' bi'. move_loop fresh now tot bo bi b len = Some (tot', bo', bi') \<and>
      bufs_rel tot' rest bo' (ys @ take len xs) bi' (drop len xs) \<and>
      (buf_filled bo \<longrightarrow> buf_filled bo') \<and> (buf_filled bi \<longrightarrow> buf_filled bi')"
proof (induction len arbitrary: tot bo bi b xs ys rule: less_induct)
  case (less len)
  show ?case
  proof (cases "len = 0")
    case True
    with less.prems show ?thesis by (simp add: move_loop.simps [of _ _ _ _ _ _ 0])
  next
    case False
    define n where "n = (if 4096 < len then 4096 else len)"
    have n: "0 < n" "n \<le> len" "n \<le> 4096" using False by (simp_all add: n_def)
    obtain tot1 bi1 where g: "buf_get_bytes tot bi b n = Some (tot1, bi1, take n xs @ drop n b, int (length xs - n))"
      "buf_rel tot1 (buf_allocation bo + rest) bi1 (drop n xs)" "buf_filled bi \<longrightarrow> buf_filled bi1"
      using buf_get_bytes_ok [of tot "buf_allocation bo + rest" bi xs n b] less.prems n by (auto simp: bufs_rel_def)
    have "bufs_rel tot1 rest bo ys bi1 (drop n xs)"
      using g(2) less.prems(1) by (intro bufs_relI2) (auto simp: bufs_rel_def)
    then have "buf_rel tot1 (buf_allocation bi1 + rest) bo ys" by (simp add: bufs_rel_def)
    moreover have tlen: "length (take n xs) = n" using n less.prems(2) by simp
    ultimately obtain tot2 bo1 where a: "buf_add fresh now tot1 bo (take n xs) = Some (tot2, bo1, int (length ys + n))"
      "buf_rel tot2 (buf_allocation bi1 + rest) bo1 (ys @ take n xs)" "buf_filled bo \<longrightarrow> buf_filled bo1"
      using buf_add_ok [OF fresh, of tot1 "buf_allocation bi1 + rest" bo ys "take n xs" now] n less.prems(3) by auto
    have rel: "bufs_rel tot2 rest bo1 (ys @ take n xs) bi1 (drop n xs)" using a(2) g(2) by (rule bufs_relI)
    have "\<exists>tot' bo' bi'. move_loop fresh now tot2 bo1 bi1 (take n xs @ drop n b) (len - n) = Some (tot', bo', bi') \<and>
        bufs_rel tot' rest bo' ((ys @ take n xs) @ take (len - n) (drop n xs)) bi' (drop (len - n) (drop n xs)) \<and>
        (buf_filled bo1 \<longrightarrow> buf_filled bo') \<and> (buf_filled bi1 \<longrightarrow> buf_filled bi')"
      using less.prems n tlen by (intro less.IH [OF _ rel]) auto
    moreover have "take n xs @ take (len - n) (drop n xs) = take len xs" "drop (len - n) (drop n xs) = drop len xs"
      using n by (simp_all add: take_add [symmetric])
    moreover have "arr_slice (take n xs @ drop n b) 0 n = Some (take n xs)"
      using tlen less.prems(4) n by (simp add: arr_slice_def)
    then have "move_loop fresh now tot bo bi b len = move_loop fresh now tot2 bo1 bi1 (take n xs @ drop n b) (len - n)"
      using False g(1) a(1) by (simp add: move_loop.simps [of _ _ _ _ _ _ len] n_def [symmetric])
    ultimately show ?thesis using g(3) a(3) by auto
  qed
qed

lemma buf_move_to_buf_ok:
  assumes fresh: "\<And>n. length (fresh n) = n" and rel: "bufs_rel tot rest bo ys bi xs"
    and len: "length ys + flushlen \<le> BUF_MAX_LEN"
  shows "\<exists>tot' bo' bi'. buf_move_to_buf fresh now tot bo bi flushlen =
        Some (tot', bo', bi', flushlen - length xs, int (min flushlen (length xs))) \<and>
      bufs_rel tot' rest bo' (ys @ take flushlen xs) bi' (drop flushlen xs) \<and>
      (buf_filled bo \<longrightarrow> buf_filled bo') \<and> (buf_filled bi \<longrightarrow> buf_filled bi')"
proof -
  have dl: "b_datalen bo = length ys" "b_datalen bi = length xs" "length xs \<le> BUF_MAX_LEN"
    using rel by (simp_all add: bufs_rel_def buf_rel_def buf_shape_def)
  let ?l = "min flushlen (length xs)"
  have le: "length ys + ?l \<le> BUF_MAX_LEN" using len by linarith
  obtain tot' bo' bi' where m: "move_loop fresh now tot bo bi (fresh 4096) ?l = Some (tot', bo', bi')"
    "bufs_rel tot' rest bo' (ys @ take ?l xs) bi' (drop ?l xs)"
    "(buf_filled bo \<longrightarrow> buf_filled bo') \<and> (buf_filled bi \<longrightarrow> buf_filled bi')"
    using move_loop_ok [OF fresh rel, of ?l "fresh 4096" now] fresh le by auto
  have l: "(if b_datalen bi < flushlen then b_datalen bi else flushlen) = ?l" using dl by auto
  have "flushlen - ?l = flushlen - length xs" "take ?l xs = take flushlen xs" "drop ?l xs = drop flushlen xs"
    by (auto simp: min_def)
  with m l len dl show ?thesis
    by (simp add: buf_move_to_buf_def Let_def del: if_split) auto
qed

lemma buf_move_all_ok:
  assumes rel: "bufs_rel tot rest bo ys bi xs"
  shows "\<exists>bo' bi'. buf_move_all bo (Some bi) =
      (bo', Some bi', if length ys + length xs \<le> BUF_MAX_LEN then length xs else 0) \<and>
      (if length ys + length xs \<le> BUF_MAX_LEN then bufs_rel tot rest bo' (ys @ xs) bi' [] else bo' = bo \<and> bi' = bi) \<and>
      (buf_filled bo \<and> buf_filled bi \<longrightarrow> buf_filled bo' \<and> buf_filled bi')"
  using assms
  by (auto simp: buf_move_all_def bufs_rel_def buf_rel_def buf_shape_def buf_datalen_def Let_def buf_allocation_eq
      chunks_rel_def buf_filled_def)

subsection \<open>Searching a buffer whose chunks all have data\<close>

text \<open>The position \<open>p\<close> is at offset \<open>k\<close>, and \<open>ys\<close> are the bytes from there on.\<close>

definition pos_rel :: "buf_pos_t \<Rightarrow> nat \<Rightarrow> byte list \<Rightarrow> bool" where
  "pos_rel p k ys \<longleftrightarrow> list_all chunk_ok (pos_chunk p) \<and> chunks_filled (pos_chunk p) \<and> k = pos_chunk_pos p + pos_pos p \<and>
     ys = drop (pos_pos p) (chunks_bytes (pos_chunk p)) \<and> k + length ys \<le> BUF_MAX_LEN \<and>
     (case pos_chunk p of [] \<Rightarrow> pos_pos p = 0 | ch # chs \<Rightarrow> pos_pos p < ch_datalen ch)"

lemma buf_pos_init_ok:
  "buf_rel tot rest buf xs \<Longrightarrow> buf_filled buf \<Longrightarrow> pos_rel (buf_pos_init buf) 0 xs"
  by (auto simp: pos_rel_def buf_rel_def buf_shape_def chunks_rel_def buf_filled_def buf_pos_init_def split: list.split)

text \<open>The range of memory that \<open>buf_find_pos_of_char\<close> searches in a chunk.\<close>

lemma chunk_memchr:
  assumes ok: "chunk_ok ch" and pos: "pos \<le> ch_datalen ch"
  shows "c \<notin> set (drop pos (chunk_bytes ch)) \<Longrightarrow> memchr (ch_mem ch) (ch_data ch + pos) c (ch_datalen ch - pos) = Some None"
    and "drop pos (chunk_bytes ch) = as @ c # bs \<Longrightarrow> c \<notin> set as \<Longrightarrow>
      memchr (ch_mem ch) (ch_data ch + pos) c (ch_datalen ch - pos) = Some (Some (ch_data ch + pos + length as))"
proof -
  have d: "drop pos (chunk_bytes ch) = take (ch_datalen ch - pos) (drop (ch_data ch + pos) (ch_mem ch))"
    by (simp add: chunk_bytes_def drop_take add.commute)
  show "c \<notin> set (drop pos (chunk_bytes ch)) \<Longrightarrow> memchr (ch_mem ch) (ch_data ch + pos) c (ch_datalen ch - pos) = Some None"
    using ok pos unfolding d by (intro memchr_absent) (auto simp: chunk_ok_def)
  show "drop pos (chunk_bytes ch) = as @ c # bs \<Longrightarrow> c \<notin> set as \<Longrightarrow>
      memchr (ch_mem ch) (ch_data ch + pos) c (ch_datalen ch - pos) = Some (Some (ch_data ch + pos + length as))"
    unfolding d by (rule memchr_found)
qed

text \<open>The first byte \<open>c\<close> is in the data of the first chunk or, when it has none, in the chunks after it.\<close>

lemma append_first_cases:
  assumes "xs @ ys = as @ c # bs" "c \<notin> set as"
  obtains (left) cs where "xs = as @ c # cs" "bs = cs @ ys"
  | (right) cs where "c \<notin> set xs" "as = xs @ cs" "ys = cs @ c # bs"
proof (cases "\<exists>us. xs @ us = as \<and> ys = us @ c # bs")
  case True
  then show ?thesis using that(2) assms(2) by auto
next
  case False
  then obtain us where "xs = as @ us" "us @ ys = c # bs" using assms(1) by (auto simp: append_eq_append_conv2)
  with False that(1) show ?thesis by (cases us) auto
qed

lemma find_pos_loop_found:
  assumes "list_all chunk_ok chs" "chunks_filled chs" "drop pos (chunks_bytes chs) = as @ c # bs" "c \<notin> set as"
    and "pos_chunk_pos out + length (chunks_bytes chs) \<le> BUF_MAX_LEN"
    and "case chs of [] \<Rightarrow> pos = 0 | ch # chs' \<Rightarrow> pos \<le> ch_datalen ch"
  shows "\<exists>p. find_pos_loop c chs pos out = Some (p, Some (pos_chunk_pos out + pos + length as)) \<and>
    pos_rel p (pos_chunk_pos out + pos + length as) (c # bs)"
  using assms
proof (induction chs arbitrary: pos as out)
  case Nil
  then show ?case by simp
next
  case (Cons ch chs)
  then have ok: "chunk_ok ch" and pos: "pos \<le> ch_datalen ch" by simp_all
  then have eq: "drop pos (chunk_bytes ch) @ chunks_bytes chs = as @ c # bs" using Cons.prems(3) by simp
  from eq Cons.prems(4) show ?case
  proof (cases rule: append_first_cases)
    case (left cs)
    then have m: "memchr (ch_mem ch) (ch_data ch + pos) c (ch_datalen ch - pos) = Some (Some (ch_data ch + pos + length as))"
      using chunk_memchr(2) [OF ok pos] Cons.prems(4) by blast
    have lt: "pos + length as < ch_datalen ch" using arg_cong [OF left(1), of length] ok by simp
    let ?p = "out\<lparr>pos_chunk := ch # chs, pos_pos := pos + length as\<rparr>"
    have "drop (length as) (drop pos (chunk_bytes ch @ chunks_bytes chs)) = c # bs" using Cons.prems(3) by simp
    then have "drop (pos + length as) (chunk_bytes ch @ chunks_bytes chs) = c # bs" by (simp only: drop_drop add.commute)
    moreover have len: "pos + length as + length (c # bs) = length (chunks_bytes (ch # chs))"
      using arg_cong [OF Cons.prems(3), of length] pos ok by simp
    ultimately have "pos_rel ?p (pos_chunk_pos out + pos + length as) (c # bs)"
      using Cons.prems(1,2,5) lt ok by (simp add: pos_rel_def del: drop_append)
    moreover have "pos + length as \<le> BUF_MAX_LEN" using lt Cons.prems(5) ok by simp
    ultimately show ?thesis using m by (simp add: Let_def)
  next
    case (right cs)
    then have m: "memchr (ch_mem ch) (ch_data ch + pos) c (ch_datalen ch - pos) = Some None"
      using chunk_memchr(1) [OF ok pos] by blast
    have "\<exists>p. find_pos_loop c chs 0 (out\<lparr>pos_chunk_pos := pos_chunk_pos out + ch_datalen ch\<rparr>) =
          Some (p, Some (pos_chunk_pos out + ch_datalen ch + 0 + length cs)) \<and>
        pos_rel p (pos_chunk_pos out + ch_datalen ch + 0 + length cs) (c # bs)"
      using Cons.IH [of 0 cs "out\<lparr>pos_chunk_pos := pos_chunk_pos out + ch_datalen ch\<rparr>"] right Cons.prems ok
      by (simp split: list.split)
    moreover have "pos + length as = ch_datalen ch + length cs" using right(2) ok pos by simp
    ultimately show ?thesis using m by (simp add: add.assoc)
  qed
qed

lemma find_pos_loop_absent:
  assumes "list_all chunk_ok chs" "c \<notin> set (drop pos (chunks_bytes chs))"
    and "case chs of [] \<Rightarrow> pos = 0 | ch # chs' \<Rightarrow> pos \<le> ch_datalen ch"
  shows "\<exists>p. find_pos_loop c chs pos out = Some (p, None)"
  using assms
proof (induction chs arbitrary: pos out)
  case (Cons ch chs)
  then have "memchr (ch_mem ch) (ch_data ch + pos) c (ch_datalen ch - pos) = Some None"
    by (intro chunk_memchr(1)) auto
  moreover have "\<exists>p. find_pos_loop c chs 0 (out\<lparr>pos_chunk_pos := pos_chunk_pos out + ch_datalen ch\<rparr>) = Some (p, None)"
    using Cons by (intro Cons.IH) (auto split: list.split)
  ultimately show ?case by simp
qed simp

lemma buf_find_pos_of_char_ok:
  assumes "pos_rel p k ys"
  obtains (found) p' as bs where "ys = as @ c # bs" "c \<notin> set as" "pos_rel p' (k + length as) (c # bs)"
    "buf_find_pos_of_char c p = Some (p', Some (k + length as))"
  | (absent) p' where "c \<notin> set ys" "buf_find_pos_of_char c p = Some (p', None)"
proof -
  have eq: "buf_find_pos_of_char c p = find_pos_loop c (pos_chunk p) (pos_pos p) p"
    using assms by (auto simp: buf_find_pos_of_char_def pos_rel_def split: list.splits)
  have pre: "list_all chunk_ok (pos_chunk p)" "chunks_filled (pos_chunk p)" "ys = drop (pos_pos p) (chunks_bytes (pos_chunk p))"
    "k = pos_chunk_pos p + pos_pos p"
    "case pos_chunk p of [] \<Rightarrow> pos_pos p = 0 | ch # chs' \<Rightarrow> pos_pos p \<le> ch_datalen ch"
    using assms by (auto simp: pos_rel_def split: list.splits)
  have "pos_pos p \<le> length (chunks_bytes (pos_chunk p))" using pre(1,5) by (auto split: list.splits)
  then have len: "pos_chunk_pos p + length (chunks_bytes (pos_chunk p)) \<le> BUF_MAX_LEN"
    using assms by (auto simp: pos_rel_def)
  show thesis
  proof (cases "c \<in> set ys")
    case True
    then obtain as bs where ab: "ys = as @ c # bs" "c \<notin> set as" using split_list_first by metis
    with find_pos_loop_found [OF pre(1,2) _ ab(2) len pre(5)] pre found eq show thesis by metis
  next
    case False
    with find_pos_loop_absent [OF pre(1) _ pre(5)] pre absent eq show thesis by metis
  qed
qed

lemma buf_pos_inc_ok:
  assumes "pos_rel p k (y # ys)"
  obtains (more) p' where "ys \<noteq> []" "buf_pos_inc p = Some (Some p')" "pos_rel p' (k + 1) ys"
  | (at_end) "ys = []" "buf_pos_inc p = Some None"
proof (cases "pos_chunk p")
  case Nil
  with assms show ?thesis by (simp add: pos_rel_def)
next
  case (Cons ch chs)
  with assms have pre: "chunk_ok ch" "list_all chunk_ok chs" "chunks_filled chs" "k = pos_chunk_pos p + pos_pos p"
    "y # ys = drop (pos_pos p) (chunk_bytes ch) @ chunks_bytes chs" "k + length ys < BUF_MAX_LEN" "pos_pos p < ch_datalen ch"
    by (auto simp: pos_rel_def)
  then have ys: "ys = drop (pos_pos p + 1) (chunk_bytes ch) @ chunks_bytes chs"
    by (simp flip: Cons_nth_drop_Suc)
  have lt: "pos_pos p < BUF_MAX_LEN" using pre(4,6) by simp
  show ?thesis
  proof (cases "pos_pos p + 1 = ch_datalen ch")
    case True
    then have "ys = chunks_bytes chs" using ys pre(1) by simp
    show ?thesis
    proof (cases chs)
      case Nil
      with at_end show ?thesis using True Cons lt \<open>ys = chunks_bytes chs\<close> by (simp add: buf_pos_inc_def Let_def)
    next
      case (Cons d ds)
      let ?p = "p\<lparr>pos_chunk := chs, pos_pos := 0, pos_chunk_pos := pos_chunk_pos p + ch_datalen ch\<rparr>"
      have "buf_pos_inc p = Some (Some ?p)"
        using True Cons \<open>pos_chunk p = ch # chs\<close> lt by (simp add: buf_pos_inc_def Let_def)
      moreover have "pos_rel ?p (k + 1) ys" "ys \<noteq> []"
        using pre True \<open>ys = chunks_bytes chs\<close> Cons by (auto simp: pos_rel_def dest: arg_cong [of _ _ length])
      ultimately show ?thesis using more by blast
    qed
  next
    case False
    then have "pos_pos p + 1 < ch_datalen ch" using pre(7) by simp
    moreover have "ys \<noteq> []" using ys calculation pre(1) by auto
    moreover have "buf_pos_inc p = Some (Some (p\<lparr>pos_pos := pos_pos p + 1\<rparr>))"
      using False Cons lt by (simp add: buf_pos_inc_def Let_def)
    moreover have "pos_rel (p\<lparr>pos_pos := pos_pos p + 1\<rparr>) (k + 1) ys"
      using pre ys calculation(1) Cons by (simp add: pos_rel_def)
    ultimately show ?thesis using more by blast
  qed
qed

lemma matches_loop_ok:
  "pos_rel p k (y # ys) \<Longrightarrow> matches_loop p s = Some (take (length s) (y # ys) = s)"
proof (induction s arbitrary: p k y ys)
  case (Cons c s)
  obtain ch chs where ch: "pos_chunk p = ch # chs" using Cons.prems by (cases "pos_chunk p") (auto simp: pos_rel_def)
  with Cons.prems have "chunk_ok ch" "pos_pos p < ch_datalen ch"
    "y # ys = drop (pos_pos p) (chunk_bytes ch) @ chunks_bytes chs" by (auto simp: pos_rel_def)
  moreover from this have "chunk_bytes ch ! pos_pos p = y" by (simp flip: Cons_nth_drop_Suc)
  ultimately have get: "arr_get (ch_mem ch) (ch_data ch + pos_pos p) = Some y"
    by (simp add: arr_get_in chunk_ok_def chunk_bytes_def)
  from Cons.prems show ?case
  proof (cases rule: buf_pos_inc_ok)
    case (more p')
    then obtain z zs where "ys = z # zs" by (cases ys) auto
    with more Cons.IH [of p' "k + 1" z zs] ch get show ?thesis by (cases "y = c"; cases s) simp_all
  next
    case at_end
    then show ?thesis using ch get by (cases s) auto
  qed
qed simp

text \<open>Occurrences of a string in a list that starts at offset \<open>k\<close> of another.\<close>

definition first_from :: "nat \<Rightarrow> byte list \<Rightarrow> byte list \<Rightarrow> int" where
  "first_from k s ys = (if \<exists>r. occurs_at ys s r then int k + int (LEAST r. occurs_at ys s r) else -1)"

lemma occurs_at_iff: "occurs_at ys s r \<longleftrightarrow> r + length s \<le> length ys \<and> take (length s) (drop r ys) = s"
  by (auto simp: occurs_at_def arr_slice_def)

lemma first_from_here: "take (length s) ys = s \<Longrightarrow> first_from k s ys = int k"
proof -
  assume s: "take (length s) ys = s"
  then have "length s \<le> length ys" by (metis length_take min.cobounded1)
  with s have "occurs_at ys s 0" by (simp add: occurs_at_iff)
  moreover from this have "(LEAST r. occurs_at ys s r) = 0" by (rule Least_eq_0)
  ultimately show ?thesis by (auto simp: first_from_def)
qed

lemma first_from_later:
  assumes "take (length s) (y # ys) \<noteq> s" "s \<noteq> []"
  shows "first_from k s (y # ys) = first_from (k + 1) s ys"
proof -
  have iff: "occurs_at (y # ys) s r \<longleftrightarrow> (\<exists>q. r = Suc q \<and> occurs_at ys s q)" for r
    using assms(1) by (cases r) (auto simp: occurs_at_iff)
  show ?thesis
  proof (cases "\<exists>r. occurs_at ys s r")
    case True
    then have "(LEAST r. occurs_at (y # ys) s r) = Suc (LEAST q. occurs_at ys s q)"
      using iff by (intro Least_equality) (auto intro: LeastI_ex Least_le)
    moreover have "\<exists>r. occurs_at (y # ys) s r" using True iff by blast
    ultimately show ?thesis using True by (simp add: first_from_def)
  next
    case False
    with iff show ?thesis by (auto simp: first_from_def)
  qed
qed

lemma first_from_skip:
  "c \<notin> set as \<Longrightarrow> first_from k (c # s) (as @ ys) = first_from (k + length as) (c # s) ys"
proof (induction as arbitrary: k)
  case (Cons a as)
  then have "take (length (c # s)) (a # as @ ys) \<noteq> c # s" by auto
  from first_from_later [OF this] show ?case using Cons by simp
qed simp

lemma first_from_absent: "c \<notin> set ys \<Longrightarrow> first_from k (c # s) ys = -1"
  using first_from_skip [of c ys k s "[]"] by (simp add: first_from_def occurs_at_iff)

lemma find_string_offset_loop_ok:
  "pos_rel p k ys \<Longrightarrow> find_string_offset_loop p c (c # s) = Some (first_from k (c # s) ys)"
proof (induction ys arbitrary: p k rule: length_induct)
  case (1 ys)
  from "1.prems" show ?case
  proof (cases rule: buf_find_pos_of_char_ok [where c = c])
    case (found p' as bs)
    note ff = first_from_skip [OF found(2), of k s "c # bs"]
    note m = matches_loop_ok [OF found(3), of "c # s"]
    show ?thesis
    proof (cases "take (length (c # s)) (c # bs) = c # s")
      case True
      have "k + length as = pos_chunk_pos p' + pos_pos p'" "k + length as \<le> BUF_MAX_LEN"
        using found(3) by (auto simp: pos_rel_def)
      with True m found(1,4) ff first_from_here [OF True, of "k + length as"] show ?thesis
        by (simp add: find_string_offset_loop.simps [of p] buf_matches_at_pos_def)
    next
      case False
      note later = first_from_later [OF False, of "k + length as"]
      from found(3) show ?thesis
      proof (cases rule: buf_pos_inc_ok)
        case (more p'')
        have "find_string_offset_loop p'' c (c # s) = Some (first_from (k + length as + 1) (c # s) bs)"
          using "1.IH" more(3) found(1) by simp
        with False m found(1,4) ff later more show ?thesis
          by (simp add: find_string_offset_loop.simps [of p] buf_matches_at_pos_def)
      next
        case at_end
        then have "first_from (k + length as + 1) (c # s) bs = -1" by (simp add: first_from_def occurs_at_iff)
        with False m found(1,4) ff later at_end show ?thesis
          by (simp add: find_string_offset_loop.simps [of p] buf_matches_at_pos_def)
      qed
    qed
  next
    case (absent p')
    then show ?thesis using first_from_absent by (simp add: find_string_offset_loop.simps [of p])
  qed
qed

lemma buf_find_string_offset_ok:
  assumes "buf_rel tot rest buf xs" "buf_filled buf" "s \<noteq> []"
  shows "buf_find_string_offset buf s = Some (first_from 0 s xs)"
  using assms(3) find_string_offset_loop_ok [OF buf_pos_init_ok [OF assms(1,2)]]
  by (cases s) (simp_all add: buf_find_string_offset_def arr_get_def)

lemma offset_of_char_loop_found:
  "list_all chunk_ok chs \<Longrightarrow> chunks_bytes chs = as @ c # bs \<Longrightarrow> c \<notin> set as \<Longrightarrow>
     offset_of_char_loop chs c k = Some (Some (k + length as))"
proof (induction chs arbitrary: k as)
  case (Cons ch chs)
  then have ok: "chunk_ok ch" and "chunk_bytes ch @ chunks_bytes chs = as @ c # bs" by simp_all
  from this(2) Cons.prems(3) show ?case
  proof (cases rule: append_first_cases)
    case (left cs)
    then show ?thesis using chunk_memchr(2) [OF ok, of 0 as c cs] Cons.prems(3) by simp
  next
    case (right cs)
    then show ?thesis using chunk_memchr(1) [OF ok, of 0 c] Cons.IH [of cs "k + ch_datalen ch"] Cons.prems ok by simp
  qed
qed simp

lemma offset_of_char_loop_absent:
  "list_all chunk_ok chs \<Longrightarrow> c \<notin> set (chunks_bytes chs) \<Longrightarrow> offset_of_char_loop chs c k = Some None"
  using chunk_memchr(1) [of _ 0 c] by (induction chs arbitrary: k) simp_all

lemma buf_find_offset_of_char_ok:
  assumes "buf_rel tot rest buf xs"
  shows "xs = as @ c # bs \<Longrightarrow> c \<notin> set as \<Longrightarrow> buf_find_offset_of_char buf c = Some (Some (length as))"
    and "c \<notin> set xs \<Longrightarrow> buf_find_offset_of_char buf c = Some None"
  using assms offset_of_char_loop_found [of "buf_chunks buf" as c bs 0] offset_of_char_loop_absent [of "buf_chunks buf" c 0]
  by (auto simp: buf_find_offset_of_char_def buf_rel_def buf_shape_def chunks_rel_def)

lemma buf_peek_startswith_ok:
  assumes "\<And>n. length (fresh n) = n" "buf_rel tot rest buf xs" "length cmd \<le> PEEK_BUF_STARTSWITH_MAX"
  shows "buf_peek_startswith fresh buf cmd = Some (take (length cmd) xs = cmd)"
proof -
  have dl: "b_datalen buf = length xs" using assms(2) by (simp add: buf_rel_def buf_shape_def)
  show ?thesis
  proof (cases "length cmd \<le> length xs")
    case True
    then show ?thesis
      using buf_peek_ok [OF assms(2) True, of "fresh PEEK_BUF_STARTSWITH_MAX"] assms(1,3) dl
      by (auto simp: buf_peek_startswith_def Let_def)
  next
    case False
    moreover from this have "take (length cmd) xs \<noteq> cmd" by (metis length_take min.cobounded1)
    ultimately show ?thesis using dl assms(3) by (auto simp: buf_peek_startswith_def Let_def)
  qed
qed

lemma buf_get_line_cases:
  assumes rel: "buf_rel tot rest buf xs" and xs: "xs = line @ 10 # ys" "10 \<notin> set line"
  shows "data_len < length line + 2 \<Longrightarrow>
      buf_get_line tot buf data_out data_len = Some (tot, buf, data_out, length line + 2, -1)"
    and "data_len \<le> length data_out \<Longrightarrow> length line + 2 \<le> data_len \<Longrightarrow>
      \<exists>tot' buf'. buf_get_line tot buf data_out data_len =
          Some (tot', buf', line @ [10, 0] @ drop (length line + 2) data_out, length line + 1, 1) \<and>
        buf_rel tot' rest buf' (drop (length line + 1) xs)"
proof -
  have ne: "buf_chunks buf \<noteq> []" using rel xs by (auto simp: buf_rel_def buf_shape_def)
  note off = buf_find_offset_of_char_ok(1) [OF rel xs]
  show "data_len < length line + 2 \<Longrightarrow>
      buf_get_line tot buf data_out data_len = Some (tot, buf, data_out, length line + 2, -1)"
    using ne off by (simp add: buf_get_line_def)
  assume fits: "data_len \<le> length data_out" "length line + 2 \<le> data_len"
  then obtain tot' buf' where g: "buf_get_bytes tot buf data_out (length line + 1) =
      Some (tot', buf', take (length line + 1) xs @ drop (length line + 1) data_out, int (length xs - (length line + 1)))"
    "buf_rel tot' rest buf' (drop (length line + 1) xs)"
    using buf_get_bytes_ok [OF rel, of "length line + 1" data_out] xs by auto
  have "drop (Suc (length line)) data_out = data_out ! (length line + 1) # drop (length line + 2) data_out"
    using fits Cons_nth_drop_Suc [of "Suc (length line)" data_out] by simp
  then have "arr_set (take (length line + 1) xs @ drop (length line + 1) data_out) (length line + 1) 0 =
      Some (line @ [10, 0] @ drop (length line + 2) data_out)"
    using xs by (simp add: arr_set_def list_update_append)
  with g ne off fits show "\<exists>tot' buf'. buf_get_line tot buf data_out data_len =
        Some (tot', buf', line @ [10, 0] @ drop (length line + 2) data_out, length line + 1, 1) \<and>
      buf_rel tot' rest buf' (drop (length line + 1) xs)"
    by (simp add: buf_get_line_def)
qed

subsection \<open>The interface of a byte queue\<close>

text \<open>The calls of a client, and what they do to a list of bytes and to the bytes handed out so far.\<close>

datatype buf_op = Add "byte list" | Get nat | Drain nat | Pullup nat

fun queue_op :: "nat \<Rightarrow> buf_op \<Rightarrow> byte list \<times> byte list \<Rightarrow> byte list \<times> byte list" where
  "queue_op cap (Add s) (xs, out) = (if length xs + length s \<le> cap then xs @ s else xs, out)"
| "queue_op cap (Get n) (xs, out) = (drop n xs, out @ take n xs)"
| "queue_op cap (Drain n) (xs, out) = (drop n xs, out)"
| "queue_op cap (Pullup n) (xs, out) = (xs, out)"

text \<open>A client asks for no more than there is, and adds no string that no buffer can hold.\<close>

fun ops_allowed :: "nat \<Rightarrow> buf_op list \<Rightarrow> byte list \<times> byte list \<Rightarrow> bool" where
  "ops_allowed cap [] q \<longleftrightarrow> True"
| "ops_allowed cap (opn # ops) q \<longleftrightarrow>
     (case opn of Add s \<Rightarrow> length s \<le> cap | Get n \<Rightarrow> n \<le> length (fst q) | Drain n \<Rightarrow> n \<le> length (fst q) | Pullup n \<Rightarrow> True) \<and>
     ops_allowed cap ops (queue_op cap opn q)"

text \<open>A client over some implementation of the calls; it collects the bytes that it gets.\<close>

fun run_op where
  "run_op add get drain pullup (Add s) (t, b, out) = do { (t, b, r) \<leftarrow> add t b s; Some (t, b, out) }"
| "run_op add get drain pullup (Get n) (t, b, out) = do { (t, b, d, r) \<leftarrow> get t b (replicate n 0) n; Some (t, b, out @ d) }"
| "run_op add get drain pullup (Drain n) (t, b, out) = do { (t, b) \<leftarrow> drain t b n; Some (t, b, out) }"
| "run_op add get drain pullup (Pullup n) (t, b, out) = do { (t, b, r) \<leftarrow> pullup t b n; Some (t, b, out) }"

fun run_ops where
  "run_ops add get drain pullup [] st = Some st"
| "run_ops add get drain pullup (opn # ops) st =
     do { st \<leftarrow> run_op add get drain pullup opn st; run_ops add get drain pullup ops st }"

locale byte_queue =
  fixes rel :: "nat \<Rightarrow> 'b \<Rightarrow> byte list \<Rightarrow> bool"
    and add :: "nat \<Rightarrow> 'b \<Rightarrow> byte list \<Rightarrow> (nat \<times> 'b \<times> int) option"
    and get :: "nat \<Rightarrow> 'b \<Rightarrow> byte list \<Rightarrow> nat \<Rightarrow> (nat \<times> 'b \<times> byte list \<times> int) option"
    and drain :: "nat \<Rightarrow> 'b \<Rightarrow> nat \<Rightarrow> (nat \<times> 'b) option"
    and pullup :: "nat \<Rightarrow> 'b \<Rightarrow> nat \<Rightarrow> (nat \<times> 'b \<times> nat option \<times> nat) option"
    and cap :: nat
  assumes add_ok: "rel t b xs \<Longrightarrow> length s \<le> cap \<Longrightarrow>
      \<exists>t' b' r. add t b s = Some (t', b', r) \<and> rel t' b' (if length xs + length s \<le> cap then xs @ s else xs)"
    and get_ok: "rel t b xs \<Longrightarrow> n \<le> length xs \<Longrightarrow> n \<le> length string \<Longrightarrow>
      \<exists>t' b' r. get t b string n = Some (t', b', take n xs @ drop n string, r) \<and> rel t' b' (drop n xs)"
    and drain_ok: "rel t b xs \<Longrightarrow> n \<le> length xs \<Longrightarrow> \<exists>t' b'. drain t b n = Some (t', b') \<and> rel t' b' (drop n xs)"
    and pullup_ok: "rel t b xs \<Longrightarrow> \<exists>t' b' r. pullup t b n = Some (t', b', r) \<and> rel t' b' xs"
begin

lemma run_op_refines:
  assumes "rel t b xs" "ops_allowed cap [opn] (xs, out)"
  shows "\<exists>t' b'. run_op add get drain pullup opn (t, b, out) = Some (t', b', snd (queue_op cap opn (xs, out))) \<and>
    rel t' b' (fst (queue_op cap opn (xs, out)))"
proof (cases opn)
  case (Add s)
  with assms add_ok [OF assms(1), of s] show ?thesis by auto
next
  case (Get n)
  with assms get_ok [OF assms(1), of n "replicate n 0"] show ?thesis by auto
next
  case (Drain n)
  with assms drain_ok [OF assms(1), of n] show ?thesis by auto
next
  case (Pullup n)
  with pullup_ok [OF assms(1), of n] show ?thesis by auto
qed

lemma run_ops_refines:
  assumes "rel t b xs" "ops_allowed cap ops (xs, out)"
  shows "\<exists>t' b'. run_ops add get drain pullup ops (t, b, out) = Some (t', b', snd (fold (queue_op cap) ops (xs, out))) \<and>
    rel t' b' (fst (fold (queue_op cap) ops (xs, out)))"
  using assms
proof (induction ops arbitrary: t b xs out)
  case (Cons opn ops)
  then obtain t' b' where "run_op add get drain pullup opn (t, b, out) = Some (t', b', snd (queue_op cap opn (xs, out)))"
    "rel t' b' (fst (queue_op cap opn (xs, out)))"
    using run_op_refines [of t b xs opn out] by auto
  with Cons.IH [of t' b' "fst (queue_op cap opn (xs, out))" "snd (queue_op cap opn (xs, out))"] Cons.prems(2)
  show ?case by simp
qed simp

end

text \<open>The buffers implement the interface; with \<open>fl\<close>, they also keep every chunk filled.\<close>

interpretation bufq: byte_queue
  "\<lambda>tot buf xs. (\<forall>n. length (fresh n) = n) \<and> buf_rel tot rest buf xs \<and> (fl \<longrightarrow> buf_filled buf)"
  "buf_add fresh now" buf_get_bytes buf_drain "buf_pullup fresh" BUF_MAX_LEN
  for fresh :: "nat \<Rightarrow> byte list" and rest now fl
proof
  fix t b xs
  let ?rel = "\<lambda>tot buf xs. (\<forall>n. length (fresh n) = n) \<and> buf_rel tot rest buf xs \<and> (fl \<longrightarrow> buf_filled buf)"
  assume rel: "?rel t b xs"
  then have fresh: "length (fresh n) = n" and b: "buf_rel t rest b xs" for n by auto
  show "\<exists>t' b' r. buf_add fresh now t b s = Some (t', b', r) \<and> ?rel t' b' (if length xs + length s \<le> BUF_MAX_LEN then xs @ s else xs)"
    if "length s \<le> BUF_MAX_LEN" for s
    using buf_add_ok [where fresh = fresh and now = now, OF fresh b that] rel by blast
  show "\<exists>t' b' r. buf_get_bytes t b string n = Some (t', b', take n xs @ drop n string, r) \<and> ?rel t' b' (drop n xs)"
    if "n \<le> length xs" "n \<le> length string" for n string
    using buf_get_bytes_ok [OF b that] rel by blast
  show "\<exists>t' b'. buf_drain t b n = Some (t', b') \<and> ?rel t' b' (drop n xs)" if "n \<le> length xs" for n
    using buf_drain_ok [OF b that] rel by blast
  show "\<exists>t' b' r. buf_pullup fresh t b n = Some (t', b', r) \<and> ?rel t' b' xs" for n
    using buf_pullup_ok [where fresh = fresh, OF fresh b] rel by blast
qed

subsection \<open>Properties\<close>

lemma fresh_zero: "length (replicate n (0 :: byte)) = n"
  by simp

lemma buf_rel_exists: "length xs \<le> BUF_MAX_LEN \<Longrightarrow> \<exists>tot buf. buf_rel tot 0 buf xs \<and> buf_filled buf"
  using buf_add_ok [OF fresh_zero buf_rel_new, of xs 0 0] by (auto simp: buf_filled_def buf_new_def)

text \<open>
  C6: a buffer is a queue of bytes. Whatever sequence of \<open>buf_add\<close>, \<open>buf_get_bytes\<close>, \<open>buf_drain\<close> and
  \<open>buf_pullup\<close> a client calls, as long as it asks for no more bytes than there are and adds no string
  longer than a buffer may be, no call aborts, touches memory outside a chunk or fails to return; the
  bytes read and the bytes left are those of the same calls on a list; the chunks, their sentinels
  and the counter of allocated memory stay consistent, so that \<open>buf_assert_ok\<close> succeeds; and a buffer
  without empty chunks stays one.
\<close>

theorem buf_refines_queue:
  assumes "\<And>n. length (fresh n) = n" "buf_rel tot rest buf xs" "ops_allowed BUF_MAX_LEN ops (xs, [])"
  shows "\<exists>tot' buf'. run_ops (buf_add fresh now) buf_get_bytes buf_drain (buf_pullup fresh) ops (tot, buf, []) =
        Some (tot', buf', snd (fold (queue_op BUF_MAX_LEN) ops (xs, []))) \<and>
      buf_rel tot' rest buf' (fst (fold (queue_op BUF_MAX_LEN) ops (xs, []))) \<and> buf_assert_ok buf' = Some () \<and>
      (buf_filled buf \<longrightarrow> buf_filled buf')"
  using bufq.run_ops_refines [where fresh = fresh and now = now and rest = rest and fl = "buf_filled buf"
      and t = tot and b = buf and xs = xs and ops = ops and out = "[]"] assms buf_assert_ok_rel by blast

theorem buf_refines_queue_witness:
  "\<exists>tot' buf'. run_ops (buf_add (\<lambda>n. replicate n 0) 7) buf_get_bytes buf_drain (buf_pullup (\<lambda>n. replicate n 0))
      [Add [1, 2, 3, 4], Get 2, Pullup 5, Add [5], Drain 1] (0, buf_new, []) = Some (tot', buf', [1, 2]) \<and>
    buf_rel tot' 0 buf' [4, 5] \<and> buf_assert_ok buf' = Some ()"
  using buf_refines_queue [OF fresh_zero buf_rel_new,
      of "[Add [1, 2, 3, 4], Get 2, Pullup 5, Add [5], Drain 1]" 7 0]
  by (auto simp: BUF_MAX_LEN_def)

text \<open>
  C15: \<open>buf_find_string_offset\<close> on a buffer whose chunks all have data. It returns, and the result is the
  offset of the first occurrence of the string in the contents, wherever the chunk boundaries are, or
  \<open>-1\<close> when the string does not occur.
\<close>

theorem buf_find_string_offset_correct:
  assumes "buf_rel tot rest buf xs" "buf_filled buf" "s \<noteq> []"
  shows "buf_find_string_offset buf s =
    Some (if \<exists>r. occurs_at xs s r then int (LEAST r. occurs_at xs s r) else -1)"
  using buf_find_string_offset_ok [OF assms] by (simp add: first_from_def)

lemma sentinel_bytes: "replicate 4 (0 :: byte) = [0, 0, 0, 0]"
  by (simp add: numeral_eq_Suc)

text \<open>A buffer of two chunks that a string crosses.\<close>

definition two_chunks :: buf_t where
  "two_chunks = \<lparr>buf_magic = BUFFER_MAGIC, b_datalen = 4, default_chunk_size = 4096, buf_chunks =
     [\<lparr>ch_datalen = 2, ch_memlen = 4, DBG_alloc = 52, ch_data = 1, inserted_time = 0, ch_mem = [9, 65, 66, 9, 0, 0, 0, 0]\<rparr>,
      \<lparr>ch_datalen = 2, ch_memlen = 2, DBG_alloc = 50, ch_data = 0, inserted_time = 0, ch_mem = [67, 68, 0, 0, 0, 0]\<rparr>]\<rparr>"

lemma two_chunks_ok: "buf_rel 102 0 two_chunks [65, 66, 67, 68]" "buf_filled two_chunks"
  by (simp_all add: two_chunks_def buf_rel_def buf_shape_def chunks_rel_def chunk_ok_def chunk_bytes_def chunk_size_defs
      BUF_MAX_LEN_def buf_filled_def sentinel_bytes)

theorem buf_find_string_offset_correct_witness:
  "buf_find_string_offset two_chunks [66, 67] =
    Some (if \<exists>r. occurs_at [65, 66, 67, 68] [66, 67] r then int (LEAST r. occurs_at [65, 66, 67, 68] [66, 67] r) else -1)"
  using buf_find_string_offset_correct [OF two_chunks_ok] by blast

text \<open>
  C27: moving data between two buffers. \<open>buf_move_to_buf\<close> returns -1 and changes nothing when the target
  could not hold \<open>buf_flushlen\<close> more bytes, even if fewer are there to move; otherwise it moves the first
  \<open>buf_flushlen\<close> bytes of one to the end of the other, all of them when there are fewer, and
  subtracts their number from \<open>buf_flushlen\<close>. \<open>buf_move_all\<close> moves everything, or nothing when the result would
  be too long. No byte is lost or duplicated, and both buffers keep the invariant.
\<close>

theorem buf_move_conserves:
  assumes "\<And>n. length (fresh n) = n" "bufs_rel tot rest bo ys bi xs"
  shows "(if BUF_MAX_LEN < length ys + flushlen then buf_move_to_buf fresh now tot bo bi flushlen = Some (tot, bo, bi, flushlen, -1)
      else \<exists>tot' bo' bi'. buf_move_to_buf fresh now tot bo bi flushlen =
          Some (tot', bo', bi', flushlen - length xs, int (min flushlen (length xs))) \<and>
        bufs_rel tot' rest bo' (ys @ take flushlen xs) bi' (drop flushlen xs)) \<and>
    (\<exists>bo' bi'. buf_move_all bo (Some bi) = (bo', Some bi', if length ys + length xs \<le> BUF_MAX_LEN then length xs else 0) \<and>
      (if length ys + length xs \<le> BUF_MAX_LEN then bufs_rel tot rest bo' (ys @ xs) bi' [] else bo' = bo \<and> bi' = bi))"
proof -
  have "b_datalen bo = length ys" using assms(2) by (simp add: bufs_rel_def buf_rel_def buf_shape_def)
  then have "buf_move_to_buf fresh now tot bo bi flushlen = Some (tot, bo, bi, flushlen, -1)" if "BUF_MAX_LEN < length ys + flushlen"
    using that by (auto simp: buf_move_to_buf_def)
  then show ?thesis using buf_move_to_buf_ok [OF assms, of flushlen now] buf_move_all_ok [OF assms(2)] by auto
qed

theorem buf_move_conserves_witness:
  "\<exists>tot' bo' bi'. buf_move_to_buf (\<lambda>n. replicate n 0) 7 102 buf_new two_chunks 3 = Some (tot', bo', bi', 0, 3) \<and>
     bufs_rel tot' 0 bo' [65, 66, 67] bi' [68]"
proof -
  have "bufs_rel 102 0 buf_new [] two_chunks [65, 66, 67, 68]"
    using buf_rel_new [of 102] two_chunks_ok(1)
    by (intro bufs_relI2 [of 102 102]) (simp_all add: buf_allocation_eq buf_new_def)
  from buf_move_conserves [OF fresh_zero this, of 3 7] show ?thesis
    by (simp add: BUF_MAX_LEN_def)
qed

text \<open>
  C28: \<open>buf_get_line\<close> on an array of \<open>data_len\<close> bytes. When there is no newline it returns 0 and changes
  nothing; when the first line with its newline and a NUL does not fit it returns -1, tells the size that
  is needed and changes nothing else; otherwise it takes exactly this line off the buffer, writes it
  with its newline and a NUL to the array and returns 1.
\<close>

theorem buf_get_line_correct:
  assumes rel: "buf_rel tot rest buf xs" and len: "data_len \<le> length data_out"
  shows "let line = takeWhile (\<lambda>c. c \<noteq> 10) xs in
    if 10 \<notin> set xs then buf_get_line tot buf data_out data_len = Some (tot, buf, data_out, data_len, 0)
    else if data_len < length line + 2 then
      buf_get_line tot buf data_out data_len = Some (tot, buf, data_out, length line + 2, -1)
    else \<exists>tot' buf'. buf_get_line tot buf data_out data_len =
          Some (tot', buf', line @ [10, 0] @ drop (length line + 2) data_out, length line + 1, 1) \<and>
        buf_rel tot' rest buf' (drop (length line + 1) xs)"
proof (cases "10 \<in> set xs")
  case False
  then show ?thesis
    using buf_find_offset_of_char_ok(2) [OF rel, of 10] by (simp add: buf_get_line_def)
next
  case True
  then obtain line ys where xs: "xs = line @ 10 # ys" "10 \<notin> set line" using split_list_first by metis
  then have l: "takeWhile (\<lambda>c. c \<noteq> 10) xs = line" by (auto simp: takeWhile_append intro: takeWhile_eq_all_conv [THEN iffD2])
  show ?thesis using buf_get_line_cases(1) [OF rel xs] buf_get_line_cases(2) [OF rel xs len] True l by (simp add: Let_def)
qed

theorem buf_get_line_correct_witness:
  "\<exists>tot' buf'. buf_get_line 102 (two_chunks\<lparr>buf_chunks := map (ch_mem_update (\<lambda>m. m[1 := 10])) (buf_chunks two_chunks)\<rparr>) [1, 2, 3] 3 =
     Some (tot', buf', [10, 0, 3], 1, 1) \<and> buf_rel tot' 0 buf' [66, 67, 10]"
proof -
  have "buf_rel 102 0 (two_chunks\<lparr>buf_chunks := map (ch_mem_update (\<lambda>m. m[1 := 10])) (buf_chunks two_chunks)\<rparr>) [10, 66, 67, 10]"
    by (simp add: two_chunks_def buf_rel_def buf_shape_def chunks_rel_def chunk_ok_def chunk_bytes_def chunk_size_defs
      BUF_MAX_LEN_def sentinel_bytes)
  from buf_get_line_correct [OF this, of 3 "[1, 2, 3]"] show ?thesis by simp
qed

text \<open>
  The guard of \<open>buf_add\<close> computes \<open>BUF_MAX_LEN - string_len\<close> in an unsigned type: for a string longer
  than \<open>BUF_MAX_LEN\<close> it wraps, so instead of returning \<open>-1\<close> the function adds the string and its last
  assertion stops the program.
\<close>

theorem buf_add_too_long:
  assumes "\<And>n. length (fresh n) = n" "buf_rel tot rest buf xs" "BUF_MAX_LEN < length string" "length string < 2 ^ 63"
  shows "buf_add fresh now tot buf string = None"
  using buf_add_aborts [OF assms] .

theorem buf_add_too_long_witness:
  "buf_add (\<lambda>n. replicate n 0) 7 0 buf_new (replicate 2147483647 65) = None"
  using buf_add_too_long [OF fresh_zero buf_rel_new, of "replicate 2147483647 65"] by (simp add: BUF_MAX_LEN_def)

end
