(* ===== verification/Buffers_Net.thy ===== *)
theory Buffers_Net
  imports Buffers
begin

section \<open>Buffers on sockets and pipes: \<^verbatim>\<open>lib/net/buffers_net.c\<close>\<close>

text \<open>
  Reading from a descriptor to the end of a buffer and writing from its start to one. The calls of the
  operating system are parameters: \<open>rd is_socket fd w n\<close> is \<open>recv\<close> or \<open>read\<close> of at most \<open>n\<close> bytes in
  the state \<open>w\<close> of the outside world, \<open>wr is_socket fd w bs\<close> is \<open>send\<close> or \<open>write\<close> of the bytes \<open>bs\<close>.
  A read gives bytes, none of them at the end of the input, or an error number; a write gives the
  number of bytes taken or an error number.
\<close>

datatype io_read = Read_bytes "byte list" | Read_error int

datatype io_write = Wrote nat | Write_error int

definition MIN_READ_LEN :: nat where
  "MIN_READ_LEN = 8"

definition EAGAIN :: int where
  "EAGAIN = 11"

definition ERRNO_IS_EAGAIN :: "int \<Rightarrow> bool" where
  "ERRNO_IS_EAGAIN e \<longleftrightarrow> e = EAGAIN"

definition SOCKET_OK :: "int \<Rightarrow> bool" where
  "SOCKET_OK s \<longleftrightarrow> 0 \<le> s"

text \<open>
  The state that a read changes: the outside world, the buffer, \<open>reached_eof\<close> and \<open>error\<close>, which is
  \<open>None\<close> for a null pointer. The chunk to read to is the tail of the buffer.
\<close>

record 'w read_st =
  rs_world :: 'w
  rs_buf :: buf_t
  rs_eof :: bool
  rs_error :: "int option"

definition read_to_chunk ::
    "(bool \<Rightarrow> int \<Rightarrow> 'w \<Rightarrow> nat \<Rightarrow> 'w \<times> io_read) \<Rightarrow> 'w read_st \<Rightarrow> int \<Rightarrow> nat \<Rightarrow> bool \<Rightarrow> ('w read_st \<times> int) option" where
  "read_to_chunk rd st fd at_most is_socket =
     (let buf = rs_buf st;
          chunk = last (buf_chunks buf);
          at_most = (if CHUNK_REMAINING_CAPACITY chunk < at_most then CHUNK_REMAINING_CAPACITY chunk else at_most);
          (w, res) = rd is_socket fd (rs_world st) at_most;
          st = st\<lparr>rs_world := w\<rparr>
      in case res of
           Read_error e \<Rightarrow>
             if \<not> ERRNO_IS_EAGAIN e then Some (st\<lparr>rs_error := map_option (\<lambda>_. e) (rs_error st)\<rparr>, -1)
             else Some (st, 0)
         | Read_bytes bs \<Rightarrow>
             if bs = [] then Some (st\<lparr>rs_eof := True\<rparr>, 0)
             else
               do {
                 mem \<leftarrow> arr_blit (ch_mem chunk) (CHUNK_WRITE_PTR chunk) bs;
                 let buf = buf\<lparr>b_datalen := b_datalen buf + length bs\<rparr>;
                 let chunk = chunk\<lparr>ch_mem := mem, ch_datalen := ch_datalen chunk + length bs\<rparr>;
                 let buf = buf\<lparr>buf_chunks := butlast (buf_chunks buf) @ [chunk]\<rparr>;
                 guard (length bs \<le> BUF_MAX_LEN);
                 Some (st\<lparr>rs_buf := buf\<rparr>, to_i32 (int (length bs)))
               })"

text \<open>The choice of the chunk in the loop of \<open>buf_read_from_fd\<close>, with the number of bytes to read to it.\<close>

definition read_room ::
    "(nat \<Rightarrow> byte list) \<Rightarrow> u32 \<Rightarrow> nat \<Rightarrow> buf_t \<Rightarrow> nat \<Rightarrow> nat \<Rightarrow> (nat \<times> buf_t \<times> nat) option" where
  "read_room fresh now tot buf at_most readlen =
     (if buf_chunks buf = [] \<or> CHUNK_REMAINING_CAPACITY (last (buf_chunks buf)) < MIN_READ_LEN then
        do {
          (tot, buf) \<leftarrow> buf_add_chunk_with_capacity fresh now tot buf at_most True;
          let chunk = last (buf_chunks buf);
          Some (tot, buf, if ch_memlen chunk < readlen then ch_memlen chunk else readlen)
        }
      else
        (let cap = CHUNK_REMAINING_CAPACITY (last (buf_chunks buf)) in
         Some (tot, buf, if cap < readlen then cap else readlen)))"

partial_function (option) read_fd_loop ::
    "(bool \<Rightarrow> int \<Rightarrow> 'w \<Rightarrow> nat \<Rightarrow> 'w \<times> io_read) \<Rightarrow> (nat \<Rightarrow> byte list) \<Rightarrow> u32 \<Rightarrow> nat \<Rightarrow> 'w read_st \<Rightarrow> int \<Rightarrow> nat \<Rightarrow>
     bool \<Rightarrow> nat \<Rightarrow> (nat \<times> 'w read_st \<times> int) option" where
  "read_fd_loop rd fresh now tot st fd at_most is_socket total_read =
     (if total_read < at_most then
        do {
          let readlen = at_most - total_read;
          (tot, buf, readlen) \<leftarrow> read_room fresh now tot (rs_buf st) at_most readlen;
          (st, r) \<leftarrow> read_to_chunk rd (st\<lparr>rs_buf := buf\<rparr>) fd readlen is_socket;
          (if r < 0 then Some (tot, st, r)
           else
             do {
               guard (total_read + nat r \<le> BUF_MAX_LEN);
               let total_read = total_read + nat r;
               (if nat r < readlen then Some (tot, st, to_i32 (int total_read))
                else read_fd_loop rd fresh now tot st fd at_most is_socket total_read)
             })
        }
      else Some (tot, st, to_i32 (int total_read)))"

definition buf_read_from_fd ::
    "(bool \<Rightarrow> int \<Rightarrow> 'w \<Rightarrow> nat \<Rightarrow> 'w \<times> io_read) \<Rightarrow> (nat \<Rightarrow> byte list) \<Rightarrow> u32 \<Rightarrow> nat \<Rightarrow> 'w read_st \<Rightarrow> int \<Rightarrow> nat \<Rightarrow>
     bool \<Rightarrow> (nat \<times> 'w read_st \<times> int) option" where
  "buf_read_from_fd rd fresh now tot st fd at_most is_socket =
     do {
       guard (SOCKET_OK fd);
       (if BUF_MAX_LEN < b_datalen (rs_buf st) then Some (tot, st, -1)
        else if to_u64 (int BUF_MAX_LEN - int at_most) < int (b_datalen (rs_buf st)) then Some (tot, st, -1)
        else read_fd_loop rd fresh now tot st fd at_most is_socket 0)
     }"

definition buf_read_from_socket where
  "buf_read_from_socket rd fresh now tot st s at_most = buf_read_from_fd rd fresh now tot st s at_most True"

definition buf_read_from_pipe where
  "buf_read_from_pipe rd fresh now tot st fd at_most = buf_read_from_fd rd fresh now tot st fd at_most False"

text \<open>The chunk that \<open>flush_chunk\<close> writes from is the head of the buffer.\<close>

definition flush_chunk ::
    "(bool \<Rightarrow> int \<Rightarrow> 'w \<Rightarrow> byte list \<Rightarrow> 'w \<times> io_write) \<Rightarrow> 'w \<Rightarrow> nat \<Rightarrow> int \<Rightarrow> buf_t \<Rightarrow> chunk_t \<Rightarrow> nat \<Rightarrow> bool \<Rightarrow>
     ('w \<times> nat \<times> buf_t \<times> int) option" where
  "flush_chunk wr w tot fd buf chunk sz is_socket =
     do {
       let sz = (if ch_datalen chunk < sz then ch_datalen chunk else sz);
       d \<leftarrow> arr_slice (ch_mem chunk) (ch_data chunk) sz;
       let (w, res) = wr is_socket fd w d;
       (case res of
          Write_error e \<Rightarrow> if \<not> ERRNO_IS_EAGAIN e then Some (w, tot, buf, -1) else Some (w, tot, buf, 0)
        | Wrote n \<Rightarrow>
            do {
              (tot, buf) \<leftarrow> buf_drain tot buf n;
              guard (n \<le> BUF_MAX_LEN);
              Some (w, tot, buf, to_i32 (int n))
            })
     }"

partial_function (option) flush_fd_loop ::
    "(bool \<Rightarrow> int \<Rightarrow> 'w \<Rightarrow> byte list \<Rightarrow> 'w \<times> io_write) \<Rightarrow> 'w \<Rightarrow> nat \<Rightarrow> buf_t \<Rightarrow> int \<Rightarrow> nat \<Rightarrow> bool \<Rightarrow> nat \<Rightarrow>
     ('w \<times> nat \<times> buf_t \<times> int) option" where
  "flush_fd_loop wr w tot buf fd sz is_socket flushed =
     (if sz \<noteq> 0 then
        (case buf_chunks buf of
           [] \<Rightarrow> None
         | head # chunks \<Rightarrow>
             do {
               let flushlen0 = (if sz \<le> ch_datalen head then sz else ch_datalen head);
               (w, tot, buf, r) \<leftarrow> flush_chunk wr w tot fd buf head flushlen0 is_socket;
               (if r < 0 then Some (w, tot, buf, r)
                else
                  do {
                    let flushed = flushed + nat r;
                    let sz = sz - nat r;
                    (if r = 0 \<or> nat r < flushlen0 then
                       do {
                         guard (flushed \<le> BUF_MAX_LEN);
                         Some (w, tot, buf, to_i32 (int flushed))
                       }
                     else flush_fd_loop wr w tot buf fd sz is_socket flushed)
                  })
             })
      else
        do {
          guard (flushed \<le> BUF_MAX_LEN);
          Some (w, tot, buf, to_i32 (int flushed))
        })"

definition buf_flush_to_fd ::
    "(bool \<Rightarrow> int \<Rightarrow> 'w \<Rightarrow> byte list \<Rightarrow> 'w \<times> io_write) \<Rightarrow> 'w \<Rightarrow> nat \<Rightarrow> buf_t \<Rightarrow> int \<Rightarrow> nat \<Rightarrow> bool \<Rightarrow>
     ('w \<times> nat \<times> buf_t \<times> int) option" where
  "buf_flush_to_fd wr w tot buf fd sz is_socket =
     do {
       guard (SOCKET_OK fd);
       let sz = (if b_datalen buf < sz then b_datalen buf else sz);
       flush_fd_loop wr w tot buf fd sz is_socket 0
     }"

definition buf_flush_to_socket where
  "buf_flush_to_socket wr w tot buf s sz = buf_flush_to_fd wr w tot buf s sz True"

definition buf_flush_to_pipe where
  "buf_flush_to_pipe wr w tot buf fd sz = buf_flush_to_fd wr w tot buf fd sz False"

subsection \<open>The interface of the operating system\<close>

text \<open>
  What the manual pages promise: a read returns at most as many bytes as asked for, taken from the
  start of the input that is still to be read; a write takes a prefix of the bytes, in order. Neither
  changes anything when it fails.
\<close>

definition reads_input :: "(bool \<Rightarrow> int \<Rightarrow> 'w \<Rightarrow> nat \<Rightarrow> 'w \<times> io_read) \<Rightarrow> ('w \<Rightarrow> byte list) \<Rightarrow> bool" where
  "reads_input rd input \<longleftrightarrow> (\<forall>s fd w n w' res. rd s fd w n = (w', res) \<longrightarrow>
     (case res of Read_bytes bs \<Rightarrow> length bs \<le> n \<and> input w = bs @ input w' | Read_error e \<Rightarrow> input w' = input w))"

definition writes_output :: "(bool \<Rightarrow> int \<Rightarrow> 'w \<Rightarrow> byte list \<Rightarrow> 'w \<times> io_write) \<Rightarrow> ('w \<Rightarrow> byte list) \<Rightarrow> bool" where
  "writes_output wr output \<longleftrightarrow> (\<forall>s fd w bs w' res. wr s fd w bs = (w', res) \<longrightarrow>
     (case res of Wrote n \<Rightarrow> n \<le> length bs \<and> output w' = output w @ take n bs | Write_error e \<Rightarrow> output w' = output w))"

subsection \<open>Reading\<close>











subsection \<open>Writing\<close>

lemma flush_chunk_ok:
  assumes rel: "buf_rel tot rest buf xs" and head: "buf_chunks buf = head # chunks" and sz: "sz \<le> ch_datalen head"
    and wr: "writes_output wr output"
  shows "\<exists>w' tot' buf' r n. flush_chunk wr w tot fd buf head sz is_socket = Some (w', tot', buf', r) \<and>
    output w' = output w @ take n xs \<and> buf_rel tot' rest buf' (drop n xs) \<and> n \<le> sz \<and> sz \<le> length xs \<and>
    (buf_filled buf \<longrightarrow> buf_filled buf') \<and> (r = -1 \<and> n = 0 \<or> r = int n) \<and>
    ((\<forall>s fd w bs. snd (wr s fd w bs) = Wrote (length bs)) \<longrightarrow> r = int n \<and> n = sz)"
proof -
  have ok: "chunk_ok head" and xs: "xs = chunk_bytes head @ chunks_bytes chunks" "length xs \<le> BUF_MAX_LEN"
    using rel head by (auto simp: buf_rel_def buf_shape_def chunks_rel_def)
  have len: "sz \<le> length xs" using xs ok sz by simp
  have "take sz (chunk_bytes head) = take sz (drop (ch_data head) (ch_mem head))"
    using sz by (simp add: chunk_bytes_def min_absorb1)
  then have d: "arr_slice (ch_mem head) (ch_data head) sz = Some (take sz xs)"
    using ok sz xs by (simp add: arr_slice_in chunk_ok_def)
  obtain w' res where io: "wr is_socket fd w (take sz xs) = (w', res)" by fastforce
  show ?thesis
  proof (cases res)
    case (Write_error e)
    have "output w' = output w" using io Write_error wr by (fastforce simp: writes_output_def)
    moreover have "\<not> (\<forall>s fd w bs. snd (wr s fd w bs) = Wrote (length bs))"
      using io Write_error by (metis io_write.distinct(1) snd_conv)
    ultimately show ?thesis using rel d sz len io Write_error
      by (auto simp: flush_chunk_def Let_def intro!: exI [of _ 0] exI [of _ w'])
  next
    case (Wrote n)
    have n: "n \<le> sz" "output w' = output w @ take n (take sz xs)"
      using io Wrote wr len by (fastforce simp: writes_output_def)+
    obtain tot' buf' where dr: "buf_drain tot buf n = Some (tot', buf')" "buf_rel tot' rest buf' (drop n xs)"
      "buf_filled buf \<longrightarrow> buf_filled buf'"
      using buf_drain_ok [OF rel, of n] n(1) len by auto
    have "n \<le> BUF_MAX_LEN" using n(1) len xs by simp
    then have "flush_chunk wr w tot fd buf head sz is_socket = Some (w', tot', buf', int n)"
      using d io Wrote dr(1) sz by (simp add: flush_chunk_def Let_def)
    moreover have "output w' = output w @ take n xs" using n by (simp add: min_absorb1)
    moreover have "(\<forall>s fd w bs. snd (wr s fd w bs) = Wrote (length bs)) \<longrightarrow> n = sz"
      using io Wrote len by (metis io_write.inject(1) length_take min_absorb2 snd_conv)
    ultimately show ?thesis using n(1) dr(2,3) len by auto
  qed
qed

lemma flush_fd_loop_ok:
  assumes wr: "writes_output wr output"
  shows "buf_rel tot rest buf xs \<Longrightarrow> sz \<le> length xs \<Longrightarrow> flushed + sz \<le> BUF_MAX_LEN \<Longrightarrow>
    \<exists>w' tot' buf' r n. flush_fd_loop wr w tot buf fd sz is_socket flushed = Some (w', tot', buf', r) \<and>
      output w' = output w @ take n xs \<and> buf_rel tot' rest buf' (drop n xs) \<and> n \<le> sz \<and> (r = -1 \<or> r = int (flushed + n)) \<and>
      ((\<forall>s fd w bs. snd (wr s fd w bs) = Wrote (length bs)) \<and> buf_filled buf \<longrightarrow> r = int (flushed + sz) \<and> n = sz)"
proof (induction sz arbitrary: tot buf xs w flushed rule: less_induct)
  case (less sz)
  show ?case
  proof (cases "sz = 0")
    case True
    with less.prems show ?thesis by (simp add: flush_fd_loop.simps [of wr w tot buf fd 0])
  next
    case False
    then obtain head chunks where head: "buf_chunks buf = head # chunks"
      using less.prems by (cases "buf_chunks buf") (auto simp: buf_rel_def buf_shape_def)
    define f where "f = (if sz \<le> ch_datalen head then sz else ch_datalen head)"
    have f: "f \<le> ch_datalen head" "f \<le> sz" "buf_filled buf \<Longrightarrow> 0 < f"
      using False head by (simp_all add: f_def buf_filled_def)
    let ?all = "\<forall>s fd w bs. snd (wr s fd w bs) = Wrote (length bs)"
    obtain w1 tot1 buf1 r n where c: "flush_chunk wr w tot fd buf head f is_socket = Some (w1, tot1, buf1, r)"
      "output w1 = output w @ take n xs" "buf_rel tot1 rest buf1 (drop n xs)" "n \<le> f" "f \<le> length xs"
      "buf_filled buf \<longrightarrow> buf_filled buf1" "r = -1 \<and> n = 0 \<or> r = int n" "?all \<longrightarrow> r = int n \<and> n = f"
      using flush_chunk_ok [OF less.prems(1) head f(1) wr, of w fd is_socket] by blast
    note unf = flush_fd_loop.simps [of wr w tot buf fd sz is_socket flushed] False head c(1) f_def [symmetric]
    show ?thesis
    proof (cases "r = int n \<and> n \<noteq> 0 \<and> n = f")
      case stop: False
      then have "flush_fd_loop wr w tot buf fd sz is_socket flushed =
          Some (w1, tot1, buf1, if r < 0 then -1 else int (flushed + n))"
        using c(4,7) f(2) less.prems(3) by (auto simp: unf Let_def)
      moreover have "\<not> (?all \<and> buf_filled buf)" using stop c(8) f(3) by auto
      ultimately show ?thesis using c f(2) by auto
    next
      case go: True
      have "\<exists>w' tot' buf' r m. flush_fd_loop wr w1 tot1 buf1 fd (sz - n) is_socket (flushed + n) = Some (w', tot', buf', r) \<and>
          output w' = output w1 @ take m (drop n xs) \<and> buf_rel tot' rest buf' (drop m (drop n xs)) \<and> m \<le> sz - n \<and>
          (r = -1 \<or> r = int (flushed + n + m)) \<and>
          (?all \<and> buf_filled buf1 \<longrightarrow> r = int (flushed + n + (sz - n)) \<and> m = sz - n)"
        using go c(4) f(2) less.prems by (intro less.IH c(3)) auto
      then obtain w' tot' buf' r' m where
        l0: "flush_fd_loop wr w1 tot1 buf1 fd (sz - n) is_socket (flushed + n) = Some (w', tot', buf', r')"
        "output w' = output w1 @ take m (drop n xs)" "buf_rel tot' rest buf' (drop m (drop n xs))" "m \<le> sz - n"
        "r' = -1 \<or> r' = int (flushed + n + m)"
        "?all \<and> buf_filled buf1 \<longrightarrow> r' = int (flushed + n + (sz - n)) \<and> m = sz - n" by blast
      have nm: "n \<le> sz" using c(4) f(2) by simp
      have l: "flush_fd_loop wr w1 tot1 buf1 fd (sz - n) is_socket (flushed + n) = Some (w', tot', buf', r')"
        "output w' = output w @ take (n + m) xs" "buf_rel tot' rest buf' (drop (n + m) xs)" "n + m \<le> sz"
        "r' = -1 \<or> r' = int (flushed + (n + m))" "?all \<and> buf_filled buf1 \<longrightarrow> r' = int (flushed + sz) \<and> n + m = sz"
        using l0 nm c(2) by (simp_all add: take_add add.commute [of m] add.assoc)
      have "flush_fd_loop wr w tot buf fd sz is_socket flushed = Some (w', tot', buf', r')"
        using go l(1) by (simp add: unf Let_def)
      with l c(6) show ?thesis by blast
    qed
  qed
qed

subsection \<open>Properties\<close>


text \<open>A world that is the rest of the input and the output so far; it takes and gives all it can.\<close>

definition plain_rd :: "bool \<Rightarrow> int \<Rightarrow> byte list \<times> byte list \<Rightarrow> nat \<Rightarrow> (byte list \<times> byte list) \<times> io_read" where
  "plain_rd is_socket fd w n = ((drop n (fst w), snd w), Read_bytes (take n (fst w)))"

definition plain_wr :: "bool \<Rightarrow> int \<Rightarrow> byte list \<times> byte list \<Rightarrow> byte list \<Rightarrow> (byte list \<times> byte list) \<times> io_write" where
  "plain_wr is_socket fd w bs = ((fst w, snd w @ bs), Wrote (length bs))"

lemma plain_io: "reads_input plain_rd fst" "writes_output plain_wr snd"
  by (auto simp: reads_input_def writes_output_def plain_rd_def plain_wr_def)


text \<open>
  C26: writing to a descriptor. \<open>buf_flush_to_fd\<close> returns, whatever the operating system answers; the
  bytes that went out are the first bytes of the buffer, in order, at most \<open>sz\<close>, and exactly those are
  gone from it; the result is their number or -1. When every write is taken as a whole and no chunk is
  empty, as many bytes as were asked for and were there go out.
\<close>

theorem buf_flush_to_fd_correct:
  assumes "writes_output wr output" "buf_rel tot rest buf xs" "SOCKET_OK fd"
  shows "\<exists>w' tot' buf' r n. buf_flush_to_fd wr w tot buf fd sz is_socket = Some (w', tot', buf', r) \<and>
    output w' = output w @ take n xs \<and> buf_rel tot' rest buf' (drop n xs) \<and> n \<le> min sz (length xs) \<and> (r = -1 \<or> r = int n) \<and>
    ((\<forall>s fd w bs. snd (wr s fd w bs) = Wrote (length bs)) \<and> buf_filled buf \<longrightarrow> r = int n \<and> n = min sz (length xs))"
proof -
  have dl: "b_datalen buf = length xs" "length xs \<le> BUF_MAX_LEN" using assms(2) by (simp_all add: buf_rel_def buf_shape_def)
  then have "buf_flush_to_fd wr w tot buf fd sz is_socket = flush_fd_loop wr w tot buf fd (min sz (length xs)) is_socket 0"
    using assms(3) by (auto simp: buf_flush_to_fd_def Let_def min_def)
  then show ?thesis
    using flush_fd_loop_ok [OF assms(1,2), of "min sz (length xs)" 0 w fd is_socket] dl by fastforce
qed

theorem buf_flush_to_fd_correct_witness:
  "\<exists>w' tot' buf'. buf_flush_to_fd plain_wr ([], [9]) 102 two_chunks 4 3 True = Some (w', tot', buf', 3) \<and>
     snd w' = [9, 65, 66, 67] \<and> buf_rel tot' 0 buf' [68]"
proof -
  have "\<forall>s fd w bs. snd (plain_wr s fd w bs) = Wrote (length bs)" by (simp add: plain_wr_def)
  then show ?thesis
    using buf_flush_to_fd_correct [OF plain_io(2) two_chunks_ok(1), of 4 "([], [9])" 3 True] two_chunks_ok(2)
    by (auto simp: SOCKET_OK_def)
qed

end
