(* ===== verification/Bytes.thy ===== *)
theory Bytes
  imports Prelude
begin

section \<open>Integers in memory and in network order: \<^verbatim>\<open>lib/arch/bytes.h\<close>\<close>

text \<open>
  Reading and writing integers at any place of an array, and the conversions between host and network
  byte order, for a little-endian host. The functions of the C library that the code also calls for the
  conversions, \<open>htons\<close>, \<open>ntohs\<close>, \<open>htonl\<close> and \<open>ntohl\<close>, are the same byte swaps.
\<close>

definition get_uint8 :: "byte list \<Rightarrow> nat \<Rightarrow> u8 option" where
  "get_uint8 mem cp = arr_get mem cp"

definition set_uint8 :: "byte list \<Rightarrow> nat \<Rightarrow> u8 \<Rightarrow> byte list option" where
  "set_uint8 mem cp v = arr_set mem cp v"

text \<open>The bytes of an integer in the memory of a little-endian host, and the integer that some bytes are.\<close>

definition mem_bytes :: "nat \<Rightarrow> 'w::len word \<Rightarrow> byte list" where
  "mem_bytes k v = map (\<lambda>i. ucast (drop_bit (8 * i) v)) [0..<k]"

definition of_bytes :: "byte list \<Rightarrow> 'w::len word" where
  "of_bytes bs = foldr (\<lambda>b v. ucast b OR push_bit 8 v) bs 0"

definition get_uint16 :: "byte list \<Rightarrow> nat \<Rightarrow> u16 option" where
  "get_uint16 mem cp = map_option of_bytes (arr_slice mem cp 2)"

definition get_uint32 :: "byte list \<Rightarrow> nat \<Rightarrow> u32 option" where
  "get_uint32 mem cp = map_option of_bytes (arr_slice mem cp 4)"

definition get_uint64 :: "byte list \<Rightarrow> nat \<Rightarrow> u64 option" where
  "get_uint64 mem cp = map_option of_bytes (arr_slice mem cp 8)"

definition set_uint16 :: "byte list \<Rightarrow> nat \<Rightarrow> u16 \<Rightarrow> byte list option" where
  "set_uint16 mem cp v = arr_blit mem cp (mem_bytes 2 v)"

definition set_uint32 :: "byte list \<Rightarrow> nat \<Rightarrow> u32 \<Rightarrow> byte list option" where
  "set_uint32 mem cp v = arr_blit mem cp (mem_bytes 4 v)"

definition set_uint64 :: "byte list \<Rightarrow> nat \<Rightarrow> u64 \<Rightarrow> byte list option" where
  "set_uint64 mem cp v = arr_blit mem cp (mem_bytes 8 v)"

definition tor_htons :: "u16 \<Rightarrow> u16" where
  "tor_htons a = push_bit 8 (a AND 0x00ff) OR drop_bit 8 (a AND 0xff00)"

definition tor_ntohs :: "u16 \<Rightarrow> u16" where
  "tor_ntohs a = tor_htons a"

definition tor_htonl :: "u32 \<Rightarrow> u32" where
  "tor_htonl a = push_bit 24 (a AND 0x000000ff) OR push_bit 8 (a AND 0x0000ff00) OR
     drop_bit 8 (a AND 0x00ff0000) OR drop_bit 24 (a AND 0xff000000)"

definition tor_ntohl :: "u32 \<Rightarrow> u32" where
  "tor_ntohl a = tor_htonl a"

definition tor_htonll :: "u64 \<Rightarrow> u64" where
  "tor_htonll a = ucast (tor_htonl (ucast (drop_bit 32 a))) OR push_bit 32 (ucast (tor_htonl (ucast a)))"

definition tor_ntohll :: "u64 \<Rightarrow> u64" where
  "tor_ntohll a = tor_htonll a"

abbreviation htons :: "u16 \<Rightarrow> u16" where "htons \<equiv> tor_htons"
abbreviation ntohs :: "u16 \<Rightarrow> u16" where "ntohs \<equiv> tor_ntohs"
abbreviation htonl :: "u32 \<Rightarrow> u32" where "htonl \<equiv> tor_htonl"
abbreviation ntohl :: "u32 \<Rightarrow> u32" where "ntohl \<equiv> tor_ntohl"

subsection \<open>Byte swaps\<close>

lemma masks16: "(0x00ff :: u16) = mask 8" "(0xff00 :: u16) = push_bit 8 (mask 8)"
  by (simp_all add: mask_eq_exp_minus_1 push_bit_eq_mult)

lemma masks32: "(0x000000ff :: u32) = mask 8" "(0x0000ff00 :: u32) = push_bit 8 (mask 8)"
  "(0x00ff0000 :: u32) = push_bit 16 (mask 8)" "(0xff000000 :: u32) = push_bit 24 (mask 8)"
  by (simp_all add: mask_eq_exp_minus_1 push_bit_eq_mult)

lemma bit_htons: "bit (tor_htons a) n \<longleftrightarrow> (if n < 8 then bit a (8 + n) else n < 16 \<and> bit a (n - 8))"
  unfolding tor_htons_def masks16
  by (auto simp: bit_simps)

lemma bit_htonl: "bit (tor_htonl a) n \<longleftrightarrow>
    (if n < 8 then bit a (24 + n) else if n < 16 then bit a (8 + n) else if n < 24 then bit a (n - 8) else n < 32 \<and> bit a (n - 24))"
  unfolding tor_htonl_def masks32
  by (auto simp: bit_simps)

lemma htons_htons [simp]: "tor_htons (tor_htons a) = a"
  by (rule bit_word_eqI) (auto simp: bit_htons)

lemma htonl_htonl [simp]: "tor_htonl (tor_htonl a) = a"
  by (rule bit_word_eqI) (auto simp: bit_htonl)

lemma htonll_htonll [simp]: "tor_htonll (tor_htonll a) = a"
proof -
  let ?hi = "ucast (drop_bit 32 a) :: u32" and ?lo = "ucast a :: u32"
  have split: "(ucast (ucast x OR push_bit 32 (ucast y) :: u64) :: u32) = x"
    "(ucast (drop_bit 32 (ucast x OR push_bit 32 (ucast y) :: u64)) :: u32) = y" for x y :: u32
    by (rule bit_word_eqI; auto simp: bit_simps dest: bit_imp_le_length)+
  have "tor_htonll (tor_htonll a) = ucast ?lo OR push_bit 32 (ucast ?hi)"
    unfolding tor_htonll_def [of "tor_htonll a"] unfolding tor_htonll_def split htonl_htonl ..
  also have "\<dots> = a" by (rule bit_word_eqI) (auto simp: bit_simps)
  finally show ?thesis .
qed

lemma ntoh_simps [simp]: "tor_ntohs (tor_htons a) = a" "tor_ntohl (tor_htonl b) = b" "tor_ntohll (tor_htonll c) = c"
  by (simp_all add: tor_ntohs_def tor_ntohl_def tor_ntohll_def)

lemma length_mem_bytes [simp]: "length (mem_bytes k v) = k"
  by (simp add: mem_bytes_def)

lemma mem_bytes_Suc: "mem_bytes (Suc k) v = ucast v # mem_bytes k (drop_bit 8 v)"
  by (simp add: mem_bytes_def upt_conv_Cons map_Suc_upt [symmetric] add.commute del: upt_Suc)

lemma of_bytes_mem: "of_bytes (mem_bytes k v) = take_bit (8 * k) (v :: 'w::len word)"
proof (induction k arbitrary: v)
  case 0
  show ?case by (simp add: of_bytes_def mem_bytes_def)
next
  case (Suc k)
  have "of_bytes (mem_bytes (Suc k) v) = (ucast (ucast v :: byte) :: 'w word) OR push_bit 8 (of_bytes (mem_bytes k (drop_bit 8 v)))"
    by (simp add: mem_bytes_Suc of_bytes_def)
  also have "\<dots> = take_bit (8 * Suc k) v"
    unfolding Suc by (rule bit_word_eqI) (auto simp: bit_simps)
  finally show ?case .
qed

lemma of_bytes_simps [simp]:
  "of_bytes (mem_bytes 2 v) = (v :: u16)" "of_bytes (mem_bytes 4 w) = (w :: u32)" "of_bytes (mem_bytes 8 x) = (x :: u64)"
  by (simp_all add: of_bytes_mem take_bit_word_eq_self)

lemma bit_of_bytes: "bit (of_bytes bs :: 'w::len word) n \<Longrightarrow> n < 8 * length bs"
proof (induction bs arbitrary: n)
  case (Cons b bs)
  have "of_bytes (b # bs) = (ucast b :: 'w word) OR push_bit 8 (of_bytes bs)" by (simp add: of_bytes_def)
  then have "bit b n \<or> 8 \<le> n \<and> bit (of_bytes bs :: 'w word) (n - 8)"
    using Cons.prems by (auto simp: bit_simps)
  then show ?case using Cons.IH [of "n - 8"] bit_imp_le_length [of b n] by auto
qed (simp add: of_bytes_def)

lemma mem_bytes_of_bytes:
  "8 * length bs \<le> LENGTH('w) \<Longrightarrow> mem_bytes (length bs) (of_bytes bs :: 'w::len word) = bs"
proof (induction bs)
  case (Cons b bs)
  define v where "v = (of_bytes bs :: 'w word)"
  have e: "of_bytes (b # bs) = (ucast b :: 'w word) OR push_bit 8 v" by (simp add: v_def of_bytes_def)
  have "8 + n < LENGTH('w)" if "bit v n" for n
    using bit_of_bytes [where 'w = 'w, of bs n] that Cons.prems by (simp add: v_def)
  then have "drop_bit 8 (of_bytes (b # bs) :: 'w word) = v"
    unfolding e by (intro bit_word_eqI) (auto simp: bit_simps dest: bit_imp_le_length)
  moreover have "ucast (of_bytes (b # bs) :: 'w word) = b"
    unfolding e using Cons.prems by (intro bit_word_eqI) (auto simp: bit_simps dest: bit_imp_le_length)
  ultimately show ?case using Cons by (simp add: mem_bytes_Suc v_def)
qed (simp add: mem_bytes_def)

text \<open>In network order the most significant byte is the first one.\<close>

lemma mem_bytes_htons: "mem_bytes 2 (tor_htons v) = [ucast (drop_bit 8 v), ucast v]"
proof -
  have "ucast (tor_htons v) = (ucast (drop_bit 8 v) :: byte)" "ucast (drop_bit 8 (tor_htons v)) = (ucast v :: byte)"
    by (rule bit_word_eqI; auto simp: bit_simps bit_htons)+
  then show ?thesis by (simp add: mem_bytes_def numeral_eq_Suc)
qed

end
