(* ===== verification/Cells.thy ===== *)
theory Cells
  imports Buffers Bytes
begin

section \<open>Cells on a connection: \<^verbatim>\<open>core/or/connection_or.c\<close>, \<^verbatim>\<open>core/proto/proto_cell.c\<close>\<close>

text \<open>
  The wire format of the cells that two relays exchange: packing them, writing them to the output
  buffer of a connection, and the loop that takes them off the input buffer and hands them on. The
  channel layer behind the loop is a parameter, and so is what the code notifies of a cell on the way
  (statistics, time stamps, the handshake digest, the event loop): a function on the rest of the
  connection's state for each kind of event.
\<close>

definition CELL_PADDING :: u8 where
  "CELL_PADDING = 0"

definition CELL_VERSIONS :: u8 where
  "CELL_VERSIONS = 7"

definition CELL_PAYLOAD_SIZE :: nat where
  "CELL_PAYLOAD_SIZE = 509"

definition CELL_MAX_NETWORK_SIZE :: nat where
  "CELL_MAX_NETWORK_SIZE = 514"

definition VAR_CELL_MAX_HEADER_SIZE :: nat where
  "VAR_CELL_MAX_HEADER_SIZE = 7"

definition MIN_LINK_PROTO_FOR_WIDE_CIRC_IDS :: int where
  "MIN_LINK_PROTO_FOR_WIDE_CIRC_IDS = 4"

definition get_cell_network_size :: "bool \<Rightarrow> nat" where
  "get_cell_network_size wide_circ_ids = (if wide_circ_ids then CELL_MAX_NETWORK_SIZE else CELL_MAX_NETWORK_SIZE - 2)"

definition get_var_cell_header_size :: "bool \<Rightarrow> nat" where
  "get_var_cell_header_size wide_circ_ids =
     (if wide_circ_ids then VAR_CELL_MAX_HEADER_SIZE else VAR_CELL_MAX_HEADER_SIZE - 2)"

definition get_circ_id_size :: "bool \<Rightarrow> nat" where
  "get_circ_id_size wide_circ_ids = (if wide_circ_ids then 4 else 2)"

record cell_t =
  c_circ_id :: u32
  c_command :: u8
  c_payload :: "byte list"

record var_cell_t =
  vc_command :: u8
  vc_circ_id :: u32
  vc_payload_len :: u16
  vc_payload :: "byte list"

subsection \<open>Packing and unpacking\<close>

text \<open>The array \<open>dest\<close> is the \<open>body\<close> of a \<open>packed_cell_t\<close>.\<close>

definition cell_pack :: "byte list \<Rightarrow> cell_t \<Rightarrow> bool \<Rightarrow> byte list option" where
  "cell_pack dest src wide_circ_ids =
     do {
       (dest, p) \<leftarrow>
         (if wide_circ_ids then
            do {
              dest \<leftarrow> set_uint32 dest 0 (htonl (c_circ_id src));
              Some (dest, 4)
            }
          else
            do {
              dest \<leftarrow> arr_fill dest (CELL_MAX_NETWORK_SIZE - 2) 2 0;
              dest \<leftarrow> set_uint16 dest 0 (htons (ucast (c_circ_id src)));
              Some (dest, 2)
            });
       dest \<leftarrow> set_uint8 dest p (c_command src);
       payload \<leftarrow> arr_slice (c_payload src) 0 CELL_PAYLOAD_SIZE;
       arr_blit dest (p + 1) payload
     }"

definition cell_unpack :: "byte list \<Rightarrow> bool \<Rightarrow> cell_t option" where
  "cell_unpack src wide_circ_ids =
     do {
       (circ_id, p) \<leftarrow>
         (if wide_circ_ids then
            do {
              v \<leftarrow> get_uint32 src 0;
              Some (ntohl v, 4)
            }
          else
            do {
              v \<leftarrow> get_uint16 src 0;
              Some (ucast (ntohs v), 2)
            });
       command \<leftarrow> get_uint8 src p;
       payload \<leftarrow> arr_slice src (p + 1) CELL_PAYLOAD_SIZE;
       Some \<lparr>c_circ_id = circ_id, c_command = command, c_payload = payload\<rparr>
     }"

definition var_cell_pack_header :: "var_cell_t \<Rightarrow> byte list \<Rightarrow> bool \<Rightarrow> (byte list \<times> nat) option" where
  "var_cell_pack_header cell hdr_out wide_circ_ids =
     do {
       (hdr_out, p, r) \<leftarrow>
         (if wide_circ_ids then
            do {
              hdr_out \<leftarrow> set_uint32 hdr_out 0 (htonl (vc_circ_id cell));
              Some (hdr_out, 4, VAR_CELL_MAX_HEADER_SIZE)
            }
          else
            do {
              hdr_out \<leftarrow> set_uint16 hdr_out 0 (htons (ucast (vc_circ_id cell)));
              Some (hdr_out, 2, VAR_CELL_MAX_HEADER_SIZE - 2)
            });
       hdr_out \<leftarrow> set_uint8 hdr_out p (vc_command cell);
       hdr_out \<leftarrow> set_uint16 hdr_out (p + 1) (htons (vc_payload_len cell));
       Some (hdr_out, r)
     }"

definition var_cell_new :: "u16 \<Rightarrow> var_cell_t" where
  "var_cell_new payload_len =
     \<lparr>vc_command = 0, vc_circ_id = 0, vc_payload_len = payload_len, vc_payload = replicate (unat payload_len) 0\<rparr>"

definition var_cell_copy :: "var_cell_t option \<Rightarrow> var_cell_t option option" where
  "var_cell_copy src =
     (case src of
        None \<Rightarrow> Some None
      | Some src \<Rightarrow>
          do {
            let copy = \<lparr>vc_command = vc_command src, vc_circ_id = vc_circ_id src, vc_payload_len = vc_payload_len src,
                        vc_payload = replicate (unat (vc_payload_len src)) 0\<rparr>;
            d \<leftarrow> arr_slice (vc_payload src) 0 (unat (vc_payload_len copy));
            payload \<leftarrow> arr_blit (vc_payload copy) 0 d;
            Some (Some (copy\<lparr>vc_payload := payload\<rparr>))
          })"

subsection \<open>Taking a variable-length cell off a buffer\<close>

definition cell_command_is_var_length :: "u8 \<Rightarrow> int \<Rightarrow> bool" where
  "cell_command_is_var_length command linkproto \<longleftrightarrow>
     (if linkproto = 1 then False
      else if linkproto = 2 then command = CELL_VERSIONS
      else command = CELL_VERSIONS \<or> 128 \<le> command)"

definition fetch_var_cell_from_buf ::
    "(nat \<Rightarrow> byte list) \<Rightarrow> nat \<Rightarrow> buf_t \<Rightarrow> int \<Rightarrow> (nat \<times> buf_t \<times> var_cell_t option \<times> bool) option" where
  "fetch_var_cell_from_buf fresh tot buf linkproto =
     (let wide_circ_ids = (MIN_LINK_PROTO_FOR_WIDE_CIRC_IDS \<le> linkproto);
          circ_id_len = get_circ_id_size wide_circ_ids;
          header_len = get_var_cell_header_size wide_circ_ids
      in
      if buf_datalen buf < header_len then Some (tot, buf, None, False)
      else
        do {
          hdr \<leftarrow> buf_peek buf (fresh VAR_CELL_MAX_HEADER_SIZE) header_len;
          command \<leftarrow> get_uint8 hdr circ_id_len;
          (if \<not> cell_command_is_var_length command linkproto then Some (tot, buf, None, False)
           else
             do {
               l \<leftarrow> get_uint16 hdr (circ_id_len + 1);
               let len = ntohs l;
               (if buf_datalen buf < header_len + unat len then Some (tot, buf, None, True)
                else
                  do {
                    let result = var_cell_new len;
                    let result = result\<lparr>vc_command := command\<rparr>;
                    circ_id \<leftarrow> (if wide_circ_ids then map_option ntohl (get_uint32 hdr 0)
                               else map_option (\<lambda>v. ucast (ntohs v)) (get_uint16 hdr 0));
                    let result = result\<lparr>vc_circ_id := circ_id\<rparr>;
                    (tot, buf) \<leftarrow> buf_drain tot buf header_len;
                    payload \<leftarrow> buf_peek buf (vc_payload result) (unat len);
                    let result = result\<lparr>vc_payload := payload\<rparr>;
                    (tot, buf) \<leftarrow> buf_drain tot buf (unat len);
                    Some (tot, buf, Some result, True)
                  })
             })
        })"

subsection \<open>Connections\<close>

datatype or_event =
  Start_writing | Write_failed | Padding_total | Padding_cell | Padding_enabled_total | Padding_enabled_cell
  | Timestamp_active | Network_is_live | Record_cell cell_t | Record_var_cell var_cell_t

text \<open>
  The fields of an \<open>or_connection_t\<close> that the code below reads and changes. Of the channel it has at
  most one bit is read.
\<close>

record 'h or_conn =
  inbuf :: buf_t
  outbuf :: buf_t
  link_proto :: int
  wide_circ_ids :: bool
  write_event :: bool
  marked_for_close :: bool
  hold_open_until_flushed :: bool
  chan_padding_enabled :: "bool option"
  handshaking_v3 :: bool
  conn_rest :: 'h

definition note_event :: "(or_event \<Rightarrow> 'h \<Rightarrow> 'h) \<Rightarrow> or_event \<Rightarrow> 'h or_conn \<Rightarrow> 'h or_conn" where
  "note_event ev e conn = conn\<lparr>conn_rest := ev e (conn_rest conn)\<rparr>"

definition connection_may_write_to_buf :: "'h or_conn \<Rightarrow> bool" where
  "connection_may_write_to_buf conn \<longleftrightarrow> \<not> (marked_for_close conn \<and> \<not> hold_open_until_flushed conn)"

definition connection_write_to_buf_commit :: "(or_event \<Rightarrow> 'h \<Rightarrow> 'h) \<Rightarrow> 'h or_conn \<Rightarrow> 'h or_conn" where
  "connection_write_to_buf_commit ev conn = (if write_event conn then note_event ev Start_writing conn else conn)"

text \<open>
  A connection whose output buffer cannot take more bytes is marked to be closed; the event stands for the rest of what
  \<open>connection_or_close_for_error\<close> and \<open>connection_mark_for_close_internal_\<close> do. The function is reached only on a
  connection that is not marked yet, or that is held open until it is flushed.
\<close>

definition connection_write_to_buf_failed :: "(or_event \<Rightarrow> 'h \<Rightarrow> 'h) \<Rightarrow> 'h or_conn \<Rightarrow> 'h or_conn" where
  "connection_write_to_buf_failed ev conn = note_event ev Write_failed (conn\<lparr>marked_for_close := True\<rparr>)"

text \<open>\<open>connection_write_to_buf_impl_\<close> as \<open>connection_buf_add\<close> calls it, without compression.\<close>

definition connection_buf_add ::
    "(or_event \<Rightarrow> 'h \<Rightarrow> 'h) \<Rightarrow> (nat \<Rightarrow> byte list) \<Rightarrow> u32 \<Rightarrow> nat \<Rightarrow> byte list \<Rightarrow> 'h or_conn \<Rightarrow> (nat \<times> 'h or_conn) option" where
  "connection_buf_add ev fresh now tot string conn =
     (if string = [] then Some (tot, conn)
      else if \<not> connection_may_write_to_buf conn then Some (tot, conn)
      else
        do {
          (tot, buf, r) \<leftarrow> buf_add fresh now tot (outbuf conn) string;
          let conn = conn\<lparr>outbuf := buf\<rparr>;
          Some (tot, if r < 0 then connection_write_to_buf_failed ev conn else connection_write_to_buf_commit ev conn)
        })"

definition connection_or_write_cell_to_buf ::
    "(or_event \<Rightarrow> 'h \<Rightarrow> 'h) \<Rightarrow> (nat \<Rightarrow> byte list) \<Rightarrow> u32 \<Rightarrow> nat \<Rightarrow> cell_t \<Rightarrow> 'h or_conn \<Rightarrow> (nat \<times> 'h or_conn) option" where
  "connection_or_write_cell_to_buf ev fresh now tot cell conn =
     do {
       let cell_network_size = get_cell_network_size (wide_circ_ids conn);
       networkcell \<leftarrow> cell_pack (fresh CELL_MAX_NETWORK_SIZE) cell (wide_circ_ids conn);
       let conn = note_event ev Padding_total conn;
       let conn = (if c_command cell = CELL_PADDING then note_event ev Padding_cell conn else conn);
       d \<leftarrow> arr_slice networkcell 0 cell_network_size;
       (tot, conn) \<leftarrow> connection_buf_add ev fresh now tot d conn;
       let conn =
         (case chan_padding_enabled conn of
            None \<Rightarrow> conn
          | Some padding_enabled \<Rightarrow>
              (let conn = note_event ev Timestamp_active conn in
               if padding_enabled then
                 (let conn = note_event ev Padding_enabled_total conn in
                  if c_command cell = CELL_PADDING then note_event ev Padding_enabled_cell conn else conn)
               else conn));
       Some (tot, if handshaking_v3 conn then note_event ev (Record_cell cell) conn else conn)
     }"

definition connection_or_write_var_cell_to_buf ::
    "(or_event \<Rightarrow> 'h \<Rightarrow> 'h) \<Rightarrow> (nat \<Rightarrow> byte list) \<Rightarrow> u32 \<Rightarrow> nat \<Rightarrow> var_cell_t \<Rightarrow> 'h or_conn \<Rightarrow> (nat \<times> 'h or_conn) option" where
  "connection_or_write_var_cell_to_buf ev fresh now tot cell conn =
     do {
       (hdr, n) \<leftarrow> var_cell_pack_header cell (fresh VAR_CELL_MAX_HEADER_SIZE) (wide_circ_ids conn);
       d \<leftarrow> arr_slice hdr 0 n;
       (tot, conn) \<leftarrow> connection_buf_add ev fresh now tot d conn;
       d \<leftarrow> arr_slice (vc_payload cell) 0 (unat (vc_payload_len cell));
       (tot, conn) \<leftarrow> connection_buf_add ev fresh now tot d conn;
       let conn = (if handshaking_v3 conn then note_event ev (Record_var_cell cell) conn else conn);
       let conn = note_event ev Padding_total conn;
       Some (tot, if chan_padding_enabled conn \<noteq> None then note_event ev Timestamp_active conn else conn)
     }"

definition connection_fetch_var_cell_from_buf ::
    "(nat \<Rightarrow> byte list) \<Rightarrow> nat \<Rightarrow> 'h or_conn \<Rightarrow> (nat \<times> 'h or_conn \<times> var_cell_t option \<times> bool) option" where
  "connection_fetch_var_cell_from_buf fresh tot conn =
     do {
       (tot, buf, out, r) \<leftarrow> fetch_var_cell_from_buf fresh tot (inbuf conn) (link_proto conn);
       Some (tot, conn\<lparr>inbuf := buf\<rparr>, out, r)
     }"

definition touch_channel :: "(or_event \<Rightarrow> 'h \<Rightarrow> 'h) \<Rightarrow> 'h or_conn \<Rightarrow> 'h or_conn" where
  "touch_channel ev conn =
     note_event ev Network_is_live (if chan_padding_enabled conn \<noteq> None then note_event ev Timestamp_active conn else conn)"

text \<open>
  The parameters \<open>handle_var\<close> and \<open>handle\<close> are \<open>channel_tls_handle_var_cell\<close> and
  \<open>channel_tls_handle_cell\<close>. \<open>None\<close> also stands for a loop that does not end.
\<close>

partial_function (option) connection_or_process_cells_from_inbuf ::
    "(or_event \<Rightarrow> 'h \<Rightarrow> 'h) \<Rightarrow> (var_cell_t \<Rightarrow> 'h or_conn \<Rightarrow> 'h or_conn) \<Rightarrow> (cell_t \<Rightarrow> 'h or_conn \<Rightarrow> 'h or_conn) \<Rightarrow>
     (nat \<Rightarrow> byte list) \<Rightarrow> nat \<Rightarrow> 'h or_conn \<Rightarrow> (nat \<times> 'h or_conn) option" where
  "connection_or_process_cells_from_inbuf ev handle_var handle fresh tot conn =
     do {
       (tot, conn, out, r) \<leftarrow> connection_fetch_var_cell_from_buf fresh tot conn;
       (if r then
          (case out of
             None \<Rightarrow> Some (tot, conn)
           | Some var_cell \<Rightarrow>
               do {
                 let conn = touch_channel ev conn;
                 let conn = handle_var var_cell conn;
                 connection_or_process_cells_from_inbuf ev handle_var handle fresh tot conn
               })
        else
          do {
            let wide_circ_ids = wide_circ_ids conn;
            let cell_network_size = get_cell_network_size wide_circ_ids;
            (if buf_datalen (inbuf conn) < cell_network_size then Some (tot, conn)
             else
               do {
                 let conn = touch_channel ev conn;
                 (tot, ib, buf, r) \<leftarrow> buf_get_bytes tot (inbuf conn) (fresh CELL_MAX_NETWORK_SIZE) cell_network_size;
                 let conn = conn\<lparr>inbuf := ib\<rparr>;
                 cell \<leftarrow> cell_unpack buf wide_circ_ids;
                 let conn = handle cell conn;
                 connection_or_process_cells_from_inbuf ev handle_var handle fresh tot conn
               })
          })
     }"

subsection \<open>The wire format\<close>

lemmas cell_size_defs = CELL_PAYLOAD_SIZE_def CELL_MAX_NETWORK_SIZE_def VAR_CELL_MAX_HEADER_SIZE_def
  get_cell_network_size_def get_var_cell_header_size_def get_circ_id_size_def

definition circ_wire :: "bool \<Rightarrow> u32 \<Rightarrow> byte list" where
  "circ_wire wide c = (if wide then mem_bytes 4 (htonl c) else mem_bytes 2 (htons (ucast c)))"

definition cell_wire :: "bool \<Rightarrow> cell_t \<Rightarrow> byte list" where
  "cell_wire wide c = circ_wire wide (c_circ_id c) @ c_command c # c_payload c"

definition var_header :: "bool \<Rightarrow> var_cell_t \<Rightarrow> byte list" where
  "var_header wide v = circ_wire wide (vc_circ_id v) @ vc_command v # mem_bytes 2 (htons (vc_payload_len v))"

text \<open>A circuit identifier that fits the field it is written to, and a cell with a payload of the right length.\<close>

definition circ_fits :: "bool \<Rightarrow> u32 \<Rightarrow> bool" where
  "circ_fits wide c \<longleftrightarrow> wide \<or> c < 65536"

definition cell_ok :: "bool \<Rightarrow> cell_t \<Rightarrow> bool" where
  "cell_ok wide c \<longleftrightarrow> length (c_payload c) = CELL_PAYLOAD_SIZE \<and> circ_fits wide (c_circ_id c)"

definition var_cell_ok :: "bool \<Rightarrow> var_cell_t \<Rightarrow> bool" where
  "var_cell_ok wide v \<longleftrightarrow> length (vc_payload v) = unat (vc_payload_len v) \<and> circ_fits wide (vc_circ_id v)"

lemma length_circ_wire [simp]: "length (circ_wire wide c) = get_circ_id_size wide"
  by (simp add: circ_wire_def get_circ_id_size_def)

lemma length_cell_wire: "cell_ok wide c \<Longrightarrow> length (cell_wire wide c) = get_cell_network_size wide"
  by (simp add: cell_ok_def cell_wire_def cell_size_defs)

lemma length_var_header [simp]: "length (var_header wide v) = get_var_cell_header_size wide"
  by (simp add: var_header_def cell_size_defs)

lemma ucast_narrow: "c < 65536 \<Longrightarrow> ucast (ucast (c :: u32) :: u16) = c"
  by (rule word_unat_eq_iff [THEN iffD2]) (simp add: unsigned_ucast_eq word_less_nat_alt take_bit_eq_mod unat_mod_distrib)

lemma circ_wire_decode:
  "map_option ntohl (get_uint32 (circ_wire True c @ xs) 0) = Some c"
  "circ_fits False c \<Longrightarrow> map_option (\<lambda>v. ucast (ntohs v)) (get_uint16 (circ_wire False c @ xs) 0) = Some c"
  by (simp_all add: circ_wire_def get_uint32_def get_uint16_def arr_slice_def circ_fits_def ucast_narrow)

text \<open>Writing one field after the other to an array.\<close>

lemma arr_blit_next:
  "p = length xs \<Longrightarrow> length ys \<le> length zs \<Longrightarrow> arr_blit (xs @ zs) p ys = Some ((xs @ ys) @ drop (length ys) zs)"
  by (simp add: arr_blit_def)

lemma arr_set_next: "p = length xs \<Longrightarrow> zs \<noteq> [] \<Longrightarrow> arr_set (xs @ zs) p v = Some ((xs @ [v]) @ drop 1 zs)"
  by (cases zs) (simp_all add: arr_set_def)

lemma circ_write:
  assumes "4 \<le> length dest"
  shows "set_uint32 dest 0 (htonl c) = Some (circ_wire True c @ drop 4 dest)"
    and "set_uint16 dest 0 (htons (ucast c)) = Some (circ_wire False c @ drop 2 dest)"
  using assms by (simp_all add: set_uint32_def set_uint16_def circ_wire_def arr_blit_def numeral_2_eq_2)

lemma cell_pack_ok:
  assumes "cell_ok wide c" "length dest = CELL_MAX_NETWORK_SIZE"
  obtains r where "cell_pack dest c wide = Some (cell_wire wide c @ r)"
proof -
  have fill: "arr_fill dest (CELL_MAX_NETWORK_SIZE - 2) 2 0 = Some (take 512 dest @ [0, 0])"
    using assms(2) by (simp add: arr_fill_def arr_blit_def CELL_MAX_NETWORK_SIZE_def numeral_eq_Suc)
  have pl: "arr_slice (c_payload c) 0 CELL_PAYLOAD_SIZE = Some (c_payload c)" "length (c_payload c) = 509"
    using assms(1) by (simp_all add: arr_slice_def cell_ok_def CELL_PAYLOAD_SIZE_def)
  have "\<exists>d. 510 \<le> length d \<and> cell_pack dest c wide =
      do { dest \<leftarrow> set_uint8 (circ_wire wide (c_circ_id c) @ d) (get_circ_id_size wide) (c_command c);
           arr_blit dest (get_circ_id_size wide + 1) (c_payload c) }"
    using assms(2) fill pl circ_write [of dest "c_circ_id c"] circ_write [of "take 512 dest @ [0, 0]" "c_circ_id c"]
    by (cases wide) (auto simp: cell_pack_def get_circ_id_size_def CELL_MAX_NETWORK_SIZE_def intro!: exI)
  then obtain d where d: "510 \<le> length d" "cell_pack dest c wide =
      do { dest \<leftarrow> set_uint8 (circ_wire wide (c_circ_id c) @ d) (get_circ_id_size wide) (c_command c);
           arr_blit dest (get_circ_id_size wide + 1) (c_payload c) }" by blast
  moreover have "set_uint8 (circ_wire wide (c_circ_id c) @ d) (get_circ_id_size wide) (c_command c) =
      Some ((circ_wire wide (c_circ_id c) @ [c_command c]) @ drop 1 d)"
    unfolding set_uint8_def using d(1) by (intro arr_set_next) auto
  moreover have "arr_blit ((circ_wire wide (c_circ_id c) @ [c_command c]) @ drop 1 d) (get_circ_id_size wide + 1) (c_payload c) =
      Some (((circ_wire wide (c_circ_id c) @ [c_command c]) @ c_payload c) @ drop (length (c_payload c)) (drop 1 d))"
    using d(1) pl(2) by (intro arr_blit_next) auto
  ultimately show ?thesis using that [of "drop 509 (drop 1 d)"] pl(2) by (simp add: cell_wire_def)
qed

lemma cell_unpack_ok:
  assumes "cell_ok wide c"
  shows "cell_unpack (cell_wire wide c @ r) wide = Some c"
proof -
  have "get_uint8 (cell_wire wide c @ r) (get_circ_id_size wide) = Some (c_command c)"
    by (simp add: get_uint8_def arr_get_def cell_wire_def nth_append)
  moreover have "arr_slice (cell_wire wide c @ r) (get_circ_id_size wide + 1) CELL_PAYLOAD_SIZE = Some (c_payload c)"
    using assms by (simp add: arr_slice_def cell_wire_def cell_ok_def)
  moreover have "wide \<Longrightarrow> map_option ntohl (get_uint32 (cell_wire wide c @ r) 0) = Some (c_circ_id c)"
    "\<not> wide \<Longrightarrow> map_option (\<lambda>v. ucast (ntohs v)) (get_uint16 (cell_wire wide c @ r) 0) = Some (c_circ_id c)"
    using assms circ_wire_decode by (simp_all add: cell_wire_def cell_ok_def)
  ultimately show ?thesis
    by (cases wide) (auto simp: cell_unpack_def get_circ_id_size_def)
qed

lemma var_cell_pack_header_ok:
  assumes "length hdr = VAR_CELL_MAX_HEADER_SIZE"
  obtains r where "var_cell_pack_header v hdr wide = Some (var_header wide v @ r, get_var_cell_header_size wide)"
proof -
  have "\<exists>d. 3 \<le> length d \<and> var_cell_pack_header v hdr wide =
      do { h \<leftarrow> set_uint8 (circ_wire wide (vc_circ_id v) @ d) (get_circ_id_size wide) (vc_command v);
           h \<leftarrow> arr_blit h (get_circ_id_size wide + 1) (mem_bytes 2 (htons (vc_payload_len v)));
           Some (h, get_var_cell_header_size wide) }"
    using assms circ_write [of hdr "vc_circ_id v"]
    by (cases wide) (auto simp: var_cell_pack_header_def get_circ_id_size_def VAR_CELL_MAX_HEADER_SIZE_def
        get_var_cell_header_size_def set_uint16_def [of _ "Suc _"] intro!: exI)
  then obtain d where d: "3 \<le> length d" "var_cell_pack_header v hdr wide =
      do { h \<leftarrow> set_uint8 (circ_wire wide (vc_circ_id v) @ d) (get_circ_id_size wide) (vc_command v);
           h \<leftarrow> arr_blit h (get_circ_id_size wide + 1) (mem_bytes 2 (htons (vc_payload_len v)));
           Some (h, get_var_cell_header_size wide) }" by blast
  moreover have "set_uint8 (circ_wire wide (vc_circ_id v) @ d) (get_circ_id_size wide) (vc_command v) =
      Some ((circ_wire wide (vc_circ_id v) @ [vc_command v]) @ drop 1 d)"
    unfolding set_uint8_def using d(1) by (intro arr_set_next) auto
  moreover have "arr_blit ((circ_wire wide (vc_circ_id v) @ [vc_command v]) @ drop 1 d) (get_circ_id_size wide + 1)
        (mem_bytes 2 (htons (vc_payload_len v))) =
      Some (((circ_wire wide (vc_circ_id v) @ [vc_command v]) @ mem_bytes 2 (htons (vc_payload_len v))) @
        drop (length (mem_bytes 2 (htons (vc_payload_len v)))) (drop 1 d))"
    using d(1) by (intro arr_blit_next) auto
  ultimately show ?thesis using that [of "drop 2 (drop 1 d)"] by (simp add: var_header_def)
qed

subsection \<open>Fetching\<close>

lemma fetch_short:
  assumes "buf_rel tot rest buf xs" "length xs < get_var_cell_header_size (MIN_LINK_PROTO_FOR_WIDE_CIRC_IDS \<le> lp)"
  shows "fetch_var_cell_from_buf fresh tot buf lp = Some (tot, buf, None, False)"
  using assms buf_datalen_rel [OF assms(1)] by (simp add: fetch_var_cell_from_buf_def Let_def)

text \<open>The header that is read from a buffer with at least so many bytes.\<close>

lemma peek_header:
  assumes "\<And>n. length (fresh n) = n" "buf_rel tot rest buf (hdr @ ys)" "length hdr = get_var_cell_header_size wide"
  obtains r where "buf_peek buf (fresh VAR_CELL_MAX_HEADER_SIZE) (get_var_cell_header_size wide) = Some (hdr @ r)"
  using buf_peek_ok [OF assms(2), of "get_var_cell_header_size wide" "fresh VAR_CELL_MAX_HEADER_SIZE"] assms(1,3)
  by (auto simp: get_var_cell_header_size_def)

lemma fetch_fixed:
  assumes fresh: "\<And>n. length (fresh n) = n" and rel: "buf_rel tot rest buf (circ @ cmd # ys)"
    and "length circ = get_circ_id_size (MIN_LINK_PROTO_FOR_WIDE_CIRC_IDS \<le> lp)" "\<not> cell_command_is_var_length cmd lp"
  shows "fetch_var_cell_from_buf fresh tot buf lp = Some (tot, buf, None, False)"
proof (cases "length ys < 2")
  case True
  then show ?thesis using assms(3) by (intro fetch_short [OF rel]) (auto simp: cell_size_defs)
next
  case False
  let ?wide = "MIN_LINK_PROTO_FOR_WIDE_CIRC_IDS \<le> lp"
  have "circ @ cmd # ys = (circ @ cmd # take 2 ys) @ drop 2 ys" by simp
  moreover have "length (circ @ cmd # take 2 ys) = get_var_cell_header_size ?wide"
    using assms(3) False by (simp add: cell_size_defs)
  ultimately obtain r where "buf_peek buf (fresh VAR_CELL_MAX_HEADER_SIZE) (get_var_cell_header_size ?wide) = Some ((circ @ cmd # take 2 ys) @ r)"
    using peek_header [OF fresh] rel by metis
  moreover have "\<not> buf_datalen buf < get_var_cell_header_size ?wide"
    using buf_datalen_rel [OF rel] assms(3) False by (simp add: cell_size_defs)
  ultimately show ?thesis
    using assms(3,4) by (simp add: fetch_var_cell_from_buf_def Let_def get_uint8_def arr_get_def nth_append)
qed

lemma fetch_var:
  assumes fresh: "\<And>n. length (fresh n) = n" and rel: "buf_rel tot rest buf (var_header wide v @ ys)"
    and wide: "wide = (MIN_LINK_PROTO_FOR_WIDE_CIRC_IDS \<le> lp)" and var: "cell_command_is_var_length (vc_command v) lp"
  shows "length ys < unat (vc_payload_len v) \<Longrightarrow> fetch_var_cell_from_buf fresh tot buf lp = Some (tot, buf, None, True)"
    and "var_cell_ok wide v \<Longrightarrow> ys = vc_payload v @ zs \<Longrightarrow>
      \<exists>tot' buf'. fetch_var_cell_from_buf fresh tot buf lp = Some (tot', buf', Some v, True) \<and> buf_rel tot' rest buf' zs"
proof -
  obtain r where peek: "buf_peek buf (fresh VAR_CELL_MAX_HEADER_SIZE) (get_var_cell_header_size wide) = Some (var_header wide v @ r)"
    using peek_header [OF fresh rel length_var_header] .
  have dl: "buf_datalen buf = get_var_cell_header_size wide + length ys" using buf_datalen_rel [OF rel] by simp
  have cmd: "get_uint8 (var_header wide v @ r) (get_circ_id_size wide) = Some (vc_command v)"
    by (simp add: get_uint8_def arr_get_def var_header_def nth_append)
  have len: "get_uint16 (var_header wide v @ r) (get_circ_id_size wide + 1) = Some (htons (vc_payload_len v))"
    by (simp add: get_uint16_def arr_slice_def var_header_def)
  note unf = fetch_var_cell_from_buf_def Let_def wide [symmetric] peek dl cmd len var
  show "length ys < unat (vc_payload_len v) \<Longrightarrow> fetch_var_cell_from_buf fresh tot buf lp = Some (tot, buf, None, True)"
    using len by (simp add: unf)
  assume ok: "var_cell_ok wide v" and ys: "ys = vc_payload v @ zs"
  have circ: "(if wide then map_option ntohl (get_uint32 (var_header wide v @ r) 0)
      else map_option (\<lambda>u. ucast (ntohs u)) (get_uint16 (var_header wide v @ r) 0)) = Some (vc_circ_id v)"
    using ok by (cases wide) (simp_all add: var_header_def var_cell_ok_def circ_wire_decode del: map_option_eq_Some)
  obtain tot1 buf1 where d1: "buf_drain tot buf (get_var_cell_header_size wide) = Some (tot1, buf1)" "buf_rel tot1 rest buf1 ys"
    using buf_drain_ok [OF rel, of "get_var_cell_header_size wide"] by auto
  have plen: "length (vc_payload v) = unat (vc_payload_len v)" using ok by (simp add: var_cell_ok_def)
  have pk: "buf_peek buf1 (replicate (unat (vc_payload_len v)) 0) (unat (vc_payload_len v)) = Some (vc_payload v)"
    using buf_peek_ok [OF d1(2), of "unat (vc_payload_len v)" "replicate (unat (vc_payload_len v)) 0"] ys plen by simp
  obtain tot2 buf2 where d2: "buf_drain tot1 buf1 (unat (vc_payload_len v)) = Some (tot2, buf2)" "buf_rel tot2 rest buf2 zs"
    using buf_drain_ok [OF d1(2), of "unat (vc_payload_len v)"] ys plen by auto
  have "fetch_var_cell_from_buf fresh tot buf lp = Some (tot2, buf2, Some v, True)"
    using circ len d1(1) d2(1) pk plen ys by (simp add: unf var_cell_new_def del: if_split)
  with d2(2) show "\<exists>tot' buf'. fetch_var_cell_from_buf fresh tot buf lp = Some (tot', buf', Some v, True) \<and> buf_rel tot' rest buf' zs"
    by blast
qed

subsection \<open>Streams of cells\<close>

datatype or_cell = Fixed cell_t | Var var_cell_t

text \<open>A cell that the sender may put on a link of protocol version \<open>lp\<close>, and its bytes there.\<close>

fun or_cell_ok :: "int \<Rightarrow> or_cell \<Rightarrow> bool" where
  "or_cell_ok lp (Fixed c) \<longleftrightarrow>
     cell_ok (MIN_LINK_PROTO_FOR_WIDE_CIRC_IDS \<le> lp) c \<and> \<not> cell_command_is_var_length (c_command c) lp"
| "or_cell_ok lp (Var v) \<longleftrightarrow>
     var_cell_ok (MIN_LINK_PROTO_FOR_WIDE_CIRC_IDS \<le> lp) v \<and> cell_command_is_var_length (vc_command v) lp"

fun or_wire :: "bool \<Rightarrow> or_cell \<Rightarrow> byte list" where
  "or_wire wide (Fixed c) = cell_wire wide c"
| "or_wire wide (Var v) = var_header wide v @ vc_payload v"

text \<open>The beginning of a cell whose end has not arrived.\<close>

definition incomplete :: "int \<Rightarrow> byte list \<Rightarrow> bool" where
  "incomplete lp p \<longleftrightarrow> (\<exists>c q. or_cell_ok lp c \<and> q \<noteq> [] \<and> p @ q = or_wire (MIN_LINK_PROTO_FOR_WIDE_CIRC_IDS \<le> lp) c)"

text \<open>
  Handlers that leave the framing of the connection alone, and a record of the cells they were given. The handler of a
  VERSIONS cell negotiates the version of the link protocol and with it the framing, so nothing of the kind is asked of it.
\<close>

definition keeps_framing :: "('h or_conn \<Rightarrow> 'h or_conn) \<Rightarrow> bool" where
  "keeps_framing f \<longleftrightarrow> (\<forall>conn. inbuf (f conn) = inbuf conn \<and> link_proto (f conn) = link_proto conn \<and>
     wide_circ_ids (f conn) = wide_circ_ids conn)"

fun negotiates :: "or_cell \<Rightarrow> bool" where
  "negotiates (Fixed c) \<longleftrightarrow> False"
| "negotiates (Var v) \<longleftrightarrow> vc_command v = CELL_VERSIONS"

definition records_cells ::
    "(or_event \<Rightarrow> 'h \<Rightarrow> 'h) \<Rightarrow> (var_cell_t \<Rightarrow> 'h or_conn \<Rightarrow> 'h or_conn) \<Rightarrow> (cell_t \<Rightarrow> 'h or_conn \<Rightarrow> 'h or_conn) \<Rightarrow>
     ('h \<Rightarrow> or_cell list) \<Rightarrow> bool" where
  "records_cells ev handle_var handle seen \<longleftrightarrow>
     (\<forall>v. \<not> negotiates (Var v) \<longrightarrow> keeps_framing (handle_var v)) \<and> (\<forall>c. keeps_framing (handle c)) \<and>
     (\<forall>v conn. seen (conn_rest (handle_var v conn)) = seen (conn_rest conn) @ [Var v]) \<and>
     (\<forall>c conn. seen (conn_rest (handle c conn)) = seen (conn_rest conn) @ [Fixed c]) \<and>
     (\<forall>e h. seen (ev e h) = seen h)"

lemma touch_channel_simps [simp]:
  "inbuf (touch_channel ev conn) = inbuf conn" "link_proto (touch_channel ev conn) = link_proto conn"
  "wide_circ_ids (touch_channel ev conn) = wide_circ_ids conn"
  "records_cells ev hv h seen \<Longrightarrow> seen (conn_rest (touch_channel ev conn)) = seen (conn_rest conn)"
  by (simp_all add: touch_channel_def note_event_def records_cells_def)

lemma prefix_split: "p @ q = xs @ ys \<Longrightarrow> length xs \<le> length p \<Longrightarrow> \<exists>zs. p = xs @ zs \<and> zs @ q = ys"
  by (auto simp: append_eq_append_conv2)

text \<open>One round of the loop, for each kind of contents of the input buffer.\<close>

lemma process_incomplete:
  assumes fresh: "\<And>n. length (fresh n) = n" and rel: "buf_rel tot rest (inbuf conn) p"
    and wide: "wide_circ_ids conn = (MIN_LINK_PROTO_FOR_WIDE_CIRC_IDS \<le> link_proto conn)"
    and p: "incomplete (link_proto conn) p"
  shows "connection_or_process_cells_from_inbuf ev hv h fresh tot conn = Some (tot, conn)"
proof -
  let ?w = "MIN_LINK_PROTO_FOR_WIDE_CIRC_IDS \<le> link_proto conn"
  obtain c q where c: "or_cell_ok (link_proto conn) c" "q \<noteq> []" "p @ q = or_wire ?w c"
    using p by (auto simp: incomplete_def)
  note len = arg_cong [OF c(3), of length]
  have same: "conn\<lparr>inbuf := inbuf conn\<rparr> = conn" by simp
  have stop: ?thesis if "fetch_var_cell_from_buf fresh tot (inbuf conn) (link_proto conn) = Some (tot, inbuf conn, None, r)"
    "r \<or> length p < get_cell_network_size ?w" for r
    using that buf_datalen_rel [OF rel] wide
    by (subst connection_or_process_cells_from_inbuf.simps)
      (auto simp: connection_fetch_var_cell_from_buf_def Let_def)
  show ?thesis
  proof (cases "length p < get_var_cell_header_size ?w")
    case True
    then show ?thesis using stop [OF fetch_short [OF rel True]] by (auto simp: cell_size_defs split: if_splits)
  next
    case False
    show ?thesis
    proof (cases c)
      case (Fixed d)
      then have "length p + length q = get_cell_network_size ?w" using c(1) len length_cell_wire [of ?w d] by simp
      then have "length p < get_cell_network_size ?w" using c(2) by (cases q) auto
      moreover obtain zs where "p = circ_wire ?w (c_circ_id d) @ c_command d # zs"
        using prefix_split [of p q "circ_wire ?w (c_circ_id d) @ [c_command d]" "c_payload d"] False c(3) Fixed
        by (auto simp: cell_wire_def cell_size_defs split: if_splits)
      ultimately show ?thesis
        using stop fetch_fixed [OF fresh, of tot rest "inbuf conn" "circ_wire ?w (c_circ_id d)" "c_command d" zs "link_proto conn"]
          rel c(1) Fixed by auto
    next
      case (Var v)
      then obtain zs where zs: "p = var_header ?w v @ zs" "zs @ q = vc_payload v"
        using prefix_split [of p q "var_header ?w v" "vc_payload v"] False c(3) by auto
      have "length zs + length q = unat (vc_payload_len v)"
        using c(1) Var arg_cong [OF zs(2), of length] by (simp add: var_cell_ok_def)
      then have "length zs < unat (vc_payload_len v)" using c(2) by (cases q) auto
      with zs(1) show ?thesis
        using stop fetch_var(1) [OF fresh, of tot rest "inbuf conn" ?w v zs "link_proto conn"] rel c(1) Var by auto
    qed
  qed
qed

lemma process_cell:
  assumes fresh: "\<And>n. length (fresh n) = n" and ok: "or_cell_ok (link_proto conn) c" "\<not> negotiates c"
    and wide: "wide_circ_ids conn = (MIN_LINK_PROTO_FOR_WIDE_CIRC_IDS \<le> link_proto conn)"
    and rel: "buf_rel tot rest (inbuf conn) (or_wire (wide_circ_ids conn) c @ ys)" and rec: "records_cells ev hv h seen"
  shows "\<exists>tot' conn'. connection_or_process_cells_from_inbuf ev hv h fresh tot conn =
      connection_or_process_cells_from_inbuf ev hv h fresh tot' conn' \<and> buf_rel tot' rest (inbuf conn') ys \<and>
    link_proto conn' = link_proto conn \<and> wide_circ_ids conn' = wide_circ_ids conn \<and>
    seen (conn_rest conn') = seen (conn_rest conn) @ [c]"
proof (cases c)
  case (Var v)
  then obtain tot' buf' where f: "fetch_var_cell_from_buf fresh tot (inbuf conn) (link_proto conn) = Some (tot', buf', Some v, True)"
    "buf_rel tot' rest buf' ys"
    using fetch_var(2) [OF fresh, of tot rest "inbuf conn" "wide_circ_ids conn" v _ "link_proto conn" ys] rel wide ok by auto
  let ?conn = "hv v (touch_channel ev (conn\<lparr>inbuf := buf'\<rparr>))"
  have "connection_or_process_cells_from_inbuf ev hv h fresh tot conn =
      connection_or_process_cells_from_inbuf ev hv h fresh tot' ?conn"
    by (subst connection_or_process_cells_from_inbuf.simps) (simp add: connection_fetch_var_cell_from_buf_def f(1) Let_def)
  moreover have "inbuf ?conn = buf'" "link_proto ?conn = link_proto conn" "wide_circ_ids ?conn = wide_circ_ids conn"
    "seen (conn_rest ?conn) = seen (conn_rest conn) @ [c]"
    using rec ok(2) Var touch_channel_simps(4) [OF rec] by (simp_all add: records_cells_def keeps_framing_def)
  ultimately show ?thesis using f(2) by metis
next
  case (Fixed d)
  then have dok: "cell_ok (wide_circ_ids conn) d" and cmd: "\<not> cell_command_is_var_length (c_command d) (link_proto conn)"
    using ok wide by simp_all
  have rel': "buf_rel tot rest (inbuf conn) (circ_wire (wide_circ_ids conn) (c_circ_id d) @ c_command d # (c_payload d @ ys))"
    using rel Fixed by (simp add: cell_wire_def)
  have f: "fetch_var_cell_from_buf fresh tot (inbuf conn) (link_proto conn) = Some (tot, inbuf conn, None, False)"
    using fetch_fixed [OF fresh rel'] wide cmd by simp
  let ?n = "get_cell_network_size (wide_circ_ids conn)"
  have n: "length (cell_wire (wide_circ_ids conn) d) = ?n" "?n \<le> CELL_MAX_NETWORK_SIZE"
    using length_cell_wire [OF dok] by (simp_all add: get_cell_network_size_def)
  then obtain tot' buf' r s where g: "buf_get_bytes tot (inbuf conn) (fresh CELL_MAX_NETWORK_SIZE) ?n =
      Some (tot', buf', cell_wire (wide_circ_ids conn) d @ r, s)" "buf_rel tot' rest buf' ys"
    using buf_get_bytes_ok [OF rel, of ?n "fresh CELL_MAX_NETWORK_SIZE"] fresh Fixed by auto
  let ?conn = "h d ((touch_channel ev conn)\<lparr>inbuf := buf'\<rparr>)"
  have "connection_or_process_cells_from_inbuf ev hv h fresh tot conn =
      connection_or_process_cells_from_inbuf ev hv h fresh tot' ?conn"
    using buf_datalen_rel [OF rel] n(1) Fixed g(1) cell_unpack_ok [OF dok]
    by (subst connection_or_process_cells_from_inbuf.simps) (simp add: connection_fetch_var_cell_from_buf_def f(1) Let_def)
  moreover have "inbuf ?conn = buf'" "link_proto ?conn = link_proto conn" "wide_circ_ids ?conn = wide_circ_ids conn"
    "seen (conn_rest ?conn) = seen (conn_rest conn) @ [c]"
    using rec Fixed touch_channel_simps(4) [OF rec] by (simp_all add: records_cells_def keeps_framing_def)
  ultimately show ?thesis using g(2) by metis
qed

lemma process_cells:
  assumes fresh: "\<And>n. length (fresh n) = n" and rec: "records_cells ev hv h seen"
  shows "wide_circ_ids conn = (MIN_LINK_PROTO_FOR_WIDE_CIRC_IDS \<le> link_proto conn) \<Longrightarrow>
    list_all (\<lambda>c. or_cell_ok (link_proto conn) c \<and> \<not> negotiates c) cells \<Longrightarrow>
    buf_rel tot rest (inbuf conn) (concat (map (or_wire (wide_circ_ids conn)) cells) @ p) \<Longrightarrow>
    incomplete (link_proto conn) p \<Longrightarrow>
    \<exists>tot' conn'. connection_or_process_cells_from_inbuf ev hv h fresh tot conn = Some (tot', conn') \<and>
      buf_rel tot' rest (inbuf conn') p \<and> seen (conn_rest conn') = seen (conn_rest conn) @ cells \<and>
      link_proto conn' = link_proto conn \<and> wide_circ_ids conn' = wide_circ_ids conn"
proof (induction cells arbitrary: tot conn)
  case Nil
  then show ?case using process_incomplete [OF fresh _ Nil.prems(1,4), of tot rest ev hv h] by auto
next
  case (Cons c cells)
  have "or_cell_ok (link_proto conn) c" "\<not> negotiates c"
    "buf_rel tot rest (inbuf conn) (or_wire (wide_circ_ids conn) c @ concat (map (or_wire (wide_circ_ids conn)) cells) @ p)"
    using Cons.prems by simp_all
  then obtain tot1 conn1 where step: "connection_or_process_cells_from_inbuf ev hv h fresh tot conn =
      connection_or_process_cells_from_inbuf ev hv h fresh tot1 conn1"
    "buf_rel tot1 rest (inbuf conn1) (concat (map (or_wire (wide_circ_ids conn)) cells) @ p)"
    "link_proto conn1 = link_proto conn" "wide_circ_ids conn1 = wide_circ_ids conn"
    "seen (conn_rest conn1) = seen (conn_rest conn) @ [c]"
    using process_cell [OF fresh _ _ Cons.prems(1) _ rec] by blast
  with Cons.IH [of conn1 tot1] Cons.prems show ?case by simp
qed

subsection \<open>Any input\<close>

definition keeps_inbuf :: "('h or_conn \<Rightarrow> 'h or_conn) \<Rightarrow> bool" where
  "keeps_inbuf f \<longleftrightarrow> (\<forall>conn. inbuf (f conn) = inbuf conn)"

lemma fetch_total:
  assumes fresh: "\<And>n. length (fresh n) = n" and rel: "buf_rel tot rest buf xs"
  obtains (no) "fetch_var_cell_from_buf fresh tot buf lp = Some (tot, buf, None, False)"
  | (wait) "fetch_var_cell_from_buf fresh tot buf lp = Some (tot, buf, None, True)" "length xs < 65543"
  | (cell) tot' buf' v n where "fetch_var_cell_from_buf fresh tot buf lp = Some (tot', buf', Some v, True)"
      "buf_rel tot' rest buf' (drop n xs)" "0 < n" "n \<le> length xs"
proof (cases "length xs < get_var_cell_header_size (MIN_LINK_PROTO_FOR_WIDE_CIRC_IDS \<le> lp)")
  case True
  from no [OF fetch_short [OF rel True]] show thesis .
next
  case False
  define wide where "wide = (MIN_LINK_PROTO_FOR_WIDE_CIRC_IDS \<le> lp)"
  let ?h = "get_var_cell_header_size wide"
  have h: "?h \<le> length xs" "?h \<le> 7" "get_circ_id_size wide + 3 = ?h" "2 \<le> get_circ_id_size wide" "wide \<Longrightarrow> get_circ_id_size wide = 4"
    using False by (simp_all add: wide_def cell_size_defs)
  obtain r where peek: "buf_peek buf (fresh VAR_CELL_MAX_HEADER_SIZE) ?h = Some (take ?h xs @ r)"
    using peek_header [OF fresh, of tot rest buf "take ?h xs" "drop ?h xs" wide] rel h(1) by auto
  define hdr where "hdr = take ?h xs @ r"
  have hlen: "?h \<le> length hdr" using h(1) by (simp add: hdr_def)
  obtain command where cmd: "get_uint8 hdr (get_circ_id_size wide) = Some command"
    using hlen h(3) by (simp add: get_uint8_def arr_get_def)
  obtain l where l: "get_uint16 hdr (get_circ_id_size wide + 1) = Some l"
    using hlen h(3) by (simp add: get_uint16_def arr_slice_def)
  obtain circ where circ: "(if wide then map_option ntohl (get_uint32 hdr 0) else map_option (\<lambda>u. ucast (ntohs u)) (get_uint16 hdr 0)) = Some circ"
    using hlen h(3,4,5) by (cases wide) (auto simp: get_uint32_def get_uint16_def arr_slice_def)
  note unf = fetch_var_cell_from_buf_def Let_def wide_def [symmetric] peek [folded hdr_def] cmd buf_datalen_rel [OF rel]
  show thesis
  proof (cases "cell_command_is_var_length command lp \<and> ?h + unat (ntohs l) \<le> length xs")
    case False
    have "unat (ntohs l) < 65536" using unsigned_less [where 'a = nat, of "ntohs l"] by simp
    then show thesis
      using no wait False h(1,2) l by (cases "cell_command_is_var_length command lp") (auto simp: unf)
  next
    case True
    obtain tot1 buf1 where d1: "buf_drain tot buf ?h = Some (tot1, buf1)" "buf_rel tot1 rest buf1 (drop ?h xs)"
      using buf_drain_ok [OF rel h(1)] by blast
    have le: "unat (ntohs l) \<le> length (drop ?h xs)" using True by auto
    obtain pl where pk: "buf_peek buf1 (replicate (unat (ntohs l)) 0) (unat (ntohs l)) = Some pl"
      using buf_peek_ok [OF d1(2), of "unat (ntohs l)" "replicate (unat (ntohs l)) 0"] le by auto
    obtain tot2 buf2 where d2: "buf_drain tot1 buf1 (unat (ntohs l)) = Some (tot2, buf2)" "buf_rel tot2 rest buf2 (drop (?h + unat (ntohs l)) xs)"
      using buf_drain_ok [OF d1(2), of "unat (ntohs l)"] le by (auto simp: add.commute)
    have "fetch_var_cell_from_buf fresh tot buf lp = Some (tot2, buf2,
        Some \<lparr>vc_command = command, vc_circ_id = circ, vc_payload_len = ntohs l, vc_payload = pl\<rparr>, True)"
      using True h(1) circ l d1(1) pk d2(1) by (simp add: unf var_cell_new_def del: if_split)
    from cell [OF this d2(2)] show thesis using True h(3) by simp
  qed
qed

lemma cell_unpack_total: "length src = CELL_MAX_NETWORK_SIZE \<Longrightarrow> \<exists>c. cell_unpack src wide = Some c"
  by (simp add: cell_unpack_def get_uint32_def get_uint16_def get_uint8_def arr_slice_def arr_get_def cell_size_defs)

lemma process_total:
  assumes fresh: "\<And>n. length (fresh n) = n" and hv: "\<And>v. keeps_inbuf (hv v)" and h: "\<And>c. keeps_inbuf (h c)"
  shows "buf_rel tot rest (inbuf conn) xs \<Longrightarrow>
    \<exists>tot' conn' n. connection_or_process_cells_from_inbuf ev hv h fresh tot conn = Some (tot', conn') \<and>
      buf_rel tot' rest (inbuf conn') (drop n xs) \<and> length (drop n xs) < 65543"
proof (induction xs arbitrary: tot conn rule: length_induct)
  case (1 xs)
  note unf = connection_or_process_cells_from_inbuf.simps [of ev hv h fresh tot conn] connection_fetch_var_cell_from_buf_def
  have again: ?case if "connection_or_process_cells_from_inbuf ev hv h fresh tot conn =
      connection_or_process_cells_from_inbuf ev hv h fresh tot' conn'" "buf_rel tot' rest (inbuf conn') (drop n xs)"
    "0 < n" "n \<le> length xs" for tot' conn' n
  proof -
    have "length (drop n xs) < length xs" using that(3,4) by simp
    with "1.IH" that(2) obtain t c m where "connection_or_process_cells_from_inbuf ev hv h fresh tot' conn' = Some (t, c)"
      "buf_rel t rest (inbuf c) (drop m (drop n xs))" "length (drop m (drop n xs)) < 65543" by blast
    with that(1) show ?thesis by (simp only: drop_drop) blast
  qed
  from fresh "1.prems" show ?case
  proof (cases rule: fetch_total [where lp = "link_proto conn"])
    case no
    let ?n = "get_cell_network_size (wide_circ_ids conn)"
    have n: "0 < ?n" "?n \<le> CELL_MAX_NETWORK_SIZE" "CELL_MAX_NETWORK_SIZE < 65543" by (simp_all add: cell_size_defs)
    show ?thesis
    proof (cases "length xs < ?n")
      case True
      then have "connection_or_process_cells_from_inbuf ev hv h fresh tot conn = Some (tot, conn)"
        using no buf_datalen_rel [OF "1.prems"] by (simp add: unf Let_def)
      with True n "1.prems" show ?thesis by (auto intro: exI [of _ 0])
    next
      case False
      then obtain tot' buf' b s where g: "buf_get_bytes tot (inbuf conn) (fresh CELL_MAX_NETWORK_SIZE) ?n = Some (tot', buf', b, s)"
        "buf_rel tot' rest buf' (drop ?n xs)" "length b = CELL_MAX_NETWORK_SIZE"
        using buf_get_bytes_ok [OF "1.prems", of ?n "fresh CELL_MAX_NETWORK_SIZE"] fresh n by auto
      obtain c where c: "cell_unpack b (wide_circ_ids conn) = Some c" using cell_unpack_total [OF g(3)] by blast
      have "connection_or_process_cells_from_inbuf ev hv h fresh tot conn =
          connection_or_process_cells_from_inbuf ev hv h fresh tot' (h c ((touch_channel ev conn)\<lparr>inbuf := buf'\<rparr>))"
        using no False buf_datalen_rel [OF "1.prems"] g(1) c by (simp add: unf Let_def)
      from again [OF this _ n(1)] show ?thesis using g(2) h False by (simp add: keeps_inbuf_def)
    qed
  next
    case wait
    then have "connection_or_process_cells_from_inbuf ev hv h fresh tot conn = Some (tot, conn)" by (simp add: unf)
    with wait "1.prems" show ?thesis by (auto intro: exI [of _ 0])
  next
    case (cell tot' buf' v n)
    then have "connection_or_process_cells_from_inbuf ev hv h fresh tot conn =
        connection_or_process_cells_from_inbuf ev hv h fresh tot' (hv v (touch_channel ev (conn\<lparr>inbuf := buf'\<rparr>)))"
      by (simp add: unf Let_def)
    from again [OF this _ cell(3,4)] show ?thesis using cell(2) hv by (simp add: keeps_inbuf_def)
  qed
qed

subsection \<open>Writing\<close>

text \<open>A connection that may be written to and whose output buffer holds \<open>ys\<close>.\<close>

definition out_rel :: "nat \<Rightarrow> nat \<Rightarrow> bool \<Rightarrow> 'h or_conn \<Rightarrow> byte list \<Rightarrow> bool" where
  "out_rel tot rest wide conn ys \<longleftrightarrow> buf_rel tot rest (outbuf conn) ys \<and> connection_may_write_to_buf conn \<and> wide_circ_ids conn = wide"

lemma out_rel_note [simp]: "out_rel tot rest wide (note_event ev e conn) ys \<longleftrightarrow> out_rel tot rest wide conn ys"
  by (simp add: out_rel_def note_event_def connection_may_write_to_buf_def)

lemma connection_buf_add_ok:
  assumes fresh: "\<And>n. length (fresh n) = n" and rel: "out_rel tot rest wide conn ys"
    and len: "length ys + length string \<le> BUF_MAX_LEN"
  shows "\<exists>tot' conn'. connection_buf_add ev fresh now tot string conn = Some (tot', conn') \<and> out_rel tot' rest wide conn' (ys @ string)"
proof -
  obtain tot' buf' where "buf_add fresh now tot (outbuf conn) string = Some (tot', buf', int (length ys + length string))"
    "buf_rel tot' rest buf' (ys @ string)"
    using buf_add_ok [OF fresh, of tot rest "outbuf conn" ys string now] rel len by (auto simp: out_rel_def)
  then show ?thesis
    using rel by (auto simp: connection_buf_add_def out_rel_def connection_may_write_to_buf_def
        connection_write_to_buf_commit_def note_event_def Let_def)
qed

primrec write_or_cell ::
    "(or_event \<Rightarrow> 'h \<Rightarrow> 'h) \<Rightarrow> (nat \<Rightarrow> byte list) \<Rightarrow> u32 \<Rightarrow> nat \<Rightarrow> 'h or_conn \<Rightarrow> or_cell \<Rightarrow> (nat \<times> 'h or_conn) option" where
  "write_or_cell ev fresh now tot conn (Fixed c) = connection_or_write_cell_to_buf ev fresh now tot c conn"
| "write_or_cell ev fresh now tot conn (Var v) = connection_or_write_var_cell_to_buf ev fresh now tot v conn"

fun write_or_cells ::
    "(or_event \<Rightarrow> 'h \<Rightarrow> 'h) \<Rightarrow> (nat \<Rightarrow> byte list) \<Rightarrow> u32 \<Rightarrow> nat \<Rightarrow> 'h or_conn \<Rightarrow> or_cell list \<Rightarrow> (nat \<times> 'h or_conn) option" where
  "write_or_cells ev fresh now tot conn [] = Some (tot, conn)"
| "write_or_cells ev fresh now tot conn (c # cells) =
     do {
       (tot, conn) \<leftarrow> write_or_cell ev fresh now tot conn c;
       write_or_cells ev fresh now tot conn cells
     }"

lemma write_or_cell_ok:
  assumes fresh: "\<And>n. length (fresh n) = n" and rel: "out_rel tot rest wide conn ys"
    and len: "length ys + length (or_wire wide c) \<le> BUF_MAX_LEN"
    and ok: "or_cell_ok lp c" "wide = (MIN_LINK_PROTO_FOR_WIDE_CIRC_IDS \<le> lp)"
  shows "\<exists>tot' conn'. write_or_cell ev fresh now tot conn c = Some (tot', conn') \<and> out_rel tot' rest wide conn' (ys @ or_wire wide c)"
proof (cases c)
  case (Fixed d)
  then have dok: "cell_ok wide d" using ok by simp
  have w: "wide_circ_ids conn = wide" using rel by (simp add: out_rel_def)
  obtain r where pack: "cell_pack (fresh CELL_MAX_NETWORK_SIZE) d wide = Some (cell_wire wide d @ r)"
    using cell_pack_ok [OF dok, of "fresh CELL_MAX_NETWORK_SIZE"] fresh by blast
  have slice: "arr_slice (cell_wire wide d @ r) 0 (get_cell_network_size wide) = Some (cell_wire wide d)"
    using length_cell_wire [OF dok] by (simp add: arr_slice_def)
  define conn1 where "conn1 = (if c_command d = CELL_PADDING then note_event ev Padding_cell (note_event ev Padding_total conn)
    else note_event ev Padding_total conn)"
  have "out_rel tot rest wide conn1 ys" using rel by (simp add: conn1_def)
  then obtain tot' conn' where add: "connection_buf_add ev fresh now tot (cell_wire wide d) conn1 = Some (tot', conn')"
    "out_rel tot' rest wide conn' (ys @ cell_wire wide d)"
    using connection_buf_add_ok [OF fresh, of tot rest wide conn1 ys "cell_wire wide d" ev now] len Fixed by auto
  then show ?thesis
    using Fixed w pack slice
    by (auto simp: connection_or_write_cell_to_buf_def Let_def conn1_def [symmetric] split: option.split)
next
  case (Var v)
  then have vok: "length (vc_payload v) = unat (vc_payload_len v)" using ok by (simp add: var_cell_ok_def)
  have w: "wide_circ_ids conn = wide" using rel by (simp add: out_rel_def)
  obtain r where pack: "var_cell_pack_header v (fresh VAR_CELL_MAX_HEADER_SIZE) wide =
      Some (var_header wide v @ r, get_var_cell_header_size wide)"
    using var_cell_pack_header_ok [of "fresh VAR_CELL_MAX_HEADER_SIZE" v wide] fresh by blast
  have slices: "arr_slice (var_header wide v @ r) 0 (get_var_cell_header_size wide) = Some (var_header wide v)"
    "arr_slice (vc_payload v) 0 (unat (vc_payload_len v)) = Some (vc_payload v)"
    using vok by (simp_all add: arr_slice_def)
  obtain tot1 conn1 where a1: "connection_buf_add ev fresh now tot (var_header wide v) conn = Some (tot1, conn1)"
    "out_rel tot1 rest wide conn1 (ys @ var_header wide v)"
    using connection_buf_add_ok [OF fresh rel, of "var_header wide v" ev now] len Var by auto
  obtain tot2 conn2 where a2: "connection_buf_add ev fresh now tot1 (vc_payload v) conn1 = Some (tot2, conn2)"
    "out_rel tot2 rest wide conn2 (ys @ var_header wide v @ vc_payload v)"
    using connection_buf_add_ok [OF fresh a1(2), of "vc_payload v" ev now] len Var by auto
  then show ?thesis
    using Var w pack slices a1(1) by (simp add: connection_or_write_var_cell_to_buf_def Let_def)
qed

lemma write_or_cells_ok:
  assumes fresh: "\<And>n. length (fresh n) = n" and wide: "wide = (MIN_LINK_PROTO_FOR_WIDE_CIRC_IDS \<le> lp)"
  shows "out_rel tot rest wide conn ys \<Longrightarrow> list_all (or_cell_ok lp) cells \<Longrightarrow>
    length ys + length (concat (map (or_wire wide) cells)) \<le> BUF_MAX_LEN \<Longrightarrow>
    \<exists>tot' conn'. write_or_cells ev fresh now tot conn cells = Some (tot', conn') \<and>
      out_rel tot' rest wide conn' (ys @ concat (map (or_wire wide) cells))"
proof (induction cells arbitrary: tot conn ys)
  case (Cons c cells)
  then obtain tot1 conn1 where "write_or_cell ev fresh now tot conn c = Some (tot1, conn1)" "out_rel tot1 rest wide conn1 (ys @ or_wire wide c)"
    using write_or_cell_ok [OF fresh Cons.prems(1), of c lp ev now] wide by auto
  with Cons.IH [of tot1 conn1 "ys @ or_wire wide c"] Cons.prems show ?case by auto
qed simp

subsection \<open>Properties\<close>

text \<open>
  C7: cells arrive as they were sent. A connection may be written to and its output buffer is empty. A relay
  writes to it any sequence of well-formed fixed-size and variable-length cells other than VERSIONS cells,
  at most \<open>BUF_MAX_LEN\<close> bytes in all; the output buffer then holds their wire format. Whenever the
  input buffer of the peer, which speaks the same version of the link protocol, holds these bytes and any
  incomplete further cell, split into chunks in whatever way, the receiving loop ends, hands exactly
  these cells on, in order, with circuit, command and payload unchanged, and leaves the incomplete
  cell in the buffer. The handlers of the peer, except that of VERSIONS cells, leave the input buffer, the version and
  the width of circuit identifiers alone.
\<close>

theorem cells_roundtrip:
  assumes "\<And>n. length (fresh n) = n" "list_all (\<lambda>c. or_cell_ok lp c \<and> \<not> negotiates c) cells" "wide = (MIN_LINK_PROTO_FOR_WIDE_CIRC_IDS \<le> lp)"
    and "out_rel tot rest wide conn []" "length (concat (map (or_wire wide) cells)) \<le> BUF_MAX_LEN"
    and "records_cells ev handle_var handle seen" "incomplete lp p"
  shows "\<exists>tot' conn'. write_or_cells ev' fresh now tot conn cells = Some (tot', conn') \<and>
    buf_rel tot' rest (outbuf conn') (concat (map (or_wire wide) cells)) \<and>
    (\<forall>t r peer. link_proto peer = lp \<and> wide_circ_ids peer = wide \<and>
        buf_rel t r (inbuf peer) (concat (map (or_wire wide) cells) @ p) \<longrightarrow>
      (\<exists>t' peer'. connection_or_process_cells_from_inbuf ev handle_var handle fresh t peer = Some (t', peer') \<and>
        seen (conn_rest peer') = seen (conn_rest peer) @ cells \<and> buf_rel t' r (inbuf peer') p))"
proof -
  obtain tot' conn' where "write_or_cells ev' fresh now tot conn cells = Some (tot', conn')"
    "out_rel tot' rest wide conn' (concat (map (or_wire wide) cells))"
    using write_or_cells_ok [OF assms(1,3,4), of cells ev' now] assms(2,5) by (auto simp: list_all_iff)
  moreover have "\<exists>t' peer'. connection_or_process_cells_from_inbuf ev handle_var handle fresh t peer = Some (t', peer') \<and>
      seen (conn_rest peer') = seen (conn_rest peer) @ cells \<and> buf_rel t' r (inbuf peer') p"
    if "link_proto peer = lp \<and> wide_circ_ids peer = wide \<and> buf_rel t r (inbuf peer) (concat (map (or_wire wide) cells) @ p)"
    for t r peer
    using process_cells [OF assms(1,6), of peer cells t r p] assms(2,3,7) that by auto
  ultimately show ?thesis by (auto simp: out_rel_def)
qed

text \<open>A sender with an empty output buffer, handlers that keep a list of the cells, and a peer.\<close>

definition plain_conn :: "buf_t \<Rightarrow> or_cell list or_conn" where
  "plain_conn ib = \<lparr>inbuf = ib, outbuf = buf_new, link_proto = 4, wide_circ_ids = True, write_event = True,
     marked_for_close = False, hold_open_until_flushed = False, chan_padding_enabled = Some True, handshaking_v3 = True,
     conn_rest = []\<rparr>"

definition log_var :: "var_cell_t \<Rightarrow> or_cell list or_conn \<Rightarrow> or_cell list or_conn" where
  "log_var v conn = conn\<lparr>conn_rest := conn_rest conn @ [Var v]\<rparr>"

definition log_cell :: "cell_t \<Rightarrow> or_cell list or_conn \<Rightarrow> or_cell list or_conn" where
  "log_cell c conn = conn\<lparr>conn_rest := conn_rest conn @ [Fixed c]\<rparr>"

definition sample_cells :: "or_cell list" where
  "sample_cells = [Var \<lparr>vc_command = 130, vc_circ_id = 0, vc_payload_len = 2, vc_payload = [0, 4]\<rparr>,
     Fixed \<lparr>c_circ_id = 0x80000001, c_command = 10, c_payload = replicate 509 1\<rparr>]"

lemma incomplete_take:
  "or_cell_ok lp c \<Longrightarrow> n < length (or_wire (MIN_LINK_PROTO_FOR_WIDE_CIRC_IDS \<le> lp) c) \<Longrightarrow>
     incomplete lp (take n (or_wire (MIN_LINK_PROTO_FOR_WIDE_CIRC_IDS \<le> lp) c))"
  unfolding incomplete_def by (intro exI [of _ c] exI [of _ "drop n (or_wire (MIN_LINK_PROTO_FOR_WIDE_CIRC_IDS \<le> lp) c)"]) auto

theorem cells_roundtrip_witness:
  "\<exists>tot' conn' p t ib t' peer'.
     write_or_cells (\<lambda>e h. h) (\<lambda>n. replicate n 0) 7 0 (plain_conn buf_new) sample_cells = Some (tot', conn') \<and>
     buf_rel tot' 0 (outbuf conn') (concat (map (or_wire True) sample_cells)) \<and>
     length p = 3 \<and> buf_rel t 0 ib (concat (map (or_wire True) sample_cells) @ p) \<and>
     connection_or_process_cells_from_inbuf (\<lambda>e h. h) log_var log_cell (\<lambda>n. replicate n 0) t (plain_conn ib) = Some (t', peer') \<and>
     conn_rest peer' = sample_cells \<and> buf_rel t' 0 (inbuf peer') p"
proof -
  let ?p = "take 3 (or_wire True (hd sample_cells))"
  have cells: "list_all (\<lambda>c. or_cell_ok 4 c \<and> \<not> negotiates c) sample_cells"
    by (simp add: sample_cells_def MIN_LINK_PROTO_FOR_WIDE_CIRC_IDS_def cell_ok_def var_cell_ok_def circ_fits_def
        CELL_PAYLOAD_SIZE_def cell_command_is_var_length_def CELL_VERSIONS_def)
  have wide: "True = (MIN_LINK_PROTO_FOR_WIDE_CIRC_IDS \<le> 4)" by (simp add: MIN_LINK_PROTO_FOR_WIDE_CIRC_IDS_def)
  have rec: "records_cells (\<lambda>e h. h) log_var log_cell (\<lambda>h. h)"
    by (simp add: records_cells_def keeps_framing_def log_var_def log_cell_def)
  have out: "out_rel 0 0 True (plain_conn buf_new) []"
    using buf_rel_new [of 0] by (simp add: out_rel_def plain_conn_def connection_may_write_to_buf_def)
  have lens: "length (or_wire True (hd sample_cells)) = 9" "length (concat (map (or_wire True) sample_cells)) = 523"
    by (simp_all add: sample_cells_def cell_wire_def get_circ_id_size_def get_var_cell_header_size_def VAR_CELL_MAX_HEADER_SIZE_def)
  have inc: "incomplete 4 ?p"
    using incomplete_take [of 4 "hd sample_cells" 3] wide cells lens(1) by (simp add: sample_cells_def)
  have "length (concat (map (or_wire True) sample_cells)) \<le> BUF_MAX_LEN" by (simp add: lens BUF_MAX_LEN_def)
  from cells_roundtrip [OF fresh_zero cells wide out this rec inc, of "\<lambda>e h. h" 7]
  obtain tot' conn' where w: "write_or_cells (\<lambda>e h. h) (\<lambda>n. replicate n 0) 7 0 (plain_conn buf_new) sample_cells = Some (tot', conn')"
    "buf_rel tot' 0 (outbuf conn') (concat (map (or_wire True) sample_cells))"
    and recv: "\<And>t r peer. link_proto peer = 4 \<and> wide_circ_ids peer = True \<and>
        buf_rel t r (inbuf peer) (concat (map (or_wire True) sample_cells) @ ?p) \<longrightarrow>
      (\<exists>t' peer'. connection_or_process_cells_from_inbuf (\<lambda>e h. h) log_var log_cell (\<lambda>n. replicate n 0) t peer = Some (t', peer') \<and>
        conn_rest peer' = conn_rest peer @ sample_cells \<and> buf_rel t' r (inbuf peer') ?p)"
    by blast
  have plen: "length ?p = 3" using lens(1) by simp
  obtain t ib where ib: "buf_rel t 0 ib (concat (map (or_wire True) sample_cells) @ ?p)"
    using buf_rel_exists [of "concat (map (or_wire True) sample_cells) @ ?p"] lens(2) plen by (auto simp: BUF_MAX_LEN_def)
  obtain t' peer' where "connection_or_process_cells_from_inbuf (\<lambda>e h. h) log_var log_cell (\<lambda>n. replicate n 0) t (plain_conn ib) = Some (t', peer')"
    "conn_rest peer' = sample_cells" "buf_rel t' 0 (inbuf peer') ?p"
    using recv [of "plain_conn ib" t 0] ib by (auto simp: plain_conn_def)
  with w plen ib show ?thesis by blast
qed

text \<open>
  C13: the receiving loop ends on any input. Whatever bytes the peer has sent, whatever version of the
  link protocol is in force and however the handlers change it, as long as they leave the input buffer
  alone, the loop returns without aborting or touching memory outside an object, what it leaves is the
  end of the input, and at most 65542 bytes, the size of the longest cell.
\<close>

theorem process_cells_terminates:
  assumes "\<And>n. length (fresh n) = n" "\<And>v. keeps_inbuf (handle_var v)" "\<And>c. keeps_inbuf (handle c)"
    and "buf_rel tot rest (inbuf conn) xs"
  shows "\<exists>tot' conn' n. connection_or_process_cells_from_inbuf ev handle_var handle fresh tot conn = Some (tot', conn') \<and>
    buf_rel tot' rest (inbuf conn') (drop n xs) \<and> length (drop n xs) < 65543"
  using process_total [OF assms] .

theorem process_cells_terminates_witness:
  "\<exists>tot' conn' n. connection_or_process_cells_from_inbuf (\<lambda>e h. h) log_var log_cell (\<lambda>n. replicate n 0) 102 (plain_conn two_chunks) =
      Some (tot', conn') \<and> buf_rel tot' 0 (inbuf conn') (drop n [65, 66, 67, 68]) \<and> length (drop n [65, 66, 67, 68 :: byte]) < 65543"
  by (rule process_cells_terminates [OF fresh_zero])
    (use two_chunks_ok(1) in \<open>simp_all add: keeps_inbuf_def log_var_def log_cell_def plain_conn_def\<close>)

end
