(* ===== verification/Proto.thy ===== *)
theory Proto
  imports Buffers_Net Cells Parse_Int
begin

section \<open>Protocols read from a buffer: \<^verbatim>\<open>core/proto\<close>\<close>

text \<open>
  The parsers that take whole messages off an input buffer: HTTP requests and replies
  (\<^verbatim>\<open>proto_http.c\<close>), commands of the extended OR port (\<^verbatim>\<open>proto_ext_or.c\<close>), and the test for commands
  of the first control protocol (\<^verbatim>\<open>proto_control0.c\<close>).
\<close>

subsection \<open>HTTP\<close>

definition peek_buf_has_http_command :: "(nat \<Rightarrow> byte list) \<Rightarrow> buf_t \<Rightarrow> bool option" where
  "peek_buf_has_http_command fresh buf =
     do {
       a \<leftarrow> buf_peek_startswith fresh buf (bytes_of ''CONNECT '');
       (if a then Some True
        else
          do {
            b \<leftarrow> buf_peek_startswith fresh buf (bytes_of ''DELETE '');
            (if b then Some True
             else
               do {
                 c \<leftarrow> buf_peek_startswith fresh buf (bytes_of ''GET '');
                 (if c then Some True
                  else
                    do {
                      d \<leftarrow> buf_peek_startswith fresh buf (bytes_of ''POST '');
                      (if d then Some True else buf_peek_startswith fresh buf (bytes_of ''PUT ''))
                    })
               })
          })
     }"

definition CONTENT_LENGTH :: "byte list" where
  "CONTENT_LENGTH = [13, 10] @ bytes_of ''Content-Length: ''"

text \<open>
  The result is the return value with \<open>result_out\<close>. The copy \<open>len_str\<close> is a C string: it ends at its
  first zero byte.
\<close>

definition buf_http_find_content_length :: "byte list \<Rightarrow> (int \<times> int) option" where
  "buf_http_find_content_length headers =
     do {
       m \<leftarrow> tor_memstr headers CONTENT_LENGTH;
       (case m of
          None \<Rightarrow> Some (0, 0)
        | Some p \<Rightarrow>
            do {
              guard (p < length headers);
              let remaining = length headers - p;
              let p = p + length CONTENT_LENGTH;
              let remaining = remaining - length CONTENT_LENGTH;
              nl \<leftarrow> memchr headers p 10 remaining;
              (case nl of
                 None \<Rightarrow> Some (-1, 0)
               | Some newline \<Rightarrow>
                   do {
                     d \<leftarrow> arr_slice headers p (newline - p);
                     let len_str = takeWhile (\<lambda>c. c \<noteq> 0) d;
                     (result, ok, eos) \<leftarrow> tor_parse_uint64 len_str 10 0 INT_MAX True;
                     (if eos \<noteq> None \<and> \<not> tor_strisspace (drop (the eos) len_str) then Some (-1, 0)
                      else Some (if ok then 1 else -1, result))
                   })
            })
     }"

text \<open>
  The flags \<open>want_headers\<close> and \<open>want_body\<close> say whether \<open>headers_out\<close> and \<open>body_out\<close> are not null. The
  result has the allocated arrays with the number of bytes in the body. The sum \<open>crlf_offset + 4\<close> is one
  of \<open>int\<close>, and the pointer \<open>headers\<close> is read in the memory of the first chunk.
\<close>

definition CRLF_CRLF :: "byte list" where
  "CRLF_CRLF = [13, 10, 13, 10]"

definition http_take ::
    "(nat \<Rightarrow> byte list) \<Rightarrow> nat \<Rightarrow> buf_t \<Rightarrow> bool \<Rightarrow> nat \<Rightarrow> bool \<Rightarrow> nat \<Rightarrow>
     (nat \<times> buf_t \<times> byte list option \<times> (byte list \<times> nat) option \<times> int) option" where
  "http_take fresh tot buf want_headers headerlen want_body bodylen =
     do {
       (tot, buf, headers_out) \<leftarrow>
         (if want_headers then
            do {
              (tot, buf, h, r) \<leftarrow> buf_get_bytes tot buf (fresh (headerlen + 1)) headerlen;
              h \<leftarrow> arr_set h headerlen 0;
              Some (tot, buf, Some h)
            }
          else Some (tot, buf, None));
       (tot, buf, body_out) \<leftarrow>
         (if want_body then
            do {
              (tot, buf, b, r) \<leftarrow> buf_get_bytes tot buf (fresh (bodylen + 1)) bodylen;
              b \<leftarrow> arr_set b bodylen 0;
              Some (tot, buf, Some (b, bodylen))
            }
          else Some (tot, buf, None));
       Some (tot, buf, headers_out, body_out, 1)
     }"

definition fetch_from_buf_http ::
    "(nat \<Rightarrow> byte list) \<Rightarrow> nat \<Rightarrow> buf_t \<Rightarrow> bool \<Rightarrow> nat \<Rightarrow> bool \<Rightarrow> nat \<Rightarrow> bool \<Rightarrow>
     (nat \<times> buf_t \<times> byte list option \<times> (byte list \<times> nat) option \<times> int) option" where
  "fetch_from_buf_http fresh tot buf want_headers max_headerlen want_body max_bodylen force_complete =
     (if buf_datalen buf = 0 then Some (tot, buf, None, None, 0)
      else
        do {
          crlf_offset \<leftarrow> buf_find_string_offset buf CRLF_CRLF;
          (if to_i32 (int max_headerlen) < crlf_offset \<or> crlf_offset < 0 \<and> max_headerlen < buf_datalen buf
           then Some (tot, buf, None, None, -1)
           else if crlf_offset < 0 then Some (tot, buf, None, None, 0)
           else
             do {
               guard (crlf_offset + 4 \<le> INT_MAX);
               let headerlen = nat (crlf_offset + 4);
               (tot, buf, headers, headers_in_chunk) \<leftarrow> buf_pullup fresh tot buf headerlen;
               let bodylen = nat (to_u64 (int (buf_datalen buf) - int headerlen));
               (if max_headerlen \<le> headerlen then Some (tot, buf, None, None, -1)
                else if max_bodylen \<le> bodylen then Some (tot, buf, None, None, -1)
                else
                  do {
                    off \<leftarrow> headers;
                    hs \<leftarrow> arr_slice (ch_mem (hd (buf_chunks buf))) off headerlen;
                    (r, contentlen) \<leftarrow> buf_http_find_content_length hs;
                    (if r = -1 then Some (tot, buf, None, None, -1)
                     else if r = 1 then
                       (if int bodylen < contentlen \<and> \<not> force_complete then Some (tot, buf, None, None, 0)
                        else
                          do {
                            let bodylen = (if contentlen < int bodylen then nat contentlen else bodylen);
                            http_take fresh tot buf want_headers headerlen want_body bodylen
                          })
                     else
                       do {
                         guard (r = 0);
                         http_take fresh tot buf want_headers headerlen want_body bodylen
                       })
                  })
             })
        })"

subsection \<open>The extended OR port and the control port\<close>

record ext_or_cmd_t =
  eo_cmd :: u16
  eo_len :: u16
  eo_body :: "byte list"

definition EXT_OR_CMD_HEADER_SIZE :: nat where
  "EXT_OR_CMD_HEADER_SIZE = 4"

definition ext_or_cmd_new :: "(nat \<Rightarrow> byte list) \<Rightarrow> u16 \<Rightarrow> ext_or_cmd_t" where
  "ext_or_cmd_new fresh len = \<lparr>eo_cmd = 0, eo_len = len, eo_body = fresh (unat len)\<rparr>"

definition fetch_ext_or_command_from_buf ::
    "(nat \<Rightarrow> byte list) \<Rightarrow> nat \<Rightarrow> buf_t \<Rightarrow> (nat \<times> buf_t \<times> ext_or_cmd_t option \<times> int) option" where
  "fetch_ext_or_command_from_buf fresh tot buf =
     (if buf_datalen buf < EXT_OR_CMD_HEADER_SIZE then Some (tot, buf, None, 0)
      else
        do {
          hdr \<leftarrow> buf_peek buf (fresh EXT_OR_CMD_HEADER_SIZE) EXT_OR_CMD_HEADER_SIZE;
          l \<leftarrow> get_uint16 hdr 2;
          let len = ntohs l;
          (if buf_datalen buf < unat len + EXT_OR_CMD_HEADER_SIZE then Some (tot, buf, None, 0)
           else
             do {
               let out = ext_or_cmd_new fresh len;
               c \<leftarrow> get_uint16 hdr 0;
               let out = out\<lparr>eo_cmd := ntohs c\<rparr>;
               let out = out\<lparr>eo_len := len\<rparr>;
               (tot, buf) \<leftarrow> buf_drain tot buf EXT_OR_CMD_HEADER_SIZE;
               (tot, buf, body, r) \<leftarrow> buf_get_bytes tot buf (eo_body out) (unat len);
               Some (tot, buf, Some (out\<lparr>eo_body := body\<rparr>), 1)
             })
        })"

text \<open>The arguments \<open>body\<close> and \<open>bodylen\<close> are the list of the bytes.\<close>

definition connection_write_ext_or_command ::
    "(or_event \<Rightarrow> 'h \<Rightarrow> 'h) \<Rightarrow> (nat \<Rightarrow> byte list) \<Rightarrow> u32 \<Rightarrow> nat \<Rightarrow> 'h or_conn \<Rightarrow> u16 \<Rightarrow> byte list \<Rightarrow>
     (nat \<times> 'h or_conn \<times> int) option" where
  "connection_write_ext_or_command ev fresh now tot conn command body =
     (if 65535 < length body then Some (tot, conn, -1)
      else
        do {
          header \<leftarrow> set_uint16 (fresh 4) 0 (htons command);
          header \<leftarrow> set_uint16 header 2 (htons (of_nat (length body)));
          (tot, conn) \<leftarrow> connection_buf_add ev fresh now tot header conn;
          (tot, conn) \<leftarrow> (if body \<noteq> [] then connection_buf_add ev fresh now tot body conn else Some (tot, conn));
          Some (tot, conn, 0)
        })"

definition peek_buf_has_control0_command :: "(nat \<Rightarrow> byte list) \<Rightarrow> buf_t \<Rightarrow> bool option" where
  "peek_buf_has_control0_command fresh buf =
     (if 4 \<le> buf_datalen buf then
        do {
          header \<leftarrow> buf_peek buf (fresh 4) 4;
          c \<leftarrow> get_uint16 header 2;
          let cmd = ntohs c;
          Some (cmd \<le> 0x14)
        }
      else Some False)"

subsection \<open>The length in the headers\<close>

lemma CONTENT_LENGTH_ne [simp]: "CONTENT_LENGTH \<noteq> []"
  by (simp add: CONTENT_LENGTH_def)

lemma tor_parse_uint64_total:
  obtains v ok e where "tor_parse_uint64 s 10 mn mx True = Some (v, ok, Some e)" "ok \<longrightarrow> mn \<le> v \<and> v \<le> mx"
proof -
  obtain neg n e where "strto_scan s 10 = (neg, n, e)" by (cases "strto_scan s 10")
  then have "\<exists>v ok e. tor_parse_uint64 s 10 mn mx True = Some (v, ok, Some e) \<and> (ok \<longrightarrow> mn \<le> v \<and> v \<le> mx)"
    by (auto simp: tor_parse_uint64_def strtoul_def CHECK_STRTOX_RESULT_def Let_def)
  then show thesis using that by blast
qed

lemma find_content_length_total:
  "\<exists>r n. buf_http_find_content_length hs = Some (r, n) \<and> r \<in> {-1, 0, 1} \<and> (r = 1 \<longrightarrow> 0 \<le> n)"
proof (cases rule: tor_memmem_total [OF CONTENT_LENGTH_ne, of hs])
  case 1
  then show ?thesis by (simp add: buf_http_find_content_length_def tor_memstr_def)
next
  case (2 p)
  let ?p = "p + length CONTENT_LENGTH"
  have range: "?p + (length hs - p - length CONTENT_LENGTH) \<le> length hs" and p: "p < length hs"
    using 2(2) by (auto simp: CONTENT_LENGTH_def)
  note unf = buf_http_find_content_length_def tor_memstr_def 2(1) p Let_def
  from range show ?thesis
  proof (cases rule: memchr_cases [where c = 10])
    case (found q)
    obtain v ok e where "tor_parse_uint64 (takeWhile (\<lambda>c. c \<noteq> 0) (take (q - ?p) (drop ?p hs))) 10 0 INT_MAX True = Some (v, ok, Some e)"
      "ok \<longrightarrow> 0 \<le> v \<and> v \<le> INT_MAX" by (rule tor_parse_uint64_total)
    with found range show ?thesis by (auto simp: unf arr_slice_def)
  next
    case absent
    then show ?thesis by (simp add: unf)
  qed
qed

text \<open>A decimal number up to \<open>INT_MAX\<close> on the line of the first such header.\<close>

lemma digit_not_special: "digit_value c < 10 \<Longrightarrow> c \<noteq> 0 \<and> c \<noteq> 10"
  by (auto simp: digit_value_def Let_def split: if_splits)

lemma fmt_d_decimal: "0 \<le> n \<Longrightarrow> list_all (\<lambda>c. digit_value c < 10) (fmt_d n)"
  using dec_digits_ok [of "nat n"] by (auto simp: fmt_d_def list_all_iff)

lemma find_content_length_found:
  assumes "\<And>r. r < length pre \<Longrightarrow> \<not> occurs_at (pre @ CONTENT_LENGTH @ fmt_d (int n) @ [13, 10] @ post) CONTENT_LENGTH r"
    and n: "int n \<le> INT_MAX"
  shows "buf_http_find_content_length (pre @ CONTENT_LENGTH @ fmt_d (int n) @ [13, 10] @ post) = Some (1, int n)"
proof -
  let ?d = "fmt_d (int n)"
  let ?hs = "pre @ CONTENT_LENGTH @ ?d @ [13, 10] @ post"
  let ?p = "length pre + length CONTENT_LENGTH"
  have occ: "occurs_at ?hs CONTENT_LENGTH (length pre)" by (simp add: occurs_at_iff)
  then have "(LEAST r. occurs_at ?hs CONTENT_LENGTH r) = length pre"
    using assms(1) by (intro Least_equality) (meson linorder_not_le)+
  with occ have m: "tor_memstr ?hs CONTENT_LENGTH = Some (Some (length pre))"
    by (auto simp: tor_memstr_def tor_memmem_eq)
  have digits: "list_all (\<lambda>c. digit_value c < 10) ?d" by (simp add: fmt_d_decimal)
  then have no: "10 \<notin> set (?d @ [13])" "0 \<notin> set (?d @ [13])" using digit_not_special by (auto simp: list_all_iff)
  have nl: "memchr ?hs ?p 10 (length ?hs - length pre - length CONTENT_LENGTH) = Some (Some (?p + length (?d @ [13])))"
    using no(1) by (intro memchr_found [where rest = post]) auto
  have slice: "arr_slice ?hs ?p (length (?d @ [13])) = Some (?d @ [13])" by (simp add: arr_slice_def)
  have str: "takeWhile (\<lambda>c. c \<noteq> 0) (?d @ [13]) = ?d @ [13]" using no(2) by (intro takeWhile_eq_all_conv [THEN iffD2]) auto
  have "strto_scan (?d @ [13]) 10 = (False, n, length ?d)"
    using strto_scan_fmt_d [of "[13]" "int n"] by (simp add: digit_value_def)
  moreover have "length ?d \<noteq> 0" using dec_digits_ok [of n] by (simp add: fmt_d_def)
  moreover have "to_u64 (int n) = int n" using n by (intro to_int_id) (simp add: is_int_defs INT_MAX_def)
  ultimately have parse: "tor_parse_uint64 (?d @ [13]) 10 0 INT_MAX True = Some (int n, True, Some (length ?d))"
    using n by (simp add: tor_parse_uint64_def strtoul_def CHECK_STRTOX_RESULT_def ULONG_MAX_def INT_MAX_def Let_def)
  have "tor_strisspace [13]" by (simp add: ctype_ranges)
  then show ?thesis
    using m nl slice str parse by (simp add: buf_http_find_content_length_def Let_def)
qed

subsection \<open>Taking a message off the buffer\<close>

text \<open>Reading \<open>n\<close> bytes to a new array and ending it with a zero byte.\<close>

lemma get_string_ok:
  assumes fresh: "\<And>n. length (fresh n) = n" and rel: "buf_rel tot rest buf xs" and n: "n \<le> length xs"
  obtains tot' buf' b r where "buf_get_bytes tot buf (fresh (n + 1)) n = Some (tot', buf', b, r)"
    "arr_set b n 0 = Some (take n xs @ [0])" "buf_rel tot' rest buf' (drop n xs)"
proof -
  obtain tot' buf' r where g: "buf_get_bytes tot buf (fresh (n + 1)) n = Some (tot', buf', take n xs @ drop n (fresh (n + 1)), r)"
    "buf_rel tot' rest buf' (drop n xs)"
    using buf_get_bytes_ok [OF rel n, of "fresh (n + 1)"] fresh by auto
  have "length (drop n (fresh (n + 1))) = Suc 0" using fresh by simp
  then obtain x where "drop n (fresh (n + 1)) = [x]" unfolding length_Suc_conv by auto
  then have "arr_set (take n xs @ drop n (fresh (n + 1))) n 0 = Some (take n xs @ [0])"
    using n by (simp add: arr_set_def list_update_append)
  with that g show thesis by blast
qed

text \<open>
  The comment on \<open>fetch_from_buf_http\<close> says that headers or a body that are not asked for are discarded. The
  code leaves them in the buffer: without \<open>headers_out\<close>, the body returned is the beginning of the headers.
\<close>

lemma http_take_ok:
  assumes fresh: "\<And>n. length (fresh n) = n" and rel: "buf_rel tot rest buf xs" and n: "h + b \<le> length xs"
    and ys_def: "ys = (if wh then drop h xs else xs)"
  shows "\<exists>tot' buf'. http_take fresh tot buf wh h wb b =
      Some (tot', buf', if wh then Some (take h xs @ [0]) else None, if wb then Some (take b ys @ [0], b) else None, 1)
      \<and> buf_rel tot' rest buf' (if wb then drop b ys else ys)"
proof -
  obtain tot0 buf0 hs0 r0 where h0: "buf_get_bytes tot buf (fresh (h + 1)) h = Some (tot0, buf0, hs0, r0)"
    "arr_set hs0 h 0 = Some (take h xs @ [0])" "buf_rel tot0 rest buf0 (drop h xs)"
    by (rule get_string_ok [OF fresh rel, of h]) (use n in auto)
  define tot1 buf1 where "tot1 = (if wh then tot0 else tot)" and "buf1 = (if wh then buf0 else buf)"
  have h: "buf_rel tot1 rest buf1 ys" using h0(3) rel by (simp add: tot1_def buf1_def ys_def)
  obtain tot2 buf2 bs r' where b: "buf_get_bytes tot1 buf1 (fresh (b + 1)) b = Some (tot2, buf2, bs, r')"
    "arr_set bs b 0 = Some (take b ys @ [0])" "buf_rel tot2 rest buf2 (drop b ys)"
    by (rule get_string_ok [OF fresh h, of b]) (use n in \<open>auto simp: ys_def\<close>)
  from h0 b h show ?thesis by (cases wh; cases wb) (simp_all add: http_take_def tot1_def buf1_def)
qed

text \<open>What the contents of the buffer say: wait for more, give up, or take some headers and a body.\<close>

datatype http_result = Wait | Fail | Message nat nat

definition http_spec :: "byte list \<Rightarrow> nat \<Rightarrow> nat \<Rightarrow> bool \<Rightarrow> http_result" where
  "http_spec xs max_headerlen max_bodylen force_complete =
     (if xs = [] then Wait
      else if \<nexists>r. occurs_at xs CRLF_CRLF r then (if max_headerlen < length xs then Fail else Wait)
      else
        (let h = (LEAST r. occurs_at xs CRLF_CRLF r) + 4; b = length xs - h
         in if max_headerlen \<le> h \<or> max_bodylen \<le> b then Fail
            else
              (case buf_http_find_content_length (take h xs) of
                 Some (r, n) \<Rightarrow>
                   if r = -1 then Fail
                   else if r = 1 then (if int b < n \<and> \<not> force_complete then Wait else Message h (min b (nat n)))
                   else Message h b
               | None \<Rightarrow> Fail)))"

text \<open>What a call does for each of these.\<close>

fun http_outcome ::
    "bool \<Rightarrow> bool \<Rightarrow> (nat \<times> buf_t \<times> byte list option \<times> (byte list \<times> nat) option \<times> int) option \<Rightarrow> nat \<Rightarrow> byte list \<Rightarrow>
     http_result \<Rightarrow> bool" where
  "http_outcome wh wb res rest xs Wait \<longleftrightarrow> (\<exists>tot' buf'. res = Some (tot', buf', None, None, 0) \<and> buf_rel tot' rest buf' xs)"
| "http_outcome wh wb res rest xs Fail \<longleftrightarrow> (\<exists>tot' buf'. res = Some (tot', buf', None, None, -1) \<and> buf_rel tot' rest buf' xs)"
| "http_outcome wh wb res rest xs (Message h b) \<longleftrightarrow> h + b \<le> length xs \<and>
     (\<exists>tot' buf'. res = Some (tot', buf', if wh then Some (take h xs @ [0]) else None,
          if wb then Some (take b (if wh then drop h xs else xs) @ [0], b) else None, 1) \<and>
        buf_rel tot' rest buf' (if wb then drop b (if wh then drop h xs else xs) else if wh then drop h xs else xs))"

text \<open>The headers that are read after \<open>buf_pullup\<close>.\<close>

lemma pullup_headers:
  assumes fresh: "\<And>n. length (fresh n) = n" and rel: "buf_rel tot rest buf xs" and n: "0 < n" "n \<le> length xs"
  obtains tot' buf' off len where "buf_pullup fresh tot buf n = Some (tot', buf', Some off, len)" "buf_rel tot' rest buf' xs"
    "arr_slice (ch_mem (hd (buf_chunks buf'))) off n = Some (take n xs)"
proof -
  obtain tot' buf' hd' len where p: "buf_pullup fresh tot buf n = Some (tot', buf', hd', len)" "buf_rel tot' rest buf' xs"
    "case buf_chunks buf' of [] \<Rightarrow> hd' = None \<and> len = 0 \<and> xs = []
     | ch # chs \<Rightarrow> hd' = Some (ch_data ch) \<and> min n (length xs) \<le> len \<and> arr_slice (ch_mem ch) (ch_data ch) len = Some (take len xs)"
    using buf_pullup_ok [OF fresh rel, of n] by blast
  with n obtain ch chs where ch: "buf_chunks buf' = ch # chs" "hd' = Some (ch_data ch)" "n \<le> len"
    "arr_slice (ch_mem ch) (ch_data ch) len = Some (take len xs)"
    by (cases "buf_chunks buf'") auto
  then have "take len (drop (ch_data ch) (ch_mem ch)) = take len xs" "ch_data ch + len \<le> length (ch_mem ch)"
    by (auto simp: arr_slice_def split: if_splits)
  then have "take n (drop (ch_data ch) (ch_mem ch)) = take n xs" "ch_data ch + n \<le> length (ch_mem ch)"
    using ch(3) by (auto dest: arg_cong [where f = "take n"] simp: min_def)
  with p ch that [of tot' buf' "ch_data ch" len] show thesis by (simp add: arr_slice_def)
qed

lemma fetch_from_buf_http_ok:
  assumes fresh: "\<And>n. length (fresh n) = n" and rel: "buf_rel tot rest buf xs" and filled: "buf_filled buf"
    and mh: "int max_headerlen \<le> INT_MAX - 4"
  shows "http_outcome wh wb (fetch_from_buf_http fresh tot buf wh max_headerlen wb max_bodylen force_complete) rest xs
    (http_spec xs max_headerlen max_bodylen force_complete)"
proof (cases "xs \<noteq> [] \<and> (\<exists>r. occurs_at xs CRLF_CRLF r)")
  case False
  have "buf_find_string_offset buf CRLF_CRLF = Some (first_from 0 CRLF_CRLF xs)"
    using buf_find_string_offset_ok [OF rel filled] by (simp add: CRLF_CRLF_def)
  moreover have "to_i32 (int max_headerlen) = int max_headerlen" using mh by (simp add: INT_MAX_def is_int_defs)
  ultimately show ?thesis
    using False rel buf_datalen_rel [OF rel] by (auto simp: fetch_from_buf_http_def http_spec_def first_from_def)
next
  case True
  define i where "i = (LEAST r. occurs_at xs CRLF_CRLF r)"
  have "occurs_at xs CRLF_CRLF i" using True unfolding i_def by (metis LeastI)
  then have i4: "i + 4 \<le> length xs" by (simp add: occurs_at_iff CRLF_CRLF_def)
  have dl: "buf_datalen buf = length xs" "length xs \<le> BUF_MAX_LEN" using rel buf_datalen_rel by (auto simp: buf_rel_def)
  have find: "buf_find_string_offset buf CRLF_CRLF = Some (int i)"
    using buf_find_string_offset_ok [OF rel filled, of CRLF_CRLF] True by (simp add: CRLF_CRLF_def first_from_def i_def)
  have m32: "to_i32 (int max_headerlen) = int max_headerlen" using mh by (simp add: INT_MAX_def is_int_defs)
  have spec: "http_spec xs max_headerlen max_bodylen force_complete =
      (if max_headerlen \<le> i + 4 \<or> max_bodylen \<le> length xs - (i + 4) then Fail
       else (case buf_http_find_content_length (take (i + 4) xs) of
          Some (r, n) \<Rightarrow> if r = -1 then Fail
            else if r = 1 then (if int (length xs - (i + 4)) < n \<and> \<not> force_complete then Wait
              else Message (i + 4) (min (length xs - (i + 4)) (nat n)))
            else Message (i + 4) (length xs - (i + 4))
        | None \<Rightarrow> Fail))"
    using True by (simp add: http_spec_def i_def [symmetric] Let_def)
  show ?thesis
  proof (cases "int max_headerlen < int i")
    case True
    then show ?thesis using find m32 dl rel i4 by (auto simp: spec fetch_from_buf_http_def)
  next
    case False
    obtain tot1 buf1 off len where p: "buf_pullup fresh tot buf (i + 4) = Some (tot1, buf1, Some off, len)" "buf_rel tot1 rest buf1 xs"
      "arr_slice (ch_mem (hd (buf_chunks buf1))) off (i + 4) = Some (take (i + 4) xs)"
      by (rule pullup_headers [OF fresh rel, of "i + 4"]) (use i4 in auto)
    obtain r n where cl: "buf_http_find_content_length (take (i + 4) xs) = Some (r, n)" "r \<in> {-1, 0, 1}" "r = 1 \<longrightarrow> 0 \<le> n"
      using find_content_length_total by blast
    have body: "nat (to_u64 (int (length xs) - int (i + 4))) = length xs - (i + 4)"
      using i4 dl(2) by (subst to_int_id) (auto simp: is_int_defs BUF_MAX_LEN_def)
    have hl: "nat (int i + 4) = i + 4" by simp
    have take: "http_outcome wh wb (http_take fresh tot1 buf1 wh (i + 4) wb b) rest xs (Message (i + 4) b)"
      if "b \<le> length xs - (i + 4)" for b
    proof -
      have le: "i + 4 + b \<le> length xs" using that i4 by linarith
      show ?thesis unfolding http_outcome.simps using http_take_ok [OF fresh p(2) le refl, of wh wb] le by blast
    qed
    have fetch: "fetch_from_buf_http fresh tot buf wh max_headerlen wb max_bodylen force_complete =
        (if max_headerlen \<le> i + 4 \<or> max_bodylen \<le> length xs - (i + 4) then Some (tot1, buf1, None, None, -1)
         else if r = -1 then Some (tot1, buf1, None, None, -1)
         else if r = 1 then (if int (length xs - (i + 4)) < n \<and> \<not> force_complete then Some (tot1, buf1, None, None, 0)
           else http_take fresh tot1 buf1 wh (i + 4) wb (min (length xs - (i + 4)) (nat n)))
         else http_take fresh tot1 buf1 wh (i + 4) wb (length xs - (i + 4)))"
    proof -
      have conds: "\<not> (to_i32 (int max_headerlen) < int i \<or> int i < 0 \<and> max_headerlen < buf_datalen buf)" "\<not> int i < 0"
        "int i + 4 \<le> INT_MAX" "buf_datalen buf \<noteq> 0" using False m32 mh dl(1) i4 by auto
      have min: "(if n < int (length xs - (i + 4)) then nat n else length xs - (i + 4)) = min (length xs - (i + 4)) (nat n)" if "0 \<le> n"
        using that by (auto simp: min_def)
      show ?thesis
        unfolding fetch_from_buf_http_def if_not_P [OF conds(4)] find Option.bind.bind_lunit if_not_P [OF conds(1)] if_not_P [OF conds(2)]
        using conds(3) p(1,3) cl min buf_datalen_rel [OF p(2)] body by (auto simp: hl Let_def simp del: of_nat_add diff_is_0_eq)
    qed
    show ?thesis
      using take [of "length xs - (i + 4)"] take [of "min (length xs - (i + 4)) (nat n)"] cl p(2)
      by (auto simp: fetch spec simp del: diff_is_0_eq http_outcome.simps(3))
  qed
qed

lemma peek_buf_has_http_command_eq:
  assumes "\<And>n. length (fresh n) = n" "buf_rel tot rest buf xs"
  shows "peek_buf_has_http_command fresh buf = Some (\<exists>cmd \<in> set (map bytes_of [''CONNECT '', ''DELETE '', ''GET '', ''POST '', ''PUT '']).
    take (length cmd) xs = cmd)"
  using buf_peek_startswith_ok [OF assms]
  by (simp add: peek_buf_has_http_command_def PEEK_BUF_STARTSWITH_MAX_def bytes_of_def)

subsection \<open>Commands of the extended OR port\<close>

definition ext_or_wire :: "u16 \<Rightarrow> byte list \<Rightarrow> byte list" where
  "ext_or_wire command body = mem_bytes 2 (htons command) @ mem_bytes 2 (htons (of_nat (length body))) @ body"

lemma write_ext_or_command_ok:
  assumes fresh: "\<And>n. length (fresh n) = n" and rel: "out_rel tot rest wide conn ys"
    and len: "length body \<le> 65535" "length ys + length (ext_or_wire command body) \<le> BUF_MAX_LEN"
  shows "\<exists>tot' conn'. connection_write_ext_or_command ev fresh now tot conn command body = Some (tot', conn', 0) \<and>
    out_rel tot' rest wide conn' (ys @ ext_or_wire command body)"
proof -
  let ?c = "mem_bytes 2 (htons command)" and ?l = "mem_bytes 2 (htons (of_nat (length body)))"
  have h1: "set_uint16 (fresh 4) 0 (htons command) = Some (?c @ drop 2 (fresh 4))"
    using fresh by (simp add: set_uint16_def arr_blit_def numeral_2_eq_2)
  have h2: "set_uint16 (?c @ drop 2 (fresh 4)) 2 (htons (of_nat (length body))) = Some (?c @ ?l)"
    using fresh arr_blit_next [of 2 ?c ?l "drop 2 (fresh 4)"] by (simp add: set_uint16_def)
  obtain tot1 conn1 where a1: "connection_buf_add ev fresh now tot (?c @ ?l) conn = Some (tot1, conn1)"
    "out_rel tot1 rest wide conn1 (ys @ ?c @ ?l)"
    using connection_buf_add_ok [OF fresh rel, of "?c @ ?l" ev now] len(2) by (auto simp: ext_or_wire_def)
  obtain tot2 conn2 where a2: "connection_buf_add ev fresh now tot1 body conn1 = Some (tot2, conn2)"
    "out_rel tot2 rest wide conn2 (ys @ ext_or_wire command body)"
    using connection_buf_add_ok [OF fresh a1(2), of body ev now] len(2) by (auto simp: ext_or_wire_def)
  have "(if body \<noteq> [] then connection_buf_add ev fresh now tot1 body conn1 else Some (tot1, conn1)) = Some (tot2, conn2)"
    using a2(1) by (auto simp: connection_buf_add_def)
  with h1 h2 a1(1) a2(2) len(1) show ?thesis
    by (simp add: connection_write_ext_or_command_def del: if_split)
qed

lemma unat_len16: "n \<le> 65535 \<Longrightarrow> unat (of_nat n :: u16) = n"
  by (simp add: unat_of_nat take_bit_eq_mod)

lemma fetch_ext_or_ok:
  assumes fresh: "\<And>n. length (fresh n) = n" and rel: "buf_rel tot rest buf (ext_or_wire command body @ ys)"
    and len: "length body \<le> 65535"
  shows "\<exists>tot' buf'. fetch_ext_or_command_from_buf fresh tot buf =
      Some (tot', buf', Some \<lparr>eo_cmd = command, eo_len = of_nat (length body), eo_body = body\<rparr>, 1) \<and> buf_rel tot' rest buf' ys"
proof -
  let ?c = "mem_bytes 2 (htons command)" and ?l = "mem_bytes 2 (htons (of_nat (length body)))"
  have hdr: "buf_peek buf (fresh 4) 4 = Some (?c @ ?l)"
    using buf_peek_ok [OF rel, of 4 "fresh 4"] fresh by (simp add: ext_or_wire_def)
  have get: "get_uint16 (?c @ ?l) 0 = Some (htons command)" "get_uint16 (?c @ ?l) 2 = Some (htons (of_nat (length body)))"
    by (simp_all add: get_uint16_def arr_slice_def)
  have n: "unat (of_nat (length body) :: u16) = length body" using len by (rule unat_len16)
  obtain tot1 buf1 where d: "buf_drain tot buf 4 = Some (tot1, buf1)" "buf_rel tot1 rest buf1 (body @ ys)"
    using buf_drain_ok [OF rel, of 4] by (auto simp: ext_or_wire_def)
  obtain tot2 buf2 r where g: "buf_get_bytes tot1 buf1 (fresh (length body)) (length body) = Some (tot2, buf2, body, r)" "buf_rel tot2 rest buf2 ys"
    using buf_get_bytes_ok [OF d(2), of "length body" "fresh (length body)"] fresh by auto
  show ?thesis
    using hdr get n d(1) g buf_datalen_rel [OF rel]
    by (simp add: fetch_ext_or_command_from_buf_def EXT_OR_CMD_HEADER_SIZE_def ext_or_cmd_new_def ext_or_wire_def)
qed

lemma fetch_ext_or_incomplete:
  assumes fresh: "\<And>n. length (fresh n) = n" and rel: "buf_rel tot rest buf p"
    and p: "p @ q = ext_or_wire command body" "q \<noteq> []" "length body \<le> 65535"
  shows "fetch_ext_or_command_from_buf fresh tot buf = Some (tot, buf, None, 0)"
proof (cases "length p < 4")
  case True
  then show ?thesis using buf_datalen_rel [OF rel] by (simp add: fetch_ext_or_command_from_buf_def EXT_OR_CMD_HEADER_SIZE_def)
next
  case False
  let ?c = "mem_bytes 2 (htons command)" and ?l = "mem_bytes 2 (htons (of_nat (length body)))"
  obtain zs where zs: "p = (?c @ ?l) @ zs" "zs @ q = body"
    using prefix_split [of p q "?c @ ?l" body] False p(1) by (auto simp: ext_or_wire_def)
  have "length zs + length q = length body" using arg_cong [OF zs(2), of length] by simp
  then have "length zs < length body" using p(2) by (cases q) auto
  moreover have "buf_peek buf (fresh 4) 4 = Some (?c @ ?l)"
    using buf_peek_ok [OF rel, of 4 "fresh 4"] fresh zs(1) by simp
  moreover have "get_uint16 (?c @ ?l) 2 = Some (htons (of_nat (length body)))"
    by (simp add: get_uint16_def arr_slice_def)
  ultimately show ?thesis
    using buf_datalen_rel [OF rel] zs(1) unat_len16 [OF p(3)]
    by (simp add: fetch_ext_or_command_from_buf_def EXT_OR_CMD_HEADER_SIZE_def)
qed

lemma http_spec_content_length:
  assumes hs: "hs = pre @ CONTENT_LENGTH @ fmt_d (int (length body)) @ [13, 10] @ post"
    and "\<And>r. r < length pre \<Longrightarrow> \<not> occurs_at hs CONTENT_LENGTH r"
    and "occurs_at (hs @ body @ next) CRLF_CRLF (length hs - 4)"
    and "\<And>r. r < length hs - 4 \<Longrightarrow> \<not> occurs_at (hs @ body @ next) CRLF_CRLF r"
    and "length hs < max_headerlen" "length (body @ next) < max_bodylen" "length (hs @ body @ next) \<le> BUF_MAX_LEN"
  shows "http_spec (hs @ body @ next) max_headerlen max_bodylen force_complete = Message (length hs) (length body)"
proof -
  have "(LEAST r. occurs_at (hs @ body @ next) CRLF_CRLF r) = length hs - 4"
    using assms(3,4) by (intro Least_equality) (meson linorder_not_le)+
  moreover have "4 \<le> length hs" using hs by (simp add: CONTENT_LENGTH_def)
  moreover have "buf_http_find_content_length hs = Some (1, int (length body))"
    using find_content_length_found [of pre "length body" post] assms(2,7) by (simp add: hs BUF_MAX_LEN_def INT_MAX_def)
  ultimately show ?thesis using assms(3,5,6) by (auto simp: http_spec_def Let_def)
qed

text \<open>A message with a body of two bytes, with one more byte behind it.\<close>

definition sample_headers :: "byte list" where
  "sample_headers = [65] @ CONTENT_LENGTH @ [50, 13, 10] @ [13, 10]"

lemma sample_headers_first:
  "list_all (\<lambda>r. \<not> occurs_at (sample_headers @ [7, 8] @ [9]) CRLF_CRLF r) [0..<20]"
  "length sample_headers = 24" "occurs_at (sample_headers @ [7, 8] @ [9]) CRLF_CRLF 20"
  "\<not> occurs_at sample_headers CONTENT_LENGTH 0"
  by (simp_all add: sample_headers_def CONTENT_LENGTH_def CRLF_CRLF_def bytes_of_def occurs_at_def arr_slice_def upt_rec)

lemma sample_message:
  "\<exists>tot buf. buf_rel tot 0 buf (sample_headers @ [7, 8] @ [9]) \<and> buf_filled buf"
  "sample_headers = [65] @ CONTENT_LENGTH @ fmt_d (int (length [7, 8 :: byte])) @ [13, 10] @ [13, 10]"
  "r < length sample_headers - 4 \<Longrightarrow> \<not> occurs_at (sample_headers @ [7, 8] @ [9]) CRLF_CRLF r"
  using buf_rel_exists [of "sample_headers @ [7, 8] @ [9]"] sample_headers_first
  by (auto simp: BUF_MAX_LEN_def list_all_iff fmt_d_def dec_digits.simps sample_headers_def)

lemma sample_spec: "http_spec (sample_headers @ [7, 8] @ [9]) 100 100 False = Message 24 2"
  using http_spec_content_length [OF sample_message(2) _ _ sample_message(3), of 100 100 False] sample_headers_first
  by (simp add: BUF_MAX_LEN_def)

subsection \<open>Properties\<close>

text \<open>
  C14: \<open>fetch_from_buf_http\<close> on a buffer without empty chunks and with a limit of at most \<open>INT_MAX - 4\<close> for
  the headers. Whatever the peer has sent, the call returns, and its outcome is a function of the
  contents of the buffer alone, not of how they are split into chunks. It waits or it fails, and then the
  contents are unchanged; or it succeeds with headers up to and with the first empty line and a
  body, each shorter than its limit. Then, if the headers are asked for, they are taken off the buffer into
  a new array ended by a zero byte, and next, if a body is asked for, as many bytes as the body
  has. What is not asked for stays in the buffer, so the body is the one after the headers only if the headers
  are asked for too.
\<close>

theorem fetch_from_buf_http_correct:
  assumes "\<And>n. length (fresh n) = n" "buf_rel tot rest buf xs" "buf_filled buf" "int max_headerlen \<le> INT_MAX - 4"
  shows "http_outcome wh wb (fetch_from_buf_http fresh tot buf wh max_headerlen wb max_bodylen force_complete) rest xs
    (http_spec xs max_headerlen max_bodylen force_complete)"
  using fetch_from_buf_http_ok [OF assms] .

theorem fetch_from_buf_http_correct_witness:
  "\<exists>tot buf tot' buf'. buf_rel tot 0 buf (sample_headers @ [7, 8] @ [9]) \<and>
     fetch_from_buf_http (\<lambda>n. replicate n 0) tot buf True 100 False 100 False =
       Some (tot', buf', Some (sample_headers @ [0]), None, 1) \<and> buf_rel tot' 0 buf' [7, 8, 9]"
proof -
  obtain tot buf where b: "buf_rel tot 0 buf (sample_headers @ [7, 8] @ [9])" "buf_filled buf" using sample_message(1) by blast
  have "http_outcome True False (fetch_from_buf_http (\<lambda>n. replicate n 0) tot buf True 100 False 100 False) 0
      (sample_headers @ [7, 8] @ [9]) (http_spec (sample_headers @ [7, 8] @ [9]) 100 100 False)"
    using fetch_from_buf_http_correct [OF fresh_zero b, of 100] by (simp add: INT_MAX_def)
  with b(1) show ?thesis unfolding sample_spec using sample_headers_first(2) by auto
qed

text \<open>
  C24: a message with a \<open>Content-Length\<close> comes out as it went in. Let the headers \<open>pre\<close>, the length of
  the body in decimal, more headers \<open>post\<close> that end with an empty line, the body and the beginning of
  whatever comes next be in a buffer without empty chunks, with no earlier \<open>Content-Length\<close> and no earlier empty
  line. The limit for the headers is above their length and at most \<open>INT_MAX - 4\<close>, the limit for the body is
  above everything that is in the buffer after the headers. Then a call that asks for the headers and
  the body returns these headers and exactly this body and leaves what follows.
\<close>

theorem fetch_http_content_length:
  assumes "\<And>n. length (fresh n) = n" "buf_rel tot rest buf (hs @ body @ next)" "buf_filled buf"
    and hs: "hs = pre @ CONTENT_LENGTH @ fmt_d (int (length body)) @ [13, 10] @ post"
    and "\<And>r. r < length pre \<Longrightarrow> \<not> occurs_at hs CONTENT_LENGTH r"
    and "occurs_at (hs @ body @ next) CRLF_CRLF (length hs - 4)"
    and "\<And>r. r < length hs - 4 \<Longrightarrow> \<not> occurs_at (hs @ body @ next) CRLF_CRLF r"
    and "length hs < max_headerlen" "int max_headerlen \<le> INT_MAX - 4" "length (body @ next) < max_bodylen"
  shows "\<exists>tot' buf'. fetch_from_buf_http fresh tot buf True max_headerlen True max_bodylen False =
      Some (tot', buf', Some (hs @ [0]), Some (body @ [0], length body), 1) \<and> buf_rel tot' rest buf' next"
proof -
  have "http_spec (hs @ body @ next) max_headerlen max_bodylen False = Message (length hs) (length body)"
    using assms(2) by (intro http_spec_content_length [OF assms(4-8,10)]) (simp_all add: buf_rel_def)
  then show ?thesis using fetch_from_buf_http_ok [OF assms(1-3,9), of True True max_bodylen False] by auto
qed

theorem fetch_http_content_length_witness:
  "\<exists>tot buf tot' buf'. buf_rel tot 0 buf (sample_headers @ [7, 8] @ [9]) \<and>
     fetch_from_buf_http (\<lambda>n. replicate n 0) tot buf True 100 True 100 False =
       Some (tot', buf', Some (sample_headers @ [0]), Some ([7, 8, 0], 2), 1) \<and> buf_rel tot' 0 buf' [9]"
proof -
  obtain tot buf where b: "buf_rel tot 0 buf (sample_headers @ [7, 8] @ [9])" "buf_filled buf" using sample_message(1) by blast
  have "\<exists>tot' buf'. fetch_from_buf_http (\<lambda>n. replicate n 0) tot buf True 100 True 100 False =
      Some (tot', buf', Some (sample_headers @ [0]), Some ([7, 8] @ [0], length [7, 8 :: byte]), 1) \<and> buf_rel tot' 0 buf' [9]"
    by (rule fetch_http_content_length [OF fresh_zero b sample_message(2) _ _ sample_message(3)])
      (use sample_headers_first in \<open>simp_all add: INT_MAX_def\<close>)
  with b show ?thesis unfolding append.simps list.size numeral_2_eq_2 by auto
qed

text \<open>
  C29: a command of the extended OR port. For a body of at most 65535 bytes
  \<open>connection_write_ext_or_command\<close> puts a byte string on the output buffer; from a buffer that starts
  with this string \<open>fetch_ext_or_command_from_buf\<close> takes the same command and body and leaves what
  follows, and on a proper prefix of it the call returns 0 and changes nothing.
\<close>

theorem ext_or_command_roundtrip:
  assumes "\<And>n. length (fresh n) = n" "out_rel tot rest wide conn ys" "length body \<le> 65535"
    and "length ys + length body + 4 \<le> BUF_MAX_LEN"
  shows "\<exists>tot' conn' bs. connection_write_ext_or_command ev fresh now tot conn command body = Some (tot', conn', 0) \<and>
    buf_rel tot' rest (outbuf conn') (ys @ bs) \<and> length bs = length body + 4 \<and>
    (\<forall>t r buf zs. buf_rel t r buf (bs @ zs) \<longrightarrow>
      (\<exists>t' buf'. fetch_ext_or_command_from_buf fresh t buf =
         Some (t', buf', Some \<lparr>eo_cmd = command, eo_len = of_nat (length body), eo_body = body\<rparr>, 1) \<and> buf_rel t' r buf' zs)) \<and>
    (\<forall>t r buf n. n < length bs \<and> buf_rel t r buf (take n bs) \<longrightarrow> fetch_ext_or_command_from_buf fresh t buf = Some (t, buf, None, 0))"
proof -
  have len: "length ys + length (ext_or_wire command body) \<le> BUF_MAX_LEN" using assms(4) by (simp add: ext_or_wire_def)
  obtain tot' conn' where w: "connection_write_ext_or_command ev fresh now tot conn command body = Some (tot', conn', 0)"
    "out_rel tot' rest wide conn' (ys @ ext_or_wire command body)"
    using write_ext_or_command_ok [OF assms(1-3) len, of ev now] by blast
  have inc: "fetch_ext_or_command_from_buf fresh t buf = Some (t, buf, None, 0)"
    if "n < length (ext_or_wire command body)" "buf_rel t r buf (take n (ext_or_wire command body))" for t r buf n
    using that fetch_ext_or_incomplete [OF assms(1) that(2) append_take_drop_id _ assms(3)] by simp
  show ?thesis
    using w inc fetch_ext_or_ok [OF assms(1) _ assms(3)]
    by (intro exI [of _ tot'] exI [of _ conn'] exI [of _ "ext_or_wire command body"])
      (auto simp: out_rel_def ext_or_wire_def)
qed

theorem ext_or_command_roundtrip_witness:
  "\<exists>tot' conn' bs t buf t' buf'.
     connection_write_ext_or_command (\<lambda>e h. h) (\<lambda>n. replicate n 0) 7 0 (plain_conn buf_new) 1 [5, 6, 7] = Some (tot', conn', 0) \<and>
     buf_rel tot' 0 (outbuf conn') bs \<and> buf_rel t 0 buf (bs @ [9]) \<and>
     fetch_ext_or_command_from_buf (\<lambda>n. replicate n 0) t buf =
       Some (t', buf', Some \<lparr>eo_cmd = 1, eo_len = 3, eo_body = [5, 6, 7]\<rparr>, 1) \<and> buf_rel t' 0 buf' [9]"
proof -
  have out: "out_rel 0 0 True (plain_conn buf_new) []"
    using buf_rel_new [of 0] by (simp add: out_rel_def plain_conn_def connection_may_write_to_buf_def)
  from ext_or_command_roundtrip [OF fresh_zero out, of "[5, 6, 7]" "\<lambda>e h. h" 7 1]
  obtain tot' conn' bs where w: "connection_write_ext_or_command (\<lambda>e h. h) (\<lambda>n. replicate n 0) 7 0 (plain_conn buf_new) 1 [5, 6, 7] = Some (tot', conn', 0)"
    "buf_rel tot' 0 (outbuf conn') bs" "length bs = 7"
    and f: "\<And>t r buf zs. buf_rel t r buf (bs @ zs) \<longrightarrow> (\<exists>t' buf'. fetch_ext_or_command_from_buf (\<lambda>n. replicate n 0) t buf =
      Some (t', buf', Some \<lparr>eo_cmd = 1, eo_len = 3, eo_body = [5, 6, 7]\<rparr>, 1) \<and> buf_rel t' r buf' zs)"
    by (auto simp: BUF_MAX_LEN_def)
  obtain t buf where "buf_rel t 0 buf (bs @ [9])"
    using buf_rel_exists [of "bs @ [9]"] w(3) by (auto simp: BUF_MAX_LEN_def)
  with w f show ?thesis by blast
qed

end
