(* ===== verification/Clmul.thy ===== *)
theory Clmul
  imports Prelude
begin

section \<open>Carry-less multiplication\<close>

text \<open>
  Polynomials over the field of two elements, as the natural numbers whose bits are their
  coefficients: addition is the exclusive or, and the product is \<open>clmul\<close>. The second half is the
  congruence modulo a polynomial with the constant coefficient one, in which a division by a power
  of the indeterminate is unique.
\<close>

subsection \<open>Products\<close>

fun clmul :: "nat \<Rightarrow> nat \<Rightarrow> nat" where
  "clmul x y = (if x = 0 then 0 else (if odd x then y else 0) XOR 2 * clmul (x div 2) y)"

declare clmul.simps [simp del]

lemma clmul_0 [simp]: "clmul 0 y = 0"
  by (simp add: clmul.simps)

lemma clmul_rec: "clmul x y = (if odd x then y else 0) XOR 2 * clmul (x div 2) y"
  by (cases "x = 0") (simp_all add: clmul.simps [of x y])

text \<open>The number of pairs of set bits that meet in a place.\<close>

definition conv :: "nat \<Rightarrow> nat \<Rightarrow> nat \<Rightarrow> nat" where
  "conv x y n = (\<Sum>i\<le>n. of_bool (bit x i \<and> bit y (n - i)))"

lemma conv_0 [simp]: "conv x y 0 = of_bool (odd x \<and> odd y)"
  by (simp add: conv_def bit_0)

lemma conv_Suc: "conv x y (Suc n) = of_bool (odd x \<and> bit y (Suc n)) + conv (x div 2) y n"
  unfolding conv_def by (subst sum.atMost_Suc_shift) (simp add: bit_0 bit_Suc)

lemma conv_zero [simp]: "conv 0 y n = 0"
  by (simp add: conv_def)

lemma conv_commute: "conv x y n = conv y x n"
  unfolding conv_def
  by (rule sum.reindex_bij_witness [of _ "\<lambda>i. n - i" "\<lambda>i. n - i"]) (auto simp: conj_commute)

lemma conv_xor: "odd (conv (x XOR x') y n) \<longleftrightarrow> odd (conv x y n) \<noteq> odd (conv x' y n)"
proof (induction n arbitrary: x x')
  case 0
  show ?case by (cases "odd y") (auto simp: even_xor_iff)
next
  case (Suc n)
  have "(x XOR x') div 2 = (x div 2) XOR (x' div 2)"
    using drop_bit_xor [of 1 x x'] by (simp add: drop_bit_eq_div)
  then show ?case
    using Suc.IH [of "x div 2" "x' div 2"]
    by (cases "bit y (Suc n)") (auto simp: conv_Suc even_xor_iff)
qed

lemma bit_clmul: "bit (clmul x y) n \<longleftrightarrow> odd (conv x y n)"
proof (induction x y arbitrary: n rule: clmul.induct)
  case (1 x y)
  show ?case
  proof (cases "x = 0")
    case False
    show ?thesis
    proof (cases n)
      case 0
      then show ?thesis by (subst clmul_rec) (auto simp: bit_0 even_xor_iff)
    next
      case (Suc m)
      have "bit (clmul x y) (Suc m) \<longleftrightarrow> (odd x \<and> bit y (Suc m)) \<noteq> bit (clmul (x div 2) y) m"
        by (subst clmul_rec) (simp add: bit_xor_iff bit_double_iff)
      then show ?thesis
        using 1 [OF False, of m] Suc by (cases "odd x \<and> bit y (Suc m)") (auto simp: conv_Suc)
    qed
  qed simp
qed

lemma clmul_commute: "clmul x y = clmul y x"
  by (rule bit_eqI) (simp add: bit_clmul conv_commute [of x])

lemma clmul_0_right [simp]: "clmul x 0 = 0"
  by (simp add: clmul_commute [of x])

lemma clmul_1 [simp]: "clmul 1 y = y" "clmul (Suc 0) y = y"
  by (simp_all add: clmul.simps)

lemma clmul_xor_left: "clmul (x XOR x') y = clmul x y XOR clmul x' y"
  by (rule bit_eqI) (simp add: bit_clmul bit_xor_iff conv_xor)

lemma clmul_xor_right: "clmul x (y XOR y') = clmul x y XOR clmul x y'"
  by (simp only: clmul_commute [of x] clmul_xor_left)

lemma clmul_double: "clmul (2 * x) y = 2 * clmul x y"
  by (subst clmul_rec) simp

lemma clmul_power_left: "clmul (2 ^ k * x) y = 2 ^ k * clmul x y"
  by (induction k) (simp_all add: clmul_double mult.assoc)

lemma clmul_power_right: "clmul x (2 ^ k * y) = 2 ^ k * clmul x y"
  by (simp only: clmul_commute [of x] clmul_power_left)

lemma double_xor: "2 * (a XOR b) = (2 * a) XOR (2 * b :: nat)"
  using push_bit_xor [of 1 a b] by (simp add: push_bit_eq_mult mult.commute)

lemma power_xor: "2 ^ k * (a XOR b) = (2 ^ k * a) XOR (2 ^ k * b :: nat)"
  using push_bit_xor [of k a b] by (simp add: push_bit_eq_mult mult.commute)

lemma clmul_assoc: "clmul (clmul x y) z = clmul x (clmul y z)"
proof (induction x y rule: clmul.induct)
  case (1 x y)
  show ?case
  proof (cases "x = 0")
    case False
    have "clmul (clmul x y) z = (if odd x then clmul y z else 0) XOR 2 * clmul (clmul (x div 2) y) z"
      by (subst clmul_rec) (simp add: clmul_xor_left clmul_double)
    also have "\<dots> = clmul x (clmul y z)"
      using 1 [OF False] by (simp add: clmul_rec [of x])
    finally show ?thesis .
  qed simp
qed

lemma xor_less_power: "a < 2 ^ n \<Longrightarrow> b < 2 ^ n \<Longrightarrow> a XOR b < (2 ^ n :: nat)"
  by (simp flip: take_bit_nat_eq_self_iff add: take_bit_xor)

lemma clmul_less: "x < 2 ^ m \<Longrightarrow> y < 2 ^ n \<Longrightarrow> clmul x y < 2 ^ (m + n)"
proof (induction m arbitrary: x)
  case (Suc m)
  have "y < 2 ^ (Suc m + n)"
    using Suc.prems(2) by (rule order.strict_trans2) (rule power_increasing, simp_all)
  moreover have "2 * clmul (x div 2) y < 2 ^ (Suc m + n)"
    using Suc.IH [of "x div 2"] Suc.prems by simp
  ultimately show ?case
    by (subst clmul_rec) (simp add: xor_less_power del: power_Suc add_Suc)
qed simp

lemma xor_cancel: "a XOR (a XOR b) = (b :: nat)"
  by (simp flip: xor.assoc)

subsection \<open>Congruence modulo a polynomial\<close>

definition pcong :: "nat \<Rightarrow> nat \<Rightarrow> nat \<Rightarrow> bool" where
  "pcong p a b \<longleftrightarrow> (\<exists>q. a XOR b = clmul q p)"

lemma pcong_refl [simp]: "pcong p a a"
  unfolding pcong_def by (rule exI [of _ 0]) simp

lemma pcong_sym: "pcong p a b \<Longrightarrow> pcong p b a"
  unfolding pcong_def by (simp add: xor.commute)

lemma pcong_trans: "pcong p a b \<Longrightarrow> pcong p b c \<Longrightarrow> pcong p a c"
  unfolding pcong_def
proof (elim exE)
  fix q q' assume "a XOR b = clmul q p" "b XOR c = clmul q' p"
  then have "a XOR c = clmul (q XOR q') p"
    by (metis clmul_xor_left xor.assoc xor_cancel)
  then show "\<exists>q. a XOR c = clmul q p" ..
qed

lemma pcong_xor: "pcong p a b \<Longrightarrow> pcong p c d \<Longrightarrow> pcong p (a XOR c) (b XOR d)"
  unfolding pcong_def
proof (elim exE)
  fix q q' assume "a XOR b = clmul q p" "c XOR d = clmul q' p"
  then have "(a XOR c) XOR (b XOR d) = clmul (q XOR q') p"
    by (metis clmul_xor_left xor.assoc xor.commute)
  then show "\<exists>q. (a XOR c) XOR (b XOR d) = clmul q p" ..
qed

lemma pcong_clmul: "pcong p a b \<Longrightarrow> pcong p (clmul a c) (clmul b c)"
  unfolding pcong_def
proof (elim exE)
  fix q assume "a XOR b = clmul q p"
  then have "clmul a c XOR clmul b c = clmul (clmul q c) p"
    by (metis clmul_assoc clmul_commute clmul_xor_left)
  then show "\<exists>q. clmul a c XOR clmul b c = clmul q p" ..
qed

lemma pcong_power: "pcong p a b \<Longrightarrow> pcong p (2 ^ k * a) (2 ^ k * b)"
  using pcong_clmul [of p a b "2 ^ k"] by (metis clmul_1(1) clmul_power_right mult.right_neutral clmul_commute)

text \<open>
  A multiple of a polynomial with constant coefficient one is divisible by a power of the
  indeterminate only if the factor is.
\<close>

lemma clmul_odd_low:
  assumes "odd p" "2 ^ k dvd clmul q p"
  shows "2 ^ k dvd q"
  using assms(2)
proof (induction k arbitrary: q)
  case (Suc k)
  have "even (clmul q p)" using Suc.prems by (rule dvd_trans [rotated]) simp
  then have "even q"
    using assms(1) bit_clmul [of q p 0] by (simp add: bit_0)
  then obtain r where r: "q = 2 * r" by blast
  then have "2 ^ k dvd clmul r p" using Suc.prems by (simp add: clmul_double)
  then show ?case using Suc.IH r by simp
qed simp

lemma pcong_power_cancel:
  assumes "odd p" "pcong p (2 ^ k * a) (2 ^ k * b)"
  shows "pcong p a b"
proof -
  obtain q where q: "2 ^ k * (a XOR b) = clmul q p"
    using assms(2) by (auto simp: pcong_def power_xor)
  then have "2 ^ k dvd q" using clmul_odd_low [OF assms(1), of k q] by (metis dvd_triv_left)
  then obtain r where "q = 2 ^ k * r" by blast
  then have "a XOR b = clmul r p" using q by (simp add: clmul_power_left)
  then show ?thesis by (auto simp: pcong_def)
qed

text \<open>Residues are unique: a nonzero multiple of a polynomial of degree \<open>n\<close> has at least that degree.\<close>

lemma bit_top: "2 ^ m \<le> q \<Longrightarrow> q < 2 ^ Suc m \<Longrightarrow> bit q m" for q :: nat
proof -
  assume "2 ^ m \<le> q" "q < 2 ^ Suc m"
  then have "q div 2 ^ m = 1" by (intro div_nat_eqI) auto
  then show "bit q m" by (simp add: bit_iff_odd)
qed

lemma bit_beyond: "q < 2 ^ m \<Longrightarrow> m \<le> i \<Longrightarrow> \<not> bit q i" for q :: nat
proof -
  assume "q < 2 ^ m" "m \<le> i"
  then have "q < 2 ^ i" by (meson less_le_trans one_le_numeral power_increasing)
  then show "\<not> bit q i" by (simp add: bit_iff_odd)
qed

lemma clmul_top:
  assumes "2 ^ n \<le> p" "p < 2 ^ Suc n" "2 ^ m \<le> q" "q < 2 ^ Suc m"
  shows "bit (clmul q p) (m + n)"
proof -
  have "(\<Sum>i\<le>m + n. of_bool (bit q i \<and> bit p (m + n - i)) :: nat) = (\<Sum>i\<le>m + n. of_bool (i = m))"
  proof (rule sum.cong [OF refl])
    fix i assume "i \<in> {..m + n}"
    show "(of_bool (bit q i \<and> bit p (m + n - i)) :: nat) = of_bool (i = m)"
    proof (cases i m rule: linorder_cases)
      case less
      then have "\<not> bit p (m + n - i)" by (intro bit_beyond [OF assms(2)]) auto
      with less show ?thesis by simp
    next
      case equal
      then show ?thesis using bit_top [OF assms(1,2)] bit_top [OF assms(3,4)] by simp
    next
      case greater
      then have "\<not> bit q i" by (intro bit_beyond [OF assms(4)]) auto
      with greater show ?thesis by simp
    qed
  qed
  then show ?thesis by (simp add: bit_clmul conv_def)
qed

lemma pcong_unique:
  assumes p: "2 ^ n \<le> p" "p < 2 ^ Suc n"
    and "pcong p a b" "a < 2 ^ n" "b < 2 ^ n"
  shows "a = b"
proof -
  obtain q where q: "a XOR b = clmul q p" using assms(3) by (auto simp: pcong_def)
  have "q = 0"
  proof (rule ccontr)
    assume "q \<noteq> 0"
    then obtain m where "2 ^ m \<le> q" "q < 2 ^ Suc m"
      using ex_power_ivl1 [of 2 q] by auto
    then have "bit (a XOR b) (m + n)" using clmul_top [OF p] q by simp
    moreover have "a XOR b < 2 ^ n" using assms(4,5) by (rule xor_less_power)
    ultimately show False using bit_beyond [of "a XOR b" n "m + n"] by simp
  qed
  then show ?thesis using q by (metis clmul_0 xor_cancel xor.right_neutral)
qed

subsection \<open>Products of sparse numbers\<close>

text \<open>
  The integer product is the carry-less product where no carry arises. Two numbers whose set bits
  are four places apart have fewer than sixteen pairs of bits that meet in any place below \<open>60\<close>,
  so the sums of the places stay apart.
\<close>

definition conv_sum :: "nat \<Rightarrow> nat \<Rightarrow> nat \<Rightarrow> nat" where
  "conv_sum x y n = (\<Sum>m<n. conv x y m * 2 ^ m)"

lemma conv_sum_Suc: "conv_sum x y (Suc n) = conv_sum x y n + conv x y n * 2 ^ n"
  by (simp add: conv_sum_def)

lemma conv_sum_rec:
  "conv_sum x y (Suc n) = (if odd x then take_bit (Suc n) y else 0) + 2 * conv_sum (x div 2) y n"
proof (induction n)
  case 0
  show ?case by (simp add: conv_sum_def take_bit_Suc mod2_eq_if)
next
  case (Suc n)
  have "take_bit (Suc (Suc n)) y = take_bit (Suc n) y + of_bool (bit y (Suc n)) * 2 ^ Suc n"
    using take_bit_Suc_from_most [of "Suc n" y] by simp
  then show ?case
    using Suc.IH by (simp add: conv_sum_Suc [of x y "Suc n"] conv_Suc conv_sum_Suc [of "x div 2"] algebra_simps)
qed

lemma mult_conv_sum: "(x * y) mod 2 ^ n = conv_sum x y n mod 2 ^ n"
proof (induction n arbitrary: x)
  case (Suc n)
  have "x = of_bool (odd x) + 2 * (x div 2)" by (simp add: mod2_eq_if flip: of_bool_odd_eq_mod_2)
  then have "x * y = (of_bool (odd x) + 2 * (x div 2)) * y" by simp
  then have e: "x * y = (if odd x then y else 0) + 2 * (x div 2 * y)" by (auto simp: algebra_simps)
  have l: "(if odd x then y else 0) mod 2 ^ Suc n
      = (if odd x then take_bit (Suc n) y else 0) mod 2 ^ Suc n"
    by (simp add: take_bit_eq_mod)
  have r: "2 * (x div 2 * y) mod 2 ^ Suc n = 2 * conv_sum (x div 2) y n mod 2 ^ Suc n"
    using arg_cong [OF Suc.IH [of "x div 2"], of "\<lambda>z. 2 * z"] by (simp only: mult_mod_right power_Suc)
  show ?case unfolding e conv_sum_rec by (rule mod_add_cong [OF l r])
qed simp

lemma bit_mult_conv:
  assumes "conv_sum x y n < 2 ^ n"
  shows "bit (x * y) n \<longleftrightarrow> odd (conv x y n)"
proof -
  have "bit (x * y) n \<longleftrightarrow> bit (take_bit (Suc n) (x * y)) n" by (simp add: bit_take_bit_iff)
  also have "\<dots> \<longleftrightarrow> bit (take_bit (Suc n) (conv_sum x y (Suc n))) n"
    by (simp only: take_bit_eq_mod mult_conv_sum)
  also have "\<dots> \<longleftrightarrow> odd (conv_sum x y (Suc n) div 2 ^ n)"
    by (simp only: bit_take_bit_iff lessI simp_thms) (simp add: bit_iff_odd)
  also have "conv_sum x y (Suc n) div 2 ^ n = conv x y n"
    using assms by (simp add: conv_sum_Suc)
  finally show ?thesis .
qed

definition sparse :: "nat \<Rightarrow> nat \<Rightarrow> bool" where
  "sparse a x \<longleftrightarrow> a < 4 \<and> (\<forall>i. bit x i \<longrightarrow> i mod 4 = a)"

lemma sparse_conv_zero:
  assumes "sparse a x" "sparse b y" "n mod 4 \<noteq> (a + b) mod 4"
  shows "conv x y n = 0"
proof -
  have "\<not> (bit x i \<and> bit y (n - i))" if "i \<le> n" for i
  proof
    assume "bit x i \<and> bit y (n - i)"
    then have "i mod 4 = a" "(n - i) mod 4 = b" using assms by (auto simp: sparse_def)
    then have "n mod 4 = (a + b) mod 4"
      using that by (metis le_add_diff_inverse mod_add_eq)
    with assms(3) show False ..
  qed
  then show ?thesis unfolding conv_def by (intro sum.neutral) auto
qed

lemma every_fourth:
  assumes "a < 4"
  shows "(\<Sum>i<4 * k. of_bool (i mod 4 = a) :: nat) = k"
proof (induction k)
  case (Suc k)
  define f :: "nat \<Rightarrow> nat" where "f i = of_bool (i mod 4 = a)" for i
  have "f (4 * k) + f (Suc (4 * k)) + f (Suc (Suc (4 * k))) + f (Suc (Suc (Suc (4 * k)))) = 1"
    using assms by (auto simp: f_def mod_Suc)
  moreover have "(\<Sum>i<Suc (Suc (Suc (Suc (4 * k)))). f i)
      = (\<Sum>i<4 * k. f i) + (f (4 * k) + f (Suc (4 * k)) + f (Suc (Suc (4 * k))) + f (Suc (Suc (Suc (4 * k)))))"
    by simp
  moreover have "(\<Sum>i<4 * k. f i) = k" using Suc.IH by (simp only: f_def)
  moreover have "4 * Suc k = Suc (Suc (Suc (Suc (4 * k))))" by simp
  ultimately have "(\<Sum>i<4 * Suc k. f i) = Suc k" by (simp only:)
  then show ?case by (simp only: f_def)
qed simp

lemma sparse_conv_le:
  assumes "sparse a x" "n < 60"
  shows "conv x y n \<le> 15"
proof -
  have "conv x y n \<le> (\<Sum>i\<le>n. of_bool (i mod 4 = a))"
    unfolding conv_def using assms(1) by (intro sum_mono) (auto simp: sparse_def)
  also have "\<dots> \<le> (\<Sum>i<4 * 15. of_bool (i mod 4 = a))"
    using assms(2) by (intro sum_mono2) auto
  also have "\<dots> = 15" using assms(1) by (intro every_fourth) (simp add: sparse_def)
  finally show ?thesis .
qed

lemma sparse_conv_sum:
  assumes "sparse a x" "sparse b y" "(4 * k + r) < 64" "r = (a + b) mod 4"
  shows "conv_sum x y (4 * k + r) < 2 ^ (4 * k + r)"
  using assms(3)
proof (induction k)
  case 0
  have "conv x y m = 0" if "m < r" for m
    using that assms(4) by (intro sparse_conv_zero [OF assms(1,2)]) auto
  then show ?case by (simp add: conv_sum_def)
next
  case (Suc k)
  define n where "n = 4 * k + r"
  have n: "n < 60" "n mod 4 = r" "4 * Suc k + r = Suc (Suc (Suc (Suc n)))"
    using Suc.prems assms(4) by (auto simp: n_def)
  have "conv x y m = 0" if "m mod 4 \<noteq> r" for m
    using that assms(4) by (intro sparse_conv_zero [OF assms(1,2)]) auto
  moreover have "Suc n mod 4 \<noteq> r" "Suc (Suc n) mod 4 \<noteq> r" "Suc (Suc (Suc n)) mod 4 \<noteq> r"
    using n(2) by (auto simp: mod_Suc split: if_splits)
  ultimately have "conv x y (Suc n) = 0" "conv x y (Suc (Suc n)) = 0" "conv x y (Suc (Suc (Suc n))) = 0"
    by blast+
  then have "conv_sum x y (4 * Suc k + r) = conv_sum x y n + conv x y n * 2 ^ n"
    unfolding n(3) conv_sum_Suc by simp
  also have "\<dots> < 2 ^ n + 15 * 2 ^ n"
    using Suc sparse_conv_le [OF assms(1) n(1), of y] by (intro add_less_le_mono) (auto simp: n_def)
  also have "\<dots> = 2 ^ (4 * Suc k + r)" by (simp add: n_def power_add)
  finally show ?case .
qed

lemma bit_sparse_mult:
  assumes "sparse a x" "sparse b y" "n < 64" "n mod 4 = (a + b) mod 4"
  shows "bit (x * y) n \<longleftrightarrow> odd (conv x y n)"
proof -
  have "n = 4 * (n div 4) + (a + b) mod 4" using assms(4) by (metis mult_div_mod_eq)
  then show ?thesis
    using sparse_conv_sum [OF assms(1,2), of "n div 4" "n mod 4"] assms(3,4)
    by (intro bit_mult_conv) simp
qed

end
