(* ===== verification/Polyval.thy ===== *)
theory Polyval
  imports Clmul Bytes
begin

section \<open>The universal hash function Polyval: \<^verbatim>\<open>ext/polyval\<close>\<close>

text \<open>
  Polyval multiplies in the field of \<open>2\<^sup>1\<^sup>2\<^sup>8\<close> elements. The code has two implementations for a 64-bit
  host: \<^verbatim>\<open>ctmul64.c\<close> multiplies integers with holes between their bits, \<^verbatim>\<open>pclmul.c\<close> uses the
  carry-less multiplication of the processor and adds eight blocks at a time with precomputed powers
  of the key. \<^verbatim>\<open>polyval.c\<close> declares every operation for both and chooses by the variable
  \<open>use_pclmul\<close>, an argument here. A 128-bit value is the pair of its 64-bit halves, which is the
  union of the source. The compiler intrinsics are defined as their manual describes them. A pointer
  to input bytes is the list of the bytes from there; \<open>None\<close> is an access beyond them.
\<close>

subsection \<open>Values and keys\<close>

record pv_u128 =
  pv_lo :: u64
  pv_hi :: u64

record polyval_key_t =
  pvk_h :: pv_u128

record polyval_t =
  pv_key :: polyval_key_t
  pv_y :: pv_u128

definition u128_zero :: pv_u128 where
  "u128_zero = \<lparr>pv_lo = 0, pv_hi = 0\<rparr>"

subsection \<open>\<^verbatim>\<open>ctmul64.c\<close>\<close>

definition bmul64 :: "u64 \<Rightarrow> u64 \<Rightarrow> u64" where
  "bmul64 x y =
     (let x0 = x AND 0x1111111111111111;
          x1 = x AND 0x2222222222222222;
          x2 = x AND 0x4444444444444444;
          x3 = x AND 0x8888888888888888;
          y0 = y AND 0x1111111111111111;
          y1 = y AND 0x2222222222222222;
          y2 = y AND 0x4444444444444444;
          y3 = y AND 0x8888888888888888;
          z0 = (x0 * y0) XOR (x1 * y3) XOR (x2 * y2) XOR (x3 * y1);
          z1 = (x0 * y1) XOR (x1 * y0) XOR (x2 * y3) XOR (x3 * y2);
          z2 = (x0 * y2) XOR (x1 * y1) XOR (x2 * y0) XOR (x3 * y3);
          z3 = (x0 * y3) XOR (x1 * y2) XOR (x2 * y1) XOR (x3 * y0);
          z0 = z0 AND 0x1111111111111111;
          z1 = z1 AND 0x2222222222222222;
          z2 = z2 AND 0x4444444444444444;
          z3 = z3 AND 0x8888888888888888
      in z0 OR z1 OR z2 OR z3)"

definition RMS :: "u64 \<Rightarrow> nat \<Rightarrow> u64 \<Rightarrow> u64" where
  "RMS m s x = push_bit s (x AND m) OR (drop_bit s x AND m)"

definition rev64 :: "u64 \<Rightarrow> u64" where
  "rev64 x =
     (let x = RMS 0x5555555555555555 1 x;
          x = RMS 0x3333333333333333 2 x;
          x = RMS 0x0F0F0F0F0F0F0F0F 4 x;
          x = RMS 0x00FF00FF00FF00FF 8 x;
          x = RMS 0x0000FFFF0000FFFF 16 x
      in push_bit 32 x OR drop_bit 32 x)"

definition pv_mul_y_h_ctmul64 :: "polyval_t \<Rightarrow> polyval_t" where
  "pv_mul_y_h_ctmul64 pv =
     (let y0 = pv_lo (pv_y pv);
          y1 = pv_hi (pv_y pv);
          h0 = pv_lo (pvk_h (pv_key pv));
          h1 = pv_hi (pvk_h (pv_key pv));
          h0r = rev64 h0;
          h1r = rev64 h1;
          h2 = h0 XOR h1;
          h2r = h0r XOR h1r;
          y0r = rev64 y0;
          y1r = rev64 y1;
          y2 = y0 XOR y1;
          y2r = y0r XOR y1r;
          z0 = bmul64 y0 h0;
          z1 = bmul64 y1 h1;
          z2 = bmul64 y2 h2;
          z0h = bmul64 y0r h0r;
          z1h = bmul64 y1r h1r;
          z2h = bmul64 y2r h2r;
          z2 = z2 XOR (z0 XOR z1);
          z2h = z2h XOR (z0h XOR z1h);
          z0h = drop_bit 1 (rev64 z0h);
          z1h = drop_bit 1 (rev64 z1h);
          z2h = drop_bit 1 (rev64 z2h);
          v0 = z0;
          v1 = z0h XOR z2;
          v2 = z1 XOR z2h;
          v3 = z1h;
          v2 = v2 XOR (v0 XOR drop_bit 1 v0 XOR drop_bit 2 v0 XOR drop_bit 7 v0);
          v1 = v1 XOR (push_bit 63 v0 XOR push_bit 62 v0 XOR push_bit 57 v0);
          v3 = v3 XOR (v1 XOR drop_bit 1 v1 XOR drop_bit 2 v1 XOR drop_bit 7 v1);
          v2 = v2 XOR (push_bit 63 v1 XOR push_bit 62 v1 XOR push_bit 57 v1)
      in pv\<lparr>pv_y := \<lparr>pv_lo = v2, pv_hi = v3\<rparr>\<rparr>)"

subsection \<open>\<^verbatim>\<open>pclmul.c\<close>\<close>

text \<open>The vector instructions that the code uses, on the two 64-bit lanes of a register.\<close>

definition mm_xor_si128 :: "pv_u128 \<Rightarrow> pv_u128 \<Rightarrow> pv_u128" where
  "mm_xor_si128 a b = \<lparr>pv_lo = pv_lo a XOR pv_lo b, pv_hi = pv_hi a XOR pv_hi b\<rparr>"

definition mm_srli_epi64 :: "pv_u128 \<Rightarrow> nat \<Rightarrow> pv_u128" where
  "mm_srli_epi64 a k = \<lparr>pv_lo = drop_bit k (pv_lo a), pv_hi = drop_bit k (pv_hi a)\<rparr>"

definition mm_slli_epi64 :: "pv_u128 \<Rightarrow> nat \<Rightarrow> pv_u128" where
  "mm_slli_epi64 a k = \<lparr>pv_lo = push_bit k (pv_lo a), pv_hi = push_bit k (pv_hi a)\<rparr>"

definition mm_unpacklo_epi64 :: "pv_u128 \<Rightarrow> pv_u128 \<Rightarrow> pv_u128" where
  "mm_unpacklo_epi64 a b = \<lparr>pv_lo = pv_lo a, pv_hi = pv_lo b\<rparr>"

definition lane32 :: "pv_u128 \<Rightarrow> nat \<Rightarrow> u64" where
  "lane32 a i = (let w = (if i < 2 then pv_lo a else pv_hi a) in take_bit 32 (drop_bit (32 * (i mod 2)) w))"

definition mm_shuffle_epi32 :: "pv_u128 \<Rightarrow> nat \<Rightarrow> pv_u128" where
  "mm_shuffle_epi32 a imm =
     \<lparr>pv_lo = lane32 a (imm mod 4) OR push_bit 32 (lane32 a (imm div 4 mod 4)),
      pv_hi = lane32 a (imm div 16 mod 4) OR push_bit 32 (lane32 a (imm div 64 mod 4))\<rparr>"

definition clmul_words :: "u64 \<Rightarrow> u64 \<Rightarrow> pv_u128" where
  "clmul_words x y =
     (let p = clmul (unat x) (unat y) in \<lparr>pv_lo = word_of_nat p, pv_hi = word_of_nat (p div 2 ^ 64)\<rparr>)"

definition pclmulqdq00 :: "pv_u128 \<Rightarrow> pv_u128 \<Rightarrow> pv_u128" where
  "pclmulqdq00 x y = clmul_words (pv_lo x) (pv_lo y)"

definition pclmulqdq11 :: "pv_u128 \<Rightarrow> pv_u128 \<Rightarrow> pv_u128" where
  "pclmulqdq11 x y = clmul_words (pv_hi x) (pv_hi y)"

definition BK :: "pv_u128 \<Rightarrow> pv_u128" where
  "BK kw = mm_xor_si128 kw (mm_shuffle_epi32 kw 0x0E)"

definition REDUCE_F128 ::
    "pv_u128 \<Rightarrow> pv_u128 \<Rightarrow> pv_u128 \<Rightarrow> pv_u128 \<Rightarrow> pv_u128 \<times> pv_u128" where
  "REDUCE_F128 x0 x1 x2 x3 =
     (let x1 = mm_xor_si128 x1 (mm_xor_si128 (mm_xor_si128 x3 (mm_srli_epi64 x3 1))
                                             (mm_xor_si128 (mm_srli_epi64 x3 2) (mm_srli_epi64 x3 7)));
          x2 = mm_xor_si128 (mm_xor_si128 x2 (mm_slli_epi64 x3 63))
                            (mm_xor_si128 (mm_slli_epi64 x3 62) (mm_slli_epi64 x3 57));
          x0 = mm_xor_si128 x0 (mm_xor_si128 (mm_xor_si128 x2 (mm_srli_epi64 x2 1))
                                             (mm_xor_si128 (mm_srli_epi64 x2 2) (mm_srli_epi64 x2 7)));
          x1 = mm_xor_si128 (mm_xor_si128 x1 (mm_slli_epi64 x2 63))
                            (mm_xor_si128 (mm_slli_epi64 x2 62) (mm_slli_epi64 x2 57))
      in (x0, x1))"

definition PV_BLOCK_STRIDE :: nat where
  "PV_BLOCK_STRIDE = 8"

text \<open>
  The end of all three functions of \<^verbatim>\<open>pclmul.c\<close>: from the sums of the products of the high halves,
  of the sums of the halves and of the low halves to the reduced result.
\<close>

definition pclmul_finish :: "pv_u128 \<Rightarrow> pv_u128 \<Rightarrow> pv_u128 \<Rightarrow> pv_u128" where
  "pclmul_finish t1 t2 t3 =
     (let t2 = mm_xor_si128 t2 (mm_xor_si128 t1 t3);
          t0 = mm_shuffle_epi32 t1 0x0E;
          t1 = mm_xor_si128 t1 (mm_shuffle_epi32 t2 0x0E);
          t2 = mm_xor_si128 t2 (mm_shuffle_epi32 t3 0x0E);
          (t0, t1) = REDUCE_F128 t0 t1 t2 t3
      in mm_unpacklo_epi64 t1 t0)"

fun expand_key_loop :: "pv_u128 \<Rightarrow> pv_u128 \<Rightarrow> nat \<Rightarrow> pv_u128 list \<Rightarrow> pv_u128 list" where
  "expand_key_loop h1w lastw 0 k = k"
| "expand_key_loop h1w lastw (Suc i) k =
     (let h1x = BK h1w;
          lastx = BK lastw;
          t1 = pclmulqdq11 lastw h1w;
          t3 = pclmulqdq00 lastw h1w;
          t2 = pclmulqdq00 lastx h1x;
          lastw = pclmul_finish t1 t2 t3
      in expand_key_loop h1w lastw i (lastw # k))"

definition expand_key_pclmul :: "polyval_t \<Rightarrow> pv_u128 list" where
  "expand_key_pclmul pv =
     (let h1w = pvk_h (pv_key pv) in expand_key_loop h1w h1w (PV_BLOCK_STRIDE - 1) [])"

text \<open>The load of an unaligned value from memory, and its store.\<close>

definition u128_from_bytes :: "byte list \<Rightarrow> pv_u128 option" where
  "u128_from_bytes bytes =
     do {
       lo \<leftarrow> arr_slice bytes 0 8;
       hi \<leftarrow> arr_slice bytes 8 8;
       Some \<lparr>pv_lo = of_bytes lo, pv_hi = of_bytes hi\<rparr>
     }"

definition u128_to_bytes :: "pv_u128 \<Rightarrow> byte list" where
  "u128_to_bytes val = mem_bytes 8 (pv_lo val) @ mem_bytes 8 (pv_hi val)"

fun add_multiple_loop ::
    "polyval_t \<Rightarrow> pv_u128 list \<Rightarrow> byte list \<Rightarrow> nat \<Rightarrow> nat \<Rightarrow> pv_u128 \<times> pv_u128 \<times> pv_u128
     \<Rightarrow> (pv_u128 \<times> pv_u128 \<times> pv_u128) option" where
  "add_multiple_loop pv k inp i 0 (t1, t2, t3) = Some (t1, t2, t3)"
| "add_multiple_loop pv k inp i (Suc m) (t1, t2, t3) =
     do {
       aw \<leftarrow> u128_from_bytes inp;
       let aw = (if i = 0 then mm_xor_si128 aw (pv_y pv) else aw);
       hw \<leftarrow> (if i = PV_BLOCK_STRIDE - 1 then Some (pvk_h (pv_key pv)) else arr_get k i);
       let ax = BK aw;
       let hx = BK hw;
       let t1 = mm_xor_si128 t1 (pclmulqdq11 aw hw);
       let t3 = mm_xor_si128 t3 (pclmulqdq00 aw hw);
       let t2 = mm_xor_si128 t2 (pclmulqdq00 ax hx);
       add_multiple_loop pv k (drop 16 inp) (i + 1) m (t1, t2, t3)
     }"

definition pv_add_multiple_pclmul :: "polyval_t \<Rightarrow> byte list \<Rightarrow> pv_u128 list \<Rightarrow> polyval_t option" where
  "pv_add_multiple_pclmul pv inp expanded =
     do {
       (t1, t2, t3) \<leftarrow>
         add_multiple_loop pv expanded inp 0 PV_BLOCK_STRIDE (u128_zero, u128_zero, u128_zero);
       Some (pv\<lparr>pv_y := pclmul_finish t1 t2 t3\<rparr>)
     }"

definition pv_mul_y_h_pclmul :: "polyval_t \<Rightarrow> polyval_t" where
  "pv_mul_y_h_pclmul pv =
     (let h1w = pvk_h (pv_key pv);
          h1x = BK h1w;
          aw = pv_y pv;
          ax = BK aw;
          t1 = pclmulqdq11 aw h1w;
          t3 = pclmulqdq00 aw h1w;
          t2 = pclmulqdq00 ax h1x
      in pv\<lparr>pv_y := pclmul_finish t1 t2 t3\<rparr>)"

subsection \<open>\<^verbatim>\<open>polyval.c\<close>\<close>

definition pv_xor_y :: "polyval_t \<Rightarrow> pv_u128 \<Rightarrow> polyval_t" where
  "pv_xor_y pv v = pv\<lparr>pv_y := \<lparr>pv_lo = pv_lo (pv_y pv) XOR pv_lo v, pv_hi = pv_hi (pv_y pv) XOR pv_hi v\<rparr>\<rparr>"

definition polyval_key_init :: "byte list \<Rightarrow> polyval_key_t option" where
  "polyval_key_init key =
     do {
       h \<leftarrow> u128_from_bytes key;
       Some \<lparr>pvk_h = h\<rparr>
     }"

definition polyval_init_from_key :: "polyval_key_t \<Rightarrow> polyval_t" where
  "polyval_init_from_key key = \<lparr>pv_key = key, pv_y = u128_zero\<rparr>"

definition polyval_init :: "byte list \<Rightarrow> polyval_t option" where
  "polyval_init key =
     do {
       k \<leftarrow> polyval_key_init key;
       Some \<lparr>pv_key = k, pv_y = u128_zero\<rparr>
     }"

definition polyval_add_block :: "bool \<Rightarrow> polyval_t \<Rightarrow> byte list \<Rightarrow> polyval_t option" where
  "polyval_add_block use_pclmul pv block =
     do {
       b \<leftarrow> u128_from_bytes block;
       let pv = pv_xor_y pv b;
       Some (if use_pclmul then pv_mul_y_h_pclmul pv else pv_mul_y_h_ctmul64 pv)
     }"

text \<open>The two loops of the functions that add many bytes; the first one takes strides of eight blocks.\<close>

function add_strides ::
    "bool \<Rightarrow> pv_u128 list \<Rightarrow> polyval_t \<Rightarrow> byte list \<Rightarrow> nat \<Rightarrow> (polyval_t \<times> byte list \<times> nat) option" where
  "add_strides strict expanded pv data n =
     (if (if strict then PV_BLOCK_STRIDE * 16 < n else PV_BLOCK_STRIDE * 16 \<le> n) then
        do {
          pv \<leftarrow> pv_add_multiple_pclmul pv data expanded;
          add_strides strict expanded pv (drop (PV_BLOCK_STRIDE * 16) data) (n - PV_BLOCK_STRIDE * 16)
        }
      else Some (pv, data, n))"
  by auto
termination
  by (relation "measure (\<lambda>(strict, expanded, pv, data, n). n)") (auto simp: PV_BLOCK_STRIDE_def split: if_splits)

function add_blocks :: "bool \<Rightarrow> polyval_t \<Rightarrow> byte list \<Rightarrow> nat \<Rightarrow> polyval_t option" where
  "add_blocks use_pclmul pv data n =
     (if 16 < n then
        do {
          pv \<leftarrow> polyval_add_block use_pclmul pv data;
          add_blocks use_pclmul pv (drop 16 data) (n - 16)
        }
      else if n \<noteq> 0 then
        do {
          rest \<leftarrow> arr_slice data 0 n;
          block \<leftarrow> arr_blit (replicate 16 0) 0 rest;
          polyval_add_block use_pclmul pv block
        }
      else Some pv)"
  by auto
termination
  by (relation "measure (\<lambda>(use_pclmul, pv, data, n). n)") auto

declare add_strides.simps [simp del] add_blocks.simps [simp del]

definition polyval_add_zpad :: "bool \<Rightarrow> polyval_t \<Rightarrow> byte list \<Rightarrow> nat \<Rightarrow> polyval_t option" where
  "polyval_add_zpad use_pclmul pv data n =
     do {
       (pv, data, n) \<leftarrow>
         (if use_pclmul \<and> PV_BLOCK_STRIDE * 16 \<le> n then
            add_strides False (expand_key_pclmul pv) pv data n
          else Some (pv, data, n));
       add_blocks use_pclmul pv data n
     }"

definition polyval_get_tag :: "polyval_t \<Rightarrow> byte list" where
  "polyval_get_tag pv = u128_to_bytes (pv_y pv)"

definition polyval_reset :: "polyval_t \<Rightarrow> polyval_t" where
  "polyval_reset pv = pv\<lparr>pv_y := u128_zero\<rparr>"

text \<open>
  The variants with an expanded key. Without the instruction the expanded key is never written and
  never read: it is the empty list then.
\<close>

record polyvalx_t =
  pvx_pv :: polyval_t
  pvx_expanded :: "pv_u128 list"

definition polyvalx_init :: "bool \<Rightarrow> byte list \<Rightarrow> polyvalx_t option" where
  "polyvalx_init use_pclmul key =
     do {
       pv \<leftarrow> polyval_init key;
       Some \<lparr>pvx_pv = pv, pvx_expanded = (if use_pclmul then expand_key_pclmul pv else [])\<rparr>
     }"

definition polyvalx_init_from_key :: "bool \<Rightarrow> polyval_key_t \<Rightarrow> polyvalx_t" where
  "polyvalx_init_from_key use_pclmul key =
     (let pv = polyval_init_from_key key
      in \<lparr>pvx_pv = pv, pvx_expanded = (if use_pclmul then expand_key_pclmul pv else [])\<rparr>)"

definition polyvalx_add_block :: "bool \<Rightarrow> polyvalx_t \<Rightarrow> byte list \<Rightarrow> polyvalx_t option" where
  "polyvalx_add_block use_pclmul pvx block =
     do {
       pv \<leftarrow> polyval_add_block use_pclmul (pvx_pv pvx) block;
       Some (pvx\<lparr>pvx_pv := pv\<rparr>)
     }"

definition polyvalx_add_zpad :: "bool \<Rightarrow> polyvalx_t \<Rightarrow> byte list \<Rightarrow> nat \<Rightarrow> polyvalx_t option" where
  "polyvalx_add_zpad use_pclmul pvx data n =
     do {
       (pv, data, n) \<leftarrow>
         (if use_pclmul \<and> PV_BLOCK_STRIDE * 16 \<le> n then
            add_strides True (pvx_expanded pvx) (pvx_pv pvx) data n
          else Some (pvx_pv pvx, data, n));
       pv \<leftarrow> add_blocks use_pclmul pv data n;
       Some (pvx\<lparr>pvx_pv := pv\<rparr>)
     }"

definition polyvalx_get_tag :: "polyvalx_t \<Rightarrow> byte list" where
  "polyvalx_get_tag pvx = polyval_get_tag (pvx_pv pvx)"

definition polyvalx_reset :: "polyvalx_t \<Rightarrow> polyvalx_t" where
  "polyvalx_reset pvx = pvx\<lparr>pvx_pv := polyval_reset (pvx_pv pvx)\<rparr>"

subsection \<open>Words as polynomials\<close>

lemma unat_xor: "unat (a XOR b) = unat a XOR unat (b :: 'w::len word)"
  by (rule bit_eqI) (auto simp: bit_simps)

lemma unat_drop: "unat (drop_bit k a) = unat (a :: 'w::len word) div 2 ^ k"
proof -
  have "unat (drop_bit k a) = drop_bit k (unat a)"
    by (rule bit_eqI) (auto simp: bit_simps dest: bit_imp_le_length)
  then show ?thesis by (simp add: drop_bit_eq_div)
qed

lemma unat_push: "unat (push_bit k a) = take_bit (LENGTH('w)) (2 ^ k * unat (a :: 'w::len word))"
proof -
  have "unat (push_bit k a) = take_bit (LENGTH('w)) (push_bit k (unat a))"
    by (rule bit_eqI) (auto simp: bit_simps dest: bit_imp_le_length)
  then show ?thesis by (simp add: push_bit_eq_mult mult.commute)
qed

lemma unat_less64: "unat (a :: u64) < 2 ^ 64"
  using unsigned_less [where 'a = nat, of a] by simp

lemma bit_unat: "bit (unat a) n \<longleftrightarrow> bit (a :: 'w::len word) n"
  by (auto simp: bit_simps dest: bit_imp_le_length)

lemma bit_beyond64: "64 \<le> n \<Longrightarrow> \<not> bit (a :: u64) n"
  using bit_imp_le_length [of a n] by auto

subsubsection \<open>Reversal\<close>

text \<open>
  A step exchanges the halves of every group of \<open>2 * s\<close> bits; its mask has the bits of the lower
  halves.
\<close>

definition lower_half :: "u64 \<Rightarrow> nat \<Rightarrow> bool" where
  "lower_half m s \<longleftrightarrow> list_all (\<lambda>n. bit m n \<longleftrightarrow> even (n div s)) [0..<64]"

lemma lower_halves:
  "lower_half 0x5555555555555555 1" "lower_half 0x3333333333333333 2" "lower_half 0x0F0F0F0F0F0F0F0F 4"
  "lower_half 0x00FF00FF00FF00FF 8" "lower_half 0x0000FFFF0000FFFF 16"
  unfolding lower_half_def by code_simp+

lemma lower_halfD: "lower_half m s \<Longrightarrow> n < 64 \<Longrightarrow> bit m n \<longleftrightarrow> even (n div s)"
  by (auto simp: lower_half_def list_all_iff)

definition swap_place :: "nat \<Rightarrow> nat \<Rightarrow> nat" where
  "swap_place s n = (if even (n div s) then n + s else n - s)"

lemma bit_RMS:
  assumes "lower_half m s" "0 < s" "n < 64"
  shows "bit (RMS m s x) n \<longleftrightarrow> bit x (swap_place s n)"
proof -
  have shift: "even ((n - s) div s) \<longleftrightarrow> odd (n div s)" if "s \<le> n"
    using that assms(2) by (simp add: le_div_geq)
  have "odd (n div s) \<Longrightarrow> s \<le> n" by (rule ccontr) simp
  moreover have "s \<le> n \<Longrightarrow> bit m (n - s) \<longleftrightarrow> odd (n div s)"
    using lower_halfD [OF assms(1), of "n - s"] shift assms(3) by simp
  ultimately show ?thesis
    using lower_halfD [OF assms(1,3)] assms(3)
    by (auto simp: RMS_def swap_place_def bit_or_iff bit_and_iff bit_push_bit_iff bit_drop_bit_eq add.commute)
qed

lemma swap_place_xor: "swap_place (2 ^ k) n = n XOR 2 ^ k"
proof -
  have add: "m + 2 ^ k = m XOR 2 ^ k" if "\<not> bit m k" for m :: nat
    using that by (intro disjunctive_add_eq_xor bit_eqI) (auto simp: bit_simps)
  show ?thesis
  proof (cases "bit n k")
    case False
    then show ?thesis using add [of n] by (simp add: swap_place_def bit_iff_odd)
  next
    case True
    have "\<not> bit (n XOR 2 ^ k) k" using True by (simp add: bit_simps)
    from add [OF this] have "n = (n XOR 2 ^ k) + 2 ^ k" by (simp add: xor.assoc)
    then show ?thesis using True by (simp add: swap_place_def bit_iff_odd)
  qed
qed

lemma complement_63:
  assumes "n < (64 :: nat)"
  shows "n XOR 63 = 63 - n"
proof -
  have m: "(63 :: nat) = mask 6" by (simp add: mask_eq_exp_minus_1)
  have "i < 6" if "bit n i" for i using bit_beyond [of n 6 i] assms that by force
  then have "n + (63 XOR n) = n XOR (63 XOR n)"
    unfolding m by (intro disjunctive_add_eq_xor bit_eqI) (auto simp: bit_simps)
  also have "\<dots> = 63" by (metis xor.commute xor_cancel)
  finally show ?thesis by (simp add: xor.commute)
qed

lemmas swap_places = swap_place_xor [of 0] swap_place_xor [of 1] swap_place_xor [of 2] swap_place_xor [of 3]
  swap_place_xor [of 4] swap_place_xor [of 5]

lemma bit_rev64: "bit (rev64 x) n \<longleftrightarrow> n < 64 \<and> bit x (63 - n)"
proof (cases "n < 64")
  case True
  define y where "y = RMS 0x0000FFFF0000FFFF 16 (RMS 0x00FF00FF00FF00FF 8 (RMS 0x0F0F0F0F0F0F0F0F 4
      (RMS 0x3333333333333333 2 (RMS 0x5555555555555555 1 x))))"
  have less: "m XOR k < 64" if "m < 64" "k < 64" for m k :: nat
    using xor_less_power [of m 6 k] that by simp
  have "rev64 x = push_bit 32 y OR drop_bit 32 y" by (simp only: rev64_def y_def Let_def)
  moreover have "even (n div 32) \<longleftrightarrow> n < 32"
    using True by (cases "n < 32") (simp_all add: le_div_geq)
  ultimately have "bit (rev64 x) n \<longleftrightarrow> bit y (swap_place 32 n)"
    using True bit_beyond64 [of "n + 32" y]
    by (auto simp: swap_place_def bit_or_iff bit_push_bit_iff bit_drop_bit_eq add.commute)
  also have "swap_place 32 n = n XOR 32" using swap_places by simp
  also have "bit y (n XOR 32) \<longleftrightarrow> bit x (n XOR 63)"
    unfolding y_def using True lower_halves swap_places
    by (simp add: bit_RMS less xor.assoc)
  finally show ?thesis using True by (simp add: complement_63)
next
  case False
  then show ?thesis using bit_beyond64 [of n "rev64 x"] by simp
qed

lemma rev64_xor: "rev64 (a XOR b) = rev64 a XOR rev64 b"
  by (rule bit_eqI) (auto simp: bit_rev64 bit_xor_iff)

subsubsection \<open>Integer products with holes\<close>

definition every_fourth_bit :: "u64 \<Rightarrow> nat \<Rightarrow> bool" where
  "every_fourth_bit m a \<longleftrightarrow> list_all (\<lambda>n. bit m n \<longleftrightarrow> n mod 4 = a) [0..<64]"

lemma fourth_masks:
  "every_fourth_bit 0x1111111111111111 0" "every_fourth_bit 0x2222222222222222 1"
  "every_fourth_bit 0x4444444444444444 2" "every_fourth_bit 0x8888888888888888 3"
  unfolding every_fourth_bit_def by code_simp+

lemma every_fourth_bitD: "every_fourth_bit m a \<Longrightarrow> n < 64 \<Longrightarrow> bit m n \<longleftrightarrow> n mod 4 = a"
  by (auto simp: every_fourth_bit_def list_all_iff)

lemma bit_masked: "every_fourth_bit m a \<Longrightarrow> bit (x AND m) n \<longleftrightarrow> bit x n \<and> n mod 4 = a"
  using every_fourth_bitD [of m a n] bit_beyond64 [of n x] by (cases "n < 64") (auto simp: bit_and_iff)

lemma sparse_masked: "every_fourth_bit m a \<Longrightarrow> a < 4 \<Longrightarrow> sparse a (unat (x AND m))"
  by (simp add: sparse_def bit_unat bit_masked)

lemma bit_word_mult:
  assumes "n < 64"
  shows "bit (x * y :: u64) n \<longleftrightarrow> bit (unat x * unat y) n"
proof -
  have "unat (x * y) = take_bit 64 (unat x * unat y)"
    by (simp add: unat_word_ariths take_bit_eq_mod)
  then have "bit (unat (x * y)) n \<longleftrightarrow> bit (unat x * unat y) n"
    using assms by (simp add: bit_take_bit_iff)
  then show ?thesis by (simp add: bit_unat)
qed

lemma bit_masked_mult:
  assumes "every_fourth_bit m a" "every_fourth_bit m' b" "a < 4" "b < 4" "n < 64" "n mod 4 = (a + b) mod 4"
  shows "bit ((x AND m) * (y AND m')) n \<longleftrightarrow> bit (clmul (unat (x AND m)) (unat (y AND m'))) n"
  unfolding bit_word_mult [OF assms(5)] bit_clmul
  using assms by (intro bit_sparse_mult [of a _ b] sparse_masked)

lemma bit_masked_clmul:
  assumes "every_fourth_bit m a" "every_fourth_bit m' b" "a < 4" "b < 4" "n mod 4 \<noteq> (a + b) mod 4"
  shows "\<not> bit (clmul (unat (x AND m)) (unat (y AND m'))) n"
  unfolding bit_clmul
  using sparse_conv_zero [of a "unat (x AND m)" b "unat (y AND m')" n] assms by (simp add: sparse_masked)

lemma masked_parts:
  "x = (x AND 0x1111111111111111) XOR (x AND 0x2222222222222222) XOR
       (x AND 0x4444444444444444) XOR (x AND 0x8888888888888888)" for x :: u64
proof (rule bit_eqI)
  fix n :: nat
  have "n mod 4 = 0 \<or> n mod 4 = 1 \<or> n mod 4 = 2 \<or> n mod 4 = 3" by auto
  then show "bit x n \<longleftrightarrow> bit ((x AND 0x1111111111111111) XOR (x AND 0x2222222222222222) XOR
       (x AND 0x4444444444444444) XOR (x AND 0x8888888888888888)) n"
    unfolding bit_xor_iff fourth_masks [THEN bit_masked] by auto
qed

lemmas fourth_mult =
  fourth_masks [THEN bit_masked_mult [OF fourth_masks(1)]] fourth_masks [THEN bit_masked_mult [OF fourth_masks(2)]]
  fourth_masks [THEN bit_masked_mult [OF fourth_masks(3)]] fourth_masks [THEN bit_masked_mult [OF fourth_masks(4)]]

lemmas fourth_clmul =
  fourth_masks [THEN bit_masked_clmul [OF fourth_masks(1)]] fourth_masks [THEN bit_masked_clmul [OF fourth_masks(2)]]
  fourth_masks [THEN bit_masked_clmul [OF fourth_masks(3)]] fourth_masks [THEN bit_masked_clmul [OF fourth_masks(4)]]

lemma bit_bmul64:
  assumes "n < 64"
  shows "bit (bmul64 x y) n \<longleftrightarrow> bit (clmul (unat x) (unat y)) n"
proof -
  have "n mod 4 = 0 \<or> n mod 4 = 1 \<or> n mod 4 = 2 \<or> n mod 4 = 3" by auto
  moreover have "bit (clmul (unat x) (unat y)) n \<longleftrightarrow> bit (clmul
      (unat (x AND 0x1111111111111111) XOR unat (x AND 0x2222222222222222) XOR
       unat (x AND 0x4444444444444444) XOR unat (x AND 0x8888888888888888))
      (unat (y AND 0x1111111111111111) XOR unat (y AND 0x2222222222222222) XOR
       unat (y AND 0x4444444444444444) XOR unat (y AND 0x8888888888888888))) n"
    by (subst masked_parts [of x], subst masked_parts [of y]) (simp only: unat_xor)
  ultimately show ?thesis
    unfolding bmul64_def Let_def bit_or_iff fourth_masks [THEN bit_masked] clmul_xor_left clmul_xor_right
      bit_xor_iff
    by (elim disjE; simp add: assms fourth_mult fourth_clmul; argo)
qed

lemma unat_bmul64: "unat (bmul64 x y) = take_bit 64 (clmul (unat x) (unat y))"
proof (rule bit_eqI)
  fix n
  show "bit (unat (bmul64 x y)) n \<longleftrightarrow> bit (take_bit 64 (clmul (unat x) (unat y))) n"
    by (cases "n < 64") (simp_all add: bit_unat bit_bmul64 bit_take_bit_iff bit_beyond64)
qed

text \<open>The upper half of a product is read off the product of the reversed factors.\<close>

lemma conv_rev:
  assumes "n < 63"
  shows "conv (unat (rev64 x)) (unat (rev64 y)) (62 - n) = conv (unat x) (unat y) (64 + n)"
proof -
  have "conv (unat x) (unat y) (64 + n)
        = (\<Sum>i\<in>{n + 1..63}. of_bool (bit x i \<and> bit y (64 + n - i)))"
    unfolding conv_def bit_unat
  proof (rule sum.mono_neutral_right)
    have "i < 64 \<and> 64 + n - i < 64" if "bit x i" "bit y (64 + n - i)" for i
      using that by (meson bit_beyond64 not_le_imp_less)
    then show "\<forall>i\<in>{..64 + n} - {n + 1..63}. of_bool (bit x i \<and> bit y (64 + n - i)) = (0 :: nat)"
      by fastforce
  qed (use assms in auto)
  also have "\<dots> = conv (unat (rev64 x)) (unat (rev64 y)) (62 - n)"
    unfolding conv_def bit_unat bit_rev64
    by (rule sum.reindex_bij_witness [of _ "\<lambda>i. 63 - i" "\<lambda>i. 63 - i"]) (use assms in \<open>auto simp: algebra_simps\<close>)
  finally show ?thesis ..
qed

lemma unat_bmul64_high:
  "unat (drop_bit 1 (rev64 (bmul64 (rev64 x) (rev64 y)))) = clmul (unat x) (unat y) div 2 ^ 64"
proof (rule bit_eqI)
  fix n
  have high: "bit (clmul (unat x) (unat y) div 2 ^ 64) n \<longleftrightarrow> bit (clmul (unat x) (unat y)) (64 + n)"
    using bit_drop_bit_eq [of 64 "clmul (unat x) (unat y)"] by (simp add: drop_bit_eq_div)
  show "bit (unat (drop_bit 1 (rev64 (bmul64 (rev64 x) (rev64 y))))) n
      \<longleftrightarrow> bit (clmul (unat x) (unat y) div 2 ^ 64) n"
  proof (cases "n < 63")
    case True
    then show ?thesis
      unfolding high by (simp add: bit_unat bit_drop_bit_eq bit_rev64 bit_bmul64 bit_clmul conv_rev)
  next
    case False
    have "clmul (unat x) (unat y) < 2 ^ (64 + 64)"
      by (intro clmul_less unat_less64)
    moreover have "conv (unat x) (unat y) 127 = 0"
      unfolding conv_def bit_unat by (intro sum.neutral) (auto dest!: bit_imp_le_length)
    ultimately have "\<not> bit (clmul (unat x) (unat y)) (64 + n)"
      using False bit_beyond [of "clmul (unat x) (unat y)" 128 "64 + n"]
      by (cases "n = 63") (simp_all add: bit_clmul)
    then show ?thesis
      using False unfolding high by (simp add: bit_unat bit_drop_bit_eq bit_rev64)
  qed
qed

subsection \<open>Multiplication in the field\<close>

text \<open>
  The modulus, and the polynomial that a 128-bit value stands for. The product of Polyval is the
  product of the polynomials divided by the 128th power of the indeterminate.
\<close>

definition polyval_poly :: nat where
  "polyval_poly = 2 ^ 128 XOR 2 ^ 127 XOR 2 ^ 126 XOR 2 ^ 121 XOR 1"

definition u128_val :: "pv_u128 \<Rightarrow> nat" where
  "u128_val u = unat (pv_lo u) XOR 2 ^ 64 * unat (pv_hi u)"

definition val256 :: "u64 \<Rightarrow> u64 \<Rightarrow> u64 \<Rightarrow> u64 \<Rightarrow> nat" where
  "val256 v0 v1 v2 v3 = unat v0 XOR 2 ^ 64 * unat v1 XOR 2 ^ 128 * unat v2 XOR 2 ^ 192 * unat v3"

lemma u128_val_less: "u128_val u < 2 ^ 128"
proof -
  have "unat (pv_lo u) < 2 ^ 128"
    by (rule less_le_trans [OF unat_less64]) simp
  moreover have "2 ^ 64 * unat (pv_hi u) < 2 ^ 64 * 2 ^ 64"
    using unat_less64 [of "pv_hi u"] by simp
  ultimately show ?thesis
    unfolding u128_val_def by (intro xor_less_power) (simp_all only: power_add [symmetric], simp_all)
qed

lemma split64: "z = take_bit 64 z XOR 2 ^ 64 * (z div 2 ^ 64)" for z :: nat
proof -
  have "z = take_bit 64 z XOR push_bit 64 (drop_bit 64 z)"
    by (rule bit_eqI) (auto simp: bit_simps)
  then show ?thesis by (simp add: push_bit_eq_mult drop_bit_eq_div mult.commute)
qed

lemma u128_val_inject: "u128_val u = u128_val v \<Longrightarrow> u = v"
proof -
  have parts: "take_bit 64 (u128_val u) = unat (pv_lo u)" "drop_bit 64 (u128_val u) = unat (pv_hi u)" for u
  proof -
    have "2 ^ 64 * unat (pv_hi u) = push_bit 64 (unat (pv_hi u))" by (simp add: push_bit_eq_mult)
    then show "take_bit 64 (u128_val u) = unat (pv_lo u)" "drop_bit 64 (u128_val u) = unat (pv_hi u)"
      by (auto simp: u128_val_def bit_eq_iff bit_simps dest: bit_imp_le_length)
  qed
  assume "u128_val u = u128_val v"
  then have "unat (pv_lo u) = unat (pv_lo v)" "unat (pv_hi u) = unat (pv_hi v)"
    by (metis parts)+
  then show "u = v" by (intro pv_u128.equality) (simp_all add: word_unat_eq_iff)
qed

lemma karatsuba:
  "clmul (y0 XOR 2 ^ 64 * y1) (h0 XOR 2 ^ 64 * h1) =
     clmul y0 h0 XOR 2 ^ 64 * (clmul (y0 XOR y1) (h0 XOR h1) XOR (clmul y0 h0 XOR clmul y1 h1))
     XOR 2 ^ 128 * clmul y1 h1"
proof -
  have "2 ^ 64 * (2 ^ 64 * z) = 2 ^ 128 * z" for z :: nat by simp
  then show ?thesis
    by (simp only: clmul_xor_left clmul_xor_right clmul_power_left clmul_power_right power_xor)
      (simp only: xor.assoc xor.commute xor.left_commute xor_cancel xor_self_eq xor.right_neutral xor.left_neutral)
qed

text \<open>The four words of the unreduced product.\<close>

lemma product_words:
  fixes y h :: pv_u128
  defines "z0 \<equiv> clmul (unat (pv_lo y)) (unat (pv_lo h))"
    and "z1 \<equiv> clmul (unat (pv_hi y)) (unat (pv_hi h))"
    and "z2 \<equiv> clmul (unat (pv_lo y XOR pv_hi y)) (unat (pv_lo h XOR pv_hi h))"
  assumes "unat v0 = take_bit 64 z0"
    and "unat v1 = z0 div 2 ^ 64 XOR take_bit 64 (z2 XOR (z0 XOR z1))"
    and "unat v2 = take_bit 64 z1 XOR (z2 XOR (z0 XOR z1)) div 2 ^ 64"
    and "unat v3 = z1 div 2 ^ 64"
  shows "val256 v0 v1 v2 v3 = clmul (u128_val y) (u128_val h)"
proof -
  have "clmul (u128_val y) (u128_val h) = z0 XOR 2 ^ 64 * (z2 XOR (z0 XOR z1)) XOR 2 ^ 128 * z1"
    unfolding u128_val_def karatsuba z0_def z1_def z2_def unat_xor ..
  also have "\<dots> = (take_bit 64 z0 XOR 2 ^ 64 * (z0 div 2 ^ 64))
      XOR 2 ^ 64 * (take_bit 64 (z2 XOR (z0 XOR z1)) XOR 2 ^ 64 * ((z2 XOR (z0 XOR z1)) div 2 ^ 64))
      XOR 2 ^ 128 * (take_bit 64 z1 XOR 2 ^ 64 * (z1 div 2 ^ 64))"
    by (simp only: split64 [symmetric])
  also have "\<dots> = val256 v0 v1 v2 v3"
  proof -
    have "2 ^ 64 * (2 ^ 64 * z) = 2 ^ 128 * z" "2 ^ 128 * (2 ^ 64 * z) = 2 ^ 192 * z" for z :: nat by simp_all
    then show ?thesis
      unfolding val256_def assms(4-7) power_xor by (simp only: xor.assoc xor.commute xor.left_commute)
  qed
  finally show ?thesis ..
qed

text \<open>One step of the reduction makes the lowest word vanish by adding a multiple of the modulus.\<close>

lemma shift_split:
  fixes v :: u64
  assumes "k \<le> 64"
  shows "2 ^ k * unat v = unat (push_bit k v) XOR 2 ^ 64 * unat (drop_bit (64 - k) v)"
proof -
  have "2 ^ k * unat v div 2 ^ 64 = unat v div 2 ^ (64 - k)"
    using assms by (metis div_mult_mult1 le_add_diff_inverse power_add power_not_zero zero_neq_numeral)
  then show ?thesis
    using split64 [of "2 ^ k * unat v"] by (simp add: unat_push unat_drop)
qed

lemma clmul_polyval_poly:
  "clmul (unat v) polyval_poly =
     unat v XOR 2 ^ 64 * unat (push_bit 63 v XOR push_bit 62 v XOR push_bit 57 v)
     XOR 2 ^ 128 * unat (v XOR drop_bit 1 v XOR drop_bit 2 v XOR drop_bit 7 v)" for v :: u64
proof -
  define u where "u = unat v"
  have "clmul u polyval_poly = 2 ^ 128 * u XOR 2 ^ 64 * (2 ^ 63 * u) XOR 2 ^ 64 * (2 ^ 62 * u)
      XOR 2 ^ 64 * (2 ^ 57 * u) XOR u"
  proof -
    have "clmul u 1 = u" by (metis clmul_1(1) clmul_commute)
    moreover have "clmul u (2 ^ k) = 2 ^ k * u" for k
      using clmul_power_right [of u k 1] calculation by simp
    ultimately have "clmul u polyval_poly = 2 ^ 128 * u XOR 2 ^ 127 * u XOR 2 ^ 126 * u XOR 2 ^ 121 * u XOR u"
      unfolding polyval_poly_def clmul_xor_right by (simp only:)
    then show ?thesis by simp
  qed
  also have "2 ^ 63 * u = unat (push_bit 63 v) XOR 2 ^ 64 * unat (drop_bit 1 v)"
    using shift_split [of 63 v] by (simp add: u_def)
  also have "2 ^ 62 * u = unat (push_bit 62 v) XOR 2 ^ 64 * unat (drop_bit 2 v)"
    using shift_split [of 62 v] by (simp add: u_def)
  also have "2 ^ 57 * u = unat (push_bit 57 v) XOR 2 ^ 64 * unat (drop_bit 7 v)"
    using shift_split [of 57 v] by (simp add: u_def)
  finally have e: "clmul u polyval_poly = 2 ^ 128 * u
      XOR 2 ^ 64 * (unat (push_bit 63 v) XOR 2 ^ 64 * unat (drop_bit 1 v))
      XOR 2 ^ 64 * (unat (push_bit 62 v) XOR 2 ^ 64 * unat (drop_bit 2 v))
      XOR 2 ^ 64 * (unat (push_bit 57 v) XOR 2 ^ 64 * unat (drop_bit 7 v)) XOR u" .
  have "2 ^ 64 * (2 ^ 64 * z) = 2 ^ 128 * z" for z :: nat by simp
  then show ?thesis
    unfolding u_def [symmetric] e unat_xor power_xor
    by (simp only: xor.assoc xor.commute xor.left_commute)
qed

definition reduce_words :: "u64 \<Rightarrow> u64 \<Rightarrow> u64 \<Rightarrow> u64 \<Rightarrow> pv_u128" where
  "reduce_words v0 v1 v2 v3 =
     (let v2 = v2 XOR (v0 XOR drop_bit 1 v0 XOR drop_bit 2 v0 XOR drop_bit 7 v0);
          v1 = v1 XOR (push_bit 63 v0 XOR push_bit 62 v0 XOR push_bit 57 v0);
          v3 = v3 XOR (v1 XOR drop_bit 1 v1 XOR drop_bit 2 v1 XOR drop_bit 7 v1);
          v2 = v2 XOR (push_bit 63 v1 XOR push_bit 62 v1 XOR push_bit 57 v1)
      in \<lparr>pv_lo = v2, pv_hi = v3\<rparr>)"

lemma reduce_words_cong: "pcong polyval_poly (2 ^ 128 * u128_val (reduce_words v0 v1 v2 v3)) (val256 v0 v1 v2 v3)"
proof -
  define l where "l v = push_bit 63 v XOR push_bit 62 v XOR push_bit 57 v" for v :: u64
  define r where "r v = v XOR drop_bit 1 v XOR drop_bit 2 v XOR drop_bit 7 v" for v :: u64
  define w1 where "w1 = v1 XOR l v0"
  have e: "reduce_words v0 v1 v2 v3 = \<lparr>pv_lo = (v2 XOR r v0) XOR l w1, pv_hi = v3 XOR r w1\<rparr>"
    by (simp only: reduce_words_def w1_def l_def r_def Let_def)
  have m: "clmul (unat v) polyval_poly = unat v XOR 2 ^ 64 * unat (l v) XOR 2 ^ 128 * unat (r v)" for v
    by (simp only: clmul_polyval_poly l_def r_def)
  have w: "clmul (unat w1) polyval_poly
      = (unat v1 XOR unat (l v0)) XOR 2 ^ 64 * unat (l w1) XOR 2 ^ 128 * unat (r w1)"
    unfolding m [of w1] by (simp only: w1_def unat_xor)
  have "2 ^ 64 * (2 ^ 64 * z) = 2 ^ 128 * z" "2 ^ 64 * (2 ^ 128 * z) = 2 ^ 192 * z"
    "2 ^ 128 * (2 ^ 64 * z) = 2 ^ 192 * z" for z :: nat by simp_all
  then have "2 ^ 128 * u128_val (reduce_words v0 v1 v2 v3) XOR val256 v0 v1 v2 v3
      = clmul (unat v0) polyval_poly XOR 2 ^ 64 * clmul (unat w1) polyval_poly"
    unfolding e u128_val_def val256_def pv_u128.simps m [of v0] w unat_xor power_xor
    by (simp only: xor.assoc xor.commute xor.left_commute xor_cancel xor_self_eq xor.right_neutral xor.left_neutral)
  also have "\<dots> = clmul (unat v0 XOR 2 ^ 64 * unat w1) polyval_poly"
    by (simp only: clmul_xor_left clmul_power_left)
  finally show ?thesis by (auto simp: pcong_def)
qed

text \<open>Both implementations reduce the words of the product.\<close>

lemma pv_mul_y_h_ctmul64_words:
  "\<exists>v0 v1 v2 v3. pv_y (pv_mul_y_h_ctmul64 pv) = reduce_words v0 v1 v2 v3
     \<and> val256 v0 v1 v2 v3 = clmul (u128_val (pv_y pv)) (u128_val (pvk_h (pv_key pv)))"
proof -
  define y where "y = pv_y pv"
  define h where "h = pvk_h (pv_key pv)"
  define z0 where "z0 = clmul (unat (pv_lo y)) (unat (pv_lo h))"
  define z1 where "z1 = clmul (unat (pv_hi y)) (unat (pv_hi h))"
  define z2 where "z2 = clmul (unat (pv_lo y XOR pv_hi y)) (unat (pv_lo h XOR pv_hi h))"
  define v0 where "v0 = bmul64 (pv_lo y) (pv_lo h)"
  define w1 where "w1 = bmul64 (pv_hi y) (pv_hi h)"
  define w2 where "w2 = bmul64 (pv_lo y XOR pv_hi y) (pv_lo h XOR pv_hi h) XOR (v0 XOR w1)"
  define u0 where "u0 = drop_bit 1 (rev64 (bmul64 (rev64 (pv_lo y)) (rev64 (pv_lo h))))"
  define u1 where "u1 = drop_bit 1 (rev64 (bmul64 (rev64 (pv_hi y)) (rev64 (pv_hi h))))"
  define u2 where "u2 = drop_bit 1 (rev64 (bmul64 (rev64 (pv_lo y XOR pv_hi y)) (rev64 (pv_lo h XOR pv_hi h))))
      XOR (u0 XOR u1)"
  have "pv_y (pv_mul_y_h_ctmul64 pv) = reduce_words v0 (u0 XOR w2) (w1 XOR u2) u1"
    unfolding pv_mul_y_h_ctmul64_def reduce_words_def v0_def w1_def w2_def u0_def u1_def u2_def Let_def
      y_def [symmetric] h_def [symmetric] rev64_xor drop_bit_xor by simp
  moreover have "val256 v0 (u0 XOR w2) (w1 XOR u2) u1 = clmul (u128_val y) (u128_val h)"
  proof (rule product_words)
    have d: "(a XOR b) div 2 ^ 64 = a div 2 ^ 64 XOR b div 2 ^ 64" for a b :: nat
      using drop_bit_xor [of 64 a b] by (simp only: drop_bit_eq_div)
    show "unat v0 = take_bit 64 (clmul (unat (pv_lo y)) (unat (pv_lo h)))"
      by (simp only: v0_def unat_bmul64)
    show "unat (u0 XOR w2) = clmul (unat (pv_lo y)) (unat (pv_lo h)) div 2 ^ 64 XOR
       take_bit 64 (clmul (unat (pv_lo y XOR pv_hi y)) (unat (pv_lo h XOR pv_hi h)) XOR
         (clmul (unat (pv_lo y)) (unat (pv_lo h)) XOR clmul (unat (pv_hi y)) (unat (pv_hi h))))"
      by (simp only: unat_xor w2_def v0_def w1_def u0_def unat_bmul64 unat_bmul64_high take_bit_xor)
    show "unat (w1 XOR u2) = take_bit 64 (clmul (unat (pv_hi y)) (unat (pv_hi h))) XOR
       (clmul (unat (pv_lo y XOR pv_hi y)) (unat (pv_lo h XOR pv_hi h)) XOR
         (clmul (unat (pv_lo y)) (unat (pv_lo h)) XOR clmul (unat (pv_hi y)) (unat (pv_hi h)))) div 2 ^ 64"
      by (simp only: unat_xor w1_def u0_def u1_def u2_def unat_bmul64 unat_bmul64_high d)
    show "unat u1 = clmul (unat (pv_hi y)) (unat (pv_hi h)) div 2 ^ 64"
      by (simp only: u1_def unat_bmul64_high)
  qed
  ultimately show ?thesis unfolding y_def h_def by blast
qed

text \<open>The product as an operation on values, and that its congruence determines it.\<close>

definition dot :: "pv_u128 \<Rightarrow> pv_u128 \<Rightarrow> pv_u128" where
  "dot y h = pv_y (pv_mul_y_h_ctmul64 \<lparr>pv_key = \<lparr>pvk_h = h\<rparr>, pv_y = y\<rparr>)"

lemma pv_mul_y_h_ctmul64_dot:
  "pv_mul_y_h_ctmul64 pv = pv\<lparr>pv_y := dot (pv_y pv) (pvk_h (pv_key pv))\<rparr>"
  by (simp add: dot_def pv_mul_y_h_ctmul64_def Let_def)

lemma dot_cong: "pcong polyval_poly (2 ^ 128 * u128_val (dot y h)) (clmul (u128_val y) (u128_val h))"
proof -
  obtain v0 v1 v2 v3 where "dot y h = reduce_words v0 v1 v2 v3"
      and "val256 v0 v1 v2 v3 = clmul (u128_val y) (u128_val h)"
    using pv_mul_y_h_ctmul64_words [of "\<lparr>pv_key = \<lparr>pvk_h = h\<rparr>, pv_y = y\<rparr>"] by (auto simp: dot_def)
  then show ?thesis using reduce_words_cong [of v0 v1 v2 v3] by simp
qed

lemma polyval_poly_range: "2 ^ 128 \<le> polyval_poly" "polyval_poly < 2 ^ Suc 128" "odd polyval_poly"
  unfolding polyval_poly_def by simp_all

lemma cong_imp_eq:
  assumes "pcong polyval_poly (2 ^ 128 * u128_val a) z" "pcong polyval_poly (2 ^ 128 * u128_val b) z"
  shows "a = b"
proof -
  have "pcong polyval_poly (2 ^ 128 * u128_val a) (2 ^ 128 * u128_val b)"
    using assms by (blast intro: pcong_trans pcong_sym)
  then have "pcong polyval_poly (u128_val a) (u128_val b)"
    by (rule pcong_power_cancel [OF polyval_poly_range(3)])
  then have "u128_val a = u128_val b"
    by (rule pcong_unique [OF polyval_poly_range(1,2)]) (rule u128_val_less)+
  then show ?thesis by (rule u128_val_inject)
qed

lemma val_xor: "u128_val (mm_xor_si128 a b) = u128_val a XOR u128_val b"
  unfolding u128_val_def mm_xor_si128_def pv_u128.simps unat_xor power_xor
  by (simp only: xor.assoc xor.commute xor.left_commute)

lemma dot_commute: "dot a b = dot b a"
  by (rule cong_imp_eq [OF dot_cong]) (subst clmul_commute, rule dot_cong)

lemma dot_xor: "dot (mm_xor_si128 a b) h = mm_xor_si128 (dot a h) (dot b h)"
proof (rule cong_imp_eq [OF dot_cong])
  show "pcong polyval_poly (2 ^ 128 * u128_val (mm_xor_si128 (dot a h) (dot b h)))
     (clmul (u128_val (mm_xor_si128 a b)) (u128_val h))"
    unfolding val_xor power_xor clmul_xor_left by (intro pcong_xor dot_cong)
qed

lemma dot_assoc: "dot (dot a b) c = dot a (dot b c)"
proof (rule cong_imp_eq)
  define z where "z = clmul (clmul (u128_val a) (u128_val b)) (u128_val c)"
  have l: "pcong polyval_poly (2 ^ 128 * (2 ^ 128 * u128_val (dot (dot a b) c))) z"
  proof (rule pcong_trans)
    show "pcong polyval_poly (2 ^ 128 * (2 ^ 128 * u128_val (dot (dot a b) c)))
        (2 ^ 128 * clmul (u128_val (dot a b)) (u128_val c))"
      by (intro pcong_power dot_cong)
    show "pcong polyval_poly (2 ^ 128 * clmul (u128_val (dot a b)) (u128_val c)) z"
      unfolding z_def clmul_power_left [symmetric] by (intro pcong_clmul dot_cong)
  qed
  have r: "pcong polyval_poly (2 ^ 128 * (2 ^ 128 * u128_val (dot a (dot b c)))) z"
  proof (rule pcong_trans)
    show "pcong polyval_poly (2 ^ 128 * (2 ^ 128 * u128_val (dot a (dot b c))))
        (2 ^ 128 * clmul (u128_val a) (u128_val (dot b c)))"
      by (intro pcong_power dot_cong)
    show "pcong polyval_poly (2 ^ 128 * clmul (u128_val a) (u128_val (dot b c))) z"
    proof -
      have "z = clmul (clmul (u128_val b) (u128_val c)) (u128_val a)"
        unfolding z_def clmul_assoc by (rule clmul_commute [THEN trans]) (rule clmul_assoc)
      moreover have "2 ^ 128 * clmul (u128_val a) (u128_val (dot b c))
          = clmul (2 ^ 128 * u128_val (dot b c)) (u128_val a)"
        by (subst clmul_commute) (simp only: clmul_power_left)
      ultimately show ?thesis by (simp only: pcong_clmul dot_cong)
    qed
  qed
  show "pcong polyval_poly (2 ^ 128 * u128_val (dot (dot a b) c)) (2 ^ 128 * u128_val (dot (dot a b) c))"
    by simp
  show "pcong polyval_poly (2 ^ 128 * u128_val (dot a (dot b c))) (2 ^ 128 * u128_val (dot (dot a b) c))"
    by (rule pcong_power_cancel [OF polyval_poly_range(3), of 128]) (rule pcong_trans [OF r pcong_sym [OF l]])
qed

subsection \<open>The vector implementation\<close>

lemma shuffle_0E: "pv_lo (mm_shuffle_epi32 a 0x0E) = pv_hi a"
proof -
  have "take_bit 32 w OR push_bit 32 (take_bit 32 (drop_bit 32 w)) = w" for w :: u64
    by (rule bit_eqI) (auto simp: bit_simps)
  then show ?thesis by (simp add: mm_shuffle_epi32_def lane32_def Let_def)
qed

lemma BK_lo: "pv_lo (BK a) = pv_lo a XOR pv_hi a"
  by (simp add: BK_def mm_xor_si128_def shuffle_0E)

lemma val_clmul_words: "u128_val (clmul_words x y) = clmul (unat x) (unat y)"
proof -
  define z where "z = clmul (unat x) (unat y)"
  have "z < 2 ^ (64 + 64)" unfolding z_def by (intro clmul_less unat_less64)
  then have "z div 2 ^ 64 < 2 ^ 64" by (simp add: less_mult_imp_div_less)
  then have "unat (word_of_nat (z div 2 ^ 64) :: u64) = z div 2 ^ 64" by (simp add: unat_of_nat)
  moreover have "unat (word_of_nat z :: u64) = take_bit 64 z" by (simp add: unat_of_nat take_bit_eq_mod)
  ultimately show ?thesis
    unfolding clmul_words_def u128_val_def Let_def z_def [symmetric] pv_u128.simps
    using split64 [of z] by (simp only:)
qed

text \<open>What three accumulators of products stand for.\<close>

definition acc_val :: "pv_u128 \<Rightarrow> pv_u128 \<Rightarrow> pv_u128 \<Rightarrow> nat" where
  "acc_val t1 t2 t3 =
     u128_val t3 XOR 2 ^ 64 * (u128_val t2 XOR (u128_val t3 XOR u128_val t1)) XOR 2 ^ 128 * u128_val t1"

lemma acc_val_product: "acc_val (pclmulqdq11 a h) (pclmulqdq00 (BK a) (BK h)) (pclmulqdq00 a h)
    = clmul (u128_val a) (u128_val h)"
  unfolding acc_val_def pclmulqdq11_def pclmulqdq00_def val_clmul_words BK_lo unat_xor
  unfolding u128_val_def karatsuba ..

lemma acc_val_xor:
  "acc_val (mm_xor_si128 t1 s1) (mm_xor_si128 t2 s2) (mm_xor_si128 t3 s3)
     = acc_val t1 t2 t3 XOR acc_val s1 s2 s3"
  unfolding acc_val_def val_xor power_xor by (simp only: xor.assoc xor.commute xor.left_commute)

lemma pclmul_finish_cong: "pcong polyval_poly (2 ^ 128 * u128_val (pclmul_finish t1 t2 t3)) (acc_val t1 t2 t3)"
proof -
  define s where "s = mm_xor_si128 t2 (mm_xor_si128 t1 t3)"
  have "pclmul_finish t1 t2 t3
      = reduce_words (pv_lo t3) (pv_lo s XOR pv_hi t3) (pv_lo t1 XOR pv_hi s) (pv_hi t1)"
    unfolding pclmul_finish_def s_def [symmetric]
    by (simp add: Let_def REDUCE_F128_def reduce_words_def mm_unpacklo_epi64_def mm_xor_si128_def [of _ "mm_shuffle_epi32 _ _"]
        mm_xor_si128_def mm_srli_epi64_def mm_slli_epi64_def shuffle_0E xor.assoc)
  moreover have "val256 (pv_lo t3) (pv_lo s XOR pv_hi t3) (pv_lo t1 XOR pv_hi s) (pv_hi t1) = acc_val t1 t2 t3"
  proof -
    have "acc_val t1 t2 t3 = u128_val t3 XOR 2 ^ 64 * u128_val s XOR 2 ^ 128 * u128_val t1"
      unfolding acc_val_def s_def val_xor by (simp only: xor.assoc xor.commute xor.left_commute)
    moreover have "2 ^ 64 * (2 ^ 64 * z) = 2 ^ 128 * z" "2 ^ 128 * (2 ^ 64 * z) = 2 ^ 192 * z" for z :: nat
      by simp_all
    ultimately show ?thesis
      unfolding val256_def u128_val_def unat_xor power_xor by (simp only: xor.assoc xor.commute xor.left_commute)
  qed
  ultimately show ?thesis using reduce_words_cong by metis
qed

lemma pclmul_finish_dot:
  "pclmul_finish (pclmulqdq11 a h) (pclmulqdq00 (BK a) (BK h)) (pclmulqdq00 a h) = dot a h"
  by (rule cong_imp_eq [OF _ dot_cong]) (metis pclmul_finish_cong acc_val_product)

lemma pv_mul_y_h_pclmul_dot: "pv_mul_y_h_pclmul pv = pv\<lparr>pv_y := dot (pv_y pv) (pvk_h (pv_key pv))\<rparr>"
  by (simp add: pv_mul_y_h_pclmul_def Let_def pclmul_finish_dot)

subsection \<open>Eight blocks at a time\<close>

text \<open>
  Powers of the key, the accumulator after some blocks, and the sum that the code with the expanded
  key computes instead.
\<close>

fun hpow :: "pv_u128 \<Rightarrow> nat \<Rightarrow> pv_u128" where
  "hpow h 0 = h"
| "hpow h (Suc n) = dot (hpow h n) h"

fun absorb :: "pv_u128 \<Rightarrow> pv_u128 \<Rightarrow> pv_u128 list \<Rightarrow> pv_u128" where
  "absorb h y [] = y"
| "absorb h y (b # bs) = absorb h (dot (mm_xor_si128 y b) h) bs"

fun power_sum :: "pv_u128 \<Rightarrow> pv_u128 list \<Rightarrow> nat" where
  "power_sum h [] = 0"
| "power_sum h (b # bs) = clmul (u128_val b) (u128_val (hpow h (length bs))) XOR power_sum h bs"

lemma mm_xor_zero [simp]: "mm_xor_si128 u128_zero a = a"
  by (simp add: mm_xor_si128_def u128_zero_def)

lemma mm_xor_assoc: "mm_xor_si128 (mm_xor_si128 a b) c = mm_xor_si128 a (mm_xor_si128 b c)"
  by (simp add: mm_xor_si128_def xor.assoc)

lemma dot_hpow: "dot h (hpow h n) = hpow h (Suc n)"
  by (subst dot_commute) simp

lemma absorb_linear: "bs \<noteq> [] \<Longrightarrow>
    absorb h y bs = mm_xor_si128 (dot y (hpow h (length bs - 1))) (absorb h u128_zero bs)"
proof (induction bs arbitrary: y)
  case (Cons b bs)
  show ?case
  proof (cases "bs = []")
    case True
    then show ?thesis by (simp add: dot_xor)
  next
    case False
    then obtain m where m: "length bs = Suc m" by (cases bs) auto
    have "absorb h y (b # bs) = mm_xor_si128 (dot (dot (mm_xor_si128 y b) h) (hpow h m)) (absorb h u128_zero bs)"
      using Cons.IH [OF False, of "dot (mm_xor_si128 y b) h"] m by simp
    also have "dot (dot (mm_xor_si128 y b) h) (hpow h m) = mm_xor_si128 (dot y (hpow h (Suc m))) (dot b (hpow h (Suc m)))"
      by (simp only: dot_assoc dot_hpow dot_xor)
    also have "mm_xor_si128 (mm_xor_si128 (dot y (hpow h (Suc m))) (dot b (hpow h (Suc m)))) (absorb h u128_zero bs)
        = mm_xor_si128 (dot y (hpow h (Suc m))) (mm_xor_si128 (dot b (hpow h (Suc m))) (absorb h u128_zero bs))"
      by (rule mm_xor_assoc)
    also have "mm_xor_si128 (dot b (hpow h (Suc m))) (absorb h u128_zero bs) = absorb h u128_zero (b # bs)"
      using Cons.IH [OF False, of "dot b h"] m by (simp add: dot_assoc dot_hpow del: hpow.simps)
    finally show ?thesis using m by simp
  qed
qed simp

lemma absorb_cong: "pcong polyval_poly (2 ^ 128 * u128_val (absorb h u128_zero bs)) (power_sum h bs)"
proof (induction bs)
  case Nil
  show ?case by (simp add: u128_zero_def u128_val_def)
next
  case (Cons b bs)
  have "absorb h u128_zero (b # bs) = mm_xor_si128 (dot b (hpow h (length bs))) (absorb h u128_zero bs)"
  proof (cases "bs = []")
    case True
    have "mm_xor_si128 a u128_zero = a" for a by (simp add: mm_xor_si128_def u128_zero_def)
    then show ?thesis using True by simp
  next
    case False
    then obtain m where m: "length bs = Suc m" by (cases bs) auto
    then show ?thesis
      using absorb_linear [OF False, of h "dot b h"] by (simp add: dot_assoc dot_hpow del: hpow.simps)
  qed
  then show ?case
    unfolding power_sum.simps by (simp only: val_xor power_xor) (intro pcong_xor dot_cong Cons.IH)
qed

lemma expand_key_loop_hpow:
  "expand_key_loop h (hpow h n) m k = map (\<lambda>j. hpow h (Suc (n + j))) (rev [0..<m]) @ k"
proof (induction m arbitrary: n k)
  case (Suc m)
  have u: "[0..<Suc m] = 0 # map Suc [0..<m]"
    by (simp add: upt_conv_Cons map_Suc_upt del: upt_Suc)
  have "expand_key_loop h (hpow h n) (Suc m) k = expand_key_loop h (hpow h (Suc n)) m (hpow h (Suc n) # k)"
    by (simp add: Let_def pclmul_finish_dot)
  also have "\<dots> = map (\<lambda>j. hpow h (Suc (Suc n + j))) (rev [0..<m]) @ hpow h (Suc n) # k"
    by (rule Suc.IH)
  also have "\<dots> = map (\<lambda>j. hpow h (Suc (n + j))) (rev [0..<Suc m]) @ k"
    unfolding u by (simp add: rev_map o_def del: hpow.simps)
  finally show ?case .
qed simp

lemma expand_key_pclmul_get:
  assumes "i < PV_BLOCK_STRIDE - 1"
  shows "arr_get (expand_key_pclmul pv) i = Some (hpow (pvk_h (pv_key pv)) (PV_BLOCK_STRIDE - 1 - i))"
proof -
  define h where "h = pvk_h (pv_key pv)"
  have e: "expand_key_pclmul pv = map (\<lambda>j. hpow h (Suc j)) (rev [0..<PV_BLOCK_STRIDE - 1])"
    using expand_key_loop_hpow [of h 0 "PV_BLOCK_STRIDE - 1" "[]"]
    by (simp add: expand_key_pclmul_def h_def [symmetric])
  have "Suc (PV_BLOCK_STRIDE - 1 - Suc i) = PV_BLOCK_STRIDE - 1 - i" using assms by simp
  then show ?thesis
    using assms unfolding h_def [symmetric] e by (simp add: arr_get_def rev_nth del: hpow.simps)
qed

text \<open>The loads of successive blocks.\<close>

fun load_blocks :: "byte list \<Rightarrow> nat \<Rightarrow> pv_u128 list option" where
  "load_blocks inp 0 = Some []"
| "load_blocks inp (Suc m) =
     do {
       b \<leftarrow> u128_from_bytes inp;
       bs \<leftarrow> load_blocks (drop 16 inp) m;
       Some (b # bs)
     }"

lemma u128_from_bytes_some: "16 \<le> length inp \<Longrightarrow> \<exists>b. u128_from_bytes inp = Some b"
  by (simp add: u128_from_bytes_def arr_slice_def)

lemma load_blocks_length: "load_blocks inp m = Some bs \<Longrightarrow> length bs = m"
  by (induction m arbitrary: inp bs) (auto split: Option.bind_splits)

lemma load_blocks_some: "16 * m \<le> length inp \<Longrightarrow> \<exists>bs. load_blocks inp m = Some bs \<and> length bs = m"
proof (induction m arbitrary: inp)
  case (Suc m)
  then obtain b where "u128_from_bytes inp = Some b" using u128_from_bytes_some [of inp] by auto
  moreover have "16 * m \<le> length (drop 16 inp)" using Suc.prems by simp
  then obtain bs where "load_blocks (drop 16 inp) m = Some bs" "length bs = m"
    using Suc.IH by blast
  ultimately show ?case by simp
qed simp

text \<open>The first block is added to the accumulator of the instance.\<close>

definition with_first :: "pv_u128 \<Rightarrow> nat \<Rightarrow> pv_u128 list \<Rightarrow> pv_u128 list" where
  "with_first y i bs = (case bs of [] \<Rightarrow> [] | b # bs' \<Rightarrow> (if i = 0 then mm_xor_si128 b y else b) # bs')"

lemma with_first_later [simp]: "with_first y (Suc i) bs = bs"
  by (cases bs) (simp_all add: with_first_def)

lemma add_multiple_loop_sum:
  assumes "load_blocks inp m = Some bs" "i + m = PV_BLOCK_STRIDE"
  shows "\<exists>s1 s2 s3. add_multiple_loop pv (expand_key_pclmul pv) inp i m (t1, t2, t3) = Some (s1, s2, s3)
     \<and> acc_val s1 s2 s3 = acc_val t1 t2 t3 XOR power_sum (pvk_h (pv_key pv)) (with_first (pv_y pv) i bs)"
  using assms
proof (induction m arbitrary: inp i t1 t2 t3 bs)
  case 0
  then show ?case by (simp add: with_first_def)
next
  case (Suc m)
  define h where "h = pvk_h (pv_key pv)"
  obtain b bs' where b: "u128_from_bytes inp = Some b" "load_blocks (drop 16 inp) m = Some bs'" "bs = b # bs'"
    using Suc.prems(1) by (auto split: Option.bind_splits)
  have len: "length bs' = m" using b(2) by (rule load_blocks_length)
  define a where "a = (if i = 0 then mm_xor_si128 b (pv_y pv) else b)"
  have hw: "(if i = PV_BLOCK_STRIDE - 1 then Some h else arr_get (expand_key_pclmul pv) i) = Some (hpow h m)"
  proof (cases "m = 0")
    case True
    then show ?thesis using Suc.prems(2) by auto
  next
    case False
    then have "i < PV_BLOCK_STRIDE - 1" "PV_BLOCK_STRIDE - 1 - i = m" using Suc.prems(2) by auto
    then show ?thesis using expand_key_pclmul_get [of i pv] by (simp add: h_def)
  qed
  have "power_sum h (with_first (pv_y pv) i bs) = clmul (u128_val a) (u128_val (hpow h m)) XOR power_sum h bs'"
    by (simp add: b(3) with_first_def a_def len)
  moreover have "add_multiple_loop pv (expand_key_pclmul pv) inp i (Suc m) (t1, t2, t3)
      = add_multiple_loop pv (expand_key_pclmul pv) (drop 16 inp) (i + 1) m
          (mm_xor_si128 t1 (pclmulqdq11 a (hpow h m)), mm_xor_si128 t2 (pclmulqdq00 (BK a) (BK (hpow h m))),
           mm_xor_si128 t3 (pclmulqdq00 a (hpow h m)))"
    by (simp only: add_multiple_loop.simps b(1) h_def [symmetric] hw Let_def Option.bind.simps a_def [symmetric])
  ultimately show ?case
    using Suc.IH [OF b(2), of "Suc i" "mm_xor_si128 t1 (pclmulqdq11 a (hpow h m))"
        "mm_xor_si128 t2 (pclmulqdq00 (BK a) (BK (hpow h m)))" "mm_xor_si128 t3 (pclmulqdq00 a (hpow h m))"]
      Suc.prems(2)
    by (simp add: h_def [symmetric] acc_val_xor acc_val_product xor.assoc del: hpow.simps add_multiple_loop.simps)
qed

lemma pv_add_multiple_absorb:
  assumes "load_blocks inp PV_BLOCK_STRIDE = Some bs"
  shows "pv_add_multiple_pclmul pv inp (expand_key_pclmul pv)
    = Some (pv\<lparr>pv_y := absorb (pvk_h (pv_key pv)) (pv_y pv) bs\<rparr>)"
proof -
  define h where "h = pvk_h (pv_key pv)"
  obtain b bs' where bs: "bs = b # bs'"
    using assms by (cases bs) (auto simp: PV_BLOCK_STRIDE_def numeral_eq_Suc split: Option.bind_splits)
  obtain s1 s2 s3 where s: "add_multiple_loop pv (expand_key_pclmul pv) inp 0 PV_BLOCK_STRIDE
      (u128_zero, u128_zero, u128_zero) = Some (s1, s2, s3)"
    "acc_val s1 s2 s3 = acc_val u128_zero u128_zero u128_zero XOR power_sum h (with_first (pv_y pv) 0 bs)"
    using add_multiple_loop_sum [OF assms, of 0 pv u128_zero u128_zero u128_zero] by (auto simp: h_def)
  have "u128_val u128_zero = 0" by (simp add: u128_zero_def u128_val_def)
  then have "acc_val s1 s2 s3 = power_sum h (mm_xor_si128 (pv_y pv) b # bs')"
    using s(2) by (simp add: acc_val_def bs with_first_def mm_xor_si128_def xor.commute)
  then have "pclmul_finish s1 s2 s3 = absorb h u128_zero (mm_xor_si128 (pv_y pv) b # bs')"
    using pclmul_finish_cong [of s1 s2 s3] absorb_cong [of h "mm_xor_si128 (pv_y pv) b # bs'"]
    by (intro cong_imp_eq) simp_all
  then show ?thesis
    using s(1) by (simp add: pv_add_multiple_pclmul_def h_def [symmetric] bs)
qed

subsection \<open>The implementations agree\<close>

lemma polyval_add_block_dot:
  "polyval_add_block u pv block = map_option
     (\<lambda>b. pv\<lparr>pv_y := dot (mm_xor_si128 (pv_y pv) b) (pvk_h (pv_key pv))\<rparr>) (u128_from_bytes block)"
  by (cases "u128_from_bytes block")
    (simp_all add: polyval_add_block_def Let_def pv_xor_y_def mm_xor_si128_def pv_mul_y_h_pclmul_dot
      pv_mul_y_h_ctmul64_dot)

lemma add_blocks_step:
  assumes "16 \<le> n" "n \<le> length data"
  shows "add_blocks u pv data n = do {
     pv \<leftarrow> polyval_add_block u pv data;
     add_blocks u pv (drop 16 data) (n - 16)
   }"
proof (cases "n = 16")
  case True
  have "arr_slice data 0 16 = Some (take 16 data)" using assms by (simp add: arr_slice_def)
  moreover have "arr_blit (replicate 16 0) 0 (take 16 data) = Some (take 16 data)"
    using assms by (simp add: arr_blit_def)
  moreover have "u128_from_bytes (take 16 data) = u128_from_bytes data"
    using assms by (simp add: u128_from_bytes_def arr_slice_def drop_take)
  ultimately have "add_blocks u pv data n = polyval_add_block u pv data"
    using True by (simp add: add_blocks.simps [of u pv data] polyval_add_block_dot)
  then show ?thesis
    using True by (cases "polyval_add_block u pv data") (simp_all add: add_blocks.simps)
next
  case False
  then show ?thesis using assms by (simp add: add_blocks.simps [of u pv data])
qed

lemma add_blocks_many:
  assumes "load_blocks data m = Some bs" "16 * m \<le> n" "n \<le> length data"
  shows "add_blocks u pv data n =
    add_blocks u (pv\<lparr>pv_y := absorb (pvk_h (pv_key pv)) (pv_y pv) bs\<rparr>) (drop (16 * m) data) (n - 16 * m)"
  using assms
proof (induction m arbitrary: data n bs pv)
  case (Suc m)
  obtain b bs' where b: "u128_from_bytes data = Some b" "load_blocks (drop 16 data) m = Some bs'" "bs = b # bs'"
    using Suc.prems(1) by (auto split: Option.bind_splits)
  have "16 * m \<le> n - 16" "n - 16 \<le> length (drop 16 data)" "16 \<le> n" using Suc.prems by auto
  then show ?case
    using Suc.IH [OF b(2), of "n - 16"] Suc.prems
    by (simp add: add_blocks_step polyval_add_block_dot b(1,3) algebra_simps)
qed simp

lemma add_strides_blocks:
  assumes "n \<le> length data" "expanded = expand_key_pclmul pv"
  shows "\<exists>pv' data' n'. add_strides strict expanded pv data n = Some (pv', data', n')
     \<and> add_blocks u pv' data' n' = add_blocks u pv data n"
  using assms
proof (induction strict expanded pv data n rule: add_strides.induct)
  case (1 strict expanded pv data n)
  show ?case
  proof (cases "if strict then PV_BLOCK_STRIDE * 16 < n else PV_BLOCK_STRIDE * 16 \<le> n")
    case True
    then have n: "16 * PV_BLOCK_STRIDE \<le> n" by (simp add: mult.commute split: if_splits)
    then have "16 * PV_BLOCK_STRIDE \<le> length data" using "1.prems"(1) by linarith
    then obtain bs where bs: "load_blocks data PV_BLOCK_STRIDE = Some bs" using load_blocks_some by blast
    define pv' where "pv' = pv\<lparr>pv_y := absorb (pvk_h (pv_key pv)) (pv_y pv) bs\<rparr>"
    have mult: "pv_add_multiple_pclmul pv data expanded = Some pv'"
      using pv_add_multiple_absorb [OF bs, of pv] "1.prems"(2) by (simp add: pv'_def)
    have e: "expanded = expand_key_pclmul pv'"
      using "1.prems"(2) by (simp add: pv'_def expand_key_pclmul_def)
    have len: "n - PV_BLOCK_STRIDE * 16 \<le> length (drop (PV_BLOCK_STRIDE * 16) data)"
      using "1.prems"(1) by simp
    have "add_strides strict expanded pv data n
        = add_strides strict expanded pv' (drop (PV_BLOCK_STRIDE * 16) data) (n - PV_BLOCK_STRIDE * 16)"
      using True mult by (simp add: add_strides.simps [of strict expanded pv])
    moreover have "add_blocks u pv data n
        = add_blocks u pv' (drop (PV_BLOCK_STRIDE * 16) data) (n - PV_BLOCK_STRIDE * 16)"
      using add_blocks_many [OF bs n "1.prems"(1), of u pv] by (simp add: pv'_def mult.commute)
    ultimately show ?thesis using "1.IH" [OF True mult len e] by simp
  next
    case False
    then show ?thesis by (simp add: add_strides.simps [of strict expanded pv])
  qed
qed

lemma add_blocks_impl: "add_blocks True pv data n = add_blocks False pv data n"
proof (induction "True" pv data n rule: add_blocks.induct)
  case (1 pv data n)
  have "polyval_add_block True = polyval_add_block False"
    by (intro ext) (simp add: polyval_add_block_dot)
  then show ?case
    using 1 by (cases "polyval_add_block False pv data")
      (simp_all add: add_blocks.simps [of True pv] add_blocks.simps [of False pv])
qed

lemma add_zpad_blocks: "n \<le> length data \<Longrightarrow> polyval_add_zpad u pv data n = add_blocks u pv data n"
  using add_strides_blocks [of n data "expand_key_pclmul pv" pv False u]
  by (auto simp: polyval_add_zpad_def)

lemma addx_zpad_blocks:
  assumes "n \<le> length data" "u \<longrightarrow> pvx_expanded pvx = expand_key_pclmul (pvx_pv pvx)"
  shows "polyvalx_add_zpad u pvx data n = map_option (\<lambda>pv. pvx\<lparr>pvx_pv := pv\<rparr>) (add_blocks u (pvx_pv pvx) data n)"
  using add_strides_blocks [of n data "pvx_expanded pvx" "pvx_pv pvx" True u] assms
  by (cases "add_blocks u (pvx_pv pvx) data n") (auto simp: polyvalx_add_zpad_def)

text \<open>
  C9: The vector implementation and the portable one compute the same hash: for every state, adding
  a block, adding any number of bytes and adding them with an expanded key give the same state, where
  the vector code takes eight blocks at a time with powers of the key and the portable code takes
  one block after the other.
\<close>

theorem polyval_implementations_agree:
  assumes "n \<le> length data" "pvx_expanded pvx = expand_key_pclmul (pvx_pv pvx)"
  shows "polyval_add_block True pv block = polyval_add_block False pv block
    \<and> polyval_add_zpad True pv data n = polyval_add_zpad False pv data n
    \<and> map_option pvx_pv (polyvalx_add_zpad True pvx data n) = polyval_add_zpad False (pvx_pv pvx) data n
    \<and> polyval_add_zpad False pv data n \<noteq> None"
proof -
  have "\<exists>pv'. add_blocks False pv data n = Some pv'"
    using assms(1)
  proof (induction "False" pv data n rule: add_blocks.induct)
    case (1 pv data n)
    show ?case
    proof (cases "16 < n")
      case True
      then obtain pv' where pv': "polyval_add_block False pv data = Some pv'"
        using u128_from_bytes_some [of data] "1.prems" by (auto simp: polyval_add_block_dot)
      then show ?thesis using 1(1) [OF True pv'] "1.prems" True by (simp add: add_blocks.simps [of False pv])
    next
      case False
      then show ?thesis
        using "1.prems" u128_from_bytes_some [of "take n data @ replicate (16 - n) 0"]
        by (auto simp: add_blocks.simps [of False pv] polyval_add_block_dot arr_slice_def arr_blit_def)
    qed
  qed
  then show ?thesis
    using assms addx_zpad_blocks [of n data True pvx]
    by (simp add: polyval_add_block_dot add_zpad_blocks add_blocks_impl option.map_comp o_def option.map_ident)
qed

theorem polyval_implementations_agree_witness:
  "polyval_add_zpad True (polyval_init_from_key \<lparr>pvk_h = \<lparr>pv_lo = 3, pv_hi = 5\<rparr>\<rparr>) (replicate 200 7) 193
     = polyval_add_zpad False (polyval_init_from_key \<lparr>pvk_h = \<lparr>pv_lo = 3, pv_hi = 5\<rparr>\<rparr>) (replicate 200 7) 193
   \<and> (let pv = polyval_init_from_key \<lparr>pvk_h = \<lparr>pv_lo = 3, pv_hi = 5\<rparr>\<rparr>;
         pvx = polyvalx_init_from_key True \<lparr>pvk_h = \<lparr>pv_lo = 3, pv_hi = 5\<rparr>\<rparr>
      in map_option pvx_pv (polyvalx_add_zpad True pvx (replicate 200 7) 193)
           = polyval_add_zpad False pv (replicate 200 7) 193)"
  using polyval_implementations_agree [of 193 "replicate 200 7"
      "polyvalx_init_from_key True \<lparr>pvk_h = \<lparr>pv_lo = 3, pv_hi = 5\<rparr>\<rparr>"
      "polyval_init_from_key \<lparr>pvk_h = \<lparr>pv_lo = 3, pv_hi = 5\<rparr>\<rparr>"]
  by (simp add: polyvalx_init_from_key_def Let_def)

text \<open>
  C18: A step of the hash multiplies in the field of \<open>2\<^sup>1\<^sup>2\<^sup>8\<close> elements: the integer products with holes
  between the bits, the bit reversals and the shifts of the constant-time code, and the instructions
  of the vector code, compute the polynomial \<open>(y + b) * h\<close> divided by the 128th power of the
  indeterminate, modulo the polynomial of the field.
\<close>

theorem polyval_add_block_correct:
  assumes "u128_from_bytes block = Some b"
  shows "\<exists>pv'. polyval_add_block use_pclmul pv block = Some pv'
    \<and> pv_key pv' = pv_key pv
    \<and> u128_val (pv_y pv') < 2 ^ 128
    \<and> pcong polyval_poly (2 ^ 128 * u128_val (pv_y pv'))
        (clmul (u128_val (pv_y pv) XOR u128_val b) (u128_val (pvk_h (pv_key pv))))"
  using assms dot_cong [of "mm_xor_si128 (pv_y pv) b" "pvk_h (pv_key pv)"] u128_val_less
  by (simp add: polyval_add_block_dot val_xor)

theorem polyval_add_block_correct_witness:
  "\<exists>pv'. polyval_add_block True (polyval_init_from_key \<lparr>pvk_h = \<lparr>pv_lo = 3, pv_hi = 5\<rparr>\<rparr>) (1 # replicate 15 0) = Some pv'
    \<and> pcong polyval_poly (2 ^ 128 * u128_val (pv_y pv')) (clmul 1 (3 XOR 2 ^ 64 * 5))"
proof -
  have "u128_from_bytes (1 # replicate 15 0) = Some \<lparr>pv_lo = 1, pv_hi = 0\<rparr>" by code_simp
  moreover have "u128_val u128_zero XOR u128_val \<lparr>pv_lo = 1, pv_hi = 0\<rparr> = 1"
    "u128_val \<lparr>pv_lo = 3, pv_hi = 5\<rparr> = 3 XOR 2 ^ 64 * 5"
    by (simp_all add: u128_val_def u128_zero_def)
  ultimately show ?thesis
    using polyval_add_block_correct [of "1 # replicate 15 0" "\<lparr>pv_lo = 1, pv_hi = 0\<rparr>" True
        "polyval_init_from_key \<lparr>pvk_h = \<lparr>pv_lo = 3, pv_hi = 5\<rparr>\<rparr>"]
    by (auto simp: polyval_init_from_key_def)
qed

end
