(* ===== verification/Relay_Msg.thy ===== *)
theory Relay_Msg
  imports Cells
begin

section \<open>Relay messages in cells: \<^verbatim>\<open>core/or/relay_msg.c\<close>\<close>

text \<open>
  The two formats in which a relay message travels in the payload of a cell. The body of a message is
  a pointer into another object: here the list of the bytes from there to the end of that object, and
  the null pointer is the empty list, of which no byte can be read. The random bytes that fill the
  rest of a cell are a parameter, \<open>rnd n\<close> for a request of \<open>n\<close> bytes. \<open>None\<close> is a failed assertion or
  an access outside an object; the \<open>int\<close> result of the code is \<open>-1\<close> for a malformed message.
\<close>

subsection \<open>Commands and formats\<close>

datatype relay_cell_fmt_t = RELAY_CELL_FORMAT_V0 | RELAY_CELL_FORMAT_V1

definition CELL_RELAY :: u8 where "CELL_RELAY = 3"
definition CELL_RELAY_EARLY :: u8 where "CELL_RELAY_EARLY = 9"

abbreviation RELAY_COMMAND_BEGIN :: u8 where "RELAY_COMMAND_BEGIN \<equiv> 1"
abbreviation RELAY_COMMAND_DATA :: u8 where "RELAY_COMMAND_DATA \<equiv> 2"
abbreviation RELAY_COMMAND_END :: u8 where "RELAY_COMMAND_END \<equiv> 3"
abbreviation RELAY_COMMAND_CONNECTED :: u8 where "RELAY_COMMAND_CONNECTED \<equiv> 4"
abbreviation RELAY_COMMAND_SENDME :: u8 where "RELAY_COMMAND_SENDME \<equiv> 5"
abbreviation RELAY_COMMAND_EXTEND :: u8 where "RELAY_COMMAND_EXTEND \<equiv> 6"
abbreviation RELAY_COMMAND_EXTENDED :: u8 where "RELAY_COMMAND_EXTENDED \<equiv> 7"
abbreviation RELAY_COMMAND_TRUNCATE :: u8 where "RELAY_COMMAND_TRUNCATE \<equiv> 8"
abbreviation RELAY_COMMAND_TRUNCATED :: u8 where "RELAY_COMMAND_TRUNCATED \<equiv> 9"
abbreviation RELAY_COMMAND_DROP :: u8 where "RELAY_COMMAND_DROP \<equiv> 10"
abbreviation RELAY_COMMAND_RESOLVE :: u8 where "RELAY_COMMAND_RESOLVE \<equiv> 11"
abbreviation RELAY_COMMAND_RESOLVED :: u8 where "RELAY_COMMAND_RESOLVED \<equiv> 12"
abbreviation RELAY_COMMAND_BEGIN_DIR :: u8 where "RELAY_COMMAND_BEGIN_DIR \<equiv> 13"
abbreviation RELAY_COMMAND_EXTEND2 :: u8 where "RELAY_COMMAND_EXTEND2 \<equiv> 14"
abbreviation RELAY_COMMAND_EXTENDED2 :: u8 where "RELAY_COMMAND_EXTENDED2 \<equiv> 15"
abbreviation RELAY_COMMAND_CONFLUX_LINK :: u8 where "RELAY_COMMAND_CONFLUX_LINK \<equiv> 19"
abbreviation RELAY_COMMAND_CONFLUX_LINKED :: u8 where "RELAY_COMMAND_CONFLUX_LINKED \<equiv> 20"
abbreviation RELAY_COMMAND_CONFLUX_LINKED_ACK :: u8 where "RELAY_COMMAND_CONFLUX_LINKED_ACK \<equiv> 21"
abbreviation RELAY_COMMAND_CONFLUX_SWITCH :: u8 where "RELAY_COMMAND_CONFLUX_SWITCH \<equiv> 22"
abbreviation RELAY_COMMAND_ESTABLISH_INTRO :: u8 where "RELAY_COMMAND_ESTABLISH_INTRO \<equiv> 32"
abbreviation RELAY_COMMAND_ESTABLISH_RENDEZVOUS :: u8 where "RELAY_COMMAND_ESTABLISH_RENDEZVOUS \<equiv> 33"
abbreviation RELAY_COMMAND_INTRODUCE1 :: u8 where "RELAY_COMMAND_INTRODUCE1 \<equiv> 34"
abbreviation RELAY_COMMAND_INTRODUCE2 :: u8 where "RELAY_COMMAND_INTRODUCE2 \<equiv> 35"
abbreviation RELAY_COMMAND_RENDEZVOUS1 :: u8 where "RELAY_COMMAND_RENDEZVOUS1 \<equiv> 36"
abbreviation RELAY_COMMAND_RENDEZVOUS2 :: u8 where "RELAY_COMMAND_RENDEZVOUS2 \<equiv> 37"
abbreviation RELAY_COMMAND_INTRO_ESTABLISHED :: u8 where "RELAY_COMMAND_INTRO_ESTABLISHED \<equiv> 38"
abbreviation RELAY_COMMAND_RENDEZVOUS_ESTABLISHED :: u8 where "RELAY_COMMAND_RENDEZVOUS_ESTABLISHED \<equiv> 39"
abbreviation RELAY_COMMAND_INTRODUCE_ACK :: u8 where "RELAY_COMMAND_INTRODUCE_ACK \<equiv> 40"
abbreviation RELAY_COMMAND_PADDING_NEGOTIATE :: u8 where "RELAY_COMMAND_PADDING_NEGOTIATE \<equiv> 41"
abbreviation RELAY_COMMAND_PADDING_NEGOTIATED :: u8 where "RELAY_COMMAND_PADDING_NEGOTIATED \<equiv> 42"
abbreviation RELAY_COMMAND_XOFF :: u8 where "RELAY_COMMAND_XOFF \<equiv> 43"
abbreviation RELAY_COMMAND_XON :: u8 where "RELAY_COMMAND_XON \<equiv> 44"

text \<open>The commands of the header, in the order of the \<open>switch\<close>.\<close>

definition is_known_relay_command :: "u8 \<Rightarrow> bool" where
  "is_known_relay_command cmd \<longleftrightarrow> cmd \<in> set
     [RELAY_COMMAND_BEGIN, RELAY_COMMAND_BEGIN_DIR, RELAY_COMMAND_CONFLUX_LINK, RELAY_COMMAND_CONFLUX_LINKED,
      RELAY_COMMAND_CONFLUX_LINKED_ACK, RELAY_COMMAND_CONFLUX_SWITCH, RELAY_COMMAND_CONNECTED,
      RELAY_COMMAND_DATA, RELAY_COMMAND_DROP, RELAY_COMMAND_END, RELAY_COMMAND_ESTABLISH_INTRO,
      RELAY_COMMAND_ESTABLISH_RENDEZVOUS, RELAY_COMMAND_EXTEND2, RELAY_COMMAND_EXTEND,
      RELAY_COMMAND_EXTENDED2, RELAY_COMMAND_EXTENDED, RELAY_COMMAND_INTRODUCE1, RELAY_COMMAND_INTRODUCE2,
      RELAY_COMMAND_INTRODUCE_ACK, RELAY_COMMAND_INTRO_ESTABLISHED, RELAY_COMMAND_PADDING_NEGOTIATE,
      RELAY_COMMAND_PADDING_NEGOTIATED, RELAY_COMMAND_RENDEZVOUS1, RELAY_COMMAND_RENDEZVOUS2,
      RELAY_COMMAND_RENDEZVOUS_ESTABLISHED, RELAY_COMMAND_RESOLVE, RELAY_COMMAND_RESOLVED,
      RELAY_COMMAND_SENDME, RELAY_COMMAND_TRUNCATE, RELAY_COMMAND_TRUNCATED, RELAY_COMMAND_XOFF,
      RELAY_COMMAND_XON]"

definition relay_cmd_expects_streamid_in_v1 :: "u8 \<Rightarrow> bool" where
  "relay_cmd_expects_streamid_in_v1 relay_command \<longleftrightarrow> relay_command \<in> set
     [RELAY_COMMAND_BEGIN, RELAY_COMMAND_BEGIN_DIR, RELAY_COMMAND_CONNECTED, RELAY_COMMAND_DATA,
      RELAY_COMMAND_END, RELAY_COMMAND_RESOLVE, RELAY_COMMAND_RESOLVED, RELAY_COMMAND_XOFF,
      RELAY_COMMAND_XON]"

definition RELAY_HEADER_SIZE_V0 :: nat where
  "RELAY_HEADER_SIZE_V0 = 1 + 2 + 2 + 4 + 2"

definition RELAY_HEADER_SIZE_V1_NO_STREAM_ID :: nat where
  "RELAY_HEADER_SIZE_V1_NO_STREAM_ID = 16 + 1 + 2"

definition RELAY_HEADER_SIZE_V1_WITH_STREAM_ID :: nat where
  "RELAY_HEADER_SIZE_V1_WITH_STREAM_ID = 16 + 1 + 2 + 2"

definition RELAY_PAYLOAD_SIZE_MAX :: nat where
  "RELAY_PAYLOAD_SIZE_MAX = CELL_PAYLOAD_SIZE - RELAY_HEADER_SIZE_V0"

definition relay_cell_max_payload_size :: "relay_cell_fmt_t \<Rightarrow> u8 \<Rightarrow> nat" where
  "relay_cell_max_payload_size format relay_command =
     (case format of
        RELAY_CELL_FORMAT_V0 \<Rightarrow> CELL_PAYLOAD_SIZE - RELAY_HEADER_SIZE_V0
      | RELAY_CELL_FORMAT_V1 \<Rightarrow>
          if relay_cmd_expects_streamid_in_v1 relay_command then
            CELL_PAYLOAD_SIZE - RELAY_HEADER_SIZE_V1_WITH_STREAM_ID
          else CELL_PAYLOAD_SIZE - RELAY_HEADER_SIZE_V1_NO_STREAM_ID)"

subsection \<open>Messages\<close>

record relay_msg_t =
  rm_command :: u8
  rm_length :: u16
  rm_stream_id :: u16
  rm_is_relay_early :: bool
  rm_body :: "byte list"

definition relay_msg_clear :: relay_msg_t where
  "relay_msg_clear = \<lparr>rm_command = 0, rm_length = 0, rm_stream_id = 0, rm_is_relay_early = False, rm_body = []\<rparr>"

definition relay_msg_copy :: "relay_msg_t \<Rightarrow> relay_msg_t option" where
  "relay_msg_copy msg =
     do {
       guard (unat (rm_length msg) \<le> RELAY_PAYLOAD_SIZE_MAX);
       let body = replicate (unat (rm_length msg)) 0;
       let new_msg = msg;
       d \<leftarrow> arr_slice (rm_body msg) 0 (unat (rm_length msg));
       body \<leftarrow> arr_blit body 0 d;
       Some (new_msg\<lparr>rm_body := body\<rparr>)
     }"

abbreviation V0_CMD_OFFSET :: nat where "V0_CMD_OFFSET \<equiv> 0"
abbreviation V0_STREAM_ID_OFFSET :: nat where "V0_STREAM_ID_OFFSET \<equiv> 3"
abbreviation V0_LEN_OFFSET :: nat where "V0_LEN_OFFSET \<equiv> 9"
abbreviation V0_PAYLOAD_OFFSET :: nat where "V0_PAYLOAD_OFFSET \<equiv> 11"
abbreviation V1_CMD_OFFSET :: nat where "V1_CMD_OFFSET \<equiv> 16"
abbreviation V1_LEN_OFFSET :: nat where "V1_LEN_OFFSET \<equiv> 17"
abbreviation V1_STREAM_ID_OFFSET :: nat where "V1_STREAM_ID_OFFSET \<equiv> 19"
abbreviation V1_PAYLOAD_OFFSET_NO_STREAM_ID :: nat where "V1_PAYLOAD_OFFSET_NO_STREAM_ID \<equiv> 19"
abbreviation V1_PAYLOAD_OFFSET_WITH_STREAM_ID :: nat where "V1_PAYLOAD_OFFSET_WITH_STREAM_ID \<equiv> 21"

subsection \<open>Encoding\<close>

definition relay_cell_pad :: "(nat \<Rightarrow> byte list) \<Rightarrow> cell_t \<Rightarrow> nat \<Rightarrow> cell_t option" where
  "relay_cell_pad rnd cell end_of_message =
     (let skip = 4 in
      if CELL_PAYLOAD_SIZE \<le> end_of_message + skip then Some cell
      else
        do {
          payload \<leftarrow> arr_blit (c_payload cell) (end_of_message + skip)
                       (rnd (CELL_PAYLOAD_SIZE - (end_of_message + skip)));
          Some (cell\<lparr>c_payload := payload\<rparr>)
        })"

definition encode_v0_cell :: "(nat \<Rightarrow> byte list) \<Rightarrow> relay_msg_t \<Rightarrow> cell_t \<Rightarrow> (int \<times> cell_t) option" where
  "encode_v0_cell rnd msg cell_out =
     (let maxlen = relay_cell_max_payload_size RELAY_CELL_FORMAT_V0 (rm_command msg) in
      if maxlen < unat (rm_length msg) then Some (-1, cell_out)
      else
        do {
          let out = c_payload cell_out;
          out \<leftarrow> arr_set out V0_CMD_OFFSET (rm_command msg);
          out \<leftarrow> set_uint16 out V0_STREAM_ID_OFFSET (htons (rm_stream_id msg));
          out \<leftarrow> set_uint16 out V0_LEN_OFFSET (htons (rm_length msg));
          body \<leftarrow> arr_slice (rm_body msg) 0 (unat (rm_length msg));
          out \<leftarrow> arr_blit out RELAY_HEADER_SIZE_V0 body;
          cell_out \<leftarrow> relay_cell_pad rnd (cell_out\<lparr>c_payload := out\<rparr>)
                        (RELAY_HEADER_SIZE_V0 + unat (rm_length msg));
          Some (0, cell_out)
        })"

definition encode_v1_cell :: "(nat \<Rightarrow> byte list) \<Rightarrow> relay_msg_t \<Rightarrow> cell_t \<Rightarrow> (int \<times> cell_t) option" where
  "encode_v1_cell rnd msg cell_out =
     (let expects_streamid = relay_cmd_expects_streamid_in_v1 (rm_command msg);
          maxlen = relay_cell_max_payload_size RELAY_CELL_FORMAT_V1 (rm_command msg)
      in
      if maxlen < unat (rm_length msg) then Some (-1, cell_out)
      else
        do {
          let out = c_payload cell_out;
          out \<leftarrow> arr_set out V1_CMD_OFFSET (rm_command msg);
          out \<leftarrow> set_uint16 out V1_LEN_OFFSET (htons (rm_length msg));
          (if expects_streamid \<and> rm_stream_id msg = 0 then Some (-1, cell_out\<lparr>c_payload := out\<rparr>)
           else if \<not> expects_streamid \<and> rm_stream_id msg \<noteq> 0 then Some (-1, cell_out\<lparr>c_payload := out\<rparr>)
           else
             do {
               out \<leftarrow> (if expects_streamid then set_uint16 out V1_STREAM_ID_OFFSET (htons (rm_stream_id msg))
                      else Some out);
               let payload_offset = (if expects_streamid then V1_PAYLOAD_OFFSET_WITH_STREAM_ID
                                     else V1_PAYLOAD_OFFSET_NO_STREAM_ID);
               body \<leftarrow> arr_slice (rm_body msg) 0 (unat (rm_length msg));
               out \<leftarrow> arr_blit out payload_offset body;
               cell_out \<leftarrow> relay_cell_pad rnd (cell_out\<lparr>c_payload := out\<rparr>)
                             (payload_offset + unat (rm_length msg));
               Some (0, cell_out)
             })
        })"

definition relay_msg_encode_cell ::
    "(nat \<Rightarrow> byte list) \<Rightarrow> relay_cell_fmt_t \<Rightarrow> relay_msg_t \<Rightarrow> (int \<times> cell_t) option" where
  "relay_msg_encode_cell rnd format msg =
     (let cell_out = \<lparr>c_circ_id = 0,
                      c_command = (if rm_is_relay_early msg then CELL_RELAY_EARLY else CELL_RELAY),
                      c_payload = replicate CELL_PAYLOAD_SIZE 0\<rparr>
      in
      case format of
        RELAY_CELL_FORMAT_V0 \<Rightarrow> encode_v0_cell rnd msg cell_out
      | RELAY_CELL_FORMAT_V1 \<Rightarrow> encode_v1_cell rnd msg cell_out)"

subsection \<open>Decoding\<close>

definition decode_v0_cell :: "cell_t \<Rightarrow> (int \<times> relay_msg_t) option" where
  "decode_v0_cell cell =
     do {
       let out = relay_msg_clear;
       let out = out\<lparr>rm_is_relay_early := (c_command cell = CELL_RELAY_EARLY)\<rparr>;
       let body = c_payload cell;
       command \<leftarrow> get_uint8 body V0_CMD_OFFSET;
       let out = out\<lparr>rm_command := command\<rparr>;
       stream_id \<leftarrow> get_uint16 body V0_STREAM_ID_OFFSET;
       let out = out\<lparr>rm_stream_id := ntohs stream_id\<rparr>;
       len \<leftarrow> get_uint16 body V0_LEN_OFFSET;
       let out = out\<lparr>rm_length := ntohs len\<rparr>;
       (if CELL_PAYLOAD_SIZE - RELAY_HEADER_SIZE_V0 < unat (rm_length out) then Some (-1, out)
        else Some (0, out\<lparr>rm_body := drop V0_PAYLOAD_OFFSET body\<rparr>))
     }"

definition decode_v1_cell :: "cell_t \<Rightarrow> (int \<times> relay_msg_t) option" where
  "decode_v1_cell cell =
     do {
       let out = relay_msg_clear;
       let out = out\<lparr>rm_is_relay_early := (c_command cell = CELL_RELAY_EARLY)\<rparr>;
       let body = c_payload cell;
       command \<leftarrow> get_uint8 body V1_CMD_OFFSET;
       let out = out\<lparr>rm_command := command\<rparr>;
       (if \<not> is_known_relay_command (rm_command out) then Some (-1, out)
        else
          do {
            len \<leftarrow> get_uint16 body V1_LEN_OFFSET;
            let out = out\<lparr>rm_length := ntohs len\<rparr>;
            (out, payload_offset) \<leftarrow>
              (if relay_cmd_expects_streamid_in_v1 (rm_command out) then
                 do {
                   stream_id \<leftarrow> get_uint16 body V1_STREAM_ID_OFFSET;
                   Some (out\<lparr>rm_stream_id := ntohs stream_id\<rparr>, V1_PAYLOAD_OFFSET_WITH_STREAM_ID)
                 }
               else Some (out, V1_PAYLOAD_OFFSET_NO_STREAM_ID));
            (if CELL_PAYLOAD_SIZE - payload_offset < unat (rm_length out) then Some (-1, out)
             else Some (0, out\<lparr>rm_body := drop payload_offset body\<rparr>))
          })
     }"

definition relay_msg_decode_cell_in_place :: "relay_cell_fmt_t \<Rightarrow> cell_t \<Rightarrow> (int \<times> relay_msg_t) option" where
  "relay_msg_decode_cell_in_place format cell =
     (case format of
        RELAY_CELL_FORMAT_V0 \<Rightarrow> decode_v0_cell cell
      | RELAY_CELL_FORMAT_V1 \<Rightarrow> decode_v1_cell cell)"

definition relay_msg_decode_cell :: "relay_cell_fmt_t \<Rightarrow> cell_t \<Rightarrow> relay_msg_t option option" where
  "relay_msg_decode_cell format cell =
     do {
       (r, msg) \<leftarrow> relay_msg_decode_cell_in_place format cell;
       Some (if r < 0 then None else Some msg)
     }"

subsection \<open>The bytes of an encoded message\<close>

lemmas payload_sizes = CELL_PAYLOAD_SIZE_def RELAY_HEADER_SIZE_V0_def RELAY_HEADER_SIZE_V1_NO_STREAM_ID_def
  RELAY_HEADER_SIZE_V1_WITH_STREAM_ID_def

lemma blit_zeros:
  assumes "length xs \<le> p" "p + length ys \<le> length xs + n"
  shows "arr_blit (xs @ replicate n 0) p ys
    = Some ((xs @ replicate (p - length xs) 0 @ ys) @ replicate (length xs + n - p - length ys) 0)"
proof -
  have "take p (xs @ replicate n 0) = xs @ replicate (p - length xs) 0"
    using assms by (simp add: take_replicate)
  moreover have "drop (p + length ys) (xs @ replicate n 0) = replicate (length xs + n - p - length ys) 0"
    using assms by (simp add: drop_replicate)
  ultimately show ?thesis using assms by (simp add: arr_blit_def)
qed

text \<open>What follows a message: some zeros, then random bytes.\<close>

definition relay_padding :: "(nat \<Rightarrow> byte list) \<Rightarrow> nat \<Rightarrow> byte list" where
  "relay_padding rnd n =
     (if 509 \<le> n + 4 then replicate (509 - n) 0 else replicate 4 0 @ rnd (509 - (n + 4)))"

lemma length_relay_padding:
  "(\<And>n. length (rnd n) = n) \<Longrightarrow> n \<le> 509 \<Longrightarrow> length (relay_padding rnd n) = 509 - n"
  by (simp add: relay_padding_def)

lemma relay_cell_pad_zeros:
  assumes "\<And>n. length (rnd n) = n" "length xs \<le> 509"
  shows "relay_cell_pad rnd (cell\<lparr>c_payload := xs @ replicate (509 - length xs) 0\<rparr>) (length xs)
    = Some (cell\<lparr>c_payload := xs @ relay_padding rnd (length xs)\<rparr>)"
proof (cases "509 \<le> length xs + 4")
  case False
  then show ?thesis
    using assms blit_zeros [of xs "length xs + 4" "rnd (509 - (length xs + 4))" "509 - length xs"]
    by (simp add: relay_cell_pad_def relay_padding_def payload_sizes Let_def)
qed (simp add: relay_cell_pad_def relay_padding_def payload_sizes)

definition relay_header :: "relay_cell_fmt_t \<Rightarrow> relay_msg_t \<Rightarrow> byte list" where
  "relay_header format msg =
     (case format of
        RELAY_CELL_FORMAT_V0 \<Rightarrow>
          [rm_command msg] @ replicate 2 0 @ mem_bytes 2 (htons (rm_stream_id msg)) @ replicate 4 0
            @ mem_bytes 2 (htons (rm_length msg))
      | RELAY_CELL_FORMAT_V1 \<Rightarrow>
          replicate 16 0 @ [rm_command msg] @ mem_bytes 2 (htons (rm_length msg))
            @ (if relay_cmd_expects_streamid_in_v1 (rm_command msg) then mem_bytes 2 (htons (rm_stream_id msg)) else []))"

definition relay_payload :: "(nat \<Rightarrow> byte list) \<Rightarrow> relay_cell_fmt_t \<Rightarrow> relay_msg_t \<Rightarrow> byte list" where
  "relay_payload rnd format msg =
     (let xs = relay_header format msg @ take (unat (rm_length msg)) (rm_body msg)
      in xs @ relay_padding rnd (length xs))"

text \<open>The messages that the encoder accepts.\<close>

definition relay_msg_ok :: "relay_cell_fmt_t \<Rightarrow> relay_msg_t \<Rightarrow> bool" where
  "relay_msg_ok format msg \<longleftrightarrow>
     unat (rm_length msg) \<le> relay_cell_max_payload_size format (rm_command msg)
     \<and> (format = RELAY_CELL_FORMAT_V1 \<longrightarrow>
          (relay_cmd_expects_streamid_in_v1 (rm_command msg) \<longleftrightarrow> rm_stream_id msg \<noteq> 0))"

lemma length_relay_header:
  "length (relay_header format msg) = 509 - relay_cell_max_payload_size format (rm_command msg)"
  by (cases format) (simp_all add: relay_header_def relay_cell_max_payload_size_def payload_sizes)

lemma length_relay_payload:
  assumes "\<And>n. length (rnd n) = n" "relay_msg_ok format msg" "unat (rm_length msg) \<le> length (rm_body msg)"
  shows "length (relay_payload rnd format msg) = 509"
proof -
  have "relay_cell_max_payload_size format (rm_command msg) \<le> 509"
    by (cases format) (simp_all add: relay_cell_max_payload_size_def payload_sizes)
  moreover define xs where "xs = relay_header format msg @ take (unat (rm_length msg)) (rm_body msg)"
  moreover have "unat (rm_length msg) \<le> relay_cell_max_payload_size format (rm_command msg)"
    using assms(2) by (simp add: relay_msg_ok_def)
  ultimately have "length xs \<le> 509"
    using assms(3) by (simp add: length_relay_header)
  then show ?thesis
    using length_relay_padding [OF assms(1)] by (simp add: relay_payload_def xs_def [symmetric] Let_def)
qed

lemma encode_v0_form:
  assumes "\<And>n. length (rnd n) = n" "relay_msg_ok RELAY_CELL_FORMAT_V0 msg"
    "unat (rm_length msg) \<le> length (rm_body msg)"
  shows "relay_msg_encode_cell rnd RELAY_CELL_FORMAT_V0 msg = Some (0,
    \<lparr>c_circ_id = 0, c_command = (if rm_is_relay_early msg then CELL_RELAY_EARLY else CELL_RELAY),
     c_payload = relay_payload rnd RELAY_CELL_FORMAT_V0 msg\<rparr>)"
proof -
  define l where "l = unat (rm_length msg)"
  define body where "body = take l (rm_body msg)"
  define h where "h = relay_header RELAY_CELL_FORMAT_V0 msg"
  have l: "l \<le> 498" "length body = l"
    using assms by (auto simp: l_def body_def relay_msg_ok_def relay_cell_max_payload_size_def payload_sizes)
  have 1: "arr_set (replicate 509 0) 0 (rm_command msg) = Some ([rm_command msg] @ replicate 508 0)"
    using replicate_Suc [of 508 "0 :: byte"] by (simp add: arr_set_def)
  have 2: "set_uint16 ([rm_command msg] @ replicate 508 0) 3 v
      = Some (([rm_command msg] @ replicate 2 0 @ mem_bytes 2 v) @ replicate 504 0)" for v
    unfolding set_uint16_def using blit_zeros [of "[rm_command msg]" 3 "mem_bytes 2 v" 508] by simp
  have 3: "set_uint16 (([rm_command msg] @ replicate 2 0 @ mem_bytes 2 v) @ replicate 504 0) 9 w
      = Some (([rm_command msg] @ replicate 2 0 @ mem_bytes 2 v @ replicate 4 0 @ mem_bytes 2 w) @ replicate 498 0)"
    for v w
    unfolding set_uint16_def
    using blit_zeros [of "[rm_command msg] @ replicate 2 0 @ mem_bytes 2 v" 9 "mem_bytes 2 w" 504] by simp
  have h: "length h = 11" by (simp add: h_def relay_header_def)
  have 4: "arr_blit (h @ replicate 498 0) 11 body = Some ((h @ body) @ replicate (498 - l) 0)"
    using blit_zeros [of h 11 body 498] l h by simp
  have 5: "relay_cell_pad rnd (cell\<lparr>c_payload := (h @ body) @ replicate (498 - l) 0\<rparr>) (11 + l)
      = Some (cell\<lparr>c_payload := (h @ body) @ relay_padding rnd (11 + l)\<rparr>)" for cell :: cell_t
    using relay_cell_pad_zeros [OF assms(1), of "h @ body" cell] l h by simp
  have s: "arr_slice (rm_body msg) 0 l = Some body"
    using assms(3) by (simp add: arr_slice_def l_def body_def)
  have hh: "[rm_command msg] @ replicate 2 0 @ mem_bytes 2 (htons (rm_stream_id msg)) @ replicate 4 0
      @ mem_bytes 2 (htons (rm_length msg)) = h"
    by (simp add: h_def relay_header_def)
  show ?thesis
    unfolding relay_msg_encode_cell_def encode_v0_cell_def Let_def relay_cell_fmt_t.case l_def [symmetric]
      cell_t.simps payload_sizes relay_cell_max_payload_size_def
    using l by (simp only: 1 2 3 hh s Option.bind.simps) (simp add: 4 5 [of "\<lparr>c_circ_id = _, c_command = _, c_payload = _\<rparr>", simplified]
        relay_payload_def Let_def h_def [symmetric] l_def [symmetric] body_def [symmetric] h)
qed

lemma encode_v1_form:
  assumes "\<And>n. length (rnd n) = n" "relay_msg_ok RELAY_CELL_FORMAT_V1 msg"
    "unat (rm_length msg) \<le> length (rm_body msg)"
  shows "relay_msg_encode_cell rnd RELAY_CELL_FORMAT_V1 msg = Some (0,
    \<lparr>c_circ_id = 0, c_command = (if rm_is_relay_early msg then CELL_RELAY_EARLY else CELL_RELAY),
     c_payload = relay_payload rnd RELAY_CELL_FORMAT_V1 msg\<rparr>)"
proof -
  define l where "l = unat (rm_length msg)"
  define body where "body = take l (rm_body msg)"
  define h where "h = relay_header RELAY_CELL_FORMAT_V1 msg"
  define e where "e = relay_cmd_expects_streamid_in_v1 (rm_command msg)"
  define off where "off = (if e then 21 else 19 :: nat)"
  define f where "f = replicate 16 0 @ [rm_command msg] @ mem_bytes 2 (htons (rm_length msg))"
  have l: "l \<le> 509 - off" "length body = l" "off \<le> 21"
    using assms by (auto simp: l_def body_def off_def e_def relay_msg_ok_def relay_cell_max_payload_size_def payload_sizes)
  have sid: "(e \<and> rm_stream_id msg = 0) = False" "(\<not> e \<and> rm_stream_id msg \<noteq> 0) = False"
    using assms(2) by (auto simp: e_def relay_msg_ok_def)
  have "(replicate 509 0 :: byte list) = replicate 16 0 @ [0] @ replicate 492 0"
    using replicate_add [of 16 "Suc 492" "0 :: byte"] replicate_Suc [of 492 "0 :: byte"] by simp
  then have 1: "arr_set (replicate 509 0) 16 (rm_command msg) = Some ((replicate 16 0 @ [rm_command msg]) @ replicate 492 0)"
    by (simp add: arr_set_def list_update_append)
  have 2: "set_uint16 ((replicate 16 0 @ [rm_command msg]) @ replicate 492 0) 17 (htons (rm_length msg))
      = Some (f @ replicate 490 0)"
    unfolding set_uint16_def f_def
    using blit_zeros [of "replicate 16 0 @ [rm_command msg]" 17 "mem_bytes 2 (htons (rm_length msg))" 492] by simp
  have hf: "h = f @ (if e then mem_bytes 2 (htons (rm_stream_id msg)) else [])" "length f = 19" "length h = off"
    by (simp_all add: h_def f_def e_def off_def relay_header_def)
  have 3: "(if e then set_uint16 (f @ replicate 490 0) 19 (htons (rm_stream_id msg)) else Some (f @ replicate 490 0))
      = Some (h @ replicate (509 - off) 0)"
    unfolding set_uint16_def
    using blit_zeros [of f 19 "mem_bytes 2 (htons (rm_stream_id msg))" 490] hf(2) by (simp add: hf(1) off_def)
  have 4: "arr_blit (h @ replicate (509 - off) 0) off body = Some ((h @ body) @ replicate (509 - (off + l)) 0)"
    using blit_zeros [of h off body "509 - off"] l hf(3) by simp
  have 5: "relay_cell_pad rnd (cell\<lparr>c_payload := (h @ body) @ replicate (509 - (off + l)) 0\<rparr>) (off + l)
      = Some (cell\<lparr>c_payload := (h @ body) @ relay_padding rnd (off + l)\<rparr>)" for cell :: cell_t
    using relay_cell_pad_zeros [OF assms(1), of "h @ body" cell] l hf(3) by simp
  have s: "arr_slice (rm_body msg) 0 l = Some body"
    using assms(3) by (simp add: arr_slice_def l_def body_def)
  have max: "\<not> relay_cell_max_payload_size RELAY_CELL_FORMAT_V1 (rm_command msg) < l"
    using assms(2) by (simp add: relay_msg_ok_def l_def)
  have off: "(if e then V1_PAYLOAD_OFFSET_WITH_STREAM_ID else V1_PAYLOAD_OFFSET_NO_STREAM_ID) = off"
    by (simp add: off_def)
  show ?thesis
    unfolding relay_msg_encode_cell_def encode_v1_cell_def Let_def relay_cell_fmt_t.case l_def [symmetric]
      cell_t.simps CELL_PAYLOAD_SIZE_def e_def [symmetric] off
    by (simp only: 1 2 3 s sid max Option.bind.simps if_False) (simp add: 4 5 [of "\<lparr>c_circ_id = _, c_command = _, c_payload = _\<rparr>", simplified]
        relay_payload_def Let_def h_def [symmetric] l_def [symmetric] body_def [symmetric] l hf(3))
qed

lemma encode_form:
  assumes "\<And>n. length (rnd n) = n" "relay_msg_ok format msg" "unat (rm_length msg) \<le> length (rm_body msg)"
  shows "relay_msg_encode_cell rnd format msg = Some (0,
    \<lparr>c_circ_id = 0, c_command = (if rm_is_relay_early msg then CELL_RELAY_EARLY else CELL_RELAY),
     c_payload = relay_payload rnd format msg\<rparr>)"
  using encode_v0_form [OF assms(1)] encode_v1_form [OF assms(1)] assms(2,3) by (cases format) simp_all

text \<open>Decoding reads the fields back, whatever the first bytes that the cryptography uses hold.\<close>

lemma decode_v0_form:
  assumes "length z2 = 2" "length z4 = 4" "unat (rm_length msg) \<le> 498"
  shows "decode_v0_cell \<lparr>c_circ_id = cid, c_command = cmd,
      c_payload = [rm_command msg] @ z2 @ mem_bytes 2 (htons (rm_stream_id msg)) @ z4
        @ mem_bytes 2 (htons (rm_length msg)) @ rest\<rparr>
    = Some (0, \<lparr>rm_command = rm_command msg, rm_length = rm_length msg, rm_stream_id = rm_stream_id msg,
        rm_is_relay_early = (cmd = CELL_RELAY_EARLY), rm_body = rest\<rparr>)"
  using assms
  by (simp add: decode_v0_cell_def Let_def get_uint8_def arr_get_def get_uint16_def arr_slice_def payload_sizes
      relay_msg_clear_def)

lemma decode_v1_form:
  assumes "length z = 16" "relay_msg_ok RELAY_CELL_FORMAT_V1 msg" "is_known_relay_command (rm_command msg)"
  shows "decode_v1_cell \<lparr>c_circ_id = cid, c_command = cmd,
      c_payload = z @ [rm_command msg] @ mem_bytes 2 (htons (rm_length msg))
        @ (if relay_cmd_expects_streamid_in_v1 (rm_command msg) then mem_bytes 2 (htons (rm_stream_id msg)) else []) @ rest\<rparr>
    = Some (0, \<lparr>rm_command = rm_command msg, rm_length = rm_length msg, rm_stream_id = rm_stream_id msg,
        rm_is_relay_early = (cmd = CELL_RELAY_EARLY), rm_body = rest\<rparr>)"
  using assms
  by (auto simp: decode_v1_cell_def Let_def get_uint8_def arr_get_def nth_append get_uint16_def arr_slice_def payload_sizes
      relay_msg_clear_def relay_msg_ok_def relay_cell_max_payload_size_def)

lemma decode_payload:
  assumes "relay_msg_ok format msg" "format = RELAY_CELL_FORMAT_V1 \<longrightarrow> is_known_relay_command (rm_command msg)"
    "c_payload cell = relay_header format msg @ rest"
  shows "relay_msg_decode_cell_in_place format cell = Some (0,
    \<lparr>rm_command = rm_command msg, rm_length = rm_length msg, rm_stream_id = rm_stream_id msg,
     rm_is_relay_early = (c_command cell = CELL_RELAY_EARLY), rm_body = rest\<rparr>)"
proof -
  have "cell = \<lparr>c_circ_id = c_circ_id cell, c_command = c_command cell, c_payload = relay_header format msg @ rest\<rparr>"
    using assms(3) by simp
  moreover have "format = RELAY_CELL_FORMAT_V0 \<Longrightarrow> unat (rm_length msg) \<le> 498"
    using assms(1) by (simp add: relay_msg_ok_def relay_cell_max_payload_size_def payload_sizes)
  ultimately show ?thesis
    using assms(1,2) decode_v0_form [of "replicate 2 0" "replicate 4 0" msg "c_circ_id cell" "c_command cell" rest]
      decode_v1_form [of "replicate 16 0" msg "c_circ_id cell" "c_command cell" rest]
    by (cases format) (simp_all add: relay_msg_decode_cell_in_place_def relay_header_def)
qed

text \<open>
  C10: A relay message that is written into a cell in either format is read back from it with its
  command, length, stream, flag and body. The message is one that the encoder does not refuse, its body
  has as many bytes as its length says, and in the newer format its command is a known one: the
  encoder writes unknown commands too, and the decoder of that format rejects them. The payload is
  filled exactly, and the bytes that the relay cryptography will overwrite are zero.
\<close>

theorem relay_msg_roundtrip:
  assumes "\<And>n. length (rnd n) = n" "relay_msg_ok format msg" "unat (rm_length msg) \<le> length (rm_body msg)"
    and "format = RELAY_CELL_FORMAT_V1 \<longrightarrow> is_known_relay_command (rm_command msg)"
  shows "\<exists>cell msg'. relay_msg_encode_cell rnd format msg = Some (0, cell)
    \<and> length (c_payload cell) = CELL_PAYLOAD_SIZE
    \<and> (if format = RELAY_CELL_FORMAT_V0 then take 2 (drop 1 (c_payload cell)) = replicate 2 0
           \<and> take 4 (drop 5 (c_payload cell)) = replicate 4 0
       else take 16 (c_payload cell) = replicate 16 0)
    \<and> relay_msg_decode_cell format cell = Some (Some msg')
    \<and> rm_command msg' = rm_command msg \<and> rm_length msg' = rm_length msg
    \<and> rm_stream_id msg' = rm_stream_id msg \<and> rm_is_relay_early msg' = rm_is_relay_early msg
    \<and> take (unat (rm_length msg)) (rm_body msg') = take (unat (rm_length msg)) (rm_body msg)"
proof -
  define body where "body = take (unat (rm_length msg)) (rm_body msg)"
  define cell where "cell = \<lparr>c_circ_id = 0, c_command = (if rm_is_relay_early msg then CELL_RELAY_EARLY else CELL_RELAY),
     c_payload = relay_payload rnd format msg\<rparr>"
  obtain pad where p: "relay_payload rnd format msg = relay_header format msg @ body @ pad"
    by (simp add: relay_payload_def Let_def body_def)
  have body: "length body = unat (rm_length msg)" using assms(3) by (simp add: body_def)
  have "relay_msg_encode_cell rnd format msg = Some (0, cell)"
    using encode_form [OF assms(1-3)] by (simp add: cell_def)
  moreover have "length (c_payload cell) = CELL_PAYLOAD_SIZE"
    using length_relay_payload [OF assms(1-3)] by (simp add: cell_def payload_sizes)
  moreover have "if format = RELAY_CELL_FORMAT_V0 then take 2 (drop 1 (c_payload cell)) = replicate 2 0
           \<and> take 4 (drop 5 (c_payload cell)) = replicate 4 0
       else take 16 (c_payload cell) = replicate 16 0"
    unfolding cell_def cell_t.simps p by (cases format) (simp_all add: relay_header_def)
  moreover have "relay_msg_decode_cell_in_place format cell = Some (0,
      \<lparr>rm_command = rm_command msg, rm_length = rm_length msg, rm_stream_id = rm_stream_id msg,
       rm_is_relay_early = (c_command cell = CELL_RELAY_EARLY), rm_body = body @ pad\<rparr>)"
    using assms(2,4) by (rule decode_payload) (simp add: cell_def p)
  moreover have "(c_command cell = CELL_RELAY_EARLY) = rm_is_relay_early msg"
    by (simp add: cell_def CELL_RELAY_EARLY_def CELL_RELAY_def)
  ultimately show ?thesis by (auto simp: relay_msg_decode_cell_def body body_def [symmetric])
qed

theorem relay_msg_roundtrip_witness:
  "\<exists>cell msg'. relay_msg_encode_cell (\<lambda>n. replicate n 7) RELAY_CELL_FORMAT_V1
      \<lparr>rm_command = RELAY_COMMAND_DATA, rm_length = 3, rm_stream_id = 258, rm_is_relay_early = False, rm_body = [1, 2, 3]\<rparr>
      = Some (0, cell)
    \<and> relay_msg_decode_cell RELAY_CELL_FORMAT_V1 cell = Some (Some msg')
    \<and> rm_stream_id msg' = 258 \<and> take 3 (rm_body msg') = [1, 2, 3]"
proof -
  have "relay_msg_ok RELAY_CELL_FORMAT_V1
      \<lparr>rm_command = RELAY_COMMAND_DATA, rm_length = 3, rm_stream_id = 258, rm_is_relay_early = False, rm_body = [1, 2, 3]\<rparr>"
    by (simp add: relay_msg_ok_def relay_cell_max_payload_size_def relay_cmd_expects_streamid_in_v1_def payload_sizes)
  then show ?thesis
    using relay_msg_roundtrip [of "\<lambda>n. replicate n 7" RELAY_CELL_FORMAT_V1
        "\<lparr>rm_command = RELAY_COMMAND_DATA, rm_length = 3, rm_stream_id = 258, rm_is_relay_early = False, rm_body = [1, 2, 3]\<rparr>"]
    by (auto simp: is_known_relay_command_def)
qed

text \<open>
  C19: Which messages and which lengths both sides accept. The encoder refuses a message exactly when its
  length does not fit the format or, in the newer format only, a stream is given for a command that
  has none or is missing for one that needs it. A message that it does not refuse fills exactly one
  cell, if the body has as many bytes as its length says; the encoder does not check that and otherwise reads
  behind the body. The decoder returns for every cell, whatever its bytes, and accepts exactly the
  lengths that the format allows, in the newer format of known commands only; the body of an accepted
  message has at least as many bytes as its length says.
\<close>

theorem relay_msg_length_bounds:
  assumes "\<And>n. length (rnd n) = n" "length (c_payload cell) = CELL_PAYLOAD_SIZE"
  shows "(if \<not> relay_msg_ok format msg then \<exists>out. relay_msg_encode_cell rnd format msg = Some (-1, out)
      else if unat (rm_length msg) \<le> length (rm_body msg) then
        \<exists>out. relay_msg_encode_cell rnd format msg = Some (0, out) \<and> length (c_payload out) = CELL_PAYLOAD_SIZE
      else relay_msg_encode_cell rnd format msg = None)
    \<and> (\<exists>r out. relay_msg_decode_cell_in_place format cell = Some (r, out)
        \<and> (r = 0 \<or> r = -1)
        \<and> (r = 0 \<longleftrightarrow> (format = RELAY_CELL_FORMAT_V1 \<longrightarrow> is_known_relay_command (rm_command out))
             \<and> unat (rm_length out) \<le> relay_cell_max_payload_size format (rm_command out))
        \<and> (r = 0 \<longrightarrow> unat (rm_length out) \<le> length (rm_body out)))"
proof
  show "if \<not> relay_msg_ok format msg then \<exists>out. relay_msg_encode_cell rnd format msg = Some (-1, out)
      else if unat (rm_length msg) \<le> length (rm_body msg) then
        \<exists>out. relay_msg_encode_cell rnd format msg = Some (0, out) \<and> length (c_payload out) = CELL_PAYLOAD_SIZE
      else relay_msg_encode_cell rnd format msg = None"
  proof (cases "relay_msg_ok format msg \<and> unat (rm_length msg) \<le> length (rm_body msg)")
    case True
    then show ?thesis
      using encode_form [OF assms(1), of format msg] length_relay_payload [OF assms(1), of format msg]
      by (simp add: payload_sizes)
  next
    case False
    then show ?thesis
      by (cases format)
        (auto simp: relay_msg_encode_cell_def encode_v0_cell_def encode_v1_cell_def relay_msg_ok_def Let_def
          payload_sizes arr_set_def set_uint16_def arr_blit_def arr_slice_def)
  qed
  show "\<exists>r out. relay_msg_decode_cell_in_place format cell = Some (r, out)
        \<and> (r = 0 \<or> r = -1)
        \<and> (r = 0 \<longleftrightarrow> (format = RELAY_CELL_FORMAT_V1 \<longrightarrow> is_known_relay_command (rm_command out))
             \<and> unat (rm_length out) \<le> relay_cell_max_payload_size format (rm_command out))
        \<and> (r = 0 \<longrightarrow> unat (rm_length out) \<le> length (rm_body out))"
    using assms(2)
    by (cases format)
      (auto simp: relay_msg_decode_cell_in_place_def decode_v0_cell_def decode_v1_cell_def Let_def payload_sizes
        get_uint8_def arr_get_def get_uint16_def arr_slice_def relay_cell_max_payload_size_def)
qed

text \<open>A cell with a message of five bytes, and a message that claims more bytes than it has.\<close>

definition cell_of_five :: cell_t where
  "cell_of_five = \<lparr>c_circ_id = 1, c_command = CELL_RELAY,
     c_payload = 0 # replicate 2 0 @ mem_bytes 2 (htons 0) @ replicate 4 0 @ mem_bytes 2 (htons 5) @ replicate 498 255\<rparr>"

theorem relay_msg_length_bounds_witness:
  "relay_msg_encode_cell (\<lambda>n. replicate n 7) RELAY_CELL_FORMAT_V0 (relay_msg_clear\<lparr>rm_length := 3, rm_body := [1, 2]\<rparr>) = None
    \<and> (\<exists>out. relay_msg_decode_cell_in_place RELAY_CELL_FORMAT_V0 cell_of_five = Some (0, out)
        \<and> rm_length out = 5 \<and> 5 \<le> length (rm_body out))"
proof -
  have "length (c_payload cell_of_five) = CELL_PAYLOAD_SIZE" by (simp add: cell_of_five_def payload_sizes)
  moreover have "relay_msg_ok RELAY_CELL_FORMAT_V0 (relay_msg_clear\<lparr>rm_length := 3, rm_body := [1, 2]\<rparr>)"
    by (simp add: relay_msg_ok_def relay_cell_max_payload_size_def payload_sizes)
  moreover have "\<exists>r body. relay_msg_decode_cell_in_place RELAY_CELL_FORMAT_V0 cell_of_five
      = Some (r, \<lparr>rm_command = 0, rm_length = 5, rm_stream_id = 0, rm_is_relay_early = False, rm_body = body\<rparr>)"
    using decode_v0_form [of "replicate 2 0" "replicate 4 0" "relay_msg_clear\<lparr>rm_length := 5\<rparr>" 1 CELL_RELAY "replicate 498 255"]
    by (simp add: relay_msg_decode_cell_in_place_def cell_of_five_def relay_msg_clear_def CELL_RELAY_def CELL_RELAY_EARLY_def)
  ultimately show ?thesis
    using relay_msg_length_bounds [of "\<lambda>n. replicate n 7" cell_of_five RELAY_CELL_FORMAT_V0
        "relay_msg_clear\<lparr>rm_length := 3, rm_body := [1, 2]\<rparr>"]
    by (auto simp: relay_cell_max_payload_size_def payload_sizes)
qed

end
