(* ===== verification/Crypt_Ops.thy ===== *)
theory Crypt_Ops
  imports Bytes
begin

section \<open>Ciphers and digests: \<^verbatim>\<open>lib/crypt_ops\<close>\<close>

text \<open>
  The wrappers around the cryptographic library that the relay cryptography calls. The library is a
  parameter, a record of the functions the code uses: AES in counter mode on contexts of the type
  \<open>'c\<close>, the AES block permutation and its inverse, and the hash functions. What the theorems need of
  them is stated in \<open>ctr_is_stream\<close>, \<open>ecb_is_permutation\<close> and \<open>hash_lengths\<close>: the documented
  behaviour of a stream cipher, a block cipher and a hash function. Of a digest object the model has
  the algorithm and the bytes added so far. \<open>None\<close> is a failed assertion.
\<close>

datatype digest_algorithm_t = DIGEST_SHA1 | DIGEST_SHA256 | DIGEST_SHA512 | DIGEST_SHA3_256 | DIGEST_SHA3_512

record 'c crypto_lib =
  ctr_init :: "nat \<Rightarrow> byte list \<Rightarrow> byte list \<Rightarrow> 'c"
  ctr_set_iv :: "'c \<Rightarrow> byte list \<Rightarrow> 'c"
  ctr_update :: "'c \<Rightarrow> byte list \<Rightarrow> byte list \<times> 'c"
  ecb_crypt :: "nat \<Rightarrow> bool \<Rightarrow> byte list \<Rightarrow> byte list \<Rightarrow> byte list"
  hash_of :: "digest_algorithm_t \<Rightarrow> byte list \<Rightarrow> byte list"

subsection \<open>AES in counter mode: \<^verbatim>\<open>aes_openssl.c\<close>, \<^verbatim>\<open>crypto_cipher.c\<close>\<close>

definition aes_new_cipher :: "'c crypto_lib \<Rightarrow> byte list \<Rightarrow> byte list \<Rightarrow> nat \<Rightarrow> 'c option" where
  "aes_new_cipher L key iv key_bits =
     do {
       guard (key_bits = 128 \<or> key_bits = 192 \<or> key_bits = 256);
       k \<leftarrow> arr_slice key 0 (key_bits div 8);
       v \<leftarrow> arr_slice iv 0 16;
       Some (ctr_init L key_bits k v)
     }"

definition aes_cipher_set_key :: "'c crypto_lib \<Rightarrow> byte list \<Rightarrow> nat \<Rightarrow> 'c option" where
  "aes_cipher_set_key L key key_bits =
     do {
       let iv = replicate 16 0;
       guard (key_bits = 128 \<or> key_bits = 192 \<or> key_bits = 256);
       k \<leftarrow> arr_slice key 0 (key_bits div 8);
       Some (ctr_init L key_bits k iv)
     }"

definition aes_cipher_set_iv_aligned :: "'c crypto_lib \<Rightarrow> 'c \<Rightarrow> byte list \<Rightarrow> 'c option" where
  "aes_cipher_set_iv_aligned L cipher iv =
     do {
       v \<leftarrow> arr_slice iv 0 16;
       Some (ctr_set_iv L cipher v)
     }"

definition aes_crypt_inplace :: "'c crypto_lib \<Rightarrow> 'c \<Rightarrow> byte list \<Rightarrow> nat \<Rightarrow> ('c \<times> byte list) option" where
  "aes_crypt_inplace L cipher data len =
     do {
       guard (int len < INT_MAX);
       d \<leftarrow> arr_slice data 0 len;
       let (out, cipher) = ctr_update L cipher d;
       data \<leftarrow> arr_blit data 0 out;
       Some (cipher, data)
     }"

abbreviation CIPHER_IV_LEN :: nat where "CIPHER_IV_LEN \<equiv> 16"

definition crypto_cipher_new_with_bits :: "'c crypto_lib \<Rightarrow> byte list \<Rightarrow> nat \<Rightarrow> 'c option" where
  "crypto_cipher_new_with_bits L key bits = aes_new_cipher L key (replicate CIPHER_IV_LEN 0) bits"

definition crypto_cipher_crypt_inplace :: "'c crypto_lib \<Rightarrow> 'c \<Rightarrow> byte list \<Rightarrow> nat \<Rightarrow> ('c \<times> byte list) option" where
  "crypto_cipher_crypt_inplace L env buf len =
     do {
       guard (len < SIZE_T_CEILING);
       aes_crypt_inplace L env buf len
     }"

subsection \<open>The AES block function: \<^verbatim>\<open>aes_openssl.c\<close>\<close>

text \<open>
  A context is initialised for one of the two directions; the library refuses to use it for the other
  one, which fails the assertion.
\<close>

record aes_raw_t =
  raw_bits :: nat
  raw_key :: "byte list"
  raw_encrypt :: bool

definition aes_raw_new :: "byte list \<Rightarrow> nat \<Rightarrow> bool \<Rightarrow> aes_raw_t option" where
  "aes_raw_new key key_bits encrypt =
     do {
       guard (key_bits = 128 \<or> key_bits = 192 \<or> key_bits = 256);
       k \<leftarrow> arr_slice key 0 (key_bits div 8);
       Some \<lparr>raw_bits = key_bits, raw_key = k, raw_encrypt = encrypt\<rparr>
     }"

definition aes_raw_set_key :: "byte list \<Rightarrow> nat \<Rightarrow> bool \<Rightarrow> aes_raw_t option" where
  "aes_raw_set_key key key_bits encrypt =
     do {
       guard (key_bits = 128 \<or> key_bits = 192 \<or> key_bits = 256);
       k \<leftarrow> arr_slice key 0 (key_bits div 8);
       Some \<lparr>raw_bits = key_bits, raw_key = k, raw_encrypt = encrypt\<rparr>
     }"

definition aes_raw_encrypt :: "'c crypto_lib \<Rightarrow> aes_raw_t \<Rightarrow> byte list \<Rightarrow> byte list option" where
  "aes_raw_encrypt L cipher block =
     do {
       guard (raw_encrypt cipher);
       b \<leftarrow> arr_slice block 0 16;
       arr_blit block 0 (ecb_crypt L (raw_bits cipher) True (raw_key cipher) b)
     }"

definition aes_raw_decrypt :: "'c crypto_lib \<Rightarrow> aes_raw_t \<Rightarrow> byte list \<Rightarrow> byte list option" where
  "aes_raw_decrypt L cipher block =
     do {
       guard (\<not> raw_encrypt cipher);
       b \<leftarrow> arr_slice block 0 16;
       arr_blit block 0 (ecb_crypt L (raw_bits cipher) False (raw_key cipher) b)
     }"

subsection \<open>Digests: \<^verbatim>\<open>crypto_digest.c\<close>, \<^verbatim>\<open>crypto_digest_openssl.c\<close>\<close>

abbreviation DIGEST_LEN :: nat where "DIGEST_LEN \<equiv> 20"

definition crypto_digest_algorithm_get_length :: "digest_algorithm_t \<Rightarrow> nat" where
  "crypto_digest_algorithm_get_length alg =
     (case alg of
        DIGEST_SHA1 \<Rightarrow> DIGEST_LEN
      | DIGEST_SHA256 \<Rightarrow> 32
      | DIGEST_SHA512 \<Rightarrow> 64
      | DIGEST_SHA3_256 \<Rightarrow> 32
      | DIGEST_SHA3_512 \<Rightarrow> 64)"

record crypto_digest_t =
  dg_algorithm :: digest_algorithm_t
  dg_data :: "byte list"

definition crypto_digest_new :: crypto_digest_t where
  "crypto_digest_new = \<lparr>dg_algorithm = DIGEST_SHA1, dg_data = []\<rparr>"

definition crypto_digest256_new :: "digest_algorithm_t \<Rightarrow> crypto_digest_t option" where
  "crypto_digest256_new algorithm =
     do {
       guard (algorithm = DIGEST_SHA256 \<or> algorithm = DIGEST_SHA3_256);
       Some \<lparr>dg_algorithm = algorithm, dg_data = []\<rparr>
     }"

definition crypto_digest_add_bytes :: "crypto_digest_t \<Rightarrow> byte list \<Rightarrow> nat \<Rightarrow> crypto_digest_t option" where
  "crypto_digest_add_bytes digest data len =
     do {
       d \<leftarrow> arr_slice data 0 len;
       Some (digest\<lparr>dg_data := dg_data digest @ d\<rparr>)
     }"

definition crypto_digest_get_digest :: "'c crypto_lib \<Rightarrow> crypto_digest_t \<Rightarrow> nat \<Rightarrow> byte list option" where
  "crypto_digest_get_digest L digest out_len =
     do {
       guard (out_len \<le> crypto_digest_algorithm_get_length (dg_algorithm digest));
       arr_slice (hash_of L (dg_algorithm digest) (dg_data digest)) 0 out_len
     }"

text \<open>
  A checkpoint is a copy of the whole object, which fits into it for every algorithm: the states of
  all hash functions are stored in the object itself.
\<close>

definition crypto_digest_checkpoint :: "crypto_digest_t \<Rightarrow> crypto_digest_t" where
  "crypto_digest_checkpoint digest = digest"

definition crypto_digest_restore :: "crypto_digest_t \<Rightarrow> crypto_digest_t \<Rightarrow> crypto_digest_t" where
  "crypto_digest_restore digest checkpoint = checkpoint"

subsection \<open>What is known of the library\<close>

definition xor_bytes :: "byte list \<Rightarrow> byte list \<Rightarrow> byte list" where
  "xor_bytes xs ys = map2 (\<lambda>x y. x XOR y) xs ys"

text \<open>The next bytes of the key stream of a context, and the context after them.\<close>

definition keystream :: "'c crypto_lib \<Rightarrow> 'c \<Rightarrow> nat \<Rightarrow> byte list" where
  "keystream L c n = fst (ctr_update L c (replicate n 0))"

definition ctr_after :: "'c crypto_lib \<Rightarrow> 'c \<Rightarrow> nat \<Rightarrow> 'c" where
  "ctr_after L c n = snd (ctr_update L c (replicate n 0))"

definition ctr_is_stream :: "'c crypto_lib \<Rightarrow> bool" where
  "ctr_is_stream L \<longleftrightarrow>
     (\<forall>c xs. ctr_update L c xs = (xor_bytes xs (keystream L c (length xs)), ctr_after L c (length xs))
        \<and> length (keystream L c (length xs)) = length xs)"

definition ecb_is_permutation :: "'c crypto_lib \<Rightarrow> bool" where
  "ecb_is_permutation L \<longleftrightarrow>
     (\<forall>bits key b e. length b = 16 \<longrightarrow>
        length (ecb_crypt L bits e key b) = 16
        \<and> ecb_crypt L bits (\<not> e) key (ecb_crypt L bits e key b) = b)"

definition hash_lengths :: "'c crypto_lib \<Rightarrow> bool" where
  "hash_lengths L \<longleftrightarrow> (\<forall>alg xs. length (hash_of L alg xs) = crypto_digest_algorithm_get_length alg)"

lemma length_xor_bytes [simp]: "length (xor_bytes xs ys) = min (length xs) (length ys)"
  by (simp add: xor_bytes_def)

lemma xor_bytes_twice: "length xs = length ys \<Longrightarrow> xor_bytes (xor_bytes xs ys) ys = xs"
  by (rule nth_equalityI) (auto simp: xor_bytes_def xor.assoc)

lemma ctr_updateD:
  assumes "ctr_is_stream L"
  shows "ctr_update L c xs = (xor_bytes xs (keystream L c (length xs)), ctr_after L c (length xs))"
    and "length (keystream L c n) = n"
proof -
  show "ctr_update L c xs = (xor_bytes xs (keystream L c (length xs)), ctr_after L c (length xs))"
    using assms by (simp add: ctr_is_stream_def)
  have "length (keystream L c (length (replicate n (0 :: byte)))) = length (replicate n (0 :: byte))"
    using assms unfolding ctr_is_stream_def by blast
  then show "length (keystream L c n) = n" by simp
qed

lemma aes_crypt_inplace_eq:
  assumes "ctr_is_stream L" "n \<le> length data" "n < 1000"
  shows "aes_crypt_inplace L c data n
    = Some (ctr_after L c n, xor_bytes (take n data) (keystream L c n) @ drop n data)"
  using assms
  by (simp add: aes_crypt_inplace_def INT_MAX_def arr_slice_def arr_blit_def ctr_updateD)

text \<open>Encrypting twice from the same context gives the data back.\<close>

lemma aes_crypt_twice:
  assumes "ctr_is_stream L" "n \<le> length data" "n < 1000" "aes_crypt_inplace L c data n = Some (c', data')"
  shows "aes_crypt_inplace L c data' n = Some (c', data)" "length data' = length data"
  using assms by (auto simp: aes_crypt_inplace_eq ctr_updateD xor_bytes_twice)

end
