(* ===== verification/Tor1_Crypt.thy ===== *)
theory Tor1_Crypt
  imports Crypt_Ops Cells
begin

section \<open>Relay cell encryption with AES and SHA-1: \<^verbatim>\<open>core/crypto/relay_crypto_tor1.c\<close>\<close>

text \<open>
  One layer of the original relay cryptography: a stream cipher over the whole payload in each
  direction, and a running digest of which four bytes travel in the cell. A null pointer is \<open>None\<close>.
\<close>

subsection \<open>State\<close>

record 'c tor1_crypt_t =
  f_crypto :: "'c option"
  b_crypto :: "'c option"
  f_digest :: "crypto_digest_t option"
  b_digest :: "crypto_digest_t option"
  sendme_digest :: "byte list"

text \<open>The object in zeroed memory.\<close>

definition tor1_zero :: "'c tor1_crypt_t" where
  "tor1_zero = \<lparr>f_crypto = None, b_crypto = None, f_digest = None, b_digest = None,
     sendme_digest = replicate DIGEST_LEN 0\<rparr>"

abbreviation V0_DIGEST_OFFSET :: nat where "V0_DIGEST_OFFSET \<equiv> 5"
abbreviation V0_DIGEST_LEN :: nat where "V0_DIGEST_LEN \<equiv> 4"
abbreviation V0_RECOGNIZED_OFFSET :: nat where "V0_RECOGNIZED_OFFSET \<equiv> 1"

subsection \<open>Digests of cells\<close>

definition tor1_set_digest_v0 ::
    "'c crypto_lib \<Rightarrow> crypto_digest_t \<Rightarrow> cell_t \<Rightarrow> byte list \<Rightarrow> (crypto_digest_t \<times> cell_t \<times> byte list) option" where
  "tor1_set_digest_v0 L digest cell buf =
     do {
       digest \<leftarrow> crypto_digest_add_bytes digest (c_payload cell) CELL_PAYLOAD_SIZE;
       d \<leftarrow> crypto_digest_get_digest L digest DIGEST_LEN;
       buf \<leftarrow> arr_blit buf 0 d;
       integrity \<leftarrow> arr_slice buf 0 V0_DIGEST_LEN;
       payload \<leftarrow> arr_blit (c_payload cell) V0_DIGEST_OFFSET integrity;
       Some (digest, cell\<lparr>c_payload := payload\<rparr>, buf)
     }"

definition tor1_relay_digest_matches_v0 ::
    "'c crypto_lib \<Rightarrow> crypto_digest_t \<Rightarrow> cell_t \<Rightarrow> byte list
     \<Rightarrow> (bool \<times> crypto_digest_t \<times> cell_t \<times> byte list) option" where
  "tor1_relay_digest_matches_v0 L digest cell buf =
     do {
       let backup_digest = crypto_digest_checkpoint digest;
       received \<leftarrow> arr_slice (c_payload cell) V0_DIGEST_OFFSET V0_DIGEST_LEN;
       let received_integrity = (of_bytes received :: u32);
       payload \<leftarrow> arr_fill (c_payload cell) V0_DIGEST_OFFSET V0_DIGEST_LEN 0;
       digest \<leftarrow> crypto_digest_add_bytes digest payload CELL_PAYLOAD_SIZE;
       calculated_digest \<leftarrow> crypto_digest_get_digest L digest DIGEST_LEN;
       calculated_integrity \<leftarrow> get_uint32 calculated_digest 0;
       (if calculated_integrity \<noteq> received_integrity then
          do {
            let digest = crypto_digest_restore digest backup_digest;
            payload \<leftarrow> arr_blit payload V0_DIGEST_OFFSET (mem_bytes 4 received_integrity);
            Some (False, digest, cell\<lparr>c_payload := payload\<rparr>, buf)
          }
        else
          do {
            buf \<leftarrow> arr_blit buf 0 calculated_digest;
            Some (True, digest, cell\<lparr>c_payload := payload\<rparr>, buf)
          })
     }"

definition relay_cell_is_recognized_v0 :: "cell_t \<Rightarrow> bool option" where
  "relay_cell_is_recognized_v0 cell =
     do {
       v \<leftarrow> get_uint16 (c_payload cell) V0_RECOGNIZED_OFFSET;
       Some (v = 0)
     }"

subsection \<open>Cells\<close>

definition tor1_crypt_one_payload :: "'c crypto_lib \<Rightarrow> 'c \<Rightarrow> byte list \<Rightarrow> ('c \<times> byte list) option" where
  "tor1_crypt_one_payload L cipher inp = crypto_cipher_crypt_inplace L cipher inp CELL_PAYLOAD_SIZE"

definition tor1_crypt_client_originate ::
    "'c crypto_lib \<Rightarrow> 'c tor1_crypt_t \<Rightarrow> cell_t \<Rightarrow> ('c tor1_crypt_t \<times> cell_t) option" where
  "tor1_crypt_client_originate L tor1 cell =
     do {
       digest \<leftarrow> f_digest tor1;
       (digest, cell, buf) \<leftarrow> tor1_set_digest_v0 L digest cell (sendme_digest tor1);
       cipher \<leftarrow> f_crypto tor1;
       (cipher, payload) \<leftarrow> tor1_crypt_one_payload L cipher (c_payload cell);
       Some (tor1\<lparr>f_crypto := Some cipher, f_digest := Some digest, sendme_digest := buf\<rparr>,
             cell\<lparr>c_payload := payload\<rparr>)
     }"

definition tor1_crypt_relay_originate ::
    "'c crypto_lib \<Rightarrow> 'c tor1_crypt_t \<Rightarrow> cell_t \<Rightarrow> ('c tor1_crypt_t \<times> cell_t) option" where
  "tor1_crypt_relay_originate L tor1 cell =
     do {
       digest \<leftarrow> b_digest tor1;
       (digest, cell, buf) \<leftarrow> tor1_set_digest_v0 L digest cell (sendme_digest tor1);
       cipher \<leftarrow> b_crypto tor1;
       (cipher, payload) \<leftarrow> tor1_crypt_one_payload L cipher (c_payload cell);
       Some (tor1\<lparr>b_crypto := Some cipher, b_digest := Some digest, sendme_digest := buf\<rparr>,
             cell\<lparr>c_payload := payload\<rparr>)
     }"

definition tor1_crypt_client_forward ::
    "'c crypto_lib \<Rightarrow> 'c tor1_crypt_t \<Rightarrow> cell_t \<Rightarrow> ('c tor1_crypt_t \<times> cell_t) option" where
  "tor1_crypt_client_forward L tor1 cell =
     do {
       cipher \<leftarrow> f_crypto tor1;
       (cipher, payload) \<leftarrow> tor1_crypt_one_payload L cipher (c_payload cell);
       Some (tor1\<lparr>f_crypto := Some cipher\<rparr>, cell\<lparr>c_payload := payload\<rparr>)
     }"

definition tor1_crypt_relay_backward ::
    "'c crypto_lib \<Rightarrow> 'c tor1_crypt_t \<Rightarrow> cell_t \<Rightarrow> ('c tor1_crypt_t \<times> cell_t) option" where
  "tor1_crypt_relay_backward L tor1 cell =
     do {
       cipher \<leftarrow> b_crypto tor1;
       (cipher, payload) \<leftarrow> tor1_crypt_one_payload L cipher (c_payload cell);
       Some (tor1\<lparr>b_crypto := Some cipher\<rparr>, cell\<lparr>c_payload := payload\<rparr>)
     }"

definition tor1_crypt_relay_forward ::
    "'c crypto_lib \<Rightarrow> 'c tor1_crypt_t \<Rightarrow> cell_t \<Rightarrow> (bool \<times> 'c tor1_crypt_t \<times> cell_t) option" where
  "tor1_crypt_relay_forward L tor1 cell =
     do {
       cipher \<leftarrow> f_crypto tor1;
       (cipher, payload) \<leftarrow> tor1_crypt_one_payload L cipher (c_payload cell);
       let tor1 = tor1\<lparr>f_crypto := Some cipher\<rparr>;
       let cell = cell\<lparr>c_payload := payload\<rparr>;
       recognized \<leftarrow> relay_cell_is_recognized_v0 cell;
       (if recognized then
          do {
            digest \<leftarrow> f_digest tor1;
            (matches, digest, cell, buf) \<leftarrow> tor1_relay_digest_matches_v0 L digest cell (sendme_digest tor1);
            Some (matches, tor1\<lparr>f_digest := Some digest, sendme_digest := buf\<rparr>, cell)
          }
        else Some (False, tor1, cell))
     }"

definition tor1_crypt_client_backward ::
    "'c crypto_lib \<Rightarrow> 'c tor1_crypt_t \<Rightarrow> cell_t \<Rightarrow> (bool \<times> 'c tor1_crypt_t \<times> cell_t) option" where
  "tor1_crypt_client_backward L tor1 cell =
     do {
       cipher \<leftarrow> b_crypto tor1;
       (cipher, payload) \<leftarrow> tor1_crypt_one_payload L cipher (c_payload cell);
       let tor1 = tor1\<lparr>b_crypto := Some cipher\<rparr>;
       let cell = cell\<lparr>c_payload := payload\<rparr>;
       recognized \<leftarrow> relay_cell_is_recognized_v0 cell;
       (if recognized then
          do {
            digest \<leftarrow> b_digest tor1;
            (matches, digest, cell, buf) \<leftarrow> tor1_relay_digest_matches_v0 L digest cell (sendme_digest tor1);
            Some (matches, tor1\<lparr>b_digest := Some digest, sendme_digest := buf\<rparr>, cell)
          }
        else Some (False, tor1, cell))
     }"

subsection \<open>Keys\<close>

definition CPATH_KEY_MATERIAL_LEN :: nat where
  "CPATH_KEY_MATERIAL_LEN = 20 * 2 + 16 * 2"

definition HS_NTOR_KEY_EXPANSION_KDF_OUT_LEN :: nat where
  "HS_NTOR_KEY_EXPANSION_KDF_OUT_LEN = 32 * 2 + 32 * 2"

definition tor1_key_material_len :: "bool \<Rightarrow> nat" where
  "tor1_key_material_len is_hs = (if is_hs then HS_NTOR_KEY_EXPANSION_KDF_OUT_LEN else CPATH_KEY_MATERIAL_LEN)"

text \<open>The result is the \<open>int\<close> that is returned and the object; a cleared object has no pointers left.\<close>

definition tor1_crypt_clear :: "'c tor1_crypt_t \<Rightarrow> 'c tor1_crypt_t" where
  "tor1_crypt_clear crypto = crypto\<lparr>f_crypto := None, b_crypto := None, f_digest := None, b_digest := None\<rparr>"

definition tor1_crypt_init ::
    "'c crypto_lib \<Rightarrow> 'c tor1_crypt_t \<Rightarrow> byte list \<Rightarrow> nat \<Rightarrow> bool \<Rightarrow> bool \<Rightarrow> (int \<times> 'c tor1_crypt_t) option" where
  "tor1_crypt_init L crypto key_data key_data_len reverse is_hs_v3 =
     do {
       guard (f_crypto crypto = None \<and> b_crypto crypto = None \<and> f_digest crypto = None \<and> b_digest crypto = None);
       (if is_hs_v3 \<and> key_data_len \<noteq> HS_NTOR_KEY_EXPANSION_KDF_OUT_LEN then Some (-1, tor1_crypt_clear crypto)
        else if \<not> is_hs_v3 \<and> key_data_len \<noteq> CPATH_KEY_MATERIAL_LEN then Some (-1, tor1_crypt_clear crypto)
        else
          do {
            (digest_len, cipher_key_len, fd, bd) \<leftarrow>
              (if is_hs_v3 then
                 do {
                   fd \<leftarrow> crypto_digest256_new DIGEST_SHA3_256;
                   bd \<leftarrow> crypto_digest256_new DIGEST_SHA3_256;
                   Some (32, 32, fd, bd)
                 }
               else Some (DIGEST_LEN, 16, crypto_digest_new, crypto_digest_new));
            fd \<leftarrow> crypto_digest_add_bytes fd key_data digest_len;
            bd \<leftarrow> crypto_digest_add_bytes bd (drop digest_len key_data) digest_len;
            fc \<leftarrow> crypto_cipher_new_with_bits L (drop (2 * digest_len) key_data) (cipher_key_len * 8);
            bc \<leftarrow> crypto_cipher_new_with_bits L (drop (2 * digest_len + cipher_key_len) key_data) (cipher_key_len * 8);
            Some (0, if reverse then crypto\<lparr>f_crypto := Some bc, b_crypto := Some fc,
                                            f_digest := Some bd, b_digest := Some fd\<rparr>
                     else crypto\<lparr>f_crypto := Some fc, b_crypto := Some bc,
                                  f_digest := Some fd, b_digest := Some bd\<rparr>)
          })
     }"

definition tor1_crypt_assert_ok :: "'c tor1_crypt_t \<Rightarrow> unit option" where
  "tor1_crypt_assert_ok crypto =
     do {
       guard (f_crypto crypto \<noteq> None);
       guard (b_crypto crypto \<noteq> None);
       guard (f_digest crypto \<noteq> None);
       guard (b_digest crypto \<noteq> None)
     }"

subsection \<open>Both ends of a layer\<close>

text \<open>The payload with the integrity field set to given bytes, and the digest of a cell.\<close>

definition put_integrity :: "byte list \<Rightarrow> byte list \<Rightarrow> byte list" where
  "put_integrity p xs = take 5 p @ xs @ drop 9 p"

definition integrity_of :: "byte list \<Rightarrow> byte list" where
  "integrity_of p = take 4 (drop 5 p)"

definition add_cell :: "crypto_digest_t \<Rightarrow> byte list \<Rightarrow> crypto_digest_t" where
  "add_cell d p = d\<lparr>dg_data := dg_data d @ p\<rparr>"

definition cell_digest :: "'c crypto_lib \<Rightarrow> crypto_digest_t \<Rightarrow> byte list" where
  "cell_digest L d = take 20 (hash_of L (dg_algorithm d) (dg_data d))"

lemma put_integrity_simps [simp]:
  "length p = 509 \<Longrightarrow> length xs = 4 \<Longrightarrow> length (put_integrity p xs) = 509"
  "length p = 509 \<Longrightarrow> length xs = 4 \<Longrightarrow> integrity_of (put_integrity p xs) = xs"
  "length p = 509 \<Longrightarrow> length xs = 4 \<Longrightarrow> put_integrity (put_integrity p xs) ys = put_integrity p ys"
  "put_integrity p (integrity_of p) = p"
proof -
  show "put_integrity p (integrity_of p) = p"
    unfolding put_integrity_def integrity_of_def
    using append_take_drop_id [of 4 "drop 5 p"] append_take_drop_id [of 5 p] by (simp del: append_take_drop_id)
qed (auto simp: put_integrity_def integrity_of_def)

lemma digest_long: "20 \<le> crypto_digest_algorithm_get_length alg"
  by (cases alg) (simp_all add: crypto_digest_algorithm_get_length_def)

lemma length_cell_digest [simp]: "hash_lengths L \<Longrightarrow> length (cell_digest L d) = 20"
  using digest_long [of "dg_algorithm d"] by (simp add: cell_digest_def hash_lengths_def)

lemma get_cell_digest:
  assumes "hash_lengths L"
  shows "crypto_digest_get_digest L d 20 = Some (cell_digest L d)"
  using assms digest_long [of "dg_algorithm d"]
  by (simp add: crypto_digest_get_digest_def cell_digest_def arr_slice_def hash_lengths_def)

lemma tor1_set_digest_v0_eq:
  assumes "hash_lengths L" "length (c_payload cell) = 509" "length buf = 20"
  shows "tor1_set_digest_v0 L d cell buf =
    (let d' = add_cell d (c_payload cell); h = cell_digest L d'
     in Some (d', cell\<lparr>c_payload := put_integrity (c_payload cell) (take 4 h)\<rparr>, h))"
proof -
  have "crypto_digest_add_bytes d (c_payload cell) CELL_PAYLOAD_SIZE = Some (add_cell d (c_payload cell))"
    using assms by (simp add: crypto_digest_add_bytes_def arr_slice_def CELL_PAYLOAD_SIZE_def add_cell_def)
  moreover have "arr_blit buf 0 (cell_digest L d') = Some (cell_digest L d')" for d'
    using assms by (simp add: arr_blit_def)
  ultimately show ?thesis
    using assms by (simp add: tor1_set_digest_v0_def get_cell_digest arr_slice_def arr_blit_def put_integrity_def Let_def)
qed

lemma tor1_digest_matches_eq:
  assumes "hash_lengths L" "length (c_payload cell) = 509" "length buf = 20"
  shows "tor1_relay_digest_matches_v0 L d cell buf =
    (let p = put_integrity (c_payload cell) (replicate 4 0); d' = add_cell d p; h = cell_digest L d'
     in if take 4 h = integrity_of (c_payload cell) then Some (True, d', cell\<lparr>c_payload := p\<rparr>, h)
        else Some (False, d, cell, buf))"
proof -
  define p where "p = put_integrity (c_payload cell) (replicate 4 0)"
  define i where "i = integrity_of (c_payload cell)"
  define h where "h = cell_digest L (add_cell d p)"
  have len: "length p = 509" "length i = 4" "length h = 20"
    using assms by (simp_all add: p_def i_def h_def integrity_of_def)
  have i: "mem_bytes 4 (of_bytes i :: u32) = i"
    using mem_bytes_of_bytes [where 'w = 32, of i] len by simp
  have h: "mem_bytes 4 (of_bytes (take 4 h) :: u32) = take 4 h"
    using mem_bytes_of_bytes [where 'w = 32, of "take 4 h"] len by simp
  have eq: "(of_bytes (take 4 h) :: u32) = of_bytes i \<longleftrightarrow> take 4 h = i" by (metis i h)
  have restore: "arr_blit p 5 i = Some (c_payload cell)"
  proof -
    have "arr_blit p 5 i = Some (put_integrity p i)"
      using len by (simp add: arr_blit_def put_integrity_def)
    also have "put_integrity p i = c_payload cell"
      using assms(2) by (simp add: p_def i_def)
    finally show ?thesis .
  qed
  have add: "crypto_digest_add_bytes d p CELL_PAYLOAD_SIZE = Some (add_cell d p)"
    using len by (simp add: crypto_digest_add_bytes_def arr_slice_def CELL_PAYLOAD_SIZE_def add_cell_def)
  have fill: "arr_fill (c_payload cell) 5 4 0 = Some p"
    using assms(2) by (simp add: arr_fill_def arr_blit_def p_def put_integrity_def)
  have slice: "arr_slice (c_payload cell) 5 4 = Some i"
    using assms(2) by (simp add: arr_slice_def i_def integrity_of_def)
  have get: "get_uint32 h 0 = Some (of_bytes (take 4 h))"
    using len by (simp add: get_uint32_def arr_slice_def)
  have blit: "arr_blit buf 0 h = Some h" using assms len by (simp add: arr_blit_def)
  show ?thesis
    unfolding tor1_relay_digest_matches_v0_def
    by (simp add: slice fill add get_cell_digest [OF assms(1)] h_def [symmetric] p_def [symmetric] i_def [symmetric]
        get eq i restore blit crypto_digest_checkpoint_def crypto_digest_restore_def Let_def)
qed

text \<open>The two ends agree when their ciphers and digests do.\<close>

definition tor1_sync :: "'c tor1_crypt_t \<Rightarrow> 'c tor1_crypt_t \<Rightarrow> bool" where
  "tor1_sync c r \<longleftrightarrow>
     (\<exists>k. f_crypto c = Some k \<and> f_crypto r = Some k) \<and> (\<exists>k. b_crypto c = Some k \<and> b_crypto r = Some k)
     \<and> (\<exists>d. f_digest c = Some d \<and> f_digest r = Some d) \<and> (\<exists>d. b_digest c = Some d \<and> b_digest r = Some d)
     \<and> length (sendme_digest c) = 20 \<and> length (sendme_digest r) = 20"

lemma tor1_crypt_one_payload_eq:
  assumes "ctr_is_stream L" "length p = 509"
  shows "tor1_crypt_one_payload L c p = Some (ctr_after L c 509, xor_bytes p (keystream L c 509))"
  using assms aes_crypt_inplace_eq [OF assms(1), of 509 p c]
  by (simp add: tor1_crypt_one_payload_def crypto_cipher_crypt_inplace_def SIZE_T_CEILING_def CELL_PAYLOAD_SIZE_def)

lemma one_payload_twice:
  assumes "ctr_is_stream L" "length p = 509"
  shows "xor_bytes (xor_bytes p (keystream L c 509)) (keystream L c 509) = p"
    and "length (xor_bytes p (keystream L c 509)) = 509"
  using assms ctr_updateD(2) [OF assms(1), of c 509] by (simp_all add: xor_bytes_twice)

lemma recognized_iff:
  assumes "length (c_payload cell) = 509"
  shows "relay_cell_is_recognized_v0 cell = Some (take 2 (drop 1 (c_payload cell)) = replicate 2 0)"
proof -
  define xs where "xs = take 2 (drop 1 (c_payload cell))"
  have "mem_bytes 2 (of_bytes xs :: u16) = xs"
    using mem_bytes_of_bytes [where 'w = 16, of xs] assms by (simp add: xs_def)
  moreover have "mem_bytes 2 (0 :: u16) = replicate 2 0" "(of_bytes (replicate 2 0) :: u16) = 0"
    by (simp_all add: mem_bytes_def of_bytes_def numeral_2_eq_2)
  ultimately have "(of_bytes xs :: u16) = 0 \<longleftrightarrow> xs = replicate 2 0" by metis
  then show ?thesis
    using assms by (simp add: relay_cell_is_recognized_v0_def get_uint16_def arr_slice_def xs_def)
qed

text \<open>The cells that the sending functions expect: the fields of the cryptography are zero.\<close>

definition tor1_cell_ready :: "cell_t \<Rightarrow> bool" where
  "tor1_cell_ready cell \<longleftrightarrow> length (c_payload cell) = 509
     \<and> take 2 (drop 1 (c_payload cell)) = replicate 2 0 \<and> integrity_of (c_payload cell) = replicate 4 0"

lemma put_integrity_recognized:
  "length p = 509 \<Longrightarrow> take 2 (drop 1 (put_integrity p xs)) = take 2 (drop 1 p)"
  by (simp add: put_integrity_def drop_take)

lemma tor1_forward_recognized:
  assumes "ctr_is_stream L" "hash_lengths L" "tor1_sync c r" "tor1_cell_ready cell"
  shows "\<exists>c' r' cell'. tor1_crypt_client_originate L c cell = Some (c', cell')
    \<and> length (c_payload cell') = 509 \<and> c_command cell' = c_command cell
    \<and> tor1_crypt_relay_forward L r cell' = Some (True, r', cell)
    \<and> tor1_sync c' r' \<and> sendme_digest c' = sendme_digest r'"
proof -
  obtain k d where kd: "f_crypto c = Some k" "f_crypto r = Some k" "f_digest c = Some d" "f_digest r = Some d"
    using assms(3) by (auto simp: tor1_sync_def)
  define p where "p = c_payload cell"
  define h where "h = cell_digest L (add_cell d p)"
  define q where "q = put_integrity p (take 4 h)"
  have len: "length p = 509" "length h = 20" "length q = 509"
    using assms by (simp_all add: p_def q_def h_def tor1_cell_ready_def)
  have z: "put_integrity q (replicate 4 0) = p"
    using assms(4) len put_integrity_simps(4) [of p] by (simp add: q_def tor1_cell_ready_def p_def)
  have "take 2 (drop 1 q) = replicate 2 0" "integrity_of q = take 4 h"
    using assms(4) len put_integrity_recognized [of p "take 4 h"]
    by (simp_all add: q_def tor1_cell_ready_def p_def)
  then show ?thesis
    using assms kd len z one_payload_twice [OF assms(1) len(3), of k]
      tor1_set_digest_v0_eq [OF assms(2), of cell "sendme_digest c" d]
      tor1_digest_matches_eq [OF assms(2), of "cell\<lparr>c_payload := q\<rparr>" "sendme_digest r" d]
    by (simp add: tor1_crypt_client_originate_def tor1_crypt_relay_forward_def tor1_crypt_one_payload_eq
        recognized_iff tor1_sync_def Let_def p_def [symmetric] h_def [symmetric] q_def [symmetric])
qed

text \<open>
  A layer that is not the last one: the cell comes out as it was put in, unless the relay takes it
  for its own.
\<close>

lemma tor1_forward_pass:
  assumes "ctr_is_stream L" "hash_lengths L" "tor1_sync c r" "length (c_payload cell) = 509"
  shows "\<exists>c' cell' rec r' cell''. tor1_crypt_client_forward L c cell = Some (c', cell')
    \<and> length (c_payload cell') = 509 \<and> c_command cell' = c_command cell
    \<and> tor1_crypt_relay_forward L r cell' = Some (rec, r', cell'')
    \<and> (\<not> rec \<longrightarrow> cell'' = cell \<and> tor1_sync c' r')"
proof -
  obtain k d where kd: "f_crypto c = Some k" "f_crypto r = Some k" "f_digest c = Some d" "f_digest r = Some d"
    using assms(3) by (auto simp: tor1_sync_def)
  show ?thesis
    using assms kd one_payload_twice [OF assms(1,4), of k]
      tor1_digest_matches_eq [OF assms(2,4), of "sendme_digest r" d]
    by (auto simp: tor1_crypt_client_forward_def tor1_crypt_relay_forward_def tor1_crypt_one_payload_eq
        recognized_iff tor1_sync_def Let_def)
qed

lemma tor1_backward_recognized:
  assumes "ctr_is_stream L" "hash_lengths L" "tor1_sync c r" "tor1_cell_ready cell"
  shows "\<exists>c' r' cell'. tor1_crypt_relay_originate L r cell = Some (r', cell')
    \<and> length (c_payload cell') = 509 \<and> c_command cell' = c_command cell
    \<and> tor1_crypt_client_backward L c cell' = Some (True, c', cell)
    \<and> tor1_sync c' r' \<and> sendme_digest c' = sendme_digest r'"
proof -
  obtain k d where kd: "b_crypto c = Some k" "b_crypto r = Some k" "b_digest c = Some d" "b_digest r = Some d"
    using assms(3) by (auto simp: tor1_sync_def)
  define p where "p = c_payload cell"
  define h where "h = cell_digest L (add_cell d p)"
  define q where "q = put_integrity p (take 4 h)"
  have len: "length p = 509" "length h = 20" "length q = 509"
    using assms by (simp_all add: p_def q_def h_def tor1_cell_ready_def)
  have z: "put_integrity q (replicate 4 0) = p"
    using assms(4) len put_integrity_simps(4) [of p] by (simp add: q_def tor1_cell_ready_def p_def)
  have "take 2 (drop 1 q) = replicate 2 0" "integrity_of q = take 4 h"
    using assms(4) len put_integrity_recognized [of p "take 4 h"]
    by (simp_all add: q_def tor1_cell_ready_def p_def)
  then show ?thesis
    using assms kd len z one_payload_twice [OF assms(1) len(3), of k]
      tor1_set_digest_v0_eq [OF assms(2), of cell "sendme_digest r" d]
      tor1_digest_matches_eq [OF assms(2), of "cell\<lparr>c_payload := q\<rparr>" "sendme_digest c" d]
    by (simp add: tor1_crypt_relay_originate_def tor1_crypt_client_backward_def tor1_crypt_one_payload_eq
        recognized_iff tor1_sync_def Let_def p_def [symmetric] h_def [symmetric] q_def [symmetric])
qed

lemma tor1_backward_pass:
  assumes "ctr_is_stream L" "hash_lengths L" "tor1_sync c r" "length (c_payload cell) = 509"
  shows "\<exists>r' cell' rec c' cell''. tor1_crypt_relay_backward L r cell = Some (r', cell')
    \<and> length (c_payload cell') = 509 \<and> c_command cell' = c_command cell
    \<and> tor1_crypt_client_backward L c cell' = Some (rec, c', cell'')
    \<and> (\<not> rec \<longrightarrow> cell'' = cell \<and> tor1_sync c' r')"
proof -
  obtain k d where kd: "b_crypto c = Some k" "b_crypto r = Some k" "b_digest c = Some d" "b_digest r = Some d"
    using assms(3) by (auto simp: tor1_sync_def)
  show ?thesis
    using assms kd one_payload_twice [OF assms(1,4), of k]
      tor1_digest_matches_eq [OF assms(2,4), of "sendme_digest c" d]
    by (auto simp: tor1_crypt_relay_backward_def tor1_crypt_client_backward_def tor1_crypt_one_payload_eq
        recognized_iff tor1_sync_def Let_def)
qed

text \<open>Keys derived from the same material put the two ends in agreement.\<close>

lemma tor1_init_sync:
  assumes "length key = CPATH_KEY_MATERIAL_LEN"
  shows "\<exists>c. tor1_crypt_init L tor1_zero key (length key) False False = Some (0, c) \<and> tor1_sync c c"
  using assms
  by (simp add: tor1_crypt_init_def tor1_zero_def CPATH_KEY_MATERIAL_LEN_def crypto_digest_add_bytes_def arr_slice_def
      crypto_cipher_new_with_bits_def aes_new_cipher_def tor1_sync_def)

text \<open>
  An onion service and its client share a layer whose keys the service uses the other way round: both
  ends then send with the functions of a client and receive with them.
\<close>

definition tor1_swap :: "'c tor1_crypt_t \<Rightarrow> 'c tor1_crypt_t" where
  "tor1_swap t = t\<lparr>f_crypto := b_crypto t, b_crypto := f_crypto t, f_digest := b_digest t, b_digest := f_digest t\<rparr>"

lemma tor1_swap_swap [simp]: "tor1_swap (tor1_swap t) = t"
  by (simp add: tor1_swap_def)

lemma client_backward_swap:
  "tor1_crypt_client_backward L (tor1_swap t) cell
     = map_option (\<lambda>(m, t, c). (m, tor1_swap t, c)) (tor1_crypt_relay_forward L t cell)"
  unfolding tor1_crypt_client_backward_def tor1_crypt_relay_forward_def
  by (simp add: tor1_swap_def Let_def split: Option.bind_split prod.splits)

lemma init_reverse:
  "tor1_crypt_init L tor1_zero key n True hs
     = map_option (\<lambda>(i, t). (i, tor1_swap t)) (tor1_crypt_init L tor1_zero key n False hs)"
  unfolding tor1_crypt_init_def
  by (simp add: tor1_swap_def tor1_zero_def tor1_crypt_clear_def Let_def split: Option.bind_split prod.splits)

end
