(* ===== verification/Cgo_Crypt.thy ===== *)
theory Cgo_Crypt
  imports Crypt_Ops Polyval Di_Ops Cells
begin

section \<open>Counter Galois onion encryption: \<^verbatim>\<open>core/crypto/relay_crypto_cgo.c\<close>\<close>

text \<open>
  One layer of the newer relay cryptography: a tweakable block cipher and a pseudorandom function make
  a wide-block cipher over the whole payload, which relays apply in the encrypting and clients in the
  decrypting direction, and whose keys change with every cell that is originated or recognised. The
  argument \<open>u\<close> says whether this host has the instruction that Polyval can use. A pointer into the
  payload is an offset; the tweak of the block cipher points into the payload, so it sees the bytes as
  they are at the time of the call.
\<close>

subsection \<open>State\<close>

record cgo_et_t =
  et_kb :: aes_raw_t
  et_ku :: polyvalx_t

record 'c cgo_prf_t =
  prf_k :: 'c
  prf_b :: polyval_key_t

record 'c cgo_uiv_t =
  uiv_j :: cgo_et_t
  uiv_s :: "'c cgo_prf_t"

record uiv_tweak_t =
  tw_h :: "byte list"
  tw_cmd :: u8

record et_tweak_t =
  ett_uiv :: uiv_tweak_t
  ett_x_r :: "byte list"

record 'c cgo_crypt_t =
  cg_uiv :: "'c cgo_uiv_t"
  cg_nonce :: "byte list"
  cg_tprime :: "byte list"
  cg_last_tag_relay_fwd :: "byte list"
  cg_aes_bytes :: u8

datatype cgo_mode_t = CGO_MODE_CLIENT_FORWARD | CGO_MODE_CLIENT_BACKWARD | CGO_MODE_RELAY_FORWARD
  | CGO_MODE_RELAY_BACKWARD

abbreviation POLYVAL_KEY_LEN :: nat where "POLYVAL_KEY_LEN \<equiv> 16"
abbreviation ET_TWEAK_LEN_X_R :: nat where "ET_TWEAK_LEN_X_R \<equiv> 493"
abbreviation PRF_T0_DATA_LEN :: nat where "PRF_T0_DATA_LEN \<equiv> 493"
abbreviation SENDME_TAG_LEN_CGO :: nat where "SENDME_TAG_LEN_CGO \<equiv> 16"
abbreviation MAX_RELAY_KEY_MATERIAL_LEN :: nat where "MAX_RELAY_KEY_MATERIAL_LEN \<equiv> 224"

subsection \<open>The tweakable block cipher\<close>

definition cgo_et_keylen :: "nat \<Rightarrow> nat" where
  "cgo_et_keylen aesbits = aesbits div 8 + POLYVAL_KEY_LEN"

definition cgo_et_init :: "bool \<Rightarrow> nat \<Rightarrow> bool \<Rightarrow> byte list \<Rightarrow> cgo_et_t option" where
  "cgo_et_init u aesbits encrypt key =
     do {
       let aes_key_bytes = aesbits div 8;
       kb \<leftarrow> aes_raw_new key aesbits encrypt;
       ku \<leftarrow> polyvalx_init u (drop aes_key_bytes key);
       Some \<lparr>et_kb = kb, et_ku = ku\<rparr>
     }"

definition cgo_et_set_key :: "bool \<Rightarrow> nat \<Rightarrow> bool \<Rightarrow> byte list \<Rightarrow> cgo_et_t option" where
  "cgo_et_set_key u aesbits encrypt key =
     do {
       let aes_key_bytes = aesbits div 8;
       kb \<leftarrow> aes_raw_set_key key aesbits encrypt;
       ku \<leftarrow> polyvalx_init u (drop aes_key_bytes key);
       Some \<lparr>et_kb = kb, et_ku = ku\<rparr>
     }"

definition compute_et_mask :: "bool \<Rightarrow> polyvalx_t \<Rightarrow> et_tweak_t \<Rightarrow> (polyvalx_t \<times> byte list) option" where
  "compute_et_mask u pvk tweak =
     do {
       let pvk = polyvalx_reset pvk;
       x15 \<leftarrow> arr_slice (ett_x_r tweak) 0 15;
       let block1 = tw_cmd (ett_uiv tweak) # x15;
       pvk \<leftarrow> polyvalx_add_block u pvk (tw_h (ett_uiv tweak));
       pvk \<leftarrow> polyvalx_add_block u pvk block1;
       pvk \<leftarrow> polyvalx_add_zpad u pvk (drop 15 (ett_x_r tweak)) (ET_TWEAK_LEN_X_R - 15);
       Some (pvk, polyvalx_get_tag pvk)
     }"

text \<open>The exclusive or of 16 bytes into the start of an array.\<close>

fun xor_block_loop :: "byte list \<Rightarrow> byte list \<Rightarrow> nat \<Rightarrow> nat \<Rightarrow> byte list option" where
  "xor_block_loop out inp i 0 = Some out"
| "xor_block_loop out inp i (Suc n) =
     do {
       x \<leftarrow> arr_get out i;
       y \<leftarrow> arr_get inp i;
       out \<leftarrow> arr_set out i (x XOR y);
       xor_block_loop out inp (i + 1) n
     }"

definition xor_block :: "byte list \<Rightarrow> byte list \<Rightarrow> byte list option" where
  "xor_block out inp = xor_block_loop out inp 0 16"

definition cgo_et_encrypt ::
    "'c crypto_lib \<Rightarrow> bool \<Rightarrow> cgo_et_t \<Rightarrow> et_tweak_t \<Rightarrow> byte list \<Rightarrow> (cgo_et_t \<times> byte list) option" where
  "cgo_et_encrypt L u et tweak block =
     do {
       (ku, mask) \<leftarrow> compute_et_mask u (et_ku et) tweak;
       block \<leftarrow> xor_block block mask;
       block \<leftarrow> aes_raw_encrypt L (et_kb et) block;
       block \<leftarrow> xor_block block mask;
       Some (et\<lparr>et_ku := ku\<rparr>, block)
     }"

definition cgo_et_decrypt ::
    "'c crypto_lib \<Rightarrow> bool \<Rightarrow> cgo_et_t \<Rightarrow> et_tweak_t \<Rightarrow> byte list \<Rightarrow> (cgo_et_t \<times> byte list) option" where
  "cgo_et_decrypt L u et tweak block =
     do {
       (ku, mask) \<leftarrow> compute_et_mask u (et_ku et) tweak;
       block \<leftarrow> xor_block block mask;
       block \<leftarrow> aes_raw_decrypt L (et_kb et) block;
       block \<leftarrow> xor_block block mask;
       Some (et\<lparr>et_ku := ku\<rparr>, block)
     }"

subsection \<open>The pseudorandom function\<close>

definition cgo_prf_keylen :: "nat \<Rightarrow> nat" where
  "cgo_prf_keylen aesbits = aesbits div 8 + POLYVAL_KEY_LEN"

definition cgo_prf_init :: "'c crypto_lib \<Rightarrow> nat \<Rightarrow> byte list \<Rightarrow> 'c cgo_prf_t option" where
  "cgo_prf_init L aesbits key =
     do {
       let iv = replicate 16 0;
       let aes_key_bytes = aesbits div 8;
       k \<leftarrow> aes_new_cipher L key iv aesbits;
       b \<leftarrow> polyval_key_init (drop aes_key_bytes key);
       Some \<lparr>prf_k = k, prf_b = b\<rparr>
     }"

definition cgo_prf_set_key :: "'c crypto_lib \<Rightarrow> nat \<Rightarrow> byte list \<Rightarrow> 'c cgo_prf_t option" where
  "cgo_prf_set_key L aesbits key =
     do {
       let aes_key_bytes = aesbits div 8;
       k \<leftarrow> aes_cipher_set_key L key aesbits;
       b \<leftarrow> polyval_key_init (drop aes_key_bytes key);
       Some \<lparr>prf_k = k, prf_b = b\<rparr>
     }"

text \<open>The first lines of both functions below: the hash of the input with the low bits cleared.\<close>

definition prf_hash :: "bool \<Rightarrow> polyval_key_t \<Rightarrow> byte list \<Rightarrow> byte list option" where
  "prf_hash u b inp =
     do {
       let pv = polyval_init_from_key b;
       pv \<leftarrow> polyval_add_block u pv inp;
       let hash = polyval_get_tag pv;
       h15 \<leftarrow> arr_get hash 15;
       arr_set hash 15 (h15 AND 0xC0)
     }"

definition cgo_prf_xor_t0 ::
    "'c crypto_lib \<Rightarrow> bool \<Rightarrow> 'c cgo_prf_t \<Rightarrow> byte list \<Rightarrow> byte list \<Rightarrow> ('c cgo_prf_t \<times> byte list) option" where
  "cgo_prf_xor_t0 L u prf inp data =
     do {
       hash \<leftarrow> prf_hash u (prf_b prf) inp;
       k \<leftarrow> aes_cipher_set_iv_aligned L (prf_k prf) hash;
       (k, data) \<leftarrow> aes_crypt_inplace L k data PRF_T0_DATA_LEN;
       let ns = 16 - PRF_T0_DATA_LEN mod 16;
       (k, hash) \<leftarrow> aes_crypt_inplace L k hash ns;
       Some (prf\<lparr>prf_k := k\<rparr>, data)
     }"

abbreviation T1_OFFSET :: u8 where "T1_OFFSET \<equiv> 31"

definition cgo_prf_gen_t1 ::
    "'c crypto_lib \<Rightarrow> bool \<Rightarrow> 'c cgo_prf_t \<Rightarrow> byte list \<Rightarrow> nat \<Rightarrow> ('c cgo_prf_t \<times> byte list) option" where
  "cgo_prf_gen_t1 L u prf inp n =
     do {
       hash \<leftarrow> prf_hash u (prf_b prf) inp;
       h15 \<leftarrow> arr_get hash 15;
       hash \<leftarrow> arr_set hash 15 (h15 + T1_OFFSET);
       let buf = replicate n 0;
       k \<leftarrow> aes_cipher_set_iv_aligned L (prf_k prf) hash;
       (k, buf) \<leftarrow> aes_crypt_inplace L k buf n;
       let ns = 16 - n mod 16;
       k \<leftarrow> (if ns \<noteq> 0 then map_option fst (aes_crypt_inplace L k hash ns) else Some k);
       Some (prf\<lparr>prf_k := k\<rparr>, buf)
     }"

subsection \<open>The wide-block cipher\<close>

definition cgo_uiv_keylen :: "nat \<Rightarrow> nat" where
  "cgo_uiv_keylen aesbits = cgo_et_keylen aesbits + cgo_prf_keylen aesbits"

definition cgo_uiv_init :: "'c crypto_lib \<Rightarrow> bool \<Rightarrow> nat \<Rightarrow> bool \<Rightarrow> byte list \<Rightarrow> 'c cgo_uiv_t option" where
  "cgo_uiv_init L u aesbits encrypt key =
     do {
       let aes_key_bytes = aesbits div 8;
       j \<leftarrow> cgo_et_init u aesbits encrypt key;
       s \<leftarrow> cgo_prf_init L aesbits (drop (aes_key_bytes + POLYVAL_KEY_LEN) key);
       Some \<lparr>uiv_j = j, uiv_s = s\<rparr>
     }"

definition cgo_uiv_encrypt ::
    "'c crypto_lib \<Rightarrow> bool \<Rightarrow> 'c cgo_uiv_t \<Rightarrow> uiv_tweak_t \<Rightarrow> byte list \<Rightarrow> ('c cgo_uiv_t \<times> byte list) option" where
  "cgo_uiv_encrypt L u uiv tweak cell_body =
     do {
       X_L \<leftarrow> arr_slice cell_body 0 16;
       let X_R = drop 16 cell_body;
       (j, X_L) \<leftarrow> cgo_et_encrypt L u (uiv_j uiv) \<lparr>ett_uiv = tweak, ett_x_r = X_R\<rparr> X_L;
       (s, X_R) \<leftarrow> cgo_prf_xor_t0 L u (uiv_s uiv) X_L X_R;
       Some (uiv\<lparr>uiv_j := j, uiv_s := s\<rparr>, X_L @ X_R)
     }"

definition cgo_uiv_decrypt ::
    "'c crypto_lib \<Rightarrow> bool \<Rightarrow> 'c cgo_uiv_t \<Rightarrow> uiv_tweak_t \<Rightarrow> byte list \<Rightarrow> ('c cgo_uiv_t \<times> byte list) option" where
  "cgo_uiv_decrypt L u uiv tweak cell_body =
     do {
       X_L \<leftarrow> arr_slice cell_body 0 16;
       let X_R = drop 16 cell_body;
       (s, X_R) \<leftarrow> cgo_prf_xor_t0 L u (uiv_s uiv) X_L X_R;
       (j, X_L) \<leftarrow> cgo_et_decrypt L u (uiv_j uiv) \<lparr>ett_uiv = tweak, ett_x_r = X_R\<rparr> X_L;
       Some (uiv\<lparr>uiv_j := j, uiv_s := s\<rparr>, X_L @ X_R)
     }"

definition cgo_uiv_update ::
    "'c crypto_lib \<Rightarrow> bool \<Rightarrow> 'c cgo_uiv_t \<Rightarrow> nat \<Rightarrow> bool \<Rightarrow> byte list \<Rightarrow> ('c cgo_uiv_t \<times> byte list) option" where
  "cgo_uiv_update L u uiv aesbits encrypt nonce =
     do {
       let aes_bytes = aesbits div 8;
       let single_key_len = aes_bytes + POLYVAL_KEY_LEN;
       let total_key_len = single_key_len * 2 + 16;
       (s, new_keys) \<leftarrow> cgo_prf_gen_t1 L u (uiv_s uiv) nonce total_key_len;
       j \<leftarrow> cgo_et_set_key u aesbits encrypt new_keys;
       s \<leftarrow> cgo_prf_set_key L aesbits (drop single_key_len new_keys);
       n \<leftarrow> arr_slice new_keys (single_key_len * 2) 16;
       nonce \<leftarrow> arr_blit nonce 0 n;
       Some (\<lparr>uiv_j = j, uiv_s = s\<rparr>, nonce)
     }"

subsection \<open>Cells\<close>

definition cgo_key_material_len :: "nat \<Rightarrow> nat option" where
  "cgo_key_material_len aesbits =
     do {
       guard (aesbits = 128 \<or> aesbits = 192 \<or> aesbits = 256);
       let r = cgo_uiv_keylen aesbits + SENDME_TAG_LEN_CGO;
       guard (r * 2 \<le> MAX_RELAY_KEY_MATERIAL_LEN);
       Some r
     }"

definition mode_encrypts :: "cgo_mode_t \<Rightarrow> bool" where
  "mode_encrypts mode \<longleftrightarrow> mode = CGO_MODE_RELAY_BACKWARD \<or> mode = CGO_MODE_RELAY_FORWARD"

definition cgo_crypt_new ::
    "'c crypto_lib \<Rightarrow> bool \<Rightarrow> cgo_mode_t \<Rightarrow> nat \<Rightarrow> byte list \<Rightarrow> nat \<Rightarrow> 'c cgo_crypt_t option" where
  "cgo_crypt_new L u mode aesbits keys keylen =
     do {
       m \<leftarrow> cgo_key_material_len aesbits;
       guard (keylen = m);
       let encrypt = mode_encrypts mode;
       uiv \<leftarrow> cgo_uiv_init L u aesbits encrypt keys;
       nonce \<leftarrow> arr_slice keys (cgo_uiv_keylen aesbits) SENDME_TAG_LEN_CGO;
       guard (cgo_uiv_keylen aesbits + SENDME_TAG_LEN_CGO = keylen);
       Some \<lparr>cg_uiv = uiv, cg_nonce = nonce, cg_tprime = replicate SENDME_TAG_LEN_CGO 0,
             cg_last_tag_relay_fwd = replicate SENDME_TAG_LEN_CGO 0, cg_aes_bytes = word_of_nat (aesbits div 8)\<rparr>
     }"

definition cgo_crypt_update :: "'c crypto_lib \<Rightarrow> bool \<Rightarrow> 'c cgo_crypt_t \<Rightarrow> cgo_mode_t \<Rightarrow> 'c cgo_crypt_t option" where
  "cgo_crypt_update L u cgo mode =
     do {
       let encrypt = mode_encrypts mode;
       (uiv, nonce) \<leftarrow> cgo_uiv_update L u (cg_uiv cgo) (unat (cg_aes_bytes cgo) * 8) encrypt (cg_nonce cgo);
       Some (cgo\<lparr>cg_uiv := uiv, cg_nonce := nonce\<rparr>)
     }"

definition cgo_crypt_relay_forward ::
    "'c crypto_lib \<Rightarrow> bool \<Rightarrow> 'c cgo_crypt_t \<Rightarrow> cell_t \<Rightarrow> ('c cgo_crypt_t \<times> cell_t \<times> byte list option) option" where
  "cgo_crypt_relay_forward L u cgo cell =
     do {
       let h = \<lparr>tw_h = cg_tprime cgo, tw_cmd = c_command cell\<rparr>;
       t \<leftarrow> arr_slice (c_payload cell) 0 SENDME_TAG_LEN_CGO;
       tag \<leftarrow> arr_blit (cg_last_tag_relay_fwd cgo) 0 t;
       let cgo = cgo\<lparr>cg_last_tag_relay_fwd := tag\<rparr>;
       (uiv, payload) \<leftarrow> cgo_uiv_encrypt L u (cg_uiv cgo) h (c_payload cell);
       let cell = cell\<lparr>c_payload := payload\<rparr>;
       t \<leftarrow> arr_slice (c_payload cell) 0 SENDME_TAG_LEN_CGO;
       tprime \<leftarrow> arr_blit (cg_tprime cgo) 0 t;
       let cgo = cgo\<lparr>cg_uiv := uiv, cg_tprime := tprime\<rparr>;
       eq \<leftarrow> tor_memeq (c_payload cell) (cg_nonce cgo) SENDME_TAG_LEN_CGO;
       (if eq \<noteq> 0 then
          do {
            cgo \<leftarrow> cgo_crypt_update L u cgo CGO_MODE_RELAY_FORWARD;
            Some (cgo, cell, Some (cg_last_tag_relay_fwd cgo))
          }
        else Some (cgo, cell, None))
     }"

definition cgo_crypt_relay_backward ::
    "'c crypto_lib \<Rightarrow> bool \<Rightarrow> 'c cgo_crypt_t \<Rightarrow> cell_t \<Rightarrow> ('c cgo_crypt_t \<times> cell_t) option" where
  "cgo_crypt_relay_backward L u cgo cell =
     do {
       let h = \<lparr>tw_h = cg_tprime cgo, tw_cmd = c_command cell\<rparr>;
       (uiv, payload) \<leftarrow> cgo_uiv_encrypt L u (cg_uiv cgo) h (c_payload cell);
       let cell = cell\<lparr>c_payload := payload\<rparr>;
       t \<leftarrow> arr_slice (c_payload cell) 0 SENDME_TAG_LEN_CGO;
       tprime \<leftarrow> arr_blit (cg_tprime cgo) 0 t;
       Some (cgo\<lparr>cg_uiv := uiv, cg_tprime := tprime\<rparr>, cell)
     }"

definition cgo_crypt_relay_originate ::
    "'c crypto_lib \<Rightarrow> bool \<Rightarrow> 'c cgo_crypt_t \<Rightarrow> cell_t \<Rightarrow> ('c cgo_crypt_t \<times> cell_t \<times> byte list) option" where
  "cgo_crypt_relay_originate L u cgo cell =
     do {
       let h = \<lparr>tw_h = cg_tprime cgo, tw_cmd = c_command cell\<rparr>;
       n \<leftarrow> arr_slice (cg_nonce cgo) 0 SENDME_TAG_LEN_CGO;
       payload \<leftarrow> arr_blit (c_payload cell) 0 n;
       (uiv, payload) \<leftarrow> cgo_uiv_encrypt L u (cg_uiv cgo) h payload;
       let cell = cell\<lparr>c_payload := payload\<rparr>;
       t \<leftarrow> arr_slice (c_payload cell) 0 SENDME_TAG_LEN_CGO;
       tprime \<leftarrow> arr_blit (cg_tprime cgo) 0 t;
       nonce \<leftarrow> arr_blit (cg_nonce cgo) 0 t;
       let cgo = cgo\<lparr>cg_uiv := uiv, cg_tprime := tprime, cg_nonce := nonce\<rparr>;
       cgo \<leftarrow> cgo_crypt_update L u cgo CGO_MODE_RELAY_BACKWARD;
       Some (cgo, cell, cg_tprime cgo)
     }"

definition cgo_crypt_client_forward ::
    "'c crypto_lib \<Rightarrow> bool \<Rightarrow> 'c cgo_crypt_t \<Rightarrow> cell_t \<Rightarrow> ('c cgo_crypt_t \<times> cell_t) option" where
  "cgo_crypt_client_forward L u cgo cell =
     do {
       tprime_new \<leftarrow> arr_slice (c_payload cell) 0 SENDME_TAG_LEN_CGO;
       let h = \<lparr>tw_h = cg_tprime cgo, tw_cmd = c_command cell\<rparr>;
       (uiv, payload) \<leftarrow> cgo_uiv_decrypt L u (cg_uiv cgo) h (c_payload cell);
       tprime \<leftarrow> arr_blit (cg_tprime cgo) 0 tprime_new;
       Some (cgo\<lparr>cg_uiv := uiv, cg_tprime := tprime\<rparr>, cell\<lparr>c_payload := payload\<rparr>)
     }"

definition cgo_crypt_client_originate ::
    "'c crypto_lib \<Rightarrow> bool \<Rightarrow> 'c cgo_crypt_t \<Rightarrow> cell_t \<Rightarrow> ('c cgo_crypt_t \<times> cell_t \<times> byte list) option" where
  "cgo_crypt_client_originate L u cgo cell =
     do {
       n \<leftarrow> arr_slice (cg_nonce cgo) 0 SENDME_TAG_LEN_CGO;
       payload \<leftarrow> arr_blit (c_payload cell) 0 n;
       (cgo, cell) \<leftarrow> cgo_crypt_client_forward L u cgo (cell\<lparr>c_payload := payload\<rparr>);
       cgo \<leftarrow> cgo_crypt_update L u cgo CGO_MODE_CLIENT_FORWARD;
       Some (cgo, cell, c_payload cell)
     }"

definition cgo_crypt_client_backward ::
    "'c crypto_lib \<Rightarrow> bool \<Rightarrow> 'c cgo_crypt_t \<Rightarrow> cell_t \<Rightarrow> ('c cgo_crypt_t \<times> cell_t \<times> byte list option) option" where
  "cgo_crypt_client_backward L u cgo cell =
     do {
       let h = \<lparr>tw_h = cg_tprime cgo, tw_cmd = c_command cell\<rparr>;
       t_orig \<leftarrow> arr_slice (c_payload cell) 0 SENDME_TAG_LEN_CGO;
       (uiv, payload) \<leftarrow> cgo_uiv_decrypt L u (cg_uiv cgo) h (c_payload cell);
       let cell = cell\<lparr>c_payload := payload\<rparr>;
       tprime \<leftarrow> arr_blit (cg_tprime cgo) 0 t_orig;
       let cgo = cgo\<lparr>cg_uiv := uiv, cg_tprime := tprime\<rparr>;
       eq \<leftarrow> tor_memeq (c_payload cell) (cg_nonce cgo) SENDME_TAG_LEN_CGO;
       (if eq \<noteq> 0 then
          do {
            nonce \<leftarrow> arr_blit (cg_nonce cgo) 0 t_orig;
            cgo \<leftarrow> cgo_crypt_update L u (cgo\<lparr>cg_nonce := nonce\<rparr>) CGO_MODE_CLIENT_BACKWARD;
            Some (cgo, cell, Some (cg_tprime cgo))
          }
        else Some (cgo, cell, None))
     }"

subsection \<open>The parts as functions of their keys\<close>

lemma xor_block_loop_eq:
  assumes "i + n \<le> length out" "i + n \<le> length inp"
  shows "xor_block_loop out inp i n =
    Some (take i out @ xor_bytes (take n (drop i out)) (take n (drop i inp)) @ drop (i + n) out)"
  using assms
proof (induction n arbitrary: i out)
  case 0
  then show ?case by (simp add: xor_bytes_def)
next
  case (Suc n)
  have i: "i < length out" "i < length inp" using Suc.prems by auto
  define v where "v = out ! i XOR inp ! i"
  have "xor_block_loop out inp i (Suc n) = xor_block_loop (out[i := v]) inp (i + 1) n"
    using i by (simp add: arr_get_def arr_set_def v_def)
  also have "\<dots> = Some (take (i + 1) (out[i := v])
      @ xor_bytes (take n (drop (i + 1) out)) (take n (drop (i + 1) inp)) @ drop (i + 1 + n) out)"
    using Suc.IH [of "i + 1" "out[i := v]"] Suc.prems by simp
  also have "take (i + 1) (out[i := v]) = take i out @ [v]"
    using i by (simp add: take_Suc_conv_app_nth)
  also have "(take i out @ [v]) @ xor_bytes (take n (drop (i + 1) out)) (take n (drop (i + 1) inp)) @ drop (i + 1 + n) out
      = take i out @ xor_bytes (take (Suc n) (drop i out)) (take (Suc n) (drop i inp)) @ drop (i + Suc n) out"
    using i by (simp add: xor_bytes_def v_def flip: Cons_nth_drop_Suc)
  finally show ?case .
qed

lemma xor_block_eq: "length out = 16 \<Longrightarrow> length inp = 16 \<Longrightarrow> xor_block out inp = Some (xor_bytes out inp)"
  using xor_block_loop_eq [of 0 16 out inp] by (simp add: xor_block_def)

text \<open>An expanded key is valid when it belongs to the key; only a host with the instruction uses it.\<close>

definition pvx_ok :: "bool \<Rightarrow> polyvalx_t \<Rightarrow> bool" where
  "pvx_ok u pvx \<longleftrightarrow> (u \<longrightarrow> pvx_expanded pvx = expand_key_pclmul (pvx_pv pvx))"

abbreviation pvx_key :: "polyvalx_t \<Rightarrow> polyval_key_t" where
  "pvx_key pvx \<equiv> pv_key (pvx_pv pvx)"

lemma pvx_ok_key: "pvx_ok u pvx \<Longrightarrow> pv_key pv = pvx_key pvx \<Longrightarrow> pvx_ok u (pvx\<lparr>pvx_pv := pv\<rparr>)"
  by (simp add: pvx_ok_def expand_key_pclmul_def)

definition et_mask :: "polyval_key_t \<Rightarrow> et_tweak_t \<Rightarrow> byte list" where
  "et_mask key tweak = snd (the (compute_et_mask False \<lparr>pvx_pv = polyval_init_from_key key, pvx_expanded = []\<rparr> tweak))"

lemma add_block_some:
  assumes "16 \<le> length block"
  shows "\<exists>pv'. pv_key pv' = pv_key pv \<and> (\<forall>u. polyval_add_block u pv block = Some pv')"
  using u128_from_bytes_some [OF assms] by (auto simp: polyval_add_block_dot)

lemma add_blocks_some:
  "n \<le> length data \<Longrightarrow> \<exists>pv'. pv_key pv' = pv_key pv \<and> (\<forall>u. add_blocks u pv data n = Some pv')"
proof (induction n arbitrary: pv data rule: less_induct)
  case (less n)
  consider "16 < n" | "n = 0" | "0 < n" "n \<le> 16" by linarith
  then show ?case
  proof cases
    case 1
    then obtain pv1 where pv1: "pv_key pv1 = pv_key pv" "\<forall>u. polyval_add_block u pv data = Some pv1"
      using add_block_some [of data pv] less.prems by auto
    have "n - 16 \<le> length (drop 16 data)" "n - 16 < n" using less.prems 1 by auto
    then obtain pv2 where "pv_key pv2 = pv_key pv1" "\<forall>u. add_blocks u pv1 (drop 16 data) (n - 16) = Some pv2"
      using less.IH by blast
    then show ?thesis using pv1 1 by (intro exI [of _ pv2]) (simp add: add_blocks.simps [of _ pv])
  next
    case 2
    then show ?thesis by (intro exI [of _ pv]) (simp add: add_blocks.simps)
  next
    case 3
    have "arr_blit (replicate 16 0) 0 (take n data) = Some (take n data @ replicate (16 - n) 0)"
      using 3 less.prems by (simp add: arr_blit_def)
    then show ?thesis
      using 3 less.prems add_block_some [of "take n data @ replicate (16 - n) 0" pv]
      by (auto simp: add_blocks.simps [of _ pv] arr_slice_def)
  qed
qed

lemma length_get_tag [simp]: "length (polyval_get_tag pv) = 16"
  by (simp add: polyval_get_tag_def u128_to_bytes_def)

lemma compute_et_mask_eq:
  assumes "pvx_ok u pvk" "16 \<le> length (tw_h (ett_uiv tweak))" "length (ett_x_r tweak) = 493"
  shows "\<exists>pvk'. compute_et_mask u pvk tweak = Some (pvk', et_mask (pvx_key pvk) tweak)
    \<and> pvx_ok u pvk' \<and> pvx_key pvk' = pvx_key pvk \<and> length (et_mask (pvx_key pvk) tweak) = 16"
proof -
  define key where "key = pvx_key pvk"
  define pv0 where "pv0 = polyval_init_from_key key"
  define block1 where "block1 = tw_cmd (ett_uiv tweak) # take 15 (ett_x_r tweak)"
  obtain pv1 where pv1: "pv_key pv1 = pv_key pv0" "\<forall>u. polyval_add_block u pv0 (tw_h (ett_uiv tweak)) = Some pv1"
    using add_block_some [OF assms(2), of pv0] by auto
  have "16 \<le> length block1" using assms(3) by (simp add: block1_def)
  then obtain pv2 where pv2: "pv_key pv2 = pv_key pv1" "\<forall>u. polyval_add_block u pv1 block1 = Some pv2"
    using add_block_some by blast
  have len: "478 \<le> length (drop 15 (ett_x_r tweak))" using assms(3) by simp
  then obtain pv3 where pv3: "pv_key pv3 = pv_key pv2"
      "\<forall>u. add_blocks u pv2 (drop 15 (ett_x_r tweak)) 478 = Some pv3"
    using add_blocks_some by blast
  have mask: "compute_et_mask v q tweak = Some (q\<lparr>pvx_pv := pv3\<rparr>, polyval_get_tag pv3)"
    if "pvx_ok v q" "pvx_key q = key" for v q
  proof -
    have "polyvalx_reset q = q\<lparr>pvx_pv := pv0\<rparr>"
      using that(2) by (simp add: polyvalx_reset_def polyval_reset_def pv0_def polyval_init_from_key_def)
    moreover have "arr_slice (ett_x_r tweak) 0 15 = Some (take 15 (ett_x_r tweak))"
      using assms(3) by (simp add: arr_slice_def)
    moreover have "polyvalx_add_zpad v (q\<lparr>pvx_pv := pv2\<rparr>) (drop 15 (ett_x_r tweak)) 478 = Some (q\<lparr>pvx_pv := pv3\<rparr>)"
      using addx_zpad_blocks [OF len, of v "q\<lparr>pvx_pv := pv2\<rparr>"] pvx_ok_key [OF that(1), of pv2] that(2) pv1 pv2 pv3
      by (simp add: pvx_ok_def pv0_def polyval_init_from_key_def)
    ultimately show ?thesis
      using pv1 pv2 by (simp add: compute_et_mask_def polyvalx_add_block_def block1_def [symmetric] polyvalx_get_tag_def)
  qed
  have "et_mask key tweak = polyval_get_tag pv3"
    using mask [of False "\<lparr>pvx_pv = polyval_init_from_key key, pvx_expanded = []\<rparr>"]
    by (simp add: et_mask_def pvx_ok_def polyval_init_from_key_def)
  moreover have "pv_key pv3 = key"
    using pv1 pv2 pv3 by (simp add: pv0_def polyval_init_from_key_def)
  ultimately show ?thesis
    using mask [OF assms(1)] pvx_ok_key [OF assms(1), of pv3] by (simp add: key_def)
qed

subsection \<open>Both ends of a layer\<close>

text \<open>The block ciphers of a client and a relay: the same keys, opposite directions.\<close>

definition et_sync :: "bool \<Rightarrow> cgo_et_t \<Rightarrow> bool \<Rightarrow> cgo_et_t \<Rightarrow> bool" where
  "et_sync u c v r \<longleftrightarrow>
     raw_bits (et_kb c) = raw_bits (et_kb r) \<and> raw_key (et_kb c) = raw_key (et_kb r)
     \<and> \<not> raw_encrypt (et_kb c) \<and> raw_encrypt (et_kb r)
     \<and> pvx_key (et_ku c) = pvx_key (et_ku r) \<and> pvx_ok u (et_ku c) \<and> pvx_ok v (et_ku r)"

lemma et_crypt_eq:
  assumes "ecb_is_permutation L" "pvx_ok u (et_ku et)" "16 \<le> length (tw_h (ett_uiv tweak))"
    "length (ett_x_r tweak) = 493"
  defines "m \<equiv> et_mask (pvx_key (et_ku et)) tweak"
    and "crypt \<equiv> \<lambda>e y. ecb_crypt L (raw_bits (et_kb et)) e (raw_key (et_kb et)) y"
  shows "\<exists>ku. pvx_ok u ku \<and> pvx_key ku = pvx_key (et_ku et) \<and> length m = 16
    \<and> (\<forall>x. length x = 16 \<longrightarrow>
         (raw_encrypt (et_kb et) \<longrightarrow>
            cgo_et_encrypt L u et tweak x = Some (et\<lparr>et_ku := ku\<rparr>, xor_bytes (crypt True (xor_bytes x m)) m))
       \<and> (\<not> raw_encrypt (et_kb et) \<longrightarrow>
            cgo_et_decrypt L u et tweak x = Some (et\<lparr>et_ku := ku\<rparr>, xor_bytes (crypt False (xor_bytes x m)) m)))"
proof -
  obtain ku where ku: "compute_et_mask u (et_ku et) tweak = Some (ku, m)" "pvx_ok u ku"
      "pvx_key ku = pvx_key (et_ku et)" "length m = 16"
    using compute_et_mask_eq [OF assms(2-4)] by (auto simp: m_def)
  have "(raw_encrypt (et_kb et) \<longrightarrow>
            cgo_et_encrypt L u et tweak x = Some (et\<lparr>et_ku := ku\<rparr>, xor_bytes (crypt True (xor_bytes x m)) m))
       \<and> (\<not> raw_encrypt (et_kb et) \<longrightarrow>
            cgo_et_decrypt L u et tweak x = Some (et\<lparr>et_ku := ku\<rparr>, xor_bytes (crypt False (xor_bytes x m)) m))"
    if l: "length x = 16" for x
  proof -
    have len: "length (crypt e (xor_bytes x m)) = 16" for e
      using assms(1) l ku(4) by (simp add: crypt_def ecb_is_permutation_def)
    have x: "xor_block x m = Some (xor_bytes x m)" using l ku(4) by (rule xor_block_eq)
    have y: "xor_block (crypt e (xor_bytes x m)) m = Some (xor_bytes (crypt e (xor_bytes x m)) m)" for e
      using len ku(4) by (rule xor_block_eq)
    have "raw_encrypt (et_kb et) \<Longrightarrow> aes_raw_encrypt L (et_kb et) (xor_bytes x m) = Some (crypt True (xor_bytes x m))"
      "\<not> raw_encrypt (et_kb et) \<Longrightarrow> aes_raw_decrypt L (et_kb et) (xor_bytes x m) = Some (crypt False (xor_bytes x m))"
      using l ku(4) len [of True] len [of False]
      by (simp_all add: aes_raw_encrypt_def aes_raw_decrypt_def arr_slice_def arr_blit_def crypt_def)
    then show ?thesis using ku x y by (simp add: cgo_et_encrypt_def cgo_et_decrypt_def)
  qed
  then show ?thesis using ku by blast
qed

lemma masked_inverse:
  assumes "ecb_is_permutation L" "length x = 16" "length m = 16"
  shows "xor_bytes (ecb_crypt L b (\<not> e) k (xor_bytes (xor_bytes (ecb_crypt L b e k (xor_bytes x m)) m) m)) m = x"
    and "length (xor_bytes (ecb_crypt L b e k (xor_bytes x m)) m) = 16"
proof -
  have len: "length (ecb_crypt L b e k (xor_bytes x m)) = 16"
    using assms by (simp add: ecb_is_permutation_def)
  have "ecb_crypt L b (\<not> e) k (ecb_crypt L b e k (xor_bytes x m)) = xor_bytes x m"
    using assms by (simp add: ecb_is_permutation_def)
  then show "xor_bytes (ecb_crypt L b (\<not> e) k (xor_bytes (xor_bytes (ecb_crypt L b e k (xor_bytes x m)) m) m)) m = x"
    using len assms by (simp add: xor_bytes_twice)
  show "length (xor_bytes (ecb_crypt L b e k (xor_bytes x m)) m) = 16" using len assms by simp
qed

lemma et_inverse:
  assumes "ecb_is_permutation L" "et_sync u c v r" "16 \<le> length (tw_h (ett_uiv tweak))"
    "length (ett_x_r tweak) = 493"
  shows "\<exists>c' r'. et_sync u c' v r' \<and> (\<forall>x. length x = 16 \<longrightarrow>
     (\<exists>y. length y = 16 \<and> cgo_et_decrypt L u c tweak x = Some (c', y) \<and> cgo_et_encrypt L v r tweak y = Some (r', x))
   \<and> (\<exists>z. length z = 16 \<and> cgo_et_encrypt L v r tweak x = Some (r', z) \<and> cgo_et_decrypt L u c tweak z = Some (c', x)))"
proof -
  define m where "m = et_mask (pvx_key (et_ku c)) tweak"
  define crypt where "crypt e y = ecb_crypt L (raw_bits (et_kb c)) e (raw_key (et_kb c)) y" for e y
  have s: "pvx_ok u (et_ku c)" "pvx_ok v (et_ku r)" "pvx_key (et_ku r) = pvx_key (et_ku c)"
      "raw_bits (et_kb r) = raw_bits (et_kb c)" "raw_key (et_kb r) = raw_key (et_kb c)"
      "\<not> raw_encrypt (et_kb c)" "raw_encrypt (et_kb r)"
    using assms(2) by (auto simp: et_sync_def)
  obtain ku where ku: "pvx_ok u ku" "pvx_key ku = pvx_key (et_ku c)" "length m = 16"
      "\<And>x. length x = 16 \<Longrightarrow>
         cgo_et_decrypt L u c tweak x = Some (c\<lparr>et_ku := ku\<rparr>, xor_bytes (crypt False (xor_bytes x m)) m)"
    using et_crypt_eq [OF assms(1) s(1) assms(3,4)] s(6) by (auto simp: m_def crypt_def)
  obtain kv where kv: "pvx_ok v kv" "pvx_key kv = pvx_key (et_ku c)"
      "\<And>x. length x = 16 \<Longrightarrow>
         cgo_et_encrypt L v r tweak x = Some (r\<lparr>et_ku := kv\<rparr>, xor_bytes (crypt True (xor_bytes x m)) m)"
    using et_crypt_eq [OF assms(1) s(2) assms(3,4)] s(3-5,7) by (auto simp: m_def crypt_def)
  have inv: "xor_bytes (crypt (\<not> e) (xor_bytes (xor_bytes (crypt e (xor_bytes x m)) m) m)) m = x"
      "length (xor_bytes (crypt e (xor_bytes x m)) m) = 16" if "length x = 16" for x e
    using masked_inverse [OF assms(1) that ku(3)] by (simp_all only: crypt_def)
  have "et_sync u (c\<lparr>et_ku := ku\<rparr>) v (r\<lparr>et_ku := kv\<rparr>)"
    using s ku(1,2) kv(1,2) by (simp add: et_sync_def)
  moreover have "length x = 16 \<Longrightarrow> \<exists>y. length y = 16 \<and> cgo_et_decrypt L u c tweak x = Some (c\<lparr>et_ku := ku\<rparr>, y)
      \<and> cgo_et_encrypt L v r tweak y = Some (r\<lparr>et_ku := kv\<rparr>, x)" for x
    using inv [of x False] ku(4) kv(3) by simp
  moreover have "length x = 16 \<Longrightarrow> \<exists>z. length z = 16 \<and> cgo_et_encrypt L v r tweak x = Some (r\<lparr>et_ku := kv\<rparr>, z)
      \<and> cgo_et_decrypt L u c tweak z = Some (c\<lparr>et_ku := ku\<rparr>, x)" for x
    using inv [of x True] ku(4) kv(3) by simp
  ultimately show ?thesis by blast
qed

text \<open>The pseudorandom function adds a stream that depends on the state and the input only.\<close>

lemma prf_hash_some:
  assumes "length inp = 16"
  shows "\<exists>h. length h = 16 \<and> (\<forall>u. prf_hash u b inp = Some h)"
proof -
  obtain pv where "\<forall>u. polyval_add_block u (polyval_init_from_key b) inp = Some pv"
    using add_block_some [of inp "polyval_init_from_key b"] assms by auto
  then show ?thesis
    by (intro exI [of _ "(polyval_get_tag pv)[15 := polyval_get_tag pv ! 15 AND 0xC0]"])
      (simp add: prf_hash_def arr_get_def arr_set_def Let_def)
qed

lemma prf_xor_t0_eq:
  assumes "ctr_is_stream L" "length inp = 16"
  shows "\<exists>k ks. length ks = 493 \<and> (\<forall>u data. length data = 493 \<longrightarrow>
     cgo_prf_xor_t0 L u prf inp data = Some (prf\<lparr>prf_k := k\<rparr>, xor_bytes data ks))"
proof -
  obtain h where h: "length h = 16" "\<And>u. prf_hash u (prf_b prf) inp = Some h"
    using prf_hash_some [OF assms(2), of "prf_b prf"] by auto
  define k where "k = ctr_set_iv L (prf_k prf) h"
  have "cgo_prf_xor_t0 L u prf inp data = Some (prf\<lparr>prf_k := ctr_after L (ctr_after L k 493) 3\<rparr>, xor_bytes data (keystream L k 493))"
    if "length data = 493" for u data
    using that h aes_crypt_inplace_eq [OF assms(1), of 493 data k] aes_crypt_inplace_eq [OF assms(1), of 3 h "ctr_after L k 493"]
    by (simp add: cgo_prf_xor_t0_def aes_cipher_set_iv_aligned_def arr_slice_def k_def)
  then show ?thesis using ctr_updateD(2) [OF assms(1), of k 493] by blast
qed

lemma prf_gen_t1_eq:
  assumes "ctr_is_stream L" "length inp = 16" "n < 1000"
  shows "\<exists>prf' buf. length buf = n \<and> (\<forall>u. cgo_prf_gen_t1 L u prf inp n = Some (prf', buf))"
proof -
  obtain h where h: "length h = 16" "\<And>u. prf_hash u (prf_b prf) inp = Some h"
    using prf_hash_some [OF assms(2), of "prf_b prf"] by auto
  define h' where "h' = h[15 := h ! 15 + 31]"
  define k where "k = ctr_set_iv L (prf_k prf) h'"
  have len: "length h' = 16" using h(1) by (simp add: h'_def)
  have "aes_crypt_inplace L k (replicate n 0) n = Some (ctr_after L k n, xor_bytes (replicate n 0) (keystream L k n))"
    using aes_crypt_inplace_eq [OF assms(1), of n "replicate n 0" k] assms(3) by simp
  moreover have "aes_crypt_inplace L (ctr_after L k n) h' (16 - n mod 16)
      = Some (ctr_after L (ctr_after L k n) (16 - n mod 16),
          xor_bytes (take (16 - n mod 16) h') (keystream L (ctr_after L k n) (16 - n mod 16)) @ drop (16 - n mod 16) h')"
    by (rule aes_crypt_inplace_eq [OF assms(1)]) (use len in auto)
  moreover have "length (xor_bytes (replicate n 0) (keystream L k n)) = n"
    using ctr_updateD(2) [OF assms(1), of k n] by simp
  ultimately show ?thesis
    using h len
    by (simp add: cgo_prf_gen_t1_def aes_cipher_set_iv_aligned_def arr_slice_def arr_get_def arr_set_def
        h'_def [symmetric] k_def [symmetric])
qed

definition uiv_sync :: "bool \<Rightarrow> 'c cgo_uiv_t \<Rightarrow> bool \<Rightarrow> 'c cgo_uiv_t \<Rightarrow> bool" where
  "uiv_sync u c v r \<longleftrightarrow> et_sync u (uiv_j c) v (uiv_j r) \<and> uiv_s c = uiv_s r"

lemma payload_parts: "length x = 16 \<Longrightarrow> arr_slice (x @ y) 0 16 = Some x" "length x = 16 \<Longrightarrow> drop 16 (x @ y) = y"
  by (simp_all add: arr_slice_def)

lemma uiv_dec_enc:
  assumes "ctr_is_stream L" "ecb_is_permutation L" "uiv_sync u c v r"
    "length (tw_h tweak) = 16" "length p = 509"
  shows "\<exists>c' r' q. uiv_sync u c' v r' \<and> length q = 509
      \<and> cgo_uiv_decrypt L u c tweak p = Some (c', q) \<and> cgo_uiv_encrypt L v r tweak q = Some (r', p)"
proof -
  have s: "et_sync u (uiv_j c) v (uiv_j r)" "uiv_s r = uiv_s c" using assms(3) by (auto simp: uiv_sync_def)
  obtain x y where p: "p = x @ y" "length x = 16" "length y = 493"
    using assms(5) that [of "take 16 p" "drop 16 p"] by simp
  obtain k ks where ks: "length ks = 493" "\<And>u data. length data = 493 \<Longrightarrow>
      cgo_prf_xor_t0 L u (uiv_s c) x data = Some ((uiv_s c)\<lparr>prf_k := k\<rparr>, xor_bytes data ks)"
    using prf_xor_t0_eq [OF assms(1) p(2), of "uiv_s c"] by auto
  define y' where "y' = xor_bytes y ks"
  have y': "length y' = 493" "xor_bytes y' ks = y" using ks(1) p(3) by (simp_all add: y'_def xor_bytes_twice)
  obtain j j' x' where x': "length x' = 16" "et_sync u j v j'"
      "cgo_et_decrypt L u (uiv_j c) \<lparr>ett_uiv = tweak, ett_x_r = y'\<rparr> x = Some (j, x')"
      "cgo_et_encrypt L v (uiv_j r) \<lparr>ett_uiv = tweak, ett_x_r = y'\<rparr> x' = Some (j', x)"
    using et_inverse [OF assms(2) s(1), of "\<lparr>ett_uiv = tweak, ett_x_r = y'\<rparr>"] assms(4) y'(1) p(2) by auto
  have "cgo_uiv_decrypt L u c tweak p = Some (c\<lparr>uiv_j := j, uiv_s := (uiv_s c)\<lparr>prf_k := k\<rparr>\<rparr>, x' @ y')"
    using p ks(2) [OF p(3)] x'(3) by (simp add: cgo_uiv_decrypt_def payload_parts y'_def [symmetric])
  moreover have "cgo_uiv_encrypt L v r tweak (x' @ y') = Some (r\<lparr>uiv_j := j', uiv_s := (uiv_s c)\<lparr>prf_k := k\<rparr>\<rparr>, p)"
    using p ks(2) [OF y'(1)] x'(1,4) y' s(2) by (simp add: cgo_uiv_encrypt_def payload_parts)
  ultimately show ?thesis
    using x'(1,2) y'(1)
    by (intro exI [of _ "c\<lparr>uiv_j := j, uiv_s := (uiv_s c)\<lparr>prf_k := k\<rparr>\<rparr>"] exI [of _ "r\<lparr>uiv_j := j', uiv_s := (uiv_s c)\<lparr>prf_k := k\<rparr>\<rparr>"]
        exI [of _ "x' @ y'"]) (simp add: uiv_sync_def)
qed

lemma uiv_enc_dec:
  assumes "ctr_is_stream L" "ecb_is_permutation L" "uiv_sync u c v r"
    "length (tw_h tweak) = 16" "length p = 509"
  shows "\<exists>c' r' q. uiv_sync u c' v r' \<and> length q = 509
      \<and> cgo_uiv_encrypt L v r tweak p = Some (r', q) \<and> cgo_uiv_decrypt L u c tweak q = Some (c', p)"
proof -
  have s: "et_sync u (uiv_j c) v (uiv_j r)" "uiv_s r = uiv_s c" using assms(3) by (auto simp: uiv_sync_def)
  obtain x y where p: "p = x @ y" "length x = 16" "length y = 493"
    using assms(5) that [of "take 16 p" "drop 16 p"] by simp
  obtain j j' x' where x': "length x' = 16" "et_sync u j v j'"
      "cgo_et_encrypt L v (uiv_j r) \<lparr>ett_uiv = tweak, ett_x_r = y\<rparr> x = Some (j', x')"
      "cgo_et_decrypt L u (uiv_j c) \<lparr>ett_uiv = tweak, ett_x_r = y\<rparr> x' = Some (j, x)"
    using et_inverse [OF assms(2) s(1), of "\<lparr>ett_uiv = tweak, ett_x_r = y\<rparr>"] assms(4) p(2,3) by auto
  obtain k ks where ks: "length ks = 493" "\<And>u data. length data = 493 \<Longrightarrow>
      cgo_prf_xor_t0 L u (uiv_s c) x' data = Some ((uiv_s c)\<lparr>prf_k := k\<rparr>, xor_bytes data ks)"
    using prf_xor_t0_eq [OF assms(1) x'(1), of "uiv_s c"] by auto
  define y' where "y' = xor_bytes y ks"
  have y': "length y' = 493" "xor_bytes y' ks = y" using ks(1) p(3) by (simp_all add: y'_def xor_bytes_twice)
  have "cgo_uiv_encrypt L v r tweak p = Some (r\<lparr>uiv_j := j', uiv_s := (uiv_s c)\<lparr>prf_k := k\<rparr>\<rparr>, x' @ y')"
    using p ks(2) [OF p(3)] x'(3) s(2) by (simp add: cgo_uiv_encrypt_def payload_parts y'_def [symmetric])
  moreover have "cgo_uiv_decrypt L u c tweak (x' @ y') = Some (c\<lparr>uiv_j := j, uiv_s := (uiv_s c)\<lparr>prf_k := k\<rparr>\<rparr>, p)"
    using p ks(2) [OF y'(1)] x'(1,4) y' by (simp add: cgo_uiv_decrypt_def payload_parts)
  ultimately show ?thesis
    using x'(1,2) y'(1)
    by (intro exI [of _ "c\<lparr>uiv_j := j, uiv_s := (uiv_s c)\<lparr>prf_k := k\<rparr>\<rparr>"] exI [of _ "r\<lparr>uiv_j := j', uiv_s := (uiv_s c)\<lparr>prf_k := k\<rparr>\<rparr>"]
        exI [of _ "x' @ y'"]) (simp add: uiv_sync_def)
qed

text \<open>New keys come out the same on both sides.\<close>

lemma et_set_key_sync:
  assumes "bits = 128 \<or> bits = 192 \<or> bits = 256" "bits div 8 + 16 \<le> length key"
  shows "\<exists>c r. cgo_et_set_key u bits False key = Some c \<and> cgo_et_set_key v bits True key = Some r \<and> et_sync u c v r"
proof -
  have "16 \<le> length (drop (bits div 8) key)" using assms(2) by simp
  then obtain h where "u128_from_bytes (drop (bits div 8) key) = Some h" using u128_from_bytes_some by blast
  then show ?thesis
    using assms
    by (auto simp: cgo_et_set_key_def aes_raw_set_key_def arr_slice_def polyvalx_init_def polyval_init_def
        polyval_key_init_def et_sync_def pvx_ok_def)
qed

lemma et_init_set_key: "cgo_et_init = cgo_et_set_key"
  by (intro ext) (simp add: cgo_et_init_def cgo_et_set_key_def aes_raw_new_def aes_raw_set_key_def)

lemma prf_set_key_some:
  assumes "bits = 128 \<or> bits = 192 \<or> bits = 256" "bits div 8 + 16 \<le> length key"
  shows "\<exists>s. cgo_prf_set_key L bits key = Some s \<and> cgo_prf_init L bits key = Some s"
proof -
  have "16 \<le> length (drop (bits div 8) key)" using assms(2) by simp
  then obtain h where "u128_from_bytes (drop (bits div 8) key) = Some h" using u128_from_bytes_some by blast
  then show ?thesis
    using assms
    by (auto simp: cgo_prf_set_key_def cgo_prf_init_def aes_cipher_set_key_def aes_new_cipher_def arr_slice_def
        polyval_key_init_def)
qed

lemma uiv_update_sync:
  assumes "ctr_is_stream L" "uiv_sync u c v r" "length nonce = 16" "bits = 128 \<or> bits = 192 \<or> bits = 256"
  shows "\<exists>c' r' nonce'. cgo_uiv_update L u c bits False nonce = Some (c', nonce')
    \<and> cgo_uiv_update L v r bits True nonce = Some (r', nonce') \<and> uiv_sync u c' v r' \<and> length nonce' = 16"
proof -
  define n where "n = (bits div 8 + 16) * 2 + 16"
  have n: "n < 1000" using assms(4) by (auto simp: n_def)
  obtain s keys where keys: "length keys = n" "\<And>u. cgo_prf_gen_t1 L u (uiv_s c) nonce n = Some (s, keys)"
    using prf_gen_t1_eq [OF assms(1,3) n, of "uiv_s c"] by auto
  obtain j j' where j: "cgo_et_set_key u bits False keys = Some j" "cgo_et_set_key v bits True keys = Some j'"
      "et_sync u j v j'"
    using et_set_key_sync [OF assms(4), of keys u v] keys(1) by (auto simp: n_def)
  have "bits div 8 + 16 \<le> length (drop (bits div 8 + 16) keys)" using keys(1) by (simp add: n_def)
  then obtain s' where s': "cgo_prf_set_key L bits (drop (bits div 8 + 16) keys) = Some s'"
    using prf_set_key_some [OF assms(4)] by blast
  have "arr_slice keys ((bits div 8 + 16) * 2) 16 = Some (drop ((bits div 8 + 16) * 2) keys)"
    using keys(1) by (simp add: arr_slice_def n_def)
  moreover have "arr_blit nonce 0 (drop ((bits div 8 + 16) * 2) keys) = Some (drop ((bits div 8 + 16) * 2) keys)"
    using assms(3) keys(1) by (simp add: arr_blit_def n_def)
  moreover have "uiv_s r = uiv_s c" using assms(2) by (simp add: uiv_sync_def)
  ultimately show ?thesis
    unfolding cgo_uiv_update_def Let_def n_def [symmetric] using j s' keys by (simp add: uiv_sync_def n_def)
qed

subsection \<open>Cells of a layer\<close>

definition cgo_sync :: "bool \<Rightarrow> 'c cgo_crypt_t \<Rightarrow> bool \<Rightarrow> 'c cgo_crypt_t \<Rightarrow> bool" where
  "cgo_sync u c v r \<longleftrightarrow> uiv_sync u (cg_uiv c) v (cg_uiv r)
     \<and> cg_nonce r = cg_nonce c \<and> length (cg_nonce c) = 16
     \<and> cg_tprime r = cg_tprime c \<and> length (cg_tprime c) = 16
     \<and> cg_aes_bytes r = cg_aes_bytes c \<and> cg_aes_bytes c \<in> {16, 24, 32}
     \<and> length (cg_last_tag_relay_fwd r) = 16"

lemma cgo_update_sync:
  assumes "ctr_is_stream L" "cgo_sync u c v r" "\<not> mode_encrypts m" "mode_encrypts m'"
  shows "\<exists>c' r'. cgo_crypt_update L u c m = Some c' \<and> cgo_crypt_update L v r m' = Some r' \<and> cgo_sync u c' v r'
    \<and> cg_tprime c' = cg_tprime c \<and> cg_last_tag_relay_fwd r' = cg_last_tag_relay_fwd r"
proof -
  have b: "unat (cg_aes_bytes c) * 8 = 128 \<or> unat (cg_aes_bytes c) * 8 = 192 \<or> unat (cg_aes_bytes c) * 8 = 256"
    using assms(2) by (auto simp: cgo_sync_def)
  have s: "uiv_sync u (cg_uiv c) v (cg_uiv r)" "length (cg_nonce c) = 16" "cg_aes_bytes r = cg_aes_bytes c"
      "cg_nonce r = cg_nonce c"
    using assms(2) by (simp_all add: cgo_sync_def)
  obtain c' r' n where "cgo_uiv_update L u (cg_uiv c) (unat (cg_aes_bytes c) * 8) False (cg_nonce c) = Some (c', n)"
      "cgo_uiv_update L v (cg_uiv r) (unat (cg_aes_bytes c) * 8) True (cg_nonce c) = Some (r', n)"
      "uiv_sync u c' v r'" "length n = 16"
    using uiv_update_sync [OF assms(1) s(1,2) b] by blast
  then show ?thesis
    using assms(2-4) s(3,4) by (simp add: cgo_crypt_update_def cgo_sync_def)
qed

lemma mode_simps [simp]:
  "\<not> mode_encrypts CGO_MODE_CLIENT_FORWARD" "\<not> mode_encrypts CGO_MODE_CLIENT_BACKWARD"
  "mode_encrypts CGO_MODE_RELAY_FORWARD" "mode_encrypts CGO_MODE_RELAY_BACKWARD"
  by (simp_all add: mode_encrypts_def)

lemma memeq_first:
  assumes "length p = 509" "length n = 16"
  shows "tor_memeq p n 16 = Some (if take 16 p = n then 1 else 0)"
  using tor_memeq_eq [of 16 p n] assms by simp

lemma tag_copies:
  assumes "length p = 509"
  shows "arr_slice p 0 16 = Some (take 16 p)" "length b = 16 \<Longrightarrow> arr_blit b 0 (take 16 p) = Some (take 16 p)"
  using assms by (simp_all add: arr_slice_def arr_blit_def)

text \<open>
  A cell passes through a layer that is not for it: the client undoes beforehand what the relay will
  do, and afterwards both remember the same bytes for the next cell.
\<close>

lemma cgo_forward_pass:
  assumes "ctr_is_stream L" "ecb_is_permutation L" "cgo_sync u c v r" "length (c_payload cell) = 509"
  shows "\<exists>c' r' cell' tag. cgo_crypt_client_forward L u c cell = Some (c', cell')
    \<and> length (c_payload cell') = 509 \<and> c_command cell' = c_command cell
    \<and> cgo_crypt_relay_forward L v r cell' = Some (r', cell, tag)
    \<and> (tag = None \<longleftrightarrow> take 16 (c_payload cell) \<noteq> cg_nonce c)
    \<and> (\<forall>t. tag = Some t \<longrightarrow> length t = 16) \<and> (tag = None \<longrightarrow> cgo_sync u c' v r')"
proof -
  define tw where "tw = \<lparr>tw_h = cg_tprime c, tw_cmd = c_command cell\<rparr>"
  define p where "p = c_payload cell"
  have s: "uiv_sync u (cg_uiv c) v (cg_uiv r)" "length (tw_h tw) = 16" "length p = 509"
    using assms(3,4) by (simp_all add: cgo_sync_def tw_def p_def)
  obtain c' r' q where q: "uiv_sync u c' v r'" "length q = 509"
      "cgo_uiv_decrypt L u (cg_uiv c) tw p = Some (c', q)" "cgo_uiv_encrypt L v (cg_uiv r) tw q = Some (r', p)"
    using uiv_dec_enc [OF assms(1,2) s] by blast
  define C where "C = c\<lparr>cg_uiv := c', cg_tprime := take 16 p\<rparr>"
  define R where "R = r\<lparr>cg_last_tag_relay_fwd := take 16 q, cg_uiv := r', cg_tprime := take 16 p\<rparr>"
  have sync: "cgo_sync u C v R" using assms(3) q s by (simp add: C_def R_def cgo_sync_def)
  obtain R' where R': "cgo_crypt_update L v R CGO_MODE_RELAY_FORWARD = Some R'" "length (cg_last_tag_relay_fwd R') = 16"
    using cgo_update_sync [OF assms(1) sync, of CGO_MODE_CLIENT_FORWARD CGO_MODE_RELAY_FORWARD]
    by (auto simp: cgo_sync_def)
  have "cgo_crypt_client_forward L u c cell = Some (C, cell\<lparr>c_payload := q\<rparr>)"
    using assms(3) q s tag_copies [of p]
    by (simp add: cgo_crypt_client_forward_def tw_def p_def C_def cgo_sync_def)
  moreover have "cgo_crypt_relay_forward L v r (cell\<lparr>c_payload := q\<rparr>)
      = (if take 16 p = cg_nonce c then Some (R', cell, Some (cg_last_tag_relay_fwd R')) else Some (R, cell, None))"
    using assms(3) q s memeq_first [of p "cg_nonce r"] tag_copies [of p] tag_copies [of q] R'
    by (cases "take 16 p = cg_nonce c") (simp_all add: cgo_crypt_relay_forward_def tw_def p_def R_def cgo_sync_def)
  ultimately show ?thesis using q(2) sync R'(2) by (auto simp: p_def)
qed

text \<open>
  A cell for this layer: the client puts the nonce in, the relay finds it there, and both derive the
  next keys and the next nonce from it.
\<close>

lemma cgo_forward_recognized:
  assumes "ctr_is_stream L" "ecb_is_permutation L" "cgo_sync u c v r" "length (c_payload cell) = 509"
  shows "\<exists>c' r' cell' tag. cgo_crypt_client_originate L u c cell = Some (c', cell', tag)
    \<and> length (c_payload cell') = 509 \<and> c_command cell' = c_command cell \<and> length tag = 509
    \<and> cgo_crypt_relay_forward L v r cell'
        = Some (r', cell\<lparr>c_payload := cg_nonce c @ drop 16 (c_payload cell)\<rparr>, Some (take 16 tag))
    \<and> cgo_sync u c' v r'"
proof -
  define p where "p = cg_nonce c @ drop 16 (c_payload cell)"
  define tw where "tw = \<lparr>tw_h = cg_tprime c, tw_cmd = c_command cell\<rparr>"
  have s: "uiv_sync u (cg_uiv c) v (cg_uiv r)" "length (tw_h tw) = 16" "length p = 509"
    using assms(3,4) by (simp_all add: cgo_sync_def tw_def p_def)
  have n: "length (cg_nonce c) = 16" "take 16 p = cg_nonce c" using assms(3) by (simp_all add: cgo_sync_def p_def)
  obtain c' r' q where q: "uiv_sync u c' v r'" "length q = 509"
      "cgo_uiv_decrypt L u (cg_uiv c) tw p = Some (c', q)" "cgo_uiv_encrypt L v (cg_uiv r) tw q = Some (r', p)"
    using uiv_dec_enc [OF assms(1,2) s] by blast
  define C where "C = c\<lparr>cg_uiv := c', cg_tprime := take 16 p\<rparr>"
  define R where "R = r\<lparr>cg_last_tag_relay_fwd := take 16 q, cg_uiv := r', cg_tprime := take 16 p\<rparr>"
  have "cgo_sync u C v R" using assms(3) q s by (simp add: C_def R_def cgo_sync_def)
  then obtain C' R' where u: "cgo_crypt_update L u C CGO_MODE_CLIENT_FORWARD = Some C'"
      "cgo_crypt_update L v R CGO_MODE_RELAY_FORWARD = Some R'" "cgo_sync u C' v R'"
      "cg_last_tag_relay_fwd R' = take 16 q"
    using cgo_update_sync [OF assms(1), of u C v R CGO_MODE_CLIENT_FORWARD CGO_MODE_RELAY_FORWARD]
    by (auto simp: R_def)
  have b: "arr_slice (cg_nonce c) 0 16 = Some (cg_nonce c)" "arr_blit (c_payload cell) 0 (cg_nonce c) = Some p"
    using n(1) assms(4) by (simp_all add: arr_slice_def arr_blit_def p_def)
  have "cgo_crypt_client_forward L u c (cell\<lparr>c_payload := p\<rparr>) = Some (C, cell\<lparr>c_payload := q\<rparr>)"
    using assms(3) q s tag_copies [of p] by (simp add: cgo_crypt_client_forward_def tw_def C_def cgo_sync_def)
  then have "cgo_crypt_client_originate L u c cell = Some (C', cell\<lparr>c_payload := q\<rparr>, q)"
    using b u(1) by (simp add: cgo_crypt_client_originate_def)
  moreover have "cgo_crypt_relay_forward L v r (cell\<lparr>c_payload := q\<rparr>)
      = Some (R', cell\<lparr>c_payload := p\<rparr>, Some (take 16 q))"
    using assms(3) q s memeq_first [of p "cg_nonce r"] tag_copies [of p] tag_copies [of q]
      u(2) [unfolded R_def n(2)] u(4) n
    by (simp add: cgo_crypt_relay_forward_def tw_def cgo_sync_def)
  ultimately show ?thesis using q(2) u(3) by (simp add: p_def)
qed

text \<open>The same in the other direction, where the tag becomes the next nonce before the keys change.\<close>

lemma cgo_backward_pass:
  assumes "ctr_is_stream L" "ecb_is_permutation L" "cgo_sync u c v r" "length (c_payload cell) = 509"
  shows "\<exists>c' r' cell' tag. cgo_crypt_relay_backward L v r cell = Some (r', cell')
    \<and> length (c_payload cell') = 509 \<and> c_command cell' = c_command cell
    \<and> cgo_crypt_client_backward L u c cell' = Some (c', cell, tag)
    \<and> (tag = None \<longleftrightarrow> take 16 (c_payload cell) \<noteq> cg_nonce c)
    \<and> (\<forall>t. tag = Some t \<longrightarrow> length t = 16) \<and> (tag = None \<longrightarrow> cgo_sync u c' v r')"
proof -
  define tw where "tw = \<lparr>tw_h = cg_tprime c, tw_cmd = c_command cell\<rparr>"
  define p where "p = c_payload cell"
  have s: "uiv_sync u (cg_uiv c) v (cg_uiv r)" "length (tw_h tw) = 16" "length p = 509"
    using assms(3,4) by (simp_all add: cgo_sync_def tw_def p_def)
  obtain c' r' q where q: "uiv_sync u c' v r'" "length q = 509"
      "cgo_uiv_encrypt L v (cg_uiv r) tw p = Some (r', q)" "cgo_uiv_decrypt L u (cg_uiv c) tw q = Some (c', p)"
    using uiv_enc_dec [OF assms(1,2) s] by blast
  define C where "C = c\<lparr>cg_uiv := c', cg_tprime := take 16 q\<rparr>"
  define R where "R = r\<lparr>cg_uiv := r', cg_tprime := take 16 q\<rparr>"
  have sync: "cgo_sync u C v R" using assms(3) q s by (simp add: C_def R_def cgo_sync_def)
  have "cgo_sync u (C\<lparr>cg_nonce := take 16 q\<rparr>) v (R\<lparr>cg_nonce := take 16 q\<rparr>)"
    using sync q(2) by (simp add: cgo_sync_def)
  then obtain C' where C': "cgo_crypt_update L u (C\<lparr>cg_nonce := take 16 q\<rparr>) CGO_MODE_CLIENT_BACKWARD = Some C'"
      "length (cg_tprime C') = 16"
    using cgo_update_sync [OF assms(1), of u _ v _ CGO_MODE_CLIENT_BACKWARD CGO_MODE_RELAY_BACKWARD]
    by (fastforce simp: cgo_sync_def)
  have "cgo_crypt_relay_backward L v r cell = Some (R, cell\<lparr>c_payload := q\<rparr>)"
    using assms(3) q s tag_copies [of q]
    by (simp add: cgo_crypt_relay_backward_def tw_def p_def R_def cgo_sync_def)
  moreover have "cgo_crypt_client_backward L u c (cell\<lparr>c_payload := q\<rparr>)
      = (if take 16 p = cg_nonce c then Some (C', cell, Some (cg_tprime C')) else Some (C, cell, None))"
    using assms(3) q s memeq_first [of p "cg_nonce c"] tag_copies [of p] tag_copies [of q] C'
    by (simp add: cgo_crypt_client_backward_def tw_def p_def C_def cgo_sync_def)
  ultimately show ?thesis using q(2) sync C'(2) by (auto simp: p_def)
qed

lemma cgo_backward_recognized:
  assumes "ctr_is_stream L" "ecb_is_permutation L" "cgo_sync u c v r" "length (c_payload cell) = 509"
  shows "\<exists>c' r' cell' tag. cgo_crypt_relay_originate L v r cell = Some (r', cell', tag)
    \<and> length (c_payload cell') = 509 \<and> c_command cell' = c_command cell \<and> length tag = 16
    \<and> cgo_crypt_client_backward L u c cell'
        = Some (c', cell\<lparr>c_payload := cg_nonce c @ drop 16 (c_payload cell)\<rparr>, Some tag)
    \<and> cgo_sync u c' v r'"
proof -
  define p where "p = cg_nonce c @ drop 16 (c_payload cell)"
  define tw where "tw = \<lparr>tw_h = cg_tprime c, tw_cmd = c_command cell\<rparr>"
  have s: "uiv_sync u (cg_uiv c) v (cg_uiv r)" "length (tw_h tw) = 16" "length p = 509"
    using assms(3,4) by (simp_all add: cgo_sync_def tw_def p_def)
  have n: "length (cg_nonce c) = 16" "take 16 p = cg_nonce c" using assms(3) by (simp_all add: cgo_sync_def p_def)
  obtain c' r' q where q: "uiv_sync u c' v r'" "length q = 509"
      "cgo_uiv_encrypt L v (cg_uiv r) tw p = Some (r', q)" "cgo_uiv_decrypt L u (cg_uiv c) tw q = Some (c', p)"
    using uiv_enc_dec [OF assms(1,2) s] by blast
  define C where "C = c\<lparr>cg_uiv := c', cg_tprime := take 16 q, cg_nonce := take 16 q\<rparr>"
  define R where "R = r\<lparr>cg_uiv := r', cg_tprime := take 16 q, cg_nonce := take 16 q\<rparr>"
  have "cgo_sync u C v R" using assms(3) q s by (simp add: C_def R_def cgo_sync_def)
  then obtain C' R' where u: "cgo_crypt_update L u C CGO_MODE_CLIENT_BACKWARD = Some C'"
      "cgo_crypt_update L v R CGO_MODE_RELAY_BACKWARD = Some R'" "cgo_sync u C' v R'" "cg_tprime C' = take 16 q"
    using cgo_update_sync [OF assms(1), of u C v R CGO_MODE_CLIENT_BACKWARD CGO_MODE_RELAY_BACKWARD]
    by (auto simp: C_def)
  have t: "cg_tprime R' = take 16 q" using u(3,4) by (simp add: cgo_sync_def)
  have b: "arr_slice (cg_nonce c) 0 16 = Some (cg_nonce c)" "arr_blit (c_payload cell) 0 (cg_nonce c) = Some p"
    using n(1) assms(4) by (simp_all add: arr_slice_def arr_blit_def p_def)
  have "cgo_crypt_relay_originate L v r cell = Some (R', cell\<lparr>c_payload := q\<rparr>, take 16 q)"
    using assms(3) q s tag_copies [of q] u b t
    by (simp add: cgo_crypt_relay_originate_def tw_def R_def [symmetric] cgo_sync_def)
  moreover have "cgo_crypt_client_backward L u c (cell\<lparr>c_payload := q\<rparr>)
      = Some (C', cell\<lparr>c_payload := p\<rparr>, Some (take 16 q))"
    using assms(3) q s memeq_first [of p "cg_nonce c"] tag_copies [of p] tag_copies [of q] u n
    by (simp add: cgo_crypt_client_backward_def tw_def C_def [symmetric] cgo_sync_def)
  ultimately show ?thesis using q(2) u(3) by (simp add: p_def)
qed

text \<open>Both ends start in agreement when they are created from the same key material.\<close>

lemma cgo_new_sync:
  assumes "cgo_key_material_len bits = Some m" "m \<le> length keys" "\<not> mode_encrypts k" "mode_encrypts k'"
  shows "\<exists>c r. cgo_crypt_new L u k bits keys m = Some c \<and> cgo_crypt_new L v k' bits keys m = Some r
    \<and> cgo_sync u c v r"
proof -
  have b: "bits = 128 \<or> bits = 192 \<or> bits = 256" and m: "m = (bits div 8 + 16) * 2 + 16"
    using assms(1) by (auto simp: cgo_key_material_len_def cgo_uiv_keylen_def cgo_et_keylen_def cgo_prf_keylen_def
        guard_def split: if_splits)
  obtain j j' where j: "cgo_et_set_key u bits False keys = Some j" "cgo_et_set_key v bits True keys = Some j'"
      "et_sync u j v j'"
    using et_set_key_sync [OF b, of keys u v] assms(2) m by auto
  have "bits div 8 + 16 \<le> length (drop (bits div 8 + 16) keys)" using assms(2) m by simp
  then obtain s where s: "cgo_prf_init L bits (drop (bits div 8 + 16) keys) = Some s"
    using prf_set_key_some [OF b] by blast
  have w: "(word_of_nat (bits div 8) :: u8) \<in> {16, 24, 32}" using b by auto
  show ?thesis
    using assms j s w m
    by (simp add: cgo_crypt_new_def cgo_uiv_init_def et_init_set_key arr_slice_def cgo_uiv_keylen_def cgo_et_keylen_def
        cgo_prf_keylen_def cgo_sync_def uiv_sync_def Let_def)
qed

end
