(* ===== verification/Relay_Crypto.thy ===== *)
theory Relay_Crypto
  imports Tor1_Crypt Cgo_Crypt Relay_Msg
begin

section \<open>Onion encryption of relay cells: \<^verbatim>\<open>core/crypto/relay_crypto.c\<close>\<close>

text \<open>
  The layers of a circuit. The client holds one cryptographic state for each hop, each relay the state
  it shares with the client, and a layer is of either kind. The path of an origin circuit is a
  circular doubly-linked list in the code; here it is the list of its hops, with the first hop first,
  and a pointer to a hop is its index. Of a hop and of a circuit the model has the fields that the
  code below uses. The argument \<open>u\<close> of a function says whether the host it runs on has the instruction
  that Polyval can use; it need not be the same for all hosts of a circuit.
\<close>

subsection \<open>State\<close>

datatype relay_crypto_alg_t = RELAY_CRYPTO_ALG_TOR1 | RELAY_CRYPTO_ALG_TOR1_HSC | RELAY_CRYPTO_ALG_TOR1_HSS
  | RELAY_CRYPTO_ALG_CGO_CLIENT | RELAY_CRYPTO_ALG_CGO_RELAY

record 'c cgo_pair_t =
  pair_fwd :: "'c cgo_crypt_t option"
  pair_back :: "'c cgo_crypt_t option"
  pair_last_tag :: "byte list"

datatype 'c relay_crypto_t = RCK_TOR1 "'c tor1_crypt_t" | RCK_CGO "'c cgo_pair_t"

record 'c crypt_path_t =
  cp_magic :: u32
  cpath_state :: u8
  package_window :: int
  deliver_window :: int
  relay_cell_format :: relay_cell_fmt_t
  pvt_crypto :: "'c relay_crypto_t"

datatype 'c circuit_t = Origin_circuit "'c crypt_path_t list" | Or_circuit "'c relay_crypto_t"

datatype cell_direction_t = CELL_DIRECTION_IN | CELL_DIRECTION_OUT

abbreviation CPATH_STATE_OPEN :: u8 where "CPATH_STATE_OPEN \<equiv> 2"
abbreviation SENDME_TAG_LEN_TOR1 :: nat where "SENDME_TAG_LEN_TOR1 \<equiv> 20"
abbreviation CGO_AES_BITS :: nat where "CGO_AES_BITS \<equiv> 128"

definition relay_crypto_get_sendme_tag :: "'c relay_crypto_t \<Rightarrow> byte list \<times> nat" where
  "relay_crypto_get_sendme_tag crypto =
     (case crypto of
        RCK_TOR1 tor1 \<Rightarrow> (sendme_digest tor1, SENDME_TAG_LEN_TOR1)
      | RCK_CGO cgo \<Rightarrow> (pair_last_tag cgo, SENDME_TAG_LEN_CGO))"

definition relay_crypto_sendme_tag_len :: "'c relay_crypto_t \<Rightarrow> nat" where
  "relay_crypto_sendme_tag_len crypto =
     (case crypto of RCK_TOR1 tor1 \<Rightarrow> SENDME_TAG_LEN_TOR1 | RCK_CGO cgo \<Rightarrow> SENDME_TAG_LEN_CGO)"

subsection \<open>One layer\<close>

definition relay_crypt_client_backward ::
    "'c crypto_lib \<Rightarrow> bool \<Rightarrow> 'c relay_crypto_t \<Rightarrow> cell_t \<Rightarrow> (bool \<times> 'c relay_crypto_t \<times> cell_t) option" where
  "relay_crypt_client_backward L u crypto cell =
     (case crypto of
        RCK_TOR1 tor1 \<Rightarrow>
          do {
            (rec, tor1, cell) \<leftarrow> tor1_crypt_client_backward L tor1 cell;
            Some (rec, RCK_TOR1 tor1, cell)
          }
      | RCK_CGO cgo \<Rightarrow>
          do {
            cg \<leftarrow> pair_back cgo;
            (cg, cell, tag) \<leftarrow> cgo_crypt_client_backward L u cg cell;
            let cgo = cgo\<lparr>pair_back := Some cg\<rparr>;
            (case tag of
               Some tag \<Rightarrow>
                 do {
                   t \<leftarrow> arr_slice tag 0 SENDME_TAG_LEN_CGO;
                   last \<leftarrow> arr_blit (pair_last_tag cgo) 0 t;
                   Some (True, RCK_CGO (cgo\<lparr>pair_last_tag := last\<rparr>), cell)
                 }
             | None \<Rightarrow> Some (False, RCK_CGO cgo, cell))
          })"

definition relay_crypt_relay_forward ::
    "'c crypto_lib \<Rightarrow> bool \<Rightarrow> 'c relay_crypto_t \<Rightarrow> cell_t \<Rightarrow> (bool \<times> 'c relay_crypto_t \<times> cell_t) option" where
  "relay_crypt_relay_forward L u crypto cell =
     (case crypto of
        RCK_TOR1 tor1 \<Rightarrow>
          do {
            (rec, tor1, cell) \<leftarrow> tor1_crypt_relay_forward L tor1 cell;
            Some (rec, RCK_TOR1 tor1, cell)
          }
      | RCK_CGO cgo \<Rightarrow>
          do {
            cg \<leftarrow> pair_fwd cgo;
            (cg, cell, tag) \<leftarrow> cgo_crypt_relay_forward L u cg cell;
            let cgo = cgo\<lparr>pair_fwd := Some cg\<rparr>;
            (case tag of
               Some tag \<Rightarrow>
                 do {
                   t \<leftarrow> arr_slice tag 0 SENDME_TAG_LEN_CGO;
                   last \<leftarrow> arr_blit (pair_last_tag cgo) 0 t;
                   Some (True, RCK_CGO (cgo\<lparr>pair_last_tag := last\<rparr>), cell)
                 }
             | None \<Rightarrow> Some (False, RCK_CGO cgo, cell))
          })"

definition relay_crypt_relay_backward ::
    "'c crypto_lib \<Rightarrow> bool \<Rightarrow> 'c relay_crypto_t \<Rightarrow> cell_t \<Rightarrow> ('c relay_crypto_t \<times> cell_t) option" where
  "relay_crypt_relay_backward L u crypto cell =
     (case crypto of
        RCK_TOR1 tor1 \<Rightarrow>
          do {
            (tor1, cell) \<leftarrow> tor1_crypt_relay_backward L tor1 cell;
            Some (RCK_TOR1 tor1, cell)
          }
      | RCK_CGO cgo \<Rightarrow>
          do {
            cg \<leftarrow> pair_back cgo;
            (cg, cell) \<leftarrow> cgo_crypt_relay_backward L u cg cell;
            Some (RCK_CGO (cgo\<lparr>pair_back := Some cg\<rparr>), cell)
          })"

definition relay_crypt_client_originate ::
    "'c crypto_lib \<Rightarrow> bool \<Rightarrow> 'c relay_crypto_t \<Rightarrow> cell_t \<Rightarrow> ('c relay_crypto_t \<times> cell_t) option" where
  "relay_crypt_client_originate L u crypto cell =
     (case crypto of
        RCK_TOR1 tor1 \<Rightarrow>
          do {
            (tor1, cell) \<leftarrow> tor1_crypt_client_originate L tor1 cell;
            Some (RCK_TOR1 tor1, cell)
          }
      | RCK_CGO cgo \<Rightarrow>
          do {
            cg \<leftarrow> pair_fwd cgo;
            (cg, cell, tag) \<leftarrow> cgo_crypt_client_originate L u cg cell;
            t \<leftarrow> arr_slice tag 0 SENDME_TAG_LEN_CGO;
            last \<leftarrow> arr_blit (pair_last_tag cgo) 0 t;
            Some (RCK_CGO (cgo\<lparr>pair_fwd := Some cg, pair_last_tag := last\<rparr>), cell)
          })"

definition relay_crypt_client_forward ::
    "'c crypto_lib \<Rightarrow> bool \<Rightarrow> 'c relay_crypto_t \<Rightarrow> cell_t \<Rightarrow> ('c relay_crypto_t \<times> cell_t) option" where
  "relay_crypt_client_forward L u crypto cell =
     (case crypto of
        RCK_TOR1 tor1 \<Rightarrow>
          do {
            (tor1, cell) \<leftarrow> tor1_crypt_client_forward L tor1 cell;
            Some (RCK_TOR1 tor1, cell)
          }
      | RCK_CGO cgo \<Rightarrow>
          do {
            cg \<leftarrow> pair_fwd cgo;
            (cg, cell) \<leftarrow> cgo_crypt_client_forward L u cg cell;
            Some (RCK_CGO (cgo\<lparr>pair_fwd := Some cg\<rparr>), cell)
          })"

definition relay_encrypt_cell_inbound ::
    "'c crypto_lib \<Rightarrow> bool \<Rightarrow> cell_t \<Rightarrow> 'c relay_crypto_t \<Rightarrow> (int \<times> cell_t \<times> 'c relay_crypto_t) option" where
  "relay_encrypt_cell_inbound L u cell crypto =
     (case crypto of
        RCK_TOR1 tor1 \<Rightarrow>
          do {
            (tor1, cell) \<leftarrow> tor1_crypt_relay_originate L tor1 cell;
            Some (0, cell, RCK_TOR1 tor1)
          }
      | RCK_CGO cgo \<Rightarrow>
          do {
            cg \<leftarrow> pair_back cgo;
            (cg, cell, tag) \<leftarrow> cgo_crypt_relay_originate L u cg cell;
            t \<leftarrow> arr_slice tag 0 SENDME_TAG_LEN_CGO;
            last \<leftarrow> arr_blit (pair_last_tag cgo) 0 t;
            Some (0, cell, RCK_CGO (cgo\<lparr>pair_back := Some cg, pair_last_tag := last\<rparr>))
          })"

subsection \<open>All layers of a circuit\<close>

text \<open>
  The loop of the client over the hops of a path, from \<open>thishop\<close> on. It ends with the circuit closed
  (\<open>-1\<close>) when it comes back to the first hop or reaches a hop that is not open.
\<close>

fun decrypt_hops ::
    "'c crypto_lib \<Rightarrow> bool \<Rightarrow> 'c crypt_path_t list \<Rightarrow> nat \<Rightarrow> cell_t
     \<Rightarrow> (int \<times> 'c crypt_path_t list \<times> cell_t \<times> nat option \<times> bool) option" where
  "decrypt_hops L u [] i cell = None"
| "decrypt_hops L u (thishop # hops) i cell =
     do {
       (rec, crypto, cell) \<leftarrow> relay_crypt_client_backward L u (pvt_crypto thishop) cell;
       let thishop = thishop\<lparr>pvt_crypto := crypto\<rparr>;
       (if rec then Some (0, thishop # hops, cell, Some i, True)
        else if hops = [] \<or> cpath_state (hd hops) \<noteq> CPATH_STATE_OPEN then Some (-1, thishop # hops, cell, None, False)
        else
          do {
            (ret, hops, cell, layer_hint, recognized) \<leftarrow> decrypt_hops L u hops (i + 1) cell;
            Some (ret, thishop # hops, cell, layer_hint, recognized)
          })
     }"

definition relay_decrypt_cell ::
    "'c crypto_lib \<Rightarrow> bool \<Rightarrow> 'c circuit_t \<Rightarrow> cell_t \<Rightarrow> cell_direction_t
     \<Rightarrow> (int \<times> 'c circuit_t \<times> cell_t \<times> nat option \<times> bool) option" where
  "relay_decrypt_cell L u circ cell cell_direction =
     (case cell_direction of
        CELL_DIRECTION_IN \<Rightarrow>
          (case circ of
             Origin_circuit cpath \<Rightarrow>
               (case cpath of
                  [] \<Rightarrow> None
                | thishop # _ \<Rightarrow>
                    if cpath_state thishop \<noteq> CPATH_STATE_OPEN then Some (-1, circ, cell, None, False)
                    else
                      do {
                        (ret, cpath, cell, layer_hint, recognized) \<leftarrow> decrypt_hops L u cpath 0 cell;
                        Some (ret, Origin_circuit cpath, cell, layer_hint, recognized)
                      })
           | Or_circuit crypto \<Rightarrow>
               do {
                 (crypto, cell) \<leftarrow> relay_crypt_relay_backward L u crypto cell;
                 Some (0, Or_circuit crypto, cell, None, False)
               })
      | CELL_DIRECTION_OUT \<Rightarrow>
          (case circ of
             Origin_circuit cpath \<Rightarrow> None
           | Or_circuit crypto \<Rightarrow>
               do {
                 (rec, crypto, cell) \<leftarrow> relay_crypt_relay_forward L u crypto cell;
                 Some (0, Or_circuit crypto, cell, None, rec)
               }))"

text \<open>
  The hops before the one that a cell is for, in the order of the \<open>prev\<close> pointers. The hop before the
  first one is the last one, where the loop ends.
\<close>

definition cpath_prev :: "nat \<Rightarrow> nat \<Rightarrow> nat" where
  "cpath_prev n i = (if i = 0 then n - 1 else i - 1)"

function outbound_loop ::
    "'c crypto_lib \<Rightarrow> bool \<Rightarrow> cell_t \<Rightarrow> 'c crypt_path_t list \<Rightarrow> nat \<Rightarrow> (cell_t \<times> 'c crypt_path_t list) option" where
  "outbound_loop L u cell cpath thishop =
     (if length cpath \<le> thishop then None
      else if thishop \<noteq> cpath_prev (length cpath) 0 then
        (case relay_crypt_client_forward L u (pvt_crypto (cpath ! thishop)) cell of
           None \<Rightarrow> None
         | Some (crypto, cell) \<Rightarrow>
             outbound_loop L u cell (cpath[thishop := (cpath ! thishop)\<lparr>pvt_crypto := crypto\<rparr>])
               (cpath_prev (length cpath) thishop))
      else Some (cell, cpath))"
  by auto
termination
  by (relation "measure (\<lambda>(L, u, cell, cpath, i). if i = length cpath - 1 then 0 else i + 1)")
    (auto simp: cpath_prev_def)

declare outbound_loop.simps [simp del]

definition relay_encrypt_cell_outbound ::
    "'c crypto_lib \<Rightarrow> bool \<Rightarrow> cell_t \<Rightarrow> 'c crypt_path_t list \<Rightarrow> nat \<Rightarrow> (cell_t \<times> 'c crypt_path_t list) option" where
  "relay_encrypt_cell_outbound L u cell cpath layer_hint =
     do {
       hop \<leftarrow> arr_get cpath layer_hint;
       (crypto, cell) \<leftarrow> relay_crypt_client_originate L u (pvt_crypto hop) cell;
       outbound_loop L u cell (cpath[layer_hint := hop\<lparr>pvt_crypto := crypto\<rparr>]) (cpath_prev (length cpath) layer_hint)
     }"

subsection \<open>Keys\<close>

definition cgo_pair_init ::
    "'c crypto_lib \<Rightarrow> bool \<Rightarrow> bool \<Rightarrow> byte list \<Rightarrow> nat \<Rightarrow> (int \<times> 'c cgo_pair_t) option" where
  "cgo_pair_init L u is_relay key_material key_data_len =
     do {
       let pair = \<lparr>pair_fwd = None, pair_back = None, pair_last_tag = replicate SENDME_TAG_LEN_CGO 0\<rparr>;
       let aes_bits = CGO_AES_BITS;
       single_cgo_len \<leftarrow> cgo_key_material_len aes_bits;
       (if key_data_len \<noteq> single_cgo_len * 2 then Some (-1, pair)
        else
          do {
            let fwd_mode = (if is_relay then CGO_MODE_RELAY_FORWARD else CGO_MODE_CLIENT_FORWARD);
            let back_mode = (if is_relay then CGO_MODE_RELAY_BACKWARD else CGO_MODE_CLIENT_BACKWARD);
            fwd \<leftarrow> cgo_crypt_new L u fwd_mode aes_bits key_material single_cgo_len;
            bk \<leftarrow> cgo_crypt_new L u back_mode aes_bits (drop single_cgo_len key_material) single_cgo_len;
            Some (0, pair\<lparr>pair_fwd := Some fwd, pair_back := Some bk\<rparr>)
          })
     }"

text \<open>
  The kinds share their memory in a union, and the older kind asserts that its pointers are null
  before it is set up. An object that has keys of the newer kind fails this assertion; the use of
  an emptied object of that kind for the older one is left undefined.
\<close>

definition relay_crypto_init ::
    "'c crypto_lib \<Rightarrow> bool \<Rightarrow> relay_crypto_alg_t \<Rightarrow> 'c relay_crypto_t \<Rightarrow> byte list \<Rightarrow> nat
     \<Rightarrow> (int \<times> 'c relay_crypto_t) option" where
  "relay_crypto_init L u alg crypto key_data key_data_len =
     (let tor1_init = (\<lambda>reverse is_hs_v3.
            case crypto of
              RCK_TOR1 tor1 \<Rightarrow>
                map_option (\<lambda>(ret, tor1). (ret, RCK_TOR1 tor1))
                  (tor1_crypt_init L tor1 key_data key_data_len reverse is_hs_v3)
            | RCK_CGO cgo \<Rightarrow> None);
          cgo_init = (\<lambda>is_relay.
            map_option (\<lambda>(ret, pair). (ret, RCK_CGO pair)) (cgo_pair_init L u is_relay key_data key_data_len))
      in case alg of
           RELAY_CRYPTO_ALG_TOR1 \<Rightarrow> tor1_init False False
         | RELAY_CRYPTO_ALG_TOR1_HSC \<Rightarrow> tor1_init False True
         | RELAY_CRYPTO_ALG_TOR1_HSS \<Rightarrow> tor1_init True True
         | RELAY_CRYPTO_ALG_CGO_CLIENT \<Rightarrow> cgo_init False
         | RELAY_CRYPTO_ALG_CGO_RELAY \<Rightarrow> cgo_init True)"

definition relay_crypto_key_material_len :: "relay_crypto_alg_t \<Rightarrow> nat option" where
  "relay_crypto_key_material_len alg =
     (case alg of
        RELAY_CRYPTO_ALG_TOR1 \<Rightarrow> Some (tor1_key_material_len False)
      | RELAY_CRYPTO_ALG_TOR1_HSC \<Rightarrow> Some (tor1_key_material_len True)
      | RELAY_CRYPTO_ALG_TOR1_HSS \<Rightarrow> Some (tor1_key_material_len True)
      | RELAY_CRYPTO_ALG_CGO_CLIENT \<Rightarrow> map_option (\<lambda>n. n * 2) (cgo_key_material_len CGO_AES_BITS)
      | RELAY_CRYPTO_ALG_CGO_RELAY \<Rightarrow> map_option (\<lambda>n. n * 2) (cgo_key_material_len CGO_AES_BITS))"

definition relay_crypto_clear :: "'c relay_crypto_t \<Rightarrow> 'c relay_crypto_t" where
  "relay_crypto_clear crypto =
     (case crypto of
        RCK_TOR1 tor1 \<Rightarrow> RCK_TOR1 (tor1_crypt_clear tor1)
      | RCK_CGO cgo \<Rightarrow> RCK_CGO (cgo\<lparr>pair_fwd := None, pair_back := None\<rparr>))"

definition relay_crypto_assert_ok :: "'c relay_crypto_t \<Rightarrow> unit option" where
  "relay_crypto_assert_ok crypto =
     (case crypto of RCK_TOR1 tor1 \<Rightarrow> tor1_crypt_assert_ok tor1 | RCK_CGO cgo \<Rightarrow> Some ())"

subsection \<open>The path of an origin circuit: \<^verbatim>\<open>core/or/crypt_path.c\<close>\<close>

abbreviation CRYPT_PATH_MAGIC :: u32 where "CRYPT_PATH_MAGIC \<equiv> 0x70127012"
abbreviation CPATH_STATE_CLOSED :: u8 where "CPATH_STATE_CLOSED \<equiv> 0"
abbreviation CPATH_STATE_AWAITING_KEYS :: u8 where "CPATH_STATE_AWAITING_KEYS \<equiv> 1"
abbreviation CIRCWINDOW_START :: int where "CIRCWINDOW_START \<equiv> 1000"

definition cpath_extend_linked_list :: "'c crypt_path_t list \<Rightarrow> 'c crypt_path_t \<Rightarrow> 'c crypt_path_t list" where
  "cpath_extend_linked_list cpath new_hop = cpath @ [new_hop]"

text \<open>The argument \<open>window\<close> is the result of \<open>circuit_initial_package_window\<close>, a consensus parameter.\<close>

definition cpath_append_hop :: "int \<Rightarrow> 'c crypt_path_t list \<Rightarrow> 'c crypt_path_t list" where
  "cpath_append_hop window cpath =
     cpath_extend_linked_list cpath
       \<lparr>cp_magic = CRYPT_PATH_MAGIC, cpath_state = CPATH_STATE_CLOSED, package_window = window,
        deliver_window = CIRCWINDOW_START, relay_cell_format = RELAY_CELL_FORMAT_V0,
        pvt_crypto = RCK_TOR1 tor1_zero\<rparr>"

definition cpath_assert_layer_ok :: "'c crypt_path_t \<Rightarrow> unit option" where
  "cpath_assert_layer_ok cp =
     do {
       guard (cp_magic cp = CRYPT_PATH_MAGIC);
       (if cpath_state cp = CPATH_STATE_OPEN then relay_crypto_assert_ok (pvt_crypto cp)
        else guard (cpath_state cp = CPATH_STATE_CLOSED \<or> cpath_state cp = CPATH_STATE_AWAITING_KEYS));
       guard (0 \<le> package_window cp);
       guard (0 \<le> deliver_window cp)
     }"

text \<open>The hops are given from \<open>cp\<close> on, once round; \<open>prev\<close> is the state of the hop before, if it is not the first.\<close>

fun cpath_assert_loop :: "u8 option \<Rightarrow> 'c crypt_path_t list \<Rightarrow> unit option" where
  "cpath_assert_loop prev [] = Some ()"
| "cpath_assert_loop prev (cp # hops) =
     do {
       cpath_assert_layer_ok cp;
       (case prev of
          None \<Rightarrow> Some ()
        | Some state \<Rightarrow>
            if cpath_state cp = CPATH_STATE_AWAITING_KEYS then guard (state = CPATH_STATE_OPEN)
            else if cpath_state cp = CPATH_STATE_OPEN then guard (state = CPATH_STATE_OPEN)
            else Some ());
       cpath_assert_loop (Some (cpath_state cp)) hops
     }"

definition cpath_assert_ok :: "'c crypt_path_t list \<Rightarrow> unit option" where
  "cpath_assert_ok hops = cpath_assert_loop None hops"

definition cpath_init_circuit_crypto ::
    "'c crypto_lib \<Rightarrow> bool \<Rightarrow> relay_crypto_alg_t \<Rightarrow> 'c crypt_path_t \<Rightarrow> byte list \<Rightarrow> nat
     \<Rightarrow> (int \<times> 'c crypt_path_t) option" where
  "cpath_init_circuit_crypto L u alg cpath key_data key_data_len =
     map_option (\<lambda>(ret, crypto). (ret, cpath\<lparr>pvt_crypto := crypto\<rparr>))
       (relay_crypto_init L u alg (pvt_crypto cpath) key_data key_data_len)"

fun next_non_open_from :: "'c crypt_path_t list \<Rightarrow> nat \<Rightarrow> nat option" where
  "next_non_open_from [] i = None"
| "next_non_open_from (hop # hops) i =
     (if cpath_state hop \<noteq> CPATH_STATE_OPEN then Some i else next_non_open_from hops (i + 1))"

definition cpath_get_next_non_open_hop :: "'c crypt_path_t list \<Rightarrow> nat option" where
  "cpath_get_next_non_open_hop cpath = next_non_open_from cpath 0"

subsection \<open>Layers in agreement\<close>

text \<open>What the cryptographic library has to provide, the agreement of the two ends of a layer, and what a layer delivers.\<close>

definition lib_ok :: "'c crypto_lib \<Rightarrow> bool" where
  "lib_ok L \<longleftrightarrow> ctr_is_stream L \<and> ecb_is_permutation L \<and> hash_lengths L"

definition layer_sync :: "bool \<Rightarrow> 'c relay_crypto_t \<Rightarrow> bool \<Rightarrow> 'c relay_crypto_t \<Rightarrow> bool" where
  "layer_sync u c v r \<longleftrightarrow>
     (case (c, r) of
        (RCK_TOR1 c, RCK_TOR1 r) \<Rightarrow> tor1_sync c r
      | (RCK_CGO c, RCK_CGO r) \<Rightarrow>
          (case (pair_fwd c, pair_fwd r) of (Some cf, Some rf) \<Rightarrow> cgo_sync u cf v rf | _ \<Rightarrow> False)
          \<and> (case (pair_back c, pair_back r) of (Some cb, Some rb) \<Rightarrow> cgo_sync u cb v rb | _ \<Rightarrow> False)
          \<and> length (pair_last_tag c) = 16 \<and> length (pair_last_tag r) = 16
      | _ \<Rightarrow> False)"

definition layer_ready :: "'c relay_crypto_t \<Rightarrow> cell_t \<Rightarrow> bool" where
  "layer_ready c x \<longleftrightarrow> (case c of RCK_TOR1 _ \<Rightarrow> tor1_cell_ready x | RCK_CGO _ \<Rightarrow> length (c_payload x) = 509)"

definition layer_delivers :: "'c relay_crypto_t \<Rightarrow> cell_t \<Rightarrow> cell_t \<Rightarrow> bool" where
  "layer_delivers c x y \<longleftrightarrow>
     (case c of
        RCK_TOR1 _ \<Rightarrow> y = x
      | RCK_CGO _ \<Rightarrow> length (c_payload y) = 509
          \<and> y = x\<lparr>c_payload := take 16 (c_payload y) @ drop 16 (c_payload x)\<rparr>)"

definition tags_agree :: "'c relay_crypto_t \<Rightarrow> 'c relay_crypto_t \<Rightarrow> bool" where
  "tags_agree c r \<longleftrightarrow> relay_crypto_get_sendme_tag c = relay_crypto_get_sendme_tag r
     \<and> length (fst (relay_crypto_get_sendme_tag c)) = relay_crypto_sendme_tag_len c"

lemma layer_sync_cases:
  assumes "layer_sync u c v r"
  obtains (tor1) tc tr where "c = RCK_TOR1 tc" "r = RCK_TOR1 tr" "tor1_sync tc tr"
  | (cgo) pc pr cf cb rf rb where "c = RCK_CGO pc" "r = RCK_CGO pr" "pair_fwd pc = Some cf" "pair_fwd pr = Some rf"
      "pair_back pc = Some cb" "pair_back pr = Some rb" "cgo_sync u cf v rf" "cgo_sync u cb v rb"
      "length (pair_last_tag pc) = 16" "length (pair_last_tag pr) = 16"
  using assms unfolding layer_sync_def by (auto split: relay_crypto_t.splits option.splits)

lemma tag_blit: "length t = 16 \<Longrightarrow> length d = 16 \<Longrightarrow> arr_blit d 0 t = Some t"
  by (simp add: arr_blit_def)

lemma tag_slice: "16 \<le> length t \<Longrightarrow> arr_slice t 0 16 = Some (take 16 t)"
  by (simp add: arr_slice_def)

lemma forward_recognized:
  assumes "lib_ok L" "layer_sync u c v r" "layer_ready c x"
  shows "\<exists>c' y r' z. relay_crypt_client_originate L u c x = Some (c', y) \<and> length (c_payload y) = 509
    \<and> relay_crypt_relay_forward L v r y = Some (True, r', z) \<and> layer_delivers c x z
    \<and> layer_sync u c' v r' \<and> tags_agree c' r'"
  using assms(2)
proof (cases rule: layer_sync_cases)
  case (tor1 tc tr)
  then show ?thesis
    using assms(1,3) tor1_forward_recognized [of L tc tr x]
    by (auto simp: lib_ok_def layer_ready_def layer_sync_def layer_delivers_def tags_agree_def tor1_sync_def
        relay_crypt_client_originate_def relay_crypt_relay_forward_def relay_crypto_get_sendme_tag_def
        relay_crypto_sendme_tag_len_def)
next
  case (cgo pc pr cf cb rf rb)
  have len: "length (c_payload x) = 509" and L: "ctr_is_stream L" "ecb_is_permutation L"
    using assms(1,3) cgo(1) by (simp_all add: layer_ready_def lib_ok_def)
  obtain c' r' y tag where "cgo_crypt_client_originate L u cf x = Some (c', y, tag)" "length (c_payload y) = 509"
      "length tag = 509" "cgo_sync u c' v r'" "cgo_crypt_relay_forward L v rf y
        = Some (r', x\<lparr>c_payload := cg_nonce cf @ drop 16 (c_payload x)\<rparr>, Some (take 16 tag))"
    using cgo_forward_recognized [OF L cgo(7) len] by blast
  moreover have "length (cg_nonce cf) = 16" using cgo(7) by (simp add: cgo_sync_def)
  ultimately show ?thesis
    using cgo len
    by (simp add: relay_crypt_client_originate_def relay_crypt_relay_forward_def tag_slice tag_blit layer_sync_def
        layer_delivers_def tags_agree_def relay_crypto_get_sendme_tag_def relay_crypto_sendme_tag_len_def)
qed

lemma forward_pass:
  assumes "lib_ok L" "layer_sync u c v r" "length (c_payload x) = 509"
  shows "\<exists>c' y rec r' z. relay_crypt_client_forward L u c x = Some (c', y) \<and> length (c_payload y) = 509
    \<and> relay_crypt_relay_forward L v r y = Some (rec, r', z) \<and> (\<not> rec \<longrightarrow> z = x \<and> layer_sync u c' v r')"
  using assms(2)
proof (cases rule: layer_sync_cases)
  case (tor1 tc tr)
  then show ?thesis
    using assms(1,3) tor1_forward_pass [of L tc tr x]
    by (fastforce simp: lib_ok_def layer_sync_def relay_crypt_client_forward_def relay_crypt_relay_forward_def)
next
  case (cgo pc pr cf cb rf rb)
  have L: "ctr_is_stream L" "ecb_is_permutation L" using assms(1) by (simp_all add: lib_ok_def)
  obtain c' r' y tag where f: "cgo_crypt_client_forward L u cf x = Some (c', y)" "length (c_payload y) = 509"
      "cgo_crypt_relay_forward L v rf y = Some (r', x, tag)" "tag = None \<longrightarrow> cgo_sync u c' v r'"
      "\<And>t. tag = Some t \<Longrightarrow> length t = 16"
    using cgo_forward_pass [OF L cgo(7) assms(3)] by blast
  then show ?thesis
    using cgo
    by (cases tag) (auto simp: relay_crypt_client_forward_def relay_crypt_relay_forward_def tag_slice tag_blit
        layer_sync_def)
qed

lemma backward_recognized:
  assumes "lib_ok L" "layer_sync u c v r" "layer_ready r x"
  shows "\<exists>r' y c' z. relay_encrypt_cell_inbound L v x r = Some (0, y, r') \<and> length (c_payload y) = 509
    \<and> relay_crypt_client_backward L u c y = Some (True, c', z) \<and> layer_delivers r x z
    \<and> layer_sync u c' v r' \<and> tags_agree r' c'"
  using assms(2)
proof (cases rule: layer_sync_cases)
  case (tor1 tc tr)
  then show ?thesis
    using assms(1,3) tor1_backward_recognized [of L tc tr x]
    by (auto simp: lib_ok_def layer_ready_def layer_sync_def layer_delivers_def tags_agree_def tor1_sync_def
        relay_encrypt_cell_inbound_def relay_crypt_client_backward_def relay_crypto_get_sendme_tag_def
        relay_crypto_sendme_tag_len_def)
next
  case (cgo pc pr cf cb rf rb)
  have len: "length (c_payload x) = 509" and L: "ctr_is_stream L" "ecb_is_permutation L"
    using assms(1,3) cgo(2) by (simp_all add: layer_ready_def lib_ok_def)
  obtain c' r' y tag where "cgo_crypt_relay_originate L v rb x = Some (r', y, tag)" "length (c_payload y) = 509"
      "length tag = 16" "cgo_sync u c' v r'" "cgo_crypt_client_backward L u cb y
        = Some (c', x\<lparr>c_payload := cg_nonce cb @ drop 16 (c_payload x)\<rparr>, Some tag)"
    using cgo_backward_recognized [OF L cgo(8) len] by blast
  moreover have "length (cg_nonce cb) = 16" using cgo(8) by (simp add: cgo_sync_def)
  ultimately show ?thesis
    using cgo len
    by (simp add: relay_encrypt_cell_inbound_def relay_crypt_client_backward_def tag_slice tag_blit layer_sync_def
        layer_delivers_def tags_agree_def relay_crypto_get_sendme_tag_def relay_crypto_sendme_tag_len_def)
qed

lemma backward_pass:
  assumes "lib_ok L" "layer_sync u c v r" "length (c_payload x) = 509"
  shows "\<exists>r' y rec c' z. relay_crypt_relay_backward L v r x = Some (r', y) \<and> length (c_payload y) = 509
    \<and> relay_crypt_client_backward L u c y = Some (rec, c', z) \<and> (\<not> rec \<longrightarrow> z = x \<and> layer_sync u c' v r')"
  using assms(2)
proof (cases rule: layer_sync_cases)
  case (tor1 tc tr)
  then show ?thesis
    using assms(1,3) tor1_backward_pass [of L tc tr x]
    by (fastforce simp: lib_ok_def layer_sync_def relay_crypt_relay_backward_def relay_crypt_client_backward_def)
next
  case (cgo pc pr cf cb rf rb)
  have L: "ctr_is_stream L" "ecb_is_permutation L" using assms(1) by (simp_all add: lib_ok_def)
  obtain c' r' y tag where f: "cgo_crypt_relay_backward L v rb x = Some (r', y)" "length (c_payload y) = 509"
      "cgo_crypt_client_backward L u cb y = Some (c', x, tag)" "tag = None \<longrightarrow> cgo_sync u c' v r'"
      "\<And>t. tag = Some t \<Longrightarrow> length t = 16"
    using cgo_backward_pass [OF L cgo(8) assms(3)] by blast
  then show ?thesis
    using cgo
    by (cases tag) (auto simp: relay_crypt_relay_backward_def relay_crypt_client_backward_def tag_slice tag_blit
        layer_sync_def)
qed

text \<open>Both ends are in agreement when they are set up from the same key material.\<close>

definition algs_match :: "relay_crypto_alg_t \<Rightarrow> relay_crypto_alg_t \<Rightarrow> bool" where
  "algs_match a b \<longleftrightarrow> a = RELAY_CRYPTO_ALG_TOR1 \<and> b = RELAY_CRYPTO_ALG_TOR1
     \<or> a = RELAY_CRYPTO_ALG_CGO_CLIENT \<and> b = RELAY_CRYPTO_ALG_CGO_RELAY"

lemma init_sync:
  assumes "algs_match a b" "relay_crypto_key_material_len a = Some (length key)"
  shows "\<exists>c r. relay_crypto_init L u a (RCK_TOR1 tor1_zero) key (length key) = Some (0, c)
    \<and> relay_crypto_init L v b (RCK_TOR1 tor1_zero) key (length key) = Some (0, r) \<and> layer_sync u c v r"
proof (cases a)
  case RELAY_CRYPTO_ALG_TOR1
  then show ?thesis
    using assms tor1_init_sync [of key L]
    by (auto simp: algs_match_def relay_crypto_init_def relay_crypto_key_material_len_def tor1_key_material_len_def
        layer_sync_def)
next
  case RELAY_CRYPTO_ALG_CGO_CLIENT
  obtain m where m: "cgo_key_material_len 128 = Some m" "length key = m * 2"
    using assms(2) RELAY_CRYPTO_ALG_CGO_CLIENT that by (fastforce simp: relay_crypto_key_material_len_def)
  have b: "b = RELAY_CRYPTO_ALG_CGO_RELAY" using assms(1) RELAY_CRYPTO_ALG_CGO_CLIENT by (simp add: algs_match_def)
  obtain cf rf where f: "cgo_crypt_new L u CGO_MODE_CLIENT_FORWARD 128 key m = Some cf"
      "cgo_crypt_new L v CGO_MODE_RELAY_FORWARD 128 key m = Some rf" "cgo_sync u cf v rf"
    using cgo_new_sync [OF m(1), where keys = key and k = CGO_MODE_CLIENT_FORWARD
        and k' = CGO_MODE_RELAY_FORWARD and L = L and u = u and v = v] m(2) by auto
  obtain cb rb where b: "cgo_crypt_new L u CGO_MODE_CLIENT_BACKWARD 128 (drop m key) m = Some cb"
      "cgo_crypt_new L v CGO_MODE_RELAY_BACKWARD 128 (drop m key) m = Some rb" "cgo_sync u cb v rb"
    using cgo_new_sync [OF m(1), where keys = "drop m key" and k = CGO_MODE_CLIENT_BACKWARD
        and k' = CGO_MODE_RELAY_BACKWARD and L = L and u = u and v = v] m(2) by auto
  show ?thesis
    using RELAY_CRYPTO_ALG_CGO_CLIENT m f b assms(1)
    by (simp add: relay_crypto_init_def cgo_pair_init_def layer_sync_def algs_match_def)
qed (use assms(1) in \<open>simp_all add: algs_match_def\<close>)

end
