(* ===== verification/Onion_Circuit.thy ===== *)
theory Onion_Circuit
  imports Relay_Crypto
begin

section \<open>Circuits: what the layers of all hops do together\<close>

text \<open>
  The functions of \<^verbatim>\<open>core/crypto/relay_crypto.c\<close> for whole circuits, at both ends of a circuit and at all
  relays between them: the agreement of the client and the relays over the life of a circuit, and the delivery of
  relay messages in both directions.
\<close>

subsection \<open>Layers on top of each other\<close>

text \<open>
  A sender wraps a message in one layer for each party on the way, the outermost for the first one;
  the parties peel them off in turn until one of them takes the message. Both directions of a circuit
  have this shape: on the way out the sender's layers are the hops of the client, on the way back they
  are the relays themselves. The locale \<open>onion_layers\<close> has what one layer promises.
\<close>

fun wrap_layers :: "('s \<Rightarrow> 'x \<Rightarrow> ('s \<times> 'x) option) \<Rightarrow> 's list \<Rightarrow> 'x \<Rightarrow> ('s list \<times> 'x) option" where
  "wrap_layers wrap [] x = Some ([], x)"
| "wrap_layers wrap (s # ss) x =
     do {
       (ss, x) \<leftarrow> wrap_layers wrap ss x;
       (s, x) \<leftarrow> wrap s x;
       Some (s # ss, x)
     }"

definition send_layers ::
    "('s \<Rightarrow> 'x \<Rightarrow> ('s \<times> 'x) option) \<Rightarrow> ('s \<Rightarrow> 'x \<Rightarrow> ('s \<times> 'x) option) \<Rightarrow> 's list \<Rightarrow> nat \<Rightarrow> 'x
     \<Rightarrow> ('s list \<times> 'x) option" where
  "send_layers wrap seal ss k x =
     do {
       s \<leftarrow> arr_get ss k;
       (s, x) \<leftarrow> seal s x;
       (front, x) \<leftarrow> wrap_layers wrap (take k ss) x;
       Some (front @ s # drop (k + 1) ss, x)
     }"

fun peel_layers ::
    "('r \<Rightarrow> 'x \<Rightarrow> (bool \<times> 'r \<times> 'x) option) \<Rightarrow> 'r list \<Rightarrow> 'x \<Rightarrow> ('r list \<times> nat option \<times> 'x) option" where
  "peel_layers peel [] x = Some ([], None, x)"
| "peel_layers peel (r # rs) x =
     do {
       (rec, r, x) \<leftarrow> peel r x;
       (if rec then Some (r # rs, Some 0, x)
        else
          do {
            (rs, taker, x) \<leftarrow> peel_layers peel rs x;
            Some (r # rs, map_option Suc taker, x)
          })
     }"

lemma send_layers_Suc:
  "send_layers wrap seal (s # ss) (Suc k) x =
     do {
       (ss, x) \<leftarrow> send_layers wrap seal ss k x;
       (s, x) \<leftarrow> wrap s x;
       Some (s # ss, x)
     }"
  by (simp add: send_layers_def arr_get_def split: Option.bind_split prod.splits)

lemma send_layers_append:
  assumes "k < length ss"
  shows "send_layers wrap seal (ss @ ts) k x = map_option (\<lambda>(ss, x). (ss @ ts, x)) (send_layers wrap seal ss k x)"
  using assms by (simp add: send_layers_def arr_get_def nth_append split: Option.bind_split)

lemma wrap_layers_snoc:
  "wrap_layers wrap (ss @ [s]) x =
     do {
       (s, x) \<leftarrow> wrap s x;
       (ss, x) \<leftarrow> wrap_layers wrap ss x;
       Some (ss @ [s], x)
     }"
  by (induction ss; cases "wrap s x") (auto simp: bind_eq_Some_conv split: Option.bind_split)

lemma wrap_layers_length: "wrap_layers wrap ss x = Some (ss', y) \<Longrightarrow> length ss' = length ss"
  by (induction ss arbitrary: ss' y) (auto simp: bind_eq_Some_conv)

lemma peel_layers_length: "peel_layers peel rs x = Some (rs', taker, y) \<Longrightarrow> length rs' = length rs"
proof (induction rs arbitrary: x rs' taker y)
  case (Cons r rs)
  obtain rec r1 x1 where p: "peel r x = Some (rec, r1, x1)" using Cons.prems by (cases "peel r x") auto
  show ?case
  proof (cases rec)
    case False
    then obtain rs1 t1 where "peel_layers peel rs x1 = Some (rs1, t1, y)" "rs' = r1 # rs1"
      using Cons.prems p by (cases "peel_layers peel rs x1") auto
    then show ?thesis using Cons.IH by fastforce
  qed (use Cons.prems p in auto)
qed simp

locale onion_layers =
  fixes sync :: "'s \<Rightarrow> 'r \<Rightarrow> bool"
    and good ready :: "'s \<Rightarrow> 'x \<Rightarrow> bool"
    and wrap seal :: "'s \<Rightarrow> 'x \<Rightarrow> ('s \<times> 'x) option"
    and peel :: "'r \<Rightarrow> 'x \<Rightarrow> (bool \<times> 'r \<times> 'x) option"
    and delivers :: "'s \<Rightarrow> 'x \<Rightarrow> 'x \<Rightarrow> bool"
    and agree :: "'s \<Rightarrow> 'r \<Rightarrow> bool"
  assumes good_any: "good s x \<Longrightarrow> good s' x"
    and wrap_peel: "sync s r \<Longrightarrow> good s x \<Longrightarrow> \<exists>s' y rec r' z. wrap s x = Some (s', y) \<and> good s y
      \<and> peel r y = Some (rec, r', z) \<and> (\<not> rec \<longrightarrow> z = x \<and> sync s' r')"
    and seal_peel: "sync s r \<Longrightarrow> ready s x \<Longrightarrow> \<exists>s' y r' z. seal s x = Some (s', y) \<and> good s y
      \<and> peel r y = Some (True, r', z) \<and> delivers s x z \<and> sync s' r' \<and> agree s' r'"
begin

lemma layers_deliver:
  assumes "list_all2 sync ss rs" "k < length ss" "ready (ss ! k) x"
  shows "\<exists>ss' y rs' j z. send_layers wrap seal ss k x = Some (ss', y) \<and> (\<forall>s. good s y)
    \<and> peel_layers peel rs y = Some (rs', Some j, z) \<and> j \<le> k
    \<and> (j = k \<longrightarrow> delivers (ss ! k) x z \<and> list_all2 sync ss' rs' \<and> agree (ss' ! k) (rs' ! k))"
  using assms
proof (induction ss rs arbitrary: k rule: list_all2_induct)
  case (Cons s ss r rs)
  show ?case
  proof (cases k)
    case 0
    then obtain s' y r' z where "seal s x = Some (s', y)" "good s y" "peel r y = Some (True, r', z)"
        "delivers s x z" "sync s' r'" "agree s' r'"
      using seal_peel [OF Cons.hyps(1), of x] Cons.prems by auto
    then show ?thesis using 0 Cons.hyps(2) good_any by (auto simp: send_layers_def arr_get_def)
  next
    case (Suc i)
    obtain ss' y rs' j z where h: "send_layers wrap seal ss i x = Some (ss', y)" "\<forall>s. good s y"
        "peel_layers peel rs y = Some (rs', Some j, z)" "j \<le> i"
        "j = i \<longrightarrow> delivers (ss ! i) x z \<and> list_all2 sync ss' rs' \<and> agree (ss' ! i) (rs' ! i)"
      using Cons.IH [of i] Cons.prems Suc by auto
    obtain s' w rec r' v where "wrap s y = Some (s', w)" "good s w" "peel r w = Some (rec, r', v)"
        "\<not> rec \<longrightarrow> v = y \<and> sync s' r'"
      using wrap_peel [OF Cons.hyps(1)] h(2) by blast
    then show ?thesis
      using h Suc good_any by (cases rec) (auto simp: send_layers_Suc)
  qed
qed simp

end

text \<open>The parties of a circuit: the hops of the client, and the relays with their own circuit.\<close>

type_synonym 'c relay = "bool \<times> 'c relay_crypto_t"

definition hop_apply ::
    "('c relay_crypto_t \<Rightarrow> cell_t \<Rightarrow> ('c relay_crypto_t \<times> cell_t) option) \<Rightarrow> 'c crypt_path_t \<Rightarrow> cell_t
     \<Rightarrow> ('c crypt_path_t \<times> cell_t) option" where
  "hop_apply f hop x = map_option (\<lambda>(c, x). (hop\<lparr>pvt_crypto := c\<rparr>, x)) (f (pvt_crypto hop) x)"

definition hop_peel ::
    "'c crypto_lib \<Rightarrow> bool \<Rightarrow> 'c crypt_path_t \<Rightarrow> cell_t \<Rightarrow> (bool \<times> 'c crypt_path_t \<times> cell_t) option" where
  "hop_peel L u hop x =
     map_option (\<lambda>(rec, c, x). (rec, hop\<lparr>pvt_crypto := c\<rparr>, x)) (relay_crypt_client_backward L u (pvt_crypto hop) x)"

definition relay_peel :: "'c crypto_lib \<Rightarrow> 'c relay \<Rightarrow> cell_t \<Rightarrow> (bool \<times> 'c relay \<times> cell_t) option" where
  "relay_peel L r x =
     (case relay_decrypt_cell L (fst r) (Or_circuit (snd r)) x CELL_DIRECTION_OUT of
        Some (_, Or_circuit c, x, _, rec) \<Rightarrow> Some (rec, (fst r, c), x)
      | _ \<Rightarrow> None)"

definition relay_wrap :: "'c crypto_lib \<Rightarrow> 'c relay \<Rightarrow> cell_t \<Rightarrow> ('c relay \<times> cell_t) option" where
  "relay_wrap L r x =
     (case relay_decrypt_cell L (fst r) (Or_circuit (snd r)) x CELL_DIRECTION_IN of
        Some (_, Or_circuit c, x, _, _) \<Rightarrow> Some ((fst r, c), x)
      | _ \<Rightarrow> None)"

definition relay_seal :: "'c crypto_lib \<Rightarrow> 'c relay \<Rightarrow> cell_t \<Rightarrow> ('c relay \<times> cell_t) option" where
  "relay_seal L r x = map_option (\<lambda>(_, x, c). ((fst r, c), x)) (relay_encrypt_cell_inbound L (fst r) x (snd r))"

definition hop_fields_ok :: "'c crypt_path_t \<Rightarrow> bool" where
  "hop_fields_ok hop \<longleftrightarrow> cp_magic hop = CRYPT_PATH_MAGIC \<and> 0 \<le> package_window hop \<and> 0 \<le> deliver_window hop"

definition layer_format :: "'c relay_crypto_t \<Rightarrow> relay_cell_fmt_t" where
  "layer_format c = (case c of RCK_TOR1 _ \<Rightarrow> RELAY_CELL_FORMAT_V0 | RCK_CGO _ \<Rightarrow> RELAY_CELL_FORMAT_V1)"

definition hop_sync :: "'c crypto_lib \<Rightarrow> bool \<Rightarrow> 'c crypt_path_t \<Rightarrow> 'c relay \<Rightarrow> bool" where
  "hop_sync L u hop r \<longleftrightarrow> lib_ok L \<and> hop_fields_ok hop \<and> cpath_state hop = CPATH_STATE_OPEN
     \<and> relay_cell_format hop = layer_format (pvt_crypto hop) \<and> layer_sync u (pvt_crypto hop) (fst r) (snd r)"

lemma hop_sync_update:
  assumes "hop_sync L u hop r" "layer_format c = layer_format (pvt_crypto hop)" "layer_sync u c (fst r') (snd r')"
  shows "hop_sync L u (hop\<lparr>pvt_crypto := c\<rparr>) r'"
  using assms by (simp add: hop_sync_def hop_fields_ok_def)

lemma layer_format_kept:
  "relay_crypt_client_forward L u c x = Some (c', y) \<Longrightarrow> layer_format c' = layer_format c"
  "relay_crypt_client_originate L u c x = Some (c', y) \<Longrightarrow> layer_format c' = layer_format c"
  "relay_crypt_client_backward L u c x = Some (rec, c', y) \<Longrightarrow> layer_format c' = layer_format c"
  by (auto simp: layer_format_def relay_crypt_client_forward_def relay_crypt_client_originate_def
      relay_crypt_client_backward_def bind_eq_Some_conv Let_def split: relay_crypto_t.splits option.splits)

lemma hop_syncD: "hop_sync L u hop r \<Longrightarrow> lib_ok L \<and> layer_sync u (pvt_crypto hop) (fst r) (snd r)"
  by (simp add: hop_sync_def)

interpretation outward: onion_layers "hop_sync L u" "\<lambda>_ x. length (c_payload x) = 509"
    "\<lambda>hop. layer_ready (pvt_crypto hop)" "hop_apply (relay_crypt_client_forward L u)"
    "hop_apply (relay_crypt_client_originate L u)" "relay_peel L" "\<lambda>hop. layer_delivers (pvt_crypto hop)"
    "\<lambda>hop r. tags_agree (pvt_crypto hop) (snd r)"
  for L u
proof
  fix s :: "'a crypt_path_t" and r :: "'a relay" and x :: cell_t
  assume "hop_sync L u s r" "length (c_payload x) = 509"
  then show "\<exists>s' y rec r' z. hop_apply (relay_crypt_client_forward L u) s x = Some (s', y)
      \<and> length (c_payload y) = 509 \<and> relay_peel L r y = Some (rec, r', z) \<and> (\<not> rec \<longrightarrow> z = x \<and> hop_sync L u s' r')"
    using forward_pass [of L u "pvt_crypto s" "fst r" "snd r" x] hop_sync_update [of L u s r]
    by (fastforce simp: hop_syncD hop_apply_def relay_peel_def relay_decrypt_cell_def dest: layer_format_kept)
next
  fix s :: "'a crypt_path_t" and r :: "'a relay" and x :: cell_t
  assume "hop_sync L u s r" "layer_ready (pvt_crypto s) x"
  then show "\<exists>s' y r' z. hop_apply (relay_crypt_client_originate L u) s x = Some (s', y)
      \<and> length (c_payload y) = 509 \<and> relay_peel L r y = Some (True, r', z) \<and> layer_delivers (pvt_crypto s) x z
      \<and> hop_sync L u s' r' \<and> tags_agree (pvt_crypto s') (snd r')"
    using forward_recognized [of L u "pvt_crypto s" "fst r" "snd r" x] hop_sync_update [of L u s r]
    by (fastforce simp: hop_syncD hop_apply_def relay_peel_def relay_decrypt_cell_def dest: layer_format_kept)
qed

interpretation homeward: onion_layers "\<lambda>r hop. hop_sync L u hop r" "\<lambda>_ x. length (c_payload x) = 509"
    "\<lambda>r. layer_ready (snd r)" "relay_wrap L" "relay_seal L" "hop_peel L u" "\<lambda>r. layer_delivers (snd r)"
    "\<lambda>r hop. tags_agree (snd r) (pvt_crypto hop)"
  for L u
proof
  fix s :: "'a relay" and r :: "'a crypt_path_t" and x :: cell_t
  assume "hop_sync L u r s" "length (c_payload x) = 509"
  then show "\<exists>s' y rec r' z. relay_wrap L s x = Some (s', y) \<and> length (c_payload y) = 509
      \<and> hop_peel L u r y = Some (rec, r', z) \<and> (\<not> rec \<longrightarrow> z = x \<and> hop_sync L u r' s')"
    using backward_pass [of L u "pvt_crypto r" "fst s" "snd s" x] hop_sync_update [of L u r s]
    by (fastforce simp: hop_syncD hop_peel_def relay_wrap_def relay_decrypt_cell_def dest: layer_format_kept)
next
  fix s :: "'a relay" and r :: "'a crypt_path_t" and x :: cell_t
  assume "hop_sync L u r s" "layer_ready (snd s) x"
  then show "\<exists>s' y r' z. relay_seal L s x = Some (s', y) \<and> length (c_payload y) = 509
      \<and> hop_peel L u r y = Some (True, r', z) \<and> layer_delivers (snd s) x z
      \<and> hop_sync L u r' s' \<and> tags_agree (snd s') (pvt_crypto r')"
    using backward_recognized [of L u "pvt_crypto r" "fst s" "snd s" x] hop_sync_update [of L u r s]
    by (fastforce simp: hop_syncD hop_peel_def relay_seal_def dest: layer_format_kept)
qed

text \<open>The functions of the code are these layers.\<close>

lemma outbound_loop_layers:
  "i < length cpath \<Longrightarrow> outbound_loop L u x cpath (cpath_prev (length cpath) i)
     = map_option (\<lambda>(front, y). (y, front @ drop i cpath))
         (wrap_layers (hop_apply (relay_crypt_client_forward L u)) (take i cpath) x)"
proof (induction i arbitrary: x cpath)
  case 0
  then show ?case by (cases cpath) (simp_all add: outbound_loop.simps cpath_prev_def)
next
  case (Suc i)
  have t: "take (Suc i) cpath = take i cpath @ [cpath ! i]" using Suc.prems by (simp add: take_Suc_conv_app_nth)
  have i: "i < length cpath" "i \<noteq> cpath_prev (length cpath) 0" using Suc.prems by (auto simp: cpath_prev_def)
  have loop: "outbound_loop L u x cpath i = (case relay_crypt_client_forward L u (pvt_crypto (cpath ! i)) x of
      None \<Rightarrow> None
    | Some (c, y) \<Rightarrow> outbound_loop L u y (cpath[i := (cpath ! i)\<lparr>pvt_crypto := c\<rparr>]) (cpath_prev (length cpath) i))"
    using i by (subst outbound_loop.simps) simp
  have "drop i (cpath[i := h]) = h # drop (Suc i) cpath" for h
    using Suc.prems by (simp add: Cons_nth_drop_Suc [symmetric] drop_update_cancel)
  then show ?case
    using Suc.prems Suc.IH [of "cpath[i := _]"]
    by (auto simp: t loop wrap_layers_snoc hop_apply_def cpath_prev_def split: option.splits Option.bind_split)
qed

lemma outbound_layers:
  assumes "k < length cpath"
  shows "relay_encrypt_cell_outbound L u x cpath k
    = map_option (\<lambda>(cpath, y). (y, cpath))
        (send_layers (hop_apply (relay_crypt_client_forward L u)) (hop_apply (relay_crypt_client_originate L u)) cpath k x)"
proof -
  have "drop k (cpath[k := h]) = h # drop (Suc k) cpath" for h
    using assms by (simp add: Cons_nth_drop_Suc [symmetric] drop_update_cancel)
  then show ?thesis
    using assms outbound_loop_layers [of k "cpath[k := _]"]
    by (auto simp: relay_encrypt_cell_outbound_def send_layers_def arr_get_def hop_apply_def split: Option.bind_split)
qed

lemma decrypt_hops_layers:
  assumes "peel_layers (hop_peel L u) opens x = Some (opens', Some j, z)"
    "\<forall>hop\<in>set opens. cpath_state hop = CPATH_STATE_OPEN"
  shows "decrypt_hops L u (opens @ rest) i x = Some (0, opens' @ rest, z, Some (i + j), True)"
  using assms
proof (induction opens arbitrary: x opens' j i)
  case (Cons hop hops)
  obtain rec c y where c: "relay_crypt_client_backward L u (pvt_crypto hop) x = Some (rec, c, y)"
    using Cons.prems(1) by (auto simp: hop_peel_def bind_eq_Some_conv)
  then have p: "hop_peel L u hop x = Some (rec, hop\<lparr>pvt_crypto := c\<rparr>, y)" by (simp add: hop_peel_def)
  show ?case
  proof (cases rec)
    case True
    then show ?thesis using Cons.prems(1) c p by auto
  next
    case False
    then obtain hops' j' where h: "peel_layers (hop_peel L u) hops y = Some (hops', Some j', z)"
        "opens' = hop\<lparr>pvt_crypto := c\<rparr> # hops'" "j = Suc j'"
      using Cons.prems(1) p by (auto simp: bind_eq_Some_conv)
    moreover have "hops \<noteq> []" using h(1) by auto
    moreover have "cpath_state (hd (hops @ rest)) = CPATH_STATE_OPEN"
      using Cons.prems(2) \<open>hops \<noteq> []\<close> by (cases hops) auto
    ultimately show ?thesis using Cons.IH [OF h(1)] Cons.prems(2) c False by simp
  qed
qed simp

lemma decrypt_cell_layers:
  assumes "peel_layers (hop_peel L u) opens x = Some (opens', Some j, z)"
    "\<forall>hop\<in>set opens. cpath_state hop = CPATH_STATE_OPEN"
  shows "relay_decrypt_cell L u (Origin_circuit (opens @ rest)) x CELL_DIRECTION_IN
    = Some (0, Origin_circuit (opens' @ rest), z, Some j, True)"
  using decrypt_hops_layers [OF assms, of rest 0] assms
  by (cases opens) (auto simp: relay_decrypt_cell_def)

subsection \<open>The life of a circuit\<close>

text \<open>
  A circuit as the client and the relays on its path run it together. A hop is appended to the path,
  the client waits for its keys, and the handshake gives both ends the same key material, from which
  \<open>circuit_finish_handshake\<close> and \<open>onionskin_answer\<close> set up the layer with matching algorithms. Then
  relay cells go out to a hop or come back from one. A step of a cell is its whole way: it is encrypted,
  goes through the relays and is recognised by the party that it is for before the next step begins.
  So a run has no cell under way between two steps, and no cell that a party on the way has taken for its
  own by chance; such a cell ends the run. Between the cells the flow control sets the two windows of a
  hop; its code is not part of the model, and the rule lets it set any windows that are not
  negative, which the code asserts. The path never gets shorter: when a relay truncates it, the client
  closes the whole circuit.
\<close>

inductive circuit_run :: "'c crypto_lib \<Rightarrow> bool \<Rightarrow> 'c crypt_path_t list \<Rightarrow> 'c relay list \<Rightarrow> bool" for L u where
  start: "circuit_run L u [] []"
| append: "circuit_run L u cpath relays \<Longrightarrow> 0 \<le> window \<Longrightarrow> circuit_run L u (cpath_append_hop window cpath) relays"
| await: "circuit_run L u cpath relays \<Longrightarrow> cpath_get_next_non_open_hop cpath = Some i
    \<Longrightarrow> circuit_run L u (cpath[i := (cpath ! i)\<lparr>cpath_state := CPATH_STATE_AWAITING_KEYS\<rparr>]) relays"
| finish: "circuit_run L u cpath relays \<Longrightarrow> cpath_get_next_non_open_hop cpath = Some i
    \<Longrightarrow> cpath_state (cpath ! i) = CPATH_STATE_AWAITING_KEYS \<Longrightarrow> algs_match a b
    \<Longrightarrow> cpath_init_circuit_crypto L u a (cpath ! i) key (length key) = Some (0, hop)
    \<Longrightarrow> relay_crypto_init L v b (RCK_TOR1 tor1_zero) key (length key) = Some (0, r)
    \<Longrightarrow> fmt = (if a = RELAY_CRYPTO_ALG_TOR1 then RELAY_CELL_FORMAT_V0 else RELAY_CELL_FORMAT_V1)
    \<Longrightarrow> circuit_run L u (cpath[i := hop\<lparr>relay_cell_format := fmt, cpath_state := CPATH_STATE_OPEN\<rparr>]) (relays @ [(v, r)])"
| outbound: "circuit_run L u cpath relays \<Longrightarrow> k < length relays \<Longrightarrow> layer_ready (pvt_crypto (cpath ! k)) x
    \<Longrightarrow> relay_encrypt_cell_outbound L u x cpath k = Some (y, cpath')
    \<Longrightarrow> peel_layers (relay_peel L) relays y = Some (relays', Some k, z) \<Longrightarrow> circuit_run L u cpath' relays'"
| inbound: "circuit_run L u cpath relays \<Longrightarrow> k < length relays \<Longrightarrow> layer_ready (snd (relays ! k)) x
    \<Longrightarrow> send_layers (relay_wrap L) (relay_seal L) relays k x = Some (relays', y)
    \<Longrightarrow> relay_decrypt_cell L u (Origin_circuit cpath) y CELL_DIRECTION_IN
          = Some (0, Origin_circuit cpath', z, Some k, True) \<Longrightarrow> circuit_run L u cpath' relays'"
| windows: "circuit_run L u cpath relays \<Longrightarrow> i < length cpath \<Longrightarrow> 0 \<le> pw \<Longrightarrow> 0 \<le> dw
    \<Longrightarrow> circuit_run L u (cpath[i := (cpath ! i)\<lparr>package_window := pw, deliver_window := dw\<rparr>]) relays"

text \<open>What holds after every step: the open hops are in agreement with the relays, the others come after them.\<close>

definition unopened :: "'c crypt_path_t list \<Rightarrow> bool" where
  "unopened rest \<longleftrightarrow>
     (\<forall>hop\<in>set rest. hop_fields_ok hop \<and> pvt_crypto hop = RCK_TOR1 tor1_zero
        \<and> (cpath_state hop = CPATH_STATE_CLOSED \<or> cpath_state hop = CPATH_STATE_AWAITING_KEYS))
     \<and> (\<forall>hop\<in>set (tl rest). cpath_state hop = CPATH_STATE_CLOSED)"

definition circuit_sync :: "'c crypto_lib \<Rightarrow> bool \<Rightarrow> 'c crypt_path_t list \<Rightarrow> 'c relay list \<Rightarrow> bool" where
  "circuit_sync L u cpath relays \<longleftrightarrow>
     list_all2 (hop_sync L u) (take (length relays) cpath) relays \<and> unopened (drop (length relays) cpath)"

lemma circuit_syncE:
  assumes "circuit_sync L u cpath relays"
  obtains opens rest where "cpath = opens @ rest" "list_all2 (hop_sync L u) opens relays" "unopened rest"
  using assms that [of "take (length relays) cpath" "drop (length relays) cpath"] by (simp add: circuit_sync_def)

lemma circuit_syncI:
  "list_all2 (hop_sync L u) opens relays \<Longrightarrow> unopened rest \<Longrightarrow> circuit_sync L u (opens @ rest) relays"
  by (frule list_all2_lengthD) (simp add: circuit_sync_def)

lemma open_hops:
  assumes "list_all2 (hop_sync L u) opens relays"
  shows "\<forall>hop\<in>set opens. cpath_state hop = CPATH_STATE_OPEN" "list_all2 (\<lambda>r hop. hop_sync L u hop r) relays opens"
  using assms by (auto simp: list_all2_conv_all_nth hop_sync_def in_set_conv_nth)

lemma circuit_delivers_out:
  assumes "circuit_sync L u cpath relays" "k < length relays" "layer_ready (pvt_crypto (cpath ! k)) x"
  shows "\<exists>y cpath' relays' j z. relay_encrypt_cell_outbound L u x cpath k = Some (y, cpath')
    \<and> length (c_payload y) = 509 \<and> peel_layers (relay_peel L) relays y = Some (relays', Some j, z) \<and> j \<le> k
    \<and> (j = k \<longrightarrow> layer_delivers (pvt_crypto (cpath ! k)) x z \<and> circuit_sync L u cpath' relays'
         \<and> tags_agree (pvt_crypto (cpath' ! k)) (snd (relays' ! k)))"
proof -
  obtain opens rest where c: "cpath = opens @ rest" "list_all2 (hop_sync L u) opens relays" "unopened rest"
    using assms(1) by (rule circuit_syncE)
  have k: "k < length opens" "k < length cpath" "cpath ! k = opens ! k"
    using assms(2) c list_all2_lengthD [OF c(2)] by (simp_all add: nth_append)
  obtain opens' y relays' j z where h: "send_layers (hop_apply (relay_crypt_client_forward L u))
        (hop_apply (relay_crypt_client_originate L u)) opens k x = Some (opens', y)" "length (c_payload y) = 509"
      "peel_layers (relay_peel L) relays y = Some (relays', Some j, z)" "j \<le> k"
      "j = k \<longrightarrow> layer_delivers (pvt_crypto (opens ! k)) x z \<and> list_all2 (hop_sync L u) opens' relays'
         \<and> tags_agree (pvt_crypto (opens' ! k)) (snd (relays' ! k))"
    using outward.layers_deliver [OF c(2) k(1)] assms(3) k(3) by metis
  have "length opens' = length opens"
    using h(1) k(1) wrap_layers_length by (fastforce simp: send_layers_def bind_eq_Some_conv)
  then show ?thesis
    using h k c(3) circuit_syncI [of L u opens' relays' rest] outbound_layers [OF k(2), of L u x]
    by (auto simp: c(1) send_layers_append nth_append)
qed

lemma circuit_delivers_in:
  assumes "circuit_sync L u cpath relays" "k < length relays" "layer_ready (snd (relays ! k)) x"
  shows "\<exists>y relays' cpath' j z. send_layers (relay_wrap L) (relay_seal L) relays k x = Some (relays', y)
    \<and> length (c_payload y) = 509
    \<and> relay_decrypt_cell L u (Origin_circuit cpath) y CELL_DIRECTION_IN
        = Some (0, Origin_circuit cpath', z, Some j, True) \<and> j \<le> k
    \<and> (j = k \<longrightarrow> layer_delivers (snd (relays ! k)) x z \<and> circuit_sync L u cpath' relays'
         \<and> tags_agree (snd (relays' ! k)) (pvt_crypto (cpath' ! k)))"
proof -
  obtain opens rest where c: "cpath = opens @ rest" "list_all2 (hop_sync L u) opens relays" "unopened rest"
    using assms(1) by (rule circuit_syncE)
  obtain relays' y opens' j z where h: "send_layers (relay_wrap L) (relay_seal L) relays k x = Some (relays', y)"
      "length (c_payload y) = 509" "peel_layers (hop_peel L u) opens y = Some (opens', Some j, z)" "j \<le> k"
      "j = k \<longrightarrow> layer_delivers (snd (relays ! k)) x z \<and> list_all2 (\<lambda>r hop. hop_sync L u hop r) relays' opens'
         \<and> tags_agree (snd (relays' ! k)) (pvt_crypto (opens' ! k))"
    using homeward.layers_deliver [OF open_hops(2) [OF c(2)] assms(2,3)] by metis
  have "length opens' = length opens" using h(3) by (rule peel_layers_length)
  moreover have "k < length opens" using assms(2) list_all2_lengthD [OF c(2)] by simp
  ultimately show ?thesis
    using h circuit_syncI [OF _ c(3), of L u opens' relays'] decrypt_cell_layers [OF h(3) open_hops(1) [OF c(2)], of rest]
    by (auto simp: c(1) nth_append list_all2_conv_all_nth)
qed

text \<open>The steps that build the path keep the agreement.\<close>

lemma next_non_open:
  assumes "\<forall>hop\<in>set opens. cpath_state hop = CPATH_STATE_OPEN" "unopened rest"
  shows "next_non_open_from (opens @ rest) n = (if rest = [] then None else Some (n + length opens))"
  using assms(1)
proof (induction opens arbitrary: n)
  case Nil
  then show ?case using assms(2) by (cases rest) (auto simp: unopened_def)
qed simp

lemma unopened_append:
  assumes "unopened rest" "0 \<le> window"
  shows "\<exists>hop. cpath_append_hop window cpath = cpath @ [hop] \<and> unopened (rest @ [hop])"
  using assms
  by (cases rest) (auto simp: unopened_def cpath_append_hop_def cpath_extend_linked_list_def hop_fields_ok_def)

lemma init_key_length:
  assumes "relay_crypto_init L u a (RCK_TOR1 tor1_zero) key (length key) = Some (0, c)" "algs_match a b"
  shows "relay_crypto_key_material_len a = Some (length key)"
  using assms
  by (auto simp: algs_match_def relay_crypto_init_def relay_crypto_key_material_len_def tor1_crypt_init_def
      tor1_key_material_len_def cgo_pair_init_def Let_def bind_eq_Some_conv split: if_splits)

lemma init_format:
  assumes "relay_crypto_init L u a (RCK_TOR1 tor1_zero) key n = Some (0, c)" "algs_match a b"
  shows "layer_format c = (if a = RELAY_CRYPTO_ALG_TOR1 then RELAY_CELL_FORMAT_V0 else RELAY_CELL_FORMAT_V1)"
  using assms by (auto simp: algs_match_def relay_crypto_init_def layer_format_def Let_def)

lemma unopened_windows:
  assumes "unopened rest" "i < length rest" "0 \<le> pw" "0 \<le> dw"
  shows "unopened (rest[i := (rest ! i)\<lparr>package_window := pw, deliver_window := dw\<rparr>])"
proof -
  obtain h t where "rest = h # t" using assms(2) by (cases rest) auto
  then show ?thesis using assms
    by (cases i) (auto simp: unopened_def hop_fields_ok_def dest!: set_update_subset_insert [THEN subsetD])
qed

lemma sync_windows:
  assumes "circuit_sync L u cpath relays" "i < length cpath" "0 \<le> pw" "0 \<le> dw"
  shows "circuit_sync L u (cpath[i := (cpath ! i)\<lparr>package_window := pw, deliver_window := dw\<rparr>]) relays"
proof (cases "i < length relays")
  case True
  then show ?thesis using assms
    by (auto simp: circuit_sync_def list_all2_conv_all_nth nth_list_update hop_sync_def hop_fields_ok_def take_update_swap)
next
  case False
  then show ?thesis using assms unopened_windows [of "drop (length relays) cpath" "i - length relays" pw dw]
    by (simp add: circuit_sync_def drop_update_swap)
qed

lemma circuit_run_in_sync:
  assumes "lib_ok L" "circuit_run L u cpath relays"
  shows "circuit_sync L u cpath relays"
  using assms(2)
proof induction
  case start
  then show ?case by (simp add: circuit_sync_def unopened_def)
next
  case (append cpath relays window)
  obtain opens rest where c: "cpath = opens @ rest" "list_all2 (hop_sync L u) opens relays" "unopened rest"
    using append.IH by (rule circuit_syncE)
  then show ?case using unopened_append [OF c(3) append.hyps(2), of cpath] circuit_syncI [OF c(2)] by auto
next
  case (await cpath relays i)
  obtain opens rest where c: "cpath = opens @ rest" "list_all2 (hop_sync L u) opens relays" "unopened rest"
    using await.IH by (rule circuit_syncE)
  obtain hop hops where r: "rest = hop # hops" "i = length opens"
    using await.hyps(2) next_non_open [OF open_hops(1) [OF c(2)] c(3), of 0]
    by (cases rest) (auto simp: c(1) cpath_get_next_non_open_hop_def)
  have "unopened (hop\<lparr>cpath_state := CPATH_STATE_AWAITING_KEYS\<rparr> # hops)"
    using c(3) r(1) by (simp add: unopened_def hop_fields_ok_def)
  then show ?case using circuit_syncI [OF c(2)] by (simp add: c(1) r)
next
  case (finish cpath relays i a b key hop v r fmt)
  obtain opens rest where c: "cpath = opens @ rest" "list_all2 (hop_sync L u) opens relays" "unopened rest"
    using finish.IH by (rule circuit_syncE)
  obtain h hops where r: "rest = h # hops" "i = length opens"
    using finish.hyps(2) next_non_open [OF open_hops(1) [OF c(2)] c(3), of 0]
    by (cases rest) (auto simp: c(1) cpath_get_next_non_open_hop_def)
  have z: "pvt_crypto h = RCK_TOR1 tor1_zero" "hop_fields_ok h" "unopened hops"
    using c(3) r(1) by (cases hops; simp add: unopened_def)+
  obtain k where k: "relay_crypto_init L u a (RCK_TOR1 tor1_zero) key (length key) = Some (0, k)"
      "hop = h\<lparr>pvt_crypto := k\<rparr>"
    using finish.hyps(5) z(1) by (auto simp: c(1) r cpath_init_circuit_crypto_def)
  have "layer_sync u k v r"
    using init_sync [OF finish.hyps(4) init_key_length [OF k(1) finish.hyps(4)], of L u v] k(1) finish.hyps(6) by auto
  then have "hop_sync L u (hop\<lparr>relay_cell_format := fmt, cpath_state := CPATH_STATE_OPEN\<rparr>) (v, r)"
    using assms(1) z(2) init_format [OF k(1) finish.hyps(4)] finish.hyps(7)
    by (simp add: k(2) hop_sync_def hop_fields_ok_def)
  then show ?case
    using circuit_syncI [OF list_all2_appendI [OF c(2)] z(3), of "[_]" "[(v, r)]"] by (simp add: c(1) r)
next
  case (outbound cpath relays k x y cpath' relays' z)
  then show ?case using circuit_delivers_out [OF outbound.IH outbound.hyps(2,3)] by auto
next
  case (inbound cpath relays k x relays' y cpath' z)
  then show ?case using circuit_delivers_in [OF inbound.IH inbound.hyps(2,3)] by auto
next
  case (windows cpath relays i pw dw)
  then show ?case by (simp add: sync_windows)
qed

text \<open>A circuit in agreement satisfies the assertions of the code on its path.\<close>

lemma open_layer_ok: "hop_sync L u hop r \<Longrightarrow> cpath_assert_layer_ok hop = Some ()"
  by (auto simp: hop_sync_def hop_fields_ok_def cpath_assert_layer_ok_def relay_crypto_assert_ok_def tor1_crypt_assert_ok_def
      tor1_sync_def guard_def elim!: layer_sync_cases)

lemma assert_closed:
  "\<forall>hop\<in>set hops. hop_fields_ok hop \<and> cpath_state hop = CPATH_STATE_CLOSED \<Longrightarrow> cpath_assert_loop prev hops = Some ()"
  by (induction hops arbitrary: prev) (auto simp: cpath_assert_layer_ok_def hop_fields_ok_def guard_def split: option.splits)

lemma assert_unopened:
  assumes "unopened rest" "prev = None \<or> prev = Some CPATH_STATE_OPEN"
  shows "cpath_assert_loop prev rest = Some ()"
  using assms
  by (cases rest) (auto simp: unopened_def cpath_assert_layer_ok_def hop_fields_ok_def guard_def assert_closed
      split: option.splits)

lemma assert_path:
  assumes "list_all2 (hop_sync L u) opens relays" "unopened rest" "prev = None \<or> prev = Some CPATH_STATE_OPEN"
  shows "cpath_assert_loop prev (opens @ rest) = Some ()"
  using assms(1,3)
proof (induction opens relays arbitrary: prev rule: list_all2_induct)
  case Nil
  then show ?case using assert_unopened [OF assms(2)] by simp
next
  case (Cons hop hops r rs)
  have "cpath_state hop = CPATH_STATE_OPEN" using Cons.hyps(1) by (simp add: hop_sync_def)
  then show ?case
    using Cons.IH [of "Some CPATH_STATE_OPEN"] Cons.prems open_layer_ok [OF Cons.hyps(1)]
    by (auto simp: guard_def)
qed

subsection \<open>Messages\<close>

text \<open>A message is received when its fields and the bytes of its body are those that were sent.\<close>

definition msg_received :: "relay_msg_t \<Rightarrow> relay_msg_t \<Rightarrow> bool" where
  "msg_received msg msg' \<longleftrightarrow> rm_command msg' = rm_command msg \<and> rm_length msg' = rm_length msg
     \<and> rm_stream_id msg' = rm_stream_id msg \<and> rm_is_relay_early msg' = rm_is_relay_early msg
     \<and> take (unat (rm_length msg)) (rm_body msg') = take (unat (rm_length msg)) (rm_body msg)"

definition msg_sendable :: "relay_cell_fmt_t \<Rightarrow> relay_msg_t \<Rightarrow> bool" where
  "msg_sendable format msg \<longleftrightarrow> relay_msg_ok format msg \<and> unat (rm_length msg) \<le> length (rm_body msg)
     \<and> (format = RELAY_CELL_FORMAT_V1 \<longrightarrow> is_known_relay_command (rm_command msg))"

lemma decode_delivered:
  assumes "relay_msg_ok format msg" "format = RELAY_CELL_FORMAT_V1 \<longrightarrow> is_known_relay_command (rm_command msg)"
    and "c_payload cell = relay_header format msg @ rest" "layer_delivers c cell z" "layer_format c = format"
  shows "relay_msg_decode_cell format z = Some (Some
    \<lparr>rm_command = rm_command msg, rm_length = rm_length msg, rm_stream_id = rm_stream_id msg,
     rm_is_relay_early = (c_command cell = CELL_RELAY_EARLY), rm_body = rest\<rparr>)"
proof (cases c)
  case (RCK_TOR1 t)
  then have "z = cell" using assms(4) by (simp add: layer_delivers_def)
  then show ?thesis using decode_payload [OF assms(1-3)] by (simp add: relay_msg_decode_cell_def)
next
  case (RCK_CGO p)
  define n where "n = take 16 (c_payload z)"
  have f: "format = RELAY_CELL_FORMAT_V1" using assms(5) RCK_CGO by (simp add: layer_format_def)
  have n: "length n = 16" and z: "z = cell\<lparr>c_payload := n @ drop 16 (c_payload cell)\<rparr>"
    using assms(4) RCK_CGO unfolding n_def layer_delivers_def by simp_all
  have "drop 16 (c_payload cell) = [rm_command msg] @ mem_bytes 2 (htons (rm_length msg))
      @ (if relay_cmd_expects_streamid_in_v1 (rm_command msg) then mem_bytes 2 (htons (rm_stream_id msg)) else []) @ rest"
    using assms(3) by (simp add: f relay_header_def)
  then have "z = \<lparr>c_circ_id = c_circ_id cell, c_command = c_command cell, c_payload = n @ [rm_command msg]
      @ mem_bytes 2 (htons (rm_length msg))
      @ (if relay_cmd_expects_streamid_in_v1 (rm_command msg) then mem_bytes 2 (htons (rm_stream_id msg)) else []) @ rest\<rparr>"
    using z by simp
  then show ?thesis
    using decode_v1_form [OF n] assms(1,2) f by (simp add: relay_msg_decode_cell_def relay_msg_decode_cell_in_place_def)
qed

lemma encoded_message:
  assumes "\<And>n. length (rnd n) = n" "msg_sendable format msg"
  shows "\<exists>cell. relay_msg_encode_cell rnd format msg = Some (0, cell)
    \<and> (\<forall>c. layer_format c = format \<longrightarrow> layer_ready c cell
         \<and> (\<forall>z. layer_delivers c cell z \<longrightarrow>
              (\<exists>msg'. relay_msg_decode_cell format z = Some (Some msg') \<and> msg_received msg msg')))"
proof -
  have ok: "relay_msg_ok format msg" "unat (rm_length msg) \<le> length (rm_body msg)"
      "format = RELAY_CELL_FORMAT_V1 \<longrightarrow> is_known_relay_command (rm_command msg)"
    using assms(2) by (simp_all add: msg_sendable_def)
  define body where "body = take (unat (rm_length msg)) (rm_body msg)"
  define cell where "cell = \<lparr>c_circ_id = 0, c_command = (if rm_is_relay_early msg then CELL_RELAY_EARLY else CELL_RELAY),
     c_payload = relay_payload rnd format msg\<rparr>"
  obtain pad where p: "c_payload cell = relay_header format msg @ body @ pad"
    by (simp add: cell_def relay_payload_def Let_def body_def)
  have len: "length (c_payload cell) = 509"
    using length_relay_payload [OF assms(1) ok(1,2)] by (simp add: cell_def)
  have "layer_ready c cell" if "layer_format c = format" for c :: "'b relay_crypto_t"
    using that len p by (cases c) (auto simp: layer_format_def layer_ready_def tor1_cell_ready_def integrity_of_def
        relay_header_def)
  moreover define got where "got = \<lparr>rm_command = rm_command msg, rm_length = rm_length msg, rm_stream_id = rm_stream_id msg,
     rm_is_relay_early = (c_command cell = CELL_RELAY_EARLY), rm_body = body @ pad\<rparr>"
  moreover have "msg_received msg got"
    using ok(2) by (simp add: msg_received_def got_def cell_def CELL_RELAY_EARLY_def CELL_RELAY_def body_def)
  moreover have "relay_msg_encode_cell rnd format msg = Some (0, cell)"
    using encode_form [OF assms(1) ok(1,2)] by (simp add: cell_def)
  ultimately show ?thesis using decode_delivered [OF ok(1,3) p] by blast
qed

subsection \<open>What a circuit guarantees\<close>

text \<open>A library for the concrete cases: a counter as key stream, the complement as block cipher, a sum as hash.\<close>

definition counter_lib :: "nat crypto_lib" where
  "counter_lib =
     \<lparr>ctr_init = (\<lambda>bits key iv. length key), ctr_set_iv = (\<lambda>c iv. c),
      ctr_update = (\<lambda>c xs. (xor_bytes xs (map word_of_nat [c ..< c + length xs]), c + length xs)),
      ecb_crypt = (\<lambda>bits e key b. map not b),
      hash_of = (\<lambda>alg xs. replicate (crypto_digest_algorithm_get_length alg) (sum_list xs))\<rparr>"

lemma xor_zeros: "length ys = n \<Longrightarrow> xor_bytes (replicate n 0) ys = ys"
  by (rule nth_equalityI) (auto simp: xor_bytes_def)

lemma counter_lib_ok: "lib_ok counter_lib"
  by (auto simp: lib_ok_def counter_lib_def ctr_is_stream_def ecb_is_permutation_def hash_lengths_def keystream_def
      ctr_after_def xor_zeros o_def)

lemma circuit_extends:
  fixes key :: "byte list"
  assumes "lib_ok L" "circuit_run L u cpath relays" "length cpath = length relays" "algs_match a b"
    "relay_crypto_key_material_len a = Some (length key)"
  shows "\<exists>hop r. circuit_run L u (cpath @ [hop]) (relays @ [(v, r)])
    \<and> relay_cell_format hop = (if a = RELAY_CRYPTO_ALG_TOR1 then RELAY_CELL_FORMAT_V0 else RELAY_CELL_FORMAT_V1)"
proof -
  define path where "path = cpath_append_hop 1000 cpath"
  obtain opens rest where c: "cpath = opens @ rest" "list_all2 (hop_sync L u) opens relays" "unopened rest"
    using circuit_run_in_sync [OF assms(1,2)] by (rule circuit_syncE)
  have "rest = []" using c(1) assms(3) list_all2_lengthD [OF c(2)] by simp
  then have o: "\<forall>hop\<in>set cpath. cpath_state hop = CPATH_STATE_OPEN" using open_hops(1) [OF c(2)] c(1) by simp
  have n: "next_non_open_from (cpath @ [hop]) 0 = Some (length cpath)"
    if "cpath_state hop \<noteq> CPATH_STATE_OPEN" for hop
  proof -
    have "next_non_open_from (xs @ [hop]) i = Some (i + length xs)"
      if "\<forall>hop\<in>set xs. cpath_state hop = CPATH_STATE_OPEN" for xs i
      using that \<open>cpath_state hop \<noteq> CPATH_STATE_OPEN\<close> by (induction xs arbitrary: i) auto
    then show ?thesis using o by simp
  qed
  define hop :: "'a crypt_path_t" where "hop = \<lparr>cp_magic = CRYPT_PATH_MAGIC, cpath_state = CPATH_STATE_AWAITING_KEYS,
     package_window = 1000, deliver_window = 1000, relay_cell_format = RELAY_CELL_FORMAT_V0, pvt_crypto = RCK_TOR1 tor1_zero\<rparr>"
  have "circuit_run L u path relays" unfolding path_def using assms(2) by (rule circuit_run.append) simp
  then have run: "circuit_run L u (cpath @ [hop]) relays"
    using circuit_run.await [of L u path relays "length cpath"] n
    by (simp add: path_def cpath_append_hop_def cpath_extend_linked_list_def cpath_get_next_non_open_hop_def hop_def)
  obtain kc kr where k: "relay_crypto_init L u a (RCK_TOR1 tor1_zero) key (length key) = Some (0, kc)"
      "relay_crypto_init L v b (RCK_TOR1 tor1_zero) key (length key) = Some (0, kr)"
    using init_sync [OF assms(4,5), of L u v] by blast
  define f where "f = (if a = RELAY_CRYPTO_ALG_TOR1 then RELAY_CELL_FORMAT_V0 else RELAY_CELL_FORMAT_V1)"
  have "circuit_run L u ((cpath @ [hop])[length cpath := hop\<lparr>pvt_crypto := kc, relay_cell_format := f,
      cpath_state := CPATH_STATE_OPEN\<rparr>]) (relays @ [(v, kr)])"
    using run _ _ assms(4) _ k(2) f_def
    by (rule circuit_run.finish) (use n [of hop] k(1) in
        \<open>simp_all add: cpath_get_next_non_open_hop_def cpath_init_circuit_crypto_def hop_def\<close>)
  then have "circuit_run L u (cpath @ [hop\<lparr>pvt_crypto := kc, relay_cell_format := f, cpath_state := CPATH_STATE_OPEN\<rparr>])
      (relays @ [(v, kr)])"
    by simp
  then show ?thesis unfolding f_def [symmetric] by fastforce
qed

text \<open>The circuit of the concrete cases, with one relay of each kind, and a message for it.\<close>

lemma circuit_of_two:
  "\<exists>cpath r1 r2. circuit_run counter_lib True cpath [(False, r1), (True, r2)]
     \<and> relay_cell_format (cpath ! 0) = RELAY_CELL_FORMAT_V1"
proof -
  have l: "relay_crypto_key_material_len RELAY_CRYPTO_ALG_CGO_CLIENT = Some (length (replicate 160 (7 :: byte)))"
      "relay_crypto_key_material_len RELAY_CRYPTO_ALG_TOR1 = Some (length (replicate 72 (7 :: byte)))"
    by (simp_all add: relay_crypto_key_material_len_def cgo_key_material_len_def cgo_uiv_keylen_def
        cgo_et_keylen_def cgo_prf_keylen_def tor1_key_material_len_def CPATH_KEY_MATERIAL_LEN_def)
  obtain h1 r1 where c: "circuit_run counter_lib True [h1] [(False, r1)]" "relay_cell_format h1 = RELAY_CELL_FORMAT_V1"
    using circuit_extends [OF counter_lib_ok circuit_run.start _ _ l(1), of RELAY_CRYPTO_ALG_CGO_RELAY True False]
    by (auto simp: algs_match_def)
  obtain h2 r2 where d: "circuit_run counter_lib True [h1, h2] [(False, r1), (True, r2)]"
    using circuit_extends [OF counter_lib_ok c(1) _ _ l(2), of RELAY_CRYPTO_ALG_TOR1 True]
    by (auto simp: algs_match_def)
  show ?thesis by (intro exI conjI) (rule d, simp add: c(2))
qed

definition sample_msg :: relay_msg_t where
  "sample_msg = \<lparr>rm_command = RELAY_COMMAND_DATA, rm_length = 3, rm_stream_id = 258, rm_is_relay_early = False,
     rm_body = [1, 2, 3]\<rparr>"

lemma sample_msg_sendable: "msg_sendable RELAY_CELL_FORMAT_V1 sample_msg"
  by (simp add: msg_sendable_def sample_msg_def relay_msg_ok_def relay_cell_max_payload_size_def
      relay_cmd_expects_streamid_in_v1_def is_known_relay_command_def payload_sizes)

text \<open>
  C4: After any sequence of whole steps, the path of the client and the relays are in agreement. The
  steps append a hop, wait for its keys, finish its handshake, set the windows of a hop, or bring a
  cell all the way to the hop that it is for or from there to the client. Then each open hop has the
  keys, counters, running digests and nonces of its relay and the cell format that goes with its
  cryptography; the hops that are not open come after them and have no keys; the assertions that the
  code makes on a path hold. Nothing is said of cells that are still under way, nor of what
  follows a cell that a relay on the way takes for its own by chance.
\<close>

theorem circuit_stays_in_sync:
  assumes "lib_ok L" "circuit_run L u cpath relays"
  shows "circuit_sync L u cpath relays \<and> cpath_assert_ok cpath = Some ()"
proof -
  obtain opens rest where "cpath = opens @ rest" "list_all2 (hop_sync L u) opens relays" "unopened rest"
    using circuit_run_in_sync [OF assms] by (rule circuit_syncE)
  then show ?thesis
    using circuit_run_in_sync [OF assms] assert_path [of L u opens relays rest None] by (simp add: cpath_assert_ok_def)
qed

theorem circuit_stays_in_sync_witness:
  "\<exists>cpath relays. circuit_run counter_lib True cpath relays \<and> length relays = 2
     \<and> circuit_sync counter_lib True cpath relays \<and> cpath_assert_ok cpath = Some ()"
proof -
  obtain cpath r1 r2 where "circuit_run counter_lib True cpath [(False, r1), (True, r2)]"
    using circuit_of_two by blast
  then show ?thesis using circuit_stays_in_sync [OF counter_lib_ok] by fastforce
qed

text \<open>
  C2: A message that the client sends to a hop arrives there. The client encodes it for the cell
  format of the hop and encrypts it for the hop and for all hops before it; each relay takes one layer
  off, until one recognises the cell. Unless a relay before the addressed one takes the cell for its
  own because the bytes that it checks agree by chance, the addressed relay recognises it and decodes the message that was sent, both ends have the same tag for the acknowledgement, and
  the circuit goes on in agreement.
\<close>

theorem client_message_reaches_hop:
  assumes "\<And>n. length (rnd n) = n" "lib_ok L" "circuit_run L u cpath relays" "k < length relays"
    and "msg_sendable (relay_cell_format (cpath ! k)) msg"
  shows "\<exists>cell wire cpath' relays' j got.
    relay_msg_encode_cell rnd (relay_cell_format (cpath ! k)) msg = Some (0, cell)
    \<and> relay_encrypt_cell_outbound L u cell cpath k = Some (wire, cpath')
    \<and> peel_layers (relay_peel L) relays wire = Some (relays', Some j, got) \<and> j \<le> k
    \<and> (j = k \<longrightarrow>
         (\<exists>msg'. relay_msg_decode_cell (relay_cell_format (cpath ! k)) got = Some (Some msg') \<and> msg_received msg msg')
         \<and> tags_agree (pvt_crypto (cpath' ! k)) (snd (relays' ! k)) \<and> circuit_run L u cpath' relays')"
proof -
  have sync: "circuit_sync L u cpath relays" by (rule circuit_run_in_sync [OF assms(2,3)])
  then have f: "layer_format (pvt_crypto (cpath ! k)) = relay_cell_format (cpath ! k)"
    using assms(4) by (auto simp: circuit_sync_def list_all2_conv_all_nth hop_sync_def)
  obtain cell where cell: "relay_msg_encode_cell rnd (relay_cell_format (cpath ! k)) msg = Some (0, cell)"
      "layer_ready (pvt_crypto (cpath ! k)) cell"
      "\<forall>z. layer_delivers (pvt_crypto (cpath ! k)) cell z \<longrightarrow>
         (\<exists>msg'. relay_msg_decode_cell (relay_cell_format (cpath ! k)) z = Some (Some msg') \<and> msg_received msg msg')"
    using encoded_message [OF assms(1,5)] f by blast
  show ?thesis
    using cell(1,3) circuit_delivers_out [OF sync assms(4) cell(2)] circuit_run.outbound [OF assms(3,4) cell(2)] by blast
qed

theorem client_message_reaches_hop_witness:
  "\<exists>cell wire cpath relays cpath' relays' got msg'. circuit_run counter_lib True cpath relays \<and> length relays = 2
    \<and> relay_msg_encode_cell (\<lambda>n. replicate n 9) RELAY_CELL_FORMAT_V1 sample_msg = Some (0, cell)
    \<and> relay_encrypt_cell_outbound counter_lib True cell cpath 0 = Some (wire, cpath')
    \<and> peel_layers (relay_peel counter_lib) relays wire = Some (relays', Some 0, got)
    \<and> relay_msg_decode_cell RELAY_CELL_FORMAT_V1 got = Some (Some msg') \<and> msg_received sample_msg msg'"
proof -
  obtain cpath r1 r2 where c: "circuit_run counter_lib True cpath [(False, r1), (True, r2)]"
      "relay_cell_format (cpath ! 0) = RELAY_CELL_FORMAT_V1"
    using circuit_of_two by blast
  show ?thesis
    using client_message_reaches_hop [of "\<lambda>n. replicate n 9", OF _ counter_lib_ok c(1), of 0 sample_msg]
      sample_msg_sendable c
    by fastforce
qed

text \<open>
  C3: A message that a relay sends back arrives at the client: the relay seals it, the relays before
  it add their layers, and the client takes off one layer after the other. Unless a hop before it
  takes the cell for its own, the client recognises the cell at the hop it came from, reports that hop,
  and decodes the message that was sent; the tags agree and the circuit goes on in agreement.
\<close>

theorem relay_message_reaches_client:
  assumes "\<And>n. length (rnd n) = n" "lib_ok L" "circuit_run L u cpath relays" "k < length relays"
    and "msg_sendable (relay_cell_format (cpath ! k)) msg"
  shows "\<exists>cell wire cpath' relays' j got.
    relay_msg_encode_cell rnd (relay_cell_format (cpath ! k)) msg = Some (0, cell)
    \<and> send_layers (relay_wrap L) (relay_seal L) relays k cell = Some (relays', wire)
    \<and> relay_decrypt_cell L u (Origin_circuit cpath) wire CELL_DIRECTION_IN
        = Some (0, Origin_circuit cpath', got, Some j, True) \<and> j \<le> k
    \<and> (j = k \<longrightarrow>
         (\<exists>msg'. relay_msg_decode_cell (relay_cell_format (cpath ! k)) got = Some (Some msg') \<and> msg_received msg msg')
         \<and> tags_agree (snd (relays' ! k)) (pvt_crypto (cpath' ! k)) \<and> circuit_run L u cpath' relays')"
proof -
  have sync: "circuit_sync L u cpath relays" by (rule circuit_run_in_sync [OF assms(2,3)])
  then have "hop_sync L u (cpath ! k) (relays ! k)"
    using assms(4) by (auto simp: circuit_sync_def list_all2_conv_all_nth)
  then have f: "layer_format (snd (relays ! k)) = relay_cell_format (cpath ! k)"
    by (auto simp: hop_sync_def layer_format_def elim!: layer_sync_cases)
  obtain cell where cell: "relay_msg_encode_cell rnd (relay_cell_format (cpath ! k)) msg = Some (0, cell)"
      "layer_ready (snd (relays ! k)) cell"
      "\<forall>z. layer_delivers (snd (relays ! k)) cell z \<longrightarrow>
         (\<exists>msg'. relay_msg_decode_cell (relay_cell_format (cpath ! k)) z = Some (Some msg') \<and> msg_received msg msg')"
    using encoded_message [OF assms(1,5)] f by blast
  show ?thesis
    using cell(1,3) circuit_delivers_in [OF sync assms(4) cell(2)] circuit_run.inbound [OF assms(3,4) cell(2)] by blast
qed

theorem relay_message_reaches_client_witness:
  "\<exists>cell wire cpath relays cpath' relays' got msg'. circuit_run counter_lib True cpath relays \<and> length relays = 2
    \<and> relay_msg_encode_cell (\<lambda>n. replicate n 9) RELAY_CELL_FORMAT_V1 sample_msg = Some (0, cell)
    \<and> send_layers (relay_wrap counter_lib) (relay_seal counter_lib) relays 0 cell = Some (relays', wire)
    \<and> relay_decrypt_cell counter_lib True (Origin_circuit cpath) wire CELL_DIRECTION_IN
        = Some (0, Origin_circuit cpath', got, Some 0, True)
    \<and> relay_msg_decode_cell RELAY_CELL_FORMAT_V1 got = Some (Some msg') \<and> msg_received sample_msg msg'"
proof -
  obtain cpath r1 r2 where c: "circuit_run counter_lib True cpath [(False, r1), (True, r2)]"
      "relay_cell_format (cpath ! 0) = RELAY_CELL_FORMAT_V1"
    using circuit_of_two by blast
  show ?thesis
    using relay_message_reaches_client [of "\<lambda>n. replicate n 9", OF _ counter_lib_ok c(1), of 0 sample_msg]
      sample_msg_sendable c
    by fastforce
qed

subsection \<open>The layer of an onion service\<close>

text \<open>
  On a rendezvous circuit the last hop of the client and the last hop of the service are the same
  layer, which the service sets up the other way round. Both send with the functions of a client
  and receive with them; a step is a cell that goes through this layer, in either direction.
\<close>

inductive hs_run :: "'c crypto_lib \<Rightarrow> 'c relay_crypto_t \<Rightarrow> 'c relay_crypto_t \<Rightarrow> bool" for L where
  setup_keys: "relay_crypto_init L u RELAY_CRYPTO_ALG_TOR1_HSC (RCK_TOR1 tor1_zero) key (length key) = Some (0, c)
    \<Longrightarrow> relay_crypto_init L v RELAY_CRYPTO_ALG_TOR1_HSS (RCK_TOR1 tor1_zero) key (length key) = Some (0, s)
    \<Longrightarrow> hs_run L c s"
| client_sends: "hs_run L c s \<Longrightarrow> layer_ready c x \<Longrightarrow> relay_crypt_client_originate L u c x = Some (c', y)
    \<Longrightarrow> relay_crypt_client_backward L v s y = Some (True, s', z) \<Longrightarrow> hs_run L c' s'"
| service_sends: "hs_run L c s \<Longrightarrow> layer_ready s x \<Longrightarrow> relay_crypt_client_originate L v s x = Some (s', y)
    \<Longrightarrow> relay_crypt_client_backward L u c y = Some (True, c', z) \<Longrightarrow> hs_run L c' s'"

definition hs_sync :: "'c relay_crypto_t \<Rightarrow> 'c relay_crypto_t \<Rightarrow> bool" where
  "hs_sync c s \<longleftrightarrow> (case (c, s) of (RCK_TOR1 c, RCK_TOR1 s) \<Rightarrow> tor1_sync c (tor1_swap s) | _ \<Rightarrow> False)"

lemma hs_sync_sym: "hs_sync c s \<Longrightarrow> hs_sync s c"
  by (auto simp: hs_sync_def tor1_sync_def tor1_swap_def split: relay_crypto_t.splits)

lemma hs_delivers:
  assumes "lib_ok L" "hs_sync c s" "layer_ready c x"
  shows "\<exists>c' y s'. relay_crypt_client_originate L u c x = Some (c', y) \<and> length (c_payload y) = 509
    \<and> relay_crypt_client_backward L v s y = Some (True, s', x) \<and> hs_sync c' s' \<and> tags_agree c' s'"
proof -
  obtain tc ts where t: "c = RCK_TOR1 tc" "s = RCK_TOR1 ts" "tor1_sync tc (tor1_swap ts)"
    using assms(2) by (auto simp: hs_sync_def split: relay_crypto_t.splits)
  obtain c' r' y where h: "tor1_crypt_client_originate L tc x = Some (c', y)" "length (c_payload y) = 509"
      "tor1_crypt_relay_forward L (tor1_swap ts) y = Some (True, r', x)" "tor1_sync c' r'"
      "sendme_digest c' = sendme_digest r'"
    using tor1_forward_recognized [of L tc "tor1_swap ts" x] assms(1,3) t
    by (auto simp: lib_ok_def layer_ready_def)
  moreover have "tor1_crypt_client_backward L ts y = Some (True, tor1_swap r', x)"
    using client_backward_swap [of L "tor1_swap ts" y] h(3) by simp
  moreover have "sendme_digest (tor1_swap r') = sendme_digest r'" "length (sendme_digest r') = 20"
    using h(4) by (simp_all add: tor1_swap_def tor1_sync_def)
  ultimately show ?thesis
    by (simp add: t relay_crypt_client_originate_def relay_crypt_client_backward_def hs_sync_def tags_agree_def
        relay_crypto_get_sendme_tag_def relay_crypto_sendme_tag_len_def)
qed

lemma hs_init:
  assumes "length key = HS_NTOR_KEY_EXPANSION_KDF_OUT_LEN"
  shows "\<exists>t. tor1_crypt_init L tor1_zero key (length key) False True = Some (0, t) \<and> tor1_sync t t"
  using assms
  by (simp add: tor1_crypt_init_def tor1_zero_def HS_NTOR_KEY_EXPANSION_KDF_OUT_LEN_def crypto_digest_add_bytes_def
      arr_slice_def crypto_cipher_new_with_bits_def aes_new_cipher_def crypto_digest256_new_def tor1_sync_def)

lemma hs_run_in_sync:
  assumes "lib_ok L" "hs_run L c s"
  shows "hs_sync c s"
  using assms(2)
proof induction
  case (setup_keys u key c v s)
  have "length key = HS_NTOR_KEY_EXPANSION_KDF_OUT_LEN"
    using setup_keys(1) by (auto simp: relay_crypto_init_def tor1_crypt_init_def Let_def bind_eq_Some_conv split: if_splits)
  then obtain t where "tor1_crypt_init L tor1_zero key (length key) False True = Some (0, t)" "tor1_sync t t"
    using hs_init by blast
  then show ?case using setup_keys by (auto simp: relay_crypto_init_def init_reverse hs_sync_def)
next
  case (client_sends c s x u c' y v s' z)
  then show ?case using hs_delivers [OF assms(1) client_sends.IH client_sends.hyps(2), of u v] by auto
next
  case (service_sends c s x v s' y u c' z)
  then show ?case
    using hs_delivers [OF assms(1) hs_sync_sym [OF service_sends.IH] service_sends.hyps(2), of v u] hs_sync_sym by auto
qed

text \<open>
  C17: A client and an onion service that set up their shared layer from the same key material
  understand each other in both directions, after any exchange of cells: what one end seals, the other
  recognises and gets back unchanged, both have the same tag for it, and the layer goes on in
  agreement.
\<close>

theorem onion_service_layer:
  assumes "lib_ok L" "hs_run L c s" "tor1_cell_ready x"
  shows "(\<exists>c' y s'. relay_crypt_client_originate L u c x = Some (c', y)
      \<and> relay_crypt_client_backward L v s y = Some (True, s', x) \<and> tags_agree c' s' \<and> hs_run L c' s')
    \<and> (\<exists>s' y c'. relay_crypt_client_originate L v s x = Some (s', y)
      \<and> relay_crypt_client_backward L u c y = Some (True, c', x) \<and> tags_agree s' c' \<and> hs_run L c' s')"
proof -
  have sync: "hs_sync c s" by (rule hs_run_in_sync [OF assms(1,2)])
  have ready: "layer_ready c x" "layer_ready s x"
    using sync assms(3) by (auto simp: hs_sync_def layer_ready_def split: relay_crypto_t.splits)
  show ?thesis
    using hs_delivers [OF assms(1) sync ready(1), of u v] hs_delivers [OF assms(1) hs_sync_sym [OF sync] ready(2), of v u]
      hs_run.client_sends [OF assms(2) ready(1)] hs_run.service_sends [OF assms(2) ready(2)] by blast
qed

theorem onion_service_layer_witness:
  "\<exists>c s c' y s'. hs_run counter_lib c s
    \<and> relay_crypt_client_originate counter_lib True c \<lparr>c_circ_id = 1, c_command = 3, c_payload = replicate 509 0\<rparr> = Some (c', y)
    \<and> relay_crypt_client_backward counter_lib False s y
        = Some (True, s', \<lparr>c_circ_id = 1, c_command = 3, c_payload = replicate 509 0\<rparr>)"
proof -
  obtain t where t: "tor1_crypt_init counter_lib tor1_zero (replicate 128 5) 128 False True = Some (0, t)"
    using hs_init [of "replicate 128 5" counter_lib] by (auto simp: HS_NTOR_KEY_EXPANSION_KDF_OUT_LEN_def)
  have "hs_run counter_lib (RCK_TOR1 t) (RCK_TOR1 (tor1_swap t))"
    using t by (intro hs_run.setup_keys [of counter_lib True "replicate 128 5" _ True])
      (simp_all add: relay_crypto_init_def init_reverse)
  moreover have "tor1_cell_ready \<lparr>c_circ_id = 1, c_command = 3, c_payload = replicate 509 0\<rparr>"
    by (simp add: tor1_cell_ready_def integrity_of_def)
  ultimately show ?thesis using onion_service_layer [OF counter_lib_ok] by blast
qed

end
